(* ===== verification/Prelude_ZK.thy ===== *)
theory Prelude_ZK
  imports Main "HOL-Library.Word"
begin

text \<open>
  Shared vocabulary of the development.

  \<^item> The machine integer types of the Rust sources.
  \<^item> Failure as a value. A Rust function of the verifier can leave its normal path in two ways:
    it returns \<open>Err(e)\<close>, which the \<open>?\<close> operator hands to the caller, or it panics, which
    unwinds through the callers. Both are the left side of the sum type \<open>res\<close>; \<open>rbind\<close> is
    sequential composition and hands either kind on, and \<open>catch_unwind\<close> is the one operation
    that tells them apart.
  \<^item> Loops of fallible code (\<open>rfold\<close>, \<open>rtimes\<close>) with the lemmas that carry invariants over them.
  \<^item> Little-endian values of limb lists, the common language of the arithmetic proofs.
\<close>

unbundle bit_operations_syntax

named_theorems res_simps \<open>rewriting of fallible computations that are known to succeed\<close>
named_theorems res_inv \<open>inversion of successful fallible computations\<close>

section \<open>Machine integers\<close>

type_synonym u8 = "8 word"
type_synonym u64 = "64 word"
type_synonym u128 = "128 word"

section \<open>Failure as a value\<close>

text \<open>The reasons for a panic: a failed \<open>assert!\<close> with its message, a slice index or a slice range
  out of bounds, a \<open>Vec\<close> capacity beyond \<open>isize::MAX\<close> bytes, an \<open>unwrap\<close> on the wrong variant, an explicit \<open>panic!\<close>.\<close>

datatype panic =
    Assert_Failed string
  | Index_Out_Of_Bounds
  | Slice_Out_Of_Bounds
  | Capacity_Overflow
  | Subtract_Overflow
  | Unwrap_Failed string
  | Explicit_Panic string

text \<open>The messages of \<open>VerifyError::DecodeError\<close>, with the numbers that the source formats into
  them.\<close>

datatype decode_msg =
    Read_Out_Of_Bounds nat nat
  | Too_Large_For_Usize
  | Array_Too_Long nat
  | Offset_Overflow
  | Advance_Out_Of_Bounds nat nat nat
  | Size_Overflow string

text \<open>\<open>VerifyError\<close> (\<open>error.rs\<close>). \<open>VerificationFailed\<close> is built from a caught panic only, so it
  carries that panic.\<close>

datatype verify_error =
    InvalidProof string
  | InvalidFormat string
  | BundleParse string
  | VerificationFailed panic
  | DecodeError decode_msg

datatype failure = Panicked panic | Returned verify_error

type_synonym 'a res = "failure + 'a"

text \<open>Sequential composition, on any type of errors.\<close>

definition rbind :: "'e + 'a \<Rightarrow> ('a \<Rightarrow> 'e + 'b) \<Rightarrow> 'e + 'b" where
  "rbind m f = (case m of Inl e \<Rightarrow> Inl e | Inr x \<Rightarrow> f x)"

definition rpanic :: "panic \<Rightarrow> 'a res" where
  "rpanic p = Inl (Panicked p)"

definition rerr :: "verify_error \<Rightarrow> 'a res" where
  "rerr e = Inl (Returned e)"

text \<open>\<open>assert!(b, "msg")\<close>.\<close>

definition rassert :: "bool \<Rightarrow> string \<Rightarrow> unit res" where
  "rassert b msg = (if b then Inr () else rpanic (Assert_Failed msg))"

text \<open>\<open>xs[i]\<close> on a slice or a \<open>Vec\<close>.\<close>

definition idx :: "'a list \<Rightarrow> nat \<Rightarrow> 'a res" where
  "idx xs i = (if i < length xs then Inr (xs ! i) else rpanic Index_Out_Of_Bounds)"

text \<open>\<open>xs[i] = v\<close>.\<close>

definition upd :: "'a list \<Rightarrow> nat \<Rightarrow> 'a \<Rightarrow> 'a list res" where
  "upd xs i v = (if i < length xs then Inr (xs[i := v]) else rpanic Index_Out_Of_Bounds)"

text \<open>\<open>Vec::with_capacity(n)\<close> for elements of \<open>w\<close> bytes: it panics when the size in bytes exceeds
  \<open>isize::MAX\<close>. Exhaustion of memory below that bound is outside the model.\<close>

definition with_capacity :: "nat \<Rightarrow> nat \<Rightarrow> unit res" where
  "with_capacity w n = (if w * n < 2 ^ 63 then Inr () else rpanic Capacity_Overflow)"

text \<open>\<open>1usize << k\<close> and \<open>x >> k\<close> in a build without overflow checks: the shift distance is taken
  modulo 64.\<close>

definition shl1 :: "nat \<Rightarrow> nat" where
  "shl1 k = 2 ^ (k mod 64)"

definition shr :: "nat \<Rightarrow> nat \<Rightarrow> nat" where
  "shr x k = x div 2 ^ (k mod 64)"

text \<open>\<open>&xs[a..b]\<close>.\<close>

definition slice :: "'a list \<Rightarrow> nat \<Rightarrow> nat \<Rightarrow> 'a list res" where
  "slice xs a b = (if a \<le> b \<and> b \<le> length xs then Inr (take (b - a) (drop a xs)) else rpanic Slice_Out_Of_Bounds)"

text \<open>\<open>a - b\<close> on \<open>usize\<close> where the source relies on \<open>b \<le> a\<close>. An overflow-checked build panics
  otherwise; without the checks the difference wraps around to a length that the slice or the
  allocation after it cannot have, which panics as well.\<close>

definition usub :: "nat \<Rightarrow> nat \<Rightarrow> nat res" where
  "usub a b = (if b \<le> a then Inr (a - b) else rpanic Subtract_Overflow)"

text \<open>\<open>std::panic::catch_unwind\<close> followed by the conversion of the panic payload into
  \<open>VerificationFailed\<close>.\<close>

definition catch_unwind :: "'a res \<Rightarrow> 'a res" where
  "catch_unwind m =
     (case m of Inl (Panicked p) \<Rightarrow> rerr (VerificationFailed p) | Inl e \<Rightarrow> Inl e | Inr x \<Rightarrow> Inr x)"

definition panics :: "'a res \<Rightarrow> bool" where
  "panics m = (case m of Inl (Panicked _) \<Rightarrow> True | _ \<Rightarrow> False)"

lemma rbind_Inr [simp]: "rbind (Inr x) f = f x"
  by (simp add: rbind_def)

lemma rbind_Inl [simp]: "rbind (Inl e) f = Inl e"
  by (simp add: rbind_def)

lemma rbind_rpanic [simp]: "rbind (rpanic p) f = rpanic p"
  by (simp add: rpanic_def)

lemma rbind_rerr [simp]: "rbind (rerr e) f = rerr e"
  by (simp add: rerr_def)

lemma rbind_eq_Inr_iff [res_inv]: "rbind m f = Inr y \<longleftrightarrow> (\<exists>x. m = Inr x \<and> f x = Inr y)"
  by (cases m) auto

lemma rbind_assoc: "rbind (rbind m f) g = rbind m (\<lambda>x. rbind (f x) g)"
  by (cases m) auto

lemma rbind_cong [fundef_cong]:
  "m = m' \<Longrightarrow> (\<And>x. m' = Inr x \<Longrightarrow> f x = g x) \<Longrightarrow> rbind m f = rbind m' g"
  by (cases m') auto

lemma rpanic_neq_Inr [simp]: "rpanic p \<noteq> Inr x" "Inr x \<noteq> rpanic p"
  by (simp_all add: rpanic_def)

lemma rpanic_neq_rerr [simp]: "rpanic p \<noteq> rerr e" "rerr e \<noteq> rpanic p" "rpanic p = rpanic p' \<longleftrightarrow> p = p'"
  by (simp_all add: rpanic_def rerr_def)

lemma rerr_neq_Inr [simp]: "rerr e \<noteq> Inr x" "Inr x \<noteq> rerr e"
  by (simp_all add: rerr_def)

lemma rassert_eq_Inr_iff [res_inv, simp]: "rassert b msg = Inr u \<longleftrightarrow> b"
  by (simp add: rassert_def)

lemma rassert_True [simp]: "rassert True msg = Inr ()"
  by (simp add: rassert_def)

lemma idx_eq_Inr_iff [res_inv]: "idx xs i = Inr x \<longleftrightarrow> i < length xs \<and> xs ! i = x"
  by (auto simp: idx_def)

lemma idx_in_range [res_simps]: "i < length xs \<Longrightarrow> idx xs i = Inr (xs ! i)"
  by (simp add: idx_def)

lemma slice_eq_Inr_iff [res_inv]:
  "slice xs a b = Inr ys \<longleftrightarrow> a \<le> b \<and> b \<le> length xs \<and> ys = take (b - a) (drop a xs)"
  by (auto simp: slice_def)

lemma slice_in_range [res_simps]:
  "a \<le> b \<Longrightarrow> b \<le> length xs \<Longrightarrow> slice xs a b = Inr (take (b - a) (drop a xs))"
  by (simp add: slice_def)

lemma upd_eq_Inr_iff [res_inv]: "upd xs i v = Inr ys \<longleftrightarrow> i < length xs \<and> ys = xs[i := v]"
  by (auto simp: upd_def)

lemma with_capacity_eq_Inr_iff [res_inv]: "with_capacity w n = Inr u \<longleftrightarrow> w * n < 2 ^ 63"
  by (simp add: with_capacity_def)

lemma usub_eq_Inr_iff [res_inv]: "usub a b = Inr c \<longleftrightarrow> b \<le> a \<and> c = a - b"
  by (auto simp: usub_def)

lemma catch_unwind_eq_Inr_iff [res_inv]: "catch_unwind m = Inr x \<longleftrightarrow> m = Inr x"
  by (auto simp: catch_unwind_def rerr_def split: sum.splits failure.splits)

lemma catch_unwind_never_panics: "\<not> panics (catch_unwind m)"
  by (auto simp: catch_unwind_def panics_def rerr_def split: sum.splits failure.splits)

lemma panics_rbind: "panics (rbind m f) \<longleftrightarrow> panics m \<or> (\<exists>x. m = Inr x \<and> panics (f x))"
  by (cases m) (auto simp: panics_def)

lemma panics_simps [simp]:
  "\<not> panics (Inr x)" "panics (rpanic p)" "\<not> panics (rerr e)" "\<not> panics (Inl (Returned e))"
  by (simp_all add: panics_def rpanic_def rerr_def)

section \<open>Loops of fallible code\<close>

text \<open>\<open>for x in xs \<lbrace> s = f(x, s)? \<rbrace>\<close>.\<close>

fun rfold :: "('a \<Rightarrow> 's \<Rightarrow> 'e + 's) \<Rightarrow> 'a list \<Rightarrow> 's \<Rightarrow> 'e + 's" where
  "rfold f [] s = Inr s"
| "rfold f (x # xs) s = rbind (f x s) (rfold f xs)"

text \<open>\<open>for _ in 0..n \<lbrace> v.push(rd(s)?) \<rbrace>\<close>: the collected values and the last state.\<close>

fun rtimes :: "nat \<Rightarrow> ('s \<Rightarrow> 'e + ('a \<times> 's)) \<Rightarrow> 's \<Rightarrow> 'e + ('a list \<times> 's)" where
  "rtimes 0 rd s = Inr ([], s)"
| "rtimes (Suc n) rd s =
     rbind (rd s) (\<lambda>(x, s). rbind (rtimes n rd s) (\<lambda>(xs, s). Inr (x # xs, s)))"

text \<open>The same for code that cannot fail.\<close>

fun times :: "nat \<Rightarrow> ('s \<Rightarrow> 'a \<times> 's) \<Rightarrow> 's \<Rightarrow> 'a list \<times> 's" where
  "times 0 rd s = ([], s)"
| "times (Suc n) rd s = (let (x, s) = rd s; (xs, s) = times n rd s in (x # xs, s))"

lemma rfold_append: "rfold f (xs @ ys) s = rbind (rfold f xs s) (rfold f ys)"
  by (induction xs arbitrary: s) (auto simp: rbind_assoc intro: rbind_cong)

lemma rfold_invariant:
  assumes "rfold f xs s = Inr s'" and "P s"
    and "\<And>x s s'. x \<in> set xs \<Longrightarrow> P s \<Longrightarrow> f x s = Inr s' \<Longrightarrow> P s'"
  shows "P s'"
  using assms
proof (induction xs arbitrary: s)
  case Nil
  then show ?case by simp
next
  case (Cons x xs)
  then obtain t where "f x s = Inr t" and "rfold f xs t = Inr s'"
    by (auto simp: rbind_eq_Inr_iff)
  with Cons show ?case by (metis list.set_intros)
qed

text \<open>Forward simulation of loops: \<open>g\<close> follows \<open>f\<close> under the abstraction \<open>h\<close>, on the successful runs
  (\<open>rfold_simulation\<close>) and on all runs (\<open>rfold_rmap\<close>).\<close>

definition rmap :: "('a \<Rightarrow> 'b) \<Rightarrow> 'e + 'a \<Rightarrow> 'e + 'b" where
  "rmap h m = rbind m (\<lambda>x. Inr (h x))"

lemma rmap_simps [simp]: "rmap h (Inr x) = Inr (h x)" "rmap h (Inl e) = Inl e" "rmap h (rpanic p) = rpanic p"
  by (simp_all add: rmap_def rpanic_def)

lemma rmap_rbind: "rmap h (rbind m f) = rbind m (\<lambda>x. rmap h (f x))"
  by (cases m) (simp_all add: rmap_def)

lemma rbind_rmap: "rbind (rmap h m) f = rbind m (\<lambda>x. f (h x))"
  by (cases m) simp_all

lemma rfold_simulation:
  assumes "\<And>x s s'. x \<in> set xs \<Longrightarrow> f x s = Inr s' \<Longrightarrow> g x (h s) = Inr (h s')"
  shows "rfold f xs s = Inr s' \<Longrightarrow> rfold g xs (h s) = Inr (h s')"
  using assms by (induction xs arbitrary: s) (auto simp: rbind_eq_Inr_iff)

lemma rfold_simulation_ex:
  assumes "\<And>x s s' v. x \<in> set xs \<Longrightarrow> f x s = Inr s' \<Longrightarrow> \<exists>v'. g x (h v s) = Inr (h v' s')"
  shows "rfold f xs s = Inr s' \<Longrightarrow> \<exists>v'. rfold g xs (h v s) = Inr (h v' s')"
  using assms
proof (induction xs arbitrary: s v)
  case Nil
  then show ?case by auto
next
  case (Cons x xs)
  then obtain t where t: "f x s = Inr t" "rfold f xs t = Inr s'" by (auto simp: rbind_eq_Inr_iff)
  from Cons.prems(2) [OF _ t(1), of v] obtain w where w: "g x (h v s) = Inr (h w t)" by auto
  from Cons.IH [OF t(2), of w] Cons.prems(2) obtain w' where "rfold g xs (h w t) = Inr (h w' s')"
    by (metis list.set_intros(2))
  then show ?case using w by auto
qed

lemma rfold_rmap:
  assumes "\<And>x s t. x \<in> set xs \<Longrightarrow> h s = h t \<Longrightarrow> rmap h (f x s) = rmap h (g x t)"
  shows "h s = h t \<Longrightarrow> rmap h (rfold f xs s) = rmap h (rfold g xs t)"
  using assms
proof (induction xs arbitrary: s t)
  case Nil
  then show ?case by simp
next
  case (Cons x xs)
  have "rmap h (f x s) = rmap h (g x t)" using Cons.prems by simp
  then show ?case using Cons by (cases "f x s"; cases "g x t") auto
qed

lemma rfold_cong [fundef_cong]:
  "s = s' \<Longrightarrow> xs = ys \<Longrightarrow> (\<And>x s. x \<in> set ys \<Longrightarrow> f x s = g x s) \<Longrightarrow> rfold f xs s = rfold g ys s'"
proof (induction ys arbitrary: xs s s')
  case Nil
  then show ?case by simp
next
  case (Cons y ys)
  then show ?case by (auto intro: rbind_cong)
qed

lemma length_rtimes: "rtimes n rd s = Inr (xs, s') \<Longrightarrow> length xs = n"
  by (induction n arbitrary: s xs s') (auto simp: rbind_eq_Inr_iff)

lemma length_times: "length (fst (times n rd s)) = n"
  by (induction n arbitrary: s) (auto split: prod.splits simp: case_prod_unfold Let_def)

lemma rtimes_total: "rtimes n (\<lambda>s. Inr (rd s)) s = Inr (times n rd s)"
  by (induction n arbitrary: s) (auto split: prod.splits simp: Let_def)

section \<open>Loops with an index\<close>

text \<open>An invariant of \<open>for i in lo..hi\<close>.\<close>

lemma fold_range_invariant:
  assumes "P lo s" and "lo \<le> hi"
    and "\<And>i s. lo \<le> i \<Longrightarrow> i < hi \<Longrightarrow> P i s \<Longrightarrow> P (Suc i) (f i s)"
  shows "P hi (fold f [lo..<hi] s)"
  using assms(2,1,3)
proof (induction hi rule: dec_induct)
  case base
  then show ?case by simp
next
  case (step n)
  then show ?case by simp
qed

text \<open>An invariant of \<open>for i in (0..n).rev()\<close>: \<open>P k\<close> holds when the indices below \<open>k\<close> are still
  to come.\<close>

lemma fold_rev_range_invariant:
  assumes "P n s" and "\<And>i s. i < n \<Longrightarrow> P (Suc i) s \<Longrightarrow> P i (f i s)"
  shows "P 0 (fold f (rev [0..<n]) s)"
  using assms
proof (induction n arbitrary: s)
  case 0
  then show ?case by simp
next
  case (Suc n)
  have "P n (f n s)" using Suc.prems by simp
  then have "P 0 (fold f (rev [0..<n]) (f n s))" using Suc by simp
  then show ?case by simp
qed

section \<open>Little-endian values of limb lists\<close>

text \<open>The number that a little-endian list of 64-bit limbs stands for.\<close>

fun lval :: "u64 list \<Rightarrow> nat" where
  "lval [] = 0"
| "lval (x # xs) = unat x + 2 ^ 64 * lval xs"

lemma lval_append: "lval (xs @ ys) = lval xs + 2 ^ (64 * length xs) * lval ys"
  by (induction xs) (auto simp: algebra_simps power_add)

lemma unat_u64_less: "unat (x :: u64) < 2 ^ 64"
  using unsigned_less [of x] by simp

lemma unat_u128_less: "unat (x :: u128) < 2 ^ 128"
  using unsigned_less [of x] by simp

lemma lval_less: "lval xs < 2 ^ (64 * length xs)"
proof (induction xs)
  case Nil
  then show ?case by simp
next
  case (Cons x xs)
  have "unat x + 2 ^ 64 * lval xs < 2 ^ 64 + 2 ^ 64 * lval xs"
    using unat_u64_less [of x] by simp
  also have "\<dots> = 2 ^ 64 * Suc (lval xs)" by simp
  also have "\<dots> \<le> 2 ^ 64 * 2 ^ (64 * length xs)"
    using Cons.IH by (intro mult_le_mono2) simp
  finally show ?case by (simp add: power_add)
qed

lemma lval_update:
  "k < length xs \<Longrightarrow> lval (xs[k := v]) + 2 ^ (64 * k) * unat (xs ! k) = lval xs + 2 ^ (64 * k) * unat v"
proof (induction xs arbitrary: k)
  case Nil
  then show ?case by simp
next
  case (Cons x xs)
  show ?case
  proof (cases k)
    case 0
    then show ?thesis by simp
  next
    case (Suc m)
    with Cons.prems have "lval (xs[m := v]) + 2 ^ (64 * m) * unat (xs ! m) = lval xs + 2 ^ (64 * m) * unat v"
      by (intro Cons.IH) simp
    then have "2 ^ 64 * (lval (xs[m := v]) + 2 ^ (64 * m) * unat (xs ! m))
        = 2 ^ 64 * (lval xs + 2 ^ (64 * m) * unat v)" by simp
    then show ?thesis using Suc by (simp add: algebra_simps power_add)
  qed
qed

lemma lval_take_Suc:
  "k < length xs \<Longrightarrow> lval (take (Suc k) xs) = lval (take k xs) + 2 ^ (64 * k) * unat (xs ! k)"
  by (simp add: take_Suc_conv_app_nth lval_append)

lemma lval_replicate_0 [simp]: "lval (replicate n 0) = 0"
  by (induction n) auto

lemma lval_inject: "length xs = length ys \<Longrightarrow> lval xs = lval ys \<Longrightarrow> xs = ys"
proof (induction xs ys rule: list_induct2)
  case Nil
  then show ?case by simp
next
  case (Cons x xs y ys)
  have eq: "unat x + 2 ^ 64 * lval xs = unat y + 2 ^ 64 * lval ys" using Cons.prems by simp
  have "unat x = (unat x + 2 ^ 64 * lval xs) mod 2 ^ 64" using unat_u64_less [of x] by simp
  also have "\<dots> = unat y" using eq unat_u64_less [of y] by simp
  finally have "unat x = unat y" .
  with eq Cons.IH show ?case by (simp add: word_unat_eq_iff)
qed

end
