(* ===== verification/Field_Limbs.thy ===== *)
theory Field_Limbs
  imports Prelude_ZK
begin

text \<open>
  The 256-bit integers of \<open>crates/zkml-verifier/src/field.rs\<close>: four little-endian 64-bit limbs, the
  conversions from and to big-endian bytes, comparison, addition with carry, subtraction with
  borrow and the 256 by 256 to 512 bit schoolbook multiplication. Every operation is related to
  the number \<open>uval\<close> that the limbs stand for.
\<close>

section \<open>Data\<close>

datatype u256 = U256 u64 u64 u64 u64

fun limbs :: "u256 \<Rightarrow> u64 list" where
  "limbs (U256 a b c d) = [a, b, c, d]"

definition of_limbs :: "u64 list \<Rightarrow> u256" where
  "of_limbs xs = U256 (xs ! 0) (xs ! 1) (xs ! 2) (xs ! 3)"

definition limb :: "u256 \<Rightarrow> nat \<Rightarrow> u64" where
  "limb x i = limbs x ! i"

definition uval :: "u256 \<Rightarrow> nat" where
  "uval x = lval (limbs x)"

definition u256_ZERO :: u256 where
  "u256_ZERO = U256 0 0 0 0"

definition u256_ONE :: u256 where
  "u256_ONE = U256 1 0 0 0"

definition from_u64 :: "u64 \<Rightarrow> u256" where
  "from_u64 v = U256 v 0 0 0"

section \<open>Bytes\<close>

text \<open>\<open>u64::from_be_bytes\<close> and \<open>u64::to_be_bytes\<close> of the standard library, over the number that a
  big-endian byte list stands for.\<close>

fun be_val :: "u8 list \<Rightarrow> nat" where
  "be_val [] = 0"
| "be_val (b # bs) = unat b * 256 ^ length bs + be_val bs"

definition u64_from_be_bytes :: "u8 list \<Rightarrow> u64" where
  "u64_from_be_bytes bs = word_of_nat (be_val bs)"

definition u64_to_be_bytes :: "u64 \<Rightarrow> u8 list" where
  "u64_to_be_bytes x = map (\<lambda>i. ucast (drop_bit (8 * (7 - i)) x)) [0..<8]"

text \<open>\<open>U256::from_be_bytes\<close> takes an array of 32 bytes; \<open>U256::from_be_slice\<close> a slice, of which it
  copies the first 32 bytes.\<close>

definition from_be_bytes :: "u8 list \<Rightarrow> u256" where
  "from_be_bytes bytes =
     U256 (u64_from_be_bytes (take 8 (drop 24 bytes)))
          (u64_from_be_bytes (take 8 (drop 16 bytes)))
          (u64_from_be_bytes (take 8 (drop 8 bytes)))
          (u64_from_be_bytes (take 8 bytes))"

definition from_be_slice :: "u8 list \<Rightarrow> u256 res" where
  "from_be_slice bytes =
     (if 32 \<le> length bytes then Inr (from_be_bytes (take 32 bytes)) else rpanic Slice_Out_Of_Bounds)"

definition to_be_bytes :: "u256 \<Rightarrow> u8 list" where
  "to_be_bytes x =
     u64_to_be_bytes (limb x 3) @ u64_to_be_bytes (limb x 2) @
     u64_to_be_bytes (limb x 1) @ u64_to_be_bytes (limb x 0)"

section \<open>Comparison, addition, subtraction\<close>

definition is_zero :: "u256 \<Rightarrow> bool" where
  "is_zero x \<longleftrightarrow> limb x 0 = 0 \<and> limb x 1 = 0 \<and> limb x 2 = 0 \<and> limb x 3 = 0"

text \<open>The loop of \<open>gte\<close> goes over the limbs from the most significant one.\<close>

fun gte_loop :: "u64 list \<Rightarrow> u64 list \<Rightarrow> bool" where
  "gte_loop (a # as) (b # bs) =
     (if a > b then True else if a < b then False else gte_loop as bs)"
| "gte_loop _ _ = True"

definition gte :: "u256 \<Rightarrow> u256 \<Rightarrow> bool" where
  "gte a b = gte_loop (rev (limbs a)) (rev (limbs b))"

definition overflowing_sub :: "u64 \<Rightarrow> u64 \<Rightarrow> u64 \<times> bool" where
  "overflowing_sub a b = (a - b, a < b)"

fun sub_loop :: "u64 list \<Rightarrow> u64 list \<Rightarrow> u64 \<Rightarrow> u64 list" where
  "sub_loop (a # as) (b # bs) borrow =
     (let (diff, b1) = overflowing_sub a b;
          (diff2, b2) = overflowing_sub diff borrow
      in diff2 # sub_loop as bs (of_bool b1 + of_bool b2))"
| "sub_loop _ _ borrow = []"

definition sub_no_mod :: "u256 \<Rightarrow> u256 \<Rightarrow> u256" where
  "sub_no_mod a b = of_limbs (sub_loop (limbs a) (limbs b) 0)"

fun add_loop :: "u64 list \<Rightarrow> u64 list \<Rightarrow> u64 \<Rightarrow> u64 list \<times> u64" where
  "add_loop (a # as) (b # bs) carry =
     (let sum = (ucast a :: u128) + ucast b + ucast carry;
          (rest, c) = add_loop as bs (ucast (drop_bit 64 sum))
      in (ucast sum # rest, c))"
| "add_loop _ _ carry = ([], carry)"

definition add_no_mod :: "u256 \<Rightarrow> u256 \<Rightarrow> u256 \<times> bool" where
  "add_no_mod a b = (let (result, carry) = add_loop (limbs a) (limbs b) 0 in (of_limbs result, carry \<noteq> 0))"

section \<open>Wide multiplication\<close>

definition mul_step :: "u256 \<Rightarrow> u256 \<Rightarrow> nat \<Rightarrow> nat \<Rightarrow> u64 list \<times> u64 \<Rightarrow> u64 list \<times> u64" where
  "mul_step a b i j s =
     (let (result, carry) = s;
          product = (ucast (limb a i) :: u128) * ucast (limb b j) + ucast (result ! (i + j)) + ucast carry
      in (result[i + j := ucast product], ucast (drop_bit 64 product)))"

definition mul_row :: "u256 \<Rightarrow> u256 \<Rightarrow> nat \<Rightarrow> u64 list \<Rightarrow> u64 list" where
  "mul_row a b i result =
     (let (result, carry) = fold (mul_step a b i) [0..<4] (result, 0) in result[i + 4 := carry])"

definition mul_wide :: "u256 \<Rightarrow> u256 \<Rightarrow> u64 list" where
  "mul_wide a b = fold (mul_row a b) [0..<4] (replicate 8 0)"

section \<open>Values\<close>

lemma length_limbs [simp]: "length (limbs x) = 4"
  by (cases x) simp

lemma limbs_of_limbs [simp]: "length xs = 4 \<Longrightarrow> limbs (of_limbs xs) = xs"
  by (auto simp: of_limbs_def numeral_eq_Suc length_Suc_conv)

lemma of_limbs_limbs [simp]: "of_limbs (limbs x) = x"
  by (cases x) (simp add: of_limbs_def)

lemma uval_of_limbs: "length xs = 4 \<Longrightarrow> uval (of_limbs xs) = lval xs"
  by (simp add: uval_def)

lemma uval_less: "uval x < 2 ^ 256"
  using lval_less [of "limbs x"] by (simp add: uval_def)

lemma uval_inject [simp]: "uval x = uval y \<longleftrightarrow> x = y"
proof
  assume "uval x = uval y"
  then have "limbs x = limbs y" by (intro lval_inject) (simp_all add: uval_def)
  then show "x = y" by (metis of_limbs_limbs)
qed simp

lemma uval_consts [simp]:
  "uval u256_ZERO = 0" "uval u256_ONE = 1" "uval (from_u64 v) = unat v"
  by (simp_all add: uval_def u256_ZERO_def u256_ONE_def from_u64_def)

lemma uval_U256:
  "uval (U256 a b c d) = unat a + 2 ^ 64 * unat b + 2 ^ 128 * unat c + 2 ^ 192 * unat d"
  by (simp add: uval_def algebra_simps)

lemma is_zero_iff: "is_zero x \<longleftrightarrow> uval x = 0"
  by (cases x) (auto simp: is_zero_def limb_def uval_def unat_eq_0)

lemma is_zero_eq: "is_zero x \<longleftrightarrow> x = u256_ZERO"
  using uval_inject [of x u256_ZERO] by (simp add: is_zero_iff del: uval_inject)

text \<open>Splitting a 128-bit sum or product that does not overflow into its two halves.\<close>

lemma u128_split:
  assumes "unat (w :: u128) = n"
  shows "unat (ucast w :: u64) = n mod 2 ^ 64" and "unat (ucast (drop_bit 64 w) :: u64) = n div 2 ^ 64"
proof -
  have n: "n < 2 ^ 128" using unat_u128_less [of w] assms by simp
  show "unat (ucast w :: u64) = n mod 2 ^ 64"
    using assms by (simp add: unsigned_ucast_eq take_bit_eq_mod)
  have "n div 2 ^ 64 < 2 ^ 64" using n by (simp add: less_mult_imp_div_less)
  moreover have "unat (drop_bit 64 w) = n div 2 ^ 64"
    unfolding unat_drop_bit_eq assms by (rule drop_bit_eq_div)
  ultimately show "unat (ucast (drop_bit 64 w) :: u64) = n div 2 ^ 64"
    by (simp add: unsigned_ucast_eq take_bit_eq_mod)
qed

lemma u128_halves:
  assumes "unat (w :: u128) = n"
  shows "unat (ucast w :: u64) + 2 ^ 64 * unat (ucast (drop_bit 64 w) :: u64) = n"
  using u128_split [OF assms] by (simp add: mod_mult_div_eq)

lemma unat_ucast_u128 [simp]: "unat (ucast (x :: u64) :: u128) = unat x"
  by (simp add: unsigned_ucast_eq take_bit_nat_eq_self order_less_trans [OF unat_u64_less])

lemma unat_u128_add3:
  "unat ((ucast (a :: u64) :: u128) + ucast (b :: u64) + ucast (c :: u64)) = unat a + unat b + unat c"
  using unat_u64_less [of a] unat_u64_less [of b] unat_u64_less [of c]
  by (simp add: unat_word_ariths)

lemma mul_add_less:
  fixes a b c d B :: nat
  assumes "a < B" "b < B" "c < B" "d < B"
  shows "a * b + c + d < B * B"
proof -
  have "a * b \<le> (B - 1) * (B - 1)" using assms by (intro mult_le_mono) simp_all
  moreover obtain k where "B = Suc k" using assms(1) by (cases B) auto
  ultimately show ?thesis using assms(3,4) by simp
qed

lemma unat_u128_mul_add:
  "unat ((ucast (a :: u64) :: u128) * ucast (b :: u64) + ucast (c :: u64) + ucast (d :: u64))
     = unat a * unat b + unat c + unat d"
proof -
  have "unat a * unat b + unat c + unat d < 2 ^ 64 * 2 ^ 64"
    by (intro mul_add_less unat_u64_less)
  then show ?thesis by (simp add: unat_word_ariths mod_simps)
qed

subsection \<open>Bytes\<close>

lemma be_val_append: "be_val (xs @ ys) = be_val xs * 256 ^ length ys + be_val ys"
  by (induction xs) (auto simp: algebra_simps power_add)

lemma be_val_less: "be_val bs < 256 ^ length bs"
proof (induction bs)
  case Nil
  then show ?case by simp
next
  case (Cons b bs)
  have b: "unat b < 256" using unsigned_less [of b] by simp
  have "unat b * 256 ^ length bs + be_val bs < Suc (unat b) * 256 ^ length bs" using Cons.IH by simp
  also have "\<dots> \<le> 256 * 256 ^ length bs" using b by (intro mult_le_mono1) simp
  finally show ?case by simp
qed

lemma length_u64_to_be_bytes [simp]: "length (u64_to_be_bytes x) = 8"
  by (simp add: u64_to_be_bytes_def)

lemma length_to_be_bytes [simp]: "length (to_be_bytes x) = 32"
  by (simp add: to_be_bytes_def)

lemma be_val_bytes_of:
  "be_val (map (\<lambda>i. ucast (drop_bit (8 * (n - 1 - i)) (x :: u64)) :: u8) [0..<n]) = unat x mod 256 ^ n"
proof (induction n)
  case 0
  then show ?case by simp
next
  case (Suc n)
  have split: "[0..<Suc n] = 0 # map Suc [0..<n]" by (simp add: map_Suc_upt upt_conv_Cons del: upt_Suc)
  have hd: "unat (ucast (drop_bit (8 * n) x) :: u8) = unat x div 256 ^ n mod 256"
    by (simp add: unsigned_ucast_eq take_bit_eq_mod unat_drop_bit_eq drop_bit_eq_div [of "8 * n" "unat x"]
        power_mult flip: drop_bit_eq_div [of "8 * n" x])
  have "be_val (map (\<lambda>i. ucast (drop_bit (8 * (Suc n - 1 - i)) x) :: u8) [0..<Suc n])
      = unat (ucast (drop_bit (8 * n) x) :: u8) * 256 ^ n
        + be_val (map (\<lambda>i. ucast (drop_bit (8 * (n - 1 - i)) x) :: u8) [0..<n])"
    unfolding split by (simp add: comp_def)
  also have "\<dots> = unat x div 256 ^ n mod 256 * 256 ^ n + unat x mod 256 ^ n"
    unfolding hd Suc.IH by (rule refl)
  also have "\<dots> = unat x mod 256 ^ Suc n"
    by (simp only: power_Suc2 mod_mult2_eq) (simp add: mult.commute)
  finally show ?case .
qed

lemma be_val_u64_to_be_bytes [simp]: "be_val (u64_to_be_bytes x) = unat x"
  using be_val_bytes_of [of 8 x] unat_u64_less [of x] by (simp add: u64_to_be_bytes_def)

lemma unat_u64_from_be_bytes: "length bs = 8 \<Longrightarrow> unat (u64_from_be_bytes bs) = be_val bs"
  using be_val_less [of bs] by (simp add: u64_from_be_bytes_def unat_of_nat)

theorem uval_from_be_bytes:
  assumes "length bs = 32"
  shows "uval (from_be_bytes bs) = be_val bs"
proof -
  let ?p = "\<lambda>k. take 8 (drop k bs)"
  have bs: "bs = ?p 0 @ ?p 8 @ ?p 16 @ ?p 24"
  proof -
    have "bs = take 8 bs @ drop 8 bs" by simp
    also have "drop 8 bs = ?p 8 @ drop 16 bs" using append_take_drop_id [of 8 "drop 8 bs"] by simp
    also have "drop 16 bs = ?p 16 @ drop 24 bs" using append_take_drop_id [of 8 "drop 16 bs"] by simp
    also have "drop 24 bs = ?p 24" using assms by simp
    finally show ?thesis by simp
  qed
  have len: "length (?p 0) = 8" "length (?p 8) = 8" "length (?p 16) = 8" "length (?p 24) = 8"
    using assms by simp_all
  have "be_val bs = be_val (?p 0 @ ?p 8 @ ?p 16 @ ?p 24)" using bs by simp
  also have "\<dots> = ((be_val (?p 0) * 256 ^ 8 + be_val (?p 8)) * 256 ^ 8 + be_val (?p 16)) * 256 ^ 8 + be_val (?p 24)"
    using len by (simp add: be_val_append algebra_simps)
  finally show ?thesis
    using len by (simp add: from_be_bytes_def uval_U256 unat_u64_from_be_bytes)
qed

lemma be_val_to_be_bytes [simp]: "be_val (to_be_bytes x) = uval x"
  by (cases x) (simp add: to_be_bytes_def be_val_append limb_def uval_U256)

theorem from_to_be_bytes [simp]: "from_be_bytes (to_be_bytes x) = x"
  using uval_from_be_bytes [of "to_be_bytes x"] by (simp flip: uval_inject)

lemma be_val_inject: "length xs = length ys \<Longrightarrow> be_val xs = be_val ys \<Longrightarrow> xs = ys"
proof (induction xs ys rule: list_induct2)
  case Nil
  then show ?case by simp
next
  case (Cons x xs y ys)
  define M where "M = (256::nat) ^ length ys"
  have eq: "unat x * M + be_val xs = unat y * M + be_val ys" using Cons by (simp add: M_def)
  have lt: "be_val xs < M" "be_val ys < M"
    using be_val_less [of xs] be_val_less [of ys] Cons.hyps by (simp_all add: M_def)
  have "unat x = (unat x * M + be_val xs) div M" using lt by simp
  also have "\<dots> = unat y" unfolding eq using lt by simp
  finally have "unat x = unat y" .
  with eq Cons.IH show ?case by (simp add: word_unat_eq_iff)
qed

theorem to_from_be_bytes: "length bs = 32 \<Longrightarrow> to_be_bytes (from_be_bytes bs) = bs"
  by (rule be_val_inject) (simp_all add: uval_from_be_bytes)

subsection \<open>Comparison\<close>

lemma gte_loop_snoc:
  "length as = length bs \<Longrightarrow>
     gte_loop (rev (as @ [a])) (rev (bs @ [b])) = (if a > b then True else if a < b then False else gte_loop (rev as) (rev bs))"
  by simp

lemma gte_loop_val: "length as = length bs \<Longrightarrow> gte_loop (rev as) (rev bs) \<longleftrightarrow> lval bs \<le> lval as"
proof (induction as arbitrary: bs rule: rev_induct)
  case Nil
  then show ?case by simp
next
  case (snoc a as)
  then obtain bs' b where bs: "bs = bs' @ [b]" and len: "length as = length bs'"
    by (cases bs rule: rev_cases) auto
  define M where "M = (2::nat) ^ (64 * length as)"
  have IH: "gte_loop (rev as) (rev bs') \<longleftrightarrow> lval bs' \<le> lval as" by (rule snoc.IH [OF len])
  have la: "lval as < M" and lb: "lval bs' < M"
    using lval_less [of as] lval_less [of bs'] len by (simp_all add: M_def)
  have va: "lval (as @ [a]) = lval as + M * unat a" and vb: "lval bs = lval bs' + M * unat b"
    using bs len by (simp_all add: lval_append M_def)
  have gt: "x < y \<Longrightarrow> p < M \<Longrightarrow> p + M * x < q + M * y" for x y p q :: nat
  proof -
    assume "x < y" "p < M"
    then have "p + M * x < M * Suc x" by simp
    also have "\<dots> \<le> M * y" using \<open>x < y\<close> by (intro mult_le_mono2) simp
    finally show "p + M * x < q + M * y" by simp
  qed
  show ?case
  proof (cases a b rule: linorder_cases)
    case less
    then have "unat a < unat b" by (simp add: word_less_nat_alt)
    with gt la have "lval (as @ [a]) < lval bs" unfolding va vb by blast
    with less bs show ?thesis by auto
  next
    case equal
    then show ?thesis using IH va vb bs by simp
  next
    case greater
    then have "unat b < unat a" by (simp add: word_less_nat_alt)
    with gt lb have "lval bs < lval (as @ [a])" unfolding va vb by blast
    with greater bs show ?thesis by auto
  qed
qed

lemma gte_iff: "gte a b \<longleftrightarrow> uval b \<le> uval a"
  by (simp add: gte_def uval_def gte_loop_val)

subsection \<open>Addition and subtraction\<close>

lemma length_sub_loop [simp]: "length (sub_loop as bs c) = min (length as) (length bs)"
  by (induction as bs c rule: sub_loop.induct) (auto simp: overflowing_sub_def)

lemma unat_sub_wrap: "unat (a - b :: u64) + unat b = unat a + (if a < b then 2 ^ 64 else 0)"
  using unat_u64_less [of a] unat_u64_less [of b]
  by (auto simp: unat_sub_if_size word_less_nat_alt not_less word_size)

lemma sub_loop_val:
  assumes "length as = length bs" and "unat c \<le> 1"
  shows "\<exists>k. lval (sub_loop as bs c) + lval bs + unat c = lval as + k * 2 ^ (64 * length as)"
  using assms
proof (induction as bs arbitrary: c rule: list_induct2)
  case Nil
  then show ?case by (auto intro: exI [of _ "unat c"])
next
  case (Cons a as b bs)
  define d1 where "d1 = a - b"
  define d2 where "d2 = d1 - c"
  define c' :: u64 where "c' = of_bool (a < b) + of_bool (d1 < c)"
  have c: "unat c \<le> 1" by (rule Cons.prems)
  have e1: "unat d1 + unat b = unat a + (if a < b then 2 ^ 64 else 0)"
    unfolding d1_def by (rule unat_sub_wrap)
  have e2: "unat d2 + unat c = unat d1 + (if d1 < c then 2 ^ 64 else 0)"
    unfolding d2_def by (rule unat_sub_wrap)
  have "\<not> (a < b \<and> d1 < c)"
  proof
    assume "a < b \<and> d1 < c"
    moreover from this have "unat d1 < unat c" by (simp add: word_less_nat_alt)
    ultimately have "unat b = unat a + 2 ^ 64" using c e1 by simp
    with unat_u64_less [of b] show False by simp
  qed
  then have c'1: "unat c' \<le> 1" and c'v: "unat c' = of_bool (a < b) + of_bool (d1 < c)"
    by (auto simp: c'_def)
  obtain k where IH: "lval (sub_loop as bs c') + lval bs + unat c' = lval as + k * 2 ^ (64 * length as)"
    using Cons.IH [OF c'1] by blast
  have "sub_loop (a # as) (b # bs) c = d2 # sub_loop as bs c'"
    by (simp add: overflowing_sub_def d1_def d2_def c'_def Let_def)
  moreover have "2 ^ 64 * (lval (sub_loop as bs c') + lval bs + unat c') = 2 ^ 64 * (lval as + k * 2 ^ (64 * length as))"
    by (simp only: IH)
  moreover have "unat d2 + unat b + unat c = unat a + 2 ^ 64 * unat c'"
    using e1 e2 c'v by (auto split: if_splits)
  ultimately have "lval (sub_loop (a # as) (b # bs) c) + lval (b # bs) + unat c
      = lval (a # as) + k * 2 ^ (64 * length (a # as))"
    by (simp add: algebra_simps power_add)
  then show ?case by blast
qed

theorem uval_sub_no_mod: "uval (sub_no_mod a b) = (2 ^ 256 + uval a - uval b) mod 2 ^ 256"
proof -
  obtain k where "lval (sub_loop (limbs a) (limbs b) 0) + lval (limbs b) + unat (0 :: u64)
      = lval (limbs a) + k * 2 ^ (64 * length (limbs a))"
    using sub_loop_val [of "limbs a" "limbs b" 0] by auto
  then have k: "uval (sub_no_mod a b) + uval b = uval a + k * 2 ^ 256"
    by (simp add: sub_no_mod_def uval_def)
  have "(2 ^ 256 + uval a - uval b) mod 2 ^ 256 = (2 ^ 256 + uval a - uval b + k * 2 ^ 256) mod 2 ^ 256"
    by (simp only: mod_mult_self1)
  also have "2 ^ 256 + uval a - uval b + k * 2 ^ 256 = uval (sub_no_mod a b) + 2 ^ 256"
    using k uval_less [of b] by linarith
  also have "\<dots> mod 2 ^ 256 = uval (sub_no_mod a b)"
    using uval_less [of "sub_no_mod a b"] by simp
  finally show ?thesis by simp
qed

lemma uval_sub_no_mod_le:
  assumes "uval b \<le> uval a"
  shows "uval (sub_no_mod a b) = uval a - uval b"
proof -
  have "2 ^ 256 + uval a - uval b = 2 ^ 256 + (uval a - uval b)" using assms by linarith
  moreover have "uval a - uval b < 2 ^ 256" using uval_less [of a] by linarith
  ultimately show ?thesis by (simp only: uval_sub_no_mod mod_add_self1 mod_less)
qed

lemma length_add_loop [simp]: "length (fst (add_loop as bs c)) = min (length as) (length bs)"
  by (induction as bs c rule: add_loop.induct) (auto simp: Let_def split: prod.splits)

lemma add_loop_val:
  "length as = length bs \<Longrightarrow>
     lval (fst (add_loop as bs c)) + 2 ^ (64 * length as) * unat (snd (add_loop as bs c))
       = lval as + lval bs + unat c"
proof (induction as bs arbitrary: c rule: list_induct2)
  case Nil
  then show ?case by simp
next
  case (Cons a as b bs)
  define s where "s = (ucast a :: u128) + ucast b + ucast c"
  define c' :: u64 where "c' = ucast (drop_bit 64 s)"
  have s: "unat (ucast s :: u64) + 2 ^ 64 * unat c' = unat a + unat b + unat c"
    unfolding c'_def by (rule u128_halves) (simp add: s_def unat_u128_add3)
  have step: "add_loop (a # as) (b # bs) c = (ucast s # fst (add_loop as bs c'), snd (add_loop as bs c'))"
    by (simp add: s_def c'_def Let_def split: prod.splits)
  have "2 ^ 64 * (lval (fst (add_loop as bs c')) + 2 ^ (64 * length as) * unat (snd (add_loop as bs c')))
      = 2 ^ 64 * (lval as + lval bs + unat c')"
    using Cons.IH [of c'] by simp
  then show ?case
    unfolding step using s by (simp add: algebra_simps power_add)
qed

theorem uval_add_no_mod:
  assumes "add_no_mod a b = (r, c)"
  shows "uval r + (if c then 2 ^ 256 else 0) = uval a + uval b"
proof -
  obtain rs cy where rc: "add_loop (limbs a) (limbs b) 0 = (rs, cy)" by fastforce
  have len: "length rs = 4" using length_add_loop [of "limbs a" "limbs b" 0] rc by simp
  have v: "lval rs + 2 ^ 256 * unat cy = uval a + uval b"
    using add_loop_val [of "limbs a" "limbs b" 0] rc by (simp add: uval_def)
  have r: "r = of_limbs rs" and c: "c \<longleftrightarrow> cy \<noteq> 0"
    using assms rc by (simp_all add: add_no_mod_def)
  have "2 ^ 256 * unat cy < 2 ^ 256 * 2"
    using v uval_less [of a] uval_less [of b] by linarith
  then have "unat cy = 0 \<or> unat cy = 1" by auto
  with c have "(if c then 2 ^ 256 else 0) = (2::nat) ^ 256 * unat cy"
    by (auto simp: unat_eq_0)
  then show ?thesis using v len by (simp add: r uval_of_limbs)
qed

subsection \<open>Multiplication\<close>

definition mul_inv :: "u256 \<Rightarrow> u256 \<Rightarrow> nat \<Rightarrow> u64 list \<Rightarrow> nat \<Rightarrow> u64 list \<times> u64 \<Rightarrow> bool" where
  "mul_inv a b i r0 j s \<longleftrightarrow>
     length (fst s) = 8 \<and> drop (i + j) (fst s) = drop (i + j) r0 \<and>
     lval (fst s) + 2 ^ (64 * (i + j)) * unat (snd s)
       = lval r0 + 2 ^ (64 * i) * unat (limb a i) * lval (take j (limbs b))"

lemma mul_inv_step:
  assumes "i < 4" "j < 4" "mul_inv a b i r0 j s"
  shows "mul_inv a b i r0 (Suc j) (mul_step a b i j s)"
proof -
  obtain res c where s: "s = (res, c)" by fastforce
  define p where "p = (ucast (limb a i) :: u128) * ucast (limb b j) + ucast (res ! (i + j)) + ucast c"
  have len: "length res = 8" and dr: "drop (i + j) res = drop (i + j) r0"
    and v: "lval res + 2 ^ (64 * (i + j)) * unat c
      = lval r0 + 2 ^ (64 * i) * unat (limb a i) * lval (take j (limbs b))"
    using assms(3) by (simp_all add: mul_inv_def s)
  have step: "mul_step a b i j s = (res[i + j := ucast p], ucast (drop_bit 64 p))"
    by (simp add: mul_step_def s p_def Let_def)
  have p: "unat (ucast p :: u64) + 2 ^ 64 * unat (ucast (drop_bit 64 p) :: u64)
      = unat (limb a i) * unat (limb b j) + unat (res ! (i + j)) + unat c"
    by (rule u128_halves) (simp add: p_def unat_u128_mul_add)
  have u: "lval (res[i + j := ucast p]) + 2 ^ (64 * (i + j)) * unat (res ! (i + j))
      = lval res + 2 ^ (64 * (i + j)) * unat (ucast p :: u64)"
    using len assms(1,2) by (intro lval_update) simp
  have "2 ^ (64 * (i + j)) * (unat (ucast p :: u64) + 2 ^ 64 * unat (ucast (drop_bit 64 p) :: u64))
      = 2 ^ (64 * (i + j)) * (unat (limb a i) * unat (limb b j) + unat (res ! (i + j)) + unat c)"
    by (simp only: p)
  then have "lval (res[i + j := ucast p]) + 2 ^ (64 * (i + Suc j)) * unat (ucast (drop_bit 64 p) :: u64)
      = lval r0 + 2 ^ (64 * i) * unat (limb a i) * lval (take (Suc j) (limbs b))"
    using u v assms(2) by (simp add: lval_take_Suc limb_def algebra_simps power_add)
  moreover have "drop (i + Suc j) (res[i + j := ucast p]) = drop (i + Suc j) r0"
  proof -
    have "drop (i + Suc j) (res[i + j := ucast p]) = drop (i + Suc j) res" by simp
    also have "\<dots> = drop 1 (drop (i + j) res)" by (simp add: add.commute)
    also have "\<dots> = drop (i + Suc j) r0" unfolding dr by (simp add: add.commute)
    finally show ?thesis .
  qed
  ultimately show ?thesis using len by (simp add: mul_inv_def step)
qed

lemma mul_row_val:
  assumes "i < 4" "length r0 = 8" "r0 ! (i + 4) = 0"
  shows "length (mul_row a b i r0) = 8"
    and "lval (mul_row a b i r0) = lval r0 + 2 ^ (64 * i) * unat (limb a i) * uval b"
    and "drop (i + 5) (mul_row a b i r0) = drop (i + 5) r0"
proof -
  obtain res c where f: "fold (mul_step a b i) [0..<4] (r0, 0) = (res, c)" by fastforce
  have "mul_inv a b i r0 4 (fold (mul_step a b i) [0..<4] (r0, 0))"
  proof (rule fold_range_invariant)
    show "mul_inv a b i r0 0 (r0, 0)" using assms by (simp add: mul_inv_def)
    show "\<And>j s. j < 4 \<Longrightarrow> mul_inv a b i r0 j s \<Longrightarrow> mul_inv a b i r0 (Suc j) (mul_step a b i j s)"
      using assms(1) by (rule mul_inv_step)
  qed simp
  then have len: "length res = 8" and dr: "drop (i + 4) res = drop (i + 4) r0"
    and v: "lval res + 2 ^ (64 * (i + 4)) * unat c = lval r0 + 2 ^ (64 * i) * unat (limb a i) * uval b"
    by (simp_all add: f mul_inv_def uval_def)
  have row: "mul_row a b i r0 = res[i + 4 := c]" by (simp add: mul_row_def f)
  have "res ! (i + 4) = drop (i + 4) res ! 0" using len assms(1) by simp
  also have "\<dots> = 0" unfolding dr using assms by simp
  finally have "lval (res[i + 4 := c]) = lval res + 2 ^ (64 * (i + 4)) * unat c"
    using lval_update [of "i + 4" res c] len assms(1) by simp
  with v show "lval (mul_row a b i r0) = lval r0 + 2 ^ (64 * i) * unat (limb a i) * uval b"
    by (simp add: row)
  show "length (mul_row a b i r0) = 8" by (simp add: row len)
  have "drop (i + 5) res = drop 1 (drop (i + 4) res)" by (simp add: add.commute)
  also have "\<dots> = drop (i + 5) r0" unfolding dr by (simp add: add.commute)
  finally show "drop (i + 5) (mul_row a b i r0) = drop (i + 5) r0" by (simp add: row)
qed

theorem lval_mul_wide: "length (mul_wide a b) = 8 \<and> lval (mul_wide a b) = uval a * uval b"
proof -
  let ?P = "\<lambda>i r. length r = 8 \<and> drop (i + 4) r = replicate (4 - i) 0 \<and> lval r = lval (take i (limbs a)) * uval b"
  have "?P 4 (fold (mul_row a b) [0..<4] (replicate 8 0))"
  proof (rule fold_range_invariant [where P = ?P])
    show "?P 0 (replicate 8 0)" by simp
  next
    fix i r
    assume i: "i < 4" and P: "?P i r"
    have "r ! (i + 4) = drop (i + 4) r ! 0" using i conjunct1 [OF P] by simp
    also have "drop (i + 4) r = replicate (4 - i) 0" using P by blast
    also have "replicate (4 - i) 0 ! 0 = (0 :: u64)" using i by simp
    finally have z: "r ! (i + 4) = 0" .
    note row = mul_row_val [OF i conjunct1 [OF P] z, of a b]
    have "drop (Suc i + 4) r = drop 1 (drop (i + 4) r)" by (simp add: add.commute)
    also have "\<dots> = replicate (4 - Suc i) 0" using P by simp
    finally have "drop (Suc i + 4) (mul_row a b i r) = replicate (4 - Suc i) 0"
      using row(3) by (simp add: add.commute)
    moreover have "lval (mul_row a b i r) = lval (take (Suc i) (limbs a)) * uval b"
      using row(2) P i by (simp add: lval_take_Suc limb_def algebra_simps)
    ultimately show "?P (Suc i) (mul_row a b i r)" using row(1) by simp
  qed simp
  then show ?thesis by (simp add: mul_wide_def uval_def)
qed

end
