(* ===== verification/Field_Reduce.thy ===== *)
theory Field_Reduce
  imports Field_Limbs
begin

text \<open>
  \<open>reduce_512\<close> of \<open>crates/zkml-verifier/src/field.rs\<close>: the remainder of a 512-bit value by a 256-bit
  modulus, by Knuth's Algorithm D on 64-bit limbs with 128-bit intermediate values. The theory
  proves that the estimated quotient digit is at most one too large, that no intermediate value
  overflows its type, and that the result is the remainder, for every modulus whose top limb is
  not zero.
\<close>

section \<open>The algorithm\<close>

definition leading_zeros :: "u64 \<Rightarrow> nat" where
  "leading_zeros x = length (takeWhile Not (map (bit x) (rev [0..<64])))"

text \<open>\<open>(hi << s) | (lo >> (64 - s))\<close>.\<close>

definition shl_limb :: "nat \<Rightarrow> u64 \<Rightarrow> u64 \<Rightarrow> u64" where
  "shl_limb s hi lo = push_bit s hi OR drop_bit (64 - s) lo"

definition normalize_modulus :: "nat \<Rightarrow> u256 \<Rightarrow> u64 list" where
  "normalize_modulus s m =
     (if s > 0
      then [push_bit s (limb m 0), shl_limb s (limb m 1) (limb m 0),
            shl_limb s (limb m 2) (limb m 1), shl_limb s (limb m 3) (limb m 2)]
      else [limb m 0, limb m 1, limb m 2, limb m 3])"

definition normalize_val :: "nat \<Rightarrow> u64 list \<Rightarrow> u64 list" where
  "normalize_val s val =
     (if s > 0
      then push_bit s (val ! 0) # map (\<lambda>i. shl_limb s (val ! i) (val ! (i - 1))) [1..<8]
           @ [drop_bit (64 - s) (val ! 7)]
      else take 8 val @ [0])"

text \<open>The correction loop of the quotient digit. Each round lowers \<open>q_hat\<close>, and its condition is false
  when \<open>q_hat\<close> is 0, so it ends for every input.\<close>

function qhat_loop :: "u128 \<Rightarrow> u128 \<Rightarrow> u64 \<Rightarrow> u64 \<Rightarrow> u64 \<Rightarrow> u128" where
  "qhat_loop q_hat r_hat v1 v2 u2 =
     (if q_hat \<ge> push_bit 64 1 \<or> q_hat * ucast v2 > (push_bit 64 r_hat OR ucast u2)
      then (if r_hat + ucast v1 < push_bit 64 1 then qhat_loop (q_hat - 1) (r_hat + ucast v1) v1 v2 u2
            else q_hat - 1)
      else q_hat)"
  by pat_completeness auto
termination
proof (relation "measure (\<lambda>(q_hat, r_hat, v1, v2, u2). unat q_hat)", goal_cases)
  case 1
  then show ?case by simp
next
  case (2 q_hat r_hat v1 v2 u2)
  then have "q_hat \<noteq> 0" by auto
  then show ?case by (simp add: unat_minus_one unat_gt_0)
qed

definition mulsub_step :: "u64 list \<Rightarrow> u128 \<Rightarrow> nat \<Rightarrow> nat \<Rightarrow> u64 list \<times> u128 \<Rightarrow> u64 list \<times> u128" where
  "mulsub_step vn q_hat j i s =
     (let (un, borrow) = s;
          prod = q_hat * ucast (vn ! i);
          t = (ucast (un ! (j + i)) :: u128) - borrow - ucast (ucast prod :: u64)
      in (un[j + i := ucast t], drop_bit 64 prod - signed_drop_bit 64 t))"

definition addback_step :: "u64 list \<Rightarrow> nat \<Rightarrow> nat \<Rightarrow> u64 list \<times> u64 \<Rightarrow> u64 list \<times> u64" where
  "addback_step vn j i s =
     (let (un, carry) = s;
          sum = (ucast (un ! (j + i)) :: u128) + ucast (vn ! i) + ucast carry
      in (un[j + i := ucast sum], ucast (drop_bit 64 sum)))"

definition qhat :: "u64 list \<Rightarrow> nat \<Rightarrow> u64 list \<Rightarrow> u128" where
  "qhat vn j un =
     (let dividend_top = push_bit 64 (ucast (un ! (j + 4)) :: u128) OR ucast (un ! (j + 3))
      in qhat_loop (dividend_top div ucast (vn ! 3)) (dividend_top mod ucast (vn ! 3)) (vn ! 3) (vn ! 2)
           (un ! (j + 2)))"

definition knuth_step :: "u64 list \<Rightarrow> nat \<Rightarrow> u64 list \<Rightarrow> u64 list" where
  "knuth_step vn j un =
     (let (un, borrow) = fold (mulsub_step vn (qhat vn j un) j) [0..<4] (un, 0);
          t = (ucast (un ! (j + 4)) :: u128) - borrow;
          un = un[j + 4 := ucast t]
      in if sint t < 0
         then let (un, carry) = fold (addback_step vn j) [0..<4] (un, 0)
              in un[j + 4 := un ! (j + 4) + carry]
         else un)"

definition reduce_512 :: "u64 list \<Rightarrow> u256 \<Rightarrow> u256" where
  "reduce_512 val modulus =
     (let s = leading_zeros (limb modulus 3);
          vn = normalize_modulus s modulus;
          un = fold (knuth_step vn) (rev [0..<5]) (normalize_val s val)
      in if s > 0
         then U256 (drop_bit s (un ! 0) OR push_bit (64 - s) (un ! 1))
                   (drop_bit s (un ! 1) OR push_bit (64 - s) (un ! 2))
                   (drop_bit s (un ! 2) OR push_bit (64 - s) (un ! 3))
                   (drop_bit s (un ! 3))
         else U256 (un ! 0) (un ! 1) (un ! 2) (un ! 3))"

section \<open>The quotient digit\<close>

text \<open>The arithmetic of the estimate, over natural numbers: \<open>v\<close> is the normalised divisor with top
  limbs \<open>d\<close> and \<open>e\<close>, \<open>X\<close> the five-limb window with top limbs \<open>u4\<close>, \<open>u3\<close>, \<open>u2\<close>.\<close>

lemma qhat_too_large:
  fixes B d e vl u4 u3 u2 xl q r :: nat
  assumes qr: "q * d + r = u4 * B + u3" and xl: "xl < B * B" and big: "q * e > r * B + u2"
  shows "(u4 * B ^ 4 + u3 * B ^ 3 + u2 * B\<^sup>2 + xl) < q * (d * B ^ 3 + e * B\<^sup>2 + vl)"
proof -
  have "u4 * B ^ 4 + u3 * B ^ 3 + u2 * B\<^sup>2 + xl < (u4 * B + u3) * B ^ 3 + (u2 + 1) * B\<^sup>2"
    using xl by (simp add: algebra_simps power2_eq_square power3_eq_cube numeral_eq_Suc)
  also have "\<dots> = q * d * B ^ 3 + (r * B + u2 + 1) * B\<^sup>2"
    unfolding qr [symmetric] by (simp add: algebra_simps power2_eq_square power3_eq_cube)
  also have "\<dots> \<le> q * d * B ^ 3 + q * e * B\<^sup>2"
    using big by (intro add_left_mono mult_le_mono1) simp
  also have "\<dots> \<le> q * (d * B ^ 3 + e * B\<^sup>2 + vl)" by (simp add: algebra_simps)
  finally show ?thesis .
qed

lemma qhat_not_too_large:
  fixes B d e vl u4 u3 u2 xl q r :: nat
  assumes qr: "q * d + r = u4 * B + u3" and vl: "vl < B * B" and q: "q < B" and d: "B \<le> 2 * d" "1 < B"
    and small: "q * e \<le> r * B + u2"
  shows "q * (d * B ^ 3 + e * B\<^sup>2 + vl) < (u4 * B ^ 4 + u3 * B ^ 3 + u2 * B\<^sup>2 + xl) + (d * B ^ 3 + e * B\<^sup>2 + vl)"
proof -
  have "q * (d * B ^ 3 + e * B\<^sup>2 + vl) = q * d * B ^ 3 + q * e * B\<^sup>2 + q * vl"
    by (simp add: algebra_simps)
  also have "\<dots> \<le> q * d * B ^ 3 + (r * B + u2) * B\<^sup>2 + q * vl"
    using small by (intro add_mono mult_le_mono1) simp_all
  also have "\<dots> = (u4 * B + u3) * B ^ 3 + u2 * B\<^sup>2 + q * vl"
    unfolding qr [symmetric] by (simp add: algebra_simps power2_eq_square power3_eq_cube)
  also have "q * vl \<le> (B - 1) * (B * B)" using q vl by (intro mult_le_mono) simp_all
  also have "(B - 1) * (B * B) < d * B ^ 3"
  proof -
    have "d * B \<ge> B" using d by (cases d) auto
    then have "B - 1 < d * B" using d by linarith
    then have "(B - 1) * (B * B) < d * B * (B * B)" using d by (intro mult_strict_right_mono) auto
    then show ?thesis by (simp add: power3_eq_cube)
  qed
  finally show ?thesis by (simp add: algebra_simps power2_eq_square power3_eq_cube numeral_eq_Suc)
qed

abbreviation B64 :: nat where
  "B64 \<equiv> 2 ^ 64"

lemma unat_top2: "unat (push_bit 64 (ucast (a :: u64) :: u128) OR ucast (b :: u64)) = unat a * B64 + unat b"
proof -
  have "(push_bit 64 (ucast a :: u128) OR ucast b) = push_bit 64 (ucast a) + ucast b"
  proof (rule disjunctive_add [symmetric])
    fix n
    show "\<not> bit (push_bit 64 (ucast a :: u128)) n \<or> \<not> bit (ucast b :: u128) n"
      by (auto simp: bit_simps dest: bit_imp_le_length)
  qed
  also have "push_bit 64 (ucast a :: u128) + ucast b = ucast a * 2 ^ 64 + ucast b" by (simp add: push_bit_eq_mult)
  finally have eq: "(push_bit 64 (ucast a :: u128) OR ucast b) = ucast a * 2 ^ 64 + ucast b" .
  have "unat a * B64 + unat b < 2 ^ 128" using unat_u64_less [of a] unat_u64_less [of b] by simp
  then show ?thesis unfolding eq by (simp add: unat_word_ariths mod_simps)
qed

lemma unat_ucast_u64:
  assumes "unat (r :: u128) < B64"
  shows "unat (ucast r :: u64) = unat r" and "ucast (ucast r :: u64) = r"
proof -
  show u: "unat (ucast r :: u64) = unat r" using u128_split(1) [OF refl, of r] assms by simp
  show "ucast (ucast r :: u64) = r" unfolding word_unat_eq_iff unat_ucast_u128 by (rule u)
qed

lemma unat_top2': "unat (r :: u128) < B64 \<Longrightarrow> unat (push_bit 64 r OR ucast (b :: u64)) = unat r * B64 + unat b"
  using unat_top2 [of "ucast r" b] unat_ucast_u64 [of r] by simp

text \<open>What the loop is entered with and what it guarantees.\<close>

definition qhat_inv :: "nat \<Rightarrow> nat \<Rightarrow> nat \<Rightarrow> u64 \<Rightarrow> u128 \<Rightarrow> u128 \<Rightarrow> bool" where
  "qhat_inv X v tp d q r \<longleftrightarrow> unat q * unat d + unat r = tp \<and> X div v \<le> unat q \<and> unat r < B64"

lemma push_bit_64_1: "unat (push_bit 64 1 :: u128) = B64"
  by (simp add: push_bit_eq_mult)

lemma le_div_Suc: "0 < v \<Longrightarrow> q * v < X + v \<Longrightarrow> q \<le> X div v + 1" for q v X :: nat
proof -
  assume "0 < v" "q * v < X + v"
  then have "q * v div v \<le> (X + v) div v" by (intro div_le_mono) simp
  with \<open>0 < v\<close> show ?thesis by (simp add: div_add_self2)
qed

lemma unat_qhat_prod: "unat (q :: u128) < B64 \<Longrightarrow> unat (q * ucast (e :: u64)) = unat q * unat e"
  using unat_u128_mul_add [of "ucast q" e 0 0] unat_ucast_u64 [of q] by simp

lemma qhat_loop_correct:
  assumes "qhat_inv X v tp d q r"
    and v: "v = unat d * B64 ^ 3 + unat e * B64\<^sup>2 + vl" "vl < B64 * B64" "B64 \<le> 2 * unat d"
    and X: "X = u4 * B64 ^ 4 + u3 * B64 ^ 3 + unat u2 * B64\<^sup>2 + xl" "xl < B64 * B64" "tp = u4 * B64 + u3"
    and tp: "tp < unat d * B64 + B64" and less: "X < v * B64"
  shows "X div v \<le> unat (qhat_loop q r d e u2) \<and> unat (qhat_loop q r d e u2) \<le> X div v + 1
    \<and> unat (qhat_loop q r d e u2) < B64"
  using assms(1)
proof (induction "unat q" arbitrary: q r rule: less_induct)
  case (less q r)
  have d0: "0 < unat d" using v(3) by (cases "unat d = 0") auto
  have v0: "0 < v" using d0 v(1) by simp
  have qr: "unat q * unat d + unat r = tp" and lo: "X div v \<le> unat q" and r: "unat r < B64"
    using less.prems by (auto simp: qhat_inv_def)
  have fin: "unat q' \<le> X div v + 1"
    if "unat q' * unat d + r' = tp" "unat q' < B64" "unat q' * unat e \<le> r' * B64 + unat u2" for q' :: u128 and r'
  proof (rule le_div_Suc [OF v0])
    show "unat q' * v < X + v"
      unfolding v(1) X(1)
      by (rule qhat_not_too_large [OF _ v(2) that(2) v(3) _ that(3)]) (use that(1) X(3) in simp_all)
  qed
  show ?case
  proof (cases "q \<ge> push_bit 64 1 \<or> q * ucast e > (push_bit 64 r OR ucast u2)")
    case False
    then have q: "unat q < B64" by (simp add: not_le word_less_nat_alt push_bit_64_1)
    have "unat q * unat e \<le> unat r * B64 + unat u2"
      using False by (simp add: not_less word_le_nat_alt unat_qhat_prod [OF q] unat_top2' [OF r])
    with fin [OF qr q] lo q False show ?thesis by (subst (1 2 3) qhat_loop.simps) auto
  next
    case True
    have lt: "X div v < unat q"
    proof (cases "unat q < B64")
      case False
      have "X div v < B64" using assms(9) by (simp add: less_mult_imp_div_less mult.commute)
      with False show ?thesis by simp
    next
      case q: True
      then have "unat r * B64 + unat u2 < unat q * unat e"
        using True by (simp add: word_less_nat_alt word_le_nat_alt push_bit_64_1 unat_qhat_prod [OF q] unat_top2' [OF r])
      from qhat_too_large [OF _ X(2) this, of "unat d" u4 u3 vl] qr X(3)
      have "X < unat q * v" unfolding v(1) X(1) by simp
      then show ?thesis by (simp add: less_mult_imp_div_less)
    qed
    define q' where "q' = q - 1"
    define r' where "r' = r + ucast d"
    have "q \<noteq> 0" using lt by auto
    then have q': "unat q' = unat q - 1" by (simp add: q'_def unat_minus_one)
    have r': "unat r' = unat r + unat d"
      using r unat_u64_less [of d] by (simp add: r'_def unat_word_ariths)
    have qr': "unat q' * unat d + unat r' = tp"
      using qr lt by (cases "unat q") (auto simp: q' r' algebra_simps)
    have step: "qhat_loop q r d e u2 = (if r' < push_bit 64 1 then qhat_loop q' r' d e u2 else q')"
      using True by (subst qhat_loop.simps) (simp add: q'_def r'_def)
    show ?thesis
    proof (cases "r' < push_bit 64 1")
      case True
      then have "qhat_inv X v tp d q' r'"
        using qr' lt q' by (simp add: qhat_inv_def word_less_nat_alt push_bit_64_1)
      from less.hyps [OF _ this] lt q' True step show ?thesis by simp
    next
      case False
      then have rB: "B64 \<le> unat r'" by (simp add: not_less word_le_nat_alt push_bit_64_1)
      have "unat q' * unat d < unat d * B64" using qr' rB tp by linarith
      then have q'B: "unat q' < B64" by (simp add: mult.commute)
      have "unat q' * unat e \<le> B64 * B64" using q'B unat_u64_less [of e] by (intro mult_le_mono) simp_all
      also have "\<dots> \<le> unat r' * B64 + unat u2" using rB by (intro trans_le_add1 mult_le_mono1)
      finally have "unat q' \<le> X div v + 1" by (rule fin [OF qr' q'B])
      with lt q' q'B False step show ?thesis by simp
    qed
  qed
qed

section \<open>Multiply and subtract\<close>

lemma int_lval_update:
  assumes "k < length xs"
  shows "int (lval (xs[k := v])) = int (lval xs) + 2 ^ (64 * k) * (uint v - uint (xs ! k))"
proof -
  have "int (lval (xs[k := v]) + 2 ^ (64 * k) * unat (xs ! k)) = int (lval xs + 2 ^ (64 * k) * unat v)"
    by (simp only: lval_update [OF assms])
  then show ?thesis by (simp add: algebra_simps)
qed

lemma sint_diff_in_range:
  fixes a b :: u128
  assumes "- (4 * 2 ^ 64) \<le> sint a - sint b" "sint a - sint b \<le> 4 * 2 ^ 64"
  shows "sint (a - b) = sint a - sint b"
  using assms by (simp add: sint_word_diff signed_take_bit_int_eq_self)

lemma sint_ucast_u64: "sint (ucast (x :: u64) :: u128) = uint x"
proof -
  have "uint x < 2 ^ 64" "0 \<le> uint x" using unsigned_less [of x] by simp_all
  then have "- (2 ^ 127) \<le> uint x" "uint x < 2 ^ 127" by (simp_all add: order_trans [of _ 0])
  then have "sint (ucast x :: u128) = uint (ucast x :: u128)"
    using \<open>uint x < 2 ^ 64\<close> by (simp add: sint_uint unsigned_ucast_eq take_bit_int_eq_self signed_take_bit_int_eq_self)
  then show ?thesis using \<open>uint x < 2 ^ 64\<close> by (simp add: unsigned_ucast_eq take_bit_int_eq_self)
qed

lemma uint_ucast_sint: "uint (ucast (t :: u128) :: u64) = sint t mod 2 ^ 64"
proof -
  have "uint (ucast t :: u64) = take_bit 64 (uint t)" by (simp add: unsigned_ucast_eq)
  also have "uint t = take_bit 128 (sint t)" by (simp add: uint_sint)
  also have "take_bit 64 (take_bit 128 (sint t)) = take_bit 64 (sint t)" by simp
  finally show ?thesis by (simp only: take_bit_eq_mod)
qed

text \<open>One limb: the new limb and the new borrow, and the range that the borrow keeps.\<close>

lemma mulsub_limb:
  fixes q borrow :: u128 and u v :: u64
  assumes q: "unat q < B64" and b: "0 \<le> sint borrow" "sint borrow \<le> 2 ^ 64"
  defines "p \<equiv> q * ucast v"
  defines "t \<equiv> (ucast u :: u128) - borrow - ucast (ucast p :: u64)"
  defines "borrow' \<equiv> drop_bit 64 p - signed_drop_bit 64 t"
  shows "uint (ucast t :: u64) - 2 ^ 64 * sint borrow' = uint u - sint borrow - int (unat q) * uint v"
    and "0 \<le> sint borrow'" and "sint borrow' \<le> 2 ^ 64"
proof -
  have p: "unat p = unat q * unat v" unfolding p_def by (rule unat_qhat_prod [OF q])
  define lo where "lo = (ucast p :: u64)"
  define hi where "hi = (ucast (drop_bit 64 p) :: u64)"
  have lohi: "unat lo + B64 * unat hi = unat q * unat v"
    unfolding lo_def hi_def by (rule u128_halves [OF p])
  have dhi: "drop_bit 64 p = ucast hi"
  proof -
    have "unat (drop_bit 64 p) = unat p div B64" unfolding unat_drop_bit_eq by (rule drop_bit_eq_div)
    then have "unat (drop_bit 64 p) < B64" using unat_u128_less [of p] by (simp add: less_mult_imp_div_less)
    then show ?thesis unfolding hi_def by (simp add: unat_ucast_u64)
  qed
  have ub: "uint x < 2 ^ 64" "0 \<le> uint x" for x :: u64 using unsigned_less [of x] by simp_all
  have M: "(1::int) \<le> 2 ^ 64" by simp
  have hi_small: "uint hi \<le> 2 ^ 64 - 2"
  proof -
    have "unat q * unat v \<le> (B64 - 1) * (B64 - 1)"
      using q unat_u64_less [of v] by (intro mult_le_mono) simp_all
    then have "B64 * unat hi \<le> (B64 - 1) * (B64 - 1)" using lohi by simp
    then have "unat hi \<le> B64 - 2" by simp
    then have "int (unat hi) \<le> int (B64 - 2)" by (simp only: of_nat_le_iff)
    then show ?thesis by simp
  qed
  have s1: "sint (ucast u - borrow) = uint u - sint borrow"
    by (rule sint_diff_in_range [of "ucast u" borrow, unfolded sint_ucast_u64]) (use ub [of u] b in linarith)+
  have t: "sint t = uint u - sint borrow - uint lo"
    unfolding t_def lo_def [symmetric]
    by (rule sint_diff_in_range [of "ucast u - borrow" "ucast lo", unfolded s1 sint_ucast_u64])
      (use ub [of u] ub [of lo] b in linarith)+
  define k where "k = sint t div 2 ^ 64"
  have k: "- 2 \<le> k" "k \<le> 0"
  proof -
    have "- 2 * 2 ^ 64 \<le> sint t" "sint t < 2 ^ 64"
      using t ub [of u] ub [of lo] b by linarith+
    then show "- 2 \<le> k" "k \<le> 0" unfolding k_def by (auto simp: div_pos_pos_trivial)
  qed
  have sk: "sint (signed_drop_bit 64 t) = k"
    by (simp add: sint_signed_drop_bit_eq drop_bit_eq_div k_def)
  have b': "sint borrow' = uint hi - k"
    unfolding borrow'_def dhi
    by (rule sint_diff_in_range [of "ucast hi" "signed_drop_bit 64 t", unfolded sint_ucast_u64 sk])
      (use ub [of hi] k M in linarith)+
  show "0 \<le> sint borrow'" using b' k ub [of hi] by linarith
  show "sint borrow' \<le> 2 ^ 64" using b' k hi_small by linarith
  have "uint (ucast t :: u64) = sint t - 2 ^ 64 * k"
    unfolding uint_ucast_sint k_def by (simp add: minus_mult_div_eq_mod)
  moreover have "int (unat q) * uint v = uint lo + 2 ^ 64 * uint hi"
  proof -
    have "int (unat lo + B64 * unat hi) = int (unat q * unat v)" by (simp only: lohi)
    then show ?thesis by simp
  qed
  ultimately show "uint (ucast t :: u64) - 2 ^ 64 * sint borrow' = uint u - sint borrow - int (unat q) * uint v"
    using t b' by (simp add: algebra_simps)
qed

definition mulsub_inv :: "u64 list \<Rightarrow> nat \<Rightarrow> nat \<Rightarrow> u64 list \<Rightarrow> nat \<Rightarrow> u64 list \<times> u128 \<Rightarrow> bool" where
  "mulsub_inv vn q j un0 i s \<longleftrightarrow>
     length (fst s) = length un0 \<and> take j (fst s) = take j un0 \<and> drop (j + i) (fst s) = drop (j + i) un0 \<and>
     0 \<le> sint (snd s) \<and> sint (snd s) \<le> 2 ^ 64 \<and>
     int (lval (fst s)) - 2 ^ (64 * (j + i)) * sint (snd s)
       = int (lval un0) - 2 ^ (64 * j) * int q * int (lval (take i vn))"

lemma nth_drop_eq: "drop k xs = drop k ys \<Longrightarrow> k < length xs \<Longrightarrow> length xs = length ys \<Longrightarrow> xs ! k = ys ! k"
  by (metis Cons_nth_drop_Suc list.inject)

lemma drop_Suc_eq: "drop k xs = drop k ys \<Longrightarrow> drop (Suc k) xs = drop (Suc k) ys"
  by (metis drop_Suc tl_drop)

lemma mulsub_inv_step:
  assumes i: "i < 4" and len: "length vn = 4" "j + 4 < length un0" and q: "unat q < B64"
    and inv: "mulsub_inv vn (unat q) j un0 i s"
  shows "mulsub_inv vn (unat q) j un0 (Suc i) (mulsub_step vn q j i s)"
proof -
  obtain un borrow where s: "s = (un, borrow)" by fastforce
  define p where "p = q * ucast (vn ! i)"
  define t where "t = (ucast (un ! (j + i)) :: u128) - borrow - ucast (ucast p :: u64)"
  define borrow' where "borrow' = drop_bit 64 p - signed_drop_bit 64 t"
  have lu: "length un = length un0" and tk: "take j un = take j un0" and dr: "drop (j + i) un = drop (j + i) un0"
    and b: "0 \<le> sint borrow" "sint borrow \<le> 2 ^ 64"
    and v: "int (lval un) - 2 ^ (64 * (j + i)) * sint borrow
       = int (lval un0) - 2 ^ (64 * j) * int (unat q) * int (lval (take i vn))"
    using inv by (simp_all add: mulsub_inv_def s)
  have step: "mulsub_step vn q j i s = (un[j + i := ucast t], borrow')"
    by (simp add: mulsub_step_def s p_def t_def borrow'_def Let_def)
  note limb = mulsub_limb [OF q b, where u = "un ! (j + i)" and v = "vn ! i", folded p_def, folded t_def, folded borrow'_def]
  have "int (lval (un[j + i := ucast t])) = int (lval un) + 2 ^ (64 * (j + i)) * (uint (ucast t :: u64) - uint (un ! (j + i)))"
    using lu len i by (intro int_lval_update) simp
  moreover have "2 ^ (64 * (j + i)) * (uint (ucast t :: u64) - 2 ^ 64 * sint borrow')
      = 2 ^ (64 * (j + i)) * (uint (un ! (j + i)) - sint borrow - int (unat q) * uint (vn ! i))"
    by (simp only: limb(1))
  moreover have "int (lval (take (Suc i) vn)) = int (lval (take i vn)) + 2 ^ (64 * i) * uint (vn ! i)"
    using len i by (simp add: lval_take_Suc)
  ultimately have "int (lval (un[j + i := ucast t])) - 2 ^ (64 * (j + Suc i)) * sint borrow'
       = int (lval un0) - 2 ^ (64 * j) * int (unat q) * int (lval (take (Suc i) vn))"
    using v by (simp add: algebra_simps power_add)
  moreover have "drop (j + Suc i) (un[j + i := ucast t]) = drop (j + Suc i) un0"
    using drop_Suc_eq [OF dr] by simp
  ultimately show ?thesis
    using lu tk limb(2,3) by (simp add: mulsub_inv_def step)
qed

lemma mulsub_correct:
  assumes "length vn = 4" "j + 4 < length un0" "unat q < B64"
  shows "mulsub_inv vn (unat q) j un0 4 (fold (mulsub_step vn q j) [0..<4] (un0, 0))"
proof (rule fold_range_invariant)
  show "mulsub_inv vn (unat q) j un0 0 (un0, 0)" by (simp add: mulsub_inv_def)
  show "\<And>i s. i < 4 \<Longrightarrow> mulsub_inv vn (unat q) j un0 i s \<Longrightarrow> mulsub_inv vn (unat q) j un0 (Suc i) (mulsub_step vn q j i s)"
    by (rule mulsub_inv_step [OF _ assms])
qed simp

section \<open>Adding back\<close>

definition addback_inv :: "u64 list \<Rightarrow> nat \<Rightarrow> u64 list \<Rightarrow> nat \<Rightarrow> u64 list \<times> u64 \<Rightarrow> bool" where
  "addback_inv vn j un0 i s \<longleftrightarrow>
     length (fst s) = length un0 \<and> take j (fst s) = take j un0 \<and> drop (j + i) (fst s) = drop (j + i) un0 \<and>
     lval (fst s) + 2 ^ (64 * (j + i)) * unat (snd s) = lval un0 + 2 ^ (64 * j) * lval (take i vn)"

lemma addback_inv_step:
  assumes i: "i < 4" and len: "length vn = 4" "j + 4 < length un0" and inv: "addback_inv vn j un0 i s"
  shows "addback_inv vn j un0 (Suc i) (addback_step vn j i s)"
proof -
  obtain un c where s: "s = (un, c)" by fastforce
  define w where "w = (ucast (un ! (j + i)) :: u128) + ucast (vn ! i) + ucast c"
  have lu: "length un = length un0" and tk: "take j un = take j un0" and dr: "drop (j + i) un = drop (j + i) un0"
    and v: "lval un + 2 ^ (64 * (j + i)) * unat c = lval un0 + 2 ^ (64 * j) * lval (take i vn)"
    using inv by (simp_all add: addback_inv_def s)
  have step: "addback_step vn j i s = (un[j + i := ucast w], ucast (drop_bit 64 w))"
    by (simp add: addback_step_def s w_def Let_def)
  have w: "unat (ucast w :: u64) + 2 ^ 64 * unat (ucast (drop_bit 64 w) :: u64) = unat (un ! (j + i)) + unat (vn ! i) + unat c"
    by (rule u128_halves) (simp add: w_def unat_u128_add3)
  have "lval (un[j + i := ucast w]) + 2 ^ (64 * (j + i)) * unat (un ! (j + i)) = lval un + 2 ^ (64 * (j + i)) * unat (ucast w :: u64)"
    using lu len i by (intro lval_update) simp
  moreover have "2 ^ (64 * (j + i)) * (unat (ucast w :: u64) + 2 ^ 64 * unat (ucast (drop_bit 64 w) :: u64))
      = 2 ^ (64 * (j + i)) * (unat (un ! (j + i)) + unat (vn ! i) + unat c)"
    by (simp only: w)
  moreover have "lval (take (Suc i) vn) = lval (take i vn) + 2 ^ (64 * i) * unat (vn ! i)"
    using len i by (simp add: lval_take_Suc)
  ultimately have "lval (un[j + i := ucast w]) + 2 ^ (64 * (j + Suc i)) * unat (ucast (drop_bit 64 w) :: u64)
      = lval un0 + 2 ^ (64 * j) * lval (take (Suc i) vn)"
    using v by (simp add: algebra_simps power_add)
  moreover have "drop (j + Suc i) (un[j + i := ucast w]) = drop (j + Suc i) un0"
    using drop_Suc_eq [OF dr] by simp
  ultimately show ?thesis using lu tk by (simp add: addback_inv_def step)
qed

lemma addback_correct:
  assumes "length vn = 4" "j + 4 < length un0"
  shows "addback_inv vn j un0 4 (fold (addback_step vn j) [0..<4] (un0, 0))"
proof (rule fold_range_invariant)
  show "addback_inv vn j un0 0 (un0, 0)" by (simp add: addback_inv_def)
  show "\<And>i s. i < 4 \<Longrightarrow> addback_inv vn j un0 i s \<Longrightarrow> addback_inv vn j un0 (Suc i) (addback_step vn j i s)"
    by (rule addback_inv_step [OF _ assms])
qed simp

section \<open>One round\<close>

abbreviation window :: "nat \<Rightarrow> u64 list \<Rightarrow> nat" where
  "window j un \<equiv> lval (take 5 (drop j un))"

lemma lval_window:
  assumes "j + 4 < length un"
  shows "lval un = lval (take j un) + 2 ^ (64 * j) * (window j un + 2 ^ 320 * lval (drop (j + 5) un))"
proof -
  have "lval un = lval (take j un @ drop j un)" by simp
  also have "\<dots> = lval (take j un) + 2 ^ (64 * j) * lval (drop j un)"
    using assms by (simp only: lval_append length_take min_def) simp
  also have "lval (drop j un) = lval (take 5 (drop j un) @ drop 5 (drop j un))" by (simp only: append_take_drop_id)
  also have "\<dots> = window j un + 2 ^ 320 * lval (drop (j + 5) un)"
    using assms by (simp only: lval_append length_take length_drop min_def) (simp add: add.commute)
  finally show ?thesis .
qed

lemma window_change:
  assumes "length un' = length un" "take j un' = take j un" "drop (j + 5) un' = drop (j + 5) un" "j + 4 < length un"
  shows "int (lval un') - int (lval un) = 2 ^ (64 * j) * (int (window j un') - int (window j un))"
proof -
  have "int (lval un) = int (lval (take j un)) + 2 ^ (64 * j) * (int (window j un) + 2 ^ 320 * int (lval (drop (j + 5) un)))"
    by (subst lval_window [OF assms(4)]) simp
  moreover have "int (lval un') = int (lval (take j un)) + 2 ^ (64 * j) * (int (window j un') + 2 ^ 320 * int (lval (drop (j + 5) un)))"
    using assms(1,4) by (subst lval_window [of j un']) (simp_all add: assms(2,3))
  ultimately show ?thesis by (simp add: algebra_simps)
qed

lemma window_split:
  assumes "j + 4 < length un"
  shows "window j un = lval (take 4 (drop j un)) + 2 ^ 256 * unat (un ! (j + 4))"
    and "window j un = unat (un ! j) + 2 ^ 64 * lval (take 4 (drop (Suc j) un))"
proof -
  show "window j un = lval (take 4 (drop j un)) + 2 ^ 256 * unat (un ! (j + 4))"
    using lval_take_Suc [of 4 "drop j un"] assms by (simp add: add.commute)
  have "drop j un = un ! j # drop (Suc j) un" using assms by (simp add: Cons_nth_drop_Suc)
  then show "window j un = unat (un ! j) + 2 ^ 64 * lval (take 4 (drop (Suc j) un))"
    by (simp only:) (simp add: take_Cons')
qed

lemma window_less: "window j un < 2 ^ 320"
proof -
  have "window j un < 2 ^ (64 * length (take 5 (drop j un)))" by (rule lval_less)
  also have "\<dots> \<le> 2 ^ 320" by (rule power_increasing) simp_all
  finally show ?thesis .
qed

text \<open>The window after multiply-and-subtract, before the test for a borrow.\<close>

lemma mulsub_window:
  assumes len: "length vn = 4" "j + 4 < length un" and q: "unat q < B64"
    and f: "fold (mulsub_step vn q j) [0..<4] (un, 0) = (un1, borrow)"
  defines "t \<equiv> (ucast (un1 ! (j + 4)) :: u128) - borrow"
  defines "un2 \<equiv> un1[j + 4 := ucast t]"
  shows "length un2 = length un" "take j un2 = take j un" "drop (j + 5) un2 = drop (j + 5) un"
    and "int (window j un2) + 2 ^ 320 * (sint t div 2 ^ 64) = int (window j un) - int (unat q) * int (lval vn)"
proof -
  note inv = mulsub_correct [OF len q, unfolded f mulsub_inv_def fst_conv snd_conv]
  have l1: "length un1 = length un" and tk: "take j un1 = take j un" and dr: "drop (j + 4) un1 = drop (j + 4) un"
    and b: "0 \<le> sint borrow" "sint borrow \<le> 2 ^ 64"
    and v: "int (lval un1) - 2 ^ (64 * (j + 4)) * sint borrow = int (lval un) - 2 ^ (64 * j) * int (unat q) * int (lval vn)"
    using inv len(1) by simp_all
  show l2: "length un2 = length un" by (simp add: un2_def l1)
  show t2: "take j un2 = take j un" by (simp add: un2_def tk)
  show d2: "drop (j + 5) un2 = drop (j + 5) un"
    using drop_Suc_eq [OF dr] by (simp add: un2_def add.commute)
  have ub: "uint x < 2 ^ 64" "0 \<le> uint x" for x :: u64 using unsigned_less [of x] by simp_all
  have t: "sint t = uint (un1 ! (j + 4)) - sint borrow"
    unfolding t_def
    by (rule sint_diff_in_range [of "ucast (un1 ! (j + 4))" borrow, unfolded sint_ucast_u64])
      (use ub [of "un1 ! (j + 4)"] b in linarith)+
  define k where "k = sint t div 2 ^ 64"
  have "sint t mod 2 ^ 64 = sint t - 2 ^ 64 * k" unfolding k_def by (simp only: minus_mult_div_eq_mod)
  then have "int (lval un2) = int (lval un1) + 2 ^ (64 * (j + 4)) * (- sint borrow - 2 ^ 64 * k)"
    unfolding un2_def using l1 len(2) t by (subst int_lval_update) (simp_all add: uint_ucast_sint)
  then have "int (lval un2) - int (lval un) = 2 ^ (64 * j) * (- int (unat q) * int (lval vn) - 2 ^ 320 * k)"
    using v by (simp add: algebra_simps power_add)
  moreover have "int (lval un2) - int (lval un) = 2 ^ (64 * j) * (int (window j un2) - int (window j un))"
    by (rule window_change [OF l2 t2 d2 len(2)])
  ultimately show "int (window j un2) + 2 ^ 320 * (sint t div 2 ^ 64) = int (window j un) - int (unat q) * int (lval vn)"
    unfolding k_def by simp
qed

lemma window_limbs:
  assumes "j + 4 < length un"
  shows "take 5 (drop j un) = [un ! j, un ! (j + 1), un ! (j + 2), un ! (j + 3), un ! (j + 4)]"
proof (rule nth_equalityI)
  fix i assume "i < length (take 5 (drop j un))"
  then have "i \<in> {0, 1, 2, 3, 4}" using assms by auto
  then show "take 5 (drop j un) ! i = [un ! j, un ! (j + 1), un ! (j + 2), un ! (j + 3), un ! (j + 4)] ! i"
    using assms by auto
qed (use assms in simp)

lemma lval_5:
  "lval [x0, x1, x2, x3, x4] = unat x4 * B64 ^ 4 + unat x3 * B64 ^ 3 + unat x2 * B64\<^sup>2 + (unat x0 + B64 * unat x1)"
  by (simp add: algebra_simps)

lemma lval_4: "lval [x0, x1, x2, x3] = unat x3 * B64 ^ 3 + unat x2 * B64\<^sup>2 + (unat x0 + B64 * unat x1)"
  by (simp add: algebra_simps)

lemma two_limbs_less: "unat (x0 :: u64) + B64 * unat (x1 :: u64) < B64 * B64"
  using unat_u64_less [of x0] unat_u64_less [of x1] by simp

lemma top_limb_le:
  assumes "unat (x3 :: u64) * B64 ^ 3 + r < unat (d :: u64) * B64 ^ 3 + s" "s < B64 ^ 3"
  shows "unat x3 \<le> unat d"
proof (rule ccontr)
  assume "\<not> unat x3 \<le> unat d"
  then have "Suc (unat d) * B64 ^ 3 \<le> unat x3 * B64 ^ 3" by (intro mult_le_mono1) simp
  with assms show False by simp
qed

lemma div_le_top_div:
  fixes X v :: nat
  assumes X: "X = tp * M + xl" "xl < M" and v: "v = d * M + vl" and d: "0 < d"
  shows "X div v \<le> tp div d"
proof -
  have M: "0 < M" using assms(2) by simp
  have "X div v \<le> X div (M * d)" unfolding v using d M by (intro div_le_mono2) (simp_all add: mult.commute)
  also have "\<dots> = tp div d" unfolding X(1) using assms(2) M by (simp add: div_mult2_eq)
  finally show ?thesis .
qed

lemma qhat_correct:
  assumes len: "length vn = 4" "j + 4 < length un" and norm: "B64 \<le> 2 * unat (vn ! 3)"
    and R: "lval (take 4 (drop (Suc j) un)) < lval vn"
  shows "window j un div lval vn \<le> unat (qhat vn j un)" and "unat (qhat vn j un) \<le> window j un div lval vn + 1"
    and "unat (qhat vn j un) < B64"
proof -
  obtain v0 v1 e d where vn: "vn = [v0, v1, e, d]"
    using len(1) by (auto simp: numeral_eq_Suc length_Suc_conv)
  define x0 x1 x2 x3 x4 where "x0 = un ! j" and "x1 = un ! (j + 1)" and "x2 = un ! (j + 2)"
    and "x3 = un ! (j + 3)" and "x4 = un ! (j + 4)"
  define tp where "tp = unat x4 * B64 + unat x3"
  define X where "X = window j un"
  define w where "w = push_bit 64 (ucast x4 :: u128) OR ucast x3"
  have d: "B64 \<le> 2 * unat d" using norm vn by simp
  then have d0: "0 < unat d" by (cases "unat d = 0") auto
  have w: "unat w = tp" unfolding w_def tp_def by (rule unat_top2)
  have X: "X = unat x4 * B64 ^ 4 + unat x3 * B64 ^ 3 + unat x2 * B64\<^sup>2 + (unat x0 + B64 * unat x1)"
    unfolding X_def window_limbs [OF len(2)] x0_def x1_def x2_def x3_def x4_def by (rule lval_5)
  have v: "lval vn = unat d * B64 ^ 3 + unat e * B64\<^sup>2 + (unat v0 + B64 * unat v1)"
    unfolding vn by (rule lval_4)
  have XB: "X < lval vn * B64"
  proof -
    have "X = unat x0 + B64 * lval (take 4 (drop (Suc j) un))"
      unfolding X_def x0_def by (rule window_split(2) [OF len(2)])
    also have "\<dots> < B64 * Suc (lval (take 4 (drop (Suc j) un)))" using unat_u64_less [of x0] by simp
    also have "\<dots> \<le> B64 * lval vn" using R by (intro mult_le_mono2) simp
    finally show ?thesis by (simp add: mult.commute)
  qed
  have "unat x4 \<le> unat d"
  proof (rule top_limb_le)
    have "take 4 (drop (Suc j) un) = tl (take 5 (drop j un))" by (simp add: tl_take drop_Suc tl_drop)
    also have "\<dots> = [x1, x2, x3, x4]" unfolding window_limbs [OF len(2)] by (simp add: x1_def x2_def x3_def x4_def)
    finally show "unat x4 * B64 ^ 3 + (unat x3 * B64\<^sup>2 + (unat x1 + B64 * unat x2)) < unat d * B64 ^ 3 + (unat e * B64\<^sup>2 + (unat v0 + B64 * unat v1))"
      using R unfolding v lval_4 [symmetric] by (simp add: lval_4 add.assoc)
    show "unat e * B64\<^sup>2 + (unat v0 + B64 * unat v1) < B64 ^ 3"
      using lval_less [of "[v0, v1, e]"] by (simp add: algebra_simps)
  qed
  then have "unat x4 * B64 \<le> unat d * B64" by (rule mult_le_mono1)
  then have tp: "tp < unat d * B64 + B64" using unat_u64_less [of x3] unfolding tp_def by linarith
  have "qhat_inv X (lval vn) tp d (w div ucast d) (w mod ucast d)"
  proof -
    have "unat x2 * B64\<^sup>2 + (unat x0 + B64 * unat x1) < B64 ^ 3"
      using lval_less [of "[x0, x1, x2]"] by (simp add: algebra_simps)
    then have "X div lval vn \<le> tp div unat d"
      by (intro div_le_top_div [where M = "B64 ^ 3" and d = "unat d"
            and vl = "unat e * B64\<^sup>2 + (unat v0 + B64 * unat v1)"]) (simp_all add: X v tp_def d0 algebra_simps)
    moreover have "tp mod unat d < B64"
      using d0 unat_u64_less [of d] by (meson mod_less_divisor order_less_trans)
    ultimately show ?thesis by (simp add: qhat_inv_def unat_div unat_mod w)
  qed
  from qhat_loop_correct [OF this v two_limbs_less d X two_limbs_less tp_def tp XB]
  show "window j un div lval vn \<le> unat (qhat vn j un)" "unat (qhat vn j un) \<le> window j un div lval vn + 1"
    "unat (qhat vn j un) < B64"
    by (simp_all add: qhat_def vn X_def w_def x2_def x3_def x4_def Let_def)
qed

lemma addback_window:
  assumes len: "length vn = 4" "j + 4 < length un"
    and f: "fold (addback_step vn j) [0..<4] (un, 0) = (un1, c)"
  defines "un2 \<equiv> un1[j + 4 := un1 ! (j + 4) + c]"
  shows "length un2 = length un" "take j un2 = take j un"
    and "\<exists>x. int (window j un2) + 2 ^ 320 * x = int (window j un) + int (lval vn)"
proof -
  note inv = addback_correct [OF len, unfolded f addback_inv_def fst_conv snd_conv]
  have l1: "length un1 = length un" and tk: "take j un1 = take j un" and dr: "drop (j + 4) un1 = drop (j + 4) un"
    and v: "lval un1 + 2 ^ (64 * (j + 4)) * unat c = lval un + 2 ^ (64 * j) * lval vn"
    using inv len(1) by simp_all
  show l2: "length un2 = length un" by (simp add: un2_def l1)
  show t2: "take j un2 = take j un" by (simp add: un2_def tk)
  have d2: "drop (j + 5) un2 = drop (j + 5) un" using drop_Suc_eq [OF dr] by (simp add: un2_def add.commute)
  define x where "x = (uint (un1 ! (j + 4)) + uint c) div 2 ^ 64"
  have "uint (un1 ! (j + 4) + c) = (uint (un1 ! (j + 4)) + uint c) mod 2 ^ 64"
    by (simp add: uint_word_ariths)
  also have "\<dots> = uint (un1 ! (j + 4)) + uint c - 2 ^ 64 * x"
    unfolding x_def by (simp only: minus_mult_div_eq_mod)
  finally have "int (lval un2) = int (lval un1) + 2 ^ (64 * (j + 4)) * (uint c - 2 ^ 64 * x)"
    unfolding un2_def using l1 len(2) by (subst int_lval_update) simp_all
  moreover have "int (lval un1 + 2 ^ (64 * (j + 4)) * unat c) = int (lval un + 2 ^ (64 * j) * lval vn)"
    by (simp only: v)
  ultimately have "int (lval un2) - int (lval un) = 2 ^ (64 * j) * (int (lval vn) - 2 ^ 320 * x)"
    by (simp add: algebra_simps power_add)
  moreover have "int (lval un2) - int (lval un) = 2 ^ (64 * j) * (int (window j un2) - int (window j un))"
    by (rule window_change [OF l2 t2 d2 len(2)])
  ultimately have "int (window j un2) + 2 ^ 320 * x = int (window j un) + int (lval vn)" by simp
  then show "\<exists>x. int (window j un2) + 2 ^ 320 * x = int (window j un) + int (lval vn)" by blast
qed

text \<open>A number below \<open>M\<close> is determined by its value up to multiples of \<open>M\<close>.\<close>

lemma small_plus_multiple:
  fixes w m M k :: int
  assumes "w + M * k = m" "0 \<le> w" "w < M" "0 \<le> m" "m < M"
  shows "k = 0" "w = m"
proof -
  have "k = (w + M * k) div M" using assms(2,3) by simp
  also have "\<dots> = 0" using assms by simp
  finally show "k = 0" .
  with assms(1) show "w = m" by simp
qed

theorem knuth_step_correct:
  assumes len: "length vn = 4" "j + 4 < length un" and norm: "B64 \<le> 2 * unat (vn ! 3)"
    and R: "lval (take 4 (drop (Suc j) un)) < lval vn"
  shows "length (knuth_step vn j un) = length un" "take j (knuth_step vn j un) = take j un"
    and "lval (take 4 (drop j (knuth_step vn j un))) = window j un mod lval vn"
proof -
  define v X q where "v = lval vn" and "X = window j un" and "q = qhat vn j un"
  note qh = qhat_correct [OF len norm R, folded v_def X_def q_def]
  have v0: "0 < v" using R by (simp add: v_def)
  have v256: "v < 2 ^ 256" using lval_less [of vn] len(1) by (simp add: v_def)
  have m: "X mod v < v" using v0 by simp
  have Xq: "int X = int v * int (X div v) + int (X mod v)"
    by (metis mult_div_mod_eq of_nat_add of_nat_mult)
  obtain un1 borrow where f: "fold (mulsub_step vn q j) [0..<4] (un, 0) = (un1, borrow)" by fastforce
  define t where "t = (ucast (un1 ! (j + 4)) :: u128) - borrow"
  define un2 where "un2 = un1[j + 4 := ucast t]"
  define un' where "un' = knuth_step vn j un"
  note ms = mulsub_window [OF len qh(3) f, folded t_def, folded un2_def, folded v_def X_def]
  have step: "un' = (if sint t < 0 then let (un, carry) = fold (addback_step vn j) [0..<4] (un2, 0)
              in un[j + 4 := un ! (j + 4) + carry] else un2)"
    by (simp add: un'_def knuth_step_def q_def [symmetric] f t_def un2_def Let_def)
  have W: "0 \<le> int (window j u)" "int (window j u) < 2 ^ 320" for u
    using window_less [of j u] by (simp_all flip: of_nat_less_iff)
  have big: "int v < 2 ^ 256" "int (X mod v) < int v" "(2::int) ^ 256 < 2 ^ 320"
    using v256 m by (simp_all flip: of_nat_less_iff)
  have goal: "length un' = length un \<and> take j un' = take j un \<and> window j un' = X mod v"
  proof (cases "unat q = X div v")
    case True
    then have "int (window j un2) + 2 ^ 320 * (sint t div 2 ^ 64) = int (X mod v)"
      using ms(4) Xq by (simp add: mult.commute)
    from small_plus_multiple [OF this W] big
    have "sint t div 2 ^ 64 = 0" "int (window j un2) = int (X mod v)" by linarith+
    then have "\<not> sint t < 0" "window j un2 = X mod v" by (auto simp: div_eq_0_iff)
    then show ?thesis using ms(1,2) step by simp
  next
    case False
    then have q: "unat q = X div v + 1" using qh(1,2) by simp
    have "int (window j un2) + 2 ^ 320 * (sint t div 2 ^ 64 + 1) = int (X mod v) - int v + 2 ^ 320"
      using ms(4) Xq by (simp add: q algebra_simps)
    from small_plus_multiple [OF this W] big
    have k: "sint t div 2 ^ 64 + 1 = 0" and w2: "int (window j un2) = int (X mod v) - int v + 2 ^ 320"
      by linarith+
    have neg: "sint t < 0"
    proof (rule ccontr)
      assume "\<not> sint t < 0"
      then have "0 \<le> sint t div 2 ^ 64" by (simp add: pos_imp_zdiv_nonneg_iff)
      with k show False by simp
    qed
    obtain un3 c where g: "fold (addback_step vn j) [0..<4] (un2, 0) = (un3, c)" by fastforce
    have un': "un' = un3[j + 4 := un3 ! (j + 4) + c]" using step neg g by simp
    have len2: "j + 4 < length un2" using ms(1) len(2) by simp
    note ab = addback_window [OF len(1) len2 g, folded un', folded v_def]
    from ab(3) obtain x where "int (window j un') + 2 ^ 320 * x = int (window j un2) + int v" by blast
    then have "int (window j un') + 2 ^ 320 * (x - 1) = int (X mod v)" using w2 by (simp add: algebra_simps)
    from small_plus_multiple(2) [OF this W] big have "window j un' = X mod v" by simp
    then show ?thesis using ab(1,2) ms(1,2) by simp
  qed
  have len': "j + 4 < length un'" using goal len(2) by simp
  have "lval (take 4 (drop j un')) + 2 ^ 256 * unat (un' ! (j + 4)) = X mod v"
    using window_split(1) [OF len'] goal by simp
  moreover from this m v256 have "unat (un' ! (j + 4)) = 0" by (cases "unat (un' ! (j + 4))") simp_all
  ultimately show "length (knuth_step vn j un) = length un" "take j (knuth_step vn j un) = take j un"
    "lval (take 4 (drop j (knuth_step vn j un))) = window j un mod lval vn"
    using goal by (simp_all add: un'_def X_def v_def)
qed

section \<open>Normalisation\<close>

lemma leading_zeros_bits:
  assumes "x \<noteq> 0"
  shows "leading_zeros x < 64" and "bit x (63 - leading_zeros x)" and "i < leading_zeros x \<Longrightarrow> \<not> bit x (63 - i)"
proof -
  let ?xs = "map (bit x) (rev [0..<64])"
  have nth: "?xs ! i = bit x (63 - i)" if "i < 64" for i using that by (simp add: rev_nth)
  obtain n where n: "bit x n" using assms by (auto simp: bit_eq_iff)
  then have "n < 64" by (auto dest: bit_imp_le_length)
  then have "bit x n \<in> set ?xs" by auto
  then have "\<exists>y \<in> set ?xs. \<not> Not y" using n by blast
  then have "takeWhile Not ?xs \<noteq> ?xs" by (metis takeWhile_eq_all_conv)
  then show s: "leading_zeros x < 64"
    unfolding leading_zeros_def
    by (metis length_takeWhile_le length_map length_rev length_upt diff_zero le_neq_implies_less
        takeWhile_eq_take take_all_iff)
  show "bit x (63 - leading_zeros x)"
    using nth_length_takeWhile [of Not ?xs] s nth [OF s] by (simp add: leading_zeros_def)
  show "i < leading_zeros x \<Longrightarrow> \<not> bit x (63 - i)"
    using nth [of i] s unfolding leading_zeros_def
    by (metis (no_types, lifting) nth_mem order_less_trans set_takeWhileD takeWhile_nth)
qed

lemma leading_zeros_norm:
  assumes "x \<noteq> 0"
  shows "2 ^ 63 \<le> unat x * 2 ^ leading_zeros x" and "unat x * 2 ^ leading_zeros x < B64"
proof -
  define s where "s = leading_zeros x"
  note lz = leading_zeros_bits [OF assms, folded s_def]
  have "bit (unat x) (63 - s)" using lz(2) by (simp add: bit_simps)
  then have "odd (unat x div 2 ^ (63 - s))" unfolding bit_iff_odd .
  then have "1 \<le> unat x div 2 ^ (63 - s)" by (cases "unat x div 2 ^ (63 - s) = 0") simp_all
  then have "2 ^ (63 - s) \<le> unat x" by (simp add: Suc_le_eq div_greater_zero_iff)
  then have "2 ^ (63 - s) * 2 ^ s \<le> unat x * 2 ^ s" by (rule mult_le_mono1)
  then show "2 ^ 63 \<le> unat x * 2 ^ leading_zeros x"
    using lz(1) by (simp add: s_def [symmetric] flip: power_add)
  have "take_bit (64 - s) x = x"
  proof (rule bit_word_eqI)
    fix n assume "n < LENGTH(64)"
    then have n: "n < 64" by simp
    have "n < 64 - s" if "bit x n"
    proof (rule ccontr)
      assume "\<not> n < 64 - s"
      then have "63 - n < s" "63 - (63 - n) = n" using n by simp_all
      with lz(3) [of "63 - n"] that show False by simp
    qed
    then show "bit (take_bit (64 - s) x) n = bit x n" by (auto simp: bit_simps)
  qed
  then have "unat x = take_bit (64 - s) (unat x)" by (metis unsigned_take_bit_eq)
  then have "unat x < 2 ^ (64 - s)" by (metis take_bit_nat_less_exp)
  then have "unat x * 2 ^ s < 2 ^ (64 - s) * 2 ^ s" by simp
  then show "unat x * 2 ^ leading_zeros x < B64"
    using lz(1) by (simp add: s_def [symmetric] flip: power_add)
qed

lemma unat_push_bit: "unat (push_bit s (x :: u64)) = unat x * 2 ^ s mod B64"
proof -
  have "unat (push_bit s x) = take_bit 64 (push_bit s (unat x))" by (simp add: unsigned_push_bit_eq)
  also have "push_bit s (unat x) = unat x * 2 ^ s" by (rule push_bit_eq_mult)
  finally show ?thesis by (simp only: take_bit_eq_mod)
qed

lemma unat_drop_bit: "unat (drop_bit s (x :: u64)) = unat x div 2 ^ s"
  unfolding unat_drop_bit_eq by (rule drop_bit_eq_div)

lemma unat_or_disjoint:
  assumes "\<And>n. \<not> bit (a :: u64) n \<or> \<not> bit b n"
  shows "unat (a OR b) = unat a + unat b"
proof -
  have "unat (a OR b) = unat a OR unat b" by (simp add: unsigned_or_eq)
  also have "\<dots> = unat a + unat b"
    by (rule disjunctive_add [symmetric]) (use assms in \<open>simp add: bit_simps\<close>)
  finally show ?thesis .
qed

lemma unat_shl_limb:
  assumes "s \<le> 64"
  shows "unat (shl_limb s hi lo) = unat hi * 2 ^ s mod B64 + unat lo div 2 ^ (64 - s)"
proof -
  have "unat (shl_limb s hi lo) = unat (push_bit s hi) + unat (drop_bit (64 - s) lo)"
    unfolding shl_limb_def
    by (rule unat_or_disjoint) (use assms in \<open>auto simp: bit_simps dest: bit_imp_le_length\<close>)
  then show ?thesis by (simp add: unat_push_bit unat_drop_bit)
qed

fun shl_list :: "nat \<Rightarrow> u64 \<Rightarrow> u64 list \<Rightarrow> u64 list" where
  "shl_list s lo [] = []"
| "shl_list s lo (x # xs) = shl_limb s x lo # shl_list s x xs"

lemma length_shl_list [simp]: "length (shl_list s lo xs) = length xs"
  by (induction xs arbitrary: lo) auto

lemma shift_split:
  fixes x :: nat
  assumes "s \<le> 64"
  shows "x * 2 ^ s = x * 2 ^ s mod B64 + B64 * (x div 2 ^ (64 - s))"
proof -
  have "x * 2 ^ s div B64 = x div 2 ^ (64 - s)"
    using assms by (metis div_mult2_eq div_mult_self_is_m le_add_diff_inverse mult.commute power_add zero_less_numeral zero_less_power)
  then show ?thesis by (metis mod_mult_div_eq)
qed

lemma lval_shl_list:
  assumes "s \<le> 64"
  shows "lval (shl_list s lo xs) + 2 ^ (64 * length xs) * (unat (last (lo # xs)) div 2 ^ (64 - s))
    = 2 ^ s * lval xs + unat lo div 2 ^ (64 - s)"
proof (induction xs arbitrary: lo)
  case Nil
  then show ?case by simp
next
  case (Cons x xs)
  have "lval (shl_list s lo (x # xs)) + 2 ^ (64 * length (x # xs)) * (unat (last (lo # x # xs)) div 2 ^ (64 - s))
      = unat x * 2 ^ s mod B64 + unat lo div 2 ^ (64 - s)
        + B64 * (lval (shl_list s x xs) + 2 ^ (64 * length xs) * (unat (last (x # xs)) div 2 ^ (64 - s)))"
    by (simp add: unat_shl_limb [OF assms] algebra_simps power_add)
  also have "\<dots> = (unat x * 2 ^ s mod B64 + B64 * (unat x div 2 ^ (64 - s))) + unat lo div 2 ^ (64 - s) + B64 * (2 ^ s * lval xs)"
    unfolding Cons.IH by (simp add: algebra_simps)
  also have "\<dots> = 2 ^ s * lval (x # xs) + unat lo div 2 ^ (64 - s)"
    unfolding shift_split [OF assms, symmetric] by (simp add: algebra_simps)
  finally show ?case .
qed

lemma shl_limb_0 [simp]: "shl_limb s x 0 = push_bit s x"
  by (simp add: shl_limb_def)

lemma normalize_modulus_val:
  assumes "limb m 3 \<noteq> 0"
  defines "s \<equiv> leading_zeros (limb m 3)"
  shows "length (normalize_modulus s m) = 4" and "lval (normalize_modulus s m) = uval m * 2 ^ s"
    and "B64 \<le> 2 * unat (normalize_modulus s m ! 3)"
proof -
  note lz = leading_zeros_norm [OF assms(1), folded s_def] leading_zeros_bits(1) [OF assms(1), folded s_def]
  obtain a b c d where m: "m = U256 a b c d" by (cases m) auto
  have d: "limb m 3 = d" by (simp add: m limb_def)
  have vn: "normalize_modulus s m = shl_list s 0 (limbs m)" if "s > 0"
    using that by (simp add: normalize_modulus_def m limb_def)
  have v0: "normalize_modulus s m = limbs m" if "s = 0"
    using that by (simp add: normalize_modulus_def m limb_def)
  show "length (normalize_modulus s m) = 4" by (simp add: normalize_modulus_def)
  have dz: "unat d div 2 ^ (64 - s) = 0"
  proof -
    have "unat d * 2 ^ s < 2 ^ (64 - s) * 2 ^ s" using lz d by (simp flip: power_add)
    then show ?thesis by simp
  qed
  show "lval (normalize_modulus s m) = uval m * 2 ^ s"
  proof (cases "s = 0")
    case True
    then show ?thesis using v0 by (simp add: uval_def)
  next
    case False
    then show ?thesis
      using vn lval_shl_list [of s 0 "limbs m"] lz(3) dz m by (simp add: uval_def mult.commute)
  qed
  have "unat (normalize_modulus s m ! 3) \<ge> unat d * 2 ^ s"
  proof (cases "s = 0")
    case True
    then show ?thesis using v0 m by simp
  next
    case False
    then show ?thesis
      using lz d by (simp add: normalize_modulus_def m limb_def unat_shl_limb)
  qed
  then show "B64 \<le> 2 * unat (normalize_modulus s m ! 3)" using lz(1) d by simp
qed

lemma length_8E:
  assumes "length xs = 8"
  obtains a0 a1 a2 a3 a4 a5 a6 a7 where "xs = [a0, a1, a2, a3, a4, a5, a6, a7]"
  using assms by (auto simp: numeral_eq_Suc length_Suc_conv)

lemma normalize_val_val:
  assumes "length val = 8" "s < 64"
  shows "length (normalize_val s val) = 9" and "lval (normalize_val s val) = lval val * 2 ^ s"
    and "unat (normalize_val s val ! 8) < 2 ^ s"
proof -
  obtain a0 a1 a2 a3 a4 a5 a6 a7 where v: "val = [a0, a1, a2, a3, a4, a5, a6, a7]"
    by (rule length_8E [OF assms(1)])
  have un: "normalize_val s val = shl_list s 0 val @ [drop_bit (64 - s) a7]" if "s > 0"
    using that by (simp add: normalize_val_def v upt_rec)
  have u0: "normalize_val s val = val @ [0]" if "s = 0"
    using that by (simp add: normalize_val_def v)
  show "length (normalize_val s val) = 9"
    using un u0 assms(1) by (cases "s = 0") simp_all
  show "lval (normalize_val s val) = lval val * 2 ^ s"
  proof (cases "s = 0")
    case True
    then show ?thesis using u0 by (simp add: lval_append)
  next
    case False
    then show ?thesis
      using un lval_shl_list [of s 0 val] assms by (simp add: lval_append unat_drop_bit v mult.commute)
  qed
  show "unat (normalize_val s val ! 8) < 2 ^ s"
  proof (cases "s = 0")
    case True
    then show ?thesis using u0 assms(1) by (simp add: nth_append)
  next
    case False
    have "unat a7 < 2 ^ s * 2 ^ (64 - s)" using unat_u64_less [of a7] assms(2) by (simp flip: power_add)
    then have "unat a7 div 2 ^ (64 - s) < 2 ^ s" by (simp add: less_mult_imp_div_less)
    then show ?thesis using False un assms(1) by (simp add: nth_append unat_drop_bit)
  qed
qed

section \<open>Undoing the normalisation\<close>

fun shr_list :: "nat \<Rightarrow> u64 list \<Rightarrow> u64 list" where
  "shr_list s (x # y # ys) = (drop_bit s x OR push_bit (64 - s) y) # shr_list s (y # ys)"
| "shr_list s [x] = [drop_bit s x]"
| "shr_list s [] = []"

lemma div_pow_split:
  fixes x r :: nat
  assumes "s \<le> 64"
  shows "(x + B64 * r) div 2 ^ s = x div 2 ^ s + 2 ^ (64 - s) * r"
proof -
  have "B64 = 2 ^ s * 2 ^ (64 - s)" using assms by (simp flip: power_add)
  then have "x + B64 * r = x + 2 ^ s * (2 ^ (64 - s) * r)" by (simp only: mult.assoc)
  then show ?thesis by (simp only:) simp
qed

lemma lval_shr_list: "s < 64 \<Longrightarrow> lval (shr_list s xs) = lval xs div 2 ^ s"
proof (induction s xs rule: shr_list.induct)
  case (1 s x y ys)
  have s: "s \<le> 64" "64 - s \<le> 64" "64 - (64 - s) = s" using "1.prems" by simp_all
  have "unat (drop_bit s x OR push_bit (64 - s) y) = unat (drop_bit s x) + unat (push_bit (64 - s) y)"
    by (rule unat_or_disjoint) (use "1.prems" in \<open>auto simp: bit_simps dest: bit_imp_le_length\<close>)
  then have "lval (shr_list s (x # y # ys))
      = unat x div 2 ^ s + unat y * 2 ^ (64 - s) mod B64 + B64 * ((unat y + B64 * lval ys) div 2 ^ s)"
    using "1.IH" "1.prems" by (simp add: unat_push_bit unat_drop_bit)
  also have "\<dots> = unat x div 2 ^ s + (unat y * 2 ^ (64 - s) mod B64 + B64 * (unat y div 2 ^ s)) + B64 * (2 ^ (64 - s) * lval ys)"
    unfolding div_pow_split [OF s(1)] by (simp add: algebra_simps)
  also have "unat y * 2 ^ (64 - s) mod B64 + B64 * (unat y div 2 ^ s) = unat y * 2 ^ (64 - s)"
    using shift_split [OF s(2), of "unat y"] s(3) by simp
  also have "unat x div 2 ^ s + unat y * 2 ^ (64 - s) + B64 * (2 ^ (64 - s) * lval ys)
      = (unat x + B64 * (unat y + B64 * lval ys)) div 2 ^ s"
    unfolding div_pow_split [OF s(1)] by (simp add: algebra_simps)
  finally show ?case by simp
qed (simp_all add: unat_drop_bit)

section \<open>The whole reduction\<close>

definition knuth_inv :: "u64 list \<Rightarrow> u64 list \<Rightarrow> nat \<Rightarrow> u64 list \<Rightarrow> bool" where
  "knuth_inv vn un k u \<longleftrightarrow> length u = 9 \<and> lval (take 4 (drop k u)) < lval vn
      \<and> (lval (take k u) + 2 ^ (64 * k) * lval (take 4 (drop k u))) mod lval vn = lval un mod lval vn"

lemma knuth_inv_start:
  assumes un: "length un = 9" "unat (un ! 8) < 2 ^ s" "s < 64" and vn: "length vn = 4" "B64 \<le> 2 * unat (vn ! 3)"
  shows "knuth_inv vn un 5 un"
proof -
  have t: "take 4 (drop 5 un) = drop 5 un" using un(1) by simp
  have w: "lval (drop 5 un) = lval (take 3 (drop 5 un)) + 2 ^ 192 * unat (un ! 8)"
    using lval_take_Suc [of 3 "drop 5 un"] un(1) by simp
  have "lval (take 3 (drop 5 un)) < 2 ^ (64 * length (take 3 (drop 5 un)))" by (rule lval_less)
  then have "lval (take 3 (drop 5 un)) < 2 ^ 192" using un(1) by simp
  with w have "lval (drop 5 un) < 2 ^ 192 * Suc (unat (un ! 8))" by simp
  also have "\<dots> \<le> 2 ^ 192 * 2 ^ 63"
  proof (intro mult_le_mono2)
    have "Suc (unat (un ! 8)) \<le> 2 ^ s" using un(2) by simp
    also have "\<dots> \<le> 2 ^ 63" using un(3) by (intro power_increasing) simp_all
    finally show "Suc (unat (un ! 8)) \<le> 2 ^ 63" .
  qed
  also have "\<dots> \<le> 2 ^ 192 * unat (vn ! 3)" using vn(2) by simp
  also have "\<dots> \<le> lval vn" using lval_take_Suc [of 3 vn] vn(1) by simp
  finally have "lval (drop 5 un) < lval vn" .
  then show ?thesis
    using t un(1) lval_append [of "take 5 un" "drop 5 un"] by (simp add: knuth_inv_def)
qed

lemma knuth_inv_step:
  assumes vn: "length vn = 4" "B64 \<le> 2 * unat (vn ! 3)" and k: "k < 5" and inv: "knuth_inv vn un (Suc k) u"
  shows "knuth_inv vn un k (knuth_step vn k u)"
proof -
  have u: "length u = 9" and R: "lval (take 4 (drop (Suc k) u)) < lval vn"
    and M: "(lval (take (Suc k) u) + 2 ^ (64 * Suc k) * lval (take 4 (drop (Suc k) u))) mod lval vn = lval un mod lval vn"
    using inv by (simp_all add: knuth_inv_def)
  have len: "k + 4 < length u" using k u by simp
  note st = knuth_step_correct [OF vn(1) len vn(2) R]
  define X where "X = window k u"
  have "lval (take (Suc k) u) + 2 ^ (64 * Suc k) * lval (take 4 (drop (Suc k) u)) = lval (take k u) + 2 ^ (64 * k) * X"
    using window_split(2) [OF len] lval_take_Suc [of k u] len
    by (simp add: X_def algebra_simps power_add)
  moreover have "(lval (take k u) + 2 ^ (64 * k) * (X mod lval vn)) mod lval vn = (lval (take k u) + 2 ^ (64 * k) * X) mod lval vn"
    by (metis mod_add_right_eq mod_mult_right_eq)
  ultimately have "(lval (take k u) + 2 ^ (64 * k) * (X mod lval vn)) mod lval vn = lval un mod lval vn"
    using M by simp
  then show ?thesis
    using st u R by (simp add: knuth_inv_def X_def)
qed

theorem reduce_512_correct:
  assumes "length val = 8" "limb m 3 \<noteq> 0"
  shows "uval (reduce_512 val m) = lval val mod uval m"
proof -
  define s where "s = leading_zeros (limb m 3)"
  define vn where "vn = normalize_modulus s m"
  define un where "un = normalize_val s val"
  define r where "r = fold (knuth_step vn) (rev [0..<5]) un"
  have s: "s < 64" unfolding s_def by (rule leading_zeros_bits(1) [OF assms(2)])
  note vn = normalize_modulus_val [OF assms(2), folded s_def, folded vn_def]
  note un = normalize_val_val [OF assms(1) s, folded un_def]
  have "knuth_inv vn un 0 r" unfolding r_def
  proof (rule fold_rev_range_invariant)
    show "knuth_inv vn un 5 un" by (rule knuth_inv_start [OF un(1,3) s vn(1,3)])
    show "\<And>k u. k < 5 \<Longrightarrow> knuth_inv vn un (Suc k) u \<Longrightarrow> knuth_inv vn un k (knuth_step vn k u)"
      by (rule knuth_inv_step [OF vn(1,3)])
  qed
  then have r: "lval (take 4 r) = lval un mod lval vn" "length r = 9"
    unfolding knuth_inv_def by (auto dest: mod_less)
  then have v: "lval (take 4 r) = (lval val mod uval m) * 2 ^ s" by (simp add: un(2) vn(2) mult_mod_left)
  obtain r0 r1 r2 r3 where t4: "take 4 r = [r0, r1, r2, r3]"
    using r(2) by (auto simp: numeral_eq_Suc length_Suc_conv)
  then have nth: "r ! 0 = r0" "r ! 1 = r1" "r ! 2 = r2" "r ! 3 = r3"
    using nth_take [of 0 4 r] nth_take [of 1 4 r] nth_take [of 2 4 r] nth_take [of 3 4 r] by simp_all
  have "limbs (reduce_512 val m) = (if s > 0 then shr_list s [r0, r1, r2, r3] else [r0, r1, r2, r3])"
    unfolding reduce_512_def s_def [symmetric] vn_def [symmetric] un_def [symmetric] r_def [symmetric] Let_def nth by simp
  then have "uval (reduce_512 val m) = lval (take 4 r) div 2 ^ s"
    using lval_shr_list [of s "[r0, r1, r2, r3]"] s t4 by (simp add: uval_def split: if_splits)
  then show ?thesis by (simp add: v)
qed

end
