(* ===== verification/Field_Ops.thy ===== *)
theory Field_Ops
  imports Field_Reduce
begin

text \<open>
  The BN254 field operations of \<open>crates/zkml-verifier/src/field.rs\<close>: the shared functions
  \<open>field_add\<close> \<dots> \<open>field_from_be_bytes\<close>, parametrised by the modulus, and the wrappers \<open>Fq\<close> (base
  field) and \<open>Fr\<close> (scalar field). The source's newtypes \<open>Fq(U256)\<close> and \<open>Fr(U256)\<close> are the type
  \<open>u256\<close> itself; \<open>Fq::new\<close>, \<open>Fr::new\<close> and \<open>.0\<close> are identities.

  The locale \<open>residue_ring\<close> is the interface the verifier's components rely on: operations that
  compute modulo \<open>p\<close>. The locale \<open>field_modulus\<close> derives it from what the shared functions need of
  a modulus, and both BN254 moduli are instances.
\<close>

section \<open>Shared functions\<close>

definition field_add :: "u256 \<Rightarrow> u256 \<Rightarrow> u256 \<Rightarrow> u256" where
  "field_add a b modulus =
     (let (sum, carry) = add_no_mod a b
      in if carry \<or> gte sum modulus then sub_no_mod sum modulus else sum)"

definition field_sub :: "u256 \<Rightarrow> u256 \<Rightarrow> u256 \<Rightarrow> u256" where
  "field_sub a b modulus =
     (if gte a b then sub_no_mod a b
      else let diff = sub_no_mod b a in sub_no_mod modulus diff)"

definition field_neg :: "u256 \<Rightarrow> u256 \<Rightarrow> u256" where
  "field_neg a modulus = (if is_zero a then a else sub_no_mod modulus a)"

definition field_mul :: "u256 \<Rightarrow> u256 \<Rightarrow> u256 \<Rightarrow> u256" where
  "field_mul a b modulus = reduce_512 (mul_wide a b) modulus"

definition pow_bit :: "u256 \<Rightarrow> u256 \<times> u256 \<times> u64 \<Rightarrow> u256 \<times> u256 \<times> u64" where
  "pow_bit modulus s =
     (let (result, b, e) = s
      in (if e AND 1 = 1 then field_mul result b modulus else result, field_mul b b modulus, drop_bit 1 e))"

definition pow_limb :: "u256 \<Rightarrow> u256 \<Rightarrow> nat \<Rightarrow> u256 \<times> u256 \<Rightarrow> u256 \<times> u256" where
  "pow_limb exp modulus i s =
     (let (result, b) = s;
          (result, b, _) = fold (\<lambda>_. pow_bit modulus) [0..<64] (result, b, limb exp i)
      in (result, b))"

definition field_pow :: "u256 \<Rightarrow> u256 \<Rightarrow> u256 \<Rightarrow> u256" where
  "field_pow base exp modulus = fst (fold (pow_limb exp modulus) [0..<4] (u256_ONE, base))"

definition field_inv :: "u256 \<Rightarrow> u256 \<Rightarrow> u256" where
  "field_inv a modulus =
     field_pow a (U256 (limb modulus 0 - 2) (limb modulus 1) (limb modulus 2) (limb modulus 3)) modulus"

definition field_from_be_bytes :: "u8 list \<Rightarrow> u256 \<Rightarrow> u256" where
  "field_from_be_bytes bytes modulus =
     (let v = from_be_bytes bytes in if gte v modulus then sub_no_mod v modulus else v)"

section \<open>The two fields\<close>

definition FQ_MOD :: u256 where
  "FQ_MOD = U256 0x3c208c16d87cfd47 0x97816a916871ca8d 0xb85045b68181585d 0x30644e72e131a029"

definition FR_MOD :: u256 where
  "FR_MOD = U256 0x43e1f593f0000001 0x2833e84879b97091 0xb85045b68181585d 0x30644e72e131a029"

type_synonym fq = u256
type_synonym fr = u256

definition fq_add :: "fq \<Rightarrow> fq \<Rightarrow> fq" where "fq_add a b = field_add a b FQ_MOD"
definition fq_sub :: "fq \<Rightarrow> fq \<Rightarrow> fq" where "fq_sub a b = field_sub a b FQ_MOD"
definition fq_neg :: "fq \<Rightarrow> fq" where "fq_neg a = field_neg a FQ_MOD"
definition fq_mul :: "fq \<Rightarrow> fq \<Rightarrow> fq" where "fq_mul a b = field_mul a b FQ_MOD"
definition fq_square :: "fq \<Rightarrow> fq" where "fq_square a = fq_mul a a"
definition fq_inv :: "fq \<Rightarrow> fq" where "fq_inv a = field_inv a FQ_MOD"
definition fq_pow :: "fq \<Rightarrow> u256 \<Rightarrow> fq" where "fq_pow a e = field_pow a e FQ_MOD"
definition fq_from_be_bytes :: "u8 list \<Rightarrow> fq" where "fq_from_be_bytes bytes = field_from_be_bytes bytes FQ_MOD"

definition fq_pow5 :: "fq \<Rightarrow> fq" where
  "fq_pow5 a = (let x2 = fq_square a; x4 = fq_square x2 in fq_mul x4 a)"

definition fr_add :: "fr \<Rightarrow> fr \<Rightarrow> fr" where "fr_add a b = field_add a b FR_MOD"
definition fr_sub :: "fr \<Rightarrow> fr \<Rightarrow> fr" where "fr_sub a b = field_sub a b FR_MOD"
definition fr_neg :: "fr \<Rightarrow> fr" where "fr_neg a = field_neg a FR_MOD"
definition fr_mul :: "fr \<Rightarrow> fr \<Rightarrow> fr" where "fr_mul a b = field_mul a b FR_MOD"
definition fr_square :: "fr \<Rightarrow> fr" where "fr_square a = fr_mul a a"
definition fr_inv :: "fr \<Rightarrow> fr" where "fr_inv a = field_inv a FR_MOD"
definition fr_pow :: "fr \<Rightarrow> u256 \<Rightarrow> fr" where "fr_pow a e = field_pow a e FR_MOD"
definition fr_from_be_bytes :: "u8 list \<Rightarrow> fr" where "fr_from_be_bytes bytes = field_from_be_bytes bytes FR_MOD"

definition from_fq :: "fq \<Rightarrow> fr" where
  "from_fq x = (if gte x FR_MOD then sub_no_mod x FR_MOD else x)"

section \<open>Arithmetic modulo a number, as an interface\<close>

text \<open>What the components above the field rely on. A value is \<^emph>\<open>reduced\<close> when it is below \<open>p\<close>; sums
  need one reduced operand, differences a reduced subtrahend, products nothing.\<close>

locale residue_ring =
  fixes p :: nat
    and add sub mul :: "u256 \<Rightarrow> u256 \<Rightarrow> u256"
  assumes p_gt_1: "1 < p"
    and add_reduced: "uval a < p \<Longrightarrow> uval b < p \<Longrightarrow> uval (add a b) = (uval a + uval b) mod p"
    and add_mod: "uval a < p \<or> uval b < p \<Longrightarrow> uval (add a b) mod p = (uval a + uval b) mod p"
    and sub_mod: "uval b < p \<Longrightarrow> int (uval (sub a b)) mod int p = (int (uval a) - int (uval b)) mod int p"
    and sub_less: "uval a < p \<Longrightarrow> uval b < p \<Longrightarrow> uval (sub a b) < p"
    and mul_mod: "uval (mul a b) = uval a * uval b mod p"
begin

lemma p_pos: "0 < p"
  using p_gt_1 by simp

lemma add_less: "uval a < p \<Longrightarrow> uval b < p \<Longrightarrow> uval (add a b) < p"
  using p_pos by (simp add: add_reduced)

lemma mul_less: "uval (mul a b) < p"
  using p_pos by (simp add: mul_mod)

lemma sub_reduced:
  assumes "uval a < p" "uval b < p"
  shows "int (uval (sub a b)) = (int (uval a) - int (uval b)) mod int p"
  using sub_mod [of b a] sub_less [of a b] assms by simp

lemma mul_one: "uval a < p \<Longrightarrow> mul a u256_ONE = a" "uval a < p \<Longrightarrow> mul u256_ONE a = a"
  by (simp_all add: mul_mod flip: uval_inject)

lemma mul_zero: "mul a u256_ZERO = u256_ZERO" "mul u256_ZERO a = u256_ZERO"
  by (simp_all add: mul_mod flip: uval_inject)

lemma add_zero: "uval a < p \<Longrightarrow> add a u256_ZERO = a" "uval a < p \<Longrightarrow> add u256_ZERO a = a"
  using p_pos by (simp_all add: add_reduced flip: uval_inject)

lemma mul_commute: "mul a b = mul b a"
  by (simp add: mul_mod mult.commute flip: uval_inject)

lemma mul_assoc: "mul (mul a b) c = mul a (mul b c)"
  by (simp add: mul_mod mod_simps mult.assoc flip: uval_inject)

lemma add_commute: "uval a < p \<Longrightarrow> uval b < p \<Longrightarrow> add a b = add b a"
  by (simp add: add_reduced add.commute flip: uval_inject)

lemma add_assoc: "uval a < p \<Longrightarrow> uval b < p \<Longrightarrow> uval c < p \<Longrightarrow> add (add a b) c = add a (add b c)"
  by (simp add: add_reduced add_less mod_simps add.assoc flip: uval_inject)

lemma distrib: "uval b < p \<Longrightarrow> uval c < p \<Longrightarrow> mul a (add b c) = add (mul a b) (mul a c)"
  by (simp add: mul_mod add_reduced mul_less mod_simps distrib_left flip: uval_inject)

lemma sub_self: "uval a < p \<Longrightarrow> sub a a = u256_ZERO"
  using sub_reduced [of a a] by (simp flip: uval_inject)

lemma add_sub_cancel: "uval a < p \<Longrightarrow> uval b < p \<Longrightarrow> add (sub a b) b = a"
proof -
  assume a: "uval a < p" and b: "uval b < p"
  have "int (uval (add (sub a b) b)) = (int (uval (sub a b)) + int (uval b)) mod int p"
    using a b by (simp add: add_reduced sub_less zmod_int)
  also have "\<dots> = int (uval a)" using a b by (simp add: sub_reduced mod_simps)
  finally show ?thesis by simp
qed

text \<open>The loops of the verifier: a running sum and a running product.\<close>

lemma fold_add:
  assumes "uval s < p" "\<And>x. x \<in> set xs \<Longrightarrow> uval (f x) < p"
  shows "uval (fold (\<lambda>x acc. add acc (f x)) xs s) = (uval s + (\<Sum>x\<leftarrow>xs. uval (f x))) mod p"
  using assms
proof (induction xs arbitrary: s)
  case Nil
  then show ?case by simp
next
  case (Cons x xs)
  have "uval (fold (\<lambda>x acc. add acc (f x)) (x # xs) s) = uval (fold (\<lambda>x acc. add acc (f x)) xs (add s (f x)))"
    by simp
  also have "\<dots> = (uval (add s (f x)) + (\<Sum>x\<leftarrow>xs. uval (f x))) mod p"
    using Cons.prems by (intro Cons.IH) (auto intro: add_less)
  finally show ?case
    using Cons.prems by (simp add: add_reduced mod_simps add.assoc)
qed

lemma fold_add_less:
  assumes "uval s < p" "\<And>x. x \<in> set xs \<Longrightarrow> uval (f x) < p"
  shows "uval (fold (\<lambda>x acc. add acc (f x)) xs s) < p"
  using fold_add [of s xs f] assms p_pos by simp

lemma fold_mul:
  assumes "uval s < p"
  shows "uval (fold (\<lambda>x acc. mul acc (f x)) xs s) = (uval s * (\<Prod>x\<leftarrow>xs. uval (f x))) mod p"
  using assms
proof (induction xs arbitrary: s)
  case Nil
  then show ?case by simp
next
  case (Cons x xs)
  have "uval (fold (\<lambda>x acc. mul acc (f x)) (x # xs) s) = (uval (mul s (f x)) * (\<Prod>x\<leftarrow>xs. uval (f x))) mod p"
    using Cons.IH [OF mul_less, of s "f x"] by simp
  then show ?case by (simp add: mul_mod mod_simps mult.assoc)
qed

lemma fold_mul_less: "uval s < p \<Longrightarrow> uval (fold (\<lambda>x acc. mul acc (f x)) xs s) < p"
  using fold_mul [of s f xs] p_pos by simp

end

section \<open>The shared functions implement the interface\<close>

lemma even_iff_unat: "even (w :: u64) \<longleftrightarrow> even (unat w)"
  by transfer (simp add: even_nat_iff)

locale field_modulus =
  fixes m :: u256
  assumes top_limb: "limb m 3 \<noteq> 0" and half: "2 * uval m \<le> 2 ^ 256" and low_limb: "2 \<le> limb m 0"
begin

lemma m_gt_1: "1 < uval m"
proof -
  have "2 \<le> unat (limb m 0)" using low_limb by (simp add: word_le_nat_alt)
  also have "\<dots> \<le> uval m" by (cases m) (simp add: limb_def uval_def)
  finally show ?thesis by simp
qed

lemma uval_field_add:
  assumes a: "uval a < uval m \<or> uval b < uval m"
  shows "uval (field_add a b m) = (if uval a + uval b < uval m then uval a + uval b else uval a + uval b - uval m)"
proof -
  obtain s c where sc: "add_no_mod a b = (s, c)" by fastforce
  have v: "uval s + (if c then 2 ^ 256 else 0) = uval a + uval b" by (rule uval_add_no_mod [OF sc])
  note lt = uval_less [of s] uval_less [of a] uval_less [of b] uval_less [of m]
  show ?thesis
  proof (cases c)
    case True
    then have "uval s + 2 ^ 256 = uval a + uval b" using v by simp
    then have "2 ^ 256 + uval s - uval m = uval a + uval b - uval m" "uval a + uval b - uval m < 2 ^ 256" "uval m \<le> uval a + uval b"
      using a lt by linarith+
    then show ?thesis using True by (simp add: field_add_def sc uval_sub_no_mod)
  next
    case False
    then show ?thesis using v by (simp add: field_add_def sc gte_iff uval_sub_no_mod_le)
  qed
qed

lemma uval_field_mul: "uval (field_mul a b m) = uval a * uval b mod uval m"
  using lval_mul_wide [of a b] by (simp add: field_mul_def reduce_512_correct top_limb)

lemma uval_field_neg: "uval a < uval m \<Longrightarrow> uval (field_neg a m) = (uval m - uval a) mod uval m"
  by (auto simp: field_neg_def is_zero_iff uval_sub_no_mod_le)

lemma field_sub_int:
  assumes "uval b < uval m"
  shows "int (uval (field_sub a b m)) = int (uval a) - int (uval b) + (if uval b \<le> uval a then 0 else int (uval m))"
proof (cases "uval b \<le> uval a")
  case True
  then show ?thesis by (simp add: field_sub_def gte_iff uval_sub_no_mod_le of_nat_diff)
next
  case False
  then have "uval (sub_no_mod b a) = uval b - uval a" by (simp add: uval_sub_no_mod_le)
  moreover have "uval b - uval a \<le> uval m" using assms by simp
  ultimately have "uval (field_sub a b m) = uval m - (uval b - uval a)"
    using False by (simp add: field_sub_def gte_iff uval_sub_no_mod_le)
  then show ?thesis using False assms by (simp add: of_nat_diff)
qed

sublocale residue_ring "uval m" "\<lambda>a b. field_add a b m" "\<lambda>a b. field_sub a b m" "\<lambda>a b. field_mul a b m"
proof
  show "1 < uval m" by (rule m_gt_1)
  fix a b
  show "uval a < uval m \<Longrightarrow> uval b < uval m \<Longrightarrow> uval (field_add a b m) = (uval a + uval b) mod uval m"
    by (auto simp: uval_field_add mod_if)
  show "uval a < uval m \<or> uval b < uval m \<Longrightarrow> uval (field_add a b m) mod uval m = (uval a + uval b) mod uval m"
    by (auto simp: uval_field_add le_mod_geq)
  show "uval b < uval m \<Longrightarrow> int (uval (field_sub a b m)) mod int (uval m) = (int (uval a) - int (uval b)) mod int (uval m)"
    by (simp add: field_sub_int)
  show "uval a < uval m \<Longrightarrow> uval b < uval m \<Longrightarrow> uval (field_sub a b m) < uval m"
    using field_sub_int [of b a] by (auto split: if_splits)
  show "uval (field_mul a b m) = uval a * uval b mod uval m" by (rule uval_field_mul)
qed

subsection \<open>Exponentiation\<close>

lemma pow_bit_iter:
  assumes "uval r < uval m" "fold (\<lambda>_. pow_bit m) [0..<n] (r, b, e) = (r', b', e')"
  shows "uval r' = uval r * uval b ^ (unat e mod 2 ^ n) mod uval m
    \<and> uval b' mod uval m = uval b ^ (2 ^ n) mod uval m \<and> unat e' = unat e div 2 ^ n"
  using assms(2)
proof (induction n arbitrary: r' b' e')
  case 0
  then show ?case using assms(1) by simp
next
  case (Suc n)
  obtain r1 b1 e1 where f: "fold (\<lambda>_. pow_bit m) [0..<n] (r, b, e) = (r1, b1, e1)" by (metis prod_cases3)
  have IH: "uval r1 = uval r * uval b ^ (unat e mod 2 ^ n) mod uval m"
      "uval b1 mod uval m = uval b ^ (2 ^ n) mod uval m" "unat e1 = unat e div 2 ^ n"
    using Suc.IH [OF f] by auto
  have step: "r' = (if e1 AND 1 = 1 then field_mul r1 b1 m else r1)" "b' = field_mul b1 b1 m" "e' = drop_bit 1 e1"
    using Suc.prems by (simp_all add: f) (auto simp: pow_bit_def)
  have odd: "e1 AND 1 = 1 \<longleftrightarrow> odd (unat e div 2 ^ n)"
    unfolding IH(3) [symmetric] by (simp add: and_one_eq mod_2_eq_odd even_iff_unat)
  have e: "unat e mod 2 ^ Suc n = unat e mod 2 ^ n + 2 ^ n * (if odd (unat e div 2 ^ n) then 1 else 0)"
    by (simp only: power_Suc2 mod_mult2_eq) (simp add: mod_2_eq_odd)
  have "uval b' mod uval m = uval b ^ (2 ^ Suc n) mod uval m"
  proof -
    have "uval b' mod uval m = (uval b1 mod uval m) * (uval b1 mod uval m) mod uval m"
      by (simp add: step mul_mod mod_simps)
    also have "\<dots> = uval b ^ (2 ^ Suc n) mod uval m"
      unfolding IH(2) by (simp add: mod_simps mult_2 flip: power_add)
    finally show ?thesis .
  qed
  moreover have "unat e' = unat e div 2 ^ Suc n"
    by (simp only: step unat_drop_bit IH(3) power_Suc2 div_mult2_eq power_one_right)
  moreover have "uval r' = uval r * uval b ^ (unat e mod 2 ^ Suc n) mod uval m"
  proof (cases "odd (unat e div 2 ^ n)")
    case False
    then show ?thesis using e IH(1) by (simp add: step odd)
  next
    case True
    then have "uval r' = uval r1 * (uval b1 mod uval m) mod uval m" by (simp add: step odd mul_mod mod_simps)
    also have "\<dots> = uval r * uval b ^ (unat e mod 2 ^ n) * uval b ^ (2 ^ n) mod uval m"
      unfolding IH(1,2) by (simp add: mod_simps)
    finally show ?thesis using True e by (simp add: power_add mult.assoc)
  qed
  ultimately show ?case by blast
qed

theorem uval_field_pow: "uval (field_pow a e m) = uval a ^ uval e mod uval m"
proof -
  let ?P = "\<lambda>i s. uval (fst s) = uval a ^ lval (take i (limbs e)) mod uval m
      \<and> uval (snd s) mod uval m = uval a ^ (2 ^ (64 * i)) mod uval m"
  have "?P 4 (fold (pow_limb e m) [0..<4] (u256_ONE, a))"
  proof (rule fold_range_invariant [where P = ?P])
    show "?P 0 (u256_ONE, a)" using m_gt_1 by simp
  next
    fix i s assume i: "i < 4" and P: "?P i s"
    obtain r b where s: "s = (r, b)" by fastforce
    obtain r' b' e' where f: "fold (\<lambda>_. pow_bit m) [0..<64] (r, b, limb e i) = (r', b', e')" by (metis prod_cases3)
    have r: "uval r < uval m" using P p_pos by (simp add: s)
    note it = pow_bit_iter [OF r f, THEN conjunct1] pow_bit_iter [OF r f, THEN conjunct2, THEN conjunct1]
    have st: "pow_limb e m i s = (r', b')" by (simp add: pow_limb_def s f)
    have take: "lval (take (Suc i) (limbs e)) = lval (take i (limbs e)) + 2 ^ (64 * i) * unat (limb e i)"
      using i by (simp add: lval_take_Suc limb_def)
    have "uval r' = uval r * ((uval b mod uval m) ^ unat (limb e i)) mod uval m"
      using it(1) unat_u64_less [of "limb e i"] by (metis mod_less mod_mult_right_eq power_mod)
    also have "\<dots> = uval a ^ lval (take i (limbs e)) * uval a ^ (2 ^ (64 * i) * unat (limb e i)) mod uval m"
      using P by (simp add: s) (metis mod_mult_right_eq mod_mult_left_eq power_mod power_mult)
    finally have r': "uval r' = uval a ^ lval (take (Suc i) (limbs e)) mod uval m"
      by (simp add: take power_add)
    have "uval b' mod uval m = (uval b mod uval m) ^ (2 ^ 64) mod uval m"
      by (simp only: it(2) power_mod)
    also have "\<dots> = (uval a ^ (2 ^ (64 * i))) ^ (2 ^ 64) mod uval m"
      using P by (simp only: s snd_conv power_mod)
    also have "(uval a ^ (2 ^ (64 * i))) ^ (2 ^ 64) = uval a ^ (2 ^ (64 * i) * 2 ^ 64)"
      by (rule power_mult [symmetric])
    also have "2 ^ (64 * i) * 2 ^ 64 = (2 :: nat) ^ (64 * Suc i)"
      by (simp add: power_add)
    finally show "?P (Suc i) (pow_limb e m i s)" using r' by (simp add: st)
  qed simp
  then show ?thesis by (simp add: field_pow_def uval_def)
qed

lemma uval_field_inv: "uval (field_inv a m) = uval a ^ (uval m - 2) mod uval m"
proof -
  obtain m0 m1 m2 m3 where m: "m = U256 m0 m1 m2 m3" by (cases m) auto
  have "2 \<le> m0" using low_limb by (simp add: m limb_def)
  then have "unat (m0 - 2) = unat m0 - 2" by (simp add: unat_sub)
  moreover have "2 \<le> unat m0" using \<open>2 \<le> m0\<close> by (simp add: word_le_nat_alt)
  ultimately have "uval (U256 (limb m 0 - 2) (limb m 1) (limb m 2) (limb m 3)) = uval m - 2"
    by (simp add: m limb_def uval_U256)
  then show ?thesis by (simp add: field_inv_def uval_field_pow)
qed

lemma field_from_be_bytes_mod:
  "length bytes = 32 \<Longrightarrow> uval (field_from_be_bytes bytes m) mod uval m = be_val bytes mod uval m"
  by (simp add: field_from_be_bytes_def Let_def gte_iff uval_from_be_bytes uval_sub_no_mod_le le_mod_geq)

end

interpretation fq: field_modulus FQ_MOD
  by unfold_locales (simp_all add: FQ_MOD_def limb_def uval_U256)

interpretation fr: field_modulus FR_MOD
  by unfold_locales (simp_all add: FR_MOD_def limb_def uval_U256)

lemma uval_FQ_MOD: "uval FQ_MOD = 21888242871839275222246405745257275088696311157297823662689037894645226208583"
  by (simp add: FQ_MOD_def uval_U256)

lemma uval_FR_MOD: "uval FR_MOD = 21888242871839275222246405745257275088548364400416034343698204186575808495617"
  by (simp add: FR_MOD_def uval_U256)

text \<open>The operations of the wrappers, in the form in which the client theories use them.\<close>

interpretation Fq: residue_ring "uval FQ_MOD" fq_add fq_sub fq_mul
  unfolding fq_add_def [abs_def] fq_sub_def [abs_def] fq_mul_def [abs_def] by (rule fq.residue_ring_axioms)

interpretation Fr: residue_ring "uval FR_MOD" fr_add fr_sub fr_mul
  unfolding fr_add_def [abs_def] fr_sub_def [abs_def] fr_mul_def [abs_def] by (rule fr.residue_ring_axioms)

lemma uval_fq_square: "uval (fq_square a) = uval a ^ 2 mod uval FQ_MOD"
  by (simp add: fq_square_def Fq.mul_mod power2_eq_square)

lemma uval_fq_pow5: "uval (fq_pow5 a) = uval a ^ 5 mod uval FQ_MOD"
proof -
  have "uval (fq_pow5 a) = ((uval a ^ 2 mod uval FQ_MOD) ^ 2 mod uval FQ_MOD) * uval a mod uval FQ_MOD"
    by (simp add: fq_pow5_def Let_def Fq.mul_mod uval_fq_square)
  also have "\<dots> = (uval a ^ 2) ^ 2 * uval a mod uval FQ_MOD" by (simp add: mod_simps)
  also have "(uval a ^ 2) ^ 2 * uval a = uval a ^ 5" by (simp add: eval_nat_numeral)
  finally show ?thesis .
qed

lemma uval_from_fq:
  assumes "uval x < uval FQ_MOD"
  shows "uval (from_fq x) = uval x mod uval FR_MOD"
proof -
  have "uval FQ_MOD < 2 * uval FR_MOD" by (simp add: uval_FQ_MOD uval_FR_MOD)
  then have "uval x < 2 * uval FR_MOD" using assms by simp
  then show ?thesis by (simp add: from_fq_def gte_iff uval_sub_no_mod_le mod_if)
qed

end
