(* ===== verification/Transcript.thy ===== *)
theory Transcript
  imports Poseidon
begin

text \<open>
  The Fiat-Shamir transcript of \<open>crates/zkml-verifier/src/transcript.rs\<close>, on top of the sponge.

  SHA-256 comes from the external crate \<open>sha2\<close>. It is the parameter \<open>sha256\<close> of the definitions
  that call it; what the code relies on is that it returns 32 bytes.

  The locale \<open>sponge_interface\<close> is what the verifier's components use of the sponge: an invariant that
  absorbing and squeezing keep, and canonical challenges. The Poseidon sponge is its instance.
\<close>

section \<open>Sponge operations as the verifier calls them\<close>

text \<open>\<open>Fr::from_fq(&sponge.squeeze()).0\<close>.\<close>

definition challenge :: "PoseidonSponge \<Rightarrow> u256 \<times> PoseidonSponge" where
  "challenge sp = (let (c, sp) = squeeze sp in (from_fq c, sp))"

text \<open>\<open>sponge.absorb_u256(..)\<close> on each element of a sequence.\<close>

definition absorb_all :: "u256 list \<Rightarrow> PoseidonSponge \<Rightarrow> PoseidonSponge" where
  "absorb_all vs sp = fold absorb_u256 vs sp"

locale sponge_interface =
  fixes inv :: "'s \<Rightarrow> bool" and absrb :: "u256 \<Rightarrow> 's \<Rightarrow> 's" and squeez :: "'s \<Rightarrow> u256 \<times> 's"
  assumes inv_absorb: "inv s \<Longrightarrow> inv (absrb v s)"
    and inv_squeeze: "inv s \<Longrightarrow> inv (snd (squeez s))"
    and squeezed_canonical: "inv s \<Longrightarrow> uval (fst (squeez s)) < uval FQ_MOD"
begin

lemma inv_fold_absorb: "inv s \<Longrightarrow> inv (fold absrb vs s)"
  by (induction vs arbitrary: s) (simp_all add: inv_absorb)

lemma challenge_value:
  "inv s \<Longrightarrow> uval (from_fq (fst (squeez s))) = uval (fst (squeez s)) mod uval FR_MOD"
  by (rule uval_from_fq [OF squeezed_canonical])

lemma challenge_reduced: "inv s \<Longrightarrow> uval (from_fq (fst (squeez s))) < uval FR_MOD"
  by (simp add: challenge_value Fr.p_pos)

lemma challenges:
  assumes "inv s"
  shows "inv (snd (times n (\<lambda>s. let (c, s) = squeez s in (from_fq c, s)) s))
    \<and> (\<forall>c \<in> set (fst (times n (\<lambda>s. let (c, s) = squeez s in (from_fq c, s)) s)). uval c < uval FR_MOD)"
  using assms
proof (induction n arbitrary: s)
  case 0
  then show ?case by simp
next
  case (Suc n)
  then show ?case
    using Suc.IH [OF inv_squeeze [OF Suc.prems]] challenge_reduced [OF Suc.prems]
    by (auto simp: Let_def case_prod_unfold)
qed

end

interpretation ps: sponge_interface sponge_inv absorb_u256 squeeze
  by unfold_locales (simp_all add: sponge_inv_absorb_u256 sponge_inv_squeeze squeeze_canonical)

lemma sponge_inv_challenge: "sponge_inv sp \<Longrightarrow> challenge sp = (c, sp') \<Longrightarrow> sponge_inv sp' \<and> uval c < uval FR_MOD"
  using ps.inv_squeeze [of sp] ps.challenge_reduced [of sp]
  by (auto simp: challenge_def Let_def case_prod_unfold)

lemma sponge_inv_challenges:
  "sponge_inv sp \<Longrightarrow> times n challenge sp = (cs, sp')
    \<Longrightarrow> sponge_inv sp' \<and> length cs = n \<and> (\<forall>c \<in> set cs. uval c < uval FR_MOD)"
  using ps.challenges [of sp n] length_times [of n challenge sp]
  by (simp add: challenge_def [abs_def])

lemma sponge_inv_absorb_all: "sponge_inv sp \<Longrightarrow> sponge_inv (absorb_all vs sp)"
  by (simp add: absorb_all_def ps.inv_fold_absorb)

lemma absorb_all_append: "absorb_all (us @ vs) sp = absorb_all vs (absorb_all us sp)"
  by (simp add: absorb_all_def)

lemma absorb_all_Nil [simp]: "absorb_all [] sp = sp"
  by (simp add: absorb_all_def)

lemma absorb_all_Cons: "absorb_all (v # vs) sp = absorb_all vs (absorb_u256 v sp)"
  by (simp add: absorb_all_def)

section \<open>Little-endian bytes\<close>

definition u64_from_le_bytes :: "u8 list \<Rightarrow> u64" where
  "u64_from_le_bytes bs = u64_from_be_bytes (rev bs)"

definition u64_to_le_bytes :: "u64 \<Rightarrow> u8 list" where
  "u64_to_le_bytes x = rev (u64_to_be_bytes x)"

text \<open>\<open>copy_from_slice\<close> into the front of an array of eight zero bytes.\<close>

definition zero_extend8 :: "u8 list \<Rightarrow> u8 list" where
  "zero_extend8 bs = bs @ replicate (8 - length bs) 0"

definition le_bytes_to_u256 :: "u8 list \<Rightarrow> u256 res" where
  "le_bytes_to_u256 bytes =
     rbind (rassert (length bytes \<le> 16) ''le_bytes_to_u256: max 16 bytes'') (\<lambda>_.
       let copy_len_0 = min (length bytes) 8;
           limb0_bytes = zero_extend8 (take copy_len_0 bytes);
           limb1_bytes = (if 8 < length bytes
             then let copy_len_1 = length bytes - 8 in zero_extend8 (take copy_len_1 (drop 8 bytes))
             else replicate 8 0)
       in Inr (U256 (u64_from_le_bytes limb0_bytes) (u64_from_le_bytes limb1_bytes) 0 0))"

definition u256_to_le_bytes :: "u256 \<Rightarrow> u8 list" where
  "u256_to_le_bytes val =
     u64_to_le_bytes (limb val 0) @ u64_to_le_bytes (limb val 1) @
     u64_to_le_bytes (limb val 2) @ u64_to_le_bytes (limb val 3)"

definition hash_to_fq_pair :: "u8 list \<Rightarrow> (fq \<times> fq) res" where
  "hash_to_fq_pair hash =
     rbind (slice hash 0 16) (\<lambda>h0. rbind (le_bytes_to_u256 h0) (\<lambda>fq1_val.
     rbind (slice hash 16 32) (\<lambda>h1. rbind (le_bytes_to_u256 h1) (\<lambda>fq2_val.
     Inr (fq1_val, fq2_val)))))"

section \<open>Transcript setup\<close>

definition sha256_hash_chain :: "(u8 list \<Rightarrow> u8 list) \<Rightarrow> u256 list \<Rightarrow> (fq \<times> fq) res" where
  "sha256_hash_chain sha256 fq_elements =
     (let input_bytes = fold (\<lambda>elem bytes. bytes @ u256_to_le_bytes elem) fq_elements [];
          hash_vec = sha256 input_bytes;
          hash_vec = fold (\<lambda>_ h. sha256 h) [0..<1000] hash_vec
      in rbind (slice hash_vec 0 16) (\<lambda>h0. rbind (le_bytes_to_u256 h0) (\<lambda>fq1_val.
         rbind (slice hash_vec 16 32) (\<lambda>h1. rbind (le_bytes_to_u256 h1) (\<lambda>fq2_val.
         Inr (fq1_val, fq2_val))))))"

fun absorb_pairs :: "u256 list \<Rightarrow> PoseidonSponge \<Rightarrow> PoseidonSponge res" where
  "absorb_pairs [] sp = Inr sp"
| "absorb_pairs [x] sp = rpanic Index_Out_Of_Bounds"
| "absorb_pairs (x # y # zs) sp = absorb_pairs zs (absorb_u256 y (absorb_u256 x sp))"

definition setup_transcript ::
  "(u8 list \<Rightarrow> u8 list) \<Rightarrow> u8 list \<Rightarrow> fq list \<Rightarrow> u256 list \<Rightarrow> PoseidonSponge res" where
  "setup_transcript sha256 circuit_hash pub_inputs input_commit_coords =
     (let sponge = init
      in rbind (hash_to_fq_pair circuit_hash) (\<lambda>(fq1, fq2).
         let sponge = absorb_u256 fq1 sponge;
             sponge = absorb_u256 fq2 sponge;
             sponge = absorb_all pub_inputs sponge
         in rbind (sha256_hash_chain sha256 pub_inputs) (\<lambda>(pub_hash1, pub_hash2).
         let sponge = absorb_u256 pub_hash1 sponge;
             sponge = absorb_u256 pub_hash2 sponge
         in rbind (rassert (length input_commit_coords mod 2 = 0)
                    ''input_commit_coords must have even length (x,y pairs)'') (\<lambda>_.
         rbind (absorb_pairs input_commit_coords sponge) (\<lambda>sponge.
         rbind (sha256_hash_chain sha256 input_commit_coords) (\<lambda>(ec_hash1, ec_hash2).
         let sponge = absorb_u256 ec_hash1 sponge;
             sponge = absorb_u256 ec_hash2 sponge
         in Inr sponge))))))"

section \<open>Lemmas\<close>

definition le_val :: "u8 list \<Rightarrow> nat" where
  "le_val bs = be_val (rev bs)"

lemma le_val_append: "le_val (xs @ ys) = le_val xs + 256 ^ length xs * le_val ys"
  by (simp add: le_val_def be_val_append)

lemma le_val_zeros [simp]: "le_val (replicate n 0) = 0"
  by (induction n) (simp_all add: le_val_def be_val_append flip: replicate_append_same)

lemma le_val_less: "le_val bs < 256 ^ length bs"
  using be_val_less [of "rev bs"] by (simp add: le_val_def)

lemma unat_u64_from_le_bytes: "length bs = 8 \<Longrightarrow> unat (u64_from_le_bytes bs) = le_val bs"
  by (simp add: u64_from_le_bytes_def le_val_def unat_u64_from_be_bytes)

lemma zero_extend8:
  "length bs \<le> 8 \<Longrightarrow> length (zero_extend8 bs) = 8 \<and> le_val (zero_extend8 bs) = le_val bs"
  by (simp add: zero_extend8_def le_val_append)

lemma le_bytes_to_u256_ok:
  assumes "length bs \<le> 16"
  obtains v where "le_bytes_to_u256 bs = Inr v" "uval v = le_val bs"
proof -
  let ?l1 = "if 8 < length bs then zero_extend8 (take (length bs - 8) (drop 8 bs)) else replicate 8 0"
  have 0: "unat (u64_from_le_bytes (zero_extend8 (take 8 bs))) = le_val (take 8 bs)"
    using zero_extend8 [of "take 8 bs"] by (simp add: unat_u64_from_le_bytes)
  have 1: "unat (u64_from_le_bytes ?l1) = le_val (drop 8 bs)"
    using zero_extend8 [of "drop 8 bs"] assms by (simp add: unat_u64_from_le_bytes) (simp add: le_val_def)
  have "le_val bs = le_val (take 8 bs) + 2 ^ 64 * le_val (drop 8 bs)"
    using le_val_append [of "take 8 bs" "drop 8 bs"] by (cases "8 \<le> length bs") (simp_all add: le_val_def)
  moreover have "le_bytes_to_u256 bs = Inr (U256 (u64_from_le_bytes (zero_extend8 (take 8 bs))) (u64_from_le_bytes ?l1) 0 0)"
    using assms by (auto simp: le_bytes_to_u256_def min_def)
  ultimately show ?thesis using 0 1 that by (simp add: uval_U256)
qed

lemma u256_to_le_bytes_rev: "u256_to_le_bytes x = rev (to_be_bytes x)"
  by (simp add: u256_to_le_bytes_def u64_to_le_bytes_def to_be_bytes_def)

lemma le_val_u256_to_le_bytes: "le_val (u256_to_le_bytes x) = uval x"
  by (simp add: u256_to_le_bytes_rev le_val_def)

lemma hash_to_fq_pair_ok:
  assumes "length h = 32"
  obtains a b where "hash_to_fq_pair h = Inr (a, b)" "uval a = le_val (take 16 h)" "uval b = le_val (drop 16 h)"
proof -
  obtain a where a: "le_bytes_to_u256 (take 16 h) = Inr a" "uval a = le_val (take 16 h)"
    by (rule le_bytes_to_u256_ok [of "take 16 h"]) simp_all
  obtain b where b: "le_bytes_to_u256 (drop 16 h) = Inr b" "uval b = le_val (drop 16 h)"
    using assms by (rule_tac le_bytes_to_u256_ok [of "drop 16 h"]) simp_all
  show ?thesis using that [of a b] a b assms by (simp add: hash_to_fq_pair_def res_simps)
qed

lemma concat_fold: "fold (\<lambda>x bs. bs @ f x) xs ys = ys @ concat (map f xs)"
  by (induction xs arbitrary: ys) simp_all

lemma fold_const_funpow: "fold (\<lambda>_ h. f h) [0..<n] = f ^^ n"
  by (induction n) (simp_all add: fun_eq_iff)

text \<open>The chain is 1001 applications of SHA-256 to the little-endian bytes of the elements.\<close>

lemma sha256_hash_chain_eq:
  "sha256_hash_chain sha256 xs = hash_to_fq_pair ((sha256 ^^ 1001) (concat (map u256_to_le_bytes xs)))"
proof -
  have "(1001 :: nat) = Suc 1000" by simp
  then have "(sha256 ^^ 1001) z = (sha256 ^^ 1000) (sha256 z)" for z
    by (simp only: funpow_Suc_right comp_apply)
  then show ?thesis by (simp add: sha256_hash_chain_def hash_to_fq_pair_def Let_def concat_fold fold_const_funpow)
qed

lemma length_sha256_chain:
  fixes sha256 :: "u8 list \<Rightarrow> u8 list"
  assumes "\<And>bs. length (sha256 bs) = 32"
  shows "length ((sha256 ^^ 1001) bs) = 32"
proof -
  have "(1001 :: nat) = Suc 1000" by simp
  then have "(sha256 ^^ 1001) bs = sha256 ((sha256 ^^ 1000) bs)" by (simp only: funpow.simps comp_apply)
  then show ?thesis using assms by simp
qed

lemma absorb_pairs_even: "even (length xs) \<Longrightarrow> absorb_pairs xs sp = Inr (absorb_all xs sp)"
  by (induction xs sp rule: absorb_pairs.induct) (simp_all add: absorb_all_Cons)

text \<open>The pair of field elements of a 32-byte hash, as a total function.\<close>

definition hash_pair :: "u8 list \<Rightarrow> u256 list" where
  "hash_pair h = (case hash_to_fq_pair h of Inl _ \<Rightarrow> [] | Inr (a, b) \<Rightarrow> [a, b])"

text \<open>The sequence of values that the setup absorbs, in order.\<close>

definition transcript_items :: "(u8 list \<Rightarrow> u8 list) \<Rightarrow> u8 list \<Rightarrow> u256 list \<Rightarrow> u256 list \<Rightarrow> u256 list" where
  "transcript_items sha256 circuit_hash pub coords =
     hash_pair circuit_hash
     @ pub @ hash_pair ((sha256 ^^ 1001) (concat (map u256_to_le_bytes pub)))
     @ coords @ hash_pair ((sha256 ^^ 1001) (concat (map u256_to_le_bytes coords)))"

lemma setup_transcript_items:
  assumes "\<And>bs. length (sha256 bs) = 32" "length circuit_hash = 32" "even (length coords)"
  shows "setup_transcript sha256 circuit_hash pub coords
    = Inr (absorb_all (transcript_items sha256 circuit_hash pub coords) init)"
proof -
  note len = length_sha256_chain [of sha256, OF assms(1)]
  obtain a b where ab: "hash_to_fq_pair circuit_hash = Inr (a, b)" by (rule hash_to_fq_pair_ok [OF assms(2)])
  obtain c d where cd: "sha256_hash_chain sha256 pub = Inr (c, d)"
    unfolding sha256_hash_chain_eq by (rule hash_to_fq_pair_ok [OF len])
  obtain e f where ef: "sha256_hash_chain sha256 coords = Inr (e, f)"
    unfolding sha256_hash_chain_eq by (rule hash_to_fq_pair_ok [OF len])
  have "transcript_items sha256 circuit_hash pub coords = [a, b] @ pub @ [c, d] @ coords @ [e, f]"
    using ab cd ef by (simp add: transcript_items_def hash_pair_def sha256_hash_chain_eq)
  then show ?thesis
    using ab cd ef assms(3)
    by (simp add: setup_transcript_def Let_def absorb_pairs_even absorb_all_append absorb_all_Cons)
qed

lemma setup_transcript_odd:
  assumes "\<And>bs. length (sha256 bs) = 32" "length circuit_hash = 32" "odd (length coords)"
  shows "setup_transcript sha256 circuit_hash pub coords
    = rpanic (Assert_Failed ''input_commit_coords must have even length (x,y pairs)'')"
proof -
  note len = length_sha256_chain [of sha256, OF assms(1)]
  obtain a b where ab: "hash_to_fq_pair circuit_hash = Inr (a, b)" by (rule hash_to_fq_pair_ok [OF assms(2)])
  obtain c d where cd: "sha256_hash_chain sha256 pub = Inr (c, d)"
    unfolding sha256_hash_chain_eq by (rule hash_to_fq_pair_ok [OF len])
  show ?thesis using ab cd assms(3)
    by (simp add: setup_transcript_def Let_def rassert_def odd_iff_mod_2_eq_one)
qed

lemma setup_transcript_inv:
  assumes "setup_transcript sha256 circuit_hash pub coords = Inr sp"
  shows "sponge_inv sp"
proof -
  have p: "sponge_inv s'" if "absorb_pairs xs s = Inr s'" "sponge_inv s" for xs s s'
    using that by (induction xs s rule: absorb_pairs.induct) (auto simp: sponge_inv_absorb_u256)
  show ?thesis using assms
    by (auto simp: setup_transcript_def Let_def rbind_eq_Inr_iff sponge_inv_absorb_u256 sponge_inv_absorb_all
        sponge_inv_init dest!: p)
qed

end
