(* ===== verification/Curve.thy ===== *)
theory Curve
  imports Field_Ops
begin

text \<open>
  BN254 group operations (\<open>crates/zkml-verifier/src/ec.rs\<close>): affine points and their byte encoding, the
  emulated precompiles, Jacobian doubling and mixed addition, double-and-add scalar multiplication,
  multi-scalar multiplication and inner products.

  Every operation is shown to be total (no panic) and equal to its point-level reading (\<open>pt_add\<close>,
  \<open>pt_mul\<close>, \<open>pt_msm\<close>). The curve equation and the chord-and-tangent law are shown in the ring of
  residues modulo the base field characteristic (theory \<open>Curve_Law\<close>).
\<close>

section \<open>Data\<close>

record G1Point =
  pt_x :: u256
  pt_y :: u256

record PedersenGens =
  message_gens :: "G1Point list"
  scalar_gen :: G1Point
  blinding_gen :: G1Point

record PODPProof =
  commit_d :: G1Point
  commit_d_dot_a :: G1Point
  z_vector :: "u256 list"
  z_delta :: u256
  z_beta :: u256

record ProofOfProduct =
  pop_alpha :: G1Point
  pop_beta :: G1Point
  pop_delta :: G1Point
  pop_z1 :: u256
  pop_z2 :: u256
  pop_z3 :: u256
  pop_z4 :: u256
  pop_z5 :: u256

definition INFINITY :: G1Point where
  "INFINITY = \<lparr>pt_x = u256_ZERO, pt_y = u256_ZERO\<rparr>"

definition is_infinity :: "G1Point \<Rightarrow> bool" where
  "is_infinity p \<longleftrightarrow> is_zero (pt_x p) \<and> is_zero (pt_y p)"

definition pt_from_be_bytes :: "u8 list \<Rightarrow> G1Point res" where
  "pt_from_be_bytes data =
     rbind (rassert (64 \<le> length data) ''assertion failed: data.len() >= 64'') (\<lambda>_.
     rbind (slice data 0 32) (\<lambda>x_bytes. rbind (slice data 32 64) (\<lambda>y_bytes.
     Inr \<lparr>pt_x = from_be_bytes x_bytes, pt_y = from_be_bytes y_bytes\<rparr>)))"

definition pt_to_be_bytes :: "G1Point \<Rightarrow> u8 list" where
  "pt_to_be_bytes p = to_be_bytes (pt_x p) @ to_be_bytes (pt_y p)"

section \<open>Jacobian coordinates\<close>

record JacPoint =
  jx :: fq
  jy :: fq
  jz :: fq

definition jac_infinity :: JacPoint where
  "jac_infinity = \<lparr>jx = u256_ONE, jy = u256_ONE, jz = u256_ZERO\<rparr>"

definition jac_is_infinity :: "JacPoint \<Rightarrow> bool" where
  "jac_is_infinity p \<longleftrightarrow> is_zero (jz p)"

definition from_affine :: "fq \<Rightarrow> fq \<Rightarrow> JacPoint" where
  "from_affine x y =
     (if is_zero x \<and> is_zero y then jac_infinity else \<lparr>jx = x, jy = y, jz = u256_ONE\<rparr>)"

definition to_affine :: "JacPoint \<Rightarrow> fq \<times> fq" where
  "to_affine p =
     (if jac_is_infinity p then (u256_ZERO, u256_ZERO)
      else let z_inv = fq_inv (jz p);
               z_inv2 = fq_square z_inv;
               z_inv3 = fq_mul z_inv2 z_inv
           in (fq_mul (jx p) z_inv2, fq_mul (jy p) z_inv3))"

definition jac_double :: "JacPoint \<Rightarrow> JacPoint" where
  "jac_double p =
     (if jac_is_infinity p \<or> is_zero (jy p) then jac_infinity
      else let a = fq_square (jx p);
               b = fq_square (jy p);
               c = fq_square b;
               xpb = fq_add (jx p) b;
               d = fq_sub (fq_sub (fq_square xpb) a) c;
               d = fq_add d d;
               e = fq_add (fq_add a a) a;
               f = fq_square e;
               x3 = fq_sub (fq_sub f d) d;
               c8 = fq_add c c;
               c8 = fq_add c8 c8;
               c8 = fq_add c8 c8;
               y3 = fq_sub (fq_mul e (fq_sub d x3)) c8;
               z3 = fq_mul (fq_add (jy p) (jy p)) (jz p)
           in \<lparr>jx = x3, jy = y3, jz = z3\<rparr>)"

definition add_affine :: "JacPoint \<Rightarrow> fq \<Rightarrow> fq \<Rightarrow> JacPoint" where
  "add_affine p px py =
     (if is_zero px \<and> is_zero py then \<lparr>jx = jx p, jy = jy p, jz = jz p\<rparr>
      else if jac_is_infinity p then from_affine px py
      else let z1z1 = fq_square (jz p);
               u2 = fq_mul px z1z1;
               s2 = fq_mul (fq_mul py (jz p)) z1z1;
               h = fq_sub u2 (jx p);
               r = fq_sub s2 (jy p)
           in if is_zero h then if is_zero r then jac_double p else jac_infinity
              else let hh = fq_square h;
                       hhh = fq_mul h hh;
                       x1hh = fq_mul (jx p) hh;
                       x3 = fq_sub (fq_sub (fq_sub (fq_square r) hhh) x1hh) x1hh;
                       y3 = fq_sub (fq_mul r (fq_sub x1hh x3)) (fq_mul (jy p) hhh);
                       z3 = fq_mul h (jz p)
                   in \<lparr>jx = x3, jy = y3, jz = z3\<rparr>)"

section \<open>The native precompiles\<close>

definition ec_add_native :: "u8 list \<Rightarrow> u8 list res" where
  "ec_add_native input =
     rbind (rassert (128 \<le> length input) ''ecadd: need 128 bytes'') (\<lambda>_.
     rbind (slice input 0 32) (\<lambda>b0. let x1 = fq_from_be_bytes b0 in
     rbind (slice input 32 64) (\<lambda>b1. let y1 = fq_from_be_bytes b1 in
     rbind (slice input 64 96) (\<lambda>b2. let x2 = fq_from_be_bytes b2 in
     rbind (slice input 96 128) (\<lambda>b3. let y2 = fq_from_be_bytes b3 in
     let p1 = from_affine x1 y1;
         result = add_affine p1 x2 y2;
         (rx, ry) = to_affine result
     in Inr (to_be_bytes rx @ to_be_bytes ry))))))"

definition mul_bit :: "fq \<Rightarrow> fq \<Rightarrow> u64 \<Rightarrow> nat \<Rightarrow> JacPoint \<times> bool \<Rightarrow> JacPoint \<times> bool" where
  "mul_bit px py lmb bit_idx s =
     (let (acc, started) = s;
          acc = (if started then jac_double acc else acc)
      in if drop_bit bit_idx lmb AND 1 = 1
         then if \<not> started then (from_affine px py, True) else (add_affine acc px py, started)
         else (acc, started))"

definition mul_limb :: "fq \<Rightarrow> fq \<Rightarrow> u256 \<Rightarrow> nat \<Rightarrow> JacPoint \<times> bool \<Rightarrow> JacPoint \<times> bool" where
  "mul_limb px py scalar limb_idx s = fold (mul_bit px py (limb scalar limb_idx)) (rev [0..<64]) s"

definition ec_mul_native :: "u8 list \<Rightarrow> u8 list res" where
  "ec_mul_native input =
     rbind (rassert (96 \<le> length input) ''ecmul: need 96 bytes'') (\<lambda>_.
     rbind (slice input 0 32) (\<lambda>b0. let px = fq_from_be_bytes b0 in
     rbind (slice input 32 64) (\<lambda>b1. let py = fq_from_be_bytes b1 in
     rbind (slice input 64 96) (\<lambda>b2. let scalar = from_be_bytes b2 in
     if (is_zero px \<and> is_zero py) \<or> is_zero scalar then Inr (replicate 64 0)
     else let (acc, started) = fold (mul_limb px py scalar) (rev [0..<4]) (jac_infinity, False);
              (rx, ry) = to_affine acc
          in Inr (to_be_bytes rx @ to_be_bytes ry)))))"

definition call_precompile :: "u64 \<Rightarrow> u8 list \<Rightarrow> u8 list res" where
  "call_precompile addr input =
     (if addr = 0x06 then ec_add_native input
      else if addr = 0x07 then ec_mul_native input
      else rpanic (Explicit_Panic ''unknown precompile''))"

section \<open>Point operations\<close>

definition point_of_output :: "u8 list \<Rightarrow> G1Point res" where
  "point_of_output output =
     rbind (slice output 0 32) (\<lambda>b0. rbind (from_be_slice b0) (\<lambda>x.
     rbind (slice output 32 64) (\<lambda>b1. rbind (from_be_slice b1) (\<lambda>y.
     Inr \<lparr>pt_x = x, pt_y = y\<rparr>))))"

definition ec_add :: "G1Point \<Rightarrow> G1Point \<Rightarrow> G1Point res" where
  "ec_add p1 p2 =
     (if is_infinity p1 then Inr p2
      else if is_infinity p2 then Inr p1
      else let input = to_be_bytes (pt_x p1) @ to_be_bytes (pt_y p1) @ to_be_bytes (pt_x p2) @ to_be_bytes (pt_y p2)
           in rbind (call_precompile 0x06 input) point_of_output)"

definition ec_mul :: "G1Point \<Rightarrow> u256 \<Rightarrow> G1Point res" where
  "ec_mul p s =
     (if is_infinity p \<or> is_zero s then Inr INFINITY
      else let input = to_be_bytes (pt_x p) @ to_be_bytes (pt_y p) @ to_be_bytes s
           in rbind (call_precompile 0x07 input) point_of_output)"

definition multi_scalar_mul :: "G1Point list \<Rightarrow> u256 list \<Rightarrow> G1Point res" where
  "multi_scalar_mul points scalars =
     rbind (rassert (length points = length scalars) ''assertion failed: points.len() == scalars.len()'') (\<lambda>_.
     if points = [] then Inr INFINITY
     else rbind (rbind (idx points 0) (\<lambda>p. rbind (idx scalars 0) (ec_mul p))) (\<lambda>result.
          rfold (\<lambda>i result.
              rbind (idx points i) (\<lambda>p. rbind (idx scalars i) (\<lambda>s.
              rbind (ec_mul p s) (ec_add result))))
            [1..<length points] result))"

definition msm_with_truncated_gens :: "G1Point list \<Rightarrow> u256 list \<Rightarrow> G1Point res" where
  "msm_with_truncated_gens all_gens scalars =
     (let n = length scalars
      in rbind (rassert (n \<le> length all_gens) ''assertion failed: n <= all_gens.len()'') (\<lambda>_.
         multi_scalar_mul (take n all_gens) scalars))"

definition negate :: "G1Point \<Rightarrow> G1Point" where
  "negate p = (if is_infinity p then p else \<lparr>pt_x = pt_x p, pt_y = sub_no_mod FQ_MOD (pt_y p)\<rparr>)"

definition inner_product :: "u256 list \<Rightarrow> u256 list \<Rightarrow> fr res" where
  "inner_product a b =
     rbind (rassert (length a = length b) ''assertion failed: a.len() == b.len()'') (\<lambda>_.
     rfold (\<lambda>i result. rbind (idx a i) (\<lambda>ai. rbind (idx b i) (\<lambda>bi. Inr (fr_add result (fr_mul ai bi)))))
       [0..<length a] u256_ZERO)"

section \<open>Totality: the point-level reading\<close>

text \<open>The coordinate that a precompile computes with: one conditional subtraction of the modulus.\<close>

definition coord :: "u256 \<Rightarrow> fq" where
  "coord x = fq_from_be_bytes (to_be_bytes x)"

definition pt_of :: "fq \<times> fq \<Rightarrow> G1Point" where
  "pt_of xy = \<lparr>pt_x = fst xy, pt_y = snd xy\<rparr>"

definition pt_add :: "G1Point \<Rightarrow> G1Point \<Rightarrow> G1Point" where
  "pt_add p1 p2 =
     (if is_infinity p1 then p2 else if is_infinity p2 then p1
      else pt_of (to_affine (add_affine (from_affine (coord (pt_x p1)) (coord (pt_y p1)))
                                        (coord (pt_x p2)) (coord (pt_y p2)))))"

definition jac_mul :: "fq \<Rightarrow> fq \<Rightarrow> u256 \<Rightarrow> JacPoint" where
  "jac_mul px py scalar = fst (fold (mul_limb px py scalar) (rev [0..<4]) (jac_infinity, False))"

definition pt_mul :: "G1Point \<Rightarrow> u256 \<Rightarrow> G1Point" where
  "pt_mul p s =
     (if is_infinity p \<or> is_zero s \<or> (is_zero (coord (pt_x p)) \<and> is_zero (coord (pt_y p))) then INFINITY
      else pt_of (to_affine (jac_mul (coord (pt_x p)) (coord (pt_y p)) s)))"

fun pt_sum :: "G1Point \<Rightarrow> G1Point list \<Rightarrow> G1Point" where
  "pt_sum acc [] = acc"
| "pt_sum acc (p # ps) = pt_sum (pt_add acc p) ps"

definition pt_msm :: "G1Point list \<Rightarrow> u256 list \<Rightarrow> G1Point" where
  "pt_msm points scalars =
     (case map2 pt_mul points scalars of [] \<Rightarrow> INFINITY | t # ts \<Rightarrow> pt_sum t ts)"

lemma uval_coord: "uval (coord x) = (if uval FQ_MOD \<le> uval x then uval x - uval FQ_MOD else uval x)"
  by (simp add: coord_def fq_from_be_bytes_def field_from_be_bytes_def Let_def gte_iff uval_sub_no_mod_le)

lemma coord_canonical [simp]: "uval x < uval FQ_MOD \<Longrightarrow> coord x = x"
  by (simp add: uval_coord flip: uval_inject)

lemma from_be_slice_to_be_bytes [simp]: "from_be_slice (to_be_bytes x) = Inr x"
  by (simp add: from_be_slice_def)

lemma point_of_output_bytes: "point_of_output (to_be_bytes x @ to_be_bytes y) = Inr \<lparr>pt_x = x, pt_y = y\<rparr>"
  by (simp add: point_of_output_def slice_def)

lemma to_be_bytes_zero: "to_be_bytes u256_ZERO = replicate 32 0"
proof -
  have "be_val (replicate n 0) = 0" for n by (induction n) simp_all
  then show ?thesis by (intro be_val_inject) simp_all
qed

lemma ec_add_native_bytes:
  "ec_add_native (to_be_bytes x1 @ to_be_bytes y1 @ to_be_bytes x2 @ to_be_bytes y2)
    = Inr (case to_affine (add_affine (from_affine (coord x1) (coord y1)) (coord x2) (coord y2)) of
             (rx, ry) \<Rightarrow> to_be_bytes rx @ to_be_bytes ry)"
  by (simp add: ec_add_native_def slice_def coord_def split: prod.splits)

lemma ec_mul_native_bytes:
  "ec_mul_native (to_be_bytes x @ to_be_bytes y @ to_be_bytes s)
    = Inr (if (is_zero (coord x) \<and> is_zero (coord y)) \<or> is_zero s then replicate 64 0
           else case to_affine (jac_mul (coord x) (coord y) s) of (rx, ry) \<Rightarrow> to_be_bytes rx @ to_be_bytes ry)"
  by (simp add: ec_mul_native_def slice_def jac_mul_def coord_def [symmetric] Let_def case_prod_unfold)

theorem ec_add_total: "ec_add p1 p2 = Inr (pt_add p1 p2)"
  by (simp add: ec_add_def call_precompile_def ec_add_native_bytes pt_add_def)
    (simp add: pt_of_def point_of_output_bytes split: prod.splits)

theorem ec_mul_total: "ec_mul p s = Inr (pt_mul p s)"
proof (cases "is_infinity p \<or> is_zero s")
  case True
  then show ?thesis by (auto simp: ec_mul_def pt_mul_def)
next
  case False
  have "point_of_output (replicate 64 0) = Inr INFINITY"
    using point_of_output_bytes [of u256_ZERO u256_ZERO]
    by (simp add: to_be_bytes_zero INFINITY_def flip: replicate_add)
  then show ?thesis using False
    by (simp add: ec_mul_def call_precompile_def ec_mul_native_bytes pt_mul_def)
      (simp add: pt_of_def point_of_output_bytes split: prod.splits)
qed

lemma rfold_total: "rfold (\<lambda>x s. Inr (f x s)) xs s = Inr (fold f xs s)"
  by (induction xs arbitrary: s) simp_all

lemma rfold_total_cong:
  assumes "\<And>x s. x \<in> set xs \<Longrightarrow> g x s = Inr (f x s)"
  shows "rfold g xs s = Inr (fold f xs s)"
  using assms by (induction xs arbitrary: s) simp_all

lemma pt_sum_fold: "pt_sum acc (map f xs) = fold (\<lambda>x acc. pt_add acc (f x)) xs acc"
  by (induction xs arbitrary: acc) simp_all

lemma map2_nth: "length xs = length ys \<Longrightarrow> map2 f xs ys = map (\<lambda>i. f (xs ! i) (ys ! i)) [0..<length xs]"
  by (rule nth_equalityI) simp_all

theorem multi_scalar_mul_total:
  assumes "length points = length scalars"
  shows "multi_scalar_mul points scalars = Inr (pt_msm points scalars)"
proof (cases points)
  case Nil
  then show ?thesis using assms by (simp add: multi_scalar_mul_def pt_msm_def)
next
  case (Cons p ps)
  let ?f = "\<lambda>i. pt_mul (points ! i) (scalars ! i)"
  define js where "js = [1..<length points]"
  have js: "set js \<subseteq> {..<length points}" by (auto simp: js_def)
  have "rfold (\<lambda>i result. rbind (idx points i) (\<lambda>p. rbind (idx scalars i) (\<lambda>s. rbind (ec_mul p s) (ec_add result))))
      js (?f 0) = Inr (fold (\<lambda>i result. pt_add result (?f i)) js (?f 0))"
    using assms js by (intro rfold_total_cong) (auto simp: idx_def ec_mul_total ec_add_total)
  moreover have "map2 pt_mul points scalars = ?f 0 # map ?f js"
    using map2_nth [OF assms, of pt_mul] upt_conv_Cons [of 0 "length points"] Cons by (simp add: js_def del: upt_Suc)
  moreover have "rbind (idx points 0) (\<lambda>p. rbind (idx scalars 0) (ec_mul p)) = Inr (?f 0)"
    using assms Cons by (simp add: idx_def ec_mul_total flip: assms)
  moreover have "points \<noteq> []" using Cons by simp
  ultimately show ?thesis
    unfolding multi_scalar_mul_def pt_msm_def js_def [symmetric] using assms by (simp add: pt_sum_fold)
qed

lemma multi_scalar_mul_cases:
  "multi_scalar_mul points scalars =
     (if length points = length scalars then Inr (pt_msm points scalars)
      else rpanic (Assert_Failed ''assertion failed: points.len() == scalars.len()''))"
  using multi_scalar_mul_total [of points scalars] by (simp add: multi_scalar_mul_def rassert_def)

lemma msm_with_truncated_gens_total:
  "length scalars \<le> length gs \<Longrightarrow> msm_with_truncated_gens gs scalars = Inr (pt_msm (take (length scalars) gs) scalars)"
  by (simp add: msm_with_truncated_gens_def multi_scalar_mul_total)

text \<open>The inner product is the sum of products modulo the scalar field characteristic, for all
  inputs.\<close>

definition dot :: "u256 list \<Rightarrow> u256 list \<Rightarrow> fr" where
  "dot a b = fold (\<lambda>i result. fr_add result (fr_mul (a ! i) (b ! i))) [0..<length a] u256_ZERO"

lemma inner_product_total: "length a = length b \<Longrightarrow> inner_product a b = Inr (dot a b)"
  by (simp add: inner_product_def dot_def, rule rfold_total_cong) (simp add: res_simps)

theorem uval_dot:
  assumes "length a = length b"
  shows "uval (dot a b) = (\<Sum>i<length a. uval (a ! i) * uval (b ! i)) mod uval FR_MOD"
proof -
  have "uval (dot a b) = (uval u256_ZERO + (\<Sum>i\<leftarrow>[0..<length a]. uval (fr_mul (a ! i) (b ! i)))) mod uval FR_MOD"
    unfolding dot_def by (rule Fr.fold_add) (simp_all add: Fr.p_pos Fr.mul_less)
  also have "\<dots> = (\<Sum>i<length a. uval (a ! i) * uval (b ! i) mod uval FR_MOD) mod uval FR_MOD"
    by (simp add: Fr.mul_mod sum_list_distinct_conv_sum_set atLeast0LessThan)
  finally show ?thesis by (simp add: mod_sum_eq)
qed

lemma pt_bytes_roundtrip: "pt_from_be_bytes (pt_to_be_bytes p @ rest) = Inr p"
  by (simp add: pt_from_be_bytes_def pt_to_be_bytes_def slice_def)

lemma length_pt_to_be_bytes [simp]: "length (pt_to_be_bytes p) = 64"
  by (simp add: pt_to_be_bytes_def)

lemma uval_dot_pairs:
  "uval (dot (map fst vs) (map snd vs)) = (\<Sum>(a, b) \<leftarrow> vs. uval a * uval b) mod uval FR_MOD"
proof -
  have "(\<Sum>i < length vs. uval (map fst vs ! i) * uval (map snd vs ! i)) = (\<Sum>i < length vs. (case vs ! i of (a, b) \<Rightarrow> uval a * uval b))"
    by (rule sum.cong) (simp_all add: case_prod_unfold)
  also have "\<dots> = (\<Sum>(a, b) \<leftarrow> vs. uval a * uval b)"
    by (simp add: sum_list_sum_nth atLeast0LessThan)
  finally show ?thesis by (simp add: uval_dot)
qed

end
