(* ===== verification/Curve_Law.thy ===== *)
theory Curve_Law
  imports Curve
begin

text \<open>
  The curve equation and the group law behind \<open>ec.rs\<close>. The residues modulo the base field
  characteristic form a commutative ring, into which \<open>emb\<close> takes the source's field elements; the
  field operations become ring operations there, so that the statements about the coordinate formulas
  are polynomial identities.

  Doubling and mixed addition keep the Jacobian curve equation, for every canonical input, and so does
  the double-and-add loop; on points that a Jacobian triple represents, they compute the
  chord-and-tangent law. The affine addition is commutative and has inverses.
\<close>

section \<open>The ring of residues\<close>

typedef zq = "{x :: int. 0 \<le> x \<and> x < int (uval FQ_MOD)}"
  using Fq.p_pos by (intro exI [of _ 0]) simp

setup_lifting type_definition_zq

instantiation zq :: comm_ring_1
begin

lift_definition zero_zq :: zq is 0 using Fq.p_pos by simp

lift_definition one_zq :: zq is 1 using Fq.p_gt_1 by simp

lift_definition plus_zq :: "zq \<Rightarrow> zq \<Rightarrow> zq" is "\<lambda>a b. (a + b) mod int (uval FQ_MOD)"
  using Fq.p_pos by simp

lift_definition minus_zq :: "zq \<Rightarrow> zq \<Rightarrow> zq" is "\<lambda>a b. (a - b) mod int (uval FQ_MOD)"
  using Fq.p_pos by simp

lift_definition times_zq :: "zq \<Rightarrow> zq \<Rightarrow> zq" is "\<lambda>a b. a * b mod int (uval FQ_MOD)"
  using Fq.p_pos by simp

lift_definition uminus_zq :: "zq \<Rightarrow> zq" is "\<lambda>a. (- a) mod int (uval FQ_MOD)"
  using Fq.p_pos by simp

instance
proof
  fix a b c :: zq
  show "a * b * c = a * (b * c)" by transfer (simp add: mod_simps mult.assoc)
  show "a * b = b * a" by transfer (simp add: mult.commute)
  show "1 * a = a" by transfer simp
  show "a + b + c = a + (b + c)" by transfer (simp add: mod_simps add.assoc)
  show "a + b = b + a" by transfer (simp add: add.commute)
  show "0 + a = a" by transfer simp
  show "- a + a = 0" by transfer (simp add: mod_simps)
  show "a - b = a + - b" by transfer (simp add: mod_simps)
  show "(a + b) * c = a * c + b * c" by transfer (simp add: mod_simps distrib_right)
  show "(0 :: zq) \<noteq> 1" by transfer simp
qed

end

lift_definition emb :: "u256 \<Rightarrow> zq" is "\<lambda>x. int (uval x) mod int (uval FQ_MOD)"
  using Fq.p_pos by simp

abbreviation canonical :: "u256 \<Rightarrow> bool" where
  "canonical x \<equiv> uval x < uval FQ_MOD"

named_theorems emb_simps \<open>field operations as ring operations\<close>

lemma emb_add [emb_simps]: "canonical a \<or> canonical b \<Longrightarrow> emb (fq_add a b) = emb a + emb b"
proof -
  assume "canonical a \<or> canonical b"
  then have "int (uval (fq_add a b) mod uval FQ_MOD) = int ((uval a + uval b) mod uval FQ_MOD)"
    by (simp only: Fq.add_mod)
  then show ?thesis by transfer (simp add: zmod_int mod_simps)
qed

lemma emb_sub [emb_simps]: "canonical b \<Longrightarrow> emb (fq_sub a b) = emb a - emb b"
  using Fq.sub_mod [of b a] by transfer (simp add: mod_simps)

lemma emb_mul [emb_simps]: "emb (fq_mul a b) = emb a * emb b"
  by transfer (simp add: Fq.mul_mod zmod_int mod_simps)

lemma emb_square [emb_simps]: "emb (fq_square a) = emb a * emb a"
  by (simp add: fq_square_def emb_mul)

lemma emb_ZERO [simp, emb_simps]: "emb u256_ZERO = 0"
  by transfer simp

lemma emb_ONE [simp, emb_simps]: "emb u256_ONE = 1"
  by transfer (use Fq.p_gt_1 in simp)

lemma emb_inject: "canonical a \<Longrightarrow> canonical b \<Longrightarrow> emb a = emb b \<longleftrightarrow> a = b"
  by transfer simp

lemma emb_zero_iff: "canonical a \<Longrightarrow> emb a = 0 \<longleftrightarrow> is_zero a"
  using emb_inject [of a u256_ZERO] Fq.p_pos by (simp add: is_zero_eq)

lemma canonical_ops [simp]:
  "canonical a \<Longrightarrow> canonical b \<Longrightarrow> canonical (fq_add a b)"
  "canonical a \<Longrightarrow> canonical b \<Longrightarrow> canonical (fq_sub a b)"
  "canonical (fq_mul a b)" "canonical (fq_square a)" "canonical u256_ZERO" "canonical u256_ONE"
  using Fq.p_gt_1 by (simp_all add: Fq.add_less Fq.sub_less Fq.mul_less fq_square_def)

lemma q_gt [simp]: "0 < uval FQ_MOD" "Suc 0 < uval FQ_MOD"
  using Fq.p_gt_1 by simp_all

section \<open>Jacobian points\<close>

definition jac_canonical :: "JacPoint \<Rightarrow> bool" where
  "jac_canonical p \<longleftrightarrow> canonical (jx p) \<and> canonical (jy p) \<and> canonical (jz p)"

definition jac_on_curve :: "JacPoint \<Rightarrow> bool" where
  "jac_on_curve p \<longleftrightarrow> emb (jy p) ^ 2 = emb (jx p) ^ 3 + 3 * emb (jz p) ^ 6"

definition on_curve :: "fq \<Rightarrow> fq \<Rightarrow> bool" where
  "on_curve x y \<longleftrightarrow> emb y ^ 2 = emb x ^ 3 + 3"

text \<open>The coordinates of the results, as polynomials.\<close>

lemma jac_double_coords:
  fixes p :: JacPoint
  defines "X \<equiv> emb (jx p)" and "Y \<equiv> emb (jy p)" and "Z \<equiv> emb (jz p)"
  assumes "jac_canonical p" "\<not> jac_is_infinity p" "\<not> is_zero (jy p)"
  shows "emb (jx (jac_double p)) = 9 * X ^ 4 - 8 * X * Y ^ 2"
    and "emb (jy (jac_double p)) = 3 * X ^ 2 * (12 * X * Y ^ 2 - 9 * X ^ 4) - 8 * Y ^ 4"
    and "emb (jz (jac_double p)) = 2 * Y * Z"
  using assms(4-) unfolding jac_canonical_def
  by (simp_all add: jac_double_def Let_def emb_simps flip: X_def Y_def Z_def)
    (simp_all add: algebra_simps eval_nat_numeral)

lemma add_affine_coords:
  fixes p :: JacPoint
  defines "X \<equiv> emb (jx p)" and "Y \<equiv> emb (jy p)" and "Z \<equiv> emb (jz p)"
  assumes "jac_canonical p" "\<not> jac_is_infinity p" "canonical px" "canonical py"
    and "\<not> (is_zero px \<and> is_zero py)" and "H = emb px * Z ^ 2 - X" "R = emb py * Z ^ 3 - Y" "H \<noteq> 0"
  shows "emb (jx (add_affine p px py)) = R ^ 2 - H ^ 3 - 2 * X * H ^ 2"
    and "emb (jy (add_affine p px py)) = R * (X * H ^ 2 - (R ^ 2 - H ^ 3 - 2 * X * H ^ 2)) - Y * H ^ 3"
    and "emb (jz (add_affine p px py)) = H * Z"
proof -
  let ?h = "fq_sub (fq_mul px (fq_square (jz p))) (jx p)"
  let ?r = "fq_sub (fq_mul (fq_mul py (jz p)) (fq_square (jz p))) (jy p)"
  have can: "canonical (jx p)" "canonical (jy p)" "canonical (jz p)" using assms(4) by (auto simp: jac_canonical_def)
  have h: "emb ?h = H" using can by (simp add: emb_simps assms(9) X_def Z_def power2_eq_square)
  have r: "emb ?r = R" using can by (simp add: emb_simps assms(10) Y_def Z_def power3_eq_cube)
  have nz: "\<not> is_zero ?h" using h assms(11) can emb_zero_iff [of ?h] by simp
  have c: "canonical ?h" "canonical ?r" using can by simp_all
  show "emb (jx (add_affine p px py)) = R ^ 2 - H ^ 3 - 2 * X * H ^ 2"
    and "emb (jy (add_affine p px py)) = R * (X * H ^ 2 - (R ^ 2 - H ^ 3 - 2 * X * H ^ 2)) - Y * H ^ 3"
    and "emb (jz (add_affine p px py)) = H * Z"
    using assms(5,8) nz can c
    by (simp_all only: add_affine_def if_False Let_def JacPoint.select_convs)
      (simp_all add: emb_mul emb_square emb_sub h r algebra_simps eval_nat_numeral flip: X_def Y_def Z_def)
qed

lemma jac_canonical_infinity: "jac_canonical jac_infinity" "jac_on_curve jac_infinity"
  by (simp_all add: jac_canonical_def jac_infinity_def jac_on_curve_def)

lemma jac_canonical_double: "jac_canonical p \<Longrightarrow> jac_canonical (jac_double p)"
  using jac_canonical_infinity by (simp add: jac_double_def Let_def) (simp add: jac_canonical_def)

lemma jac_canonical_from_affine: "canonical x \<Longrightarrow> canonical y \<Longrightarrow> jac_canonical (from_affine x y)"
  using jac_canonical_infinity by (simp add: from_affine_def) (simp add: jac_canonical_def)

lemma jac_canonical_add_affine:
  assumes "jac_canonical p" "canonical px" "canonical py"
  shows "jac_canonical (add_affine p px py)"
  using assms jac_canonical_infinity jac_canonical_double [OF assms(1)] jac_canonical_from_affine [OF assms(2,3)]
  by (simp add: add_affine_def Let_def) (simp add: jac_canonical_def)

section \<open>The curve equation\<close>

lemma double_identity:
  fixes X :: "'a :: comm_ring_1"
  assumes "Y ^ 2 = X ^ 3 + b"
  shows "(3 * X ^ 2 * (12 * X * Y ^ 2 - 9 * X ^ 4) - 8 * Y ^ 4) ^ 2 = (9 * X ^ 4 - 8 * X * Y ^ 2) ^ 3 + b * (2 * Y) ^ 6"
proof -
  have "(3 * X ^ 2 * (12 * X * Y ^ 2 - 9 * X ^ 4) - 8 * Y ^ 4) ^ 2 - ((9 * X ^ 4 - 8 * X * Y ^ 2) ^ 3 + b * (2 * Y) ^ 6)
      = 64 * Y ^ 6 * (Y ^ 2 - X ^ 3 - b)"
    by (simp add: algebra_simps eval_nat_numeral)
  then show ?thesis using assms by simp
qed

lemma chord_identity:
  fixes X :: "'a :: comm_ring_1"
  defines "x3 \<equiv> \<lambda>H R X. R ^ 2 - H ^ 3 - 2 * X * H ^ 2"
  assumes "Y ^ 2 = X ^ 3 + b" "(Y + R) ^ 2 = (X + H) ^ 3 + b"
  shows "(R * (X * H ^ 2 - x3 H R X) - Y * H ^ 3) ^ 2 = x3 H R X ^ 3 + b * H ^ 6"
proof -
  have "(R * (X * H ^ 2 - x3 H R X) - Y * H ^ 3) ^ 2 - x3 H R X ^ 3 - b * H ^ 6
      = H ^ 6 * (Y ^ 2 - X ^ 3 - b)
        + H ^ 3 * (((Y + R) ^ 2 - (X + H) ^ 3 - b) - (Y ^ 2 - X ^ 3 - b)) * (x3 H R X - X * H ^ 2)"
    unfolding x3_def by (simp add: algebra_simps eval_nat_numeral)
  also have "\<dots> = 0" using assms(2,3) by simp
  finally show ?thesis by (simp add: algebra_simps)
qed

theorem jac_double_on_curve:
  assumes "jac_canonical p" "jac_on_curve p"
  shows "jac_on_curve (jac_double p)"
proof (cases "jac_is_infinity p \<or> is_zero (jy p)")
  case True
  then show ?thesis by (simp add: jac_double_def jac_canonical_infinity)
next
  case False
  then have nz: "\<not> jac_is_infinity p" "\<not> is_zero (jy p)" by auto
  have "emb (jy p) ^ 2 = emb (jx p) ^ 3 + 3 * emb (jz p) ^ 6" using assms(2) by (simp add: jac_on_curve_def)
  from double_identity [OF this] show ?thesis
    unfolding jac_on_curve_def jac_double_coords [OF assms(1) nz] by (simp add: power_mult_distrib algebra_simps)
qed

text \<open>The two terms that mixed addition compares vanish together with the differences of the
  scaled coordinates.\<close>

lemma add_affine_h:
  assumes "jac_canonical p"
  shows "is_zero (fq_sub (fq_mul px (fq_square (jz p))) (jx p)) \<longleftrightarrow> emb px * emb (jz p) ^ 2 - emb (jx p) = 0"
  using assms emb_zero_iff [of "fq_sub (fq_mul px (fq_square (jz p))) (jx p)"]
  by (simp add: jac_canonical_def emb_simps power2_eq_square)

theorem add_affine_on_curve:
  assumes "jac_canonical p" "jac_on_curve p" "canonical px" "canonical py" "on_curve px py"
  shows "jac_on_curve (add_affine p px py)"
proof -
  define X Y Z where "X = emb (jx p)" and "Y = emb (jy p)" and "Z = emb (jz p)"
  define H R where "H = emb px * Z ^ 2 - X" and "R = emb py * Z ^ 3 - Y"
  have aff: "jac_on_curve (from_affine px py)"
    using assms(5) by (simp add: from_affine_def jac_canonical_infinity) (simp add: jac_on_curve_def on_curve_def)
  have h: "is_zero (fq_sub (fq_mul px (fq_square (jz p))) (jx p)) \<longleftrightarrow> H = 0"
    using add_affine_h [OF assms(1)] by (simp add: H_def X_def Z_def)
  consider "is_zero px \<and> is_zero py" | "\<not> (is_zero px \<and> is_zero py)" "jac_is_infinity p"
    | "\<not> (is_zero px \<and> is_zero py)" "\<not> jac_is_infinity p" "H = 0"
    | "\<not> (is_zero px \<and> is_zero py)" "\<not> jac_is_infinity p" "H \<noteq> 0" by blast
  then show ?thesis
  proof cases
    case 1
    then show ?thesis using assms(2) by (simp add: add_affine_def jac_on_curve_def)
  next
    case 2
    then show ?thesis using aff by (auto simp: add_affine_def)
  next
    case 3
    then show ?thesis using h jac_double_on_curve [OF assms(1,2)] jac_canonical_infinity(2)
      by (auto simp: add_affine_def Let_def)
  next
    case 4
    have e1: "Y ^ 2 = X ^ 3 + 3 * Z ^ 6" using assms(2) by (simp add: jac_on_curve_def X_def Y_def Z_def)
    have "(Y + R) ^ 2 = emb py ^ 2 * Z ^ 6" by (simp add: R_def power_mult_distrib flip: power_mult)
    also have "\<dots> = (X + H) ^ 3 + 3 * Z ^ 6"
      using assms(5) by (simp add: on_curve_def H_def power_mult_distrib distrib_right flip: power_mult)
    finally have e2: "(Y + R) ^ 2 = (X + H) ^ 3 + 3 * Z ^ 6" .
    note c = add_affine_coords [OF assms(1) 4(2) assms(3,4) 4(1), folded X_def Y_def Z_def, OF H_def R_def 4(3)]
    show ?thesis using chord_identity [OF e1 e2] unfolding jac_on_curve_def c
      by (simp add: power_mult_distrib algebra_simps)
  qed
qed

section \<open>The chord-and-tangent law\<close>

text \<open>The Jacobian triple stands for the affine point \<open>(x, y)\<close>.\<close>

definition represents :: "JacPoint \<Rightarrow> zq \<Rightarrow> zq \<Rightarrow> bool" where
  "represents p x y \<longleftrightarrow> emb (jx p) = x * emb (jz p) ^ 2 \<and> emb (jy p) = y * emb (jz p) ^ 3"

theorem jac_double_tangent:
  assumes "jac_canonical p" "\<not> jac_is_infinity p" "\<not> is_zero (jy p)" "represents p x y"
    and slope: "l * (2 * y) = 3 * x ^ 2"
  shows "represents (jac_double p) (l ^ 2 - 2 * x) (l * (x - (l ^ 2 - 2 * x)) - y)"
proof -
  define Z where "Z = emb (jz p)"
  have X: "emb (jx p) = x * Z ^ 2" and Y: "emb (jy p) = y * Z ^ 3" using assms(4) by (simp_all add: represents_def Z_def)
  note c = jac_double_coords [OF assms(1-3)]
  have sx: "9 * x ^ 4 = (l * (2 * y)) ^ 2" unfolding slope by (simp add: power_mult_distrib flip: power_mult)
  have z: "emb (jz (jac_double p)) = 2 * y * Z ^ 4" by (simp add: c(3) Y flip: Z_def) (simp add: algebra_simps eval_nat_numeral)
  have "emb (jx (jac_double p)) = (9 * x ^ 4 - 8 * x * y ^ 2) * Z ^ 8"
    unfolding c(1) X Y by (simp add: algebra_simps eval_nat_numeral)
  also have "\<dots> = (l ^ 2 - 2 * x) * emb (jz (jac_double p)) ^ 2"
    unfolding sx z by (simp add: algebra_simps eval_nat_numeral)
  finally have x': "emb (jx (jac_double p)) = (l ^ 2 - 2 * x) * emb (jz (jac_double p)) ^ 2" .
  have "emb (jy (jac_double p)) = (3 * x ^ 2 * (12 * x * y ^ 2 - 9 * x ^ 4) - 8 * y ^ 4) * Z ^ 12"
    unfolding c(2) X Y by (simp add: algebra_simps eval_nat_numeral)
  also have "\<dots> = (l * (x - (l ^ 2 - 2 * x)) - y) * emb (jz (jac_double p)) ^ 3"
    unfolding sx z slope [symmetric] by (simp add: algebra_simps eval_nat_numeral)
  finally show ?thesis using x' by (simp add: represents_def)
qed

theorem add_affine_chord:
  assumes "jac_canonical p" "\<not> jac_is_infinity p" "represents p x y"
    and "canonical px" "canonical py" "\<not> (is_zero px \<and> is_zero py)"
    and "emb px * emb (jz p) ^ 2 - emb (jx p) \<noteq> 0"
    and slope: "l * (emb px - x) = emb py - y"
  shows "represents (add_affine p px py) (l ^ 2 - x - emb px) (l * (x - (l ^ 2 - x - emb px)) - y)"
proof -
  define Z where "Z = emb (jz p)"
  have X: "emb (jx p) = x * Z ^ 2" and Y: "emb (jy p) = y * Z ^ 3" using assms(3) by (simp_all add: represents_def Z_def)
  define u where "u = emb px - x"
  note c = add_affine_coords [OF assms(1,2,4-6) refl refl assms(7)]
  have H: "emb px * emb (jz p) ^ 2 - emb (jx p) = u * Z ^ 2" by (simp add: X u_def algebra_simps flip: Z_def)
  have R: "emb py * emb (jz p) ^ 3 - emb (jy p) = l * u * Z ^ 3"
    unfolding Y Z_def [symmetric] u_def slope by (simp add: algebra_simps)
  have px: "emb px = x + u" by (simp add: u_def)
  show ?thesis
    unfolding represents_def c H R unfolding px X Y Z_def [symmetric]
    by (simp add: algebra_simps eval_nat_numeral)
qed

section \<open>Scalar multiplication\<close>

text \<open>Left-to-right double-and-add, by recursion on the scalar.\<close>

fun smul :: "fq \<Rightarrow> fq \<Rightarrow> nat \<Rightarrow> JacPoint" where
  "smul px py n =
     (if n = 0 then jac_infinity else if n = 1 then from_affine px py
      else let d = jac_double (smul px py (n div 2)) in if odd n then add_affine d px py else d)"

declare smul.simps [simp del]

definition mul_state :: "fq \<Rightarrow> fq \<Rightarrow> nat \<Rightarrow> JacPoint \<times> bool" where
  "mul_state px py n = (smul px py n, n \<noteq> 0)"

lemma drop_bit_odd: "drop_bit j w AND 1 = 1 \<longleftrightarrow> odd (unat (w :: u64) div 2 ^ j)"
  by (simp add: and_one_eq mod_2_eq_odd even_iff_unat unat_drop_bit)

lemma mul_bit_step:
  assumes "odd (unat w div 2 ^ j) \<longleftrightarrow> odd n"
  shows "mul_bit px py w j (mul_state px py (n div 2)) = mul_state px py n"
  using assms by (cases "n \<le> 1")
    (auto simp: mul_bit_def mul_state_def drop_bit_odd smul.simps [of px py n] smul.simps [of px py 0] Let_def le_Suc_eq)

lemma mul_limb_step:
  assumes "N div 2 ^ 64 = H" "N mod 2 ^ 64 = unat (limb s i)"
  shows "mul_limb px py s i (mul_state px py H) = mul_state px py N"
proof -
  let ?P = "\<lambda>j st. st = mul_state px py (N div 2 ^ j)"
  have "?P 0 (fold (mul_bit px py (limb s i)) (rev [0..<64]) (mul_state px py H))"
  proof (rule fold_rev_range_invariant [where P = ?P])
    show "?P 64 (mul_state px py H)" by (simp only: assms(1))
  next
    fix j st assume j: "j < 64" and st: "?P (Suc j) st"
    have "N = N div 2 ^ 64 * 2 ^ 64 + N mod 2 ^ 64" by simp
    then have "N = N div 2 ^ 64 * 2 ^ 64 + unat (limb s i)" by (simp only: assms(2))
    moreover have "(2 :: nat) ^ 64 = 2 * 2 ^ (63 - j) * 2 ^ j" using j by (simp flip: power_Suc power_add)
    ultimately have "N = (N div 2 ^ 64 * 2 ^ (63 - j) * 2) * 2 ^ j + unat (limb s i)" by (metis mult.assoc mult.commute)
    then have "N div 2 ^ j = ((N div 2 ^ 64 * 2 ^ (63 - j) * 2) * 2 ^ j + unat (limb s i)) div 2 ^ j" by simp
    also have "\<dots> = N div 2 ^ 64 * 2 ^ (63 - j) * 2 + unat (limb s i) div 2 ^ j"
      by (rule div_mult_self3) simp
    finally have "odd (unat (limb s i) div 2 ^ j) \<longleftrightarrow> odd (N div 2 ^ j)" by simp
    from mul_bit_step [OF this, of px py] show "?P j (mul_bit px py (limb s i) j st)"
      by (simp add: st div_mult2_eq [symmetric] mult.commute)
  qed
  then show ?thesis by (simp add: mul_limb_def)
qed

theorem jac_mul_smul: "jac_mul px py s = smul px py (uval s)"
proof -
  let ?P = "\<lambda>i st. st = mul_state px py (uval s div 2 ^ (64 * i))"
  have "?P 0 (fold (mul_limb px py s) (rev [0..<4]) (jac_infinity, False))"
  proof (rule fold_rev_range_invariant [where P = ?P])
    have "uval s div 2 ^ 256 = 0" using uval_less [of s] by simp
    then show "?P 4 (jac_infinity, False)" by (simp add: mul_state_def smul.simps [of _ _ 0])
  next
    fix i st assume i: "i < 4" and st: "?P (Suc i) st"
    have "uval s = lval (take i (limbs s)) + 2 ^ (64 * i) * lval (drop i (limbs s))"
      using i lval_append [of "take i (limbs s)" "drop i (limbs s)"] by (simp add: uval_def)
    moreover have "lval (take i (limbs s)) < 2 ^ (64 * i)" using i lval_less [of "take i (limbs s)"] by simp
    ultimately have d: "uval s div 2 ^ (64 * i) = lval (drop i (limbs s))" by simp
    have "drop i (limbs s) = limb s i # drop (Suc i) (limbs s)"
      using i by (simp add: limb_def Cons_nth_drop_Suc)
    then have "uval s div 2 ^ (64 * i) mod 2 ^ 64 = unat (limb s i)"
      unfolding d using unat_u64_less [of "limb s i"] by simp
    from mul_limb_step [OF refl this, of px py] show "?P i (mul_limb px py s i st)"
      by (simp add: st div_mult2_eq [symmetric] power_add mult.commute)
  qed
  then show ?thesis by (simp add: jac_mul_def mul_state_def)
qed

lemma smul_on_curve:
  assumes "canonical px" "canonical py" "on_curve px py"
  shows "jac_canonical (smul px py n) \<and> jac_on_curve (smul px py n)"
proof (induction n rule: less_induct)
  case (less n)
  have base: "jac_canonical (from_affine px py)" "jac_on_curve (from_affine px py)"
    using assms jac_canonical_from_affine by (simp_all add: from_affine_def jac_canonical_infinity)
      (simp add: jac_on_curve_def on_curve_def)
  show ?case
  proof (cases "n \<le> 1")
    case True
    then show ?thesis using base jac_canonical_infinity by (auto simp: smul.simps [of px py n] le_Suc_eq)
  next
    case False
    then have IH: "jac_canonical (smul px py (n div 2))" "jac_on_curve (smul px py (n div 2))"
      using less.IH [of "n div 2"] by simp_all
    have d: "jac_canonical (jac_double (smul px py (n div 2)))" "jac_on_curve (jac_double (smul px py (n div 2)))"
      using IH by (simp_all add: jac_canonical_double jac_double_on_curve)
    then show ?thesis using False assms
      by (simp add: smul.simps [of px py n] Let_def jac_canonical_add_affine add_affine_on_curve)
  qed
qed

section \<open>Affine results\<close>

lemma Rep_of_nat: "Rep_zq (of_nat n) = int n mod int (uval FQ_MOD)"
  by (induction n) (simp_all add: zero_zq.rep_eq plus_zq.rep_eq one_zq.rep_eq mod_simps)

lemma of_nat_mod_q: "(of_nat (n mod uval FQ_MOD) :: zq) = of_nat n"
  by (simp add: Rep_of_nat zmod_int flip: Rep_zq_inject)

lemma emb_of_nat: "emb a = of_nat (uval a)"
  by (simp add: Rep_of_nat emb.rep_eq flip: Rep_zq_inject)

lemma emb_inv: "emb (fq_inv a) = emb a ^ (uval FQ_MOD - 2)"
  by (simp add: fq_inv_def emb_of_nat fq.uval_field_inv of_nat_mod_q)

lemma canonical_to_affine: "canonical (fst (to_affine p))" "canonical (snd (to_affine p))"
  by (simp_all add: to_affine_def Let_def)

lemma emb_to_affine:
  assumes "\<not> jac_is_infinity p"
  shows "emb (fst (to_affine p)) = emb (jx p) * emb (fq_inv (jz p)) ^ 2"
    and "emb (snd (to_affine p)) = emb (jy p) * emb (fq_inv (jz p)) ^ 3"
  using assms by (simp_all add: to_affine_def Let_def emb_simps power2_eq_square power3_eq_cube)

theorem to_affine_represents:
  assumes "\<not> jac_is_infinity p" "emb (jz p) * emb (fq_inv (jz p)) = 1" "represents p x y"
  shows "emb (fst (to_affine p)) = x" and "emb (snd (to_affine p)) = y"
proof -
  have "x * emb (jz p) ^ 2 * emb (fq_inv (jz p)) ^ 2 = x * (emb (jz p) * emb (fq_inv (jz p))) ^ 2"
    "y * emb (jz p) ^ 3 * emb (fq_inv (jz p)) ^ 3 = y * (emb (jz p) * emb (fq_inv (jz p))) ^ 3"
    by (simp_all add: power_mult_distrib mult.assoc)
  then show "emb (fst (to_affine p)) = x" and "emb (snd (to_affine p)) = y"
    using assms by (simp_all add: emb_to_affine represents_def)
qed

definition pt_canonical :: "G1Point \<Rightarrow> bool" where
  "pt_canonical p \<longleftrightarrow> canonical (pt_x p) \<and> canonical (pt_y p)"

lemma odd_q: "odd (uval FQ_MOD - 2)"
  by (simp add: uval_FQ_MOD)

lemma add_affine_affine:
  assumes "canonical x1" "canonical y1" "canonical x2" "canonical y2"
    and "\<not> (is_zero x1 \<and> is_zero y1)" "\<not> (is_zero x2 \<and> is_zero y2)"
  shows "emb x1 = emb x2 \<Longrightarrow> emb y1 \<noteq> emb y2 \<Longrightarrow> add_affine (from_affine x1 y1) x2 y2 = jac_infinity"
    and "emb x1 \<noteq> emb x2 \<Longrightarrow> \<not> jac_is_infinity (add_affine (from_affine x1 y1) x2 y2)"
proof -
  let ?J = "from_affine x1 y1"
  have J: "jac_canonical ?J" "\<not> jac_is_infinity ?J" "jx ?J = x1" "jy ?J = y1" "jz ?J = u256_ONE"
    using assms by (auto simp: jac_canonical_from_affine) (auto simp: from_affine_def jac_is_infinity_def is_zero_iff)
  have h: "emb (fq_sub (fq_mul x2 (fq_square u256_ONE)) x1) = emb x2 - emb x1"
    and r: "emb (fq_sub (fq_mul (fq_mul y2 u256_ONE) (fq_square u256_ONE)) y1) = emb y2 - emb y1"
    using assms by (simp_all add: emb_simps)
  have hz: "is_zero (fq_sub (fq_mul x2 (fq_square u256_ONE)) x1) \<longleftrightarrow> emb x2 - emb x1 = 0"
    and rz: "is_zero (fq_sub (fq_mul (fq_mul y2 u256_ONE) (fq_square u256_ONE)) y1) \<longleftrightarrow> emb y2 - emb y1 = 0"
    using assms by (simp_all only: h [symmetric] r [symmetric], simp_all add: emb_zero_iff)
  show "emb x1 = emb x2 \<Longrightarrow> emb y1 \<noteq> emb y2 \<Longrightarrow> add_affine ?J x2 y2 = jac_infinity"
    using J assms(6) hz rz by (auto simp: add_affine_def Let_def)
  assume ne: "emb x1 \<noteq> emb x2"
  have "emb (jz (add_affine ?J x2 y2)) = emb x2 - emb x1"
    using add_affine_coords(3) [OF J(1,2) assms(3,4,6) refl refl] ne by (simp add: J)
  then show "\<not> jac_is_infinity (add_affine ?J x2 y2)"
    using ne emb_zero_iff [of "jz (add_affine ?J x2 y2)"] jac_canonical_add_affine [OF J(1) assms(3,4)]
    by (simp add: jac_is_infinity_def jac_canonical_def)
qed

lemma emb_inv_neg: "emb a = - emb b \<Longrightarrow> emb (fq_inv a) = - emb (fq_inv b)"
  using odd_q by (simp add: emb_inv power_minus_odd)

lemma add_affine_commute:
  assumes "canonical x1" "canonical y1" "canonical x2" "canonical y2"
    and "\<not> (is_zero x1 \<and> is_zero y1)" "\<not> (is_zero x2 \<and> is_zero y2)"
  shows "to_affine (add_affine (from_affine x1 y1) x2 y2) = to_affine (add_affine (from_affine x2 y2) x1 y1)"
proof -
  let ?A = "add_affine (from_affine x1 y1) x2 y2" and ?B = "add_affine (from_affine x2 y2) x1 y1"
  note swap = assms(3,4,1,2,6,5)
  consider "x1 = x2 \<and> y1 = y2" | "emb x1 = emb x2" "emb y1 \<noteq> emb y2" | "emb x1 \<noteq> emb x2"
    using assms emb_inject by blast
  then show ?thesis
  proof cases
    case 1
    then show ?thesis by simp
  next
    case 2
    then show ?thesis using add_affine_affine(1) [OF assms] add_affine_affine(1) [OF swap] by simp
  next
    case 3
    note inf = add_affine_affine(2) [OF assms 3] add_affine_affine(2) [OF swap 3 [symmetric]]
    have J: "jac_canonical (from_affine x1 y1)" "\<not> jac_is_infinity (from_affine x1 y1)" "jx (from_affine x1 y1) = x1"
      "jy (from_affine x1 y1) = y1" "jz (from_affine x1 y1) = u256_ONE"
      "jac_canonical (from_affine x2 y2)" "\<not> jac_is_infinity (from_affine x2 y2)" "jx (from_affine x2 y2) = x2"
      "jy (from_affine x2 y2) = y2" "jz (from_affine x2 y2) = u256_ONE"
      using assms by (auto simp: jac_canonical_from_affine) (auto simp: from_affine_def jac_is_infinity_def is_zero_iff)
    have ne: "emb x2 * emb u256_ONE ^ 2 - emb x1 \<noteq> 0" "emb x1 * emb u256_ONE ^ 2 - emb x2 \<noteq> 0" using 3 by simp_all
    note cA = add_affine_coords [OF J(1,2) assms(3,4,6) refl refl, unfolded J, OF ne(1)]
      and cB = add_affine_coords [OF J(6,7) assms(1,2,5) refl refl, unfolded J, OF ne(2)]
    have z: "emb (jz ?A) = - emb (jz ?B)" unfolding cA cB by simp
    have x: "emb (jx ?A) = emb (jx ?B)" unfolding cA cB by (simp add: algebra_simps eval_nat_numeral)
    have y: "emb (jy ?A) = - emb (jy ?B)" unfolding cA cB by (simp add: algebra_simps eval_nat_numeral)
    have "emb (fst (to_affine ?A)) = emb (fst (to_affine ?B))" "emb (snd (to_affine ?A)) = emb (snd (to_affine ?B))"
      using inf by (simp_all add: emb_to_affine x y emb_inv_neg [OF z])
    then show ?thesis by (simp add: emb_inject canonical_to_affine prod_eq_iff)
  qed
qed

lemma pt_add_commute: "pt_canonical p1 \<Longrightarrow> pt_canonical p2 \<Longrightarrow> pt_add p1 p2 = pt_add p2 p1"
proof -
  assume c: "pt_canonical p1" "pt_canonical p2"
  show ?thesis
  proof (cases "is_infinity p1 \<or> is_infinity p2")
    case True
    then show ?thesis by (cases p1; cases p2) (auto simp: pt_add_def is_infinity_def is_zero_eq)
  next
    case False
    then show ?thesis
      using c add_affine_commute [of "pt_x p1" "pt_y p1" "pt_x p2" "pt_y p2"]
      by (simp add: pt_add_def pt_canonical_def) (simp add: is_infinity_def)
  qed
qed

lemma pt_add_negate:
  assumes "pt_canonical p" "\<not> is_infinity p" "\<not> is_zero (pt_y p)"
  shows "pt_add p (negate p) = INFINITY"
proof -
  let ?y = "sub_no_mod FQ_MOD (pt_y p)"
  have v: "uval ?y = uval FQ_MOD - uval (pt_y p)" using assms(1) by (simp add: uval_sub_no_mod_le pt_canonical_def)
  have y: "canonical ?y" "\<not> is_zero ?y" using assms by (simp_all add: v is_zero_iff pt_canonical_def)
  have "uval (pt_y p) \<noteq> uval ?y" using assms(1) by (simp add: v pt_canonical_def uval_FQ_MOD) presburger
  then have ne: "emb (pt_y p) \<noteq> emb ?y" using y(1) assms(1) emb_inject [of "pt_y p" ?y] by (auto simp: pt_canonical_def)
  have "add_affine (from_affine (pt_x p) (pt_y p)) (pt_x p) ?y = jac_infinity"
    using assms y ne by (intro add_affine_affine(1)) (simp_all add: pt_canonical_def)
  then show ?thesis using assms y
    by (simp add: pt_add_def negate_def pt_canonical_def is_infinity_def [of "\<lparr>pt_x = _, pt_y = _\<rparr>"])
      (simp add: to_affine_def jac_is_infinity_def jac_infinity_def is_zero_iff pt_of_def INFINITY_def)
qed

lemma pt_canonical_add: "pt_canonical p1 \<Longrightarrow> pt_canonical p2 \<Longrightarrow> pt_canonical (pt_add p1 p2)"
  by (simp add: pt_add_def pt_of_def pt_canonical_def canonical_to_affine)

lemma pt_canonical_mul: "pt_canonical (pt_mul p s)"
  by (simp add: pt_mul_def pt_of_def pt_canonical_def canonical_to_affine INFINITY_def)

end
