(* ===== verification/Sumcheck.thy ===== *)
theory Sumcheck
  imports Transcript Curve
begin

text \<open>
  Committed sumcheck (\<open>crates/zkml-verifier/src/sumcheck.rs\<close>): the full verification, the hybrid one that
  replays the transcript and leaves the group operations to another verifier, the proof of dot product
  (PODP) and the proof of product.

  A function of the source that takes \<open>sponge: &mut PoseidonSponge\<close> returns the updated sponge here.
\<close>

section \<open>Definitions\<close>

record CommittedSumcheckProof =
  sc_sum :: G1Point
  sc_messages :: "G1Point list"
  sc_podp :: PODPProof

text \<open>The inner loop over \<open>d\<close> and the outer loop over \<open>i\<close> of \<open>compute_j_star\<close>. The state of the inner
  loop is the vector and the running power of the binding.\<close>

definition j_star_entry ::
  "u256 \<Rightarrow> u256 \<Rightarrow> u256 \<Rightarrow> fr \<Rightarrow> nat \<Rightarrow> nat \<Rightarrow> nat \<Rightarrow> u256 list \<times> fr \<Rightarrow> u256 list \<times> fr" where
  "j_star_entry rho rho_next binding gamma_inv degree_plus_one i d s =
     (let (j_star, binding_power) = s;
          coeff = (if d = 0 then 2 else 1);
          term1 = fr_mul rho (from_u64 coeff);
          term2 = fr_mul rho_next binding_power;
          diff = fr_sub term1 term2
      in (j_star[i * degree_plus_one + d := fr_mul gamma_inv diff], fr_mul binding_power binding))"

definition j_star_row ::
  "u256 list \<Rightarrow> u256 list \<Rightarrow> u256 list \<Rightarrow> nat \<Rightarrow> nat \<Rightarrow> u256 list \<Rightarrow> u256 list res" where
  "j_star_row rhos gammas bindings degree_plus_one i j_star =
     rbind (idx gammas i) (\<lambda>gamma. let gamma_inv = fr_inv gamma in
     rbind (idx rhos i) (\<lambda>rho. rbind (idx rhos (i + 1)) (\<lambda>rho_next. rbind (idx bindings i) (\<lambda>binding.
     Inr (fst (fold (j_star_entry rho rho_next binding gamma_inv degree_plus_one i)
                 [0..<degree_plus_one] (j_star, u256_ONE)))))))"

definition compute_j_star ::
  "u256 list \<Rightarrow> u256 list \<Rightarrow> u256 list \<Rightarrow> nat \<Rightarrow> nat \<Rightarrow> u256 list res" where
  "compute_j_star rhos gammas bindings degree n =
     (let degree_plus_one = degree + 1
      in rfold (j_star_row rhos gammas bindings degree_plus_one) [0..<n]
           (replicate (degree_plus_one * n) u256_ZERO))"

definition compute_dot_product :: "G1Point \<Rightarrow> G1Point \<Rightarrow> u256 \<Rightarrow> u256 \<Rightarrow> G1Point res" where
  "compute_dot_product sum_pt oracle_eval rho0 rho_n =
     rbind (ec_mul sum_pt rho0) (\<lambda>term1.
     let neg_rho_n = fr_neg rho_n
     in rbind (ec_mul oracle_eval neg_rho_n) (\<lambda>term2. ec_add term1 term2))"

definition verify_podp ::
  "PODPProof \<Rightarrow> u256 \<Rightarrow> G1Point \<Rightarrow> G1Point \<Rightarrow> u256 list \<Rightarrow> PedersenGens \<Rightarrow> bool res" where
  "verify_podp podp c com_x com_y a_vector gens =
     rbind (rassert (length (z_vector podp) = length a_vector)
              ''assertion failed: podp.z_vector.len() == a_vector.len()'') (\<lambda>_.
     rbind (rassert (length (z_vector podp) \<le> length (message_gens gens))
              ''assertion failed: podp.z_vector.len() <= gens.message_gens.len()'') (\<lambda>_.
     rbind (inner_product (z_vector podp) a_vector) (\<lambda>z_dot_a.
     rbind (msm_with_truncated_gens (message_gens gens) (z_vector podp)) (\<lambda>msm_result.
     rbind (ec_mul (blinding_gen gens) (z_delta podp)) (\<lambda>z_delta_h.
     rbind (ec_add msm_result z_delta_h) (\<lambda>com_z.
     rbind (ec_mul (scalar_gen gens) z_dot_a) (\<lambda>z_dot_a_g.
     rbind (ec_mul (blinding_gen gens) (z_beta podp)) (\<lambda>z_beta_h.
     rbind (ec_add z_dot_a_g z_beta_h) (\<lambda>com_z_dot_a.
     rbind (ec_mul com_x c) (\<lambda>cx. rbind (ec_add cx (commit_d podp)) (\<lambda>lhs1.
     if lhs1 \<noteq> com_z then Inr False
     else rbind (ec_mul com_y c) (\<lambda>cy. rbind (ec_add cy (commit_d_dot_a podp)) (\<lambda>lhs2.
     if lhs2 \<noteq> com_z_dot_a then Inr False else Inr True)))))))))))))"

definition verify_podp_with_transcript ::
  "PODPProof \<Rightarrow> G1Point \<Rightarrow> G1Point \<Rightarrow> u256 list \<Rightarrow> PedersenGens \<Rightarrow> PoseidonSponge \<Rightarrow> (bool \<times> PoseidonSponge) res" where
  "verify_podp_with_transcript podp com_x com_y a_vector gens sponge =
     (let sponge = absorb_u256 (pt_x (commit_d podp)) sponge;
          sponge = absorb_u256 (pt_y (commit_d podp)) sponge;
          sponge = absorb_u256 (pt_x (commit_d_dot_a podp)) sponge;
          sponge = absorb_u256 (pt_y (commit_d_dot_a podp)) sponge;
          (c, sponge) = challenge sponge;
          sponge = absorb_all (z_vector podp) sponge;
          sponge = absorb_u256 (z_delta podp) sponge;
          sponge = absorb_u256 (z_beta podp) sponge
      in rbind (verify_podp podp c com_x com_y a_vector gens) (\<lambda>b. Inr (b, sponge)))"

definition sumcheck_verify ::
  "CommittedSumcheckProof \<Rightarrow> G1Point \<Rightarrow> nat \<Rightarrow> u256 list \<Rightarrow> PedersenGens \<Rightarrow> PoseidonSponge
     \<Rightarrow> (bool \<times> PoseidonSponge) res" where
  "sumcheck_verify proof oracle_eval degree bindings gens sponge =
     (let n = length (sc_messages proof)
      in rbind (rassert (length bindings = n) ''bindings length mismatch'') (\<lambda>_.
         let (rhos, sponge) = times (n + 1) challenge sponge;
             (gammas, sponge) = times n challenge sponge
         in rbind (multi_scalar_mul (sc_messages proof) gammas) (\<lambda>alpha.
            rbind (compute_j_star rhos gammas bindings degree n) (\<lambda>j_star.
            rbind (idx rhos 0) (\<lambda>rho0. rbind (idx rhos n) (\<lambda>rho_n.
            rbind (compute_dot_product (sc_sum proof) oracle_eval rho0 rho_n) (\<lambda>dot_product.
            verify_podp_with_transcript (sc_podp proof) alpha dot_product j_star gens sponge)))))))"

definition verify_podp_hybrid :: "PODPProof \<Rightarrow> u256 list \<Rightarrow> PoseidonSponge \<Rightarrow> (u256 \<times> PoseidonSponge) res" where
  "verify_podp_hybrid podp a_vector sponge =
     (let sponge = absorb_u256 (pt_x (commit_d podp)) sponge;
          sponge = absorb_u256 (pt_y (commit_d podp)) sponge;
          sponge = absorb_u256 (pt_x (commit_d_dot_a podp)) sponge;
          sponge = absorb_u256 (pt_y (commit_d_dot_a podp)) sponge;
          (_, sponge) = challenge sponge;
          sponge = absorb_all (z_vector podp) sponge;
          sponge = absorb_u256 (z_delta podp) sponge;
          sponge = absorb_u256 (z_beta podp) sponge
      in rbind (inner_product (z_vector podp) a_vector) (\<lambda>z. Inr (z, sponge)))"

definition sumcheck_verify_hybrid ::
  "CommittedSumcheckProof \<Rightarrow> nat \<Rightarrow> u256 list \<Rightarrow> PoseidonSponge \<Rightarrow> (u256 \<times> PoseidonSponge) res" where
  "sumcheck_verify_hybrid proof degree bindings sponge =
     (let n = length (sc_messages proof)
      in rbind (rassert (length bindings = n) ''bindings length mismatch'') (\<lambda>_.
         let (rhos, sponge) = times (n + 1) challenge sponge;
             (gammas, sponge) = times n challenge sponge
         in rbind (compute_j_star rhos gammas bindings degree n) (\<lambda>j_star.
            verify_podp_hybrid (sc_podp proof) j_star sponge)))"

definition verify_proof_of_product ::
  "ProofOfProduct \<Rightarrow> G1Point \<Rightarrow> G1Point \<Rightarrow> G1Point \<Rightarrow> PedersenGens \<Rightarrow> PoseidonSponge
     \<Rightarrow> (bool \<times> PoseidonSponge) res" where
  "verify_proof_of_product pop com_x com_y com_z gens sponge =
     (let sponge = absorb_u256 (pt_x (pop_alpha pop)) sponge;
          sponge = absorb_u256 (pt_y (pop_alpha pop)) sponge;
          sponge = absorb_u256 (pt_x (pop_beta pop)) sponge;
          sponge = absorb_u256 (pt_y (pop_beta pop)) sponge;
          sponge = absorb_u256 (pt_x (pop_delta pop)) sponge;
          sponge = absorb_u256 (pt_y (pop_delta pop)) sponge;
          (c, sponge) = challenge sponge;
          sponge = absorb_u256 (pop_z1 pop) sponge;
          sponge = absorb_u256 (pop_z2 pop) sponge;
          sponge = absorb_u256 (pop_z3 pop) sponge;
          sponge = absorb_u256 (pop_z4 pop) sponge;
          sponge = absorb_u256 (pop_z5 pop) sponge
      in rbind (ec_mul com_x c) (\<lambda>cx. rbind (ec_add (pop_alpha pop) cx) (\<lambda>lhs1.
         rbind (ec_mul (scalar_gen gens) (pop_z1 pop)) (\<lambda>g1. rbind (ec_mul (blinding_gen gens) (pop_z2 pop)) (\<lambda>h2.
         rbind (ec_add g1 h2) (\<lambda>rhs1.
         if lhs1 \<noteq> rhs1 then Inr (False, sponge)
         else rbind (ec_mul com_y c) (\<lambda>cy. rbind (ec_add (pop_beta pop) cy) (\<lambda>lhs2.
         rbind (ec_mul (scalar_gen gens) (pop_z3 pop)) (\<lambda>g3. rbind (ec_mul (blinding_gen gens) (pop_z4 pop)) (\<lambda>h4.
         rbind (ec_add g3 h4) (\<lambda>rhs2.
         if lhs2 \<noteq> rhs2 then Inr (False, sponge)
         else rbind (ec_mul com_z c) (\<lambda>cz. rbind (ec_add (pop_delta pop) cz) (\<lambda>lhs3.
         rbind (ec_mul com_x (pop_z3 pop)) (\<lambda>x3. rbind (ec_mul (blinding_gen gens) (pop_z5 pop)) (\<lambda>h5.
         rbind (ec_add x3 h5) (\<lambda>rhs3.
         if lhs3 \<noteq> rhs3 then Inr (False, sponge) else Inr (True, sponge)))))))))))))))))"

section \<open>The vector \<open>j_star\<close>\<close>

text \<open>What the documentation comment of \<open>compute_j_star\<close> says of an entry, modulo the scalar field
  characteristic.\<close>

definition j_star_value :: "u256 list \<Rightarrow> u256 list \<Rightarrow> u256 list \<Rightarrow> nat \<Rightarrow> nat \<Rightarrow> int" where
  "j_star_value rhos gammas bindings i d =
     (int (uval (fr_inv (gammas ! i)))
        * ((if d = 0 then 2 else 1) * int (uval (rhos ! i)) - int (uval (rhos ! (i + 1))) * int (uval (bindings ! i)) ^ d))
     mod int (uval FR_MOD)"

lemma uval_from_u64: "uval (from_u64 c) = unat c"
  by (simp add: from_u64_def uval_U256)

lemma fr_mul_sub_int:
  assumes "int (uval y) = int Y mod int (uval FR_MOD)"
  shows "int (uval (fr_mul g (fr_sub (fr_mul a c) (fr_mul b y))))
    = (int (uval g) * (int (uval a) * int (uval c) - int (uval b) * int Y)) mod int (uval FR_MOD)"
proof -
  let ?r = "int (uval FR_MOD)"
  have "int (uval (fr_sub (fr_mul a c) (fr_mul b y))) = (int (uval a) * int (uval c) - int (uval b) * int (uval y)) mod ?r"
    by (simp add: Fr.sub_reduced Fr.mul_less) (simp add: Fr.mul_mod zmod_int mod_simps)
  then show ?thesis
    by (simp add: Fr.mul_mod zmod_int assms) (metis (no_types, lifting) mod_diff_right_eq mod_mult_right_eq)
qed

lemma j_star_entry_fold:
  assumes "base + k \<le> length js" "base = i * w" "k \<le> w"
  shows "fold (j_star_entry rho rho' b g w i) [0..<k] (js, u256_ONE) = (js', pw) \<Longrightarrow>
     length js' = length js
   \<and> uval pw = uval b ^ k mod uval FR_MOD
   \<and> (\<forall>m < length js. \<not> (base \<le> m \<and> m < base + k) \<longrightarrow> js' ! m = js ! m)
   \<and> (\<forall>d < k. int (uval (js' ! (base + d)))
        = (int (uval g) * ((if d = 0 then 2 else 1) * int (uval rho) - int (uval rho') * int (uval b) ^ d)) mod int (uval FR_MOD))"
  using assms
proof (induction k arbitrary: js' pw)
  case 0
  then show ?case using Fr.p_gt_1 by simp
next
  case (Suc k)
  obtain js1 pw1 where f: "fold (j_star_entry rho rho' b g w i) [0..<k] (js, u256_ONE) = (js1, pw1)" by fastforce
  have IH: "length js1 = length js" "uval pw1 = uval b ^ k mod uval FR_MOD"
    "\<And>m. m < length js \<Longrightarrow> \<not> (base \<le> m \<and> m < base + k) \<Longrightarrow> js1 ! m = js ! m"
    "\<And>d. d < k \<Longrightarrow> int (uval (js1 ! (base + d)))
        = (int (uval g) * ((if d = 0 then 2 else 1) * int (uval rho) - int (uval rho') * int (uval b) ^ d)) mod int (uval FR_MOD)"
    using Suc.IH [OF f] Suc.prems by auto
  let ?v = "fr_mul g (fr_sub (fr_mul rho (from_u64 (if k = 0 then 2 else 1))) (fr_mul rho' pw1))"
  have "(js', pw) = j_star_entry rho rho' b g w i k (js1, pw1)" using Suc.prems(1) by (simp add: f)
  then have st: "js' = js1[base + k := ?v]" "pw = fr_mul pw1 b"
    unfolding j_star_entry_def Let_def Suc.prems(3) by simp_all
  have "int (uval pw1) = int (uval b ^ k) mod int (uval FR_MOD)" by (simp add: IH(2) zmod_int)
  from fr_mul_sub_int [OF this, of g rho "from_u64 (if k = 0 then 2 else 1)" rho']
  have v: "int (uval ?v)
      = (int (uval g) * ((if k = 0 then 2 else 1) * int (uval rho) - int (uval rho') * int (uval b) ^ k)) mod int (uval FR_MOD)"
    by (simp add: uval_from_u64 mult.commute)
  have "uval pw = uval b ^ Suc k mod uval FR_MOD"
    by (simp add: st(2) Fr.mul_mod IH(2) mod_simps mult.commute)
  moreover have "int (uval (js' ! (base + d)))
        = (int (uval g) * ((if d = 0 then 2 else 1) * int (uval rho) - int (uval rho') * int (uval b) ^ d)) mod int (uval FR_MOD)"
    if "d < Suc k" for d
    using that v IH(1) IH(4) [of d] Suc.prems(2) by (cases "d = k") (simp_all add: st(1))
  moreover have "js' ! m = js ! m" if "m < length js" "\<not> (base \<le> m \<and> m < base + Suc k)" for m
  proof -
    have "base + k \<noteq> m" "\<not> (base \<le> m \<and> m < base + k)" using that(2) by auto
    then show ?thesis using IH(3) [OF that(1)] unfolding st(1) by simp
  qed
  ultimately show ?case using IH(1) st(1) by simp
qed

lemma j_star_row_ok:
  assumes "i < length gammas" "Suc i < length rhos" "i < length bindings" "i * w + w \<le> length js"
  obtains js' where "j_star_row rhos gammas bindings w i js = Inr js'" "length js' = length js"
    "\<And>m. m < length js \<Longrightarrow> \<not> (i * w \<le> m \<and> m < i * w + w) \<Longrightarrow> js' ! m = js ! m"
    "\<And>d. d < w \<Longrightarrow> int (uval (js' ! (i * w + d))) = j_star_value rhos gammas bindings i d"
proof -
  obtain js' pw where f: "fold (j_star_entry (rhos ! i) (rhos ! Suc i) (bindings ! i) (fr_inv (gammas ! i)) w i) [0..<w]
      (js, u256_ONE) = (js', pw)" by fastforce
  from j_star_entry_fold [OF assms(4) refl order_refl f] show ?thesis
    using assms(1-3) f by (intro that [of js']) (auto simp: j_star_row_def res_simps j_star_value_def)
qed

theorem compute_j_star_ok:
  assumes "length gammas = n" "length rhos = n + 1" "length bindings = n"
  obtains js where "compute_j_star rhos gammas bindings degree n = Inr js" "length js = (degree + 1) * n"
    "\<And>i d. i < n \<Longrightarrow> d \<le> degree \<Longrightarrow>
       int (uval (js ! (i * (degree + 1) + d))) = j_star_value rhos gammas bindings i d"
proof -
  let ?w = "degree + 1"
  have "\<exists>js. rfold (j_star_row rhos gammas bindings ?w) [0..<k] (replicate (?w * n) u256_ZERO) = Inr js \<and> length js = ?w * n
     \<and> (\<forall>i < k. \<forall>d < ?w. int (uval (js ! (i * ?w + d))) = j_star_value rhos gammas bindings i d)" if "k \<le> n" for k
    using that
  proof (induction k)
    case 0
    then show ?case by simp
  next
    case (Suc k)
    then obtain js where js: "rfold (j_star_row rhos gammas bindings ?w) [0..<k] (replicate (?w * n) u256_ZERO) = Inr js"
      "length js = ?w * n" "\<forall>i < k. \<forall>d < ?w. int (uval (js ! (i * ?w + d))) = j_star_value rhos gammas bindings i d" by auto
    have fit: "k * ?w + ?w \<le> length js"
      using Suc.prems mult_le_mono1 [of "Suc k" n ?w] by (simp add: js(2) mult.commute)
    obtain js' where j': "j_star_row rhos gammas bindings ?w k js = Inr js'" "length js' = length js"
      "\<And>m. m < length js \<Longrightarrow> \<not> (k * ?w \<le> m \<and> m < k * ?w + ?w) \<Longrightarrow> js' ! m = js ! m"
      "\<And>d. d < ?w \<Longrightarrow> int (uval (js' ! (k * ?w + d))) = j_star_value rhos gammas bindings k d"
      using j_star_row_ok [of k gammas rhos bindings ?w js] fit Suc.prems assms by auto
    have old: "js' ! (i * ?w + d) = js ! (i * ?w + d)" if "i < k" "d < ?w" for i d
    proof (rule j'(3))
      have "i * ?w + ?w \<le> k * ?w" using that(1) mult_le_mono1 [of "Suc i" k ?w] by simp
      then show "i * ?w + d < length js" "\<not> (k * ?w \<le> i * ?w + d \<and> i * ?w + d < k * ?w + ?w)"
        using that(2) fit by linarith+
    qed
    have "int (uval (js' ! (i * ?w + d))) = j_star_value rhos gammas bindings i d" if "i < Suc k" "d < ?w" for i d
      using that old [of i d] js(3) j'(4) [of d] by (cases "i = k") auto
    then show ?case using js j' by (simp add: rfold_append)
  qed
  from this [of n] show ?thesis by (auto simp: compute_j_star_def Let_def intro!: that)
qed

lemma compute_j_star_total:
  assumes "length gammas = n" "length rhos = n + 1" "length bindings = n"
  shows "\<exists>js. compute_j_star rhos gammas bindings degree n = Inr js \<and> length js = (degree + 1) * n"
  using compute_j_star_ok [OF assms, of degree] by metis

section \<open>What the vector checks\<close>

text \<open>Round polynomials \<open>g\<^sub>i\<close> with the coefficients \<open>c i d\<close>. A sumcheck claims that \<open>g\<^sub>0(0) + g\<^sub>0(1)\<close> is the sum, that \<open>g\<^sub>i\<^sub>+\<^sub>1(0) + g\<^sub>i\<^sub>+\<^sub>1(1)\<close>
  is \<open>g\<^sub>i\<close> at the binding of round \<open>i\<close>, and that the last polynomial at the last binding is the final value. The defect of a round
  is by how much it fails.\<close>

definition round_poly :: "(nat \<Rightarrow> nat \<Rightarrow> int) \<Rightarrow> nat \<Rightarrow> nat \<Rightarrow> int \<Rightarrow> int" where
  "round_poly c degree i x = (\<Sum>d \<le> degree. c i d * x ^ d)"

definition round_defect :: "(nat \<Rightarrow> nat \<Rightarrow> int) \<Rightarrow> nat \<Rightarrow> u256 list \<Rightarrow> int \<Rightarrow> int \<Rightarrow> nat \<Rightarrow> int" where
  "round_defect c degree bindings sum_value final_value i =
     (if i < length bindings then round_poly c degree i 0 + round_poly c degree i 1 else final_value)
     - (if i = 0 then sum_value else round_poly c degree (i - 1) (int (uval (bindings ! (i - 1)))))"

lemma sum_mod_cong: "(\<And>x. x \<in> A \<Longrightarrow> f x mod m = g x mod (m :: int)) \<Longrightarrow> sum f A mod m = sum g A mod m"
  by (metis (mono_tags, lifting) mod_sum_eq sum.cong)

lemma mod_cancel_inverse:
  assumes "g * h mod m = (1 :: int)"
  shows "(g * c) mod m * (h * t mod m) mod m = c * t mod m"
proof -
  have "(g * c) mod m * (h * t mod m) mod m = (g * h) * (c * t) mod m" by (simp only: mod_mult_eq) (simp only: ac_simps)
  also have "\<dots> = (g * h mod m) * (c * t) mod m" by (simp only: mod_mult_left_eq)
  finally show ?thesis by (simp add: assms)
qed

lemma sum_blocks: "(\<Sum>k < w * n. f k) = (\<Sum>i < n. \<Sum>d < w. f (i * w + d))" for f :: "nat \<Rightarrow> 'a :: comm_monoid_add"
proof -
  have "(\<Sum>k < w * n. f k) = (\<Sum>i < n. sum f {i * w..<i * w + w})" using sum.nat_group [of f w n] by (simp add: mult.commute)
  also have "\<dots> = (\<Sum>i < n. \<Sum>d < w. f (i * w + d))"
  proof (rule sum.cong [OF refl])
    fix x
    show "sum f {x * w..<x * w + w} = (\<Sum>d < w. f (x * w + d))"
      using sum.shift_bounds_nat_ivl [of f 0 "x * w" w] by (simp add: atLeast0LessThan add.commute)
  qed
  finally show ?thesis .
qed

lemma sum_coeff_first: "(\<Sum>d \<le> n. (if d = 0 then 2 else 1) * a d) = a 0 + (\<Sum>d \<le> n. a d)" for a :: "nat \<Rightarrow> int"
  by (induction n) simp_all

text \<open>The inner products of all rounds are a telescoping sum.\<close>

lemma round_telescope:
  assumes "length bindings = n"
  shows "(\<Sum>i < n. rho i * (round_poly c degree i 0 + round_poly c degree i 1)
      - rho (Suc i) * round_poly c degree i (int (uval (bindings ! i)))) - (rho 0 * sum_value - rho n * final_value)
    = (\<Sum>i \<le> n. rho i * round_defect c degree bindings sum_value final_value i)"
proof -
  let ?e = "\<lambda>i. if i = 0 then sum_value else round_poly c degree (i - 1) (int (uval (bindings ! (i - 1))))"
  have "(\<Sum>i \<le> n. rho i * round_defect c degree bindings sum_value final_value i) =
      (\<Sum>i < n. rho i * (round_poly c degree i 0 + round_poly c degree i 1)) + rho n * final_value - (\<Sum>i \<le> n. rho i * ?e i)"
    using assms by (simp add: round_defect_def right_diff_distrib sum_subtractf lessThan_Suc_atMost [symmetric])
  moreover have "(\<Sum>i \<le> n. rho i * ?e i) = rho 0 * sum_value + (\<Sum>i < n. rho (Suc i) * round_poly c degree i (int (uval (bindings ! i))))"
    by (simp add: sum.atMost_shift)
  ultimately show ?thesis by (simp add: sum_subtractf)
qed

theorem j_star_checks_rounds:
  assumes "length gammas = n" "length rhos = n + 1" "length bindings = n"
    and inv: "\<forall>i < n. int (uval (gammas ! i)) * int (uval (fr_inv (gammas ! i))) mod int (uval FR_MOD) = 1"
  shows "\<exists>js. compute_j_star rhos gammas bindings degree n = Inr js
    \<and> (\<forall>xs c sum_value final_value. length xs = (degree + 1) * n
        \<and> (\<forall>i < n. \<forall>d \<le> degree. int (uval (xs ! (i * (degree + 1) + d))) mod int (uval FR_MOD) = int (uval (gammas ! i)) * c i d mod int (uval FR_MOD))
      \<longrightarrow> (\<exists>v. inner_product xs js = Inr v
        \<and> (int (uval v) - (int (uval (rhos ! 0)) * sum_value - int (uval (rhos ! n)) * final_value)) mod int (uval FR_MOD)
          = (\<Sum>i \<le> n. int (uval (rhos ! i)) * round_defect c degree bindings sum_value final_value i) mod int (uval FR_MOD)))"
proof -
  let ?R = "int (uval FR_MOD)" and ?w = "degree + 1"
  obtain js where js: "compute_j_star rhos gammas bindings degree n = Inr js" "length js = ?w * n"
    "\<And>i d. i < n \<Longrightarrow> d \<le> degree \<Longrightarrow> int (uval (js ! (i * ?w + d))) = j_star_value rhos gammas bindings i d"
    using compute_j_star_ok [OF assms(1-3), of degree] by metis
  have entry: "(int (uval (xs ! (i * ?w + d))) * int (uval (js ! (i * ?w + d)))) mod ?R =
      (c i d * ((if d = 0 then 2 else 1) * int (uval (rhos ! i)) - int (uval (rhos ! Suc i)) * int (uval (bindings ! i)) ^ d)) mod ?R"
    if x: "int (uval (xs ! (i * ?w + d))) mod ?R = int (uval (gammas ! i)) * c i d mod ?R" and id: "i < n" "d \<le> degree" for xs c i d
  proof -
    let ?g = "int (uval (gammas ! i))" and ?h = "int (uval (fr_inv (gammas ! i)))"
      and ?t = "(if d = 0 then 2 else 1) * int (uval (rhos ! i)) - int (uval (rhos ! Suc i)) * int (uval (bindings ! i)) ^ d"
    have J: "int (uval (js ! (i * ?w + d))) = ?h * ?t mod ?R" using js(3) [OF id] by (simp only: j_star_value_def Suc_eq_plus1)
    have "(int (uval (xs ! (i * ?w + d))) * int (uval (js ! (i * ?w + d)))) mod ?R = (?g * c i d) mod ?R * ((?h * ?t) mod ?R) mod ?R"
      unfolding J by (subst mod_mult_left_eq [symmetric]) (simp only: x)
    also have "\<dots> = c i d * ?t mod ?R" using inv id(1) by (intro mod_cancel_inverse) simp
    finally show ?thesis .
  qed
  have main: "\<exists>v. inner_product xs js = Inr v \<and> (int (uval v) - (int (uval (rhos ! 0)) * sum_value - int (uval (rhos ! n)) * final_value)) mod ?R
      = (\<Sum>i \<le> n. int (uval (rhos ! i)) * round_defect c degree bindings sum_value final_value i) mod ?R"
    if len: "length xs = ?w * n" and x: "\<And>i d. i < n \<Longrightarrow> d \<le> degree \<Longrightarrow> int (uval (xs ! (i * ?w + d))) mod ?R = int (uval (gammas ! i)) * c i d mod ?R"
    for xs c sum_value final_value
  proof -
    let ?rho = "\<lambda>i. int (uval (rhos ! i))" and ?b = "\<lambda>i. int (uval (bindings ! i))"
    have "int (uval (dot xs js)) = (\<Sum>k < ?w * n. int (uval (xs ! k)) * int (uval (js ! k))) mod ?R"
      using uval_dot [of xs js] len js(2) by (simp add: zmod_int)
    also have "\<dots> = (\<Sum>i < n. \<Sum>d \<le> degree. c i d * ((if d = 0 then 2 else 1) * ?rho i - ?rho (Suc i) * ?b i ^ d)) mod ?R"
    proof -
      have "(\<Sum>d < ?w. int (uval (xs ! (i * ?w + d))) * int (uval (js ! (i * ?w + d)))) mod ?R
          = (\<Sum>d < ?w. c i d * ((if d = 0 then 2 else 1) * ?rho i - ?rho (Suc i) * ?b i ^ d)) mod ?R" if "i < n" for i
        using that by (intro sum_mod_cong entry x) auto
      then show ?thesis unfolding sum_blocks by (intro sum_mod_cong) (simp add: lessThan_Suc_atMost)
    qed
    also have "(\<Sum>i < n. \<Sum>d \<le> degree. c i d * ((if d = 0 then 2 else 1) * ?rho i - ?rho (Suc i) * ?b i ^ d)) =
        (\<Sum>i < n. ?rho i * (round_poly c degree i 0 + round_poly c degree i 1) - ?rho (Suc i) * round_poly c degree i (?b i))"
    proof (rule sum.cong [OF refl])
      fix i
      have p0: "round_poly c degree i 0 = c i 0" by (simp add: round_poly_def power_0_left if_distrib cong: if_cong)
      have "(\<Sum>d \<le> degree. c i d * ((if d = 0 then 2 else 1) * ?rho i - ?rho (Suc i) * ?b i ^ d)) =
          ?rho i * (\<Sum>d \<le> degree. (if d = 0 then 2 else 1) * c i d) - ?rho (Suc i) * (\<Sum>d \<le> degree. c i d * ?b i ^ d)"
        by (simp add: right_diff_distrib sum_subtractf sum_distrib_left ac_simps)
      then show "(\<Sum>d \<le> degree. c i d * ((if d = 0 then 2 else 1) * ?rho i - ?rho (Suc i) * ?b i ^ d)) =
          ?rho i * (round_poly c degree i 0 + round_poly c degree i 1) - ?rho (Suc i) * round_poly c degree i (?b i)"
        by (simp only: sum_coeff_first p0) (simp add: round_poly_def)
    qed
    finally have "(int (uval (dot xs js)) - (?rho 0 * sum_value - ?rho n * final_value)) mod ?R =
        (\<Sum>i \<le> n. ?rho i * round_defect c degree bindings sum_value final_value i) mod ?R"
      by (simp add: mod_simps round_telescope [OF assms(3), symmetric])
    then show ?thesis using len js(2) by (simp add: inner_product_total)
  qed
  then show ?thesis using js(1) by blast
qed

section \<open>Acceptance conditions\<close>

text \<open>The two equations of the PODP check, with the inner product \<open>z\<close> as a parameter.\<close>

definition podp_equations :: "PODPProof \<Rightarrow> u256 \<Rightarrow> G1Point \<Rightarrow> G1Point \<Rightarrow> u256 \<Rightarrow> PedersenGens \<Rightarrow> bool" where
  "podp_equations podp c com_x com_y z gens \<longleftrightarrow>
     pt_add (pt_mul com_x c) (commit_d podp)
       = pt_add (pt_msm (take (length (z_vector podp)) (message_gens gens)) (z_vector podp))
                (pt_mul (blinding_gen gens) (z_delta podp))
   \<and> pt_add (pt_mul com_y c) (commit_d_dot_a podp)
       = pt_add (pt_mul (scalar_gen gens) z) (pt_mul (blinding_gen gens) (z_beta podp))"

lemma verify_podp_eq:
  assumes "length (z_vector podp) = length a" "length (z_vector podp) \<le> length (message_gens gens)"
  shows "verify_podp podp c com_x com_y a gens = Inr (podp_equations podp c com_x com_y (dot (z_vector podp) a) gens)"
  using assms
  by (simp add: verify_podp_def inner_product_total msm_with_truncated_gens_total ec_mul_total ec_add_total podp_equations_def)

lemma verify_podp_panics:
  "length (z_vector podp) \<noteq> length a \<or> length (message_gens gens) < length (z_vector podp)
    \<Longrightarrow> panics (verify_podp podp c com_x com_y a gens)"
  by (auto simp: verify_podp_def rassert_def)

lemma verify_podp_cases:
  "verify_podp podp c com_x com_y a gens = Inr b \<Longrightarrow>
     length (z_vector podp) = length a \<and> length (z_vector podp) \<le> length (message_gens gens)
   \<and> b = podp_equations podp c com_x com_y (dot (z_vector podp) a) gens"
  using verify_podp_panics [of podp a gens c com_x com_y] verify_podp_eq [of podp a gens c com_x com_y]
  by (cases "length (z_vector podp) = length a \<and> length (z_vector podp) \<le> length (message_gens gens)") auto

text \<open>The transcript of a PODP: the challenge and the sponge afterwards.\<close>

definition podp_transcript :: "PODPProof \<Rightarrow> PoseidonSponge \<Rightarrow> u256 \<times> PoseidonSponge" where
  "podp_transcript podp sponge =
     (let (c, sponge) = challenge (absorb_all [pt_x (commit_d podp), pt_y (commit_d podp),
            pt_x (commit_d_dot_a podp), pt_y (commit_d_dot_a podp)] sponge)
      in (c, absorb_all (z_vector podp @ [z_delta podp, z_beta podp]) sponge))"

lemma verify_podp_with_transcript_eq:
  "verify_podp_with_transcript podp com_x com_y a gens sponge =
     rbind (verify_podp podp (fst (podp_transcript podp sponge)) com_x com_y a gens)
       (\<lambda>b. Inr (b, snd (podp_transcript podp sponge)))"
  by (simp add: verify_podp_with_transcript_def podp_transcript_def absorb_all_Cons absorb_all_append Let_def
      case_prod_unfold)

lemma verify_podp_hybrid_eq:
  "verify_podp_hybrid podp a sponge =
     rbind (inner_product (z_vector podp) a) (\<lambda>z. Inr (z, snd (podp_transcript podp sponge)))"
  by (simp add: verify_podp_hybrid_def podp_transcript_def absorb_all_Cons absorb_all_append Let_def case_prod_unfold)

text \<open>What the full verification checks beyond the hybrid one: the PODP equations, with the scalar \<open>z\<close>
  that the hybrid one returns.\<close>

definition sumcheck_group_check ::
  "CommittedSumcheckProof \<Rightarrow> G1Point \<Rightarrow> PedersenGens \<Rightarrow> PoseidonSponge \<Rightarrow> u256 \<Rightarrow> bool" where
  "sumcheck_group_check proof oracle_eval gens sponge z =
     (let n = length (sc_messages proof);
          (rhos, sponge) = times (n + 1) challenge sponge;
          (gammas, sponge) = times n challenge sponge;
          alpha = pt_msm (sc_messages proof) gammas;
          com_y = pt_add (pt_mul (sc_sum proof) (rhos ! 0)) (pt_mul oracle_eval (fr_neg (rhos ! n)))
      in podp_equations (sc_podp proof) (fst (podp_transcript (sc_podp proof) sponge)) alpha com_y z gens)"

theorem sumcheck_hybrid_split:
  assumes "sumcheck_verify_hybrid proof degree bindings sponge = Inr (z, sponge')"
    and "length (z_vector (sc_podp proof)) \<le> length (message_gens gens)"
  shows "sumcheck_verify proof oracle_eval degree bindings gens sponge
    = Inr (sumcheck_group_check proof oracle_eval gens sponge z, sponge')"
proof -
  let ?n = "length (sc_messages proof)"
  obtain rhos sp1 where rhos: "times (?n + 1) challenge sponge = (rhos, sp1)" by fastforce
  obtain gammas sp2 where gammas: "times ?n challenge sp1 = (gammas, sp2)" by fastforce
  have len: "length rhos = ?n + 1" "length gammas = ?n"
    using rhos gammas length_times [of "?n + 1" challenge sponge] length_times [of ?n challenge sp1] by simp_all
  from assms(1) obtain js where js: "length bindings = ?n" "compute_j_star rhos gammas bindings degree ?n = Inr js"
    "inner_product (z_vector (sc_podp proof)) js = Inr z" "sponge' = snd (podp_transcript (sc_podp proof) sp2)"
    unfolding sumcheck_verify_hybrid_def Let_def rhos gammas case_prod_conv
    by (auto simp: rbind_eq_Inr_iff verify_podp_hybrid_eq)
  have eq: "length (z_vector (sc_podp proof)) = length js"
    using js(3) by (simp add: inner_product_def rbind_eq_Inr_iff)
  then have z: "z = dot (z_vector (sc_podp proof)) js" using js(3) by (simp add: inner_product_total)
  show ?thesis
    unfolding sumcheck_verify_def sumcheck_group_check_def Let_def rhos gammas case_prod_conv
    using js(1,2,4) len eq assms(2) z
    by (simp add: multi_scalar_mul_total idx_def compute_dot_product_def ec_mul_total ec_add_total
        verify_podp_with_transcript_eq verify_podp_eq)
qed

theorem sumcheck_verify_hybrid_agree:
  assumes "sumcheck_verify proof oracle_eval degree bindings gens sponge = Inr (b, sponge')"
  shows "\<exists>z. sumcheck_verify_hybrid proof degree bindings sponge = Inr (z, sponge')
    \<and> b = sumcheck_group_check proof oracle_eval gens sponge z
    \<and> length (z_vector (sc_podp proof)) \<le> length (message_gens gens)"
proof -
  let ?n = "length (sc_messages proof)"
  obtain rhos sp1 where rhos: "times (?n + 1) challenge sponge = (rhos, sp1)" by fastforce
  obtain gammas sp2 where gammas: "times ?n challenge sp1 = (gammas, sp2)" by fastforce
  from assms obtain alpha com_y js where js: "length bindings = ?n" "compute_j_star rhos gammas bindings degree ?n = Inr js"
    "verify_podp (sc_podp proof) (fst (podp_transcript (sc_podp proof) sp2)) alpha com_y js gens = Inr b"
    unfolding sumcheck_verify_def Let_def rhos gammas case_prod_conv
    by (auto simp: rbind_eq_Inr_iff verify_podp_with_transcript_eq)
  have l: "length (z_vector (sc_podp proof)) = length js" "length (z_vector (sc_podp proof)) \<le> length (message_gens gens)"
    using verify_podp_cases [OF js(3)] by auto
  have "sumcheck_verify_hybrid proof degree bindings sponge
      = Inr (dot (z_vector (sc_podp proof)) js, snd (podp_transcript (sc_podp proof) sp2))"
    unfolding sumcheck_verify_hybrid_def Let_def rhos gammas case_prod_conv
    using js l(1) by (simp add: verify_podp_hybrid_eq inner_product_total)
  with sumcheck_hybrid_split [OF this l(2), of oracle_eval] assms l(2) show ?thesis by simp
qed

text \<open>The three equations of the proof of product.\<close>

definition pop_transcript :: "ProofOfProduct \<Rightarrow> PoseidonSponge \<Rightarrow> u256 \<times> PoseidonSponge" where
  "pop_transcript pop sponge =
     (let (c, sponge) = challenge (absorb_all [pt_x (pop_alpha pop), pt_y (pop_alpha pop), pt_x (pop_beta pop),
            pt_y (pop_beta pop), pt_x (pop_delta pop), pt_y (pop_delta pop)] sponge)
      in (c, absorb_all [pop_z1 pop, pop_z2 pop, pop_z3 pop, pop_z4 pop, pop_z5 pop] sponge))"

definition pop_equations ::
  "ProofOfProduct \<Rightarrow> u256 \<Rightarrow> G1Point \<Rightarrow> G1Point \<Rightarrow> G1Point \<Rightarrow> PedersenGens \<Rightarrow> bool" where
  "pop_equations pop c com_x com_y com_z gens \<longleftrightarrow>
     pt_add (pop_alpha pop) (pt_mul com_x c)
       = pt_add (pt_mul (scalar_gen gens) (pop_z1 pop)) (pt_mul (blinding_gen gens) (pop_z2 pop))
   \<and> pt_add (pop_beta pop) (pt_mul com_y c)
       = pt_add (pt_mul (scalar_gen gens) (pop_z3 pop)) (pt_mul (blinding_gen gens) (pop_z4 pop))
   \<and> pt_add (pop_delta pop) (pt_mul com_z c)
       = pt_add (pt_mul com_x (pop_z3 pop)) (pt_mul (blinding_gen gens) (pop_z5 pop))"

lemma verify_proof_of_product_eq:
  "verify_proof_of_product pop com_x com_y com_z gens sponge =
     Inr (pop_equations pop (fst (pop_transcript pop sponge)) com_x com_y com_z gens, snd (pop_transcript pop sponge))"
  by (simp add: verify_proof_of_product_def pop_transcript_def pop_equations_def ec_mul_total ec_add_total
      absorb_all_Cons Let_def case_prod_unfold)

lemma sponge_inv_podp_transcript: "sponge_inv sp \<Longrightarrow> sponge_inv (snd (podp_transcript podp sp))"
  using sponge_inv_challenge sponge_inv_absorb_all
  by (simp add: podp_transcript_def Let_def case_prod_unfold) (metis prod.collapse)

lemma sponge_inv_pop_transcript: "sponge_inv sp \<Longrightarrow> sponge_inv (snd (pop_transcript pop sp))"
  using sponge_inv_challenge sponge_inv_absorb_all
  by (simp add: pop_transcript_def Let_def case_prod_unfold) (metis prod.collapse)

end
