(* ===== verification/GKR.thy ===== *)
theory GKR
  imports Sumcheck
begin

text \<open>
  Compute layer verification of the DAG circuit (\<open>crates/zkml-verifier/src/gkr.rs\<close>), in the full and in
  the hybrid form.

  \<open>gkr.rs\<close> panics on a failed check; here that is the left side of \<open>res\<close>. The loops over layers and
  atoms are \<open>rfold\<close>s over the same index ranges.
\<close>

section \<open>Data\<close>

record DAGCircuitDescription =
  num_compute_layers :: nat
  num_input_layers :: nat
  layer_types :: "u8 list"
  num_sumcheck_rounds :: "nat list"
  atom_offsets :: "nat list"
  atom_target_layers :: "nat list"
  atom_commit_idxs :: "nat list"
  pt_offsets :: "nat list"
  pt_data :: "u64 list"
  input_is_committed :: "bool list"
  oracle_product_offsets :: "nat list"
  oracle_result_idxs :: "nat list"
  oracle_expr_coeffs :: "u256 list"

record CommittedLayerProof =
  sumcheck_proof :: CommittedSumcheckProof
  commitments :: "G1Point list"
  pops :: "ProofOfProduct list"

record GKRProof =
  output_claim_commitments :: "G1Point list"
  layer_proofs :: "CommittedLayerProof list"

record DAGInputLayerProof =
  commitment_rows :: "G1Point list"
  podps :: "PODPProof list"
  com_evals :: "G1Point list"

record PublicValueClaim =
  pvc_value :: u256
  pvc_blinding :: u256
  pvc_commitment :: G1Point

record VerifyContext =
  all_bindings :: "u256 list list"
  output_challenges :: "u256 list"
  output_eval :: G1Point

record FrOutputCollector =
  rlc_betas :: "u256 list"
  z_dot_j_stars :: "u256 list"

section \<open>Claims\<close>

abbreviation FIXED_REF_BASE :: u64 where "FIXED_REF_BASE \<equiv> 20000"

definition count_claims_for :: "nat \<Rightarrow> DAGCircuitDescription \<Rightarrow> nat" where
  "count_claims_for target_layer desc = length (filter (\<lambda>t. t = target_layer) (atom_target_layers desc))"

definition resolve_entry :: "u64 \<Rightarrow> u256 list \<Rightarrow> u256 res" where
  "resolve_entry entry source_bindings =
     (if entry < 1000 then idx source_bindings (unat entry)
      else if FIXED_REF_BASE \<le> entry then Inr (from_u64 (entry - FIXED_REF_BASE))
      else Inr u256_ZERO)"

definition resolve_point :: "nat \<Rightarrow> u256 list \<Rightarrow> DAGCircuitDescription \<Rightarrow> u256 list res" where
  "resolve_point global_atom_idx source_bindings desc =
     rbind (idx (pt_offsets desc) global_atom_idx) (\<lambda>start.
     rbind (idx (pt_offsets desc) (global_atom_idx + 1)) (\<lambda>end_pt.
     rbind (usub end_pt start) (\<lambda>len.
     rfold (\<lambda>k point.
         rbind (idx (pt_data desc) (start + k)) (\<lambda>entry.
         rbind (resolve_entry entry source_bindings) (\<lambda>v. Inr (point[k := v]))))
       [0..<len] (replicate len u256_ZERO))))"

definition beta_term :: "u256 \<Rightarrow> u256 \<Rightarrow> fr" where
  "beta_term r c =
     (let rc = fr_mul r c;
          one_minus_r = fr_sub u256_ONE r;
          one_minus_c = fr_sub u256_ONE c
      in fr_add rc (fr_mul one_minus_r one_minus_c))"

definition compute_beta :: "u256 list \<Rightarrow> u256 list \<Rightarrow> u256" where
  "compute_beta bindings point =
     (let n = min (length bindings) (length point)
      in fold (\<lambda>i beta. fr_mul beta (beta_term (bindings ! i) (point ! i))) [0..<n] u256_ONE)"

section \<open>Transcript of a layer\<close>

definition absorb_point :: "G1Point \<Rightarrow> PoseidonSponge \<Rightarrow> PoseidonSponge" where
  "absorb_point p sponge = absorb_u256 (pt_y p) (absorb_u256 (pt_x p) sponge)"

definition absorb_messages_and_derive_bindings ::
  "G1Point list \<Rightarrow> PoseidonSponge \<Rightarrow> u256 list \<times> PoseidonSponge" where
  "absorb_messages_and_derive_bindings messages sponge =
     (let n = length messages;
          bindings = replicate n u256_ZERO;
          sponge = (if n > 0 then absorb_point (messages ! 0) sponge else sponge);
          (bindings, sponge) =
            fold (\<lambda>i (bindings, sponge).
                let (b, sponge) = challenge sponge
                in (bindings[i - 1 := b], absorb_point (messages ! i) sponge))
              [1..<n] (bindings, sponge)
      in if n > 0 then let (b, sponge) = challenge sponge in (bindings[n - 1 := b], sponge)
         else (bindings, sponge))"

definition absorb_commitments :: "G1Point list \<Rightarrow> PoseidonSponge \<Rightarrow> PoseidonSponge" where
  "absorb_commitments cs sponge = fold absorb_point cs sponge"

section \<open>Random linear combination of the incoming claims\<close>

definition rlc_atom ::
  "nat \<Rightarrow> GKRProof \<Rightarrow> DAGCircuitDescription \<Rightarrow> VerifyContext \<Rightarrow> u256 list \<Rightarrow> u256 list \<Rightarrow> nat \<Rightarrow> nat
     \<Rightarrow> G1Point \<times> fr \<times> nat \<Rightarrow> (G1Point \<times> fr \<times> nat) res" where
  "rlc_atom layer_idx proof desc ctx bindings rlc_coeffs j a s =
     (let (rlc_eval, rlc_beta, coeff_idx) = s
      in rbind (idx (atom_target_layers desc) a) (\<lambda>target.
         if target \<noteq> layer_idx then Inr s
         else rbind (idx (atom_commit_idxs desc) a) (\<lambda>commit_idx.
              rbind (idx (layer_proofs proof) j) (\<lambda>lp.
              rbind (idx (commitments lp) commit_idx) (\<lambda>atom_eval.
              rbind (idx (all_bindings ctx) j) (\<lambda>source.
              rbind (resolve_point a source desc) (\<lambda>atom_point.
              let beta = compute_beta bindings atom_point
              in rbind (idx rlc_coeffs coeff_idx) (\<lambda>coeff.
                 rbind (ec_mul atom_eval coeff) (\<lambda>t.
                 rbind (ec_add rlc_eval t) (\<lambda>rlc_eval.
                 Inr (rlc_eval, fr_add rlc_beta (fr_mul beta coeff), coeff_idx + 1)))))))))))"

definition rlc_row ::
  "nat \<Rightarrow> GKRProof \<Rightarrow> DAGCircuitDescription \<Rightarrow> VerifyContext \<Rightarrow> u256 list \<Rightarrow> u256 list \<Rightarrow> nat
     \<Rightarrow> G1Point \<times> fr \<times> nat \<Rightarrow> (G1Point \<times> fr \<times> nat) res" where
  "rlc_row layer_idx proof desc ctx bindings rlc_coeffs j s =
     rbind (idx (atom_offsets desc) j) (\<lambda>atom_start.
     rbind (idx (atom_offsets desc) (j + 1)) (\<lambda>atom_end.
     rfold (rlc_atom layer_idx proof desc ctx bindings rlc_coeffs j) [atom_start..<atom_end] s))"

definition compute_rlc_eval_and_beta ::
  "nat \<Rightarrow> GKRProof \<Rightarrow> DAGCircuitDescription \<Rightarrow> VerifyContext \<Rightarrow> u256 list \<Rightarrow> u256 list \<Rightarrow> (G1Point \<times> u256) res" where
  "compute_rlc_eval_and_beta layer_idx proof desc ctx bindings rlc_coeffs =
     rbind (if layer_idx = 0
            then rbind (idx rlc_coeffs 0) (\<lambda>c0. rbind (ec_mul (output_eval ctx) c0) (\<lambda>rlc_eval.
                 let beta = compute_beta bindings (output_challenges ctx)
                 in Inr (rlc_eval, fr_mul beta c0, 1)))
            else Inr (INFINITY, u256_ZERO, 0)) (\<lambda>s.
     rbind (rfold (rlc_row layer_idx proof desc ctx bindings rlc_coeffs) [0..<layer_idx] s) (\<lambda>(rlc_eval, rlc_beta, _). Inr (rlc_eval, rlc_beta)))"

definition compute_oracle_eval ::
  "G1Point list \<Rightarrow> nat \<Rightarrow> u256 \<Rightarrow> DAGCircuitDescription \<Rightarrow> G1Point res" where
  "compute_oracle_eval cs layer_idx rlc_beta desc =
     rbind (idx (oracle_product_offsets desc) layer_idx) (\<lambda>prod_start.
     rbind (idx (oracle_product_offsets desc) (layer_idx + 1)) (\<lambda>prod_end.
     rfold (\<lambda>j result.
         rbind (idx (oracle_result_idxs desc) j) (\<lambda>result_idx.
         rbind (idx (oracle_expr_coeffs desc) j) (\<lambda>e.
         let coeff = fr_mul rlc_beta e
         in rbind (idx cs result_idx) (\<lambda>c. rbind (ec_mul c coeff) (ec_add result)))))
       [prod_start..<prod_end] INFINITY))"

section \<open>Layers\<close>

fun verify_products_loop ::
  "nat \<Rightarrow> ProofOfProduct list \<Rightarrow> G1Point list \<Rightarrow> PedersenGens \<Rightarrow> PoseidonSponge \<Rightarrow> (bool \<times> PoseidonSponge) res" where
  "verify_products_loop commit_idx [] cs gens sponge = Inr (True, sponge)"
| "verify_products_loop commit_idx (pop # ps) cs gens sponge =
     rbind (rassert (commit_idx + 2 < length cs) ''not enough commitments for PoP'') (\<lambda>_.
     rbind (idx cs commit_idx) (\<lambda>c0. rbind (idx cs (commit_idx + 1)) (\<lambda>c1. rbind (idx cs (commit_idx + 2)) (\<lambda>c2.
     rbind (verify_proof_of_product pop c0 c1 c2 gens sponge) (\<lambda>(ok, sponge).
     if \<not> ok then Inr (False, sponge) else verify_products_loop (commit_idx + 1) ps cs gens sponge)))))"

definition verify_products ::
  "CommittedLayerProof \<Rightarrow> PedersenGens \<Rightarrow> PoseidonSponge \<Rightarrow> (bool \<times> PoseidonSponge) res" where
  "verify_products layer_proof gens sponge =
     (if pops layer_proof = [] then Inr (True, sponge)
      else verify_products_loop 0 (pops layer_proof) (commitments layer_proof) gens sponge)"

definition layer_degree :: "u8 \<Rightarrow> nat" where
  "layer_degree t = (if t = 1 then 3 else 2)"

definition process_one_layer ::
  "nat \<Rightarrow> GKRProof \<Rightarrow> DAGCircuitDescription \<Rightarrow> PedersenGens \<Rightarrow> VerifyContext \<Rightarrow> PoseidonSponge
     \<Rightarrow> (u256 list \<times> PoseidonSponge) res" where
  "process_one_layer layer_idx proof desc gens ctx sponge =
     (let num_claims = count_claims_for layer_idx desc;
          num_claims = (if layer_idx = 0 then num_claims + 1 else num_claims);
          (rlc_coeffs, sponge) = times num_claims challenge sponge
      in rbind (idx (layer_proofs proof) layer_idx) (\<lambda>lp.
         let (bindings, sponge) = absorb_messages_and_derive_bindings (sc_messages (sumcheck_proof lp)) sponge;
             sponge = absorb_commitments (commitments lp) sponge
         in rbind (compute_rlc_eval_and_beta layer_idx proof desc ctx bindings rlc_coeffs) (\<lambda>(_, rlc_beta).
            rbind (compute_oracle_eval (commitments lp) layer_idx rlc_beta desc) (\<lambda>oracle_eval.
            rbind (idx (layer_types desc) layer_idx) (\<lambda>t.
            let degree = layer_degree t
            in rbind (sumcheck_verify (sumcheck_proof lp) oracle_eval degree bindings gens sponge) (\<lambda>(ok, sponge).
               rbind (rassert ok ''sumcheck failed'') (\<lambda>_.
               rbind (verify_products lp gens sponge) (\<lambda>(ok, sponge).
               rbind (rassert ok ''PoP failed'') (\<lambda>_. Inr (bindings, sponge)))))))))) "

definition output_layer ::
  "GKRProof \<Rightarrow> PoseidonSponge \<Rightarrow> (VerifyContext \<times> PoseidonSponge) res" where
  "output_layer proof sponge =
     rbind (idx (layer_proofs proof) 0) (\<lambda>lp0.
     let num_vars = length (sc_messages (sumcheck_proof lp0));
         (out_challenges, sponge) = times num_vars challenge sponge
     in rbind (idx (output_claim_commitments proof) 0) (\<lambda>out_eval.
        let sponge = absorb_u256 (pt_x out_eval) sponge;
            sponge = absorb_u256 (pt_y out_eval) sponge
        in Inr (\<lparr>all_bindings = [], output_challenges = out_challenges, output_eval = out_eval\<rparr>, sponge)))"

definition verify_compute_layers ::
  "GKRProof \<Rightarrow> DAGCircuitDescription \<Rightarrow> PedersenGens \<Rightarrow> PoseidonSponge \<Rightarrow> (VerifyContext \<times> PoseidonSponge) res" where
  "verify_compute_layers proof desc gens sponge =
     rbind (with_capacity 24 (num_compute_layers desc)) (\<lambda>_.
     rbind (output_layer proof sponge) (\<lambda>s.
     rfold (\<lambda>i (ctx, sponge).
         rbind (process_one_layer i proof desc gens ctx sponge) (\<lambda>(bindings, sponge).
         Inr (ctx\<lparr>all_bindings := all_bindings ctx @ [bindings]\<rparr>, sponge)))
       [0..<num_compute_layers desc] s))"

section \<open>Hybrid layers\<close>

definition rlc_atom_beta ::
  "nat \<Rightarrow> DAGCircuitDescription \<Rightarrow> VerifyContext \<Rightarrow> u256 list \<Rightarrow> u256 list \<Rightarrow> nat \<Rightarrow> nat
     \<Rightarrow> fr \<times> nat \<Rightarrow> (fr \<times> nat) res" where
  "rlc_atom_beta layer_idx desc ctx bindings rlc_coeffs j a s =
     (let (rlc_beta, coeff_idx) = s
      in rbind (idx (atom_target_layers desc) a) (\<lambda>target.
         if target \<noteq> layer_idx then Inr s
         else rbind (idx (all_bindings ctx) j) (\<lambda>source.
              rbind (resolve_point a source desc) (\<lambda>atom_point.
              let beta = compute_beta bindings atom_point
              in rbind (idx rlc_coeffs coeff_idx) (\<lambda>coeff.
                 Inr (fr_add rlc_beta (fr_mul beta coeff), coeff_idx + 1))))))"

definition rlc_row_beta ::
  "nat \<Rightarrow> DAGCircuitDescription \<Rightarrow> VerifyContext \<Rightarrow> u256 list \<Rightarrow> u256 list \<Rightarrow> nat \<Rightarrow> fr \<times> nat \<Rightarrow> (fr \<times> nat) res" where
  "rlc_row_beta layer_idx desc ctx bindings rlc_coeffs j s =
     rbind (idx (atom_offsets desc) j) (\<lambda>atom_start.
     rbind (idx (atom_offsets desc) (j + 1)) (\<lambda>atom_end.
     rfold (rlc_atom_beta layer_idx desc ctx bindings rlc_coeffs j) [atom_start..<atom_end] s))"

definition compute_rlc_beta_only ::
  "nat \<Rightarrow> DAGCircuitDescription \<Rightarrow> VerifyContext \<Rightarrow> u256 list \<Rightarrow> u256 list \<Rightarrow> u256 res" where
  "compute_rlc_beta_only layer_idx desc ctx bindings rlc_coeffs =
     rbind (if layer_idx = 0
            then let beta = compute_beta bindings (output_challenges ctx)
                 in rbind (idx rlc_coeffs 0) (\<lambda>c0. Inr (fr_mul beta c0, 1))
            else Inr (u256_ZERO, 0)) (\<lambda>s.
     rbind (rfold (rlc_row_beta layer_idx desc ctx bindings rlc_coeffs) [0..<layer_idx] s) (\<lambda>(rlc_beta, _). Inr rlc_beta))"

definition product_hybrid :: "ProofOfProduct \<Rightarrow> PoseidonSponge \<Rightarrow> PoseidonSponge" where
  "product_hybrid pop sponge =
     (let sponge = absorb_u256 (pt_x (pop_alpha pop)) sponge;
          sponge = absorb_u256 (pt_y (pop_alpha pop)) sponge;
          sponge = absorb_u256 (pt_x (pop_beta pop)) sponge;
          sponge = absorb_u256 (pt_y (pop_beta pop)) sponge;
          sponge = absorb_u256 (pt_x (pop_delta pop)) sponge;
          sponge = absorb_u256 (pt_y (pop_delta pop)) sponge;
          (_, sponge) = challenge sponge;
          sponge = absorb_u256 (pop_z1 pop) sponge;
          sponge = absorb_u256 (pop_z2 pop) sponge;
          sponge = absorb_u256 (pop_z3 pop) sponge;
          sponge = absorb_u256 (pop_z4 pop) sponge
      in absorb_u256 (pop_z5 pop) sponge)"

definition verify_products_hybrid :: "CommittedLayerProof \<Rightarrow> PoseidonSponge \<Rightarrow> PoseidonSponge" where
  "verify_products_hybrid layer_proof sponge = fold product_hybrid (pops layer_proof) sponge"

definition process_one_layer_hybrid ::
  "nat \<Rightarrow> GKRProof \<Rightarrow> DAGCircuitDescription \<Rightarrow> VerifyContext \<Rightarrow> PoseidonSponge
     \<Rightarrow> ((u256 list \<times> u256 \<times> u256) \<times> PoseidonSponge) res" where
  "process_one_layer_hybrid layer_idx proof desc ctx sponge =
     (let num_claims = count_claims_for layer_idx desc;
          num_claims = (if layer_idx = 0 then num_claims + 1 else num_claims);
          (rlc_coeffs, sponge) = times num_claims challenge sponge
      in rbind (idx (layer_proofs proof) layer_idx) (\<lambda>lp.
         let (bindings, sponge) = absorb_messages_and_derive_bindings (sc_messages (sumcheck_proof lp)) sponge;
             sponge = absorb_commitments (commitments lp) sponge
         in rbind (compute_rlc_beta_only layer_idx desc ctx bindings rlc_coeffs) (\<lambda>rlc_beta.
            rbind (idx (layer_types desc) layer_idx) (\<lambda>t.
            let degree = layer_degree t
            in rbind (sumcheck_verify_hybrid (sumcheck_proof lp) degree bindings sponge) (\<lambda>(z_dot_j_star, sponge).
               let sponge = verify_products_hybrid lp sponge
               in Inr ((bindings, rlc_beta, z_dot_j_star), sponge))))))"

definition verify_compute_layers_hybrid ::
  "GKRProof \<Rightarrow> DAGCircuitDescription \<Rightarrow> PoseidonSponge \<Rightarrow> ((VerifyContext \<times> FrOutputCollector) \<times> PoseidonSponge) res" where
  "verify_compute_layers_hybrid proof desc sponge =
     rbind (with_capacity 24 (num_compute_layers desc)) (\<lambda>_.
     rbind (with_capacity 32 (num_compute_layers desc)) (\<lambda>_.
     rbind (with_capacity 32 (num_compute_layers desc)) (\<lambda>_.
     rbind (output_layer proof sponge) (\<lambda>(ctx, sponge).
     rfold (\<lambda>i ((ctx, collector), sponge).
         rbind (process_one_layer_hybrid i proof desc ctx sponge) (\<lambda>((bindings, rlc_beta, z_dot_j_star), sponge).
         Inr ((ctx\<lparr>all_bindings := all_bindings ctx @ [bindings]\<rparr>,
               collector\<lparr>rlc_betas := rlc_betas collector @ [rlc_beta],
                         z_dot_j_stars := z_dot_j_stars collector @ [z_dot_j_star]\<rparr>), sponge)))
       [0..<num_compute_layers desc] ((ctx, \<lparr>rlc_betas = [], z_dot_j_stars = []\<rparr>), sponge)))))"

section \<open>The bindings of a layer\<close>

text \<open>The specification of \<open>absorb_messages_and_derive_bindings\<close>: absorb a message, squeeze its binding.\<close>

fun derive :: "G1Point list \<Rightarrow> PoseidonSponge \<Rightarrow> u256 list \<times> PoseidonSponge" where
  "derive [] sp = ([], sp)"
| "derive (m # ms) sp =
     (let (b, sp) = challenge (absorb_point m sp); (bs, sp) = derive ms sp in (b # bs, sp))"

lemma derive_snoc:
  "derive (ms @ [m]) sp =
     (let (bs, sp) = derive ms sp; (b, sp) = challenge (absorb_point m sp) in (bs @ [b], sp))"
  by (induction ms arbitrary: sp) (simp_all add: Let_def split: prod.splits)

lemma length_derive: "length (fst (derive ms sp)) = length ms"
  by (induction ms arbitrary: sp) (simp_all add: Let_def split: prod.splits, metis fst_conv)

lemma derive_loop:
  assumes "k < length ms"
  shows "fold (\<lambda>i (bs, sp). let (b, sp) = challenge sp in (bs[i - 1 := b], absorb_point (ms ! i) sp)) [1..<Suc k]
      (replicate (length ms) u256_ZERO, absorb_point (ms ! 0) sp)
    = (let (bs, sp') = derive (take k ms) sp in (bs @ replicate (length ms - k) u256_ZERO, absorb_point (ms ! k) sp'))"
  using assms
proof (induction k)
  case 0
  then show ?case by simp
next
  case (Suc k)
  obtain bs sp1 where d: "derive (take k ms) sp = (bs, sp1)" by fastforce
  obtain b sp2 where c: "challenge (absorb_point (ms ! k) sp1) = (b, sp2)" by fastforce
  have lb: "length bs = k" using length_derive [of "take k ms" sp] d Suc.prems by simp
  have "derive (take (Suc k) ms) sp = (bs @ [b], sp2)"
    using Suc.prems by (simp add: take_Suc_conv_app_nth derive_snoc d c)
  moreover have "replicate (length ms - k) u256_ZERO = u256_ZERO # replicate (length ms - Suc k) u256_ZERO"
    using Suc.prems by (metis Suc_diff_Suc Suc_lessD replicate_Suc)
  ultimately show ?case using Suc.IH Suc.prems by (simp add: d c lb list_update_append)
qed

theorem derive_bindings_eq: "absorb_messages_and_derive_bindings ms sp = derive ms sp"
proof (cases "ms = []")
  case True
  then show ?thesis by (simp add: absorb_messages_and_derive_bindings_def)
next
  case False
  then obtain k where k: "length ms = Suc k" by (metis length_0_conv not0_implies_Suc)
  obtain bs sp1 where d: "derive (take k ms) sp = (bs, sp1)" by fastforce
  have lb: "length bs = k" using length_derive [of "take k ms" sp] d k by simp
  have "derive ms sp = (let (b, sp) = challenge (absorb_point (ms ! k) sp1) in (bs @ [b], sp))"
    using derive_snoc [of "take k ms" "ms ! k" sp] d k by (simp flip: take_Suc_conv_app_nth)
  then show ?thesis
    using derive_loop [of k ms sp] k d lb
    by (simp add: absorb_messages_and_derive_bindings_def list_update_append del: upt_Suc split: prod.splits)
qed

lemma sponge_inv_absorb_point: "sponge_inv sp \<Longrightarrow> sponge_inv (absorb_point p sp)"
  by (simp add: absorb_point_def sponge_inv_absorb_u256)

lemma sponge_inv_absorb_commitments: "sponge_inv sp \<Longrightarrow> sponge_inv (absorb_commitments cs sp)"
  unfolding absorb_commitments_def by (induction cs arbitrary: sp) (simp_all add: sponge_inv_absorb_point)

lemma derive_canonical:
  "sponge_inv sp \<Longrightarrow> derive ms sp = (bs, sp') \<Longrightarrow> sponge_inv sp' \<and> (\<forall>b \<in> set bs. uval b < uval FR_MOD)"
proof (induction ms arbitrary: sp bs sp')
  case Nil
  then show ?case by simp
next
  case (Cons m ms)
  obtain b sp1 where c: "challenge (absorb_point m sp) = (b, sp1)" by fastforce
  obtain bs2 sp2 where d: "derive ms sp1 = (bs2, sp2)" by fastforce
  from sponge_inv_challenge [OF sponge_inv_absorb_point [OF Cons.prems(1)] c]
  have "sponge_inv sp1" "uval b < uval FR_MOD" by auto
  then show ?case using Cons.IH [OF _ d] Cons.prems(2) by (auto simp: c d)
qed

section \<open>The equality polynomial\<close>

definition eq_poly :: "u256 list \<Rightarrow> u256 list \<Rightarrow> int" where
  "eq_poly rs cs =
     (\<Prod>i < min (length rs) (length cs).
        int (uval (rs ! i)) * int (uval (cs ! i)) + (1 - int (uval (rs ! i))) * (1 - int (uval (cs ! i))))"

abbreviation fr_canonical :: "u256 \<Rightarrow> bool" where
  "fr_canonical x \<equiv> uval x < uval FR_MOD"

lemma r_gt [simp]: "0 < uval FR_MOD" "Suc 0 < uval FR_MOD"
  using Fr.p_gt_1 by simp_all

lemma beta_term_value:
  assumes "fr_canonical r" "fr_canonical c"
  shows "int (uval (beta_term r c)) = (int (uval r) * int (uval c) + (1 - int (uval r)) * (1 - int (uval c))) mod int (uval FR_MOD)"
    and "fr_canonical (beta_term r c)"
proof -
  let ?p = "int (uval FR_MOD)"
  have s: "int (uval (fr_sub u256_ONE x)) = (1 - int (uval x)) mod ?p" if "fr_canonical x" for x
    using that by (simp add: Fr.sub_reduced)
  have "int (uval (beta_term r c)) = (int (uval (fr_mul r c)) + int (uval (fr_mul (fr_sub u256_ONE r) (fr_sub u256_ONE c)))) mod ?p"
    by (simp add: beta_term_def Fr.add_reduced Fr.mul_less zmod_int)
  also have "\<dots> = (int (uval r) * int (uval c) + (1 - int (uval r)) * (1 - int (uval c))) mod ?p"
    by (simp add: Fr.mul_mod zmod_int s assms mod_simps)
  finally show "int (uval (beta_term r c)) = (int (uval r) * int (uval c) + (1 - int (uval r)) * (1 - int (uval c))) mod ?p" .
  show "fr_canonical (beta_term r c)" by (simp add: beta_term_def Fr.add_less Fr.mul_less)
qed

theorem compute_beta_value:
  assumes "\<forall>r \<in> set rs. fr_canonical r" "\<forall>c \<in> set cs. fr_canonical c"
  shows "int (uval (compute_beta rs cs)) = eq_poly rs cs mod int (uval FR_MOD)"
proof -
  let ?p = "int (uval FR_MOD)" and ?n = "min (length rs) (length cs)"
  have "int (uval (fold (\<lambda>i beta. fr_mul beta (beta_term (rs ! i) (cs ! i))) [0..<k] u256_ONE))
      = (\<Prod>i < k. int (uval (rs ! i)) * int (uval (cs ! i)) + (1 - int (uval (rs ! i))) * (1 - int (uval (cs ! i)))) mod ?p"
    if "k \<le> ?n" for k
    using that
  proof (induction k)
    case 0
    then show ?case using Fr.p_gt_1 by simp
  next
    case (Suc k)
    have "fr_canonical (rs ! k)" "fr_canonical (cs ! k)" using assms Suc.prems by simp_all
    then show ?case using Suc by (simp add: Fr.mul_mod zmod_int beta_term_value(1) mod_simps)
  qed
  from this [of ?n] show ?thesis by (simp add: compute_beta_def eq_poly_def)
qed

lemma compute_beta_canonical: "fr_canonical (compute_beta rs cs)"
  by (simp add: compute_beta_def Fr.fold_mul_less)

text \<open>On boolean vectors of one length it is the indicator of equality.\<close>

lemma eq_poly_boolean:
  assumes "length rs = length cs" "\<forall>r \<in> set rs. uval r \<le> 1" "\<forall>c \<in> set cs. uval c \<le> 1"
  shows "eq_poly rs cs = (if rs = cs then 1 else 0)"
proof -
  have t: "int (uval (rs ! i)) * int (uval (cs ! i)) + (1 - int (uval (rs ! i))) * (1 - int (uval (cs ! i)))
      = (if rs ! i = cs ! i then 1 else 0)" if "i < length rs" for i
  proof -
    have "uval (rs ! i) \<le> 1" "uval (cs ! i) \<le> 1" using assms that by simp_all
    then have "(uval (rs ! i) = 0 \<or> uval (rs ! i) = 1) \<and> (uval (cs ! i) = 0 \<or> uval (cs ! i) = 1)" by linarith
    then show ?thesis by (auto simp flip: uval_inject)
  qed
  have "eq_poly rs cs = (\<Prod>i < length rs. if rs ! i = cs ! i then 1 else 0)"
    unfolding eq_poly_def using t assms(1) by (intro prod.cong) simp_all
  also have "\<dots> = (if \<forall>i < length rs. rs ! i = cs ! i then 1 else 0)" by (auto intro!: prod.neutral)
  also have "(\<forall>i < length rs. rs ! i = cs ! i) \<longleftrightarrow> rs = cs" using assms(1) by (simp add: list_eq_iff_nth_eq)
  finally show ?thesis .
qed

section \<open>The hybrid verification follows the full one\<close>

lemma rlc_atom_agree:
  assumes "rlc_atom layer_idx proof desc ctx bindings rlc_coeffs j a s = Inr s'"
  shows "rlc_atom_beta layer_idx desc ctx bindings rlc_coeffs j a (snd s) = Inr (snd s')"
proof -
  obtain e b k where s: "s = (e, b, k)" by (cases s)
  from assms obtain target where t: "idx (atom_target_layers desc) a = Inr target"
    by (auto simp: rlc_atom_def s rbind_eq_Inr_iff)
  show ?thesis
  proof (cases "target = layer_idx")
    case True
    then show ?thesis using assms t
      by (auto simp: rlc_atom_def rlc_atom_beta_def s Let_def rbind_eq_Inr_iff)
  next
    case False
    then show ?thesis using assms t by (simp add: rlc_atom_def rlc_atom_beta_def s)
  qed
qed

lemma rlc_row_agree:
  assumes "rlc_row layer_idx proof desc ctx bindings rlc_coeffs j s = Inr s'"
  shows "rlc_row_beta layer_idx desc ctx bindings rlc_coeffs j (snd s) = Inr (snd s')"
proof -
  from assms obtain lo hi where r: "idx (atom_offsets desc) j = Inr lo" "idx (atom_offsets desc) (j + 1) = Inr hi"
    "rfold (rlc_atom layer_idx proof desc ctx bindings rlc_coeffs j) [lo..<hi] s = Inr s'"
    by (auto simp: rlc_row_def rbind_eq_Inr_iff)
  from r(3) have "rfold (rlc_atom_beta layer_idx desc ctx bindings rlc_coeffs j) [lo..<hi] (snd s) = Inr (snd s')"
    by (rule rfold_simulation [rotated]) (rule rlc_atom_agree)
  then show ?thesis using r(1,2) by (simp add: rlc_row_beta_def)
qed

lemma rlc_beta_agree:
  assumes "compute_rlc_eval_and_beta layer_idx proof desc ctx bindings rlc_coeffs = Inr (e, b)"
  shows "compute_rlc_beta_only layer_idx desc ctx bindings rlc_coeffs = Inr b"
proof -
  from assms obtain s k where r: "rfold (rlc_row layer_idx proof desc ctx bindings rlc_coeffs) [0..<layer_idx] s = Inr (e, b, k)"
    and s: "if layer_idx = 0 then \<exists>c0. idx rlc_coeffs 0 = Inr c0 \<and> snd s = (fr_mul (compute_beta bindings (output_challenges ctx)) c0, 1)
            else snd s = (u256_ZERO, 0)"
    by (cases "layer_idx = 0") (auto simp: compute_rlc_eval_and_beta_def rbind_eq_Inr_iff ec_mul_total Let_def)
  from r have "rfold (rlc_row_beta layer_idx desc ctx bindings rlc_coeffs) [0..<layer_idx] (snd s) = Inr (snd (e, b, k))"
    by (rule rfold_simulation [rotated]) (rule rlc_row_agree)
  then show ?thesis using s by (cases "layer_idx = 0") (auto simp: compute_rlc_beta_only_def)
qed

lemma product_hybrid_eq: "product_hybrid pop sp = snd (pop_transcript pop sp)"
  by (simp add: product_hybrid_def pop_transcript_def absorb_all_Cons Let_def case_prod_unfold)

text \<open>A successful product check leaves the sponge that the hybrid replay leaves, and holds exactly when
  the equations of all the products hold along the transcript.\<close>

fun products_hold :: "nat \<Rightarrow> ProofOfProduct list \<Rightarrow> G1Point list \<Rightarrow> PedersenGens \<Rightarrow> PoseidonSponge \<Rightarrow> bool" where
  "products_hold k [] cs gens sp = True"
| "products_hold k (pop # ps) cs gens sp =
     (let (c, sp') = pop_transcript pop sp
      in k + 2 < length cs \<and> pop_equations pop c (cs ! k) (cs ! (k + 1)) (cs ! (k + 2)) gens
         \<and> products_hold (k + 1) ps cs gens sp')"

lemma verify_products_loop_iff:
  "verify_products_loop k ps cs gens sp = Inr (True, sp') \<longleftrightarrow>
     products_hold k ps cs gens sp \<and> sp' = fold product_hybrid ps sp"
proof (induction ps arbitrary: k sp)
  case Nil
  then show ?case by auto
next
  case (Cons pop ps)
  show ?case
    by (cases "k + 2 < length cs")
      (auto simp: verify_proof_of_product_eq rassert_def idx_def Let_def case_prod_unfold product_hybrid_eq Cons.IH)
qed

lemma verify_products_iff:
  "verify_products lp gens sp = Inr (True, sp') \<longleftrightarrow>
     products_hold 0 (pops lp) (commitments lp) gens sp \<and> sp' = verify_products_hybrid lp sp"
  by (auto simp: verify_products_def verify_products_loop_iff verify_products_hybrid_def)

theorem process_one_layer_agree:
  assumes "process_one_layer i proof desc gens ctx sp = Inr (bindings, sp')"
  shows "\<exists>beta z. process_one_layer_hybrid i proof desc ctx sp = Inr ((bindings, beta, z), sp')"
proof -
  define nc where "nc = (if i = 0 then count_claims_for i desc + 1 else count_claims_for i desc)"
  obtain coeffs sp1 where c: "times nc challenge sp = (coeffs, sp1)" by fastforce
  from assms obtain lp where lp: "idx (layer_proofs proof) i = Inr lp"
    by (auto simp: process_one_layer_def Let_def rbind_eq_Inr_iff case_prod_unfold)
  obtain bs sp2 where b: "absorb_messages_and_derive_bindings (sc_messages (sumcheck_proof lp)) sp1 = (bs, sp2)" by fastforce
  from assms obtain e beta orc t sp3 where *:
    "compute_rlc_eval_and_beta i proof desc ctx bs coeffs = Inr (e, beta)" "idx (layer_types desc) i = Inr t"
    "sumcheck_verify (sumcheck_proof lp) orc (layer_degree t) bs gens (absorb_commitments (commitments lp) sp2) = Inr (True, sp3)"
    "verify_products lp gens sp3 = Inr (True, sp')" "bindings = bs"
    unfolding process_one_layer_def Let_def nc_def [symmetric] c case_prod_conv lp rbind_Inr b
    by (auto simp: rbind_eq_Inr_iff)
  from sumcheck_verify_hybrid_agree [OF *(3)] obtain z where
    z: "sumcheck_verify_hybrid (sumcheck_proof lp) (layer_degree t) bs (absorb_commitments (commitments lp) sp2) = Inr (z, sp3)"
    by blast
  have "process_one_layer_hybrid i proof desc ctx sp = Inr ((bs, beta, z), sp')"
    unfolding process_one_layer_hybrid_def Let_def nc_def [symmetric] c case_prod_conv lp rbind_Inr b
    using rlc_beta_agree [OF *(1)] *(2,4) z by (simp add: verify_products_iff)
  then show ?thesis using *(5) by blast
qed

theorem verify_compute_layers_agree:
  assumes "verify_compute_layers proof desc gens sp = Inr (ctx, sp')" "32 * num_compute_layers desc < 2 ^ 63"
  shows "\<exists>collector. verify_compute_layers_hybrid proof desc sp = Inr ((ctx, collector), sp')"
proof -
  let ?full = "\<lambda>i (ctx, sponge). rbind (process_one_layer i proof desc gens ctx sponge) (\<lambda>(bindings, sponge).
         Inr (ctx\<lparr>all_bindings := all_bindings ctx @ [bindings]\<rparr>, sponge))"
  let ?hyb = "\<lambda>i ((ctx, collector), sponge).
         rbind (process_one_layer_hybrid i proof desc ctx sponge) (\<lambda>((bindings, rlc_beta, z_dot_j_star), sponge).
         Inr ((ctx\<lparr>all_bindings := all_bindings ctx @ [bindings]\<rparr>,
               collector\<lparr>rlc_betas := rlc_betas collector @ [rlc_beta],
                         z_dot_j_stars := z_dot_j_stars collector @ [z_dot_j_star]\<rparr>), sponge))"
  have sim: "\<exists>col'. rfold ?hyb xs ((c, col), s) = Inr ((c', col'), s')" if "rfold ?full xs (c, s) = Inr (c', s')" for xs c s c' s' col
    using that
  proof (induction xs arbitrary: c s col)
    case Nil
    then show ?case by simp
  next
    case (Cons x xs)
    from Cons.prems obtain bs s1 where p: "process_one_layer x proof desc gens c s = Inr (bs, s1)"
      and r: "rfold ?full xs (c\<lparr>all_bindings := all_bindings c @ [bs]\<rparr>, s1) = Inr (c', s')"
      by (auto simp: rbind_eq_Inr_iff)
    from process_one_layer_agree [OF p] obtain beta z where
      h: "process_one_layer_hybrid x proof desc c s = Inr ((bs, beta, z), s1)" by blast
    show ?case using Cons.IH [OF r] h by simp
  qed
  from assms obtain c0 s0 where o: "output_layer proof sp = Inr (c0, s0)"
    and r: "rfold ?full [0..<num_compute_layers desc] (c0, s0) = Inr (ctx, sp')"
    by (auto simp: verify_compute_layers_def rbind_eq_Inr_iff)
  have cap: "with_capacity 24 (num_compute_layers desc) = Inr ()" "with_capacity 32 (num_compute_layers desc) = Inr ()"
    using assms(2) by (simp_all add: with_capacity_def)
  from sim [OF r] show ?thesis by (simp add: verify_compute_layers_hybrid_def cap o)
qed

section \<open>The claimed evaluations are not part of a layer's check\<close>

text \<open>The layer check computes the random linear combination \<open>rlc_eval\<close> of the claimed evaluations and
  then drops it. Two proofs \<open>same_but_claims\<close> at a layer have the same proof of that layer; the commitments of the earlier
  layers, which are the claims on it, and the output claim are any points, as many in the one as in the other.\<close>

definition same_but_claims :: "nat \<Rightarrow> GKRProof \<Rightarrow> VerifyContext \<Rightarrow> GKRProof \<Rightarrow> VerifyContext \<Rightarrow> bool" where
  "same_but_claims i proof ctx proof' ctx' \<longleftrightarrow>
     length (layer_proofs proof') = length (layer_proofs proof)
   \<and> (i < length (layer_proofs proof) \<longrightarrow> layer_proofs proof' ! i = layer_proofs proof ! i)
   \<and> (\<forall>j < min i (length (layer_proofs proof)).
        length (commitments (layer_proofs proof' ! j)) = length (commitments (layer_proofs proof ! j)))
   \<and> all_bindings ctx' = all_bindings ctx \<and> output_challenges ctx' = output_challenges ctx"

lemma rlc_atom_indep:
  assumes "same_but_claims i proof ctx proof' ctx'" "j < i" "snd s = snd t"
  shows "rmap snd (rlc_atom i proof' desc ctx' bindings coeffs j a s) = rmap snd (rlc_atom i proof desc ctx bindings coeffs j a t)"
proof (cases "j < length (layer_proofs proof)")
  case True
  then have "length (commitments (layer_proofs proof' ! j)) = length (commitments (layer_proofs proof ! j))"
    using assms(1,2) by (simp add: same_but_claims_def)
  then show ?thesis using assms True
    by (cases s; cases t)
      (simp add: same_but_claims_def rlc_atom_def idx_def rmap_rbind ec_mul_total ec_add_total Let_def if_distrib [of "rmap snd"]
        if_distrib [of "\<lambda>m. rbind m _"] cong: if_cong)
next
  case False
  then show ?thesis using assms
    by (cases s; cases t)
      (simp add: same_but_claims_def rlc_atom_def idx_def rmap_rbind Let_def if_distrib [of "rmap snd"] cong: if_cong)
qed

lemma rlc_row_indep:
  assumes "same_but_claims i proof ctx proof' ctx'" "j < i" "snd s = snd t"
  shows "rmap snd (rlc_row i proof' desc ctx' bindings coeffs j s) = rmap snd (rlc_row i proof desc ctx bindings coeffs j t)"
proof -
  have "rmap snd (rfold (rlc_atom i proof' desc ctx' bindings coeffs j) xs s)
      = rmap snd (rfold (rlc_atom i proof desc ctx bindings coeffs j) xs t)" for xs
    using assms by (intro rfold_rmap) (simp_all add: rlc_atom_indep)
  then show ?thesis by (simp add: rlc_row_def rmap_rbind)
qed

lemma rlc_beta_indep:
  assumes "same_but_claims i proof ctx proof' ctx'"
  shows "rmap snd (compute_rlc_eval_and_beta i proof' desc ctx' bindings coeffs)
    = rmap snd (compute_rlc_eval_and_beta i proof desc ctx bindings coeffs)"
proof -
  have pr: "rmap snd (rbind m (\<lambda>(e, b, _). Inr (e, b))) = rbind (rmap snd m) (\<lambda>(b, _). Inr b)" for m :: "(G1Point \<times> fr \<times> nat) res"
    by (cases m) auto
  have rows: "rmap snd (rfold (rlc_row i proof' desc ctx' bindings coeffs) [0..<i] s)
      = rmap snd (rfold (rlc_row i proof desc ctx bindings coeffs) [0..<i] t)" if "snd s = snd t" for s t
    using that by (intro rfold_rmap) (simp_all add: rlc_row_indep [OF assms])
  have "output_challenges ctx' = output_challenges ctx" using assms by (simp add: same_but_claims_def)
  then show ?thesis using rows [of "(INFINITY, u256_ZERO, 0)" "(INFINITY, u256_ZERO, 0)"]
    by (cases "i = 0") (simp_all add: compute_rlc_eval_and_beta_def pr, simp add: rmap_rbind rbind_assoc ec_mul_total)
qed

theorem process_one_layer_ignores_claims:
  assumes "same_but_claims i proof ctx proof' ctx'"
  shows "process_one_layer i proof' desc gens ctx' sp = process_one_layer i proof desc gens ctx sp"
proof -
  have drop: "rbind m (\<lambda>(_, b). k b) = rbind (rmap snd m) k" for m :: "(G1Point \<times> u256) res" and k :: "u256 \<Rightarrow> 'a res"
    by (cases m) auto
  have "idx (layer_proofs proof') i = idx (layer_proofs proof) i" using assms by (auto simp: same_but_claims_def idx_def)
  then show ?thesis unfolding process_one_layer_def drop rlc_beta_indep [OF assms] by simp
qed

section \<open>Invariants of the compute layers\<close>

lemma sponge_inv_products_hybrid: "sponge_inv sp \<Longrightarrow> sponge_inv (verify_products_hybrid lp sp)"
proof -
  have "sponge_inv sp \<Longrightarrow> sponge_inv (fold product_hybrid ps sp)" for ps sp
    by (induction ps arbitrary: sp) (simp_all add: product_hybrid_eq sponge_inv_pop_transcript)
  then show "sponge_inv sp \<Longrightarrow> sponge_inv (verify_products_hybrid lp sp)" by (simp add: verify_products_hybrid_def)
qed

lemma sumcheck_hybrid_inv:
  assumes "sumcheck_verify_hybrid proof degree bindings sp = Inr (z, sp')" "sponge_inv sp"
  shows "sponge_inv sp'"
proof -
  let ?n = "length (sc_messages proof)"
  obtain rhos sp1 where rhos: "times (?n + 1) challenge sp = (rhos, sp1)" by fastforce
  obtain gammas sp2 where gammas: "times ?n challenge sp1 = (gammas, sp2)" by fastforce
  have "sponge_inv sp2" using sponge_inv_challenges [OF assms(2) rhos] sponge_inv_challenges [OF _ gammas] by blast
  moreover have "sp' = snd (podp_transcript (sc_podp proof) sp2)"
    using assms(1) unfolding sumcheck_verify_hybrid_def Let_def rhos gammas case_prod_conv
    by (auto simp: rbind_eq_Inr_iff verify_podp_hybrid_eq)
  ultimately show ?thesis by (simp add: sponge_inv_podp_transcript)
qed

text \<open>A layer yields one canonical binding for each of its messages.\<close>

definition layer_bindings_ok :: "GKRProof \<Rightarrow> nat \<Rightarrow> u256 list \<Rightarrow> bool" where
  "layer_bindings_ok proof i bs \<longleftrightarrow>
     i < length (layer_proofs proof) \<and> length bs = length (sc_messages (sumcheck_proof (layer_proofs proof ! i)))
     \<and> (\<forall>b \<in> set bs. fr_canonical b)"

lemma process_one_layer_hybrid_inv:
  assumes "process_one_layer_hybrid i proof desc ctx sp = Inr ((bs, beta, z), sp')" "sponge_inv sp"
  shows "sponge_inv sp' \<and> layer_bindings_ok proof i bs"
proof -
  define nc where "nc = (if i = 0 then count_claims_for i desc + 1 else count_claims_for i desc)"
  obtain coeffs sp1 where c: "times nc challenge sp = (coeffs, sp1)" by fastforce
  from assms(1) obtain lp where lp: "idx (layer_proofs proof) i = Inr lp"
    by (auto simp: process_one_layer_hybrid_def Let_def rbind_eq_Inr_iff case_prod_unfold)
  obtain bs1 sp2 where b: "derive (sc_messages (sumcheck_proof lp)) sp1 = (bs1, sp2)" by fastforce
  from assms(1) obtain t sp3 where *: "bs = bs1" "sp' = verify_products_hybrid lp sp3"
    "sumcheck_verify_hybrid (sumcheck_proof lp) (layer_degree t) bs1 (absorb_commitments (commitments lp) sp2) = Inr (z, sp3)"
    unfolding process_one_layer_hybrid_def Let_def nc_def [symmetric] c case_prod_conv lp rbind_Inr derive_bindings_eq b
    by (auto simp: rbind_eq_Inr_iff)
  have "sponge_inv sp1" using sponge_inv_challenges [OF assms(2) c] by blast
  from derive_canonical [OF this b] have d: "sponge_inv sp2" "\<forall>b \<in> set bs1. fr_canonical b" by auto
  have "sponge_inv sp3" by (rule sumcheck_hybrid_inv [OF *(3) sponge_inv_absorb_commitments [OF d(1)]])
  moreover have "length bs1 = length (sc_messages (sumcheck_proof lp))"
    using length_derive [of "sc_messages (sumcheck_proof lp)" sp1] b by simp
  ultimately show ?thesis
    using lp d(2) by (auto simp: *(1,2) layer_bindings_ok_def idx_eq_Inr_iff sponge_inv_products_hybrid)
qed

lemma process_one_layer_inv:
  "process_one_layer i proof desc gens ctx sp = Inr (bs, sp') \<Longrightarrow> sponge_inv sp
    \<Longrightarrow> sponge_inv sp' \<and> layer_bindings_ok proof i bs"
  using process_one_layer_agree process_one_layer_hybrid_inv by blast

definition ctx_ok :: "GKRProof \<Rightarrow> VerifyContext \<Rightarrow> bool" where
  "ctx_ok proof ctx \<longleftrightarrow>
     (\<forall>i < length (all_bindings ctx). layer_bindings_ok proof i (all_bindings ctx ! i))
     \<and> (\<forall>c \<in> set (output_challenges ctx). fr_canonical c)"

lemma output_layer_ok:
  assumes "output_layer proof sp = Inr (ctx, sp')" "sponge_inv sp"
  shows "sponge_inv sp' \<and> ctx_ok proof ctx \<and> all_bindings ctx = []"
proof -
  obtain lp0 where lp0: "idx (layer_proofs proof) 0 = Inr lp0"
    using assms(1) by (auto simp: output_layer_def rbind_eq_Inr_iff)
  obtain cs sp1 where c: "times (length (sc_messages (sumcheck_proof lp0))) challenge sp = (cs, sp1)" by fastforce
  from sponge_inv_challenges [OF assms(2) c] assms(1) show ?thesis
    by (auto simp: output_layer_def lp0 c rbind_eq_Inr_iff ctx_ok_def sponge_inv_absorb_u256)
qed

theorem verify_compute_layers_ok:
  assumes "verify_compute_layers proof desc gens sp = Inr (ctx, sp')" "sponge_inv sp"
  shows "sponge_inv sp' \<and> ctx_ok proof ctx \<and> length (all_bindings ctx) = num_compute_layers desc"
proof -
  let ?full = "\<lambda>i (ctx, sponge). rbind (process_one_layer i proof desc gens ctx sponge) (\<lambda>(bindings, sponge).
         Inr (ctx\<lparr>all_bindings := all_bindings ctx @ [bindings]\<rparr>, sponge))"
  have "sponge_inv s' \<and> ctx_ok proof c' \<and> length (all_bindings c') = n"
    if "rfold ?full [0..<n] (c, s) = Inr (c', s')" "sponge_inv s" "ctx_ok proof c" "all_bindings c = []" for n c s c' s'
    using that
  proof (induction n arbitrary: c' s')
    case 0
    then show ?case by simp
  next
    case (Suc n)
    from Suc.prems(1) obtain c1 s1 bs where r: "rfold ?full [0..<n] (c, s) = Inr (c1, s1)"
      and p: "process_one_layer n proof desc gens c1 s1 = Inr (bs, s')"
      and c': "c' = c1\<lparr>all_bindings := all_bindings c1 @ [bs]\<rparr>"
      by (auto simp: rfold_append rbind_eq_Inr_iff)
    have IH: "sponge_inv s1" "ctx_ok proof c1" "length (all_bindings c1) = n" using Suc.IH [OF r] Suc.prems by auto
    from process_one_layer_inv [OF p IH(1)] IH show ?case
      by (auto simp: c' ctx_ok_def nth_append less_Suc_eq)
  qed
  moreover from assms(1) obtain c0 s0 where "output_layer proof sp = Inr (c0, s0)"
    "rfold ?full [0..<num_compute_layers desc] (c0, s0) = Inr (ctx, sp')"
    by (auto simp: verify_compute_layers_def rbind_eq_Inr_iff)
  ultimately show ?thesis using output_layer_ok [OF _ assms(2)] by blast
qed

end
