(* ===== verification/Hyrax.thy ===== *)
theory Hyrax
  imports GKR "HOL-Library.List_Lexorder"
begin

text \<open>
  Input layer verification (\<open>crates/zkml-verifier/src/hyrax.rs\<close>): tensor products, multilinear extensions,
  sorting and grouping of claims, committed and public input layers, in the full and in the hybrid form.

  The indices of \<open>sort_claim_indices\<close> are a permutation of \<open>0..n\<close> throughout, so that its accesses, which
  are written with \<open>!\<close>, are in range.
\<close>

section \<open>Tensor products\<close>

definition tensor_cell :: "fr \<Rightarrow> fr \<Rightarrow> nat \<Rightarrow> nat \<Rightarrow> u256 list \<Rightarrow> u256 list res" where
  "tensor_cell r one_minus_r len i table =
     rbind (idx table i) (\<lambda>val.
     rbind (upd table (i + len) (fr_mul val r)) (\<lambda>table. upd table i (fr_mul val one_minus_r)))"

definition tensor_level :: "u256 list \<Rightarrow> nat \<Rightarrow> u256 list \<times> nat \<Rightarrow> (u256 list \<times> nat) res" where
  "tensor_level coords i s =
     (let (table, len) = s
      in rbind (idx coords i) (\<lambda>r.
         let one_minus_r = fr_sub u256_ONE r
         in rbind (rfold (tensor_cell r one_minus_r len) [0..<len] table) (\<lambda>table. Inr (table, len * 2))))"

text \<open>\<open>vec![U256::ZERO; size]\<close> allocates 32 bytes per entry.\<close>

definition initialize_tensor :: "u256 list \<Rightarrow> u256 list res" where
  "initialize_tensor coords =
     (let size = shl1 (length coords)
      in rbind (with_capacity 32 size) (\<lambda>_.
         let table = (replicate size u256_ZERO)[0 := u256_ONE]
         in if coords = [] then Inr table
            else rmap fst (rfold (tensor_level coords) (rev [0..<length coords]) (table, 1))))"

definition rlc_tensor_claim :: "u256 list list \<Rightarrow> nat \<Rightarrow> u256 list \<Rightarrow> nat \<Rightarrow> u256 list \<Rightarrow> u256 list res" where
  "rlc_tensor_claim claim_points l_half_len rlc_coeffs c result =
     rbind (idx claim_points c) (\<lambda>p.
     rbind (slice p 0 l_half_len) (\<lambda>l_vars.
     rbind (initialize_tensor l_vars) (\<lambda>tensor.
     rfold (\<lambda>j result.
         rbind (idx result j) (\<lambda>old. rbind (idx tensor j) (\<lambda>t. rbind (idx rlc_coeffs c) (\<lambda>coeff.
         upd result j (fr_add old (fr_mul t coeff))))))
       [0..<shl1 l_half_len] result)))"

definition compute_rlc_tensor :: "u256 list list \<Rightarrow> nat \<Rightarrow> u256 list \<Rightarrow> u256 list res" where
  "compute_rlc_tensor claim_points l_half_len rlc_coeffs =
     (let tensor_len = shl1 l_half_len
      in rbind (with_capacity 32 tensor_len) (\<lambda>_.
         rfold (rlc_tensor_claim claim_points l_half_len rlc_coeffs) [0..<length claim_points]
           (replicate tensor_len u256_ZERO)))"

section \<open>Multilinear extensions\<close>

definition mle_eq :: "u256 list \<Rightarrow> nat \<Rightarrow> fr" where
  "mle_eq point w =
     (let n = length point
      in fold (\<lambda>i eq.
            let wi = shr w (n - 1 - i) mod 2; xi = point ! i
            in if wi = 1 then fr_mul eq xi else fr_mul eq (fr_sub u256_ONE xi))
          [0..<n] u256_ONE)"

definition evaluate_mle_from_data :: "u256 list \<Rightarrow> u256 list \<Rightarrow> u256 res" where
  "evaluate_mle_from_data data point =
     (let n = length point
      in rbind (rassert (length data \<le> shl1 n) ''data too large'') (\<lambda>_.
         Inr (fold (\<lambda>w result.
             if is_zero (data ! w) then result
             else fr_add result (fr_mul (data ! w) (mle_eq point w)))
           [0..<length data] u256_ZERO)))"

section \<open>Sorting and grouping\<close>

fun compare_points :: "u256 list \<Rightarrow> u256 list \<Rightarrow> int" where
  "compare_points (a # as) (b # bs) =
     (if a = b then compare_points as bs else if \<not> gte a b then - 1 else 1)"
| "compare_points [] [] = 0"
| "compare_points [] (b # bs) = - 1"
| "compare_points (a # as) [] = 1"

fun shift_right :: "u256 list list \<Rightarrow> nat \<Rightarrow> nat \<Rightarrow> nat list \<Rightarrow> nat \<times> nat list" where
  "shift_right claim_points key 0 indices = (0, indices)"
| "shift_right claim_points key (Suc j) indices =
     (if compare_points (claim_points ! (indices ! j)) (claim_points ! key) > 0
      then shift_right claim_points key j (indices[Suc j := indices ! j])
      else (Suc j, indices))"

definition sort_step :: "u256 list list \<Rightarrow> nat \<Rightarrow> nat list \<Rightarrow> nat list" where
  "sort_step claim_points i indices =
     (let key = indices ! i; (j, indices) = shift_right claim_points key i indices in indices[j := key])"

definition sort_claim_indices :: "u256 list list \<Rightarrow> nat list" where
  "sort_claim_indices claim_points =
     (let n = length claim_points; indices = [0..<n] in fold (sort_step claim_points) [1..<n] indices)"

fun all_equal_from :: "u256 list \<Rightarrow> u256 list \<Rightarrow> nat list \<Rightarrow> bool res" where
  "all_equal_from a b [] = Inr True"
| "all_equal_from a b (i # is) =
     rbind (idx a i) (\<lambda>ai. rbind (idx b i) (\<lambda>bi. if ai \<noteq> bi then Inr False else all_equal_from a b is))"

text \<open>The difference wraps around when the point is too short; then no entry is compared.\<close>

definition r_half_equals :: "u256 list \<Rightarrow> u256 list \<Rightarrow> nat \<Rightarrow> bool res" where
  "r_half_equals a b log_n_cols =
     (let n = length a; start_r = (if log_n_cols \<le> n then n - log_n_cols else n + 2 ^ 64 - log_n_cols)
      in all_equal_from a b [start_r..<n])"

text \<open>The search over the groups so far, which adds the claim to the first group with its R-half.\<close>

fun find_group ::
  "u256 list list \<Rightarrow> nat \<Rightarrow> nat \<Rightarrow> nat list \<Rightarrow> nat list list \<times> nat list \<Rightarrow> (nat list list \<times> nat list) res" where
  "find_group claim_points log_n_cols claim_idx [] s = Inr s"
| "find_group claim_points log_n_cols claim_idx (g # gs) s =
     (let (temp_groups, temp_group_sizes) = s
      in rbind (idx temp_group_sizes g) (\<lambda>sz.
         if sz > 0
         then rbind (idx temp_groups g) (\<lambda>tg. rbind (idx tg 0) (\<lambda>first_in_group.
              rbind (idx claim_points first_in_group) (\<lambda>p. rbind (idx claim_points claim_idx) (\<lambda>p'.
              rbind (r_half_equals p p' log_n_cols) (\<lambda>eq.
              if eq then Inr (temp_groups[g := tg @ [claim_idx]], temp_group_sizes[g := sz + 1])
              else find_group claim_points log_n_cols claim_idx gs s)))))
         else find_group claim_points log_n_cols claim_idx gs s))"

definition group_claim ::
  "u256 list list \<Rightarrow> nat \<Rightarrow> nat \<times> nat \<Rightarrow> nat list list \<times> nat list \<Rightarrow> (nat list list \<times> nat list) res" where
  "group_claim claim_points log_n_cols ic s =
     (let (i, claim_idx) = ic
      in rbind (find_group claim_points log_n_cols claim_idx [0..<i] s) (\<lambda>(temp_groups, temp_group_sizes).
         Inr (temp_groups @ [[claim_idx]], temp_group_sizes @ [1])))"

definition group_claims_by_r_half :: "u256 list list \<Rightarrow> nat list \<Rightarrow> nat \<Rightarrow> nat list list res" where
  "group_claims_by_r_half claim_points sorted_indices log_n_cols =
     rbind (rfold (group_claim claim_points log_n_cols) (enumerate 0 sorted_indices) ([], [])) (\<lambda>(temp_groups, _).
     Inr (fold (\<lambda>tg groups. groups @ [tg]) temp_groups []))"

fun log2_loop :: "nat \<Rightarrow> nat \<Rightarrow> nat" where
  "log2_loop v result = (if v > 1 then log2_loop (v div 2) (result + 1) else result)"

declare log2_loop.simps [simp del]

definition log2 :: "nat \<Rightarrow> nat res" where
  "log2 x = rbind (rassert (x > 0) ''log2(0)'') (\<lambda>_. Inr (log2_loop x 0))"

section \<open>Claims of an input layer\<close>

definition collect_row ::
  "nat \<Rightarrow> DAGCircuitDescription \<Rightarrow> VerifyContext \<Rightarrow> nat \<Rightarrow> u256 list list \<Rightarrow> u256 list list res" where
  "collect_row target_layer desc ctx j claim_points =
     rbind (idx (atom_offsets desc) j) (\<lambda>atom_start.
     rbind (idx (atom_offsets desc) (j + 1)) (\<lambda>atom_end.
     rfold (\<lambda>a claim_points.
         rbind (idx (atom_target_layers desc) a) (\<lambda>target.
         if target = target_layer
         then rbind (idx (all_bindings ctx) j) (\<lambda>source.
              rbind (resolve_point a source desc) (\<lambda>p. Inr (claim_points @ [p])))
         else Inr claim_points))
       [atom_start..<atom_end] claim_points))"

definition collect_claim_points ::
  "nat \<Rightarrow> DAGCircuitDescription \<Rightarrow> VerifyContext \<Rightarrow> u256 list list res" where
  "collect_claim_points target_layer desc ctx =
     rfold (collect_row target_layer desc ctx) [0..<num_compute_layers desc] []"

section \<open>Public inputs\<close>

definition verify_one_public_claim ::
  "u256 list \<Rightarrow> G1Point \<Rightarrow> nat \<Rightarrow> u256 list \<Rightarrow> PublicValueClaim list \<Rightarrow> PedersenGens \<Rightarrow> unit res" where
  "verify_one_public_claim claim_point atom_commitment claim_idx public_inputs claims gens =
     rbind (rassert (claim_idx < length claims) ''not enough public value claims'') (\<lambda>_.
     rbind (idx claims claim_idx) (\<lambda>claim.
     rbind (rassert (pvc_commitment claim = atom_commitment) ''public claim commitment mismatch'') (\<lambda>_.
     rbind (ec_mul (scalar_gen gens) (pvc_value claim)) (\<lambda>g_val.
     rbind (ec_mul (blinding_gen gens) (pvc_blinding claim)) (\<lambda>h_blind.
     rbind (ec_add g_val h_blind) (\<lambda>expected.
     rbind (rassert (expected = pvc_commitment claim) ''Pedersen opening invalid'') (\<lambda>_.
     rbind (evaluate_mle_from_data public_inputs claim_point) (\<lambda>mle_val.
     rassert (mle_val = pvc_value claim) ''public input MLE mismatch''))))))))"

definition public_claim_atom ::
  "GKRProof \<Rightarrow> DAGCircuitDescription \<Rightarrow> PedersenGens \<Rightarrow> u256 list list \<Rightarrow> nat \<Rightarrow> u256 list \<Rightarrow> PublicValueClaim list
     \<Rightarrow> nat \<Rightarrow> nat \<Rightarrow> nat \<times> nat \<Rightarrow> (nat \<times> nat) res" where
  "public_claim_atom proof desc gens claim_points target_layer public_inputs claims j a s =
     (let (next_pub_claim_idx, c_idx) = s
      in rbind (idx (atom_target_layers desc) a) (\<lambda>target.
         if target \<noteq> target_layer then Inr s
         else rbind (idx claim_points c_idx) (\<lambda>p.
              rbind (idx (layer_proofs proof) j) (\<lambda>lp.
              rbind (idx (atom_commit_idxs desc) a) (\<lambda>ci.
              rbind (idx (commitments lp) ci) (\<lambda>c.
              rbind (verify_one_public_claim p c next_pub_claim_idx public_inputs claims gens) (\<lambda>_.
              Inr (next_pub_claim_idx + 1, c_idx + 1))))))))"

definition public_claim_row ::
  "GKRProof \<Rightarrow> DAGCircuitDescription \<Rightarrow> PedersenGens \<Rightarrow> u256 list list \<Rightarrow> nat \<Rightarrow> u256 list \<Rightarrow> PublicValueClaim list
     \<Rightarrow> nat \<Rightarrow> nat \<times> nat \<Rightarrow> (nat \<times> nat) res" where
  "public_claim_row proof desc gens claim_points target_layer public_inputs claims j s =
     rbind (idx (atom_offsets desc) j) (\<lambda>atom_start.
     rbind (idx (atom_offsets desc) (j + 1)) (\<lambda>atom_end.
     rfold (public_claim_atom proof desc gens claim_points target_layer public_inputs claims j)
       [atom_start..<atom_end] s))"

definition verify_public_input_claims ::
  "GKRProof \<Rightarrow> DAGCircuitDescription \<Rightarrow> PedersenGens \<Rightarrow> u256 list list \<Rightarrow> nat \<Rightarrow> nat \<Rightarrow> u256 list
     \<Rightarrow> PublicValueClaim list \<Rightarrow> nat res" where
  "verify_public_input_claims proof desc gens claim_points target_layer pub_claim_start_idx public_inputs claims =
     rmap fst (rfold (public_claim_row proof desc gens claim_points target_layer public_inputs claims)
       [0..<num_compute_layers desc] (pub_claim_start_idx, 0))"

section \<open>Committed inputs\<close>

definition absorb_podp :: "PODPProof \<Rightarrow> PoseidonSponge \<Rightarrow> u256 \<times> PoseidonSponge" where
  "absorb_podp podp sponge =
     (let sponge = absorb_u256 (pt_x (commit_d podp)) sponge;
          sponge = absorb_u256 (pt_y (commit_d podp)) sponge;
          sponge = absorb_u256 (pt_x (commit_d_dot_a podp)) sponge;
          sponge = absorb_u256 (pt_y (commit_d_dot_a podp)) sponge;
          (c, sponge) = challenge sponge;
          sponge = absorb_all (z_vector podp) sponge;
          sponge = absorb_u256 (z_delta podp) sponge;
          sponge = absorb_u256 (z_beta podp) sponge
      in (c, sponge))"

text \<open>The part of an evaluation group that both forms share: coefficients, L tensor, R tensor.\<close>

definition group_tensors ::
  "u256 list list \<Rightarrow> nat \<Rightarrow> nat \<Rightarrow> nat list \<Rightarrow> u256 list \<Rightarrow> (u256 list \<times> u256 list) res" where
  "group_tensors claim_points l_half_len log_n_cols group_claim_indices rlc_coeffs =
     rbind (rfold (\<lambda>i ps. rbind (idx claim_points i) (\<lambda>p. Inr (ps @ [p]))) group_claim_indices []) (\<lambda>group_points.
     rbind (compute_rlc_tensor group_points l_half_len rlc_coeffs) (\<lambda>l_coeffs.
     rbind (rfold (\<lambda>j vs. rbind (idx group_points 0) (\<lambda>p. rbind (idx p (l_half_len + j)) (\<lambda>v. Inr (vs @ [v]))))
              [0..<log_n_cols] []) (\<lambda>r_vars.
     rbind (initialize_tensor r_vars) (\<lambda>r_coeffs. Inr (l_coeffs, r_coeffs)))))"

definition verify_one_eval_group ::
  "DAGInputLayerProof \<Rightarrow> u256 list list \<Rightarrow> nat \<Rightarrow> nat \<Rightarrow> PedersenGens \<Rightarrow> nat \<times> nat list \<Rightarrow> PoseidonSponge
     \<Rightarrow> PoseidonSponge res" where
  "verify_one_eval_group dag_proof claim_points l_half_len log_n_cols gens gg sponge =
     (let (group_idx, group_claim_indices) = gg;
          group_size = length group_claim_indices;
          (rlc_coeffs, sponge) = times group_size challenge sponge
      in rbind (group_tensors claim_points l_half_len log_n_cols group_claim_indices rlc_coeffs) (\<lambda>(l_coeffs, r_coeffs).
         rbind (idx (com_evals dag_proof) group_idx) (\<lambda>com_eval.
         let sponge = absorb_u256 (pt_x com_eval) sponge;
             sponge = absorb_u256 (pt_y com_eval) sponge
         in rbind (idx (podps dag_proof) group_idx) (\<lambda>podp.
            let (podp_challenge, sponge) = absorb_podp podp sponge
            in rbind (multi_scalar_mul (commitment_rows dag_proof) l_coeffs) (\<lambda>com_x.
               rbind (verify_podp podp podp_challenge com_x com_eval r_coeffs gens) (\<lambda>ok.
               rbind (rassert ok ''committed input eval failed'') (\<lambda>_. Inr sponge)))))))"

text \<open>The dimensions of a committed layer: the length of the L-half and the number of column
  variables.\<close>

definition committed_dims :: "DAGInputLayerProof \<Rightarrow> u256 list list \<Rightarrow> (nat \<times> nat) res" where
  "committed_dims dag_proof claim_points =
     (let num_rows = length (commitment_rows dag_proof)
      in rbind (idx claim_points 0) (\<lambda>p0.
         let n = length p0
         in rbind (log2 (if num_rows > 0 then num_rows else 1)) (\<lambda>l_half_len.
            rbind (usub n l_half_len) (\<lambda>log_n_cols. Inr (l_half_len, log_n_cols)))))"

definition verify_committed_input_batch_eval ::
  "DAGInputLayerProof \<Rightarrow> u256 list list \<Rightarrow> PoseidonSponge \<Rightarrow> PedersenGens \<Rightarrow> PoseidonSponge res" where
  "verify_committed_input_batch_eval dag_proof claim_points sponge gens =
     rbind (committed_dims dag_proof claim_points) (\<lambda>(l_half_len, log_n_cols).
     let sorted_indices = sort_claim_indices claim_points
     in rbind (group_claims_by_r_half claim_points sorted_indices log_n_cols) (\<lambda>groups.
        rbind (rassert (length groups = length (podps dag_proof)) ''eval proof count mismatch'') (\<lambda>_.
        rfold (verify_one_eval_group dag_proof claim_points l_half_len log_n_cols gens) (enumerate 0 groups) sponge)))"

section \<open>All input layers\<close>

definition input_layer ::
  "GKRProof \<Rightarrow> DAGCircuitDescription \<Rightarrow> PedersenGens \<Rightarrow> VerifyContext \<Rightarrow> u256 list \<Rightarrow> DAGInputLayerProof list
     \<Rightarrow> PublicValueClaim list \<Rightarrow> nat \<Rightarrow> (nat \<times> nat) \<times> PoseidonSponge \<Rightarrow> ((nat \<times> nat) \<times> PoseidonSponge) res" where
  "input_layer proof desc gens ctx public_inputs dag_input_proofs public_value_claims input_idx s =
     (let ((dag_input_idx, pub_claim_idx), sponge) = s;
          target_layer = num_compute_layers desc + input_idx
      in rbind (collect_claim_points target_layer desc ctx) (\<lambda>claim_points.
         rbind (idx (input_is_committed desc) input_idx) (\<lambda>committed.
         if committed
         then rbind (idx dag_input_proofs dag_input_idx) (\<lambda>dp.
              rbind (verify_committed_input_batch_eval dp claim_points sponge gens) (\<lambda>sponge.
              Inr ((dag_input_idx + 1, pub_claim_idx), sponge)))
         else rbind (verify_public_input_claims proof desc gens claim_points target_layer pub_claim_idx
                       public_inputs public_value_claims) (\<lambda>pub_claim_idx.
              Inr ((dag_input_idx, pub_claim_idx), sponge)))))"

definition verify_input_layers ::
  "GKRProof \<Rightarrow> DAGCircuitDescription \<Rightarrow> PedersenGens \<Rightarrow> VerifyContext \<Rightarrow> PoseidonSponge \<Rightarrow> u256 list
     \<Rightarrow> DAGInputLayerProof list \<Rightarrow> PublicValueClaim list \<Rightarrow> PoseidonSponge res" where
  "verify_input_layers proof desc gens ctx sponge public_inputs dag_input_proofs public_value_claims =
     rmap snd (rfold (input_layer proof desc gens ctx public_inputs dag_input_proofs public_value_claims)
       [0..<num_input_layers desc] ((0, 0), sponge))"

section \<open>Hybrid input layers\<close>

record InputFrOutputs =
  l_tensor_flat :: "u256 list"
  z_dot_rs :: "u256 list"
  mle_evals :: "u256 list"

definition public_claim_atom_hybrid ::
  "DAGCircuitDescription \<Rightarrow> u256 list list \<Rightarrow> nat \<Rightarrow> u256 list \<Rightarrow> nat
     \<Rightarrow> (nat \<times> nat) \<times> InputFrOutputs \<Rightarrow> ((nat \<times> nat) \<times> InputFrOutputs) res" where
  "public_claim_atom_hybrid desc claim_points target_layer public_inputs a s =
     (let ((next_pub_claim_idx, c_idx), outputs) = s
      in rbind (idx (atom_target_layers desc) a) (\<lambda>target.
         if target \<noteq> target_layer then Inr s
         else rbind (idx claim_points c_idx) (\<lambda>p.
              rbind (evaluate_mle_from_data public_inputs p) (\<lambda>mle_val.
              Inr ((next_pub_claim_idx + 1, c_idx + 1), outputs\<lparr>mle_evals := mle_evals outputs @ [mle_val]\<rparr>)))))"

definition public_claim_row_hybrid ::
  "DAGCircuitDescription \<Rightarrow> u256 list list \<Rightarrow> nat \<Rightarrow> u256 list \<Rightarrow> nat
     \<Rightarrow> (nat \<times> nat) \<times> InputFrOutputs \<Rightarrow> ((nat \<times> nat) \<times> InputFrOutputs) res" where
  "public_claim_row_hybrid desc claim_points target_layer public_inputs j s =
     rbind (idx (atom_offsets desc) j) (\<lambda>atom_start.
     rbind (idx (atom_offsets desc) (j + 1)) (\<lambda>atom_end.
     rfold (public_claim_atom_hybrid desc claim_points target_layer public_inputs) [atom_start..<atom_end] s))"

definition verify_public_input_claims_hybrid ::
  "DAGCircuitDescription \<Rightarrow> u256 list list \<Rightarrow> nat \<Rightarrow> nat \<Rightarrow> u256 list \<Rightarrow> InputFrOutputs \<Rightarrow> (nat \<times> InputFrOutputs) res" where
  "verify_public_input_claims_hybrid desc claim_points target_layer pub_claim_start_idx public_inputs outputs =
     rmap (\<lambda>((k, _), outputs). (k, outputs))
       (rfold (public_claim_row_hybrid desc claim_points target_layer public_inputs)
          [0..<num_compute_layers desc] ((pub_claim_start_idx, 0), outputs))"

definition verify_one_eval_group_hybrid ::
  "DAGInputLayerProof \<Rightarrow> u256 list list \<Rightarrow> nat \<Rightarrow> nat \<Rightarrow> nat \<times> nat list \<Rightarrow> InputFrOutputs \<times> PoseidonSponge
     \<Rightarrow> (InputFrOutputs \<times> PoseidonSponge) res" where
  "verify_one_eval_group_hybrid dag_proof claim_points l_half_len log_n_cols gg s =
     (let (outputs, sponge) = s;
          (group_idx, group_claim_indices) = gg;
          group_size = length group_claim_indices;
          (rlc_coeffs, sponge) = times group_size challenge sponge
      in rbind (group_tensors claim_points l_half_len log_n_cols group_claim_indices rlc_coeffs) (\<lambda>(l_coeffs, r_coeffs).
         let outputs = outputs\<lparr>l_tensor_flat := l_tensor_flat outputs @ l_coeffs\<rparr>
         in rbind (idx (com_evals dag_proof) group_idx) (\<lambda>com_eval.
            let sponge = absorb_u256 (pt_x com_eval) sponge;
                sponge = absorb_u256 (pt_y com_eval) sponge
            in rbind (idx (podps dag_proof) group_idx) (\<lambda>podp.
               let (_, sponge) = absorb_podp podp sponge
               in rbind (inner_product (z_vector podp) r_coeffs) (\<lambda>z_dot_r.
                  Inr (outputs\<lparr>z_dot_rs := z_dot_rs outputs @ [z_dot_r]\<rparr>, sponge))))))"

definition verify_committed_input_batch_eval_hybrid ::
  "DAGInputLayerProof \<Rightarrow> u256 list list \<Rightarrow> PoseidonSponge \<Rightarrow> InputFrOutputs \<Rightarrow> (InputFrOutputs \<times> PoseidonSponge) res" where
  "verify_committed_input_batch_eval_hybrid dag_proof claim_points sponge outputs =
     rbind (committed_dims dag_proof claim_points) (\<lambda>(l_half_len, log_n_cols).
     let sorted_indices = sort_claim_indices claim_points
     in rbind (group_claims_by_r_half claim_points sorted_indices log_n_cols) (\<lambda>groups.
        rfold (verify_one_eval_group_hybrid dag_proof claim_points l_half_len log_n_cols) (enumerate 0 groups)
          (outputs, sponge)))"

definition input_layer_hybrid ::
  "DAGCircuitDescription \<Rightarrow> VerifyContext \<Rightarrow> u256 list \<Rightarrow> DAGInputLayerProof list
     \<Rightarrow> nat \<Rightarrow> (nat \<times> nat) \<times> InputFrOutputs \<times> PoseidonSponge \<Rightarrow> ((nat \<times> nat) \<times> InputFrOutputs \<times> PoseidonSponge) res" where
  "input_layer_hybrid desc ctx public_inputs dag_input_proofs input_idx s =
     (let ((dag_input_idx, pub_claim_idx), outputs, sponge) = s;
          target_layer = num_compute_layers desc + input_idx
      in rbind (collect_claim_points target_layer desc ctx) (\<lambda>claim_points.
         rbind (idx (input_is_committed desc) input_idx) (\<lambda>committed.
         if committed
         then rbind (idx dag_input_proofs dag_input_idx) (\<lambda>dp.
              rbind (verify_committed_input_batch_eval_hybrid dp claim_points sponge outputs) (\<lambda>(outputs, sponge).
              Inr ((dag_input_idx + 1, pub_claim_idx), outputs, sponge)))
         else rbind (verify_public_input_claims_hybrid desc claim_points target_layer pub_claim_idx public_inputs outputs)
                (\<lambda>(pub_claim_idx, outputs). Inr ((dag_input_idx, pub_claim_idx), outputs, sponge)))))"

definition verify_input_layers_hybrid ::
  "DAGCircuitDescription \<Rightarrow> VerifyContext \<Rightarrow> PoseidonSponge \<Rightarrow> u256 list \<Rightarrow> DAGInputLayerProof list
     \<Rightarrow> (InputFrOutputs \<times> PoseidonSponge) res" where
  "verify_input_layers_hybrid desc ctx sponge public_inputs dag_input_proofs =
     rmap snd (rfold (input_layer_hybrid desc ctx public_inputs dag_input_proofs) [0..<num_input_layers desc]
       ((0, 0), \<lparr>l_tensor_flat = [], z_dot_rs = [], mle_evals = []\<rparr>, sponge))"

end
