(* ===== verification/Hyrax_Laws.thy ===== *)
theory Hyrax_Laws
  imports Hyrax "HOL-Library.Multiset"
begin

text \<open>
  The algorithms of \<open>hyrax.rs\<close> against their specifications: the in-place tensor product and the
  multilinear extension against the weights \<open>weight\<close> (most significant variable first), the insertion sort
  against the lexicographic order on points, the grouping, the logarithm; and the agreement of the hybrid
  input layers with the full ones.
\<close>

section \<open>Weights\<close>

text \<open>The weight of the index \<open>w\<close> at a point: the product over the variables, the first of which belongs
  to the most significant bit.\<close>

fun weight :: "int list \<Rightarrow> nat \<Rightarrow> int" where
  "weight [] w = 1"
| "weight (c # cs) w = (if odd (w div 2 ^ length cs) then c else 1 - c) * weight cs w"

abbreviation ints :: "u256 list \<Rightarrow> int list" where
  "ints \<equiv> map (\<lambda>x. int (uval x))"

abbreviation R :: int where "R \<equiv> int (uval FR_MOD)"

lemma weight_high: "weight cs (w + 2 ^ k) = weight cs w" if "length cs \<le> k"
  using that
proof (induction cs)
  case Nil
  then show ?case by simp
next
  case (Cons c cs)
  then obtain d where k: "k = length cs + Suc d" by (metis add_Suc_right less_iff_Suc_add Suc_le_eq length_Cons)
  have "(w + 2 ^ k) div 2 ^ length cs = w div 2 ^ length cs + 2 * 2 ^ d"
    using div_mult_self2 [of "2 ^ length cs" w "2 * 2 ^ d"] by (simp add: k power_add mult.left_commute)
  then have "odd ((w + 2 ^ k) div 2 ^ length cs) \<longleftrightarrow> odd (w div 2 ^ length cs)" by simp
  then show ?case using Cons by simp
qed

lemma fr_mul_mod: "int (uval a) = x mod R \<Longrightarrow> int (uval b) = y mod R \<Longrightarrow> int (uval (fr_mul a b)) = x * y mod R"
  by (simp add: Fr.mul_mod zmod_int mod_simps)

lemma fr_one_minus: "fr_canonical x \<Longrightarrow> int (uval (fr_sub u256_ONE x)) = (1 - int (uval x)) mod R"
  by (simp add: Fr.sub_reduced)

section \<open>The tensor product\<close>

lemma tensor_cells:
  assumes "2 * len \<le> length table" "k \<le> len"
  shows "\<exists>t'. rfold (tensor_cell r s len) [0..<k] table = Inr t' \<and> length t' = length table
    \<and> (\<forall>j < len. t' ! j = (if j < k then fr_mul (table ! j) s else table ! j))
    \<and> (\<forall>j < k. t' ! (j + len) = fr_mul (table ! j) r)"
  using assms(2)
proof (induction k)
  case 0
  then show ?case by simp
next
  case (Suc k)
  then obtain t where t: "rfold (tensor_cell r s len) [0..<k] table = Inr t" "length t = length table"
    "\<forall>j < len. t ! j = (if j < k then fr_mul (table ! j) s else table ! j)"
    "\<forall>j < k. t ! (j + len) = fr_mul (table ! j) r" by auto
  let ?t = "t[k + len := fr_mul (table ! k) r, k := fr_mul (table ! k) s]"
  have "tensor_cell r s len k t = Inr ?t"
    using Suc.prems assms(1) t(2,3) by (simp add: tensor_cell_def idx_def upd_def)
  moreover have "\<forall>j < len. ?t ! j = (if j < Suc k then fr_mul (table ! j) s else table ! j)"
    using t(2,3) Suc.prems assms(1) by (auto simp: nth_list_update less_Suc_eq)
  moreover have "\<forall>j < Suc k. ?t ! (j + len) = fr_mul (table ! j) r"
    using t(2,4) Suc.prems assms(1) by (auto simp: nth_list_update less_Suc_eq)
  ultimately show ?case using t(1,2) by (simp add: rfold_append)
qed

text \<open>The loop invariant: after the variables from \<open>k\<close> on, the first \<open>2\<^sup>n\<^sup>-\<^sup>k\<close> cells hold the weights.\<close>

definition tensor_inv :: "u256 list \<Rightarrow> nat \<Rightarrow> u256 list \<times> nat \<Rightarrow> bool" where
  "tensor_inv coords k s \<longleftrightarrow>
     length (fst s) = 2 ^ length coords \<and> snd s = 2 ^ (length coords - k)
     \<and> (\<forall>w < snd s. int (uval (fst s ! w)) = weight (ints (drop k coords)) w mod R)"

lemma tensor_level_step:
  assumes "\<forall>c \<in> set coords. fr_canonical c" "k < length coords" "tensor_inv coords (Suc k) s"
  shows "\<exists>s'. tensor_level coords k s = Inr s' \<and> tensor_inv coords k s'"
proof -
  obtain table len where s: "s = (table, len)" by fastforce
  let ?n = "length coords" and ?c = "coords ! k" and ?W = "weight (ints (drop (Suc k) coords))"
  have len: "len = 2 ^ (?n - Suc k)" "length table = 2 ^ ?n" and W: "\<forall>w < len. int (uval (table ! w)) = ?W w mod R"
    using assms(3) by (simp_all add: tensor_inv_def s)
  have len2: "2 ^ (?n - k) = 2 * len" using assms(2) by (simp add: len(1) Suc_diff_Suc flip: power_Suc)
  have "2 * len \<le> length table" using len2 len(2) by (metis diff_le_self one_le_numeral power_increasing)
  from tensor_cells [OF this order_refl, of ?c "fr_sub u256_ONE ?c"] obtain t' where
    t': "rfold (tensor_cell ?c (fr_sub u256_ONE ?c) len) [0..<len] table = Inr t'" "length t' = length table"
    "\<forall>j < len. t' ! j = fr_mul (table ! j) (fr_sub u256_ONE ?c)" "\<forall>j < len. t' ! (j + len) = fr_mul (table ! j) ?c" by auto
  have can: "fr_canonical ?c" using assms(1,2) by simp
  have drop: "drop k coords = ?c # drop (Suc k) coords" using assms(2) by (simp add: Cons_nth_drop_Suc)
  have L: "length (ints (drop (Suc k) coords)) = ?n - Suc k" by simp
  have "int (uval (t' ! w)) = weight (ints (drop k coords)) w mod R" if "w < 2 * len" for w
  proof (cases "w < len")
    case True
    then have "w div 2 ^ (?n - Suc k) = 0" by (simp add: len(1))
    then show ?thesis using True t'(3) W fr_mul_mod [OF _ fr_one_minus [OF can], of "table ! w" "?W w"]
      by (simp add: drop mult.commute)
  next
    case False
    define v where "v = w - len"
    have v: "w = v + len" "v < len" using False that by (simp_all add: v_def)
    have "w div len = 1" using v by (simp add: div_nat_eqI)
    then have "w div 2 ^ (?n - Suc k) = 1" by (simp add: len(1))
    moreover have "?W w = ?W v" unfolding v(1) len(1) by (rule weight_high) simp
    ultimately show ?thesis using v t'(4) W fr_mul_mod [of "table ! v" "?W v" ?c "int (uval ?c)"] can
      by (simp add: drop mult.commute)
  qed
  then have "tensor_inv coords k (t', len * 2)"
    using t'(2) len len2 by (simp add: tensor_inv_def mult.commute)
  moreover have "tensor_level coords k s = Inr (t', len * 2)"
    using assms(2) t'(1) by (simp add: tensor_level_def s idx_def)
  ultimately show ?thesis by blast
qed

text \<open>The tensor of 58 coordinates would have \<open>2 ^ 63\<close> bytes.\<close>

lemma tensor_capacity: "32 * 2 ^ n < (2 ^ 63 :: nat) \<longleftrightarrow> n < 58"
proof -
  have "32 * 2 ^ n = (2 :: nat) ^ (n + 5)" by (simp add: power_add)
  then have "32 * 2 ^ n < (2 ^ 63 :: nat) \<longleftrightarrow> n + 5 < 63" by (metis one_less_numeral_iff power_strict_increasing_iff semiring_norm(76))
  then show ?thesis by simp
qed

theorem initialize_tensor_ok:
  assumes "length coords < 58" "\<forall>c \<in> set coords. fr_canonical c"
  shows "\<exists>t. initialize_tensor coords = Inr t \<and> length t = 2 ^ length coords
    \<and> (\<forall>w < 2 ^ length coords. int (uval (t ! w)) = weight (ints coords) w mod R)"
proof -
  let ?t0 = "(replicate (2 ^ length coords) u256_ZERO)[0 := u256_ONE]"
  have base: "tensor_inv coords (length coords) (?t0, 1)" by (simp add: tensor_inv_def)
  have "\<exists>s. rfold (tensor_level coords) (rev [k..<length coords]) (?t0, 1) = Inr s \<and> tensor_inv coords k s"
    if "k \<le> length coords" for k
    using that
  proof (induction "length coords - k" arbitrary: k)
    case 0
    then show ?case using base by simp
  next
    case (Suc d)
    have "d = length coords - Suc k" "Suc k \<le> length coords" using Suc.hyps(2) by simp_all
    from Suc.hyps(1) [OF this] obtain s where "rfold (tensor_level coords) (rev [Suc k..<length coords]) (?t0, 1) = Inr s"
      "tensor_inv coords (Suc k) s" by blast
    moreover have k: "k < length coords" "[k..<length coords] = k # [Suc k..<length coords]"
      using Suc.hyps(2) by (simp_all add: upt_conv_Cons)
    moreover obtain s' where "tensor_level coords k s = Inr s'" "tensor_inv coords k s'"
      using tensor_level_step [OF assms(2) k(1) calculation(2)] by blast
    ultimately show ?case by (auto simp: rfold_append)
  qed
  from this [of 0] obtain s where s: "rfold (tensor_level coords) (rev [0..<length coords]) (?t0, 1) = Inr s" "tensor_inv coords 0 s"
    by auto
  have cap: "with_capacity 32 (2 ^ length coords) = Inr ()" using tensor_capacity [of "length coords"] assms(1) by (simp add: with_capacity_def)
  show ?thesis
  proof (cases "coords = []")
    case True
    then show ?thesis by (simp add: initialize_tensor_def shl1_def with_capacity_def)
  next
    case False
    then show ?thesis using s assms(1) cap by (simp add: initialize_tensor_def shl1_def tensor_inv_def)
  qed
qed

lemma initialize_tensor_panics: "58 \<le> length coords \<Longrightarrow> length coords < 64 \<Longrightarrow> panics (initialize_tensor coords)"
  using tensor_capacity [of "length coords"] by (simp add: initialize_tensor_def shl1_def with_capacity_def Let_def)

section \<open>The multilinear extension\<close>

lemma mle_eq_weight:
  assumes "length point < 64" "\<forall>c \<in> set point. fr_canonical c"
  shows "int (uval (mle_eq point w)) = weight (ints point) w mod R"
proof -
  let ?n = "length point"
  let ?f = "\<lambda>i eq. let wi = shr w (?n - 1 - i) mod 2; xi = point ! i
            in if wi = 1 then fr_mul eq xi else fr_mul eq (fr_sub u256_ONE xi)"
  have "int (uval (fold ?f [k..<?n] acc)) = int (uval acc) * weight (ints (drop k point)) w mod R"
    if "k \<le> ?n" "fr_canonical acc" for k acc
    using that
  proof (induction "?n - k" arbitrary: k acc)
    case 0
    then show ?case by simp
  next
    case (Suc d)
    then have k: "k < ?n" by simp
    let ?c = "point ! k"
    have can: "fr_canonical ?c" using assms(2) k by simp
    have drop: "drop k point = ?c # drop (Suc k) point" using k by (simp add: Cons_nth_drop_Suc)
    have sh: "shr w (?n - 1 - k) mod 2 = 1 \<longleftrightarrow> odd (w div 2 ^ (?n - Suc k))"
      using assms(1) by (simp add: shr_def odd_iff_mod_2_eq_one)
    have c1: "fr_canonical (?f k acc)" by (simp add: Let_def Fr.mul_less)
    have "int (uval (fold ?f [k..<?n] acc)) = int (uval (fold ?f [Suc k..<?n] (?f k acc)))"
      using k by (simp only: upt_conv_Cons fold_simps)
    also have "\<dots> = int (uval (?f k acc)) * weight (ints (drop (Suc k) point)) w mod R"
      using Suc.hyps(1) [of "Suc k" "?f k acc"] Suc.hyps(2) k c1 by simp
    also have "int (uval (?f k acc)) = int (uval acc) * (if odd (w div 2 ^ (?n - Suc k)) then int (uval ?c) else 1 - int (uval ?c)) mod R"
      using fr_one_minus [OF can] unfolding Let_def sh by (simp add: Fr.mul_mod zmod_int mod_simps)
    also have "\<dots> * weight (ints (drop (Suc k) point)) w mod R = int (uval acc) * weight (ints (drop k point)) w mod R"
      by (simp add: drop mod_simps mult.assoc)
    finally show ?case .
  qed
  from this [of 0 u256_ONE] show ?thesis by (simp add: mle_eq_def Let_def)
qed

definition mle_value :: "u256 list \<Rightarrow> u256 list \<Rightarrow> int" where
  "mle_value data point = (\<Sum>w < length data. int (uval (data ! w)) * weight (ints point) w)"

theorem evaluate_mle_value:
  assumes "length point < 64" "\<forall>c \<in> set point. fr_canonical c" "length data \<le> 2 ^ length point"
  shows "\<exists>v. evaluate_mle_from_data data point = Inr v \<and> int (uval v) = mle_value data point mod R"
proof -
  let ?g = "\<lambda>w result. if is_zero (data ! w) then result else fr_add result (fr_mul (data ! w) (mle_eq point w))"
  have "int (uval (fold ?g [0..<k] u256_ZERO)) = (\<Sum>w < k. int (uval (data ! w)) * weight (ints point) w) mod R" for k
  proof (induction k)
    case 0
    then show ?case by simp
  next
    case (Suc k)
    let ?acc = "fold ?g [0..<k] u256_ZERO"
    have "int (uval ?acc) < R" using Suc by simp
    then have can: "fr_canonical ?acc" by simp
    show ?case
    proof (cases "is_zero (data ! k)")
      case True
      then show ?thesis using Suc by (simp add: is_zero_iff)
    next
      case False
      have m: "int (uval (fr_mul (data ! k) (mle_eq point k))) = int (uval (data ! k)) * weight (ints point) k mod R"
        using mle_eq_weight [OF assms(1,2), of k] by (simp add: Fr.mul_mod zmod_int mod_simps)
      have "int (uval (fr_add ?acc (fr_mul (data ! k) (mle_eq point k)))) = (int (uval ?acc) + int (uval (data ! k)) * weight (ints point) k) mod R"
        using can by (simp add: Fr.add_reduced Fr.mul_less zmod_int m mod_simps)
      then show ?thesis using False by (simp add: Suc mod_simps)
    qed
  qed
  then show ?thesis using assms(1,3) by (simp add: evaluate_mle_from_data_def shl1_def mle_value_def)
qed

text \<open>Evaluating a multilinear extension is the inner product with the tensor of the point.\<close>

lemma mle_value_tensor:
  assumes "length point < 58" "\<forall>c \<in> set point. fr_canonical c" "length data = 2 ^ length point"
    and "initialize_tensor point = Inr t" "evaluate_mle_from_data data point = Inr v"
  shows "inner_product data t = Inr v"
proof -
  obtain t' where t': "initialize_tensor point = Inr t'" "length t' = 2 ^ length point"
    "\<forall>w < 2 ^ length point. int (uval (t' ! w)) = weight (ints point) w mod R" using initialize_tensor_ok [OF assms(1,2)] by blast
  have t: "t = t'" using t'(1) assms(4) by simp
  obtain v' where v': "evaluate_mle_from_data data point = Inr v'" "int (uval v') = mle_value data point mod R"
    using evaluate_mle_value [of point data] assms(1-3) by auto
  have v: "v = v'" using v'(1) assms(5) by simp
  have "int (uval (dot data t)) = (\<Sum>i < length data. int (uval (data ! i)) * int (uval (t ! i))) mod R"
    using uval_dot [of data t] assms(3) t t'(2) by (simp add: zmod_int)
  also have "\<dots> = (\<Sum>i < length data. int (uval (data ! i)) * (weight (ints point) i mod R) mod R) mod R"
    using t t'(3) assms(3) by (subst mod_sum_eq [symmetric]) simp
  also have "\<dots> = mle_value data point mod R" by (simp add: mod_simps mle_value_def mod_sum_eq)
  finally have "int (uval (dot data t)) = int (uval v')" by (simp only: v'(2))
  then have "dot data t = v" by (simp add: v)
  then show ?thesis using assms(3) t t'(2) by (simp add: inner_product_total)
qed

text \<open>At the boolean point of an index, the extension returns the datum of the index.\<close>

fun bits_msb :: "nat \<Rightarrow> nat \<Rightarrow> int list" where
  "bits_msb 0 w = []"
| "bits_msb (Suc n) w = (if odd (w div 2 ^ n) then 1 else 0) # bits_msb n w"

lemma length_bits_msb [simp]: "length (bits_msb n w) = n"
  by (induction n) auto

lemma weight_bits: "weight (bits_msb n u) w = (if u mod 2 ^ n = w mod 2 ^ n then 1 else 0)"
proof (induction n)
  case 0
  then show ?case by simp
next
  case (Suc n)
  have m: "x mod 2 ^ Suc n = 2 ^ n * (x div 2 ^ n mod 2) + x mod 2 ^ n" for x :: nat
    by (simp only: power_Suc2 mod_mult2_eq)
  have ne: "2 ^ n + x mod 2 ^ n \<noteq> y mod 2 ^ n" for x y :: nat
  proof -
    have "y mod 2 ^ n < 2 ^ n" by simp
    then show ?thesis by linarith
  qed
  have "u mod 2 ^ Suc n = w mod 2 ^ Suc n \<longleftrightarrow> (odd (u div 2 ^ n) \<longleftrightarrow> odd (w div 2 ^ n)) \<and> u mod 2 ^ n = w mod 2 ^ n"
    unfolding m by (cases "odd (u div 2 ^ n)"; cases "odd (w div 2 ^ n)") (simp_all add: mod_2_eq_odd ne ne [symmetric])
  then show ?case using Suc by auto
qed

theorem evaluate_mle_boolean:
  assumes "length point < 64" "ints point = bits_msb (length point) u" "u < length data"
    and "length data \<le> 2 ^ length point" "\<forall>d \<in> set data. fr_canonical d"
  shows "evaluate_mle_from_data data point = Inr (data ! u)"
proof -
  have can: "\<forall>c \<in> set point. fr_canonical c"
  proof
    fix c assume "c \<in> set point"
    then have "int (uval c) \<in> set (bits_msb (length point) u)" by (metis (mono_tags) assms(2) image_eqI list.set_map)
    moreover have "set (bits_msb n u) \<subseteq> {0, 1}" for n by (induction n) auto
    ultimately have "int (uval c) \<le> 1" by fastforce
    then show "fr_canonical c" using r_gt by linarith
  qed
  obtain v where v: "evaluate_mle_from_data data point = Inr v" "int (uval v) = mle_value data point mod R"
    using evaluate_mle_value [OF assms(1) can assms(4)] by blast
  have "mle_value data point = (\<Sum>w < length data. if w = u then int (uval (data ! u)) else 0)"
    unfolding mle_value_def assms(2) weight_bits using assms(3,4) by (intro sum.cong) auto
  also have "\<dots> = int (uval (data ! u))" using assms(3) by simp
  finally have "int (uval v) = int (uval (data ! u)) mod R" using v(2) by simp
  also have "\<dots> = int (uval (data ! u))" using assms(3,5) by simp
  finally show ?thesis using v(1) by simp
qed

section \<open>Sorting\<close>

lemma compare_points_lex:
  "(0 < compare_points a b \<longleftrightarrow> map uval b < map uval a)"
proof (induction a b rule: compare_points.induct)
  case (1 a as b bs)
  then show ?case by (auto simp: gte_iff not_le less_le)
qed auto

abbreviation claim_key :: "u256 list list \<Rightarrow> nat \<Rightarrow> nat list" where
  "claim_key ps i \<equiv> map uval (ps ! i)"

lemma shift_right_spec:
  assumes "j < length xs" "shift_right ps key j xs = (k, xs')"
  shows "k \<le> j \<and> xs'[k := key] = take k xs @ key # drop k (take j xs) @ drop (Suc j) xs
    \<and> (\<forall>m. k \<le> m \<longrightarrow> m < j \<longrightarrow> claim_key ps key < claim_key ps (xs ! m))
    \<and> (0 < k \<longrightarrow> claim_key ps (xs ! (k - 1)) \<le> claim_key ps key)"
  using assms
proof (induction j arbitrary: xs k xs')
  case 0
  then show ?case by (auto simp: upd_conv_take_nth_drop)
next
  case (Suc j)
  show ?case
  proof (cases "compare_points (ps ! (xs ! j)) (ps ! key) > 0")
    case True
    let ?ys = "xs[Suc j := xs ! j]"
    have IH: "k \<le> j" "xs'[k := key] = take k ?ys @ key # drop k (take j ?ys) @ drop (Suc j) ?ys"
      "\<And>m. k \<le> m \<Longrightarrow> m < j \<Longrightarrow> claim_key ps key < claim_key ps (?ys ! m)"
      "0 < k \<Longrightarrow> claim_key ps (?ys ! (k - 1)) \<le> claim_key ps key"
      using Suc.IH [of ?ys k xs'] Suc.prems True by auto
    have "drop (Suc j) ?ys = xs ! j # drop (Suc (Suc j)) xs"
      using Suc.prems(1) by (simp add: drop_update_swap) (metis Cons_nth_drop_Suc list_update_code(2))
    moreover have "drop k (take (Suc j) xs) = drop k (take j xs) @ [xs ! j]"
      using Suc.prems(1) IH(1) by (simp add: take_Suc_conv_app_nth)
    ultimately have "xs'[k := key] = take k xs @ key # drop k (take (Suc j) xs) @ drop (Suc (Suc j)) xs"
      using IH(1,2) by simp
    moreover have "claim_key ps key < claim_key ps (xs ! m)" if "k \<le> m" "m < Suc j" for m
      using that IH(3) [of m] True by (cases "m = j") (auto simp: compare_points_lex)
    moreover have "0 < k \<longrightarrow> claim_key ps (xs ! (k - 1)) \<le> claim_key ps key" using IH(1,4) by auto
    ultimately show ?thesis using IH(1) by auto
  next
    case False
    then have "k = Suc j" "xs' = xs" using Suc.prems by auto
    then show ?thesis using False Suc.prems(1) by (auto simp: upd_conv_take_nth_drop compare_points_lex not_less)
  qed
qed

lemma sort_step_spec:
  assumes "i < length xs" "sorted (map (claim_key ps) (take i xs))"
  shows "mset (sort_step ps i xs) = mset xs \<and> length (sort_step ps i xs) = length xs
    \<and> sorted (map (claim_key ps) (take (Suc i) (sort_step ps i xs)))"
proof -
  obtain k xs' where sh: "shift_right ps (xs ! i) i xs = (k, xs')" by fastforce
  let ?A = "take k xs" and ?B = "drop k (take i xs)" and ?C = "drop (Suc i) xs"
  have r: "sort_step ps i xs = ?A @ (xs ! i) # ?B @ ?C" and k: "k \<le> i"
    and gt: "\<And>m. k \<le> m \<Longrightarrow> m < i \<Longrightarrow> claim_key ps (xs ! i) < claim_key ps (xs ! m)"
    and le: "0 < k \<Longrightarrow> claim_key ps (xs ! (k - 1)) \<le> claim_key ps (xs ! i)"
    using shift_right_spec [OF assms(1) sh] by (auto simp: sort_step_def sh Let_def)
  have tk: "take i xs = ?A @ ?B" using k by (metis append_take_drop_id min.absorb1 take_take)
  have xs: "xs = ?A @ ?B @ xs ! i # ?C"
    using assms(1) tk by (metis append.assoc id_take_nth_drop)
  then have m: "mset (sort_step ps i xs) = mset xs" unfolding r by (metis (no_types, lifting) append.assoc append_Cons mset.simps(2) mset_append union_mset_add_mset_right)
  then have len: "length (sort_step ps i xs) = length xs" by (metis size_mset)
  have "take (Suc i) (sort_step ps i xs) = ?A @ (xs ! i) # ?B"
    using k assms(1) by (simp add: r min_def Suc_diff_le)
  moreover have "sorted (map (claim_key ps) (?A @ (xs ! i) # ?B))"
  proof -
    have "sorted (map (claim_key ps) (?A @ ?B))" by (simp only: tk [symmetric] assms(2))
    then have s: "sorted (map (claim_key ps) ?A)" "sorted (map (claim_key ps) ?B)"
      "\<forall>x \<in> set ?A. \<forall>y \<in> set ?B. claim_key ps x \<le> claim_key ps y"
      by (auto simp: sorted_append)
    have B: "\<forall>y \<in> set ?B. claim_key ps (xs ! i) \<le> claim_key ps y"
    proof
      fix y assume "y \<in> set ?B"
      then obtain m where m: "m < i - k" "y = xs ! (k + m)"
        using assms(1) k by (auto simp: in_set_conv_nth)
      then have "k + m < i" by simp
      then show "claim_key ps (xs ! i) \<le> claim_key ps y" using gt [of "k + m"] m(2) by simp
    qed
    have A: "\<forall>x \<in> set ?A. claim_key ps x \<le> claim_key ps (xs ! i)"
    proof (cases "k = 0")
      case False
      then have "?A = take (k - 1) xs @ [xs ! (k - 1)]"
        using k assms(1) by (metis Suc_diff_1 diff_le_self dual_order.strict_trans1 less_le_trans neq0_conv not_less take_Suc_conv_app_nth Suc_pred diff_less lessI zero_less_one)
      then have "\<forall>x \<in> set ?A. claim_key ps x \<le> claim_key ps (xs ! (k - 1))"
        using s(1) by (auto simp: sorted_append)
      then show ?thesis using le False by (meson neq0_conv order_trans)
    qed simp
    show ?thesis using s A B by (auto simp: sorted_append)
  qed
  ultimately show ?thesis using m len by simp
qed

theorem sort_claim_indices_ok:
  "mset (sort_claim_indices ps) = mset [0..<length ps] \<and> sorted (map (claim_key ps) (sort_claim_indices ps))"
proof (cases "length ps")
  case 0
  then show ?thesis by (simp add: sort_claim_indices_def)
next
  case (Suc n)
  let ?P = "\<lambda>i xs. mset xs = mset [0..<Suc n] \<and> length xs = Suc n \<and> sorted (map (claim_key ps) (take i xs))"
  have "?P (Suc n) (fold (sort_step ps) [1..<Suc n] [0..<Suc n])"
  proof (rule fold_range_invariant [where P = ?P])
    show "?P 1 [0..<Suc n]" by (simp del: upt_Suc) (simp add: upt_rec take_Cons')
  next
    fix i xs assume "1 \<le> i" "i < Suc n" "?P i xs"
    then show "?P (Suc i) (sort_step ps i xs)" using sort_step_spec [of i xs ps] by simp
  qed simp
  moreover have "sort_claim_indices ps = fold (sort_step ps) [1..<Suc n] [0..<Suc n]"
    by (simp only: sort_claim_indices_def Let_def Suc)
  ultimately show ?thesis unfolding Suc by (metis order_refl take_all)
qed

section \<open>Logarithm\<close>

lemma log2_loop_bounds: "0 < v \<Longrightarrow> \<exists>k. log2_loop v r = r + k \<and> 2 ^ k \<le> v \<and> v < 2 ^ Suc k"
proof (induction v r rule: log2_loop.induct)
  case (1 v r)
  show ?case
  proof (cases "v > 1")
    case True
    then obtain k where k: "log2_loop (v div 2) (r + 1) = r + 1 + k" "2 ^ k \<le> v div 2" "v div 2 < 2 ^ Suc k"
      using 1 by auto
    have "2 ^ Suc k \<le> v" "v < 2 ^ Suc (Suc k)" using k(2,3) by auto
    then show ?thesis using True k(1) by (intro exI [of _ "Suc k"]) (simp add: log2_loop.simps [of v r])
  next
    case False
    then show ?thesis using 1 by (intro exI [of _ 0]) (simp add: log2_loop.simps [of v r])
  qed
qed

lemma log2_bounds: "0 < x \<Longrightarrow> \<exists>k. log2 x = Inr k \<and> 2 ^ k \<le> x \<and> x < 2 ^ Suc k"
  using log2_loop_bounds [of x 0] by (simp add: log2_def)

section \<open>Grouping\<close>

definition groups_inv :: "nat list \<Rightarrow> nat set \<Rightarrow> nat list list \<times> nat list \<Rightarrow> bool" where
  "groups_inv cs S s \<longleftrightarrow> length (fst s) = length cs \<and> snd s = map length (fst s)
     \<and> (\<forall>g < length cs. fst s ! g \<noteq> [] \<and> hd (fst s ! g) = cs ! g \<and> set (fst s ! g) \<subseteq> S)"

lemma find_group_inv:
  assumes "find_group ps lc c gs s = Inr s'" "groups_inv cs S s" "set gs \<subseteq> {..<length cs}" "c \<in> S"
  shows "groups_inv cs S s'"
  using assms
proof (induction gs)
  case Nil
  then show ?case by simp
next
  case (Cons g gs)
  obtain tg szs where s: "s = (tg, szs)" by fastforce
  have g: "g < length cs" "length tg = length cs" "szs = map length tg"
    using Cons.prems by (auto simp: groups_inv_def s)
  have upd: "groups_inv cs S (tg[g := tg ! g @ [c]], szs[g := szs ! g + 1])"
    using Cons.prems(2,4) g by (auto simp: groups_inv_def s nth_list_update map_update)
  show ?case using Cons upd g
    by (auto simp: s rbind_eq_Inr_iff idx_eq_Inr_iff split: if_splits)
qed

lemma group_claims_inv:
  assumes "rfold (group_claim ps lc) (enumerate (length cs) xs) s = Inr s'" "groups_inv cs S s" "set xs \<subseteq> S"
  shows "groups_inv (cs @ xs) S s'"
  using assms
proof (induction xs arbitrary: cs s)
  case Nil
  then show ?case by simp
next
  case (Cons x xs)
  from Cons.prems(1) obtain tg szs where f: "find_group ps lc x [0..<length cs] s = Inr (tg, szs)"
    and r: "rfold (group_claim ps lc) (enumerate (length (cs @ [x])) xs) (tg @ [[x]], szs @ [1]) = Inr s'"
    by (auto simp: group_claim_def [of ps lc "(length cs, x)" s] rbind_eq_Inr_iff)
  have "groups_inv cs S (tg, szs)"
    using Cons.prems by (intro find_group_inv [OF f]) auto
  then have "groups_inv (cs @ [x]) S (tg @ [[x]], szs @ [1])"
    using Cons.prems(3) by (auto simp: groups_inv_def nth_append less_Suc_eq)
  from Cons.IH [OF r this] Cons.prems(3) show ?case by simp
qed

text \<open>There is one group per claim, in the order of the claims, and each begins with its claim.\<close>

theorem group_claims_ok:
  assumes "group_claims_by_r_half ps xs lc = Inr groups"
  shows "length groups = length xs
    \<and> (\<forall>g < length xs. groups ! g \<noteq> [] \<and> hd (groups ! g) = xs ! g \<and> set (groups ! g) \<subseteq> set xs)"
proof -
  from assms obtain tg szs where r: "rfold (group_claim ps lc) (enumerate 0 xs) ([], []) = Inr (tg, szs)"
    and g: "groups = fold (\<lambda>tg groups. groups @ [tg]) tg []"
    by (auto simp: group_claims_by_r_half_def rbind_eq_Inr_iff)
  have "fold (\<lambda>tg groups. groups @ [tg]) tg acc = acc @ tg" for acc by (induction tg arbitrary: acc) auto
  then have "groups = tg" using g by simp
  moreover have "groups_inv ([] @ xs) (set xs) (tg, szs)"
    using r by (intro group_claims_inv) (auto simp: groups_inv_def)
  ultimately show ?thesis by (simp add: groups_inv_def)
qed

section \<open>Acceptance of public claims\<close>

theorem verify_one_public_claim_iff:
  "verify_one_public_claim point com k inputs claims gens = Inr () \<longleftrightarrow>
     k < length claims \<and> pvc_commitment (claims ! k) = com
     \<and> pt_add (pt_mul (scalar_gen gens) (pvc_value (claims ! k))) (pt_mul (blinding_gen gens) (pvc_blinding (claims ! k))) = com
     \<and> evaluate_mle_from_data inputs point = Inr (pvc_value (claims ! k))"
  by (auto simp: verify_one_public_claim_def rbind_eq_Inr_iff idx_eq_Inr_iff ec_mul_total ec_add_total)

section \<open>The hybrid input layers follow the full ones\<close>

lemma absorb_podp_eq: "absorb_podp podp sp = podp_transcript podp sp"
  by (simp add: absorb_podp_def podp_transcript_def absorb_all_Cons absorb_all_append Let_def case_prod_unfold)

lemma eval_group_agree:
  assumes "verify_one_eval_group dp ps l lc gens gg sp = Inr sp'"
  shows "\<exists>outs'. verify_one_eval_group_hybrid dp ps l lc gg (outs, sp) = Inr (outs', sp')"
proof -
  obtain g cs where gg: "gg = (g, cs)" by fastforce
  obtain coeffs sp1 where c: "times (length cs) challenge sp = (coeffs, sp1)" by fastforce
  from assms obtain lt rt where t: "group_tensors ps l lc cs coeffs = Inr (lt, rt)"
    by (auto simp: verify_one_eval_group_def gg c Let_def rbind_eq_Inr_iff)
  from assms obtain ce podp where p: "idx (com_evals dp) g = Inr ce" "idx (podps dp) g = Inr podp"
    by (auto simp: verify_one_eval_group_def gg c t Let_def rbind_eq_Inr_iff)
  from assms obtain com_x where v: "verify_podp podp (fst (podp_transcript podp (absorb_u256 (pt_y ce) (absorb_u256 (pt_x ce) sp1)))) com_x ce rt gens = Inr True"
    and sp': "sp' = snd (podp_transcript podp (absorb_u256 (pt_y ce) (absorb_u256 (pt_x ce) sp1)))"
    by (auto simp: verify_one_eval_group_def gg c t p Let_def rbind_eq_Inr_iff absorb_podp_eq case_prod_unfold)
  have "length (z_vector podp) = length rt" using verify_podp_cases [OF v] by simp
  then show ?thesis
    by (auto simp: verify_one_eval_group_hybrid_def gg c t p Let_def absorb_podp_eq case_prod_unfold
        inner_product_total sp')
qed

lemma committed_agree:
  assumes "verify_committed_input_batch_eval dp ps sp gens = Inr sp'"
  shows "\<exists>outs'. verify_committed_input_batch_eval_hybrid dp ps sp outs = Inr (outs', sp')"
proof -
  from assms obtain l lc groups where d: "committed_dims dp ps = Inr (l, lc)"
    "group_claims_by_r_half ps (sort_claim_indices ps) lc = Inr groups"
    and r: "rfold (verify_one_eval_group dp ps l lc gens) (enumerate 0 groups) sp = Inr sp'"
    by (auto simp: verify_committed_input_batch_eval_def rbind_eq_Inr_iff Let_def)
  from r have "\<exists>outs'. rfold (verify_one_eval_group_hybrid dp ps l lc) (enumerate 0 groups) (outs, sp) = Inr (outs', sp')"
    by (rule rfold_simulation_ex [where h = Pair, rotated]) (rule eval_group_agree)
  then show ?thesis by (simp add: verify_committed_input_batch_eval_hybrid_def d)
qed

lemma public_atom_agree:
  assumes "public_claim_atom proof desc gens ps lay inputs claims j a s = Inr s'"
  shows "\<exists>outs'. public_claim_atom_hybrid desc ps lay inputs a (s, outs) = Inr (s', outs')"
proof -
  obtain k c where s: "s = (k, c)" by fastforce
  from assms obtain t where t: "idx (atom_target_layers desc) a = Inr t"
    by (auto simp: public_claim_atom_def s rbind_eq_Inr_iff)
  show ?thesis
  proof (cases "t = lay")
    case True
    with assms obtain p com where "idx ps c = Inr p" "verify_one_public_claim p com k inputs claims gens = Inr ()"
      "s' = (k + 1, c + 1)"
      by (auto simp: public_claim_atom_def s t rbind_eq_Inr_iff)
    then show ?thesis using True
      by (simp add: public_claim_atom_hybrid_def s t verify_one_public_claim_iff)
  next
    case False
    then show ?thesis using assms by (simp add: public_claim_atom_def public_claim_atom_hybrid_def s t)
  qed
qed

lemma public_row_agree:
  assumes "public_claim_row proof desc gens ps lay inputs claims j s = Inr s'"
  shows "\<exists>outs'. public_claim_row_hybrid desc ps lay inputs j (s, outs) = Inr (s', outs')"
proof -
  from assms obtain lo hi where r: "idx (atom_offsets desc) j = Inr lo" "idx (atom_offsets desc) (j + 1) = Inr hi"
    "rfold (public_claim_atom proof desc gens ps lay inputs claims j) [lo..<hi] s = Inr s'"
    by (auto simp: public_claim_row_def rbind_eq_Inr_iff)
  from r(3) have "\<exists>outs'. rfold (public_claim_atom_hybrid desc ps lay inputs) [lo..<hi] (s, outs) = Inr (s', outs')"
    by (rule rfold_simulation_ex [where h = "\<lambda>v s. (s, v)", rotated]) (rule public_atom_agree)
  then show ?thesis using r(1,2) by (simp add: public_claim_row_hybrid_def)
qed

lemma public_agree:
  assumes "verify_public_input_claims proof desc gens ps lay k inputs claims = Inr k'"
  shows "\<exists>outs'. verify_public_input_claims_hybrid desc ps lay k inputs outs = Inr (k', outs')"
proof -
  from assms obtain c' where "rfold (public_claim_row proof desc gens ps lay inputs claims) [0..<num_compute_layers desc] (k, 0) = Inr (k', c')"
    by (auto simp: verify_public_input_claims_def rmap_def rbind_eq_Inr_iff)
  then have "\<exists>outs'. rfold (public_claim_row_hybrid desc ps lay inputs) [0..<num_compute_layers desc] ((k, 0), outs) = Inr ((k', c'), outs')"
    by (rule rfold_simulation_ex [where h = "\<lambda>v s. (s, v)", rotated]) (rule public_row_agree)
  then show ?thesis by (auto simp: verify_public_input_claims_hybrid_def)
qed

lemma input_layer_agree:
  assumes "input_layer proof desc gens ctx inputs dps claims i (ks, sp) = Inr (ks', sp')"
  shows "\<exists>outs'. input_layer_hybrid desc ctx inputs dps i (ks, outs, sp) = Inr (ks', outs', sp')"
proof -
  obtain d k where ks: "ks = (d, k)" by fastforce
  from assms obtain ps com where c: "collect_claim_points (num_compute_layers desc + i) desc ctx = Inr ps"
    "idx (input_is_committed desc) i = Inr com"
    by (auto simp: input_layer_def ks rbind_eq_Inr_iff Let_def)
  show ?thesis
  proof (cases com)
    case True
    with assms c obtain dp where "idx dps d = Inr dp" "verify_committed_input_batch_eval dp ps sp gens = Inr sp'" "ks' = (d + 1, k)"
      by (auto simp: input_layer_def ks rbind_eq_Inr_iff Let_def)
    then show ?thesis using True c committed_agree [of dp ps sp gens sp' outs] by (auto simp: input_layer_hybrid_def ks)
  next
    case False
    with assms c obtain k' where k': "verify_public_input_claims proof desc gens ps (num_compute_layers desc + i) k inputs claims = Inr k'"
      "ks' = (d, k')" "sp' = sp"
      by (auto simp: input_layer_def ks rbind_eq_Inr_iff Let_def)
    then show ?thesis using False c public_agree [OF k'(1), of outs] by (auto simp: input_layer_hybrid_def ks)
  qed
qed

theorem verify_input_layers_agree:
  assumes "verify_input_layers proof desc gens ctx sp inputs dps claims = Inr sp'"
  shows "\<exists>outs. verify_input_layers_hybrid desc ctx sp inputs dps = Inr (outs, sp')"
proof -
  from assms obtain ks where "rfold (input_layer proof desc gens ctx inputs dps claims) [0..<num_input_layers desc] ((0, 0), sp) = Inr (ks, sp')"
    by (auto simp: verify_input_layers_def rmap_def rbind_eq_Inr_iff)
  then have "\<exists>outs'. rfold (input_layer_hybrid desc ctx inputs dps) [0..<num_input_layers desc]
      ((\<lambda>v (ks, sp). (ks, v, sp)) outs ((0, 0), sp)) = Inr ((\<lambda>v (ks, sp). (ks, v, sp)) outs' (ks, sp'))" for outs
    by (rule rfold_simulation_ex [where h = "\<lambda>v (ks, sp). (ks, v, sp)", rotated]) (auto dest: input_layer_agree)
  from this [of "\<lparr>l_tensor_flat = [], z_dot_rs = [], mle_evals = []\<rparr>"] show ?thesis
    by (auto simp: verify_input_layers_hybrid_def)
qed

end
