(* ===== verification/Decode.thy ===== *)
theory Decode
  imports GKR
begin

text \<open>
  Proof decoding (\<open>crates/zkml-verifier/src/decode.rs\<close>). A method of \<open>ProofDecoder\<close> is a \<open>reader\<close>: a
  function of the byte slice and the offset that returns a value and the new offset. \<open>rd_bind\<close> is the
  sequencing of the source's statements.

  The crate has two families of readers. The \<open>try_\<close> readers check every access and return errors; the
  legacy readers assert and do unchecked arithmetic on offsets, which wraps at 64 bits.
\<close>

section \<open>Readers\<close>

type_synonym 'a reader = "u8 list \<Rightarrow> nat \<Rightarrow> ('a \<times> nat) res"

definition rd_ret :: "'a \<Rightarrow> 'a reader" where
  "rd_ret x data off = Inr (x, off)"

definition rd_bind :: "'a reader \<Rightarrow> ('a \<Rightarrow> 'b reader) \<Rightarrow> 'b reader" where
  "rd_bind m f data off = rbind (m data off) (\<lambda>(x, off). f x data off)"

definition rd_lift :: "'a res \<Rightarrow> 'a reader" where
  "rd_lift m data off = rbind m (\<lambda>x. Inr (x, off))"

text \<open>The current offset.\<close>

definition rd_offset :: "nat reader" where
  "rd_offset data off = Inr (off, off)"

text \<open>\<open>for _ in 0..n\<close>, collecting the values or dropping them.\<close>

definition rd_times :: "nat \<Rightarrow> 'a reader \<Rightarrow> 'a list reader" where
  "rd_times n rd data off = rtimes n (rd data) off"

definition rd_repeat :: "nat \<Rightarrow> unit reader \<Rightarrow> unit reader" where
  "rd_repeat n rd = rd_bind (rd_times n rd) (\<lambda>_. rd_ret ())"

text \<open>\<open>Vec::with_capacity(n)\<close> for elements of \<open>w\<close> bytes, then \<open>n\<close> pushes.\<close>

definition rd_vec :: "nat \<Rightarrow> nat \<Rightarrow> 'a reader \<Rightarrow> 'a list reader" where
  "rd_vec w n rd = rd_bind (rd_lift (with_capacity w n)) (\<lambda>_. rd_times n rd)"

abbreviation MAX_ARRAY_LEN :: nat where "MAX_ARRAY_LEN \<equiv> 100000"

text \<open>Wrapping and checked arithmetic on \<open>usize\<close>.\<close>

definition wadd :: "nat \<Rightarrow> nat \<Rightarrow> nat" where "wadd a b = (a + b) mod 2 ^ 64"
definition wmul :: "nat \<Rightarrow> nat \<Rightarrow> nat" where "wmul a b = (a * b) mod 2 ^ 64"

definition checked_mul :: "string \<Rightarrow> nat \<Rightarrow> nat \<Rightarrow> nat res" where
  "checked_mul msg a b = (if a * b < 2 ^ 64 then Inr (a * b) else rerr (DecodeError (Size_Overflow msg)))"

definition checked_add :: "string \<Rightarrow> nat \<Rightarrow> nat \<Rightarrow> nat res" where
  "checked_add msg a b = (if a + b < 2 ^ 64 then Inr (a + b) else rerr (DecodeError (Size_Overflow msg)))"

section \<open>Primitive readers\<close>

definition read_u256 :: "u256 reader" where
  "read_u256 data start =
     (let end_off = wadd start 32
      in rbind (rassert (end_off \<le> length data) ''read_u256: out of bounds'') (\<lambda>_.
         rbind (slice data start end_off) (\<lambda>bytes. Inr (from_be_bytes bytes, end_off))))"

definition read_g1 :: "G1Point reader" where
  "read_g1 = rd_bind read_u256 (\<lambda>x. rd_bind read_u256 (\<lambda>y. rd_ret \<lparr>pt_x = x, pt_y = y\<rparr>))"

definition small :: "u256 \<Rightarrow> bool" where
  "small v \<longleftrightarrow> limb v 1 = 0 \<and> limb v 2 = 0 \<and> limb v 3 = 0"

definition read_usize :: "nat reader" where
  "read_usize =
     rd_bind read_u256 (\<lambda>v.
     rd_bind (rd_lift (rassert (small v) ''read_usize: value too large for usize'')) (\<lambda>_.
     rd_ret (unat (limb v 0))))"

definition rd_skip :: "nat \<Rightarrow> unit reader" where
  "rd_skip n data off = Inr ((), wadd off n)"

definition try_read_u256 :: "u256 reader" where
  "try_read_u256 data start =
     (let end_off = wadd start 32
      in if end_off > length data then rerr (DecodeError (Read_Out_Of_Bounds start (length data)))
         else rbind (slice data start end_off) (\<lambda>bytes. Inr (from_be_bytes bytes, end_off)))"

definition try_read_g1 :: "G1Point reader" where
  "try_read_g1 = rd_bind try_read_u256 (\<lambda>x. rd_bind try_read_u256 (\<lambda>y. rd_ret \<lparr>pt_x = x, pt_y = y\<rparr>))"

definition try_read_usize :: "nat reader" where
  "try_read_usize =
     rd_bind try_read_u256 (\<lambda>v.
     rd_lift (if \<not> small v then rerr (DecodeError Too_Large_For_Usize)
              else let val = unat (limb v 0)
                   in if val > MAX_ARRAY_LEN then rerr (DecodeError (Array_Too_Long val)) else Inr val))"

definition try_advance :: "nat \<Rightarrow> unit reader" where
  "try_advance n data off =
     (if off + n \<ge> 2 ^ 64 then rerr (DecodeError Offset_Overflow)
      else if off + n > length data then rerr (DecodeError (Advance_Out_Of_Bounds off n (length data)))
      else Inr ((), off + n))"

section \<open>Composite readers that return errors\<close>

definition try_decode_podp :: "PODPProof reader" where
  "try_decode_podp =
     rd_bind try_read_g1 (\<lambda>cd. rd_bind try_read_g1 (\<lambda>cda.
     rd_bind try_read_usize (\<lambda>num_z. rd_bind (rd_vec 32 num_z try_read_u256) (\<lambda>zs.
     rd_bind try_read_u256 (\<lambda>zd. rd_bind try_read_u256 (\<lambda>zb.
     rd_ret \<lparr>commit_d = cd, commit_d_dot_a = cda, z_vector = zs, z_delta = zd, z_beta = zb\<rparr>))))))"

definition try_decode_pop :: "ProofOfProduct reader" where
  "try_decode_pop =
     rd_bind try_read_g1 (\<lambda>al. rd_bind try_read_g1 (\<lambda>be. rd_bind try_read_g1 (\<lambda>de.
     rd_bind try_read_u256 (\<lambda>z1. rd_bind try_read_u256 (\<lambda>z2. rd_bind try_read_u256 (\<lambda>z3.
     rd_bind try_read_u256 (\<lambda>z4. rd_bind try_read_u256 (\<lambda>z5.
     rd_ret \<lparr>pop_alpha = al, pop_beta = be, pop_delta = de,
             pop_z1 = z1, pop_z2 = z2, pop_z3 = z3, pop_z4 = z4, pop_z5 = z5\<rparr>))))))))"

definition try_skip_sized :: "string \<Rightarrow> nat \<Rightarrow> unit reader" where
  "try_skip_sized msg sz =
     rd_bind try_read_usize (\<lambda>n. rd_bind (rd_lift (checked_mul msg n sz)) (\<lambda>b. try_advance b))"

definition try_skip_agg :: "nat \<Rightarrow> unit reader" where
  "try_skip_agg has_agg =
     (if has_agg = 1
      then rd_bind (try_skip_sized ''overflow in coeffs size'' 64) (\<lambda>_.
           rd_bind (try_skip_sized ''overflow in openings size'' 128) (\<lambda>_.
           try_skip_sized ''overflow in eq proofs size'' 96))
      else rd_ret ())"

definition try_decode_committed_layer_proof :: "CommittedLayerProof reader" where
  "try_decode_committed_layer_proof =
     rd_bind try_read_g1 (\<lambda>sm.
     rd_bind try_read_usize (\<lambda>num_messages. rd_bind (rd_vec 64 num_messages try_read_g1) (\<lambda>messages.
     rd_bind try_decode_podp (\<lambda>podp.
     rd_bind try_read_usize (\<lambda>num_commits. rd_bind (rd_vec 64 num_commits try_read_g1) (\<lambda>cs.
     rd_bind try_read_usize (\<lambda>num_pops. rd_bind (rd_vec 352 num_pops try_decode_pop) (\<lambda>ps.
     rd_bind try_read_usize (\<lambda>has_agg. rd_bind (try_skip_agg has_agg) (\<lambda>_.
     rd_ret \<lparr>sumcheck_proof = \<lparr>sc_sum = sm, sc_messages = messages, sc_podp = podp\<rparr>,
             commitments = cs, pops = ps\<rparr>))))))))))"

definition try_decode_eval :: "(PODPProof \<times> G1Point) reader" where
  "try_decode_eval = rd_bind try_decode_podp (\<lambda>podp. rd_bind try_read_g1 (\<lambda>c. rd_ret (podp, c)))"

definition try_decode_dag_input_layer_proof :: "DAGInputLayerProof reader" where
  "try_decode_dag_input_layer_proof =
     rd_bind try_read_usize (\<lambda>num_rows. rd_bind (rd_vec 64 num_rows try_read_g1) (\<lambda>rows.
     rd_bind try_read_usize (\<lambda>num_evals.
     rd_bind (rd_lift (with_capacity 216 num_evals)) (\<lambda>_. rd_bind (rd_vec 64 num_evals try_decode_eval) (\<lambda>evals.
     rd_ret \<lparr>commitment_rows = rows, podps = map fst evals, com_evals = map snd evals\<rparr>)))))"

definition try_decode_claim :: "PublicValueClaim reader" where
  "try_decode_claim =
     rd_bind try_read_u256 (\<lambda>v. rd_bind try_read_u256 (\<lambda>b. rd_bind try_read_g1 (\<lambda>c.
     rd_bind (try_skip_sized ''overflow in point size'' 32) (\<lambda>_.
     rd_ret \<lparr>pvc_value = v, pvc_blinding = b, pvc_commitment = c\<rparr>))))"

definition try_decode_public_value_claims :: "PublicValueClaim list reader" where
  "try_decode_public_value_claims = rd_bind try_read_usize (\<lambda>num_claims. rd_vec 128 num_claims try_decode_claim)"

definition try_skip_claim :: "unit reader" where
  "try_skip_claim =
     rd_bind (try_advance 32) (\<lambda>_. rd_bind (try_advance 32) (\<lambda>_. rd_bind (try_advance 64) (\<lambda>_.
     try_skip_sized ''overflow in skip_claim point size'' 32)))"

definition try_decode_proof_prefix :: "GKRProof reader" where
  "try_decode_proof_prefix =
     rd_bind (try_advance 32) (\<lambda>_.
     rd_bind try_read_usize (\<lambda>num_pub_input_sections.
     rd_bind (rd_repeat num_pub_input_sections (try_skip_sized ''overflow in pub input section size'' 32)) (\<lambda>_.
     rd_bind try_read_usize (\<lambda>num_output_proofs. rd_bind (rd_vec 64 num_output_proofs try_read_g1) (\<lambda>outs.
     rd_bind try_read_usize (\<lambda>num_layer_proofs.
     rd_bind (rd_vec 352 num_layer_proofs try_decode_committed_layer_proof) (\<lambda>lps.
     rd_bind try_read_usize (\<lambda>num_fs_claims. rd_bind (rd_repeat num_fs_claims try_skip_claim) (\<lambda>_.
     rd_ret \<lparr>output_claim_commitments = outs, layer_proofs = lps\<rparr>)))))))))"

definition try_skip_claims :: "unit reader" where
  "try_skip_claims = rd_bind try_read_usize (\<lambda>num_pub_claims. rd_repeat num_pub_claims try_skip_claim)"

definition try_decode_proof_common :: "(GKRProof \<times> nat) reader" where
  "try_decode_proof_common =
     rd_bind try_decode_proof_prefix (\<lambda>gkr_proof.
     rd_bind rd_offset (\<lambda>pub_claims_offset.
     rd_bind try_skip_claims (\<lambda>_.
     rd_ret (gkr_proof, pub_claims_offset))))"

fun try_count_elements :: "nat \<Rightarrow> nat \<Rightarrow> nat reader" where
  "try_count_elements 0 tot = rd_ret tot"
| "try_count_elements (Suc n) tot =
     rd_bind try_read_usize (\<lambda>cnt. rd_bind (rd_lift (checked_mul ''overflow in embedded pub inputs'' cnt 32)) (\<lambda>b.
     rd_bind (try_advance b) (\<lambda>_. rd_bind (rd_lift (checked_add ''overflow in total elements count'' tot cnt)) (\<lambda>tot.
     try_count_elements n tot))))"

definition try_extract_embedded_public_inputs :: "u8 list \<Rightarrow> u256 list res" where
  "try_extract_embedded_public_inputs data =
     rbind (rd_bind (try_advance 32) (\<lambda>_. try_read_usize) data 0) (\<lambda>(num_sections, saved_offset).
     rbind (try_count_elements num_sections 0 data saved_offset) (\<lambda>(total_elements, _).
     rbind (with_capacity 32 total_elements) (\<lambda>_.
     rbind (rd_times num_sections (rd_bind try_read_usize (\<lambda>cnt. rd_times cnt try_read_u256)) data saved_offset) (\<lambda>(sections, _).
     Inr (concat sections)))))"

definition try_decode_proof_for_dag ::
  "u8 list \<Rightarrow> nat \<Rightarrow> (GKRProof \<times> u256 list \<times> DAGInputLayerProof list \<times> PublicValueClaim list) res" where
  "try_decode_proof_for_dag data off =
     rbind (try_extract_embedded_public_inputs data) (\<lambda>embedded.
     rbind (try_decode_proof_common data off) (\<lambda>((gkr_proof, pub_claims_offset), off).
     rbind (try_decode_public_value_claims data pub_claims_offset) (\<lambda>(public_value_claims, _).
     rbind (rd_bind try_read_usize (\<lambda>num_input_proofs.
              rd_vec 72 num_input_proofs try_decode_dag_input_layer_proof) data off) (\<lambda>(dag_input_proofs, _).
     Inr (gkr_proof, embedded, dag_input_proofs, public_value_claims)))))"

definition no_gens :: PedersenGens where
  "no_gens = \<lparr>message_gens = [], scalar_gen = INFINITY, blinding_gen = INFINITY\<rparr>"

definition try_read_gens :: "PedersenGens reader" where
  "try_read_gens =
     rd_bind try_read_usize (\<lambda>num_gens. rd_bind (rd_vec 64 num_gens try_read_g1) (\<lambda>gs.
     rd_bind try_read_g1 (\<lambda>sg. rd_bind try_read_g1 (\<lambda>bg.
     rd_ret \<lparr>message_gens = gs, scalar_gen = sg, blinding_gen = bg\<rparr>))))"

definition try_decode_pedersen_gens :: "u8 list \<Rightarrow> PedersenGens res" where
  "try_decode_pedersen_gens data = (if data = [] then Inr no_gens else rmap fst (try_read_gens data 0))"

section \<open>Composite readers of the legacy family\<close>

definition decode_podp :: "PODPProof reader" where
  "decode_podp =
     rd_bind read_g1 (\<lambda>cd. rd_bind read_g1 (\<lambda>cda.
     rd_bind read_usize (\<lambda>num_z. rd_bind (rd_vec 32 num_z read_u256) (\<lambda>zs.
     rd_bind read_u256 (\<lambda>zd. rd_bind read_u256 (\<lambda>zb.
     rd_ret \<lparr>commit_d = cd, commit_d_dot_a = cda, z_vector = zs, z_delta = zd, z_beta = zb\<rparr>))))))"

definition decode_pop :: "ProofOfProduct reader" where
  "decode_pop =
     rd_bind read_g1 (\<lambda>al. rd_bind read_g1 (\<lambda>be. rd_bind read_g1 (\<lambda>de.
     rd_bind read_u256 (\<lambda>z1. rd_bind read_u256 (\<lambda>z2. rd_bind read_u256 (\<lambda>z3.
     rd_bind read_u256 (\<lambda>z4. rd_bind read_u256 (\<lambda>z5.
     rd_ret \<lparr>pop_alpha = al, pop_beta = be, pop_delta = de,
             pop_z1 = z1, pop_z2 = z2, pop_z3 = z3, pop_z4 = z4, pop_z5 = z5\<rparr>))))))))"

definition skip_sized :: "nat \<Rightarrow> unit reader" where
  "skip_sized sz = rd_bind read_usize (\<lambda>n. rd_skip (wmul n sz))"

definition skip_agg :: "nat \<Rightarrow> unit reader" where
  "skip_agg has_agg =
     (if has_agg = 1 then rd_bind (skip_sized 64) (\<lambda>_. rd_bind (skip_sized 128) (\<lambda>_. skip_sized 96)) else rd_ret ())"

definition decode_committed_layer_proof :: "CommittedLayerProof reader" where
  "decode_committed_layer_proof =
     rd_bind read_g1 (\<lambda>sm.
     rd_bind read_usize (\<lambda>num_messages. rd_bind (rd_vec 64 num_messages read_g1) (\<lambda>messages.
     rd_bind decode_podp (\<lambda>podp.
     rd_bind read_usize (\<lambda>num_commits. rd_bind (rd_vec 64 num_commits read_g1) (\<lambda>cs.
     rd_bind read_usize (\<lambda>num_pops. rd_bind (rd_vec 352 num_pops decode_pop) (\<lambda>ps.
     rd_bind read_usize (\<lambda>has_agg. rd_bind (skip_agg has_agg) (\<lambda>_.
     rd_ret \<lparr>sumcheck_proof = \<lparr>sc_sum = sm, sc_messages = messages, sc_podp = podp\<rparr>,
             commitments = cs, pops = ps\<rparr>))))))))))"

definition decode_eval :: "(PODPProof \<times> G1Point) reader" where
  "decode_eval = rd_bind decode_podp (\<lambda>podp. rd_bind read_g1 (\<lambda>c. rd_ret (podp, c)))"

definition decode_dag_input_layer_proof :: "DAGInputLayerProof reader" where
  "decode_dag_input_layer_proof =
     rd_bind read_usize (\<lambda>num_rows. rd_bind (rd_vec 64 num_rows read_g1) (\<lambda>rows.
     rd_bind read_usize (\<lambda>num_evals.
     rd_bind (rd_lift (with_capacity 216 num_evals)) (\<lambda>_. rd_bind (rd_vec 64 num_evals decode_eval) (\<lambda>evals.
     rd_ret \<lparr>commitment_rows = rows, podps = map fst evals, com_evals = map snd evals\<rparr>)))))"

definition decode_claim :: "PublicValueClaim reader" where
  "decode_claim =
     rd_bind read_u256 (\<lambda>v. rd_bind read_u256 (\<lambda>b. rd_bind read_g1 (\<lambda>c.
     rd_bind (skip_sized 32) (\<lambda>_.
     rd_ret \<lparr>pvc_value = v, pvc_blinding = b, pvc_commitment = c\<rparr>))))"

definition decode_public_value_claims :: "PublicValueClaim list reader" where
  "decode_public_value_claims = rd_bind read_usize (\<lambda>num_claims. rd_vec 128 num_claims decode_claim)"

definition skip_claim :: "unit reader" where
  "skip_claim = rd_bind (rd_skip 32) (\<lambda>_. rd_bind (rd_skip 32) (\<lambda>_. rd_bind (rd_skip 64) (\<lambda>_. skip_sized 32)))"

definition decode_proof_prefix :: "GKRProof reader" where
  "decode_proof_prefix =
     rd_bind (rd_skip 32) (\<lambda>_.
     rd_bind read_usize (\<lambda>num_pub_input_sections.
     rd_bind (rd_repeat num_pub_input_sections (skip_sized 32)) (\<lambda>_.
     rd_bind read_usize (\<lambda>num_output_proofs. rd_bind (rd_vec 64 num_output_proofs read_g1) (\<lambda>outs.
     rd_bind read_usize (\<lambda>num_layer_proofs.
     rd_bind (rd_vec 352 num_layer_proofs decode_committed_layer_proof) (\<lambda>lps.
     rd_bind read_usize (\<lambda>num_fs_claims. rd_bind (rd_repeat num_fs_claims skip_claim) (\<lambda>_.
     rd_ret \<lparr>output_claim_commitments = outs, layer_proofs = lps\<rparr>)))))))))"

definition skip_claims :: "unit reader" where
  "skip_claims = rd_bind read_usize (\<lambda>num_pub_claims. rd_repeat num_pub_claims skip_claim)"

definition decode_proof_common :: "(GKRProof \<times> nat) reader" where
  "decode_proof_common =
     rd_bind decode_proof_prefix (\<lambda>gkr_proof.
     rd_bind rd_offset (\<lambda>pub_claims_offset.
     rd_bind skip_claims (\<lambda>_.
     rd_ret (gkr_proof, pub_claims_offset))))"

fun count_elements :: "nat \<Rightarrow> nat \<Rightarrow> nat reader" where
  "count_elements 0 tot = rd_ret tot"
| "count_elements (Suc n) tot =
     rd_bind read_usize (\<lambda>cnt. rd_bind (rd_skip (wmul cnt 32)) (\<lambda>_. count_elements n (wadd tot cnt)))"

definition extract_embedded_public_inputs :: "u8 list \<Rightarrow> u256 list res" where
  "extract_embedded_public_inputs data =
     rbind (rd_bind (rd_skip 32) (\<lambda>_. read_usize) data 0) (\<lambda>(num_sections, saved_offset).
     rbind (count_elements num_sections 0 data saved_offset) (\<lambda>(total_elements, _).
     rbind (with_capacity 32 total_elements) (\<lambda>_.
     rbind (rd_times num_sections (rd_bind read_usize (\<lambda>cnt. rd_times cnt read_u256)) data saved_offset) (\<lambda>(sections, _).
     Inr (concat sections)))))"

definition decode_proof_for_dag ::
  "u8 list \<Rightarrow> nat \<Rightarrow> (GKRProof \<times> u256 list \<times> DAGInputLayerProof list \<times> PublicValueClaim list) res" where
  "decode_proof_for_dag data off =
     rbind (extract_embedded_public_inputs data) (\<lambda>embedded.
     rbind (decode_proof_common data off) (\<lambda>((gkr_proof, pub_claims_offset), off).
     rbind (decode_public_value_claims data pub_claims_offset) (\<lambda>(public_value_claims, _).
     rbind (rd_bind read_usize (\<lambda>num_input_proofs.
              rd_vec 72 num_input_proofs decode_dag_input_layer_proof) data off) (\<lambda>(dag_input_proofs, _).
     Inr (gkr_proof, embedded, dag_input_proofs, public_value_claims)))))"

definition read_gens :: "PedersenGens reader" where
  "read_gens =
     rd_bind read_usize (\<lambda>num_gens. rd_bind (rd_vec 64 num_gens read_g1) (\<lambda>gs.
     rd_bind read_g1 (\<lambda>sg. rd_bind read_g1 (\<lambda>bg.
     rd_ret \<lparr>message_gens = gs, scalar_gen = sg, blinding_gen = bg\<rparr>))))"

definition decode_pedersen_gens :: "u8 list \<Rightarrow> PedersenGens res" where
  "decode_pedersen_gens data = (if data = [] then Inr no_gens else rmap fst (read_gens data 0))"

end
