(* ===== verification/Decode_Laws.thy ===== *)
theory Decode_Laws
  imports Decode
begin

text \<open>
  The two families of readers against each other. \<open>reader_rel\<close> relates a checking reader and its legacy
  twin: on a slice that a Rust program can hold, a value that the first returns satisfies a property, comes
  with an offset between the old one and the end of the slice, and is what the second returns; in the strict
  form the first never panics. The relation is closed under the combinators, so that each composite reader
  is related to its twin by following its definition. The locale \<open>reader_pair\<close> states the consequences once
  and is interpreted on every composite reader.
\<close>

section \<open>The relation\<close>

text \<open>A Rust slice has at most \<open>isize::MAX\<close> bytes.\<close>

definition valid_pos :: "u8 list \<Rightarrow> nat \<Rightarrow> bool" where
  "valid_pos data off \<longleftrightarrow> length data < 2 ^ 63 \<and> off \<le> length data"

definition reader_rel :: "bool \<Rightarrow> ('a \<Rightarrow> bool) \<Rightarrow> 'a reader \<Rightarrow> 'a reader \<Rightarrow> bool" where
  "reader_rel strict P s f \<longleftrightarrow>
     (\<forall>data off. valid_pos data off \<longrightarrow>
        (strict \<longrightarrow> \<not> panics (s data off))
        \<and> (\<forall>x off'. s data off = Inr (x, off') \<longrightarrow> off \<le> off' \<and> off' \<le> length data \<and> P x \<and> f data off = Inr (x, off')))"

named_theorems reader_intros \<open>reader relations, by the shape of the readers\<close>

lemma reader_relI:
  assumes "\<And>data off. valid_pos data off \<Longrightarrow> strict \<Longrightarrow> \<not> panics (s data off)"
    and "\<And>data off x off'. valid_pos data off \<Longrightarrow> s data off = Inr (x, off')
      \<Longrightarrow> off \<le> off' \<and> off' \<le> length data \<and> P x \<and> f data off = Inr (x, off')"
  shows "reader_rel strict P s f"
  using assms by (auto simp: reader_rel_def)

lemma reader_relD:
  assumes "reader_rel strict P s f" "valid_pos data off" "s data off = Inr (x, off')"
  shows "off \<le> off'" "valid_pos data off'" "P x" "f data off = Inr (x, off')"
proof -
  have "off \<le> off' \<and> off' \<le> length data \<and> P x \<and> f data off = Inr (x, off')"
    using assms unfolding reader_rel_def by blast
  then show "off \<le> off'" "valid_pos data off'" "P x" "f data off = Inr (x, off')"
    using assms(2) by (simp_all add: valid_pos_def)
qed

lemma reader_rel_weaken: "reader_rel strict P s f \<Longrightarrow> (\<And>x. P x \<Longrightarrow> Q x) \<Longrightarrow> reader_rel strict Q s f"
  by (auto simp: reader_rel_def)

lemma reader_rel_ret [reader_intros]: "P x \<Longrightarrow> reader_rel strict P (rd_ret x) (rd_ret x)"
  by (auto simp: reader_rel_def rd_ret_def valid_pos_def)

lemma reader_rel_offset [reader_intros]: "reader_rel strict (\<lambda>_. True) rd_offset rd_offset"
  by (auto simp: reader_rel_def rd_offset_def valid_pos_def)

lemma reader_rel_bind [reader_intros]:
  assumes "reader_rel strict Q m m'" and "\<And>x. Q x \<Longrightarrow> reader_rel strict P (g x) (g' x)"
  shows "reader_rel strict P (rd_bind m g) (rd_bind m' g')"
proof (rule reader_relI)
  fix data off assume v: "valid_pos data off" and s: strict
  show "\<not> panics (rd_bind m g data off)"
    using assms v s reader_relD(2,3) [OF assms(1) v]
    by (auto simp: rd_bind_def panics_rbind reader_rel_def)
next
  fix data off x off' assume v: "valid_pos data off" and "rd_bind m g data off = Inr (x, off')"
  then obtain y o1 where m: "m data off = Inr (y, o1)" and g: "g y data o1 = Inr (x, off')"
    by (auto simp: rd_bind_def rbind_eq_Inr_iff)
  note d = reader_relD [OF assms(1) v m]
  note e = reader_relD [OF assms(2) [OF d(3)] d(2) g]
  show "off \<le> off' \<and> off' \<le> length data \<and> P x \<and> rd_bind m' g' data off = Inr (x, off')"
    using d e by (simp add: rd_bind_def valid_pos_def)
qed

lemma reader_rel_lift:
  "(strict \<Longrightarrow> \<not> panics m) \<Longrightarrow> (\<And>x. m = Inr x \<Longrightarrow> P x \<and> m' = Inr x) \<Longrightarrow> reader_rel strict P (rd_lift m) (rd_lift m')"
  by (auto simp: reader_rel_def rd_lift_def rbind_eq_Inr_iff panics_rbind valid_pos_def)

lemma reader_rel_times [reader_intros]:
  assumes "reader_rel strict Q s f"
  shows "reader_rel strict (\<lambda>xs. length xs = n \<and> list_all Q xs) (rd_times n s) (rd_times n f)"
proof (induction n)
  case 0
  then show ?case by (auto simp: reader_rel_def rd_times_def valid_pos_def)
next
  case (Suc n)
  have "rd_times (Suc n) r = rd_bind r (\<lambda>x. rd_bind (rd_times n r) (\<lambda>xs. rd_ret (x # xs)))" for r :: "'a reader"
    by (simp add: rd_times_def rd_bind_def rd_ret_def fun_eq_iff)
  then show ?case
    by (simp only:) (rule reader_rel_bind [OF assms] reader_rel_bind [OF Suc] reader_rel_ret | simp)+
qed

lemma reader_rel_repeat [reader_intros]:
  "reader_rel strict (\<lambda>_. True) s f \<Longrightarrow> reader_rel strict (\<lambda>_. True) (rd_repeat n s) (rd_repeat n f)"
  unfolding rd_repeat_def by (rule reader_rel_bind [OF reader_rel_times]) (auto intro: reader_rel_ret)

lemma reader_rel_capacity [reader_intros]:
  "(strict \<Longrightarrow> w * n < 2 ^ 63) \<Longrightarrow> reader_rel strict (\<lambda>_. True) (rd_lift (with_capacity w n)) (rd_lift (with_capacity w n))"
  by (rule reader_rel_lift) (auto simp: with_capacity_def)

lemma reader_rel_vec [reader_intros]:
  assumes "reader_rel strict Q s f" "strict \<Longrightarrow> w * n < 2 ^ 63"
  shows "reader_rel strict (\<lambda>_. True) (rd_vec w n s) (rd_vec w n f)"
  unfolding rd_vec_def
  by (rule reader_rel_bind [OF reader_rel_capacity [OF assms(2)]])
    (auto intro: reader_rel_weaken [OF reader_rel_times [OF assms(1)]])

section \<open>Primitive readers\<close>

lemma valid_pos_add: "valid_pos data off \<Longrightarrow> n < 2 ^ 63 \<Longrightarrow> wadd off n = off + n"
  by (simp add: valid_pos_def wadd_def)

lemma reader_rel_u256 [reader_intros]: "reader_rel strict (\<lambda>_. True) try_read_u256 read_u256"
proof (rule reader_relI)
  fix data off assume v: "valid_pos data off"
  show "\<not> panics (try_read_u256 data off)"
    using valid_pos_add [OF v, of 32] by (simp add: try_read_u256_def slice_def Let_def)
  fix x off' assume "try_read_u256 data off = Inr (x, off')"
  then show "off \<le> off' \<and> off' \<le> length data \<and> True \<and> read_u256 data off = Inr (x, off')"
    using valid_pos_add [OF v, of 32] by (auto simp: try_read_u256_def read_u256_def slice_def rbind_eq_Inr_iff Let_def split: if_splits)
qed

lemma reader_rel_g1 [reader_intros]: "reader_rel strict (\<lambda>_. True) try_read_g1 read_g1"
  unfolding try_read_g1_def read_g1_def by ((rule reader_intros TrueI) | simp)+

lemma reader_rel_usize [reader_intros]: "reader_rel strict (\<lambda>n. n \<le> MAX_ARRAY_LEN) try_read_usize read_usize"
proof -
  let ?chk = "\<lambda>v. if \<not> small v then rerr (DecodeError Too_Large_For_Usize)
      else let val = unat (limb v 0) in if val > MAX_ARRAY_LEN then rerr (DecodeError (Array_Too_Long val)) else Inr val"
  have "rd_bind (rd_lift (rassert (small v) msg)) (\<lambda>_. rd_ret (unat (limb v 0))) = rd_lift (rbind (rassert (small v) msg) (\<lambda>_. Inr (unat (limb v 0))))"
    for v msg by (simp add: fun_eq_iff rd_bind_def rd_lift_def rd_ret_def rassert_def)
  then show ?thesis unfolding try_read_usize_def read_usize_def
    by (simp only:) (rule reader_rel_bind [OF reader_rel_u256], rule reader_rel_lift, auto simp: Let_def split: if_splits)
qed

lemma reader_rel_advance [reader_intros]:
  "n < 2 ^ 63 \<Longrightarrow> reader_rel strict (\<lambda>_. True) (try_advance n) (rd_skip n)"
  using valid_pos_add by (auto simp: reader_rel_def try_advance_def rd_skip_def valid_pos_def split: if_splits)

lemma reader_rel_skip_sized [reader_intros]:
  assumes "sz \<le> 128"
  shows "reader_rel strict (\<lambda>_. True) (try_skip_sized msg sz) (skip_sized sz)"
  unfolding try_skip_sized_def skip_sized_def
proof (rule reader_rel_bind [OF reader_rel_usize])
  fix n :: nat assume "n \<le> MAX_ARRAY_LEN"
  then have "n * sz \<le> MAX_ARRAY_LEN * 128" using assms by (rule mult_le_mono)
  then have b: "n * sz < 2 ^ 63" by simp
  then have "rd_bind (rd_lift (checked_mul msg n sz)) (\<lambda>b. try_advance b) = try_advance (n * sz)" "wmul n sz = n * sz"
    by (simp_all add: checked_mul_def wmul_def fun_eq_iff rd_bind_def rd_lift_def)
  then show "reader_rel strict (\<lambda>_. True) (rd_bind (rd_lift (checked_mul msg n sz)) (\<lambda>b. try_advance b)) (rd_skip (wmul n sz))"
    using reader_rel_advance [OF b] by simp
qed

section \<open>Composite readers\<close>

lemma reader_rel_podp [reader_intros]: "reader_rel strict (\<lambda>_. True) try_decode_podp decode_podp"
  unfolding try_decode_podp_def decode_podp_def by ((rule reader_intros TrueI) | simp)+

lemma reader_rel_pop [reader_intros]: "reader_rel strict (\<lambda>_. True) try_decode_pop decode_pop"
  unfolding try_decode_pop_def decode_pop_def by ((rule reader_intros TrueI) | simp)+

lemma reader_rel_skip_agg [reader_intros]: "reader_rel strict (\<lambda>_. True) (try_skip_agg h) (skip_agg h)"
  unfolding try_skip_agg_def skip_agg_def by (cases "h = 1") (simp_all only: if_True if_False, ((rule reader_intros TrueI) | simp)+)

lemma reader_rel_layer [reader_intros]:
  "reader_rel strict (\<lambda>_. True) try_decode_committed_layer_proof decode_committed_layer_proof"
  unfolding try_decode_committed_layer_proof_def decode_committed_layer_proof_def
  by ((rule reader_intros TrueI) | simp)+

lemma reader_rel_eval [reader_intros]: "reader_rel strict (\<lambda>_. True) try_decode_eval decode_eval"
  unfolding try_decode_eval_def decode_eval_def by ((rule reader_intros TrueI) | simp)+

lemma reader_rel_input_layer [reader_intros]:
  "reader_rel strict (\<lambda>_. True) try_decode_dag_input_layer_proof decode_dag_input_layer_proof"
  unfolding try_decode_dag_input_layer_proof_def decode_dag_input_layer_proof_def
  by ((rule reader_intros TrueI) | simp)+

lemma reader_rel_claim [reader_intros]: "reader_rel strict (\<lambda>_. True) try_decode_claim decode_claim"
  unfolding try_decode_claim_def decode_claim_def by ((rule reader_intros TrueI) | simp)+

lemma reader_rel_claims [reader_intros]:
  "reader_rel strict (\<lambda>_. True) try_decode_public_value_claims decode_public_value_claims"
  unfolding try_decode_public_value_claims_def decode_public_value_claims_def
  by ((rule reader_intros TrueI) | simp)+

lemma reader_rel_skip_claim [reader_intros]: "reader_rel strict (\<lambda>_. True) try_skip_claim skip_claim"
  unfolding try_skip_claim_def skip_claim_def by ((rule reader_intros TrueI) | simp)+

lemma reader_rel_gens [reader_intros]: "reader_rel strict (\<lambda>_. True) try_read_gens read_gens"
  unfolding try_read_gens_def read_gens_def by ((rule reader_intros TrueI) | simp)+

lemma reader_rel_prefix [reader_intros]: "reader_rel strict (\<lambda>_. True) try_decode_proof_prefix decode_proof_prefix"
  unfolding try_decode_proof_prefix_def decode_proof_prefix_def by ((rule reader_intros TrueI) | simp)+

lemma reader_rel_skip_claims [reader_intros]: "reader_rel strict (\<lambda>_. True) try_skip_claims skip_claims"
  unfolding try_skip_claims_def skip_claims_def by ((rule reader_intros TrueI) | simp)+

lemma reader_rel_common [reader_intros]: "reader_rel strict (\<lambda>_. True) try_decode_proof_common decode_proof_common"
  unfolding try_decode_proof_common_def decode_proof_common_def by ((rule reader_intros TrueI) | simp)+

lemma rd_bind_lift_Inr [simp]: "rd_bind (rd_lift (Inr x)) g = g x"
  by (simp add: rd_bind_def rd_lift_def fun_eq_iff)

lemma reader_rel_count:
  "t + n * MAX_ARRAY_LEN < 2 ^ 64 \<Longrightarrow>
     reader_rel strict (\<lambda>t'. t' \<le> t + n * MAX_ARRAY_LEN) (try_count_elements n t) (count_elements n t)"
proof (induction n arbitrary: t)
  case 0
  then show ?case by (auto intro: reader_rel_ret)
next
  case (Suc n)
  show ?case unfolding try_count_elements.simps count_elements.simps
  proof (rule reader_rel_bind [OF reader_rel_usize])
    fix c assume c: "c \<le> MAX_ARRAY_LEN"
    have e: "checked_mul msg c 32 = Inr (c * 32)" "wmul c 32 = c * 32" "checked_add msg t c = Inr (t + c)" "wadd t c = t + c" for msg
      using c Suc.prems by (simp_all add: checked_mul_def wmul_def checked_add_def wadd_def)
    have "reader_rel strict (\<lambda>t'. t' \<le> t + Suc n * MAX_ARRAY_LEN) (try_count_elements n (t + c)) (count_elements n (t + c))"
      using c Suc.prems by (intro reader_rel_weaken [OF Suc.IH]) auto
    then show "reader_rel strict (\<lambda>t'. t' \<le> t + Suc n * MAX_ARRAY_LEN)
      (rd_bind (rd_lift (checked_mul ''overflow in embedded pub inputs'' c 32)) (\<lambda>b. rd_bind (try_advance b)
        (\<lambda>_. rd_bind (rd_lift (checked_add ''overflow in total elements count'' t c)) (\<lambda>t. try_count_elements n t))))
      (rd_bind (rd_skip (wmul c 32)) (\<lambda>_. count_elements n (wadd t c)))"
      unfolding e rd_bind_lift_Inr using c by (intro reader_rel_bind [OF reader_rel_advance]) simp_all
  qed
qed

section \<open>The interface\<close>

locale reader_pair =
  fixes P :: "'a \<Rightarrow> bool" and safe legacy :: "'a reader"
  assumes related: "\<And>strict. reader_rel strict P safe legacy"
begin

lemma no_panic: "valid_pos data off \<Longrightarrow> \<not> panics (safe data off)"
  using related [of True] by (simp add: reader_rel_def)

lemma agree: "valid_pos data off \<Longrightarrow> safe data off = Inr r \<Longrightarrow> legacy data off = Inr r"
  using reader_relD(4) [OF related] by (cases r) auto

lemma within: "valid_pos data off \<Longrightarrow> safe data off = Inr (x, off') \<Longrightarrow> off \<le> off' \<and> valid_pos data off'"
  using reader_relD(1,2) [OF related] by blast

lemma result_ok: "valid_pos data off \<Longrightarrow> safe data off = Inr (x, off') \<Longrightarrow> P x"
  using reader_relD(3) [OF related] by blast

text \<open>A successful run reports what the legacy reader reports, and a legacy failure is reported as an
  error.\<close>

lemma legacy_panic_is_error:
  "valid_pos data off \<Longrightarrow> panics (legacy data off) \<Longrightarrow> \<exists>e. safe data off = rerr e"
  using no_panic [of data off] agree [of data off]
  by (cases "safe data off") (auto simp: panics_def rerr_def split: failure.splits)

end

interpretation u256_reader: reader_pair "\<lambda>_. True" try_read_u256 read_u256
  by unfold_locales (rule reader_rel_u256)

interpretation usize_reader: reader_pair "\<lambda>n. n \<le> MAX_ARRAY_LEN" try_read_usize read_usize
  by unfold_locales (rule reader_rel_usize)

interpretation layer_reader: reader_pair "\<lambda>_. True" try_decode_committed_layer_proof decode_committed_layer_proof
  by unfold_locales (rule reader_rel_layer)

interpretation input_reader: reader_pair "\<lambda>_. True" try_decode_dag_input_layer_proof decode_dag_input_layer_proof
  by unfold_locales (rule reader_rel_input_layer)

interpretation claims_reader: reader_pair "\<lambda>_. True" try_decode_public_value_claims decode_public_value_claims
  by unfold_locales (rule reader_rel_claims)

interpretation common_reader: reader_pair "\<lambda>_. True" try_decode_proof_common decode_proof_common
  by unfold_locales (rule reader_rel_common)

interpretation gens_reader: reader_pair "\<lambda>_. True" try_read_gens read_gens
  by unfold_locales (rule reader_rel_gens)

lemma reader_rel_inputs:
  "reader_rel strict (\<lambda>_. True)
     (rd_bind try_read_usize (\<lambda>n. rd_vec 72 n try_decode_dag_input_layer_proof))
     (rd_bind read_usize (\<lambda>n. rd_vec 72 n decode_dag_input_layer_proof))"
  by ((rule reader_intros TrueI) | simp)+

interpretation inputs_reader: reader_pair "\<lambda>_. True"
    "rd_bind try_read_usize (\<lambda>n. rd_vec 72 n try_decode_dag_input_layer_proof)"
    "rd_bind read_usize (\<lambda>n. rd_vec 72 n decode_dag_input_layer_proof)"
  by unfold_locales (rule reader_rel_inputs)

lemma reader_rel_header:
  "reader_rel strict (\<lambda>n. n \<le> MAX_ARRAY_LEN) (rd_bind (try_advance 32) (\<lambda>_. try_read_usize)) (rd_bind (rd_skip 32) (\<lambda>_. read_usize))"
  by (rule reader_rel_bind [OF reader_rel_advance reader_rel_usize]) simp

interpretation header_reader: reader_pair "\<lambda>n. n \<le> MAX_ARRAY_LEN"
    "rd_bind (try_advance 32) (\<lambda>_. try_read_usize)" "rd_bind (rd_skip 32) (\<lambda>_. read_usize)"
  by unfold_locales (rule reader_rel_header)

lemma reader_rel_sections:
  "reader_rel strict (\<lambda>_. True) (rd_times n (rd_bind try_read_usize (\<lambda>c. rd_times c try_read_u256)))
     (rd_times n (rd_bind read_usize (\<lambda>c. rd_times c read_u256)))"
proof -
  have "reader_rel strict (\<lambda>_. True) (rd_times c try_read_u256) (rd_times c read_u256)" for c
    by (rule reader_rel_weaken [OF reader_rel_times [OF reader_rel_u256]]) simp
  note section_rel = reader_rel_bind [OF reader_rel_usize this]
  show ?thesis by (rule reader_rel_weaken [OF reader_rel_times [OF section_rel]]) simp
qed

interpretation sections_reader: reader_pair "\<lambda>_. True"
    "rd_times n (rd_bind try_read_usize (\<lambda>c. rd_times c try_read_u256))"
    "rd_times n (rd_bind read_usize (\<lambda>c. rd_times c read_u256))" for n
  by unfold_locales (rule reader_rel_sections)

section \<open>Embedded public inputs and whole proofs\<close>

lemma extract_ok:
  assumes "length data < 2 ^ 63"
  shows "\<not> panics (try_extract_embedded_public_inputs data)"
    and "try_extract_embedded_public_inputs data = Inr xs \<Longrightarrow> extract_embedded_public_inputs data = Inr xs"
proof -
  have v0: "valid_pos data 0" using assms by (simp add: valid_pos_def)
  have step: "valid_pos data o1 \<and> reader_rel strict (\<lambda>t. t \<le> n * MAX_ARRAY_LEN) (try_count_elements n 0) (count_elements n 0)
      \<and> n * MAX_ARRAY_LEN \<le> MAX_ARRAY_LEN * MAX_ARRAY_LEN"
    if "rd_bind (try_advance 32) (\<lambda>_. try_read_usize) data 0 = Inr (n, o1)" for n o1 strict
  proof -
    have n: "n \<le> MAX_ARRAY_LEN" by (rule header_reader.result_ok [OF v0 that])
    then have "n * MAX_ARRAY_LEN \<le> MAX_ARRAY_LEN * MAX_ARRAY_LEN" by (rule mult_le_mono1)
    then show ?thesis using header_reader.within [OF v0 that] reader_rel_count [of 0 n strict] by simp
  qed
  have cap: "with_capacity 32 t = Inr ()" if "t \<le> n * MAX_ARRAY_LEN" "n * MAX_ARRAY_LEN \<le> MAX_ARRAY_LEN * MAX_ARRAY_LEN" for t n
    using that by (simp add: with_capacity_def)
  show "\<not> panics (try_extract_embedded_public_inputs data)"
  proof -
    have "\<not> panics (try_count_elements n 0 data o1)" "valid_pos data o1"
      "\<And>t o2. try_count_elements n 0 data o1 = Inr (t, o2) \<Longrightarrow> with_capacity 32 t = Inr ()"
      if "rd_bind (try_advance 32) (\<lambda>_. try_read_usize) data 0 = Inr (n, o1)" for n o1
    proof -
      note st = step [OF that, of True]
      show v1: "valid_pos data o1" using st by blast
      show "\<not> panics (try_count_elements n 0 data o1)" using st v1 by (simp add: reader_rel_def)
      show "with_capacity 32 t = Inr ()" if "try_count_elements n 0 data o1 = Inr (t, o2)" for t o2
        by (rule cap [OF reader_relD(3) [OF conjunct1 [OF conjunct2 [OF st]] v1 that] conjunct2 [OF conjunct2 [OF st]]])
    qed
    then show ?thesis
      unfolding try_extract_embedded_public_inputs_def
      using header_reader.no_panic [OF v0] sections_reader.no_panic
      by (auto simp: panics_rbind split: prod.splits)
  qed
  assume "try_extract_embedded_public_inputs data = Inr xs"
  then obtain n o1 t o2 secs o3 where
    h: "rd_bind (try_advance 32) (\<lambda>_. try_read_usize) data 0 = Inr (n, o1)"
    and c: "try_count_elements n 0 data o1 = Inr (t, o2)" "with_capacity 32 t = Inr ()"
    and r: "rd_times n (rd_bind try_read_usize (\<lambda>c. rd_times c try_read_u256)) data o1 = Inr (secs, o3)" "xs = concat secs"
    by (auto simp: try_extract_embedded_public_inputs_def rbind_eq_Inr_iff)
  have v1: "valid_pos data o1" using step [OF h] by blast
  have "count_elements n 0 data o1 = Inr (t, o2)" 
    by (rule reader_relD(4) [OF conjunct1 [OF conjunct2 [OF step [OF h, of True]]] v1 c(1)])
  then show "extract_embedded_public_inputs data = Inr xs"
    using header_reader.agree [OF v0 h] c(2) sections_reader.agree [OF v1 r(1)] r(2)
    by (simp add: extract_embedded_public_inputs_def)
qed

lemma common_offset:
  assumes "valid_pos data off" "try_decode_proof_common data off = Inr ((gp, o1), off')"
  shows "valid_pos data o1"
proof -
  from assms(2) have "try_decode_proof_prefix data off = Inr (gp, o1)"
    by (auto simp: try_decode_proof_common_def rd_bind_def rd_offset_def rd_ret_def rbind_eq_Inr_iff)
  then show ?thesis using reader_relD(2) [OF reader_rel_prefix assms(1)] by blast
qed

theorem try_decode_proof_no_panic:
  assumes "length data < 2 ^ 63"
  shows "\<not> panics (try_decode_proof_for_dag data 0)"
proof -
  have v0: "valid_pos data 0" using assms by (simp add: valid_pos_def)
  show ?thesis unfolding try_decode_proof_for_dag_def
    using extract_ok(1) [OF assms] common_reader.no_panic [OF v0] common_reader.within [OF v0] common_offset [OF v0]
      claims_reader.no_panic inputs_reader.no_panic
    by (fastforce simp: panics_rbind split: prod.splits)
qed

theorem try_decode_proof_agree:
  assumes "length data < 2 ^ 63" "try_decode_proof_for_dag data 0 = Inr r"
  shows "decode_proof_for_dag data 0 = Inr r"
proof -
  have v0: "valid_pos data 0" using assms(1) by (simp add: valid_pos_def)
  from assms(2) obtain em gp o1 off cl o2 ins o3 where
    e: "try_extract_embedded_public_inputs data = Inr em" and c: "try_decode_proof_common data 0 = Inr ((gp, o1), off)"
    and cl: "try_decode_public_value_claims data o1 = Inr (cl, o2)"
    and i: "rd_bind try_read_usize (\<lambda>n. rd_vec 72 n try_decode_dag_input_layer_proof) data off = Inr (ins, o3)"
    and r: "r = (gp, em, ins, cl)"
    by (auto simp: try_decode_proof_for_dag_def rbind_eq_Inr_iff)
  have v: "valid_pos data off" "valid_pos data o1"
    using common_reader.within [OF v0 c] common_offset [OF v0 c] by auto
  show ?thesis
    using extract_ok(2) [OF assms(1) e] common_reader.agree [OF v0 c] claims_reader.agree [OF v(2) cl]
      inputs_reader.agree [OF v(1) i] by (simp add: decode_proof_for_dag_def r)
qed

theorem try_decode_gens_ok:
  assumes "length data < 2 ^ 63"
  shows "\<not> panics (try_decode_pedersen_gens data)"
    and "try_decode_pedersen_gens data = Inr g \<Longrightarrow> decode_pedersen_gens data = Inr g"
proof -
  have v0: "valid_pos data 0" using assms by (simp add: valid_pos_def)
  show "\<not> panics (try_decode_pedersen_gens data)"
    using gens_reader.no_panic [OF v0] by (simp add: try_decode_pedersen_gens_def rmap_def panics_rbind)
  show "try_decode_pedersen_gens data = Inr g \<Longrightarrow> decode_pedersen_gens data = Inr g"
    using gens_reader.agree [OF v0]
    by (auto simp: try_decode_pedersen_gens_def decode_pedersen_gens_def rmap_def rbind_eq_Inr_iff split: if_splits)
qed

end
