(* ===== verification/Circuit_Desc.thy ===== *)
theory Circuit_Desc
  imports Decode_Laws
begin

text \<open>
  The circuit description: its two decoders (\<open>crates/zkml-verifier/src/lib.rs\<close>) and its encoder from
  JSON (\<open>crates/zkml-verifier/src/test_utils.rs\<close>, called by \<open>verify\<close> and \<open>verify_hybrid\<close>).

  \<^item> The decoders are readers of the theory \<open>Decode\<close>. Their counts are not limited by
    \<open>MAX_ARRAY_LEN\<close>.
  \<^item> The JSON value type and the hexadecimal decoder are third-party crates (\<open>serde_json\<close>, \<open>hex\<close>). The
    record \<open>json_ops\<close> collects the accessors of the former that the encoder calls; \<open>hex_decode\<close> is the
    latter. Both are arguments of the definitions.
  \<^item> The locale \<open>codec\<close> is the contract between an encoder and a reader; its lemma on counted arrays
    gives the round trip of the whole description.
\<close>

section \<open>Decoding\<close>

definition read_u256_public :: "u256 reader" where
  "read_u256_public = read_u256"

definition read_usize_from :: "nat reader" where
  "read_usize_from =
     rd_bind read_u256_public (\<lambda>v.
     rd_bind (rd_lift (rassert (small v) ''value too large for usize'')) (\<lambda>_.
     rd_ret (unat (limb v 0))))"

definition read_u8_array :: "u8 list reader" where
  "read_u8_array =
     rd_bind read_usize_from (\<lambda>len. rd_vec 1 len (rd_bind read_u256_public (\<lambda>v. rd_ret (ucast (limb v 0)))))"

definition read_usize_array :: "nat list reader" where
  "read_usize_array = rd_bind read_usize_from (\<lambda>len. rd_vec 8 len read_usize_from)"

definition read_u64_array :: "u64 list reader" where
  "read_u64_array =
     rd_bind read_usize_from (\<lambda>len. rd_vec 8 len (rd_bind read_u256_public (\<lambda>v. rd_ret (limb v 0))))"

definition read_bool_array :: "bool list reader" where
  "read_bool_array =
     rd_bind read_usize_from (\<lambda>len. rd_vec 1 len (rd_bind read_u256_public (\<lambda>v. rd_ret (\<not> is_zero v))))"

definition read_u256_array :: "u256 list reader" where
  "read_u256_array = rd_bind read_usize_from (\<lambda>len. rd_vec 32 len read_u256_public)"

definition read_circuit_description :: "DAGCircuitDescription reader" where
  "read_circuit_description =
     rd_bind read_usize_from (\<lambda>ncl. rd_bind read_usize_from (\<lambda>nil.
     rd_bind read_u8_array (\<lambda>lt. rd_bind read_usize_array (\<lambda>nsr. rd_bind read_usize_array (\<lambda>ao.
     rd_bind read_usize_array (\<lambda>atl. rd_bind read_usize_array (\<lambda>aci. rd_bind read_usize_array (\<lambda>po.
     rd_bind read_u64_array (\<lambda>pd. rd_bind read_bool_array (\<lambda>iic. rd_bind read_usize_array (\<lambda>opo.
     rd_bind read_usize_array (\<lambda>ori. rd_bind read_u256_array (\<lambda>oec.
     rd_ret \<lparr>num_compute_layers = ncl, num_input_layers = nil, layer_types = lt, num_sumcheck_rounds = nsr,
             atom_offsets = ao, atom_target_layers = atl, atom_commit_idxs = aci, pt_offsets = po,
             pt_data = pd, input_is_committed = iic, oracle_product_offsets = opo,
             oracle_result_idxs = ori, oracle_expr_coeffs = oec\<rparr>)))))))))))))"

definition decode_circuit_description :: "u8 list \<Rightarrow> DAGCircuitDescription res" where
  "decode_circuit_description data = rmap fst (read_circuit_description data 0)"

definition try_read_usize_from :: "nat reader" where
  "try_read_usize_from =
     rd_bind try_read_u256 (\<lambda>v.
     rd_lift (if \<not> small v then rerr (DecodeError Too_Large_For_Usize) else Inr (unat (limb v 0))))"

definition try_read_u8_array :: "u8 list reader" where
  "try_read_u8_array =
     rd_bind try_read_usize_from (\<lambda>len. rd_vec 1 len (rd_bind try_read_u256 (\<lambda>v. rd_ret (ucast (limb v 0)))))"

definition try_read_usize_array :: "nat list reader" where
  "try_read_usize_array = rd_bind try_read_usize_from (\<lambda>len. rd_vec 8 len try_read_usize_from)"

definition try_read_u64_array :: "u64 list reader" where
  "try_read_u64_array =
     rd_bind try_read_usize_from (\<lambda>len. rd_vec 8 len (rd_bind try_read_u256 (\<lambda>v. rd_ret (limb v 0))))"

definition try_read_bool_array :: "bool list reader" where
  "try_read_bool_array =
     rd_bind try_read_usize_from (\<lambda>len. rd_vec 1 len (rd_bind try_read_u256 (\<lambda>v. rd_ret (\<not> is_zero v))))"

definition try_read_u256_array :: "u256 list reader" where
  "try_read_u256_array = rd_bind try_read_usize_from (\<lambda>len. rd_vec 32 len try_read_u256)"

definition try_read_circuit_description :: "DAGCircuitDescription reader" where
  "try_read_circuit_description =
     rd_bind try_read_usize_from (\<lambda>ncl. rd_bind try_read_usize_from (\<lambda>nil.
     rd_bind try_read_u8_array (\<lambda>lt. rd_bind try_read_usize_array (\<lambda>nsr. rd_bind try_read_usize_array (\<lambda>ao.
     rd_bind try_read_usize_array (\<lambda>atl. rd_bind try_read_usize_array (\<lambda>aci. rd_bind try_read_usize_array (\<lambda>po.
     rd_bind try_read_u64_array (\<lambda>pd. rd_bind try_read_bool_array (\<lambda>iic. rd_bind try_read_usize_array (\<lambda>opo.
     rd_bind try_read_usize_array (\<lambda>ori. rd_bind try_read_u256_array (\<lambda>oec.
     rd_ret \<lparr>num_compute_layers = ncl, num_input_layers = nil, layer_types = lt, num_sumcheck_rounds = nsr,
             atom_offsets = ao, atom_target_layers = atl, atom_commit_idxs = aci, pt_offsets = po,
             pt_data = pd, input_is_committed = iic, oracle_product_offsets = opo,
             oracle_result_idxs = ori, oracle_expr_coeffs = oec\<rparr>)))))))))))))"

definition try_decode_circuit_description :: "u8 list \<Rightarrow> DAGCircuitDescription res" where
  "try_decode_circuit_description data = rmap fst (try_read_circuit_description data 0)"

section \<open>Encoding from JSON\<close>

text \<open>The accessors of \<open>serde_json::Value\<close> that the encoder uses: \<open>value[key]\<close>, \<open>as_u64\<close>,
  \<open>as_array\<close>, \<open>as_bool\<close> and \<open>as_str\<close>.\<close>

record 'j json_ops =
  js_get :: "'j \<Rightarrow> string \<Rightarrow> 'j"
  js_u64 :: "'j \<Rightarrow> u64 option"
  js_array :: "'j \<Rightarrow> 'j list option"
  js_bool :: "'j \<Rightarrow> bool option"
  js_str :: "'j \<Rightarrow> string option"

definition unwrap :: "'a option \<Rightarrow> 'a res" where
  "unwrap x = (case x of None \<Rightarrow> rpanic (Unwrap_Failed ''called `Option::unwrap()` on a `None` value'') | Some v \<Rightarrow> Inr v)"

text \<open>\<open>s.strip_prefix("0x").unwrap_or(s)\<close>.\<close>

definition strip_0x :: "string \<Rightarrow> string" where
  "strip_0x s = (if take 2 s = ''0x'' then drop 2 s else s)"

definition push_u256 :: "u8 list \<Rightarrow> u256 \<Rightarrow> u8 list" where
  "push_u256 buf v = buf @ to_be_bytes v"

definition push_usize :: "u8 list \<Rightarrow> nat \<Rightarrow> u8 list" where
  "push_usize buf v = push_u256 buf (from_u64 (of_nat v))"

definition push_hex :: "(string \<Rightarrow> string + u8 list) \<Rightarrow> string \<Rightarrow> u8 list \<Rightarrow> u8 list res" where
  "push_hex hex_decode hex_str buf =
     (case hex_decode (strip_0x hex_str) of
        Inl _ \<Rightarrow> rpanic (Unwrap_Failed ''invalid hex in oracleExprCoeffs'')
      | Inr decoded \<Rightarrow>
          rbind (rassert (length decoded = 32) ''oracleExprCoeff must be 32 bytes'') (\<lambda>_. Inr (buf @ decoded)))"

text \<open>One JSON array: its length, then its elements through \<open>push\<close>.\<close>

definition push_json_array ::
  "'j json_ops \<Rightarrow> 'j \<Rightarrow> ('j \<Rightarrow> u8 list \<Rightarrow> u8 list res) \<Rightarrow> string \<Rightarrow> u8 list \<Rightarrow> u8 list res" where
  "push_json_array ops desc push key buf =
     rbind (unwrap (js_array ops (js_get ops desc key))) (\<lambda>arr. rfold push arr (push_usize buf (length arr)))"

definition push_json_u64 :: "'j json_ops \<Rightarrow> 'j \<Rightarrow> u8 list \<Rightarrow> u8 list res" where
  "push_json_u64 ops v buf = rbind (unwrap (js_u64 ops v)) (\<lambda>n. Inr (push_usize buf (unat n)))"

definition push_json_bool :: "'j json_ops \<Rightarrow> 'j \<Rightarrow> u8 list \<Rightarrow> u8 list res" where
  "push_json_bool ops v buf = rbind (unwrap (js_bool ops v)) (\<lambda>b. Inr (push_usize buf (if b then 1 else 0)))"

definition push_json_hex :: "'j json_ops \<Rightarrow> (string \<Rightarrow> string + u8 list) \<Rightarrow> 'j \<Rightarrow> u8 list \<Rightarrow> u8 list res" where
  "push_json_hex ops hex_decode v buf = rbind (unwrap (js_str ops v)) (\<lambda>s. push_hex hex_decode s buf)"

definition encode_circuit_desc_from_json ::
  "'j json_ops \<Rightarrow> (string \<Rightarrow> string + u8 list) \<Rightarrow> 'j \<Rightarrow> u8 list res" where
  "encode_circuit_desc_from_json ops hex_decode desc =
     (let buf = []
      in rbind (push_json_u64 ops (js_get ops desc ''numComputeLayers'') buf) (\<lambda>buf.
         rbind (push_json_u64 ops (js_get ops desc ''numInputLayers'') buf) (\<lambda>buf.
         rbind (rfold (push_json_array ops desc (push_json_u64 ops))
                  [''layerTypes'', ''numSumcheckRounds'', ''atomOffsets'', ''atomTargetLayers'',
                   ''atomCommitIdxs'', ''ptOffsets'', ''ptData''] buf) (\<lambda>buf.
         rbind (push_json_array ops desc (push_json_bool ops) ''inputIsCommitted'' buf) (\<lambda>buf.
         rbind (rfold (push_json_array ops desc (push_json_u64 ops))
                  [''oracleProductOffsets'', ''oracleResultIdxs''] buf) (\<lambda>buf.
         push_json_array ops desc (push_json_hex ops hex_decode) ''oracleExprCoeffs'' buf))))))"

section \<open>The decoders agree\<close>

lemma reader_rel_usize_from [reader_intros]: "reader_rel strict (\<lambda>_. True) try_read_usize_from read_usize_from"
proof -
  have "rd_bind (rd_lift (rassert (small v) msg)) (\<lambda>_. rd_ret (unat (limb v 0)))
      = rd_lift (rbind (rassert (small v) msg) (\<lambda>_. Inr (unat (limb v 0))))" for v msg
    by (simp add: fun_eq_iff rd_bind_def rd_lift_def rd_ret_def rassert_def)
  then show ?thesis unfolding try_read_usize_from_def read_usize_from_def read_u256_public_def
    by (simp only:) (rule reader_rel_bind [OF reader_rel_u256], rule reader_rel_lift, auto split: if_splits)
qed

lemma reader_rel_counted:
  "reader_rel False Q s f \<Longrightarrow> reader_rel False (\<lambda>_. True)
     (rd_bind try_read_usize_from (\<lambda>len. rd_vec w len s)) (rd_bind read_usize_from (\<lambda>len. rd_vec w len f))"
  by (rule reader_rel_bind [OF reader_rel_usize_from]) (simp add: reader_rel_vec)

lemma reader_rel_item:
  "reader_rel strict (\<lambda>_. True) (rd_bind try_read_u256 (\<lambda>v. rd_ret (g v))) (rd_bind read_u256_public (\<lambda>v. rd_ret (g v)))"
  unfolding read_u256_public_def by (rule reader_rel_bind [OF reader_rel_u256 reader_rel_ret]) simp

lemma reader_rel_arrays:
  "reader_rel False (\<lambda>_. True) try_read_u8_array read_u8_array"
  "reader_rel False (\<lambda>_. True) try_read_usize_array read_usize_array"
  "reader_rel False (\<lambda>_. True) try_read_u64_array read_u64_array"
  "reader_rel False (\<lambda>_. True) try_read_bool_array read_bool_array"
  "reader_rel False (\<lambda>_. True) try_read_u256_array read_u256_array"
  unfolding try_read_u8_array_def read_u8_array_def try_read_usize_array_def read_usize_array_def
    try_read_u64_array_def read_u64_array_def try_read_bool_array_def read_bool_array_def
    try_read_u256_array_def read_u256_array_def
  by (rule reader_rel_counted [OF reader_rel_item] reader_rel_counted [OF reader_rel_usize_from]
      reader_rel_counted [OF reader_rel_u256 [folded read_u256_public_def]])+

lemma reader_rel_circuit_description:
  "reader_rel False (\<lambda>_. True) try_read_circuit_description read_circuit_description"
  unfolding try_read_circuit_description_def read_circuit_description_def
  by (rule reader_rel_bind reader_rel_usize_from reader_rel_arrays reader_rel_ret TrueI)+

theorem try_decode_circuit_description_agree:
  assumes "length data < 2 ^ 63" "try_decode_circuit_description data = Inr d"
  shows "decode_circuit_description data = Inr d"
proof -
  have "valid_pos data 0" using assms(1) by (simp add: valid_pos_def)
  from reader_relD(4) [OF reader_rel_circuit_description this] assms(2) show ?thesis
    by (auto simp: try_decode_circuit_description_def decode_circuit_description_def rmap_def rbind_eq_Inr_iff)
qed

section \<open>Codecs\<close>

text \<open>\<open>reads rd bytes x\<close>: wherever \<open>bytes\<close> stands in a slice, \<open>rd\<close> consumes exactly it and returns \<open>x\<close>.\<close>

definition reads :: "'a reader \<Rightarrow> u8 list \<Rightarrow> 'a \<Rightarrow> bool" where
  "reads rd bytes x \<longleftrightarrow>
     (\<forall>pre post. length (pre @ bytes @ post) < 2 ^ 63
        \<longrightarrow> rd (pre @ bytes @ post) (length pre) = Inr (x, length pre + length bytes))"

definition array_bytes :: "('a \<Rightarrow> u8 list) \<Rightarrow> 'a list \<Rightarrow> u8 list" where
  "array_bytes enc xs = to_be_bytes (from_u64 (of_nat (length xs))) @ concat (map enc xs)"

abbreviation word_bytes :: "u64 \<Rightarrow> u8 list" where
  "word_bytes x \<equiv> to_be_bytes (from_u64 x)"

lemma reads_ret: "reads (rd_ret x) [] x"
  by (simp add: reads_def rd_ret_def)

lemma reads_whole: "reads rd bytes x \<Longrightarrow> length bytes < 2 ^ 63 \<Longrightarrow> rd bytes 0 = Inr (x, length bytes)"
  unfolding reads_def by (drule spec [of _ "[]"], drule spec [of _ "[]"]) simp

lemma reads_bind:
  assumes "reads m b1 x" "reads (g x) b2 y"
  shows "reads (rd_bind m g) (b1 @ b2) y"
  unfolding reads_def
proof (intro allI impI)
  fix pre post assume len: "length (pre @ (b1 @ b2) @ post) < (2 :: nat) ^ 63"
  have "m (pre @ b1 @ (b2 @ post)) (length pre) = Inr (x, length pre + length b1)"
    using assms(1) len unfolding reads_def by (metis append_assoc)
  moreover have "g x ((pre @ b1) @ b2 @ post) (length (pre @ b1)) = Inr (y, length (pre @ b1) + length b2)"
    using assms(2) len unfolding reads_def by (metis append_assoc)
  ultimately show "rd_bind m g (pre @ (b1 @ b2) @ post) (length pre) = Inr (y, length pre + length (b1 @ b2))"
    by (simp add: rd_bind_def add.assoc)
qed

lemma reads_map: "reads rd b x \<Longrightarrow> reads (rd_bind rd (\<lambda>v. rd_ret (g v))) b (g x)"
  by (simp add: reads_def rd_bind_def rd_ret_def)

lemma reads_u256: "reads try_read_u256 (to_be_bytes x) x"
proof -
  have "wadd (length pre) 32 = length pre + 32" if "length (pre @ to_be_bytes x @ post) < 2 ^ 63" for pre post :: "u8 list"
    using that by (simp add: wadd_def)
  then show ?thesis by (auto simp: reads_def try_read_u256_def Let_def slice_def)
qed

lemma limb_from_u64: "limb (from_u64 x) 0 = x" "small (from_u64 x)"
  by (simp_all add: from_u64_def small_def limb_def)

lemma reads_usize_from: "n < 2 ^ 64 \<Longrightarrow> reads try_read_usize_from (word_bytes (of_nat n)) n"
proof -
  assume "n < 2 ^ 64"
  then have "unat (of_nat n :: u64) = n" by (simp add: unat_of_nat)
  then have "rd_lift (if \<not> small (from_u64 (of_nat n)) then rerr (DecodeError Too_Large_For_Usize)
      else Inr (unat (limb (from_u64 (of_nat n)) 0))) = rd_ret n"
    by (simp add: limb_from_u64 rd_lift_def rd_ret_def fun_eq_iff)
  then show ?thesis
    unfolding try_read_usize_from_def
    using reads_bind [OF reads_u256, of _ "from_u64 (of_nat n)" "[]" n] reads_ret [of n] by simp
qed

text \<open>An element encoder and its reader; \<open>w\<close> is the size in memory of an element, which is at most the
  size of its encoding.\<close>

locale codec =
  fixes ok :: "'a \<Rightarrow> bool" and w :: nat and enc :: "'a \<Rightarrow> u8 list" and dec :: "'a reader"
  assumes round_trip: "ok x \<Longrightarrow> reads dec (enc x) x" and width: "w \<le> length (enc x)" and positive: "0 < w"
begin

lemma reads_times: "list_all ok xs \<Longrightarrow> reads (rd_times (length xs) dec) (concat (map enc xs)) xs"
proof (induction xs)
  case Nil
  then show ?case by (simp add: reads_def rd_times_def)
next
  case (Cons x xs)
  have "rd_times (Suc n) dec = rd_bind dec (\<lambda>x. rd_bind (rd_times n dec) (\<lambda>xs. rd_ret (x # xs)))" for n
    by (simp add: rd_times_def rd_bind_def rd_ret_def fun_eq_iff)
  then show ?case
    using reads_bind [of dec "enc x" x "\<lambda>x. rd_bind (rd_times (length xs) dec) (\<lambda>xs. rd_ret (x # xs))"]
      round_trip [of x] reads_map [OF Cons.IH, of "\<lambda>xs. x # xs"] Cons.prems by simp
qed

lemma width_all: "w * length xs \<le> length (concat (map enc xs))"
proof (induction xs)
  case Nil
  then show ?case by simp
next
  case (Cons x xs)
  then show ?case using width [of x] by simp
qed

lemma reads_vec: "list_all ok xs \<Longrightarrow> reads (rd_vec w (length xs) dec) (concat (map enc xs)) xs"
  using reads_times [of xs] width_all [of xs]
  by (auto simp: reads_def rd_vec_def rd_bind_def rd_lift_def with_capacity_def)

theorem reads_array:
  assumes "list_all ok xs"
  shows "reads (rd_bind try_read_usize_from (\<lambda>len. rd_vec w len dec)) (array_bytes enc xs) xs"
proof (cases "length xs < 2 ^ 63")
  case True
  then show ?thesis unfolding array_bytes_def
    by (intro reads_bind [where x = "length xs"]) (use assms in \<open>simp_all add: reads_usize_from reads_vec\<close>)
next
  case False
  have "length xs \<le> w * length xs" using positive by simp
  then have "2 ^ 63 \<le> length (array_bytes enc xs)" using False width_all [of xs]
    by (simp only: array_bytes_def length_append)
  then show ?thesis by (simp add: reads_def)
qed

end

interpretation u8_codec: codec "\<lambda>_. True" 1 "\<lambda>x. word_bytes (ucast x)" "rd_bind try_read_u256 (\<lambda>v. rd_ret (ucast (limb v 0) :: u8))"
proof
  fix x :: u8
  have "ucast (ucast x :: u64) = x" by (rule bit_word_eqI) (simp add: bit_ucast_iff)
  then show "reads (rd_bind try_read_u256 (\<lambda>v. rd_ret (ucast (limb v 0) :: u8))) (word_bytes (ucast x)) x"
    using reads_map [OF reads_u256, of "\<lambda>v. ucast (limb v 0) :: u8" "from_u64 (ucast x)"]
    by (simp add: limb_from_u64)
qed simp_all

interpretation usize_codec: codec "\<lambda>n. n < 2 ^ 64" 8 "\<lambda>n. word_bytes (of_nat n)" try_read_usize_from
  by unfold_locales (simp_all add: reads_usize_from)

interpretation u64_codec: codec "\<lambda>_. True" 8 word_bytes "rd_bind try_read_u256 (\<lambda>v. rd_ret (limb v 0))"
proof
  fix x
  show "reads (rd_bind try_read_u256 (\<lambda>v. rd_ret (limb v 0))) (word_bytes x) x"
    using reads_map [OF reads_u256, of "\<lambda>v. limb v 0" "from_u64 x"] by (simp add: limb_from_u64)
qed simp_all

interpretation bool_codec: codec "\<lambda>_. True" 1 "\<lambda>b. word_bytes (if b then 1 else 0)" "rd_bind try_read_u256 (\<lambda>v. rd_ret (\<not> is_zero v))"
proof
  fix b
  show "reads (rd_bind try_read_u256 (\<lambda>v. rd_ret (\<not> is_zero v))) (word_bytes (if b then 1 else 0)) b"
    using reads_map [OF reads_u256, of "\<lambda>v. \<not> is_zero v" "from_u64 (if b then 1 else 0)"]
    by (simp add: is_zero_iff split: if_splits)
qed simp_all

interpretation u256_codec: codec "\<lambda>_. True" 32 to_be_bytes try_read_u256
  by unfold_locales (simp_all add: reads_u256)

section \<open>The round trip of a description\<close>

text \<open>The bytes of a description.\<close>

definition desc_bytes :: "DAGCircuitDescription \<Rightarrow> u8 list" where
  "desc_bytes d =
     word_bytes (of_nat (num_compute_layers d)) @ word_bytes (of_nat (num_input_layers d))
     @ array_bytes (\<lambda>x. word_bytes (ucast x)) (layer_types d)
     @ array_bytes (\<lambda>n. word_bytes (of_nat n)) (num_sumcheck_rounds d)
     @ array_bytes (\<lambda>n. word_bytes (of_nat n)) (atom_offsets d)
     @ array_bytes (\<lambda>n. word_bytes (of_nat n)) (atom_target_layers d)
     @ array_bytes (\<lambda>n. word_bytes (of_nat n)) (atom_commit_idxs d)
     @ array_bytes (\<lambda>n. word_bytes (of_nat n)) (pt_offsets d)
     @ array_bytes word_bytes (pt_data d)
     @ array_bytes (\<lambda>b. word_bytes (if b then 1 else 0)) (input_is_committed d)
     @ array_bytes (\<lambda>n. word_bytes (of_nat n)) (oracle_product_offsets d)
     @ array_bytes (\<lambda>n. word_bytes (of_nat n)) (oracle_result_idxs d)
     @ array_bytes to_be_bytes (oracle_expr_coeffs d)"

text \<open>A description that a Rust program can hold: every \<open>usize\<close> is below \<open>2 ^ 64\<close>.\<close>

definition desc_usizes :: "DAGCircuitDescription \<Rightarrow> nat list" where
  "desc_usizes d = num_compute_layers d # num_input_layers d # num_sumcheck_rounds d @ atom_offsets d
     @ atom_target_layers d @ atom_commit_idxs d @ pt_offsets d @ oracle_product_offsets d @ oracle_result_idxs d"

definition desc_ok :: "DAGCircuitDescription \<Rightarrow> bool" where
  "desc_ok d \<longleftrightarrow> list_all (\<lambda>n. n < 2 ^ 64) (desc_usizes d)"

lemma reads_arrays:
  "reads try_read_u8_array (array_bytes (\<lambda>x. word_bytes (ucast x)) us) us"
  "list_all (\<lambda>n. n < 2 ^ 64) ns \<Longrightarrow> reads try_read_usize_array (array_bytes (\<lambda>n. word_bytes (of_nat n)) ns) ns"
  "reads try_read_u64_array (array_bytes word_bytes xs) xs"
  "reads try_read_bool_array (array_bytes (\<lambda>b. word_bytes (if b then 1 else 0)) bs) bs"
  "reads try_read_u256_array (array_bytes to_be_bytes vs) vs"
  unfolding try_read_u8_array_def try_read_usize_array_def try_read_u64_array_def try_read_bool_array_def try_read_u256_array_def
  using u8_codec.reads_array usize_codec.reads_array u64_codec.reads_array bool_codec.reads_array u256_codec.reads_array
  by (simp_all add: list_all_iff)

lemma reads_desc:
  assumes "desc_ok d"
  shows "reads try_read_circuit_description (desc_bytes d) d"
proof -
  note ok = assms [unfolded desc_ok_def desc_usizes_def, simplified]
  have d: "d = \<lparr>num_compute_layers = num_compute_layers d, num_input_layers = num_input_layers d, layer_types = layer_types d,
      num_sumcheck_rounds = num_sumcheck_rounds d, atom_offsets = atom_offsets d, atom_target_layers = atom_target_layers d,
      atom_commit_idxs = atom_commit_idxs d, pt_offsets = pt_offsets d, pt_data = pt_data d,
      input_is_committed = input_is_committed d, oracle_product_offsets = oracle_product_offsets d,
      oracle_result_idxs = oracle_result_idxs d, oracle_expr_coeffs = oracle_expr_coeffs d\<rparr>" by simp
  have last: "reads (rd_bind try_read_u256_array (\<lambda>oec. rd_ret (g oec))) (array_bytes to_be_bytes (oracle_expr_coeffs d)) (g (oracle_expr_coeffs d))"
    for g :: "u256 list \<Rightarrow> DAGCircuitDescription" by (rule reads_map [OF reads_arrays(5)])
  show ?thesis
    apply (subst (2) d)
    unfolding try_read_circuit_description_def desc_bytes_def
    by ((rule last reads_bind reads_usize_from reads_arrays(1-4)) | (simp add: ok))+
qed

theorem decode_desc_bytes:
  assumes "desc_ok d" "length (desc_bytes d) < 2 ^ 63"
  shows "try_decode_circuit_description (desc_bytes d) = Inr d"
  using reads_whole [OF reads_desc [OF assms(1)] assms(2)] by (simp add: try_decode_circuit_description_def rmap_def)

section \<open>The JSON encoder\<close>

text \<open>When a JSON value stands for a description: every key holds a number, or an array whose elements
  read as the entries.\<close>

definition json_numbers :: "'j json_ops \<Rightarrow> 'j \<Rightarrow> string \<Rightarrow> u64 list \<Rightarrow> bool" where
  "json_numbers ops j key xs \<longleftrightarrow> map_option (map (js_u64 ops)) (js_array ops (js_get ops j key)) = Some (map Some xs)"

definition json_hex :: "'j json_ops \<Rightarrow> (string \<Rightarrow> string + u8 list) \<Rightarrow> 'j \<Rightarrow> u256 \<Rightarrow> bool" where
  "json_hex ops hex_decode v x \<longleftrightarrow>
     (\<exists>s. js_str ops v = Some s \<and> hex_decode (strip_0x s) = Inr (to_be_bytes x))"

definition json_represents ::
  "'j json_ops \<Rightarrow> (string \<Rightarrow> string + u8 list) \<Rightarrow> 'j \<Rightarrow> DAGCircuitDescription \<Rightarrow> bool" where
  "json_represents ops hex_decode j d \<longleftrightarrow>
     js_u64 ops (js_get ops j ''numComputeLayers'') = Some (of_nat (num_compute_layers d))
     \<and> js_u64 ops (js_get ops j ''numInputLayers'') = Some (of_nat (num_input_layers d))
     \<and> json_numbers ops j ''layerTypes'' (map ucast (layer_types d))
     \<and> json_numbers ops j ''numSumcheckRounds'' (map of_nat (num_sumcheck_rounds d))
     \<and> json_numbers ops j ''atomOffsets'' (map of_nat (atom_offsets d))
     \<and> json_numbers ops j ''atomTargetLayers'' (map of_nat (atom_target_layers d))
     \<and> json_numbers ops j ''atomCommitIdxs'' (map of_nat (atom_commit_idxs d))
     \<and> json_numbers ops j ''ptOffsets'' (map of_nat (pt_offsets d))
     \<and> json_numbers ops j ''ptData'' (pt_data d)
     \<and> map_option (map (js_bool ops)) (js_array ops (js_get ops j ''inputIsCommitted'')) = Some (map Some (input_is_committed d))
     \<and> json_numbers ops j ''oracleProductOffsets'' (map of_nat (oracle_product_offsets d))
     \<and> json_numbers ops j ''oracleResultIdxs'' (map of_nat (oracle_result_idxs d))
     \<and> (\<exists>arr. js_array ops (js_get ops j ''oracleExprCoeffs'') = Some arr
          \<and> list_all2 (json_hex ops hex_decode) arr (oracle_expr_coeffs d))"

lemma push_json_array_ok:
  assumes "js_array ops (js_get ops j key) = Some arr"
    and "list_all2 (\<lambda>v x. \<forall>buf. push v buf = Inr (buf @ enc x)) arr xs"
  shows "push_json_array ops j push key buf = Inr (buf @ array_bytes enc xs)"
proof -
  have "rfold push arr b = Inr (b @ concat (map enc xs))" for b
    using assms(2) by (induction arr xs arbitrary: b rule: list_all2_induct) simp_all
  then show ?thesis
    using assms(1) list_all2_lengthD [OF assms(2)]
    by (simp add: push_json_array_def unwrap_def push_usize_def push_u256_def array_bytes_def)
qed

lemma array_bytes_map: "array_bytes enc (map f xs) = array_bytes (\<lambda>x. enc (f x)) xs"
  by (simp add: array_bytes_def comp_def)

lemma push_json_numbers:
  assumes "json_numbers ops j key xs"
  shows "push_json_array ops j (push_json_u64 ops) key buf = Inr (buf @ array_bytes word_bytes xs)"
proof -
  from assms obtain arr where arr: "js_array ops (js_get ops j key) = Some arr" and "map (js_u64 ops) arr = map Some xs"
    by (auto simp: json_numbers_def)
  then have "list_all2 (\<lambda>v x. js_u64 ops v = Some x) arr xs"
    by (simp add: list_eq_iff_nth_eq list_all2_conv_all_nth)
  then show ?thesis
    by (intro push_json_array_ok [OF arr])
      (auto elim!: list_all2_mono simp: push_json_u64_def unwrap_def push_usize_def push_u256_def)
qed

lemma push_json_bools:
  assumes "map_option (map (js_bool ops)) (js_array ops (js_get ops j key)) = Some (map Some bs)"
  shows "push_json_array ops j (push_json_bool ops) key buf = Inr (buf @ array_bytes (\<lambda>b. word_bytes (if b then 1 else 0)) bs)"
proof -
  from assms obtain arr where arr: "js_array ops (js_get ops j key) = Some arr" and "map (js_bool ops) arr = map Some bs"
    by auto
  then have "list_all2 (\<lambda>v x. js_bool ops v = Some x) arr bs"
    by (simp add: list_eq_iff_nth_eq list_all2_conv_all_nth)
  then show ?thesis
    by (intro push_json_array_ok [OF arr])
      (auto elim!: list_all2_mono simp: push_json_bool_def unwrap_def push_usize_def push_u256_def)
qed

lemma push_json_coeffs:
  assumes "js_array ops (js_get ops j key) = Some arr" "list_all2 (json_hex ops hex_decode) arr vs"
  shows "push_json_array ops j (push_json_hex ops hex_decode) key buf = Inr (buf @ array_bytes to_be_bytes vs)"
  using assms(2)
  by (intro push_json_array_ok [OF assms(1)])
    (auto elim!: list_all2_mono simp: json_hex_def push_json_hex_def push_hex_def unwrap_def)

theorem encode_json_desc:
  assumes "json_represents ops hex_decode j d"
  shows "encode_circuit_desc_from_json ops hex_decode j = Inr (desc_bytes d)"
proof -
  note r = assms [unfolded json_represents_def]
  have n: "push_json_u64 ops (js_get ops j ''numComputeLayers'') buf = Inr (buf @ word_bytes (of_nat (num_compute_layers d)))"
    "push_json_u64 ops (js_get ops j ''numInputLayers'') buf = Inr (buf @ word_bytes (of_nat (num_input_layers d)))" for buf
    using r by (simp_all add: push_json_u64_def unwrap_def push_usize_def push_u256_def)
  from r obtain arr where "js_array ops (js_get ops j ''oracleExprCoeffs'') = Some arr"
    "list_all2 (json_hex ops hex_decode) arr (oracle_expr_coeffs d)" by blast
  note c = push_json_coeffs [OF this]
  from r have "json_numbers ops j ''layerTypes'' (map ucast (layer_types d))"
    "json_numbers ops j ''numSumcheckRounds'' (map of_nat (num_sumcheck_rounds d))"
    "json_numbers ops j ''atomOffsets'' (map of_nat (atom_offsets d))"
    "json_numbers ops j ''atomTargetLayers'' (map of_nat (atom_target_layers d))"
    "json_numbers ops j ''atomCommitIdxs'' (map of_nat (atom_commit_idxs d))"
    "json_numbers ops j ''ptOffsets'' (map of_nat (pt_offsets d))"
    "json_numbers ops j ''ptData'' (pt_data d)"
    "json_numbers ops j ''oracleProductOffsets'' (map of_nat (oracle_product_offsets d))"
    "json_numbers ops j ''oracleResultIdxs'' (map of_nat (oracle_result_idxs d))" by blast+
  note nums = this [THEN push_json_numbers]
  from r have b: "map_option (map (js_bool ops)) (js_array ops (js_get ops j ''inputIsCommitted'')) = Some (map Some (input_is_committed d))"
    by blast
  show ?thesis
    by (simp add: encode_circuit_desc_from_json_def n c nums push_json_bools [OF b] array_bytes_map desc_bytes_def)
qed

end
