(* ===== verification/Verifier_Api.thy ===== *)
theory Verifier_Api
  imports Circuit_Desc Hyrax_Laws
begin

text \<open>
  The public interface of the crate (\<open>crates/zkml-verifier/src/lib.rs\<close>, \<open>bundle.rs\<close>, \<open>types.rs\<close>):
  proof bundles, the raw and the bundle entry points, full and hybrid.

  \<open>sha256\<close>, \<open>hex_decode\<close>, the JSON accessors and the JSON and gzip codecs are third-party crates and
  arguments of the definitions.
\<close>

section \<open>Bundles\<close>

record 'j ProofBundle =
  proof_hex :: string
  public_inputs_hex :: string
  gens_hex :: string
  dag_circuit_description :: 'j
  bundle_model_hash :: "string option"
  bundle_timestamp :: "u64 option"
  bundle_prover_version :: "string option"
  bundle_circuit_hash :: "string option"

record ProofMetadata =
  model_hash :: string
  timestamp :: u64
  prover_version :: string

record VerificationResult =
  circuit_hash :: "u8 list"
  verified :: bool

record HybridVerificationResult =
  hybrid_circuit_hash :: "u8 list"
  transcript_digest :: "u8 list"
  compute_fr :: FrOutputCollector
  input_fr :: InputFrOutputs

definition GZIP_MAGIC :: "u8 list" where
  "GZIP_MAGIC = [0x1f, 0x8b]"

definition is_compressed :: "u8 list \<Rightarrow> bool" where
  "is_compressed data \<longleftrightarrow> 2 \<le> length data \<and> data ! 0 = GZIP_MAGIC ! 0 \<and> data ! 1 = GZIP_MAGIC ! 1"

text \<open>\<open>map_err(|e| VerifyError::BundleParse(..))\<close> with a message prefix.\<close>

definition bundle_parse :: "string \<Rightarrow> string + 'a \<Rightarrow> 'a res" where
  "bundle_parse prefix m = (case m of Inl e \<Rightarrow> rerr (BundleParse (prefix @ e)) | Inr x \<Rightarrow> Inr x)"

definition from_json :: "(string \<Rightarrow> string + 'j ProofBundle) \<Rightarrow> string \<Rightarrow> 'j ProofBundle res" where
  "from_json parse_str json = bundle_parse [] (parse_str json)"

definition from_bytes ::
  "(string \<Rightarrow> string + 'j ProofBundle) \<Rightarrow> (u8 list \<Rightarrow> string + 'j ProofBundle) \<Rightarrow> (u8 list \<Rightarrow> string + string)
     \<Rightarrow> u8 list \<Rightarrow> 'j ProofBundle res" where
  "from_bytes parse_str parse_slice gunzip data =
     (if 2 \<le> length data \<and> data ! 0 = GZIP_MAGIC ! 0 \<and> data ! 1 = GZIP_MAGIC ! 1
      then rbind (bundle_parse ''gzip decompress: '' (gunzip data)) (\<lambda>json. bundle_parse [] (parse_str json))
      else bundle_parse [] (parse_slice data))"

definition to_compressed_json ::
  "('j ProofBundle \<Rightarrow> string + u8 list) \<Rightarrow> (u8 list \<Rightarrow> string + 'z) \<Rightarrow> ('z \<Rightarrow> string + u8 list)
     \<Rightarrow> 'j ProofBundle \<Rightarrow> u8 list res" where
  "to_compressed_json to_vec gz_write gz_finish bundle =
     rbind (bundle_parse ''serialize: '' (to_vec bundle)) (\<lambda>json.
     rbind (bundle_parse ''gzip compress: '' (gz_write json)) (\<lambda>encoder.
     bundle_parse ''gzip finish: '' (gz_finish encoder)))"

definition decode_hex :: "(string \<Rightarrow> string + u8 list) \<Rightarrow> string \<Rightarrow> string \<Rightarrow> u8 list res" where
  "decode_hex hex_decode hex_str field_name =
     (let stripped = strip_0x hex_str in bundle_parse (field_name @ '': '') (hex_decode stripped))"

definition proof_data :: "(string \<Rightarrow> string + u8 list) \<Rightarrow> 'j ProofBundle \<Rightarrow> u8 list res" where
  "proof_data hex_decode bundle = decode_hex hex_decode (proof_hex bundle) ''proof_hex''"

definition public_inputs_data :: "(string \<Rightarrow> string + u8 list) \<Rightarrow> 'j ProofBundle \<Rightarrow> u8 list res" where
  "public_inputs_data hex_decode bundle =
     (if public_inputs_hex bundle = [] then Inr []
      else decode_hex hex_decode (public_inputs_hex bundle) ''public_inputs_hex'')"

definition gens_data :: "(string \<Rightarrow> string + u8 list) \<Rightarrow> 'j ProofBundle \<Rightarrow> u8 list res" where
  "gens_data hex_decode bundle = decode_hex hex_decode (gens_hex bundle) ''gens_hex''"

definition metadata :: "'j ProofBundle \<Rightarrow> ProofMetadata" where
  "metadata bundle =
     \<lparr>model_hash = (case bundle_model_hash bundle of None \<Rightarrow> [] | Some h \<Rightarrow> h),
      timestamp = (case bundle_timestamp bundle of None \<Rightarrow> 0 | Some t \<Rightarrow> t),
      prover_version = (case bundle_prover_version bundle of None \<Rightarrow> [] | Some v \<Rightarrow> v)\<rparr>"

section \<open>Verification of a raw proof\<close>

definition REM1 :: "u8 list" where
  "REM1 = [0x52, 0x45, 0x4D, 0x31]"

text \<open>The coordinates of the commitment rows, in order.\<close>

definition input_commit_coords :: "DAGInputLayerProof list \<Rightarrow> u256 list" where
  "input_commit_coords dps = concat (map (\<lambda>dp. concat (map (\<lambda>row. [pt_x row, pt_y row]) (commitment_rows dp))) dps)"

text \<open>What follows the decoding: the transcript, the compute layers, the input layers.\<close>

definition verify_layers ::
  "(u8 list \<Rightarrow> u8 list) \<Rightarrow> u8 list \<Rightarrow> GKRProof \<times> u256 list \<times> DAGInputLayerProof list \<times> PublicValueClaim list
     \<Rightarrow> PedersenGens \<Rightarrow> DAGCircuitDescription \<Rightarrow> bool res" where
  "verify_layers sha256 chash decoded gens desc =
     (let (gkr_proof, embedded_pub_inputs, dag_input_proofs, public_value_claims) = decoded
      in rbind (setup_transcript sha256 chash embedded_pub_inputs (input_commit_coords dag_input_proofs)) (\<lambda>sponge.
         rbind (verify_compute_layers gkr_proof desc gens sponge) (\<lambda>(ctx, sponge).
         rbind (verify_input_layers gkr_proof desc gens ctx sponge embedded_pub_inputs dag_input_proofs
                  public_value_claims) (\<lambda>_.
         Inr True))))"

definition verify_dag_proof_inner ::
  "(u8 list \<Rightarrow> u8 list) \<Rightarrow> u8 list \<Rightarrow> u8 list \<Rightarrow> u8 list \<Rightarrow> u8 list \<Rightarrow> bool res" where
  "verify_dag_proof_inner sha256 proof_dat public_inputs gens_dat circuit_desc_data =
     rbind (rassert (4 \<le> length proof_dat) ''proof data too short for selector'') (\<lambda>_.
     rbind (slice proof_dat 0 4) (\<lambda>selector.
     rbind (rassert (selector = REM1) ''invalid selector'') (\<lambda>_.
     rbind (slice proof_dat 4 (length proof_dat)) (\<lambda>proof_bytes.
     rbind (rassert (32 \<le> length proof_bytes) ''proof body too short for circuit hash'') (\<lambda>_.
     rbind (slice proof_bytes 0 32) (\<lambda>chash.
     rbind (decode_proof_for_dag proof_bytes 0) (\<lambda>decoded.
     rbind (decode_pedersen_gens gens_dat) (\<lambda>gens.
     rbind (decode_circuit_description circuit_desc_data) (\<lambda>desc.
     verify_layers sha256 chash decoded gens desc)))))))))"

text \<open>The hybrid replay returns the outputs of the compute and the input layers and the last sponge.\<close>

definition verify_layers_hybrid ::
  "(u8 list \<Rightarrow> u8 list) \<Rightarrow> u8 list \<Rightarrow> GKRProof \<times> u256 list \<times> DAGInputLayerProof list \<times> PublicValueClaim list
     \<Rightarrow> DAGCircuitDescription \<Rightarrow> (FrOutputCollector \<times> InputFrOutputs \<times> PoseidonSponge) res" where
  "verify_layers_hybrid sha256 chash decoded desc =
     (let (gkr_proof, embedded_pub_inputs, dag_input_proofs, public_value_claims) = decoded
      in rbind (setup_transcript sha256 chash embedded_pub_inputs (input_commit_coords dag_input_proofs)) (\<lambda>sponge.
         rbind (verify_compute_layers_hybrid gkr_proof desc sponge) (\<lambda>((ctx, cfr), sponge).
         rbind (verify_input_layers_hybrid desc ctx sponge embedded_pub_inputs dag_input_proofs) (\<lambda>(ifr, sponge).
         Inr (cfr, ifr, sponge)))))"

definition verify_dag_proof_hybrid_inner ::
  "(u8 list \<Rightarrow> u8 list) \<Rightarrow> u8 list \<Rightarrow> u8 list \<Rightarrow> u8 list \<Rightarrow> u8 list \<Rightarrow> FrOutputCollector res" where
  "verify_dag_proof_hybrid_inner sha256 proof_dat public_inputs gens_dat circuit_desc_data =
     rbind (rassert (4 \<le> length proof_dat) ''proof data too short for selector'') (\<lambda>_.
     rbind (slice proof_dat 0 4) (\<lambda>selector.
     rbind (rassert (selector = REM1) ''invalid selector'') (\<lambda>_.
     rbind (slice proof_dat 4 (length proof_dat)) (\<lambda>proof_bytes.
     rbind (rassert (32 \<le> length proof_bytes) ''proof body too short for circuit hash'') (\<lambda>_.
     rbind (slice proof_bytes 0 32) (\<lambda>chash.
     rbind (decode_proof_for_dag proof_bytes 0) (\<lambda>decoded.
     rbind (decode_pedersen_gens gens_dat) (\<lambda>gens.
     rbind (decode_circuit_description circuit_desc_data) (\<lambda>desc.
     rbind (verify_layers_hybrid sha256 chash decoded desc) (\<lambda>(cfr, ifr, sponge).
     Inr cfr))))))))))"

definition try_verify_dag_proof_inner ::
  "(u8 list \<Rightarrow> u8 list) \<Rightarrow> u8 list \<Rightarrow> u8 list \<Rightarrow> u8 list \<Rightarrow> u8 list \<Rightarrow> bool res" where
  "try_verify_dag_proof_inner sha256 proof_dat public_inputs gens_dat circuit_desc_data =
     (if length proof_dat < 4 then rerr (InvalidFormat ''proof data too short for selector'')
      else rbind (slice proof_dat 0 4) (\<lambda>selector.
        if selector \<noteq> REM1 then rerr (InvalidFormat ''invalid selector (expected REM1)'')
        else rbind (slice proof_dat 4 (length proof_dat)) (\<lambda>proof_bytes.
          if length proof_bytes < 32 then rerr (InvalidFormat ''proof body too short for circuit hash'')
          else rbind (slice proof_bytes 0 32) (\<lambda>chash.
            rbind (try_decode_proof_for_dag proof_bytes 0) (\<lambda>decoded.
            rbind (try_decode_pedersen_gens gens_dat) (\<lambda>gens.
            rbind (try_decode_circuit_description circuit_desc_data) (\<lambda>desc.
            catch_unwind (verify_layers sha256 chash decoded gens desc))))))))"

definition verify_raw ::
  "(u8 list \<Rightarrow> u8 list) \<Rightarrow> u8 list \<Rightarrow> u8 list \<Rightarrow> u8 list \<Rightarrow> VerificationResult res" where
  "verify_raw sha256 proof_dat generators circuit_desc =
     (if length proof_dat < 36 then rerr (InvalidFormat ''proof data too short (need at least 36 bytes)'')
      else rbind (slice proof_dat 0 4) (\<lambda>selector.
        if selector \<noteq> REM1 then rerr (InvalidFormat ''invalid selector (expected REM1)'')
        else rbind (slice proof_dat 4 36) (\<lambda>chash.
          rbind (try_verify_dag_proof_inner sha256 proof_dat [] generators circuit_desc) (\<lambda>ok.
          if ok then Inr \<lparr>circuit_hash = chash, verified = True\<rparr>
          else Inr \<lparr>circuit_hash = chash, verified = False\<rparr>))))"

section \<open>Verification of a bundle\<close>

definition verify ::
  "(u8 list \<Rightarrow> u8 list) \<Rightarrow> (string \<Rightarrow> string + u8 list) \<Rightarrow> 'j json_ops \<Rightarrow> 'j ProofBundle \<Rightarrow> VerificationResult res" where
  "verify sha256 hex_decode ops bundle =
     rbind (proof_data hex_decode bundle) (\<lambda>proof_dat.
     if length proof_dat < 36 then rerr (InvalidProof ''proof too short'')
     else rbind (slice proof_dat 0 4) (\<lambda>selector.
       if selector \<noteq> REM1 then rerr (InvalidProof ''invalid selector (expected REM1)'')
       else rbind (slice proof_dat 4 36) (\<lambda>chash.
         rbind (public_inputs_data hex_decode bundle) (\<lambda>public_inputs.
         rbind (gens_data hex_decode bundle) (\<lambda>gens_dat.
         rbind (encode_circuit_desc_from_json ops hex_decode (dag_circuit_description bundle)) (\<lambda>circuit_desc_data.
         rbind (try_verify_dag_proof_inner sha256 proof_dat public_inputs gens_dat circuit_desc_data) (\<lambda>ok.
         if ok then Inr \<lparr>circuit_hash = chash, verified = True\<rparr>
         else Inr \<lparr>circuit_hash = chash, verified = False\<rparr>)))))))"

definition verify_hybrid ::
  "(u8 list \<Rightarrow> u8 list) \<Rightarrow> (string \<Rightarrow> string + u8 list) \<Rightarrow> 'j json_ops \<Rightarrow> 'j ProofBundle \<Rightarrow> HybridVerificationResult res" where
  "verify_hybrid sha256 hex_decode ops bundle =
     rbind (proof_data hex_decode bundle) (\<lambda>proof_dat.
     if length proof_dat < 36 then rerr (InvalidProof ''proof too short'')
     else rbind (slice proof_dat 0 4) (\<lambda>selector.
       if selector \<noteq> REM1 then rerr (InvalidProof ''invalid selector (expected REM1)'')
       else
         rbind (public_inputs_data hex_decode bundle) (\<lambda>_.
         rbind (gens_data hex_decode bundle) (\<lambda>gens_dat.
         rbind (encode_circuit_desc_from_json ops hex_decode (dag_circuit_description bundle)) (\<lambda>circuit_desc_data.
         catch_unwind (
           rbind (slice proof_dat 4 (length proof_dat)) (\<lambda>proof_bytes.
           rbind (slice proof_bytes 0 32) (\<lambda>ch.
           rbind (decode_proof_for_dag proof_bytes 0) (\<lambda>decoded.
           rbind (decode_pedersen_gens gens_dat) (\<lambda>gens.
           rbind (decode_circuit_description circuit_desc_data) (\<lambda>desc.
           rbind (verify_layers_hybrid sha256 ch decoded desc) (\<lambda>(cfr, ifr, sponge).
           let (digest_fq, sponge) = squeeze sponge; td = to_be_bytes digest_fq
           in Inr \<lparr>hybrid_circuit_hash = ch, transcript_digest = td, compute_fr = cfr, input_fr = ifr\<rparr>))))))))))))"

definition encode_hybrid_fr_outputs :: "HybridVerificationResult \<Rightarrow> u8 list" where
  "encode_hybrid_fr_outputs result =
     (let buf = [];
          n = length (rlc_betas (compute_fr result));
          buf = buf @ to_be_bytes (from_u64 (of_nat n));
          buf = fold (\<lambda>b buf. buf @ to_be_bytes b) (rlc_betas (compute_fr result)) buf;
          buf = fold (\<lambda>z buf. buf @ to_be_bytes z) (z_dot_j_stars (compute_fr result)) buf;
          buf = buf @ to_be_bytes (from_u64 (of_nat (length (z_dot_rs (input_fr result)))));
          buf = buf @ to_be_bytes (from_u64 (of_nat (length (l_tensor_flat (input_fr result)))));
          buf = fold (\<lambda>v buf. buf @ to_be_bytes v) (l_tensor_flat (input_fr result)) buf;
          buf = fold (\<lambda>v buf. buf @ to_be_bytes v) (z_dot_rs (input_fr result)) buf;
          buf = buf @ to_be_bytes (from_u64 (of_nat (length (mle_evals (input_fr result)))));
          buf = fold (\<lambda>v buf. buf @ to_be_bytes v) (mle_evals (input_fr result)) buf
      in buf)"

section \<open>Success of the entry points\<close>

lemma input_commit_coords_even: "even (length (input_commit_coords dps))"
proof -
  have "even (length (concat (map (\<lambda>row. [pt_x row, pt_y row]) rows)))" for rows :: "G1Point list"
    by (induction rows) simp_all
  then show ?thesis by (induction dps) (simp_all add: input_commit_coords_def)
qed

text \<open>The parts that both families of entry points decode.\<close>

definition decodes_to ::
  "u8 list \<Rightarrow> u8 list \<Rightarrow> u8 list \<Rightarrow> u8 list
     \<Rightarrow> GKRProof \<times> u256 list \<times> DAGInputLayerProof list \<times> PublicValueClaim list \<Rightarrow> PedersenGens \<Rightarrow> DAGCircuitDescription \<Rightarrow> bool" where
  "decodes_to proof_dat gens_dat desc_dat chash decoded gens desc \<longleftrightarrow>
     36 \<le> length proof_dat \<and> take 4 proof_dat = REM1 \<and> chash = take 32 (drop 4 proof_dat)
     \<and> decode_proof_for_dag (drop 4 proof_dat) 0 = Inr decoded
     \<and> decode_pedersen_gens gens_dat = Inr gens
     \<and> decode_circuit_description desc_dat = Inr desc"

lemma verify_dag_proof_inner_iff:
  "verify_dag_proof_inner sha256 pd pub gd cd = Inr b \<longleftrightarrow>
     (\<exists>chash decoded gens desc. decodes_to pd gd cd chash decoded gens desc \<and> verify_layers sha256 chash decoded gens desc = Inr b)"
  by (auto simp: verify_dag_proof_inner_def decodes_to_def rbind_eq_Inr_iff slice_eq_Inr_iff)

lemma verify_dag_proof_hybrid_inner_iff:
  "verify_dag_proof_hybrid_inner sha256 pd pub gd cd = Inr cfr \<longleftrightarrow>
     (\<exists>chash decoded gens desc ifr sponge. decodes_to pd gd cd chash decoded gens desc
        \<and> verify_layers_hybrid sha256 chash decoded desc = Inr (cfr, ifr, sponge))"
  by (auto simp: verify_dag_proof_hybrid_inner_def decodes_to_def rbind_eq_Inr_iff slice_eq_Inr_iff)

lemma verify_layers_True: "verify_layers sha256 chash decoded gens desc = Inr b \<Longrightarrow> b"
  by (auto simp: verify_layers_def rbind_eq_Inr_iff Let_def split: prod.splits)

lemma try_verify_agree:
  assumes "length pd < 2 ^ 63" "length gd < 2 ^ 63" "length cd < 2 ^ 63"
    and "try_verify_dag_proof_inner sha256 pd pub gd cd = Inr b"
  shows "\<exists>decoded gens desc. decodes_to pd gd cd (take 32 (drop 4 pd)) decoded gens desc
    \<and> verify_layers sha256 (take 32 (drop 4 pd)) decoded gens desc = Inr b"
proof -
  from assms(4) obtain decoded gens desc where
    d: "try_decode_proof_for_dag (drop 4 pd) 0 = Inr decoded" "try_decode_pedersen_gens gd = Inr gens"
      "try_decode_circuit_description cd = Inr desc"
    and l: "36 \<le> length pd" "take 4 pd = REM1" "verify_layers sha256 (take 32 (drop 4 pd)) decoded gens desc = Inr b"
    by (auto simp: try_verify_dag_proof_inner_def rbind_eq_Inr_iff slice_eq_Inr_iff catch_unwind_eq_Inr_iff split: if_splits)
  have "length (drop 4 pd) < 2 ^ 63" using assms(1) by simp
  from try_decode_proof_agree [OF this d(1)] try_decode_gens_ok(2) [OF assms(2) d(2)]
    try_decode_circuit_description_agree [OF assms(3) d(3)] l
  show ?thesis by (auto simp: decodes_to_def)
qed

lemma verify_raw_eq:
  "verify_raw sha256 pd gd cd = Inr r \<Longrightarrow> 36 \<le> length pd \<and> r = \<lparr>circuit_hash = take 32 (drop 4 pd), verified = True\<rparr>
     \<and> try_verify_dag_proof_inner sha256 pd [] gd cd = Inr True"
  by (auto simp: verify_raw_def try_verify_dag_proof_inner_def rbind_eq_Inr_iff slice_eq_Inr_iff catch_unwind_eq_Inr_iff
      dest: verify_layers_True split: if_splits)

theorem verify_raw_sound:
  assumes "length pd < 2 ^ 63" "length gd < 2 ^ 63" "length cd < 2 ^ 63" "verify_raw sha256 pd gd cd = Inr r"
  shows "r = \<lparr>circuit_hash = take 32 (drop 4 pd), verified = True\<rparr> \<and> verify_dag_proof_inner sha256 pd pub gd cd = Inr True"
  using verify_raw_eq [OF assms(4)] try_verify_agree [OF assms(1-3)] unfolding verify_dag_proof_inner_iff by blast

section \<open>The hybrid entry points follow the full ones\<close>

lemma rd_vec_length: "rd_vec w n rd data off = Inr (xs, off') \<Longrightarrow> length xs = n \<and> w * n < 2 ^ 63"
  by (auto simp: rd_vec_def rd_bind_def rd_lift_def rd_times_def rbind_eq_Inr_iff with_capacity_eq_Inr_iff dest: length_rtimes)

lemma decoded_layers_bound:
  assumes "decode_proof_for_dag data off = Inr (gp, rest)"
  shows "352 * length (layer_proofs gp) < 2 ^ 63"
proof -
  from assms obtain o1 where "decode_proof_prefix data off = Inr (gp, o1)"
    by (auto simp: decode_proof_for_dag_def decode_proof_common_def rd_bind_def rd_offset_def rd_ret_def rbind_eq_Inr_iff)
  then show ?thesis
    by (auto simp: decode_proof_prefix_def rd_bind_def rd_ret_def rbind_eq_Inr_iff dest!: rd_vec_length)
qed

lemma compute_layers_bound:
  assumes "verify_compute_layers gp desc gens sp = Inr (ctx, sp')" "sponge_inv sp"
  shows "num_compute_layers desc \<le> length (layer_proofs gp)"
proof (rule ccontr)
  assume "\<not> ?thesis"
  moreover from verify_compute_layers_ok [OF assms] have "\<forall>i < num_compute_layers desc. i < length (layer_proofs gp)"
    by (auto simp: ctx_ok_def layer_bindings_ok_def)
  ultimately show False by (metis less_irrefl not_le)
qed

theorem verify_layers_agree:
  assumes "verify_layers sha256 chash decoded gens desc = Inr b" "352 * length (layer_proofs (fst decoded)) < 2 ^ 63"
  shows "\<exists>r. verify_layers_hybrid sha256 chash decoded desc = Inr r"
proof -
  obtain gp emb dps cls where d: "decoded = (gp, emb, dps, cls)" by (cases decoded)
  from assms(1) obtain sp ctx sp1 sp2 where
    s: "setup_transcript sha256 chash emb (input_commit_coords dps) = Inr sp"
    and c: "verify_compute_layers gp desc gens sp = Inr (ctx, sp1)"
    and i: "verify_input_layers gp desc gens ctx sp1 emb dps cls = Inr sp2"
    by (auto simp: verify_layers_def d rbind_eq_Inr_iff)
  have "32 * num_compute_layers desc < 2 ^ 63"
    using compute_layers_bound [OF c setup_transcript_inv [OF s]] assms(2) by (simp add: d)
  from verify_compute_layers_agree [OF c this] verify_input_layers_agree [OF i] s show ?thesis
    by (auto simp: verify_layers_hybrid_def d)
qed

lemma decodes_to_bound: "decodes_to pd gd cd chash decoded gens desc \<Longrightarrow> 352 * length (layer_proofs (fst decoded)) < 2 ^ 63"
  by (cases decoded) (auto simp: decodes_to_def dest: decoded_layers_bound)

theorem verify_hybrid_inner_follows:
  assumes "verify_dag_proof_inner sha256 pd pub gd cd = Inr True"
  shows "\<exists>cfr. verify_dag_proof_hybrid_inner sha256 pd pub' gd cd = Inr cfr"
proof -
  from assms obtain chash decoded gens desc where d: "decodes_to pd gd cd chash decoded gens desc"
    and l: "verify_layers sha256 chash decoded gens desc = Inr True" by (auto simp: verify_dag_proof_inner_iff)
  from verify_layers_agree [OF l decodes_to_bound [OF d]] obtain cfr ifr sponge where
    "verify_layers_hybrid sha256 chash decoded desc = Inr (cfr, ifr, sponge)" by (metis prod_cases3)
  then show ?thesis using d unfolding verify_dag_proof_hybrid_inner_iff by blast
qed

section \<open>Panics\<close>

text \<open>The only panic of a reader of the circuit description is the overflow of a capacity.\<close>

definition capacity_only :: "'a reader \<Rightarrow> bool" where
  "capacity_only rd \<longleftrightarrow> (\<forall>data off. valid_pos data off \<longrightarrow>
     (\<forall>p. rd data off = rpanic p \<longrightarrow> p = Capacity_Overflow) \<and> (\<forall>x off'. rd data off = Inr (x, off') \<longrightarrow> valid_pos data off'))"

lemma rbind_eq_rpanic: "rbind m f = rpanic p \<longleftrightarrow> m = rpanic p \<or> (\<exists>x. m = Inr x \<and> f x = rpanic p)"
  by (cases m) (auto simp: rpanic_def)

lemma capacity_only_bind: "capacity_only m \<Longrightarrow> (\<And>x. capacity_only (g x)) \<Longrightarrow> capacity_only (rd_bind m g)"
proof -
  assume m: "capacity_only m" and g: "\<And>x. capacity_only (g x)"
  show ?thesis unfolding capacity_only_def
  proof (intro allI impI)
    fix data off assume v: "valid_pos data off"
    have step: "valid_pos data o1" if "m data off = Inr (x, o1)" for x o1
      using m v that unfolding capacity_only_def by blast
    have "p = Capacity_Overflow" if "rd_bind m g data off = rpanic p" for p
    proof -
      from that consider "m data off = rpanic p" | x o1 where "m data off = Inr (x, o1)" "g x data o1 = rpanic p"
        by (auto simp: rd_bind_def rbind_eq_rpanic)
      then show ?thesis by cases (use m g v step in \<open>unfold capacity_only_def, blast+\<close>)
    qed
    moreover have "valid_pos data off'" if "rd_bind m g data off = Inr (x, off')" for x off'
      using that g step unfolding capacity_only_def by (auto simp: rd_bind_def rbind_eq_Inr_iff)
    ultimately show "(\<forall>p. rd_bind m g data off = rpanic p \<longrightarrow> p = Capacity_Overflow)
        \<and> (\<forall>x off'. rd_bind m g data off = Inr (x, off') \<longrightarrow> valid_pos data off')" by blast
  qed
qed

lemma capacity_only_rel: "reader_rel True P s f \<Longrightarrow> capacity_only s"
proof -
  assume r: "reader_rel True P s f"
  have "s data off \<noteq> rpanic p" if "valid_pos data off" for data off p
    using r that unfolding reader_rel_def by (metis panics_simps(2))
  then show ?thesis unfolding capacity_only_def using reader_relD(2) [OF r] by blast
qed

lemma capacity_only_vec: "reader_rel True P s f \<Longrightarrow> capacity_only (rd_vec w n s)"
  unfolding rd_vec_def
  by (rule capacity_only_bind [OF _ capacity_only_rel [OF reader_rel_times]])
    (auto simp: capacity_only_def rd_lift_def with_capacity_def rpanic_def split: if_splits)

lemma capacity_only_counted: "reader_rel True P s f \<Longrightarrow> capacity_only (rd_bind try_read_usize_from (\<lambda>len. rd_vec w len s))"
  by (rule capacity_only_bind [OF capacity_only_rel [OF reader_rel_usize_from] capacity_only_vec])

lemma capacity_only_description: "capacity_only try_read_circuit_description"
  unfolding try_read_circuit_description_def try_read_u8_array_def try_read_usize_array_def try_read_u64_array_def
    try_read_bool_array_def try_read_u256_array_def
  by (rule capacity_only_counted [OF reader_rel_item] capacity_only_counted [OF reader_rel_usize_from]
      capacity_only_counted [OF reader_rel_u256] capacity_only_bind capacity_only_rel [OF reader_rel_usize_from]
      capacity_only_rel [OF reader_rel_ret] TrueI)+

theorem try_verify_panics:
  assumes "length pd < 2 ^ 63" "length gd < 2 ^ 63" "length cd < 2 ^ 63"
    and "try_verify_dag_proof_inner sha256 pd pub gd cd = rpanic p"
  shows "p = Capacity_Overflow \<and> try_decode_circuit_description cd = rpanic p"
proof -
  have "length (drop 4 pd) < 2 ^ 63" using assms(1) by simp
  then have "try_decode_proof_for_dag (drop 4 pd) 0 \<noteq> rpanic p" "try_decode_pedersen_gens gd \<noteq> rpanic p"
    using try_decode_proof_no_panic [of "drop 4 pd"] try_decode_gens_ok(1) [OF assms(2)] by auto
  moreover have "catch_unwind m \<noteq> rpanic p" for m :: "bool res"
    using catch_unwind_never_panics [of m] by auto
  ultimately have d: "try_decode_circuit_description cd = rpanic p"
    using assms(4) by (auto simp: try_verify_dag_proof_inner_def rbind_eq_rpanic slice_def split: if_splits)
  have "valid_pos cd 0" using assms(3) by (simp add: valid_pos_def)
  with d capacity_only_description show ?thesis
    by (auto simp: try_decode_circuit_description_def rmap_def rbind_eq_rpanic capacity_only_def)
qed

section \<open>Bundles and raw proofs\<close>

text \<open>A bundle whose fields decode to the given bytes.\<close>

definition bundle_parts ::
  "(string \<Rightarrow> string + u8 list) \<Rightarrow> 'j json_ops \<Rightarrow> 'j ProofBundle \<Rightarrow> u8 list \<Rightarrow> u8 list \<Rightarrow> u8 list \<Rightarrow> bool" where
  "bundle_parts hex_decode ops bundle pd gd cd \<longleftrightarrow>
     proof_data hex_decode bundle = Inr pd \<and> gens_data hex_decode bundle = Inr gd
     \<and> (\<exists>pub. public_inputs_data hex_decode bundle = Inr pub)
     \<and> encode_circuit_desc_from_json ops hex_decode (dag_circuit_description bundle) = Inr cd"

lemma try_verify_public_inputs: "try_verify_dag_proof_inner sha256 pd pub gd cd = try_verify_dag_proof_inner sha256 pd pub' gd cd"
  by (simp add: try_verify_dag_proof_inner_def)

theorem verify_parts:
  assumes "bundle_parts hex_decode ops bundle pd gd cd"
  shows "verify sha256 hex_decode ops bundle = Inr r \<longleftrightarrow> verify_raw sha256 pd gd cd = Inr r"
proof -
  from assms obtain pub where "proof_data hex_decode bundle = Inr pd" "gens_data hex_decode bundle = Inr gd"
    "public_inputs_data hex_decode bundle = Inr pub"
    "encode_circuit_desc_from_json ops hex_decode (dag_circuit_description bundle) = Inr cd"
    by (auto simp: bundle_parts_def)
  then show ?thesis
    unfolding verify_def verify_raw_def try_verify_public_inputs [of sha256 pd "[]" gd cd pub]
    by (auto simp: rbind_eq_Inr_iff slice_def split: if_splits)
qed

lemma verify_imp_parts:
  assumes "verify sha256 hex_decode ops bundle = Inr r"
  obtains pd gd cd where "bundle_parts hex_decode ops bundle pd gd cd" "verify_raw sha256 pd gd cd = Inr r"
proof -
  from assms have "\<exists>pd gd cd. bundle_parts hex_decode ops bundle pd gd cd"
    unfolding verify_def bundle_parts_def by (fastforce simp: rbind_eq_Inr_iff split: if_splits)
  then show ?thesis using that assms verify_parts by blast
qed

lemma verify_hybrid_parts:
  assumes "bundle_parts hex_decode ops bundle pd gd cd" "decodes_to pd gd cd chash decoded gens desc"
    and "verify_layers_hybrid sha256 chash decoded desc = Inr (cfr, ifr, sponge)"
  shows "verify_hybrid sha256 hex_decode ops bundle =
    Inr \<lparr>hybrid_circuit_hash = take 32 (drop 4 pd), transcript_digest = to_be_bytes (fst (squeeze sponge)),
         compute_fr = cfr, input_fr = ifr\<rparr>"
proof -
  obtain dg sponge' where sq: "squeeze sponge = (dg, sponge')" by fastforce
  from assms obtain pub where "proof_data hex_decode bundle = Inr pd" "gens_data hex_decode bundle = Inr gd"
    "public_inputs_data hex_decode bundle = Inr pub"
    "encode_circuit_desc_from_json ops hex_decode (dag_circuit_description bundle) = Inr cd"
    by (auto simp: bundle_parts_def)
  moreover from assms(2) have "36 \<le> length pd" "slice pd 0 4 = Inr REM1" "slice pd 4 (length pd) = Inr (drop 4 pd)"
    "slice (drop 4 pd) 0 32 = Inr chash" "chash = take 32 (drop 4 pd)"
    "decode_proof_for_dag (drop 4 pd) 0 = Inr decoded" "decode_pedersen_gens gd = Inr gens" "decode_circuit_description cd = Inr desc"
    by (auto simp: decodes_to_def slice_def)
  ultimately show ?thesis
    using assms(3) by (simp add: verify_hybrid_def sq catch_unwind_def)
qed

theorem verify_hybrid_follows:
  assumes "bundle_parts hex_decode ops bundle pd gd cd" "length pd < 2 ^ 63" "length gd < 2 ^ 63" "length cd < 2 ^ 63"
    and "verify sha256 hex_decode ops bundle = Inr r"
  shows "\<exists>h. verify_hybrid sha256 hex_decode ops bundle = Inr h \<and> hybrid_circuit_hash h = circuit_hash r"
proof -
  have raw: "verify_raw sha256 pd gd cd = Inr r" using verify_parts [OF assms(1)] assms(5) by blast
  note r = verify_raw_eq [OF raw]
  from try_verify_agree [OF assms(2-4)] r obtain decoded gens desc where
    d: "decodes_to pd gd cd (take 32 (drop 4 pd)) decoded gens desc"
    and l: "verify_layers sha256 (take 32 (drop 4 pd)) decoded gens desc = Inr True" by blast
  from verify_layers_agree [OF l decodes_to_bound [OF d]] obtain cfr ifr sponge where
    "verify_layers_hybrid sha256 (take 32 (drop 4 pd)) decoded desc = Inr (cfr, ifr, sponge)" by (metis prod_cases3)
  from verify_hybrid_parts [OF assms(1) d this] r show ?thesis by auto
qed

section \<open>The encoding of hybrid outputs\<close>

definition hybrid_words :: "HybridVerificationResult \<Rightarrow> u256 list" where
  "hybrid_words h =
     [from_u64 (of_nat (length (rlc_betas (compute_fr h))))] @ rlc_betas (compute_fr h) @ z_dot_j_stars (compute_fr h)
     @ [from_u64 (of_nat (length (z_dot_rs (input_fr h)))), from_u64 (of_nat (length (l_tensor_flat (input_fr h))))]
     @ l_tensor_flat (input_fr h) @ z_dot_rs (input_fr h)
     @ [from_u64 (of_nat (length (mle_evals (input_fr h))))] @ mle_evals (input_fr h)"

lemma fold_push_words: "fold (\<lambda>v buf. buf @ to_be_bytes v) vs buf = buf @ concat (map to_be_bytes vs)"
  by (induction vs arbitrary: buf) simp_all

lemma encode_hybrid_words: "encode_hybrid_fr_outputs h = concat (map to_be_bytes (hybrid_words h))"
  by (simp add: encode_hybrid_fr_outputs_def fold_push_words hybrid_words_def Let_def)

text \<open>A reader of the encoding: the counts tell where each part ends.\<close>

definition read_hybrid_outputs :: "(FrOutputCollector \<times> InputFrOutputs) reader" where
  "read_hybrid_outputs =
     rd_bind try_read_usize_from (\<lambda>n.
     rd_bind (rd_times n try_read_u256) (\<lambda>betas. rd_bind (rd_times n try_read_u256) (\<lambda>zs.
     rd_bind try_read_usize_from (\<lambda>nr. rd_bind try_read_usize_from (\<lambda>nl.
     rd_bind (rd_times nl try_read_u256) (\<lambda>ls. rd_bind (rd_times nr try_read_u256) (\<lambda>rs.
     rd_bind try_read_usize_from (\<lambda>nm. rd_bind (rd_times nm try_read_u256) (\<lambda>ms.
     rd_ret (\<lparr>rlc_betas = betas, z_dot_j_stars = zs\<rparr>, \<lparr>l_tensor_flat = ls, z_dot_rs = rs, mle_evals = ms\<rparr>))))))))))"

lemma reads_words: "length vs = n \<Longrightarrow> reads (rd_times n try_read_u256) (concat (map to_be_bytes vs)) vs"
  using u256_codec.reads_times [of vs] by (auto simp: list_all_iff)

theorem hybrid_outputs_roundtrip:
  assumes "length (z_dot_j_stars (compute_fr h)) = length (rlc_betas (compute_fr h))"
    and "length (encode_hybrid_fr_outputs h) < 2 ^ 63"
  shows "read_hybrid_outputs (encode_hybrid_fr_outputs h) 0 = Inr ((compute_fr h, input_fr h), length (encode_hybrid_fr_outputs h))"
proof -
  let ?c = "compute_fr h" and ?i = "input_fr h"
  have words: "length vs \<le> length (concat (map to_be_bytes vs))" for vs by (induction vs) simp_all
  have n: "length (rlc_betas ?c) < 2 ^ 64" "length (z_dot_rs ?i) < 2 ^ 64" "length (l_tensor_flat ?i) < 2 ^ 64" "length (mle_evals ?i) < 2 ^ 64"
    using assms(2) words [of "rlc_betas ?c"] words [of "z_dot_rs ?i"] words [of "l_tensor_flat ?i"] words [of "mle_evals ?i"]
    by (simp_all add: encode_hybrid_words hybrid_words_def)
  have last: "reads (rd_bind (rd_times (length (mle_evals ?i)) try_read_u256) (\<lambda>ms. rd_ret (g ms))) (concat (map to_be_bytes (mle_evals ?i))) (g (mle_evals ?i))"
    for g :: "u256 list \<Rightarrow> FrOutputCollector \<times> InputFrOutputs" by (rule reads_map [OF reads_words]) simp
  have "reads read_hybrid_outputs (encode_hybrid_fr_outputs h)
      (\<lparr>rlc_betas = rlc_betas ?c, z_dot_j_stars = z_dot_j_stars ?c\<rparr>,
       \<lparr>l_tensor_flat = l_tensor_flat ?i, z_dot_rs = z_dot_rs ?i, mle_evals = mle_evals ?i\<rparr>)"
    unfolding read_hybrid_outputs_def encode_hybrid_words hybrid_words_def map_append concat_append list.map concat.simps append_Nil2
      append_assoc
    by ((rule last reads_bind reads_usize_from reads_words) | (simp add: n [simplified] assms(1)))+
  from reads_whole [OF this assms(2)] show ?thesis by simp
qed

end
