(* ===== verification/Example_Proofs.thy ===== *)
theory Example_Proofs
  imports Verifier_Api Curve_Law
begin

text \<open>
  Concrete inputs on which the hypotheses of the properties hold: proofs and circuit descriptions given
  by their 32-byte words, a hexadecimal decoder, and a type of JSON values with its accessors. The
  last two are instances of the parameters that stand for the crates \<open>hex\<close> and \<open>serde_json\<close>.
\<close>

section \<open>Bytes of words\<close>

definition word_list_bytes :: "u256 list \<Rightarrow> u8 list" where
  "word_list_bytes ws = concat (map to_be_bytes ws)"

lemma length_word_list_bytes [simp]: "length (word_list_bytes ws) = 32 * length ws"
  by (induction ws) (simp_all add: word_list_bytes_def)

lemma read_word:
  assumes "n mod 32 = 0" "n div 32 < length ws" "length ws < 1000"
  shows "try_read_u256 (word_list_bytes ws) n = Inr (ws ! (n div 32), n + 32)"
proof -
  let ?i = "n div 32"
  have n: "n = 32 * ?i" using assms(1) by auto
  have b: "word_list_bytes ws = word_list_bytes (take ?i ws) @ to_be_bytes (ws ! ?i) @ word_list_bytes (drop (Suc ?i) ws)"
    unfolding word_list_bytes_def using id_take_nth_drop [OF assms(2)]
    by (metis concat.simps(2) concat_append list.simps(9) map_append)
  have l: "length (word_list_bytes (take ?i ws)) = n" using assms(2) n by simp
  have "length (word_list_bytes ws) < 2 ^ 63" using assms(3) by simp
  with reads_u256 [of "ws ! ?i", unfolded reads_def] l b show ?thesis by (metis length_to_be_bytes)
qed

lemma small_consts [simp]: "small u256_ZERO" "small u256_ONE" "limb u256_ZERO 0 = 0" "limb u256_ONE 0 = 1"
  by (simp_all add: small_def limb_def u256_ZERO_def u256_ONE_def)

lemmas reader_eval = rd_bind_def rd_ret_def rd_lift_def rd_times_def rd_repeat_def rd_offset_def rd_vec_def
  with_capacity_def try_read_usize_def try_read_g1_def try_advance_def checked_mul_def checked_add_def
  try_skip_sized_def try_skip_agg_def try_decode_podp_def try_decode_pop_def try_decode_committed_layer_proof_def
  try_decode_eval_def try_decode_dag_input_layer_proof_def try_decode_claim_def try_decode_public_value_claims_def
  try_skip_claim_def try_decode_proof_prefix_def try_skip_claims_def try_decode_proof_common_def
  try_extract_embedded_public_inputs_def try_decode_proof_for_dag_def read_word

section \<open>A small proof\<close>

text \<open>One output commitment and one layer proof without messages; every count that is not 1 is 0.\<close>

definition ex_words :: "u256 list" where
  "ex_words = [u256_ZERO, u256_ZERO, u256_ONE, u256_ZERO, u256_ZERO, u256_ONE] @ replicate 16 u256_ZERO"

definition ex_proof :: "u8 list" where
  "ex_proof = REM1 @ word_list_bytes ex_words"

definition ex_gkr :: GKRProof where
  "ex_gkr = \<lparr>output_claim_commitments = [INFINITY],
     layer_proofs = [\<lparr>sumcheck_proof = \<lparr>sc_sum = INFINITY, sc_messages = [],
        sc_podp = \<lparr>commit_d = INFINITY, commit_d_dot_a = INFINITY, z_vector = [], z_delta = u256_ZERO, z_beta = u256_ZERO\<rparr>\<rparr>,
        commitments = [], pops = []\<rparr>]\<rparr>"

definition ex_desc :: DAGCircuitDescription where
  "ex_desc = \<lparr>num_compute_layers = 0, num_input_layers = 0, layer_types = [], num_sumcheck_rounds = [], atom_offsets = [],
     atom_target_layers = [], atom_commit_idxs = [], pt_offsets = [], pt_data = [], input_is_committed = [],
     oracle_product_offsets = [], oracle_result_idxs = [], oracle_expr_coeffs = []\<rparr>"

definition ex_sha256 :: "u8 list \<Rightarrow> u8 list" where
  "ex_sha256 bs = replicate 32 0"

lemma length_ex_words [simp]: "length ex_words = 22"
  by (simp add: ex_words_def)

lemma length_ex_proof [simp]: "length ex_proof = 708"
  by (simp add: ex_proof_def REM1_def)

lemma ex_words_nth: "i < 22 \<Longrightarrow> ex_words ! i = (if i = 2 \<or> i = 5 then u256_ONE else u256_ZERO)"
  by (auto simp: ex_words_def less_Suc_eq numeral_eq_Suc nth_Cons')

lemma ex_decode: "try_decode_proof_for_dag (word_list_bytes ex_words) 0 = Inr (ex_gkr, [], [], [])"
  by (simp add: reader_eval ex_words_nth ex_gkr_def INFINITY_def)

lemma ex_desc_ok: "desc_ok ex_desc" "length (desc_bytes ex_desc) = 416"
  by (simp_all add: desc_ok_def desc_usizes_def desc_bytes_def ex_desc_def array_bytes_def)

lemma ex_decode_desc: "try_decode_circuit_description (desc_bytes ex_desc) = Inr ex_desc"
  by (rule decode_desc_bytes) (simp_all add: ex_desc_ok)

lemma ex_proof_parts: "drop 4 ex_proof = word_list_bytes ex_words" "slice ex_proof 0 4 = Inr REM1"
  "slice ex_proof 4 708 = Inr (word_list_bytes ex_words)"
  by (simp_all add: slice_def) (simp_all add: ex_proof_def REM1_def)

lemma ex_verify_layers: "length chash = 32 \<Longrightarrow> verify_layers ex_sha256 chash (ex_gkr, [], [], []) gens ex_desc = Inr True"
proof -
  assume "length chash = 32"
  then obtain sp where "setup_transcript ex_sha256 chash [] [] = Inr sp"
    using setup_transcript_items [of ex_sha256 chash "[]" "[]"] by (auto simp: ex_sha256_def)
  then show ?thesis
    by (simp add: verify_layers_def input_commit_coords_def verify_compute_layers_def verify_input_layers_def output_layer_def
        ex_gkr_def ex_desc_def with_capacity_def idx_def)
qed

lemma ex_try_verify: "try_verify_dag_proof_inner ex_sha256 ex_proof pub [] (desc_bytes ex_desc) = Inr True"
proof -
  have "try_decode_pedersen_gens [] = Inr no_gens" by (simp add: try_decode_pedersen_gens_def)
  moreover have "slice (word_list_bytes ex_words) 0 32 = Inr (take 32 (word_list_bytes ex_words))" by (simp add: slice_def)
  ultimately show ?thesis
    by (simp add: try_verify_dag_proof_inner_def ex_proof_parts ex_decode ex_decode_desc ex_verify_layers catch_unwind_def)
qed

lemma ex_verify_raw:
  "verify_raw ex_sha256 ex_proof [] (desc_bytes ex_desc) = Inr \<lparr>circuit_hash = take 32 (drop 4 ex_proof), verified = True\<rparr>"
  by (simp add: verify_raw_def ex_proof_parts ex_try_verify) (simp add: slice_def ex_proof_parts)

lemma ex_compute_layers: "\<exists>ctx sp. verify_compute_layers ex_gkr ex_desc no_gens init = Inr (ctx, sp)"
  by (simp add: verify_compute_layers_def output_layer_def ex_gkr_def ex_desc_def with_capacity_def idx_def)

text \<open>A description with entries in every field, and outputs of a hybrid run.\<close>

definition ex_desc2 :: DAGCircuitDescription where
  "ex_desc2 = \<lparr>num_compute_layers = 2, num_input_layers = 1, layer_types = [0, 1], num_sumcheck_rounds = [3, 2], atom_offsets = [0, 1],
     atom_target_layers = [1, 2], atom_commit_idxs = [0, 1], pt_offsets = [0, 1], pt_data = [20001], input_is_committed = [True, False],
     oracle_product_offsets = [0, 1], oracle_result_idxs = [0], oracle_expr_coeffs = [u256_ONE]\<rparr>"

lemma ex_desc2_ok: "desc_ok ex_desc2" "length (desc_bytes ex_desc2) < 9223372036854775808"
  by (simp_all add: desc_ok_def desc_usizes_def desc_bytes_def ex_desc2_def array_bytes_def)

definition ex_hybrid :: HybridVerificationResult where
  "ex_hybrid = \<lparr>hybrid_circuit_hash = replicate 32 0, transcript_digest = replicate 32 0,
     compute_fr = \<lparr>rlc_betas = [u256_ONE], z_dot_j_stars = [u256_ZERO]\<rparr>,
     input_fr = \<lparr>l_tensor_flat = [u256_ONE, u256_ZERO], z_dot_rs = [u256_ZERO], mle_evals = [u256_ONE]\<rparr>\<rparr>"

lemma ex_hybrid_ok: "length (encode_hybrid_fr_outputs ex_hybrid) = 320"
  "length (z_dot_j_stars (compute_fr ex_hybrid)) = length (rlc_betas (compute_fr ex_hybrid))"
  by (simp_all add: ex_hybrid_def encode_hybrid_words hybrid_words_def)

text \<open>A sumcheck proof without rounds.\<close>

definition ex_sumcheck :: CommittedSumcheckProof where
  "ex_sumcheck = \<lparr>sc_sum = INFINITY, sc_messages = [],
     sc_podp = \<lparr>commit_d = INFINITY, commit_d_dot_a = INFINITY, z_vector = [], z_delta = u256_ZERO, z_beta = u256_ZERO\<rparr>\<rparr>"

lemma ex_sumcheck_replay: "\<exists>z sponge'. sumcheck_verify_hybrid ex_sumcheck degree [] sponge = Inr (z, sponge')"
proof -
  obtain rhos sp where r: "times 1 challenge sponge = (rhos, sp)" by fastforce
  have "length rhos = 1" using length_times [of 1 challenge sponge] r by simp
  then obtain js where "compute_j_star rhos [] [] degree 0 = Inr js" "length js = 0"
    using compute_j_star_total [of "[]" 0 rhos "[]" degree] by auto
  then show ?thesis
    using r by (simp add: sumcheck_verify_hybrid_def ex_sumcheck_def verify_podp_hybrid_eq inner_product_total)
qed

text \<open>Two compute layers without rounds. Layer 0 claims the value committed to in \<open>P\<close> of layer 1.\<close>

definition ex_two_layers :: "G1Point \<Rightarrow> GKRProof" where
  "ex_two_layers P = \<lparr>output_claim_commitments = [INFINITY],
     layer_proofs = [\<lparr>sumcheck_proof = ex_sumcheck, commitments = [P], pops = []\<rparr>,
                     \<lparr>sumcheck_proof = ex_sumcheck, commitments = [], pops = []\<rparr>]\<rparr>"

definition ex_desc_two :: DAGCircuitDescription where
  "ex_desc_two = \<lparr>num_compute_layers = 2, num_input_layers = 0, layer_types = [0, 0], num_sumcheck_rounds = [0, 0],
     atom_offsets = [0, 1, 1], atom_target_layers = [1], atom_commit_idxs = [0], pt_offsets = [0, 0], pt_data = [],
     input_is_committed = [], oracle_product_offsets = [0, 0, 0], oracle_result_idxs = [], oracle_expr_coeffs = []\<rparr>"

lemma pt_infinity: "is_infinity INFINITY" "pt_mul INFINITY s = INFINITY" "pt_add INFINITY INFINITY = INFINITY"
  by (simp_all add: pt_mul_def pt_add_def is_infinity_def INFINITY_def is_zero_iff)

lemma ex_sumcheck_accepts: "\<exists>sp'. sumcheck_verify ex_sumcheck INFINITY degree [] no_gens sp = Inr (True, sp')"
proof -
  obtain z sp' where z: "sumcheck_verify_hybrid ex_sumcheck degree [] sp = Inr (z, sp')" using ex_sumcheck_replay by blast
  have "sumcheck_group_check ex_sumcheck INFINITY no_gens sp z"
    by (simp add: sumcheck_group_check_def podp_equations_def ex_sumcheck_def no_gens_def pt_msm_def pt_infinity case_prod_unfold)
  then show ?thesis using sumcheck_hybrid_split [OF z, of no_gens INFINITY] by (simp add: ex_sumcheck_def)
qed

lemma ex_two_layers_process:
  assumes "i < 2" "all_bindings ctx = replicate i []"
  shows "\<exists>sp'. process_one_layer i (ex_two_layers P) ex_desc_two no_gens ctx sp = Inr ([], sp')"
proof -
  let ?n = "if i = 0 then count_claims_for i ex_desc_two + 1 else count_claims_for i ex_desc_two"
  obtain cs sp1 where cs: "times ?n challenge sp = (cs, sp1)" by fastforce
  have l: "length cs = 1" using cs length_times [of ?n challenge sp] assms(1)
    by (auto simp: count_claims_for_def ex_desc_two_def less_2_cases_iff)
  have d: "absorb_messages_and_derive_bindings (sc_messages ex_sumcheck) sp1 = ([], sp1)"
    by (simp add: derive_bindings_eq ex_sumcheck_def)
  obtain e b where "compute_rlc_eval_and_beta i (ex_two_layers P) ex_desc_two ctx [] cs = Inr (e, b)"
    using assms l by (auto simp: less_2_cases_iff compute_rlc_eval_and_beta_def rlc_row_def rlc_atom_def ex_desc_two_def
        ex_two_layers_def idx_def resolve_point_def usub_def ec_mul_total ec_add_total Let_def)
  moreover have "compute_oracle_eval ms i b ex_desc_two = Inr INFINITY" for ms
    using assms(1) by (auto simp: less_2_cases_iff compute_oracle_eval_def ex_desc_two_def idx_def)
  moreover obtain lp where "idx (layer_proofs (ex_two_layers P)) i = Inr lp" "sumcheck_proof lp = ex_sumcheck" "pops lp = []"
    using assms(1) by (auto simp: less_2_cases_iff ex_two_layers_def idx_def)
  moreover have "idx (layer_types ex_desc_two) i = Inr 0" using assms(1) by (auto simp: less_2_cases_iff ex_desc_two_def idx_def)
  moreover obtain sp2 where "sumcheck_verify ex_sumcheck INFINITY (layer_degree 0) [] no_gens (absorb_commitments (commitments lp) sp1)
      = Inr (True, sp2)" using ex_sumcheck_accepts by blast
  ultimately show ?thesis using cs d by (simp add: process_one_layer_def Let_def verify_products_def rassert_def)
qed

lemma ex_two_layers_verify: "\<exists>ctx sp'. verify_compute_layers (ex_two_layers P) ex_desc_two no_gens sp = Inr (ctx, sp')"
proof -
  obtain ctx sp0 where o: "output_layer (ex_two_layers P) sp = Inr (ctx, sp0)" "all_bindings ctx = []"
    by (auto simp: output_layer_def ex_two_layers_def idx_def ex_sumcheck_def)
  obtain sp1 where 1: "process_one_layer 0 (ex_two_layers P) ex_desc_two no_gens ctx sp0 = Inr ([], sp1)"
    using ex_two_layers_process [of 0 ctx] o(2) by auto
  obtain sp2 where "process_one_layer 1 (ex_two_layers P) ex_desc_two no_gens (ctx\<lparr>all_bindings := [[]]\<rparr>) sp1 = Inr ([], sp2)"
    using ex_two_layers_process [of 1 "ctx\<lparr>all_bindings := [[]]\<rparr>"] by auto
  moreover have "num_compute_layers ex_desc_two = 2" "[0..<2] = [0 :: nat, 1]" by (simp_all add: ex_desc_two_def upt_rec)
  ultimately show ?thesis using o 1 by (simp add: verify_compute_layers_def with_capacity_def)
qed

text \<open>The generator \<open>(1, 2)\<close> of the curve, and two points off it.\<close>

lemma FQ_MOD_neq_zero: "u256_ZERO \<noteq> FQ_MOD"
  by (simp add: u256_ZERO_def FQ_MOD_def)

lemma emb_from_u64: "emb (from_u64 n) = of_nat (unat n)"
  by (simp add: emb_of_nat)

lemma ex_point: "canonical u256_ONE" "canonical (from_u64 2)" "on_curve u256_ONE (from_u64 2)"
  by (simp_all add: on_curve_def emb_from_u64 uval_FQ_MOD)

lemma ex_jac_point:
  "jac_canonical (from_affine u256_ONE (from_u64 2))" "\<not> jac_is_infinity (from_affine u256_ONE (from_u64 2))"
  "represents (from_affine u256_ONE (from_u64 2)) 1 2"
  "jac_canonical (from_affine (from_u64 2) (from_u64 3))" "\<not> jac_is_infinity (from_affine (from_u64 2) (from_u64 3))"
  "represents (from_affine (from_u64 2) (from_u64 3)) 2 3" "\<not> is_zero (jy (from_affine (from_u64 2) (from_u64 3)))"
  "canonical (from_u64 2)" "canonical (from_u64 3)" "\<not> is_zero (from_u64 2)"
  "jz (from_affine u256_ONE (from_u64 2)) = u256_ONE" "jx (from_affine u256_ONE (from_u64 2)) = u256_ONE"
  "emb (from_u64 2) = 2" "emb (from_u64 3) = 3"
  by (simp_all add: from_affine_def is_zero_iff jac_canonical_def jac_is_infinity_def represents_def emb_from_u64 uval_FQ_MOD)

section \<open>A description with an absurd count\<close>

text \<open>No layers, and a first array that claims \<open>2 ^ 63\<close> elements.\<close>

definition ex_bad_words :: "u256 list" where
  "ex_bad_words = [u256_ZERO, u256_ZERO, from_u64 (2 ^ 63)]"

lemma ex_bad_desc: "try_decode_circuit_description (word_list_bytes ex_bad_words) = rpanic Capacity_Overflow"
  by (simp add: try_decode_circuit_description_def try_read_circuit_description_def try_read_u8_array_def try_read_usize_from_def
      rmap_def reader_eval limb_from_u64 ex_bad_words_def)

lemma ex_bad_verify_raw: "verify_raw ex_sha256 ex_proof [] (word_list_bytes ex_bad_words) = rpanic Capacity_Overflow"
proof -
  have "try_decode_pedersen_gens [] = Inr no_gens" by (simp add: try_decode_pedersen_gens_def)
  then show ?thesis
    by (simp add: verify_raw_def try_verify_dag_proof_inner_def ex_proof_parts ex_decode ex_bad_desc)
      (simp add: slice_def)
qed

section \<open>Hexadecimal strings\<close>

definition hex_digit :: "nat \<Rightarrow> char" where
  "hex_digit n = char_of (if n < 10 then 48 + n else 87 + n)"

definition hex_value :: "char \<Rightarrow> nat option" where
  "hex_value c = (let n = of_char c :: nat in
     if 48 \<le> n \<and> n \<le> 57 then Some (n - 48) else if 97 \<le> n \<and> n \<le> 102 then Some (n - 87)
     else if 65 \<le> n \<and> n \<le> 70 then Some (n - 55) else None)"

fun ex_hex_decode :: "string \<Rightarrow> string + u8 list" where
  "ex_hex_decode [] = Inr []"
| "ex_hex_decode [c] = Inl ''Odd number of digits''"
| "ex_hex_decode (c # d # cs) =
     (case (hex_value c, hex_value d) of
        (Some h, Some l) \<Rightarrow> (case ex_hex_decode cs of Inl e \<Rightarrow> Inl e | Inr bs \<Rightarrow> Inr (of_nat (16 * h + l) # bs))
      | _ \<Rightarrow> Inl ''Invalid character'')"

definition hex_encode :: "u8 list \<Rightarrow> string" where
  "hex_encode bs = concat (map (\<lambda>b. [hex_digit (unat b div 16), hex_digit (unat b mod 16)]) bs)"

lemma hex_value_digit: "n < 16 \<Longrightarrow> hex_value (hex_digit n) = Some n"
  by (auto simp: hex_value_def hex_digit_def Let_def)

lemma ex_hex_roundtrip: "ex_hex_decode (hex_encode bs) = Inr bs"
proof (induction bs)
  case Nil
  then show ?case by (simp add: hex_encode_def)
next
  case (Cons b bs)
  have "unat b div 16 < 16" using unsigned_less [of b, where ?'a = nat] by (simp add: less_mult_imp_div_less)
  then show ?case using Cons by (simp add: hex_encode_def hex_value_digit)
qed

section \<open>JSON values\<close>

datatype json = JNull | JBool bool | JNum u64 | JStr string | JArr "json list" | JObj "(string \<times> json) list"

definition ex_ops :: "json json_ops" where
  "ex_ops = \<lparr>
     js_get = (\<lambda>j key. case j of JObj kvs \<Rightarrow> (case map_of kvs key of Some v \<Rightarrow> v | None \<Rightarrow> JNull) | _ \<Rightarrow> JNull),
     js_u64 = (\<lambda>j. case j of JNum n \<Rightarrow> Some n | _ \<Rightarrow> None),
     js_array = (\<lambda>j. case j of JArr xs \<Rightarrow> Some xs | _ \<Rightarrow> None),
     js_bool = (\<lambda>j. case j of JBool b \<Rightarrow> Some b | _ \<Rightarrow> None),
     js_str = (\<lambda>j. case j of JStr s \<Rightarrow> Some s | _ \<Rightarrow> None)\<rparr>"

definition json_of_desc :: "DAGCircuitDescription \<Rightarrow> json" where
  "json_of_desc d = JObj [
     (''numComputeLayers'', JNum (of_nat (num_compute_layers d))),
     (''numInputLayers'', JNum (of_nat (num_input_layers d))),
     (''layerTypes'', JArr (map (\<lambda>x. JNum (ucast x)) (layer_types d))),
     (''numSumcheckRounds'', JArr (map (\<lambda>n. JNum (of_nat n)) (num_sumcheck_rounds d))),
     (''atomOffsets'', JArr (map (\<lambda>n. JNum (of_nat n)) (atom_offsets d))),
     (''atomTargetLayers'', JArr (map (\<lambda>n. JNum (of_nat n)) (atom_target_layers d))),
     (''atomCommitIdxs'', JArr (map (\<lambda>n. JNum (of_nat n)) (atom_commit_idxs d))),
     (''ptOffsets'', JArr (map (\<lambda>n. JNum (of_nat n)) (pt_offsets d))),
     (''ptData'', JArr (map JNum (pt_data d))),
     (''inputIsCommitted'', JArr (map JBool (input_is_committed d))),
     (''oracleProductOffsets'', JArr (map (\<lambda>n. JNum (of_nat n)) (oracle_product_offsets d))),
     (''oracleResultIdxs'', JArr (map (\<lambda>n. JNum (of_nat n)) (oracle_result_idxs d))),
     (''oracleExprCoeffs'', JArr (map (\<lambda>x. JStr (''0x'' @ hex_encode (to_be_bytes x))) (oracle_expr_coeffs d)))]"

lemma json_of_desc_represents: "json_represents ex_ops ex_hex_decode (json_of_desc d) d"
  by (simp add: json_represents_def json_numbers_def json_of_desc_def ex_ops_def json_hex_def strip_0x_def ex_hex_roundtrip
      list_all2_conv_all_nth comp_def)

text \<open>The bundle of the small proof.\<close>

definition ex_bundle :: "json ProofBundle" where
  "ex_bundle = \<lparr>proof_hex = ''0x'' @ hex_encode ex_proof, public_inputs_hex = [], gens_hex = ''0x'',
     dag_circuit_description = json_of_desc ex_desc, bundle_model_hash = None, bundle_timestamp = None,
     bundle_prover_version = None, bundle_circuit_hash = None\<rparr>"

lemma ex_bundle_parts: "bundle_parts ex_hex_decode ex_ops ex_bundle ex_proof [] (desc_bytes ex_desc)"
  by (simp add: bundle_parts_def ex_bundle_def proof_data_def gens_data_def public_inputs_data_def decode_hex_def bundle_parse_def
      strip_0x_def ex_hex_roundtrip encode_json_desc [OF json_of_desc_represents])

end
