(* ===== verification/Circuit_Breaker.thy ===== *)
theory Circuit_Breaker
  imports Prelude_ZK
begin

text \<open>
  The circuit breaker of the operator (\<open>services/operator/src/circuit_breaker.rs\<close>).

  The mutex makes every operation atomic, so an operation is a function on the state, and concurrent callers are
  an arbitrary sequence of operations: \<open>breaker_step\<close> is one of them at the granularity of the lock, with the
  clock moving forward, and \<open>breaker_run\<close> collects the states that were passed through. The clock readings of an
  operation are its arguments (\<open>Instant\<close> and \<open>Duration\<close> are numbers of nanoseconds; \<open>elapsed\<close> saturates at 0, as
  subtraction on \<open>nat\<close> does). Counters keep the width of the source and wrap. The wrapped call works on a world
  of its own, so that a call that is not made can be told from one that is.
\<close>

datatype State = Closed | Open | HalfOpen

record CircuitBreakerConfig =
  failure_threshold :: "32 word"
  recovery_timeout :: nat
  success_threshold_for_close :: "32 word"

definition CircuitBreakerConfig_default :: CircuitBreakerConfig where
  "CircuitBreakerConfig_default =
     \<lparr> failure_threshold = 5, recovery_timeout = 30 * 10 ^ 9, success_threshold_for_close = 2 \<rparr>"

datatype 'e CircuitBreakerError = Err_Open nat | Err_Inner 'e

record InnerState =
  cb_state :: State
  cb_failures :: "32 word"
  cb_successes :: "32 word"
  opened_at :: "nat option"

record CircuitBreaker = InnerState +
  trips_total :: u64
  state_changes_total :: u64

record CircuitBreakerMetrics =
  m_state :: State
  m_total_trips :: u64
  m_state_changes :: u64
  m_consecutive_failures :: "32 word"
  m_consecutive_successes :: "32 word"

definition breaker_new :: CircuitBreaker where
  "breaker_new = \<lparr> cb_state = Closed, cb_failures = 0, cb_successes = 0, opened_at = None,
                   trips_total = 0, state_changes_total = 0 \<rparr>"

definition maybe_transition_to_half_open :: "CircuitBreakerConfig \<Rightarrow> nat \<Rightarrow> CircuitBreaker \<Rightarrow> CircuitBreaker" where
  "maybe_transition_to_half_open cfg now cb =
     (if cb_state cb = Open then
        (case opened_at cb of
           Some t \<Rightarrow>
             if recovery_timeout cfg \<le> now - t
             then cb\<lparr> cb_state := HalfOpen, cb_successes := 0, state_changes_total := state_changes_total cb + 1 \<rparr>
             else cb
         | None \<Rightarrow> cb)
      else cb)"

definition read_state :: "CircuitBreakerConfig \<Rightarrow> nat \<Rightarrow> CircuitBreaker \<Rightarrow> State \<times> CircuitBreaker" where
  "read_state cfg now cb = (let cb = maybe_transition_to_half_open cfg now cb in (cb_state cb, cb))"

text \<open>The clock is read once for the transition and once more for the remaining time. The remaining time is kept
  as a duration; the source formats it as seconds.\<close>

definition allow_request ::
  "CircuitBreakerConfig \<Rightarrow> nat \<Rightarrow> nat \<Rightarrow> CircuitBreaker \<Rightarrow> ('e CircuitBreakerError + unit) \<times> CircuitBreaker" where
  "allow_request cfg now now' cb =
     (let cb = maybe_transition_to_half_open cfg now cb
      in case cb_state cb of
           Closed \<Rightarrow> (Inr (), cb)
         | HalfOpen \<Rightarrow> (Inr (), cb)
         | Open \<Rightarrow> (Inl (Err_Open (recovery_timeout cfg - (now' - (case opened_at cb of Some t \<Rightarrow> t | None \<Rightarrow> now')))), cb))"

definition record_success :: "CircuitBreakerConfig \<Rightarrow> CircuitBreaker \<Rightarrow> CircuitBreaker" where
  "record_success cfg cb =
     (let cb = cb\<lparr> cb_failures := 0 \<rparr>
      in case cb_state cb of
           HalfOpen \<Rightarrow>
             (let cb = cb\<lparr> cb_successes := cb_successes cb + 1 \<rparr>
              in if success_threshold_for_close cfg \<le> cb_successes cb
                 then cb\<lparr> cb_state := Closed, opened_at := None, cb_successes := 0,
                          state_changes_total := state_changes_total cb + 1 \<rparr>
                 else cb)
         | Closed \<Rightarrow> cb
         | Open \<Rightarrow> cb)"

definition record_failure :: "CircuitBreakerConfig \<Rightarrow> nat \<Rightarrow> CircuitBreaker \<Rightarrow> CircuitBreaker" where
  "record_failure cfg now cb =
     (let cb = cb\<lparr> cb_successes := 0, cb_failures := cb_failures cb + 1 \<rparr>;
          trip = cb\<lparr> cb_state := Open, opened_at := Some now, trips_total := trips_total cb + 1,
                     state_changes_total := state_changes_total cb + 1 \<rparr>
      in case cb_state cb of
           Closed \<Rightarrow> if failure_threshold cfg \<le> cb_failures cb then trip else cb
         | HalfOpen \<Rightarrow> trip
         | Open \<Rightarrow> cb)"

definition consecutive_failures :: "CircuitBreaker \<Rightarrow> 32 word" where
  "consecutive_failures cb = cb_failures cb"

definition trip_count :: "CircuitBreaker \<Rightarrow> u64" where
  "trip_count cb = trips_total cb"

definition metrics :: "CircuitBreakerConfig \<Rightarrow> nat \<Rightarrow> CircuitBreaker \<Rightarrow> CircuitBreakerMetrics \<times> CircuitBreaker" where
  "metrics cfg now cb =
     (let cb = maybe_transition_to_half_open cfg now cb
      in (\<lparr> m_state = cb_state cb, m_total_trips = trips_total cb, m_state_changes = state_changes_total cb,
            m_consecutive_failures = cb_failures cb, m_consecutive_successes = cb_successes cb \<rparr>, cb))"

text \<open>\<open>call_sync\<close>, with no other caller between its lock acquisitions. The clock readings are those of
  \<open>allow_request\<close> and of \<open>record_failure\<close>.\<close>

definition call_sync ::
  "CircuitBreakerConfig \<Rightarrow> nat \<Rightarrow> nat \<Rightarrow> nat \<Rightarrow> ('w \<Rightarrow> ('e + 'a) \<times> 'w) \<Rightarrow> CircuitBreaker \<times> 'w
   \<Rightarrow> ('e CircuitBreakerError + 'a) \<times> CircuitBreaker \<times> 'w" where
  "call_sync cfg now now' end_time f s =
     (case s of (cb, w) \<Rightarrow>
        (case allow_request cfg now now' cb of
           (Inl e, cb) \<Rightarrow> (Inl e, cb, w)
         | (Inr _, cb) \<Rightarrow>
             (case f w of
                (Inr val, w) \<Rightarrow> (Inr val, record_success cfg cb, w)
              | (Inl e, w) \<Rightarrow> (Inl (Err_Inner e), record_failure cfg end_time cb, w))))"

section \<open>Runs\<close>

datatype event = Ev_State | Ev_Allow nat | Ev_Success | Ev_Failure | Ev_Metrics

fun perform :: "CircuitBreakerConfig \<Rightarrow> nat \<Rightarrow> event \<Rightarrow> CircuitBreaker \<Rightarrow> CircuitBreaker" where
  "perform cfg now Ev_State cb = snd (read_state cfg now cb)"
| "perform cfg now (Ev_Allow now') cb = snd (allow_request cfg now now' cb :: (unit CircuitBreakerError + unit) \<times> _)"
| "perform cfg now Ev_Success cb = record_success cfg cb"
| "perform cfg now Ev_Failure cb = record_failure cfg now cb"
| "perform cfg now Ev_Metrics cb = snd (metrics cfg now cb)"

inductive breaker_step :: "CircuitBreakerConfig \<Rightarrow> nat \<times> CircuitBreaker \<Rightarrow> nat \<times> CircuitBreaker \<Rightarrow> bool" for cfg where
  operation: "t \<le> now \<Longrightarrow> breaker_step cfg (t, cb) (now, perform cfg now ev cb)"

inductive_cases breaker_stepE: "breaker_step cfg (t, cb) (now, cb')"

inductive breaker_run :: "CircuitBreakerConfig \<Rightarrow> State list \<Rightarrow> nat \<times> CircuitBreaker \<Rightarrow> bool" for cfg where
  start: "breaker_run cfg [Closed] (t, breaker_new)"
| step: "breaker_run cfg trace (t, cb) \<Longrightarrow> breaker_step cfg (t, cb) (now, cb') \<Longrightarrow>
         breaker_run cfg (cb_state cb' # trace) (now, cb')"

text \<open>The entries into a state and the changes of state along a trace, latest state first.\<close>

fun entries :: "State \<Rightarrow> State list \<Rightarrow> nat" where
  "entries s (x # y # zs) = (if x = s \<and> y \<noteq> s then 1 else 0) + entries s (y # zs)"
| "entries s _ = 0"

fun changes :: "State list \<Rightarrow> nat" where
  "changes (x # y # zs) = (if x \<noteq> y then 1 else 0) + changes (y # zs)"
| "changes _ = 0"

section \<open>The state invariant\<close>

definition breaker_inv :: "CircuitBreakerConfig \<Rightarrow> nat \<Rightarrow> CircuitBreaker \<Rightarrow> bool" where
  "breaker_inv cfg t cb =
     (case cb_state cb of
        Closed \<Rightarrow> opened_at cb = None \<and> cb_successes cb = 0 \<and> (cb_failures cb = 0 \<or> cb_failures cb < failure_threshold cfg)
      | Open \<Rightarrow> (\<exists>t0 \<le> t. opened_at cb = Some t0) \<and> cb_successes cb = 0
      | HalfOpen \<Rightarrow> (\<exists>t0 \<le> t. opened_at cb = Some t0)
                   \<and> (cb_successes cb = 0 \<or> cb_successes cb < success_threshold_for_close cfg))"

lemmas breaker_defs =
  maybe_transition_to_half_open_def read_state_def allow_request_def record_success_def record_failure_def metrics_def

lemma perform_reads [simp]:
  "perform cfg now Ev_State cb = maybe_transition_to_half_open cfg now cb"
  "perform cfg now (Ev_Allow now') cb = maybe_transition_to_half_open cfg now cb"
  "perform cfg now Ev_Metrics cb = maybe_transition_to_half_open cfg now cb"
  by (simp_all add: read_state_def allow_request_def metrics_def Let_def split: State.split)

declare perform.simps(1,2,5) [simp del]

lemma breaker_inv_new: "breaker_inv cfg t breaker_new"
  by (simp add: breaker_inv_def breaker_new_def)

lemma breaker_inv_later: "breaker_inv cfg t cb \<Longrightarrow> t \<le> now \<Longrightarrow> breaker_inv cfg now cb"
  by (auto simp: breaker_inv_def split: State.splits)

lemma breaker_inv_transition:
  "breaker_inv cfg now cb \<Longrightarrow> breaker_inv cfg now (maybe_transition_to_half_open cfg now cb)"
  by (auto simp: breaker_inv_def maybe_transition_to_half_open_def split: State.splits if_splits)

lemma breaker_inv_success: "breaker_inv cfg now cb \<Longrightarrow> breaker_inv cfg now (record_success cfg cb)"
  by (auto simp: breaker_inv_def record_success_def Let_def not_le split: State.splits)

lemma breaker_inv_failure: "breaker_inv cfg now cb \<Longrightarrow> breaker_inv cfg now (record_failure cfg now cb)"
  by (auto simp: breaker_inv_def record_failure_def Let_def not_le split: State.splits)

lemma breaker_inv_perform: "breaker_inv cfg t cb \<Longrightarrow> t \<le> now \<Longrightarrow> breaker_inv cfg now (perform cfg now ev cb)"
  by (cases ev) (auto intro: breaker_inv_later breaker_inv_transition breaker_inv_success breaker_inv_failure)

text \<open>The counters of an operation.\<close>

lemma perform_counters:
  "trips_total (perform cfg now ev cb) =
     trips_total cb + (if cb_state cb \<noteq> Open \<and> cb_state (perform cfg now ev cb) = Open then 1 else 0)"
  "state_changes_total (perform cfg now ev cb) =
     state_changes_total cb + (if cb_state (perform cfg now ev cb) \<noteq> cb_state cb then 1 else 0)"
  by (cases ev; auto simp: breaker_defs Let_def split: State.splits option.splits)+

text \<open>The edges of the state diagram.\<close>

lemma perform_edges:
  "(cb_state cb, cb_state (perform cfg now ev cb)) \<notin> {(Closed, HalfOpen), (Open, Closed)}"
  by (cases ev; auto simp: breaker_defs Let_def split: State.splits option.splits)

section \<open>Invariant of runs\<close>

theorem run_invariant:
  assumes "breaker_run cfg trace s"
  shows "breaker_inv cfg (fst s) (snd s) \<and> trace \<noteq> [] \<and> cb_state (snd s) = hd trace
    \<and> trips_total (snd s) = of_nat (entries Open trace) \<and> state_changes_total (snd s) = of_nat (changes trace)"
  using assms
proof induction
  case (start t)
  then show ?case by (simp add: breaker_inv_new) (simp add: breaker_new_def)
next
  case (step trace t cb now cb')
  from step.hyps(2) obtain ev where ev: "t \<le> now" "cb' = perform cfg now ev cb" by (rule breaker_stepE) auto
  from step.IH obtain y zs where tr: "trace = y # zs" "cb_state cb = y" by (cases trace) auto
  have "breaker_inv cfg now cb'" using step.IH ev breaker_inv_perform by auto
  then show ?case
    using step.IH tr perform_counters [of cfg now ev cb] ev(2) by (auto simp: add.commute)
qed

section \<open>Tripping\<close>

text \<open>The breaker after a series of failures at the given times.\<close>

definition failures :: "CircuitBreakerConfig \<Rightarrow> nat list \<Rightarrow> CircuitBreaker \<Rightarrow> CircuitBreaker" where
  "failures cfg ts cb = fold (\<lambda>t. record_failure cfg t) ts cb"

lemma unat_Suc32: "(x :: 32 word) < y \<Longrightarrow> unat (x + 1) = Suc (unat x)"
proof -
  assume "x < y"
  moreover have "unat y < 2 ^ LENGTH(32)" by (rule unsigned_less)
  ultimately show ?thesis by (simp add: unat_word_ariths word_less_nat_alt)
qed

lemma max_unat: "(x :: 32 word) \<noteq> 0 \<Longrightarrow> max 1 (unat x) = unat x"
  using unat_eq_0 [of x] by simp

lemma failures_snoc: "failures cfg (ts @ [t]) cb = record_failure cfg t (failures cfg ts cb)"
  by (simp add: failures_def)

lemma failures_below:
  assumes "cb_state cb = Closed" "cb_failures cb = 0" "length ts < max 1 (unat (failure_threshold cfg))"
  shows "cb_state (failures cfg ts cb) = Closed \<and> unat (cb_failures (failures cfg ts cb)) = length ts
    \<and> trips_total (failures cfg ts cb) = trips_total cb"
  using assms(3)
proof (induction ts rule: rev_induct)
  case Nil
  then show ?case using assms by (simp add: failures_def)
next
  case (snoc t ts)
  let ?cb = "failures cfg ts cb"
  have IH: "cb_state ?cb = Closed" "unat (cb_failures ?cb) = length ts" "trips_total ?cb = trips_total cb" using snoc by auto
  have "Suc (length ts) < unat (failure_threshold cfg)" using snoc.prems by simp
  then have "unat (cb_failures ?cb + 1) = Suc (length ts)" "Suc (length ts) < unat (failure_threshold cfg)"
    using IH(2) unat_Suc32 [of "cb_failures ?cb" "failure_threshold cfg"] by (simp_all add: word_less_nat_alt)
  then show ?case using IH
    by (auto simp: failures_snoc record_failure_def Let_def word_le_nat_alt)
qed

lemma failures_at:
  assumes "cb_state cb = Closed" "cb_failures cb = 0" "Suc (length ts) = max 1 (unat (failure_threshold cfg))"
  shows "cb_state (failures cfg (ts @ [t]) cb) = Open" "opened_at (failures cfg (ts @ [t]) cb) = Some t"
    "trips_total (failures cfg (ts @ [t]) cb) = trips_total cb + 1"
proof -
  let ?cb = "failures cfg ts cb"
  have b: "cb_state ?cb = Closed" "unat (cb_failures ?cb) = length ts" "trips_total ?cb = trips_total cb"
    using failures_below [OF assms(1,2), of ts] assms(3) by auto
  have "failure_threshold cfg \<le> cb_failures ?cb + 1"
  proof (cases "failure_threshold cfg = 0")
    case False
    then have "Suc (length ts) = unat (failure_threshold cfg)" using assms(3) max_unat by metis
    then show ?thesis using b(2) unat_Suc32 [of "cb_failures ?cb" "failure_threshold cfg"]
      by (simp add: word_less_nat_alt word_le_nat_alt)
  qed simp
  then show "cb_state (failures cfg (ts @ [t]) cb) = Open" "opened_at (failures cfg (ts @ [t]) cb) = Some t"
    "trips_total (failures cfg (ts @ [t]) cb) = trips_total cb + 1"
    using b by (auto simp: failures_snoc record_failure_def Let_def)
qed

lemma failures_open:
  assumes "cb_state cb = Open"
  shows "cb_state (failures cfg ts cb) = Open" "opened_at (failures cfg ts cb) = opened_at cb"
    "trips_total (failures cfg ts cb) = trips_total cb"
  using assms by (induction ts arbitrary: cb) (simp_all add: failures_def record_failure_def)

lemma failures_after:
  assumes "cb_state cb = Closed" "cb_failures cb = 0" "n = max 1 (unat (failure_threshold cfg))" "n \<le> length ts"
  shows "cb_state (failures cfg ts cb) = Open" "opened_at (failures cfg ts cb) = Some (ts ! (n - 1))"
    "trips_total (failures cfg ts cb) = trips_total cb + 1"
proof -
  have "0 < n" using assms(3) by simp
  then obtain m where m: "n = Suc m" by (cases n) auto
  have ts: "ts = take m ts @ [ts ! m] @ drop n ts" using assms(4) m by (simp add: id_take_nth_drop)
  have split: "failures cfg ts cb = failures cfg (drop n ts) (failures cfg (take m ts @ [ts ! m]) cb)"
    by (subst ts) (simp add: failures_def)
  have "Suc (length (take m ts)) = max 1 (unat (failure_threshold cfg))"
    using assms(4) unfolding assms(3) [symmetric] m by simp
  note at = failures_at [OF assms(1,2) this, of "ts ! m"]
  show "cb_state (failures cfg ts cb) = Open" "opened_at (failures cfg ts cb) = Some (ts ! (n - 1))"
    "trips_total (failures cfg ts cb) = trips_total cb + 1"
    unfolding split failures_open [OF at(1)] using at m by simp_all
qed

section \<open>Rejection and recovery\<close>

lemma call_rejected:
  assumes "cb_state cb = Open" "opened_at cb = Some t0" "now - t0 < recovery_timeout cfg"
  shows "call_sync cfg now now' end_time f (cb, w) = (Inl (Err_Open (recovery_timeout cfg - (now' - t0))), cb, w)"
  using assms by (simp add: call_sync_def allow_request_def maybe_transition_to_half_open_def)

lemma allow_permitted:
  "cb_state (maybe_transition_to_half_open cfg now cb) \<noteq> Open \<Longrightarrow>
     allow_request cfg now now' cb = (Inr (), maybe_transition_to_half_open cfg now cb)"
  by (simp add: allow_request_def Let_def split: State.split)

lemma call_success:
  "cb_state (maybe_transition_to_half_open cfg now cb) \<noteq> Open \<Longrightarrow> f w = (Inr v, w') \<Longrightarrow>
     call_sync cfg now now' end_time f (cb, w) = (Inr v, record_success cfg (maybe_transition_to_half_open cfg now cb), w')"
  by (simp add: call_sync_def allow_permitted)

lemma call_failure:
  "cb_state (maybe_transition_to_half_open cfg now cb) \<noteq> Open \<Longrightarrow> f w = (Inl e, w') \<Longrightarrow>
     call_sync cfg now now' end_time f (cb, w) =
       (Inl (Err_Inner e), record_failure cfg end_time (maybe_transition_to_half_open cfg now cb), w')"
  by (simp add: call_sync_def allow_permitted)

lemma transition_recovered:
  assumes "cb_state cb = Open" "opened_at cb = Some t0" "recovery_timeout cfg \<le> now - t0"
  shows "cb_state (maybe_transition_to_half_open cfg now cb) = HalfOpen"
    "cb_successes (maybe_transition_to_half_open cfg now cb) = 0"
    "trips_total (maybe_transition_to_half_open cfg now cb) = trips_total cb"
  using assms by (simp_all add: maybe_transition_to_half_open_def)

text \<open>Calls one after the other.\<close>

fun calls ::
  "CircuitBreakerConfig \<Rightarrow> ('w \<Rightarrow> ('e + 'a) \<times> 'w) \<Rightarrow> (nat \<times> nat \<times> nat) list \<Rightarrow> CircuitBreaker \<times> 'w \<Rightarrow> CircuitBreaker \<times> 'w" where
  "calls cfg f [] s = s"
| "calls cfg f ((now, now', end_time) # ts) s = calls cfg f ts (snd (call_sync cfg now now' end_time f s))"

lemma calls_snoc: "calls cfg f (ts @ [(a, b, c)]) s = snd (call_sync cfg a b c f (calls cfg f ts s))"
  by (induction cfg f ts s rule: calls.induct) auto

text \<open>Successful calls: the state after \<open>k\<close> of them, counted from the first one that is let through.\<close>

definition recovered :: "CircuitBreakerConfig \<Rightarrow> nat \<Rightarrow> CircuitBreaker \<Rightarrow> bool" where
  "recovered cfg k cb \<longleftrightarrow>
     (if k < max 1 (unat (success_threshold_for_close cfg))
      then cb_state cb = HalfOpen \<and> unat (cb_successes cb) = k
      else cb_state cb = Closed \<and> cb_successes cb = 0 \<and> opened_at cb = None) \<and> (0 < k \<longrightarrow> cb_failures cb = 0)"

lemma recovered_success:
  assumes "recovered cfg k cb"
  shows "recovered cfg (Suc k) (record_success cfg cb)"
proof -
  let ?n = "success_threshold_for_close cfg"
  consider "max 1 (unat ?n) \<le> k" | "k < max 1 (unat ?n)" by linarith
  then show ?thesis
  proof cases
    case 1
    then show ?thesis using assms by (auto simp: recovered_def record_success_def Let_def)
  next
    case 2
    then have cb: "cb_state cb = HalfOpen" "unat (cb_successes cb) = k" using assms by (auto simp: recovered_def)
    show ?thesis
    proof (cases "?n = 0")
      case True
      then show ?thesis using cb 2 by (auto simp: recovered_def record_success_def Let_def)
    next
      case False
      then have "k < unat ?n" using 2 max_unat by metis
      then have "unat (cb_successes cb + 1) = Suc k"
        using unat_Suc32 [of "cb_successes cb" ?n] cb(2) by (simp add: word_less_nat_alt)
      then show ?thesis using cb \<open>k < unat ?n\<close> by (auto simp: recovered_def record_success_def Let_def word_le_nat_alt)
    qed
  qed
qed

lemma recovered_read: "recovered cfg k cb \<Longrightarrow> maybe_transition_to_half_open cfg now cb = cb"
  by (auto simp: recovered_def maybe_transition_to_half_open_def split: if_splits)

lemma recovered_call:
  assumes "recovered cfg k (maybe_transition_to_half_open cfg now cb)" "f w = (Inr v, w')"
  shows "recovered cfg (Suc k) (fst (snd (call_sync cfg now now' end_time f (cb, w))))"
  using assms recovered_success [OF assms(1)]
  by (subst call_success) (auto simp: recovered_def split: if_splits)

lemma calls_recover:
  assumes "recovered cfg 0 (maybe_transition_to_half_open cfg now cb)" "\<And>w. \<exists>v w'. f w = (Inr v, w')"
  shows "recovered cfg (Suc (length ts)) (fst (calls cfg f ((now, now', end_time) # ts) (cb, w)))"
proof (induction ts rule: rev_induct)
  case Nil
  obtain v w' where "f w = (Inr v, w')" using assms(2) by blast
  then show ?case using recovered_call [of cfg 0 now cb f w v w' now' end_time] assms(1) by simp
next
  case (snoc t ts)
  obtain cb' w1 where s: "calls cfg f ((now, now', end_time) # ts) (cb, w) = (cb', w1)" by fastforce
  obtain a b c where t: "t = (a, b, c)" by (cases t)
  obtain v w2 where "f w1 = (Inr v, w2)" using assms(2) by blast
  then show ?case
    using recovered_call [of cfg _ a cb' f w1 v w2 b c] snoc s
    by (simp add: t calls_snoc [of cfg f "(now, now', end_time) # ts", unfolded append_Cons] recovered_read del: calls.simps)
qed

end
