(* ===== verification/Binary_Heap.thy ===== *)
theory Binary_Heap
  imports Prelude_ZK "HOL-Library.Multiset"
begin

text \<open>
  \<open>std::collections::BinaryHeap\<close>, as far as the job queue uses it: an array in heap order with \<open>push\<close>, \<open>pop\<close> and
  \<open>peek\<close>. The greatest element comes first. The order of the elements is that of an integer key. A hole that the
  library moves through the array is the element that is swapped along here.

  The interface that the job queue relies on is the locale \<open>max_queue\<close>: the contents as a multiset, and \<open>pop\<close> and
  \<open>peek\<close> give an element of the greatest key. The interpretation shows that the array heap provides it.
\<close>

definition parent :: "nat \<Rightarrow> nat" where
  "parent i = (i - 1) div 2"

definition swap :: "'a list \<Rightarrow> nat \<Rightarrow> nat \<Rightarrow> 'a list" where
  "swap xs i j = xs[i := xs ! j, j := xs ! i]"

function sift_up :: "('a \<Rightarrow> int) \<Rightarrow> 'a list \<Rightarrow> nat \<Rightarrow> 'a list" where
  "sift_up key xs pos =
     (if 0 < pos then
        if key (xs ! pos) \<le> key (xs ! parent pos) then xs else sift_up key (swap xs pos (parent pos)) (parent pos)
      else xs)"
  by auto
termination
  by (relation "measure (\<lambda>(_, _, pos). pos)") (auto simp: parent_def)

function sift_down_to_bottom :: "('a \<Rightarrow> int) \<Rightarrow> 'a list \<Rightarrow> nat \<Rightarrow> 'a list \<times> nat" where
  "sift_down_to_bottom key xs pos =
     (let child = 2 * pos + 1
      in if child + 1 < length xs then
           (let child = (if key (xs ! child) \<le> key (xs ! (child + 1)) then child + 1 else child)
            in sift_down_to_bottom key (swap xs pos child) child)
         else if child + 1 = length xs then (swap xs pos child, child)
         else (xs, pos))"
  by auto
termination
  by (relation "measure (\<lambda>(_, xs, pos). length xs - pos)") (auto simp: swap_def)

declare sift_up.simps [simp del] sift_down_to_bottom.simps [simp del]

definition heap_push :: "('a \<Rightarrow> int) \<Rightarrow> 'a \<Rightarrow> 'a list \<Rightarrow> 'a list" where
  "heap_push key x xs = sift_up key (xs @ [x]) (length xs)"

definition heap_pop :: "('a \<Rightarrow> int) \<Rightarrow> 'a list \<Rightarrow> ('a \<times> 'a list) option" where
  "heap_pop key xs =
     (if xs = [] then None
      else let last_item = last xs; data = butlast xs
           in if data = [] then Some (last_item, [])
              else (case sift_down_to_bottom key (data[0 := last_item]) 0 of
                      (data', pos) \<Rightarrow> Some (data ! 0, sift_up key data' pos)))"

definition heap_peek :: "'a list \<Rightarrow> 'a option" where
  "heap_peek xs = (if xs = [] then None else Some (xs ! 0))"

section \<open>The interface\<close>

locale max_queue =
  fixes key :: "'a \<Rightarrow> int"
    and push :: "'a \<Rightarrow> 'q \<Rightarrow> 'q"
    and pop :: "'q \<Rightarrow> ('a \<times> 'q) option"
    and peek :: "'q \<Rightarrow> 'a option"
    and invar :: "'q \<Rightarrow> bool"
    and elems :: "'q \<Rightarrow> 'a multiset"
  assumes push_invar: "invar q \<Longrightarrow> invar (push x q)"
    and push_elems: "invar q \<Longrightarrow> elems (push x q) = add_mset x (elems q)"
    and pop_none: "invar q \<Longrightarrow> pop q = None \<longleftrightarrow> elems q = {#}"
    and pop_invar: "invar q \<Longrightarrow> pop q = Some (x, q') \<Longrightarrow> invar q'"
    and pop_elems: "invar q \<Longrightarrow> pop q = Some (x, q') \<Longrightarrow> elems q = add_mset x (elems q')"
    and pop_greatest: "invar q \<Longrightarrow> pop q = Some (x, q') \<Longrightarrow> y \<in># elems q \<Longrightarrow> key y \<le> key x"
    and peek_pop: "invar q \<Longrightarrow> peek q = map_option fst (pop q)"
begin

lemma pop_some: "invar q \<Longrightarrow> elems q \<noteq> {#} \<Longrightarrow> \<exists>x q'. pop q = Some (x, q')"
  using pop_none by (cases "pop q") auto

lemma pop_member: "invar q \<Longrightarrow> pop q = Some (x, q') \<Longrightarrow> x \<in># elems q"
  using pop_elems by fastforce

lemma pop_rest: "invar q \<Longrightarrow> pop q = Some (x, q') \<Longrightarrow> y \<in># elems q' \<Longrightarrow> y \<in># elems q \<and> key y \<le> key x"
  using pop_elems pop_greatest by fastforce

lemma pop_size: "invar q \<Longrightarrow> pop q = Some (x, q') \<Longrightarrow> size (elems q) = Suc (size (elems q'))"
  using pop_elems by fastforce

text \<open>Replacing the top element by another one keeps the size.\<close>

lemma replace_top:
  "invar q \<Longrightarrow> pop q = Some (x, q') \<Longrightarrow> invar (push y q') \<and> elems (push y q') = add_mset y (elems q - {#x#})"
  using pop_elems pop_invar push_invar push_elems by fastforce

end

section \<open>Heap order\<close>

definition heap_inv :: "('a \<Rightarrow> int) \<Rightarrow> 'a list \<Rightarrow> bool" where
  "heap_inv key xs \<longleftrightarrow> (\<forall>i < length xs. 0 < i \<longrightarrow> key (xs ! i) \<le> key (xs ! parent i))"

text \<open>Heap order except where the element at \<open>pos\<close> takes part; its children are below its parent.\<close>

definition heap_but :: "('a \<Rightarrow> int) \<Rightarrow> 'a list \<Rightarrow> nat \<Rightarrow> bool" where
  "heap_but key xs pos \<longleftrightarrow>
     (\<forall>i < length xs. 0 < i \<longrightarrow> i \<noteq> pos \<longrightarrow> parent i \<noteq> pos \<longrightarrow> key (xs ! i) \<le> key (xs ! parent i))
     \<and> (\<forall>i < length xs. 0 < i \<longrightarrow> parent i = pos \<longrightarrow> 0 < pos \<longrightarrow> key (xs ! i) \<le> key (xs ! parent pos))"

lemma parent_less: "0 < i \<Longrightarrow> parent i < i"
  by (simp add: parent_def)

lemma parent_children: "0 < i \<Longrightarrow> parent i = p \<longleftrightarrow> i = 2 * p + 1 \<or> i = 2 * p + 2"
  by (auto simp: parent_def)

lemma length_swap [simp]: "length (swap xs i j) = length xs"
  by (simp add: swap_def)

lemma mset_swap_pos: "i < length xs \<Longrightarrow> j < length xs \<Longrightarrow> mset (swap xs i j) = mset xs"
  by (simp add: swap_def mset_swap)

lemma nth_swap:
  "i < length xs \<Longrightarrow> j < length xs \<Longrightarrow> k < length xs \<Longrightarrow>
     swap xs i j ! k = (if k = j then xs ! i else if k = i then xs ! j else xs ! k)"
  by (auto simp: swap_def nth_list_update)

lemma sift_up_mset: "pos < length xs \<Longrightarrow> mset (sift_up key xs pos) = mset xs"
proof (induction key xs pos rule: sift_up.induct)
  case (1 key xs pos)
  show ?case
  proof (cases "0 < pos \<and> \<not> key (xs ! pos) \<le> key (xs ! parent pos)")
    case True
    then have p: "parent pos < length xs" using 1(2) parent_less [of pos] by simp
    with 1 True show ?thesis by (subst sift_up.simps) (simp add: mset_swap_pos)
  qed (subst sift_up.simps, auto)
qed

lemma sift_up_heap:
  assumes "pos < length xs" "heap_but key xs pos"
    and "\<And>i. i < length xs \<Longrightarrow> 0 < i \<Longrightarrow> parent i = pos \<Longrightarrow> key (xs ! i) \<le> key (xs ! pos)"
  shows "heap_inv key (sift_up key xs pos)"
  using assms
proof (induction key xs pos rule: sift_up.induct)
  case (1 key xs pos)
  show ?case
  proof (cases "0 < pos \<and> \<not> key (xs ! pos) \<le> key (xs ! parent pos)")
    case False
    then have "sift_up key xs pos = xs" by (subst sift_up.simps) auto
    moreover have "key (xs ! i) \<le> key (xs ! parent i)" if "i < length xs" "0 < i" for i
      using 1(2-4) False that by (cases "i = pos"; cases "parent i = pos") (auto simp: heap_but_def)
    ultimately show ?thesis by (simp add: heap_inv_def)
  next
    case True
    let ?p = "parent pos" and ?ys = "swap xs pos (parent pos)"
    have p: "?p < length xs" "?p < pos" using True 1(2) parent_less [of pos] by auto
    have nth: "?ys ! k = (if k = ?p then xs ! pos else if k = pos then xs ! ?p else xs ! k)" if "k < length xs" for k
      using nth_swap [OF 1(2) p(1) that] by simp
    have up: "key (xs ! i) \<le> key (xs ! ?p)" if "i < length xs" "0 < i" "i \<noteq> pos" "parent i = pos \<or> parent i = ?p" for i
      using 1(3) True that by (cases "parent i = pos") (auto simp: heap_but_def)
    have par: "parent i < length xs" if "i < length xs" "0 < i" for i using that parent_less [of i] by simp
    have "heap_but key ?ys ?p"
      unfolding heap_but_def
    proof (intro conjI allI impI)
      fix i assume i: "i < length ?ys" "0 < i" "i \<noteq> ?p" "parent i \<noteq> ?p"
      then show "key (?ys ! i) \<le> key (?ys ! parent i)"
        using 1(3) up [of i] True nth par [of i] by (auto simp: heap_but_def)
    next
      fix i assume i: "i < length ?ys" "0 < i" "parent i = ?p" "0 < ?p"
      have pp: "parent ?p < ?p" "parent ?p < length xs" using i(4) parent_less [of ?p] p(1) by auto
      have "key (xs ! ?p) \<le> key (xs ! parent ?p)" using 1(3) i(4) p pp by (auto simp: heap_but_def)
      moreover have "key (xs ! i) \<le> key (xs ! ?p) \<or> i = pos" using up [of i] i by auto
      ultimately show "key (?ys ! i) \<le> key (?ys ! parent ?p)"
        using nth [of i] nth [of "parent ?p"] i pp p parent_less [of i] by auto
    qed
    moreover have "key (?ys ! i) \<le> key (?ys ! ?p)" if "i < length ?ys" "0 < i" "parent i = ?p" for i
      using that nth [of i] nth [of ?p] up [of i] True p parent_less [of i] by auto
    ultimately have "heap_inv key (sift_up key ?ys ?p)" using 1(1) True p by simp
    then show ?thesis using True by (subst sift_up.simps) simp
  qed
qed

text \<open>Moving the hole down.\<close>

lemma heap_but_down:
  assumes "heap_but key xs pos" "pos < length xs" "c < length xs" "0 < c" "parent c = pos"
    and "\<And>i. i < length xs \<Longrightarrow> 0 < i \<Longrightarrow> parent i = pos \<Longrightarrow> key (xs ! i) \<le> key (xs ! c)"
  shows "heap_but key (swap xs pos c) c"
proof -
  have pc: "pos < c" using assms(4,5) parent_less by blast
  have nth: "swap xs pos c ! k = (if k = c then xs ! pos else if k = pos then xs ! c else xs ! k)" if "k < length xs" for k
    using nth_swap [OF assms(2,3) that] .
  have par: "parent i < length xs" if "i < length xs" "0 < i" for i using that parent_less [of i] by simp
  have gp: "key (xs ! c) \<le> key (xs ! parent pos)" if "0 < pos" using assms that by (auto simp: heap_but_def)
  show ?thesis
    unfolding heap_but_def
  proof (intro conjI allI impI)
    fix i assume i: "i < length (swap xs pos c)" "0 < i" "i \<noteq> c" "parent i \<noteq> c"
    show "key (swap xs pos c ! i) \<le> key (swap xs pos c ! parent i)"
      using i assms(1) assms(6) [of i] gp nth par [of i] parent_less [of i] by (auto simp: heap_but_def)
  next
    fix i assume i: "i < length (swap xs pos c)" "0 < i" "parent i = c" "0 < c"
    have "i \<noteq> pos" "i \<noteq> c" using i parent_less [of i] pc by auto
    moreover have "key (xs ! i) \<le> key (xs ! c)" using assms(1) i pc \<open>i \<noteq> pos\<close> by (auto simp: heap_but_def)
    ultimately show "key (swap xs pos c ! i) \<le> key (swap xs pos c ! parent c)"
      using i nth [of i] nth [of pos] assms(2,5) pc by auto
  qed
qed

lemma sift_down_correct:
  assumes "sift_down_to_bottom key xs pos = (ys, p)" "pos < length xs" "heap_but key xs pos"
  shows "mset ys = mset xs \<and> p < length ys \<and> heap_but key ys p \<and> (\<forall>i < length ys. 0 < i \<longrightarrow> parent i \<noteq> p)"
  using assms
proof (induction key xs pos arbitrary: ys p rule: sift_down_to_bottom.induct)
  case (1 key xs pos)
  define c where "c = (if key (xs ! (2 * pos + 1)) \<le> key (xs ! (2 * pos + 2)) then 2 * pos + 2 else 2 * pos + 1)"
  consider (two) "2 * pos + 2 < length xs" | (one) "2 * pos + 2 = length xs" | (none) "length xs < 2 * pos + 2" by linarith
  then show ?case
  proof cases
    case two
    have c: "0 < c" "c < length xs" "parent c = pos" using two by (auto simp: c_def parent_def)
    have max: "key (xs ! i) \<le> key (xs ! c)" if "i < length xs" "0 < i" "parent i = pos" for i
      using that by (auto simp: parent_children c_def)
    have "sift_down_to_bottom key (swap xs pos c) c = (ys, p)"
      using 1(2) two by (subst (asm) sift_down_to_bottom.simps) (simp add: c_def Let_def split: if_splits)
    moreover have "heap_but key (swap xs pos c) c" by (rule heap_but_down [OF 1(4,3) c(2,1,3) max])
    moreover have c': "(if key (xs ! (2 * pos + 1)) \<le> key (xs ! (2 * pos + 1 + 1)) then 2 * pos + 1 + 1 else 2 * pos + 1) = c"
      by (simp add: c_def)
    ultimately show ?thesis
      using 1(1) [OF refl _ refl, unfolded c', of ys p] two c 1(3) by (simp add: mset_swap_pos)
  next
    case one
    let ?c = "2 * pos + 1"
    have c: "0 < ?c" "?c < length xs" "parent ?c = pos" using one by (auto simp: parent_def)
    have "sift_down_to_bottom key xs pos = (swap xs pos ?c, ?c)"
      using one by (subst sift_down_to_bottom.simps) (simp add: Let_def)
    then have "ys = swap xs pos ?c" "p = ?c" using 1(2) by simp_all
    moreover have "heap_but key (swap xs pos ?c) ?c"
      by (rule heap_but_down [OF 1(4,3) c(2,1,3)]) (use one in \<open>auto simp: parent_children\<close>)
    ultimately show ?thesis using one c 1(3) by (auto simp: mset_swap_pos parent_children)
  next
    case none
    then have "xs = ys \<and> pos = p" using 1(2) by (subst (asm) sift_down_to_bottom.simps) (simp add: Let_def)
    then show ?thesis using 1(3,4) none by (auto simp: parent_children)
  qed
qed

lemma heap_but_snoc:
  assumes "heap_inv key xs"
  shows "heap_but key (xs @ [x]) (length xs)"
  unfolding heap_but_def
proof (intro conjI allI impI)
  fix i assume i: "i < length (xs @ [x])" "0 < i" "i \<noteq> length xs"
  then have "i < length xs" by simp
  then have "parent i < length xs" using parent_less [OF i(2)] by simp
  then show "key ((xs @ [x]) ! i) \<le> key ((xs @ [x]) ! parent i)"
    using assms \<open>i < length xs\<close> i(2) by (simp add: heap_inv_def nth_append)
next
  fix i assume "i < length (xs @ [x])" "0 < i" "parent i = length xs"
  then show "key ((xs @ [x]) ! i) \<le> key ((xs @ [x]) ! parent (length xs))" using parent_less [of i] by simp
qed

lemma heap_but_top:
  assumes "heap_inv key (xs @ [z])"
  shows "heap_but key (xs[0 := w]) 0"
  unfolding heap_but_def
proof (intro conjI allI impI)
  fix i assume i: "i < length (xs[0 := w])" "0 < i" "parent i \<noteq> 0"
  have "parent i < length xs" using parent_less [OF i(2)] i(1) by simp
  moreover have "key ((xs @ [z]) ! i) \<le> key ((xs @ [z]) ! parent i)" using assms i(1,2) by (simp add: heap_inv_def)
  ultimately show "key (xs[0 := w] ! i) \<le> key (xs[0 := w] ! parent i)" using i by (simp add: nth_append)
qed simp

lemma heap_push_correct:
  assumes "heap_inv key xs"
  shows "mset (heap_push key x xs) = add_mset x (mset xs)" "heap_inv key (heap_push key x xs)"
proof -
  show "mset (heap_push key x xs) = add_mset x (mset xs)" by (simp add: heap_push_def sift_up_mset)
  have leaf: "parent i \<noteq> length xs" if "i < length (xs @ [x])" "0 < i" for i using that parent_less [of i] by simp
  show "heap_inv key (heap_push key x xs)"
    unfolding heap_push_def by (rule sift_up_heap [OF _ heap_but_snoc [OF assms]]) (use leaf in auto)
qed

lemma heap_root: "heap_inv key xs \<Longrightarrow> i < length xs \<Longrightarrow> key (xs ! i) \<le> key (xs ! 0)"
proof (induction i rule: less_induct)
  case (less i)
  then show ?case
    using parent_less [of i] less.IH [of "parent i"] by (cases "i = 0") (force simp: heap_inv_def)+
qed

lemma heap_pop_correct:
  assumes "heap_inv key xs" "heap_pop key xs = Some (x, ys)"
  shows "mset xs = add_mset x (mset ys) \<and> heap_inv key ys \<and> xs \<noteq> [] \<and> x = xs ! 0"
proof -
  have ne: "xs \<noteq> []" using assms(2) by (auto simp: heap_pop_def)
  then obtain data z where xs: "xs = data @ [z]" by (cases xs rule: rev_cases) auto
  show ?thesis
  proof (cases data)
    case Nil
    then show ?thesis using assms(2) xs by (auto simp: heap_pop_def heap_inv_def)
  next
    case (Cons d ds)
    obtain zs p where down: "sift_down_to_bottom key (data[0 := z]) 0 = (zs, p)" by fastforce
    then have out: "x = d" "ys = sift_up key zs p" using assms(2) xs Cons by (auto simp: heap_pop_def)
    from sift_down_correct [OF down _ heap_but_top [OF assms(1) [unfolded xs]]] have
      zs: "mset zs = add_mset z (mset ds)" "p < length zs" "heap_but key zs p" "\<forall>i < length zs. 0 < i \<longrightarrow> parent i \<noteq> p"
      by (auto simp: Cons)
    have "mset ys = add_mset z (mset ds)" using zs(1,2) by (simp add: out sift_up_mset)
    moreover have "heap_inv key ys" unfolding out by (rule sift_up_heap [OF zs(2,3)]) (use zs(4) in blast)
    ultimately show ?thesis using xs Cons out by simp
  qed
qed

lemma heap_pop_none: "heap_pop key xs = None \<longleftrightarrow> xs = []"
  by (auto simp: heap_pop_def Let_def split: prod.splits)

lemma length_sift_up: "length (sift_up key xs pos) = length xs"
proof (induction key xs pos rule: sift_up.induct)
  case (1 key xs pos)
  then show ?case by (subst sift_up.simps) simp
qed

lemma length_sift_down: "length (fst (sift_down_to_bottom key xs pos)) = length xs"
proof (induction key xs pos rule: sift_down_to_bottom.induct)
  case (1 key xs pos)
  then show ?case by (subst sift_down_to_bottom.simps) (simp add: Let_def del: One_nat_def)
qed

lemma heap_pop_length: "heap_pop key xs = Some (x, ys) \<Longrightarrow> length ys < length xs"
  using length_sift_down [of key "(butlast xs)[0 := last xs]" 0]
  by (auto simp: heap_pop_def Let_def length_sift_up split: if_splits prod.splits)

interpretation bh: max_queue key "heap_push key" "heap_pop key" heap_peek "heap_inv key" mset for key
proof
  fix xs ys :: "'a list" and x y
  assume inv: "heap_inv key xs"
  show "heap_inv key (heap_push key x xs)" "mset (heap_push key x xs) = add_mset x (mset xs)"
    by (rule heap_push_correct [OF inv])+
  show "(heap_pop key xs = None) = (mset xs = {#})" by (simp add: heap_pop_none)
  show "heap_peek xs = map_option fst (heap_pop key xs)"
    using heap_pop_correct [OF inv] heap_pop_none [of key xs] by (cases "heap_pop key xs") (auto simp: heap_peek_def)
  assume pop: "heap_pop key xs = Some (x, ys)"
  note c = heap_pop_correct [OF inv pop]
  show "heap_inv key ys" "mset xs = add_mset x (mset ys)" using c by blast+
  assume "y \<in># mset xs"
  then obtain i where "i < length xs" "y = xs ! i" by (metis in_set_conv_nth set_mset_mset)
  then show "key y \<le> key x" using c heap_root [OF inv] by blast
qed

end
