(* ===== verification/Job_Queue.thy ===== *)
theory Job_Queue
  imports Binary_Heap
begin

text \<open>
  The job queue of the prover (\<open>prover/src/queue.rs\<close>): scores, the bounded priority queue with its set of queued
  request ids, and the loop that skips expired jobs.

  The clock readings (\<open>SystemTime\<close> in seconds) are arguments: \<open>push\<close> reads the clock for the expiration check and
  again for each score, \<open>pop\<close> reads it once per job, the \<open>i\<close>-th reading being \<open>clock i\<close>. Scores are added in
  \<open>u64\<close> and subtracted in \<open>i64\<close>; both wrap, as in a release build.
\<close>

record QueuedJob =
  request_id :: u64
  image_id :: "u8 list"
  input_hash :: "u8 list"
  input_url :: string
  input_type :: u8
  tip :: "256 word"
  requester :: "u8 list"
  expires_at :: u64
  queued_at :: nat
  estimated_cycles :: "u64 option"
  program_cached :: bool
  prefetched_input :: "u8 list option"

record JobScore =
  tip_score :: u64
  urgency_boost :: u64
  cache_bonus :: u64
  complexity_penalty :: u64
  score_expires_at :: u64

definition job_score :: "u64 \<Rightarrow> QueuedJob \<Rightarrow> JobScore" where
  "job_score now job =
     (let time_remaining = (if now \<le> expires_at job then expires_at job - now else 0);
          tips = tip job div 1000000000000000
      in \<lparr> tip_score = (if tips < 2 ^ 64 then ucast tips else - 1),
           urgency_boost = (if time_remaining < 600 then 100 - time_remaining div 6 else 0),
           cache_bonus = (if program_cached job then 50 else 0),
           complexity_penalty = (case estimated_cycles job of Some c \<Rightarrow> c div 10000000 | None \<Rightarrow> 0),
           score_expires_at = expires_at job \<rparr>)"

definition total :: "JobScore \<Rightarrow> int" where
  "total s = sint ((tip_score s + urgency_boost s + cache_bonus s) - complexity_penalty s)"

record ScoredJob =
  sj_job :: QueuedJob
  sj_score :: JobScore

text \<open>\<open>Ord for ScoredJob\<close>: by the total.\<close>

definition rank :: "ScoredJob \<Rightarrow> int" where
  "rank s = total (sj_score s)"

definition scored :: "u64 \<Rightarrow> QueuedJob \<Rightarrow> ScoredJob" where
  "scored now job = \<lparr> sj_job = job, sj_score = job_score now job \<rparr>"

record JobQueue =
  heap :: "ScoredJob list"
  seen :: "u64 set"
  max_size :: nat
  min_tip :: "256 word"

definition queue_new :: "nat \<Rightarrow> 256 word \<Rightarrow> JobQueue" where
  "queue_new size_limit tip_limit = \<lparr> heap = [], seen = {}, max_size = size_limit, min_tip = tip_limit \<rparr>"

definition push_insert :: "u64 \<Rightarrow> QueuedJob \<Rightarrow> JobQueue \<Rightarrow> bool \<times> JobQueue" where
  "push_insert now job q =
     (True, q\<lparr> heap := heap_push rank (scored now job) (heap q), seen := insert (request_id job) (seen q) \<rparr>)"

definition queue_push :: "u64 \<Rightarrow> u64 \<Rightarrow> u64 \<Rightarrow> QueuedJob \<Rightarrow> JobQueue \<Rightarrow> bool \<times> JobQueue" where
  "queue_push now now1 now2 job q =
     (if request_id job \<in> seen q then (False, q)
      else if tip job < min_tip q then (False, q)
      else if expires_at job \<le> now then (False, q)
      else if max_size q \<le> length (heap q) then
        (case heap_peek (heap q) of
           Some worst \<Rightarrow>
             if total (job_score now1 job) \<le> rank worst then (False, q)
             else (case heap_pop rank (heap q) of
                     Some (removed, h) \<Rightarrow>
                       push_insert now2 job (q\<lparr> heap := h, seen := seen q - {request_id (sj_job removed)} \<rparr>)
                   | None \<Rightarrow> push_insert now2 job q)
         | None \<Rightarrow> push_insert now2 job q)
      else push_insert now2 job q)"

function pop_from :: "(nat \<Rightarrow> u64) \<Rightarrow> nat \<Rightarrow> JobQueue \<Rightarrow> QueuedJob option \<times> JobQueue" where
  "pop_from clock i q =
     (case heap_pop rank (heap q) of
        None \<Rightarrow> (None, q)
      | Some (s, h) \<Rightarrow>
          (let q = q\<lparr> heap := h, seen := seen q - {request_id (sj_job s)} \<rparr>
           in if clock i < expires_at (sj_job s) then (Some (sj_job s), q) else pop_from clock (i + 1) q))"
  by auto
termination
  by (relation "measure (\<lambda>(_, _, q). length (heap q))") (auto dest: heap_pop_length)

declare pop_from.simps [simp del]

definition queue_pop :: "(nat \<Rightarrow> u64) \<Rightarrow> JobQueue \<Rightarrow> QueuedJob option \<times> JobQueue" where
  "queue_pop clock q = pop_from clock 0 q"

definition iter_jobs :: "JobQueue \<Rightarrow> QueuedJob list" where
  "iter_jobs q = map sj_job (heap q)"

section \<open>The state invariant\<close>

definition ids :: "ScoredJob list \<Rightarrow> u64 multiset" where
  "ids h = image_mset (\<lambda>s. request_id (sj_job s)) (mset h)"

text \<open>Heap order; the ids of the queued jobs are distinct and are the members of \<open>seen\<close>; the queue is bounded (a
  limit of 0 still admits one job); every queued job offers the minimal tip.\<close>

definition queue_inv :: "JobQueue \<Rightarrow> bool" where
  "queue_inv q \<longleftrightarrow>
     heap_inv rank (heap q) \<and> distinct (map request_id (iter_jobs q)) \<and> seen q = set (map request_id (iter_jobs q))
     \<and> length (heap q) \<le> max 1 (max_size q) \<and> (\<forall>job \<in> set (iter_jobs q). min_tip q \<le> tip job)"

lemma queue_inv_mset:
  "queue_inv q \<longleftrightarrow>
     heap_inv rank (heap q) \<and> (\<forall>x. count (ids (heap q)) x \<le> 1) \<and> seen q = set_mset (ids (heap q))
     \<and> size (mset (heap q)) \<le> max 1 (max_size q) \<and> (\<forall>s \<in># mset (heap q). min_tip q \<le> tip (sj_job s))"
proof -
  have m: "mset (map request_id (iter_jobs q)) = ids (heap q)" by (simp add: ids_def iter_jobs_def image_mset.compositionality comp_def)
  have "distinct (map request_id (iter_jobs q)) \<longleftrightarrow> (\<forall>x. count (ids (heap q)) x \<le> 1)"
    unfolding m [symmetric] distinct_count_atmost_1 by (auto simp: le_Suc_eq count_eq_zero_iff)
  moreover have "set (map request_id (iter_jobs q)) = set_mset (ids (heap q))" by (simp add: m [symmetric])
  ultimately show ?thesis by (auto simp: queue_inv_def iter_jobs_def)
qed

lemma queue_inv_new: "queue_inv (queue_new size_limit tip_limit)"
  by (simp add: queue_inv_def queue_new_def heap_inv_def iter_jobs_def)

lemma queue_inv_insert:
  assumes "queue_inv q" "request_id job \<notin> seen q" "min_tip q \<le> tip job" "length (heap q) < max 1 (max_size q)"
  shows "queue_inv (snd (push_insert now job q))"
proof -
  have inv: "heap_inv rank (heap q)" using assms(1) by (simp add: queue_inv_mset)
  note h = bh.push_elems [OF inv] bh.push_invar [OF inv]
  have "count (ids (heap q)) (request_id job) = 0" using assms(1,2) by (simp add: queue_inv_mset count_eq_zero_iff)
  then show ?thesis
    using assms h by (auto simp: queue_inv_mset push_insert_def ids_def scored_def)
qed

lemma queue_inv_remove:
  assumes "queue_inv q" "heap_pop rank (heap q) = Some (s, h)"
  shows "queue_inv (q\<lparr> heap := h, seen := seen q - {request_id (sj_job s)} \<rparr>)" "Suc (length h) = length (heap q)"
proof -
  have inv: "heap_inv rank (heap q)" using assms(1) by (simp add: queue_inv_mset)
  have e: "mset (heap q) = add_mset s (mset h)" by (rule bh.pop_elems [OF inv assms(2)])
  show "Suc (length h) = length (heap q)" using arg_cong [OF e, of size] by simp
  have le: "count (ids (heap q)) x \<le> 1" for x using assms(1) by (simp add: queue_inv_mset)
  have "count (ids h) (request_id (sj_job s)) = 0" using le [of "request_id (sj_job s)"] e by (simp add: ids_def)
  moreover have "count (ids h) x \<le> 1" for x using le [of x] e by (simp add: ids_def split: if_splits)
  ultimately show "queue_inv (q\<lparr> heap := h, seen := seen q - {request_id (sj_job s)} \<rparr>)"
    using assms(1) e bh.pop_invar [OF inv assms(2)] by (auto simp: queue_inv_mset ids_def count_eq_zero_iff)
qed

lemma queue_inv_push:
  assumes "queue_inv q"
  shows "queue_inv (snd (queue_push now now1 now2 job q))"
proof (cases "request_id job \<in> seen q \<or> tip job < min_tip q \<or> expires_at job \<le> now")
  case True
  then show ?thesis using assms by (auto simp: queue_push_def)
next
  case False
  then have new: "request_id job \<notin> seen q" "min_tip q \<le> tip job" by auto
  have inv: "heap_inv rank (heap q)" using assms by (simp add: queue_inv_def)
  consider "length (heap q) < max_size q" | "max_size q \<le> length (heap q)" "heap q = []"
    | s h where "max_size q \<le> length (heap q)" "heap_pop rank (heap q) = Some (s, h)" "heap_peek (heap q) = Some s"
    using bh.pop_some [OF inv] bh.peek_pop [OF inv] by fastforce
  then show ?thesis
  proof cases
    case 1
    then show ?thesis using False queue_inv_insert [OF assms new] by (auto simp: queue_push_def)
  next
    case 2
    then show ?thesis using False queue_inv_insert [OF assms new] by (auto simp: queue_push_def heap_peek_def)
  next
    case 3
    let ?q = "q\<lparr> heap := h, seen := seen q - {request_id (sj_job s)} \<rparr>"
    have q: "queue_inv ?q" "Suc (length h) = length (heap q)" by (rule queue_inv_remove [OF assms 3(2)])+
    then have "queue_inv (snd (push_insert now2 job ?q))"
      using new assms by (intro queue_inv_insert) (auto simp: queue_inv_def)
    then show ?thesis using False 3 assms by (auto simp: queue_push_def)
  qed
qed

section \<open>Taking the next job\<close>

text \<open>What a call of \<open>pop\<close> does to the queue: it drops expired jobs of higher rank, and returns a job that has
  not expired and that no remaining job outranks.\<close>

definition pop_effect :: "(nat \<Rightarrow> u64) \<Rightarrow> nat \<Rightarrow> ScoredJob multiset \<Rightarrow> QueuedJob option \<Rightarrow> ScoredJob multiset \<Rightarrow> bool" where
  "pop_effect clock i before r after \<longleftrightarrow>
     (\<exists>skipped. (\<forall>s \<in># skipped. \<exists>k \<ge> i. expires_at (sj_job s) \<le> clock k) \<and>
        (case r of
           None \<Rightarrow> before = skipped \<and> after = {#}
         | Some job \<Rightarrow> (\<exists>s. sj_job s = job \<and> before = skipped + add_mset s after
             \<and> (\<exists>k \<ge> i. clock k < expires_at job)
             \<and> (\<forall>u \<in># after. rank u \<le> rank s) \<and> (\<forall>u \<in># skipped. rank s \<le> rank u))))"

lemma pop_effect_skip:
  assumes "pop_effect clock (i + 1) m r after" "expires_at (sj_job s) \<le> clock i" "\<forall>u \<in># m. rank u \<le> rank s"
  shows "pop_effect clock i (add_mset s m) r after"
proof -
  from assms(1) obtain skipped where sk: "\<forall>s \<in># skipped. \<exists>k \<ge> i + 1. expires_at (sj_job s) \<le> clock k"
    and r: "case r of None \<Rightarrow> m = skipped \<and> after = {#}
         | Some job \<Rightarrow> (\<exists>s. sj_job s = job \<and> m = skipped + add_mset s after \<and> (\<exists>k \<ge> i + 1. clock k < expires_at job)
             \<and> (\<forall>u \<in># after. rank u \<le> rank s) \<and> (\<forall>u \<in># skipped. rank s \<le> rank u))"
    unfolding pop_effect_def by blast
  have le: "\<exists>k \<ge> i. P k" if "\<exists>k \<ge> i + 1. P k" for P using that by (meson add_leD1)
  have "\<forall>s \<in># add_mset s skipped. \<exists>k \<ge> i. expires_at (sj_job s) \<le> clock k" using sk assms(2) le by auto
  moreover have "case r of None \<Rightarrow> add_mset s m = add_mset s skipped \<and> after = {#}
         | Some job \<Rightarrow> (\<exists>s'. sj_job s' = job \<and> add_mset s m = add_mset s skipped + add_mset s' after \<and> (\<exists>k \<ge> i. clock k < expires_at job)
             \<and> (\<forall>u \<in># after. rank u \<le> rank s') \<and> (\<forall>u \<in># add_mset s skipped. rank s' \<le> rank u))"
    proof (cases r)
    case (Some job)
    with r obtain s' where "sj_job s' = job" "m = skipped + add_mset s' after" "\<exists>k \<ge> i + 1. clock k < expires_at job"
      "\<forall>u \<in># after. rank u \<le> rank s'" "\<forall>u \<in># skipped. rank s' \<le> rank u" by auto
    then show ?thesis using Some assms(3) le [of "\<lambda>k. clock k < expires_at job"] by (auto intro!: exI [of _ s'])
  qed (use r in simp)
  ultimately show ?thesis unfolding pop_effect_def by blast
qed

lemma pop_from_effect:
  assumes "queue_inv q" "pop_from clock i q = (r, q')"
  shows "queue_inv q' \<and> pop_effect clock i (mset (heap q)) r (mset (heap q')) \<and> max_size q' = max_size q \<and> min_tip q' = min_tip q"
  using assms
proof (induction clock i q rule: pop_from.induct)
  case (1 clock i q)
  have inv: "heap_inv rank (heap q)" using 1(2) by (simp add: queue_inv_def)
  show ?case
  proof (cases "heap_pop rank (heap q)")
    case None
    then show ?thesis using 1(2,3) bh.pop_none [OF inv] by (subst (asm) pop_from.simps) (auto simp: pop_effect_def)
  next
    case (Some p)
    obtain s h where p: "p = (s, h)" by (cases p)
    let ?q = "q\<lparr> heap := h, seen := seen q - {request_id (sj_job s)} \<rparr>"
    note pop = Some [unfolded p]
    have q: "queue_inv ?q" by (rule queue_inv_remove [OF 1(2) pop])
    have e: "mset (heap q) = add_mset s (mset h)" by (rule bh.pop_elems [OF inv pop])
    have top: "\<forall>u \<in># mset h. rank u \<le> rank s" using bh.pop_rest [OF inv pop] by blast
    show ?thesis
    proof (cases "clock i < expires_at (sj_job s)")
      case True
      then have "r = Some (sj_job s)" "q' = ?q" using 1(3) pop by (subst (asm) pop_from.simps, simp add: Let_def)+
      then show ?thesis using q e top True by (auto simp: pop_effect_def intro!: exI [of _ "{#}"] exI [of _ s])
    next
      case False
      then have "pop_from clock (i + 1) ?q = (r, q')" using 1(3) pop by (subst (asm) pop_from.simps) (simp add: Let_def)
      then have IH: "queue_inv q' \<and> pop_effect clock (i + 1) (mset h) r (mset (heap q')) \<and> max_size q' = max_size q \<and> min_tip q' = min_tip q"
        using 1(1) [OF pop refl refl False q] by simp
      then show ?thesis using pop_effect_skip [of clock i "mset h" r _ s] False top e by (simp add: not_less)
    qed
  qed
qed

text \<open>What a push leaves behind: the bound on the length, and the job with its score when it is accepted.\<close>

lemma queue_push_limit: "max_size (snd (queue_push now now1 now2 job q)) = max_size q"
  by (auto simp: queue_push_def push_insert_def split: option.split)

lemma queue_push_bounded:
  assumes "queue_inv q"
  shows "length (heap (snd (queue_push now now1 now2 job q))) \<le> max 1 (max_size q)"
  using queue_inv_push [OF assms, of now now1 now2 job] queue_push_limit [of now now1 now2 job q] unfolding queue_inv_def by simp

lemma heap_push_member: "heap_inv rank h \<Longrightarrow> s \<in> set (heap_push rank s h)"
  using bh.push_elems [of rank h s] mset_eq_setD [of "heap_push rank s h" "s # h"] by simp

lemma queue_push_effect:
  assumes "queue_inv q"
  shows "if fst (queue_push now now1 now2 job q) then scored now2 job \<in> set (heap (snd (queue_push now now1 now2 job q)))
    else snd (queue_push now now1 now2 job q) = q"
proof -
  have inv: "heap_inv rank (heap q)" using assms by (simp add: queue_inv_def)
  then show ?thesis
    using bh.pop_invar [OF inv] heap_push_member by (auto simp: queue_push_def push_insert_def split: option.split)
qed

section \<open>A full queue\<close>

text \<open>A job that passes the three checks, offered to a full queue.\<close>

lemma push_full:
  assumes "queue_inv q" "heap q \<noteq> []" "max_size q \<le> length (heap q)"
    and "request_id job \<notin> seen q" "min_tip q \<le> tip job" "now < expires_at job"
  shows "\<exists>best h. heap_pop rank (heap q) = Some (best, h) \<and> best \<in> set (heap q) \<and> (\<forall>s \<in> set (heap q). rank s \<le> rank best)
    \<and> queue_push now now1 now2 job q =
        (if total (job_score now1 job) \<le> rank best then (False, q)
         else push_insert now2 job (q\<lparr> heap := h, seen := seen q - {request_id (sj_job best)} \<rparr>))"
proof -
  have inv: "heap_inv rank (heap q)" using assms(1) by (simp add: queue_inv_def)
  obtain best h where pop: "heap_pop rank (heap q) = Some (best, h)" using bh.pop_some [OF inv] assms(2) by auto
  have "best \<in> set (heap q)" using bh.pop_member [OF inv pop] by simp
  moreover have "\<forall>s \<in> set (heap q). rank s \<le> rank best" using bh.pop_greatest [OF inv pop] by simp
  moreover have "heap_peek (heap q) = Some best" using bh.peek_pop [OF inv] pop by simp
  ultimately show ?thesis using assms pop by (auto simp: queue_push_def)
qed

section \<open>A concrete queue\<close>

definition ex_job :: "u64 \<Rightarrow> 256 word \<Rightarrow> QueuedJob" where
  "ex_job n t = \<lparr> request_id = n, image_id = [], input_hash = [], input_url = [], input_type = 0, tip = t, requester = [],
     expires_at = 1000, queued_at = 0, estimated_cycles = None, program_cached = False, prefetched_input = None \<rparr>"

definition ex_queue :: JobQueue where
  "ex_queue = snd (queue_push 0 0 0 (ex_job 2 3000000000000000) (snd (queue_push 0 0 0 (ex_job 1 1000000000000000) (queue_new 2 0))))"

lemma ex_rank:
  "total (job_score 0 (ex_job n 1000000000000000)) = 1" "total (job_score 0 (ex_job n 2000000000000000)) = 2"
  "total (job_score 0 (ex_job n 3000000000000000)) = 3" "rank (scored 0 job) = total (job_score 0 job)"
  by (simp_all add: total_def job_score_def ex_job_def rank_def scored_def Let_def)

lemma ex_queue_heap:
  "heap ex_queue = [scored 0 (ex_job 2 3000000000000000), scored 0 (ex_job 1 1000000000000000)]"
  "seen ex_queue = {1, 2}" "max_size ex_queue = 2" "min_tip ex_queue = 0"
proof -
  have q1: "snd (queue_push 0 0 0 (ex_job 1 1000000000000000) (queue_new 2 0)) =
      \<lparr> heap = [scored 0 (ex_job 1 1000000000000000)], seen = {1}, max_size = 2, min_tip = 0 \<rparr>"
    by (simp add: queue_push_def queue_new_def push_insert_def ex_job_def heap_push_def sift_up.simps)
  show "heap ex_queue = [scored 0 (ex_job 2 3000000000000000), scored 0 (ex_job 1 1000000000000000)]"
    unfolding ex_queue_def q1
    by (simp add: queue_push_def push_insert_def heap_push_def sift_up.simps parent_def swap_def ex_rank) (simp add: ex_job_def)
  show "seen ex_queue = {1, 2}" "max_size ex_queue = 2" "min_tip ex_queue = 0"
    unfolding ex_queue_def q1 by (auto simp: queue_push_def push_insert_def ex_job_def)
qed

lemma ex_queue_pop:
  "fst (queue_pop (\<lambda>_. 0) ex_queue) = Some (ex_job 2 3000000000000000)"
  "map request_id (iter_jobs (snd (queue_pop (\<lambda>_. 0) ex_queue))) = [1]"
  by (simp_all add: queue_pop_def pop_from.simps heap_pop_def ex_queue_heap sift_down_to_bottom.simps sift_up.simps scored_def
      ex_job_def iter_jobs_def Let_def)

end
