(* ===== verification/Net_Addr.thy ===== *)
theory Net_Addr
  imports Prelude_ZK
begin

text \<open>
  What the services use of the standard library's text and address functions: trimming and lower-casing of ASCII
  strings, splitting, and the parser of IP addresses (\<open>std::net\<close>). Strings are ASCII.
\<close>

section \<open>Text\<close>

definition is_space :: "char \<Rightarrow> bool" where
  "is_space c \<longleftrightarrow> c = CHR '' '' \<or> (of_char c :: nat) \<in> {9..13}"

definition trim :: "string \<Rightarrow> string" where
  "trim s = rev (dropWhile is_space (rev (dropWhile is_space s)))"

definition is_control :: "char \<Rightarrow> bool" where
  "is_control c \<longleftrightarrow> (of_char c :: nat) < 32 \<or> of_char c = (127 :: nat)"

definition lower_char :: "char \<Rightarrow> char" where
  "lower_char c = (let n = of_char c :: nat in if 65 \<le> n \<and> n \<le> 90 then char_of (n + 32) else c)"

definition to_lowercase :: "string \<Rightarrow> string" where
  "to_lowercase s = map lower_char s"

definition ends_with :: "string \<Rightarrow> string \<Rightarrow> bool" where
  "ends_with s suffix \<longleftrightarrow> length suffix \<le> length s \<and> drop (length s - length suffix) s = suffix"

text \<open>\<open>s.split(c).next()\<close>: the text before the first separator.\<close>

definition first_part :: "char \<Rightarrow> string \<Rightarrow> string" where
  "first_part c s = takeWhile (\<lambda>x. x \<noteq> c) s"

text \<open>\<open>s.split_once(sep)\<close> and \<open>s.rsplit_once(c)\<close>.\<close>

fun split_once :: "string \<Rightarrow> string \<Rightarrow> (string \<times> string) option" where
  "split_once sep [] = (if sep = [] then Some ([], []) else None)"
| "split_once sep (c # cs) =
     (if take (length sep) (c # cs) = sep then Some ([], drop (length sep) (c # cs))
      else map_option (\<lambda>(a, b). (c # a, b)) (split_once sep cs))"

definition rsplit_once :: "char \<Rightarrow> string \<Rightarrow> (string \<times> string) option" where
  "rsplit_once c s =
     (if c \<in> set s
      then let after = rev (takeWhile (\<lambda>x. x \<noteq> c) (rev s)) in Some (take (length s - length after - 1) s, after)
      else None)"

section \<open>Addresses\<close>

datatype IpAddr = V4 u8 u8 u8 u8 | V6 "16 word list"

text \<open>\<open>char::to_digit\<close>.\<close>

definition to_digit :: "nat \<Rightarrow> char \<Rightarrow> nat option" where
  "to_digit radix c =
     (let n = of_char c :: nat;
          d = (if 48 \<le> n \<and> n \<le> 57 then n - 48 else if 97 \<le> n \<and> n \<le> 122 then n - 87 else if 65 \<le> n \<and> n \<le> 90 then n - 55 else 36)
      in if d < radix then Some d else None)"

text \<open>A parser step gives its value and the rest of the input, or fails without consuming input.\<close>

type_synonym 'a parser = "string \<Rightarrow> ('a \<times> string) option"

definition read_given_char :: "char \<Rightarrow> unit parser" where
  "read_given_char c s = (case s of x # xs \<Rightarrow> if x = c then Some ((), xs) else None | [] \<Rightarrow> None)"

definition read_number :: "nat \<Rightarrow> nat \<Rightarrow> bool \<Rightarrow> nat \<Rightarrow> nat parser" where
  "read_number radix max_digits allow_zero_prefix bound s =
     (let ds = takeWhile (\<lambda>c. to_digit radix c \<noteq> None) s;
          v = foldl (\<lambda>v c. v * radix + the (to_digit radix c)) 0 ds
      in if max_digits < length ds \<or> ds = [] then None
         else if \<not> allow_zero_prefix \<and> hd ds = CHR ''0'' \<and> 1 < length ds then None
         else if v < bound then Some (v, drop (length ds) s) else None)"

definition read_separator :: "char \<Rightarrow> nat \<Rightarrow> 'a parser \<Rightarrow> 'a parser" where
  "read_separator sep i inner s =
     (if 0 < i then (case read_given_char sep s of None \<Rightarrow> None | Some (_, s) \<Rightarrow> inner s) else inner s)"

fun read_octets :: "nat \<Rightarrow> nat \<Rightarrow> u8 list parser" where
  "read_octets i 0 s = Some ([], s)"
| "read_octets i (Suc n) s =
     (case read_separator CHR ''.'' i (read_number 10 3 False 256) s of
        None \<Rightarrow> None
      | Some (v, s) \<Rightarrow> (case read_octets (i + 1) n s of None \<Rightarrow> None | Some (vs, s) \<Rightarrow> Some (of_nat v # vs, s)))"

definition read_ipv4_addr :: "u8 list parser" where
  "read_ipv4_addr s = read_octets 0 4 s"

text \<open>\<open>read_groups\<close>: hexadecimal groups, the last two of which may be written as an IPv4 address. The result is the
  groups that were read and whether an IPv4 address ended them.\<close>

fun read_groups :: "nat \<Rightarrow> nat \<Rightarrow> string \<Rightarrow> 16 word list \<times> bool \<times> string" where
  "read_groups limit 0 s = ([], False, s)"
| "read_groups limit (Suc n) s =
     (let i = limit - Suc n
      in case (if 0 < n then read_separator CHR '':'' i read_ipv4_addr s else None) of
           Some (vs, s) \<Rightarrow> ([ucast (vs ! 0) * 256 + ucast (vs ! 1), ucast (vs ! 2) * 256 + ucast (vs ! 3)], True, s)
         | None \<Rightarrow>
             (case read_separator CHR '':'' i (read_number 16 4 True 65536) s of
                Some (g, s) \<Rightarrow> (case read_groups limit n s of (gs, v4, s) \<Rightarrow> (of_nat g # gs, v4, s))
              | None \<Rightarrow> ([], False, s)))"

definition read_ipv6_addr :: "16 word list parser" where
  "read_ipv6_addr s =
     (case read_groups 8 8 s of
        (head, head_ipv4, s) \<Rightarrow>
          if length head = 8 then Some (head, s)
          else if head_ipv4 then None
          else (case read_given_char CHR '':'' s of
                  None \<Rightarrow> None
                | Some (_, s) \<Rightarrow>
                    (case read_given_char CHR '':'' s of
                       None \<Rightarrow> None
                     | Some (_, s) \<Rightarrow>
                         (let limit = 8 - (length head + 1)
                          in case read_groups limit limit s of
                               (tail, _, s) \<Rightarrow> Some (head @ replicate (8 - length head - length tail) 0 @ tail, s)))))"

definition parse_ip :: "string \<Rightarrow> IpAddr option" where
  "parse_ip s =
     (case read_ipv4_addr s of
        Some (vs, rest) \<Rightarrow> if rest = [] then Some (V4 (vs ! 0) (vs ! 1) (vs ! 2) (vs ! 3)) else None
      | None \<Rightarrow>
          (case read_ipv6_addr s of
             Some (gs, rest) \<Rightarrow> if rest = [] then Some (V6 gs) else None
           | None \<Rightarrow> None))"

section \<open>Laws\<close>

lemma length_read_octets: "read_octets i n s = Some (vs, s') \<Longrightarrow> length vs = n"
  by (induction i n s arbitrary: vs s' rule: read_octets.induct) (auto split: option.splits prod.splits)

lemma length_read_groups: "read_groups limit n s = (gs, v4, s') \<Longrightarrow> length gs \<le> n"
proof (induction limit n s arbitrary: gs v4 s' rule: read_groups.induct)
  case (2 limit n s)
  then show ?case by (auto simp: Let_def split: option.splits prod.splits if_splits)
qed simp

text \<open>A parsed IPv6 address has eight segments.\<close>

lemma parse_ip_V6: "parse_ip s = Some (V6 gs) \<Longrightarrow> length gs = 8"
proof -
  assume "parse_ip s = Some (V6 gs)"
  then obtain rest where r: "read_ipv6_addr s = Some (gs, rest)"
    by (auto simp: parse_ip_def split: option.splits prod.splits if_splits)
  obtain head v4 s1 where h: "read_groups 8 8 s = (head, v4, s1)" by (metis prod_cases3)
  have "length head \<le> 8" using length_read_groups [OF h] .
  then show "length gs = 8"
    using r h length_read_groups [of "7 - length head" "7 - length head"]
    by (fastforce simp: read_ipv6_addr_def Let_def split: option.splits prod.splits if_splits)
qed

end
