(* ===== verification/Rate_Limit.thy ===== *)
theory Rate_Limit
  imports Net_Addr
begin

text \<open>
  The per-IP sliding-window rate limiter of the indexer (\<open>services/indexer/src/rate_limit.rs\<close>): the client address,
  the check, the periodic cleanup and the middleware call.

  Instants are integers and durations are natural numbers, both in nanoseconds. \<open>HashMap<IpAddr, Vec<Instant>>\<close> is
  a map to lists. The containment test of the \<open>ipnet\<close> crate is an argument. A response is its status and its
  numeric headers.
\<close>

record RateLimitInfo =
  info_limit :: "32 word"
  info_remaining :: "32 word"
  info_reset_secs :: nat

record RateLimitConfig =
  max_requests :: "32 word"
  window :: nat

definition RateLimitConfig_default :: RateLimitConfig where
  "RateLimitConfig_default = \<lparr> max_requests = 100, window = 60 * 10 ^ 9 \<rparr>"

type_synonym requests = "IpAddr \<rightharpoonup> int list"

section \<open>The client address\<close>

definition is_trusted :: "('net \<Rightarrow> IpAddr \<Rightarrow> bool) \<Rightarrow> 'net list \<Rightarrow> IpAddr \<Rightarrow> bool" where
  "is_trusted net_contains trusted_cidrs ip = list_ex (\<lambda>net. net_contains net ip) trusted_cidrs"

text \<open>The parts of a request that are read: the peer of the socket and two headers. A header is absent, or its
  text, or not readable as text.\<close>

record http_request =
  peer_ip :: "IpAddr option"
  x_forwarded_for :: "string option option"
  x_real_ip :: "string option option"

definition LOCALHOST :: IpAddr where
  "LOCALHOST = V4 127 0 0 1"

definition forwarded_ip :: "http_request \<Rightarrow> IpAddr option" where
  "forwarded_ip req =
     (case x_forwarded_for req of
        Some (Some v) \<Rightarrow> parse_ip (trim (first_part CHR '','' v))
      | _ \<Rightarrow> None)"

definition real_ip :: "http_request \<Rightarrow> IpAddr option" where
  "real_ip req = (case x_real_ip req of Some (Some v) \<Rightarrow> parse_ip (trim v) | _ \<Rightarrow> None)"

definition extract_client_ip ::
  "('net \<Rightarrow> IpAddr \<Rightarrow> bool) \<Rightarrow> 'net list \<Rightarrow> http_request \<Rightarrow> IpAddr" where
  "extract_client_ip net_contains trusted_cidrs req =
     (case peer_ip req of
        None \<Rightarrow> LOCALHOST
      | Some peer \<Rightarrow>
          if is_trusted net_contains trusted_cidrs peer then
            (case forwarded_ip req of
               Some ip \<Rightarrow> ip
             | None \<Rightarrow> (case real_ip req of Some ip \<Rightarrow> ip | None \<Rightarrow> peer))
          else peer)"

section \<open>The check\<close>

definition retain :: "int \<Rightarrow> int list \<Rightarrow> int list" where
  "retain cutoff ts = filter (\<lambda>t. cutoff < t) ts"

text \<open>\<open>(oldest + window).duration_since(now).as_secs() + 1\<close>; the difference saturates at 0.\<close>

definition reset_after :: "RateLimitConfig \<Rightarrow> int \<Rightarrow> int \<Rightarrow> nat" where
  "reset_after cfg now oldest = nat (oldest + int (window cfg) - now) div 10 ^ 9 + 1"

definition check_ip ::
  "RateLimitConfig \<Rightarrow> int \<Rightarrow> IpAddr \<Rightarrow> requests \<Rightarrow> (RateLimitInfo + RateLimitInfo) res \<times> requests" where
  "check_ip cfg now ip m =
     (let cutoff = now - int (window cfg);
          ts = retain cutoff (case m ip of Some ts \<Rightarrow> ts | None \<Rightarrow> []);
          limit = max_requests cfg
      in if unat limit \<le> length ts then
           (rbind (idx ts 0) (\<lambda>oldest.
              Inr (Inl \<lparr> info_limit = limit, info_remaining = 0, info_reset_secs = reset_after cfg now oldest \<rparr>)),
            m(ip \<mapsto> ts))
         else
           (let reset = (if ts = [] then window cfg div 10 ^ 9 else reset_after cfg now (ts ! 0));
                ts = ts @ [now];
                n = of_nat (length ts);
                remaining = (if n \<le> limit then limit - n else 0)
            in (Inr (Inr \<lparr> info_limit = limit, info_remaining = remaining, info_reset_secs = reset \<rparr>), m(ip \<mapsto> ts))))"

definition cleanup :: "RateLimitConfig \<Rightarrow> int \<Rightarrow> requests \<Rightarrow> requests" where
  "cleanup cfg now m =
     (\<lambda>ip. case m ip of
             None \<Rightarrow> None
           | Some ts \<Rightarrow> (let ts = retain (now - int (window cfg)) ts in if ts = [] then None else Some ts))"

section \<open>The middleware\<close>

record Response =
  status :: nat
  headers :: "string \<rightharpoonup> nat"

definition set_rate_limit_headers :: "RateLimitInfo \<Rightarrow> Response \<Rightarrow> Response" where
  "set_rate_limit_headers info resp =
     resp\<lparr> headers := (headers resp)(''x-ratelimit-limit'' \<mapsto> unat (info_limit info),
                                       ''x-ratelimit-remaining'' \<mapsto> unat (info_remaining info),
                                       ''x-ratelimit-reset'' \<mapsto> info_reset_secs info) \<rparr>"

definition rate_limit_response :: "RateLimitInfo \<Rightarrow> Response" where
  "rate_limit_response info =
     set_rate_limit_headers info \<lparr> status = 429, headers = [''retry-after'' \<mapsto> info_reset_secs info] \<rparr>"

definition service_call ::
  "('net \<Rightarrow> IpAddr \<Rightarrow> bool) \<Rightarrow> 'net list \<Rightarrow> RateLimitConfig \<Rightarrow> (http_request \<Rightarrow> 'e + Response) \<Rightarrow>
   int \<Rightarrow> http_request \<Rightarrow> requests \<Rightarrow> ('e + Response) res \<times> requests" where
  "service_call net_contains trusted_cidrs cfg inner now req m =
     (case check_ip cfg now (extract_client_ip net_contains trusted_cidrs req) m of
        (r, m) \<Rightarrow>
          (rbind r (\<lambda>r. case r of
              Inr info \<Rightarrow>
                (case inner req of Inl e \<Rightarrow> Inr (Inl e) | Inr resp \<Rightarrow> Inr (Inr (set_rate_limit_headers info resp)))
            | Inl info \<Rightarrow> Inr (Inr (rate_limit_response info))), m))"

text \<open>The headers of a request count only behind a trusted proxy.\<close>

lemma untrusted_headers_ignored:
  "peer_ip req = Some peer \<Longrightarrow> \<not> is_trusted net_contains trusted_cidrs peer \<Longrightarrow>
     extract_client_ip net_contains trusted_cidrs req = peer"
  by (simp add: extract_client_ip_def)

text \<open>A limit of 0 makes the check index an empty list.\<close>

lemma zero_limit_panics:
  "max_requests cfg = 0 \<Longrightarrow> m ip = None \<Longrightarrow> fst (check_ip cfg now ip m) = rpanic Index_Out_Of_Bounds"
  by (simp add: check_ip_def retain_def idx_def)

section \<open>Runs\<close>

text \<open>A sequence of checks and cleanups. The admissions are collected, latest first.\<close>

datatype limiter_event = Check IpAddr int | Cleanup int

fun event_time :: "limiter_event \<Rightarrow> int" where
  "event_time (Check ip now) = now"
| "event_time (Cleanup now) = now"

fun limiter_step :: "RateLimitConfig \<Rightarrow> limiter_event \<Rightarrow> requests \<times> (IpAddr \<times> int) list \<Rightarrow> requests \<times> (IpAddr \<times> int) list" where
  "limiter_step cfg (Check ip now) (m, admitted) =
     (case check_ip cfg now ip m of
        (Inr (Inr _), m) \<Rightarrow> (m, (ip, now) # admitted)
      | (_, m) \<Rightarrow> (m, admitted))"
| "limiter_step cfg (Cleanup now) (m, admitted) = (cleanup cfg now m, admitted)"

definition limiter_run :: "RateLimitConfig \<Rightarrow> limiter_event list \<Rightarrow> requests \<times> (IpAddr \<times> int) list" where
  "limiter_run cfg evs = fold (limiter_step cfg) evs (Map.empty, [])"

definition admissions :: "IpAddr \<Rightarrow> (IpAddr \<times> int) list \<Rightarrow> int list" where
  "admissions ip admitted = map snd (filter (\<lambda>p. fst p = ip) admitted)"

definition recorded :: "requests \<Rightarrow> IpAddr \<Rightarrow> int list" where
  "recorded m ip = (case m ip of Some ts \<Rightarrow> ts | None \<Rightarrow> [])"

text \<open>The number of entries in the half-open window that ends at \<open>t\<close>.\<close>

definition in_window :: "RateLimitConfig \<Rightarrow> int \<Rightarrow> int list \<Rightarrow> nat" where
  "in_window cfg t ts = length (filter (\<lambda>a. t - int (window cfg) < a \<and> a \<le> t) ts)"

section \<open>The window bound\<close>

lemma retain_retain: "c \<le> c' \<Longrightarrow> retain c' (retain c ts) = retain c' ts"
  by (induction ts) (auto simp: retain_def)

lemma recorded_check:
  "recorded (snd (check_ip cfg now ip m)) ip' =
     (if ip' = ip
      then retain (now - int (window cfg)) (recorded m ip)
           @ (if unat (max_requests cfg) \<le> length (retain (now - int (window cfg)) (recorded m ip)) then [] else [now])
      else recorded m ip')"
  by (simp add: check_ip_def recorded_def Let_def)

lemma recorded_cleanup: "recorded (cleanup cfg now m) ip = retain (now - int (window cfg)) (recorded m ip)"
  by (simp add: cleanup_def recorded_def Let_def retain_def split: option.splits)

lemma check_admits:
  "(\<exists>info. fst (check_ip cfg now ip m) = Inr (Inr info)) \<longleftrightarrow>
     length (retain (now - int (window cfg)) (recorded m ip)) < unat (max_requests cfg)"
  by (auto simp: check_ip_def recorded_def Let_def rbind_def idx_def rpanic_def split: option.splits sum.splits)

lemma limiter_step_check:
  "limiter_step cfg (Check ip now) (m, admitted) =
     (snd (check_ip cfg now ip m),
      if length (retain (now - int (window cfg)) (recorded m ip)) < unat (max_requests cfg) then (ip, now) # admitted else admitted)"
  using check_admits [of cfg now ip m] by (auto split: sum.splits prod.splits)

text \<open>The recorded times agree with the admissions as far as the window reaches.\<close>

definition limiter_inv :: "RateLimitConfig \<Rightarrow> int \<Rightarrow> requests \<times> (IpAddr \<times> int) list \<Rightarrow> bool" where
  "limiter_inv cfg now s \<longleftrightarrow>
     (\<forall>ip. retain (now - int (window cfg)) (rev (admissions ip (snd s))) = retain (now - int (window cfg)) (recorded (fst s) ip))
     \<and> (\<forall>p \<in> set (snd s). snd p \<le> now)
     \<and> (\<forall>ip t. in_window cfg t (admissions ip (snd s)) \<le> unat (max_requests cfg))"

lemma limiter_inv_start: "limiter_inv cfg now (Map.empty, [])"
  by (simp add: limiter_inv_def admissions_def recorded_def retain_def in_window_def)

lemma limiter_inv_later:
  assumes "limiter_inv cfg now s" "now \<le> now'"
  shows "limiter_inv cfg now' s"
proof -
  let ?c = "now - int (window cfg)" and ?c' = "now' - int (window cfg)"
  have "retain ?c' (rev (admissions ip (snd s))) = retain ?c' (recorded (fst s) ip)" for ip
    using assms retain_retain [of ?c ?c' "rev (admissions ip (snd s))"] retain_retain [of ?c ?c' "recorded (fst s) ip"]
    by (simp add: limiter_inv_def)
  then show ?thesis using assms by (fastforce simp: limiter_inv_def)
qed

lemma in_window_le: "now \<le> t \<Longrightarrow> in_window cfg t ts \<le> length (retain (now - int (window cfg)) ts)"
  by (induction ts) (auto simp: in_window_def retain_def)

lemma length_retain_rev: "length (retain c (rev ts)) = length (retain c ts)"
  by (simp add: retain_def rev_filter [symmetric])

lemma in_window_admit:
  assumes "length (retain (now - int (window cfg)) ts) < n" "in_window cfg t ts \<le> n"
  shows "in_window cfg t (now # ts) \<le> n"
proof (cases "now \<le> t")
  case True
  then have "in_window cfg t (now # ts) \<le> Suc (in_window cfg t ts)" by (simp add: in_window_def)
  then show ?thesis using in_window_le [OF True, of cfg ts] assms(1) by simp
next
  case False
  then show ?thesis using assms(2) by (simp add: in_window_def)
qed

lemma limiter_inv_check:
  assumes "limiter_inv cfg now (m, admitted)"
  shows "limiter_inv cfg now (limiter_step cfg (Check ip now) (m, admitted))"
proof -
  let ?c = "now - int (window cfg)"
  have agree: "retain ?c (rev (admissions ip' admitted)) = retain ?c (recorded m ip')" for ip'
    using assms by (simp add: limiter_inv_def)
  have len: "length (retain ?c (admissions ip' admitted)) = length (retain ?c (recorded m ip'))" for ip'
    using arg_cong [OF agree [of ip'], of length] by (simp add: length_retain_rev)
  have win: "in_window cfg t (admissions ip' admitted) \<le> unat (max_requests cfg)" for t ip'
    using assms by (simp add: limiter_inv_def)
  have app: "retain ?c (xs @ ys) = retain ?c xs @ retain ?c ys" for xs ys by (simp add: retain_def)
  have adm: "admissions ip' ((ip, now) # admitted) = (if ip' = ip then now # admissions ip admitted else admissions ip' admitted)" for ip'
    by (simp add: admissions_def)
  show ?thesis
  proof (cases "length (retain ?c (recorded m ip)) < unat (max_requests cfg)")
    case True
    have "in_window cfg t (admissions ip' ((ip, now) # admitted)) \<le> unat (max_requests cfg)" for t ip'
      using in_window_admit [of now cfg "admissions ip admitted" _ t] True win len by (simp add: adm)
    moreover have "retain ?c (rev (admissions ip' ((ip, now) # admitted))) = retain ?c (recorded (snd (check_ip cfg now ip m)) ip')" for ip'
      using True agree by (simp add: adm recorded_check app retain_retain)
    ultimately show ?thesis
      using assms True by (simp add: limiter_step_check limiter_inv_def del: limiter_step.simps)
  next
    case False
    then have "retain ?c (rev (admissions ip' admitted)) = retain ?c (recorded (snd (check_ip cfg now ip m)) ip')" for ip'
      using agree by (simp add: recorded_check retain_retain)
    then show ?thesis
      using assms False by (simp add: limiter_step_check limiter_inv_def del: limiter_step.simps)
  qed
qed

lemma limiter_inv_step: "limiter_inv cfg (event_time e) s \<Longrightarrow> limiter_inv cfg (event_time e) (limiter_step cfg e s)"
proof (cases e)
  case (Check ip now)
  then show "limiter_inv cfg (event_time e) s \<Longrightarrow> ?thesis" using limiter_inv_check [of cfg now "fst s" "snd s"] by simp
next
  case (Cleanup now)
  then show "limiter_inv cfg (event_time e) s \<Longrightarrow> ?thesis"
    by (cases s) (simp add: limiter_inv_def recorded_cleanup retain_retain)
qed

lemma limiter_run_inv:
  assumes "sorted (map event_time evs)" "\<forall>e \<in> set evs. event_time e \<le> now"
  shows "limiter_inv cfg now (limiter_run cfg evs)"
  using assms
proof (induction evs arbitrary: now rule: rev_induct)
  case Nil
  then show ?case by (simp add: limiter_run_def limiter_inv_start)
next
  case (snoc e evs)
  have "sorted (map event_time evs)" "\<forall>e' \<in> set evs. event_time e' \<le> event_time e"
    using snoc.prems(1) by (simp_all add: sorted_append)
  then have "limiter_inv cfg (event_time e) (limiter_run cfg evs)" by (rule snoc.IH)
  then have "limiter_inv cfg (event_time e) (limiter_step cfg e (limiter_run cfg evs))" by (rule limiter_inv_step)
  moreover have "limiter_run cfg (evs @ [e]) = limiter_step cfg e (limiter_run cfg evs)" by (simp only: limiter_run_def fold_append fold_simps o_apply)
  ultimately have "limiter_inv cfg (event_time e) (limiter_run cfg (evs @ [e]))" by (simp only:)
  then show ?case by (rule limiter_inv_later) (use snoc.prems(2) in simp)
qed

lemma window_bound:
  assumes "sorted (map event_time evs)"
  shows "in_window cfg t (admissions ip (snd (limiter_run cfg evs))) \<le> unat (max_requests cfg)"
proof -
  obtain now where "\<forall>e \<in> set evs. event_time e \<le> now"
    using finite_has_maximal [of "set (map event_time evs)"] by (metis (mono_tags, opaque_lifting) Max_ge finite_set image_eqI set_map)
  from limiter_run_inv [OF assms this, of cfg] show ?thesis by (simp add: limiter_inv_def)
qed

text \<open>A request is admitted exactly when the window that ends now has room.\<close>

lemma check_exact:
  assumes "sorted (map event_time evs)" "\<forall>e \<in> set evs. event_time e \<le> now" "limiter_run cfg evs = (m, admitted)"
  shows "(\<exists>info. fst (check_ip cfg now ip m) = Inr (Inr info)) \<longleftrightarrow>
    in_window cfg now (admissions ip admitted) < unat (max_requests cfg)"
proof -
  have inv: "limiter_inv cfg now (m, admitted)" using limiter_run_inv [OF assms(1,2), of cfg] assms(3) by simp
  have "length (retain (now - int (window cfg)) (recorded m ip)) = length (retain (now - int (window cfg)) (admissions ip admitted))"
    using inv length_retain_rev by (metis limiter_inv_def fst_conv snd_conv)
  moreover have "\<forall>a \<in> set (admissions ip admitted). a \<le> now" using inv by (auto simp: limiter_inv_def admissions_def)
  then have "retain (now - int (window cfg)) (admissions ip admitted) =
      filter (\<lambda>a. now - int (window cfg) < a \<and> a \<le> now) (admissions ip admitted)"
    by (auto simp: retain_def intro: filter_cong)
  ultimately show ?thesis by (simp add: check_admits in_window_def)
qed

end
