(* ===== verification/Ssrf.thy ===== *)
theory Ssrf
  imports Net_Addr
begin

text \<open>
  The URL filter of the operator (\<open>services/operator/src/ssrf.rs\<close>), which is to keep outbound requests away from
  private networks. URLs are ASCII strings. An error keeps the address that the source formats into its message.
\<close>

definition ALLOWED_SCHEMES :: "string list" where
  "ALLOWED_SCHEMES = [''http'', ''https'']"

definition BLOCKED_HOSTNAMES :: "string list" where
  "BLOCKED_HOSTNAMES = [''localhost'', ''localhost.localdomain'']"

definition BLOCKED_HOSTNAME_SUFFIXES :: "string list" where
  "BLOCKED_HOSTNAME_SUFFIXES =
     [''.local'', ''.internal'', ''.lan'', ''.localhost'', ''.intranet'', ''.corp'', ''.home'', ''.private'']"

definition MAX_URL_LENGTH :: nat where
  "MAX_URL_LENGTH = 2048"

datatype SsrfError =
    EmptyUrl
  | TooLong nat nat
  | DisallowedScheme string
  | MissingHost
  | PrivateIp IpAddr
  | PrivateHostname string
  | ParseError string
  | ControlCharacters

definition is_private_ipv4 :: "u8 \<Rightarrow> u8 \<Rightarrow> u8 \<Rightarrow> u8 \<Rightarrow> bool" where
  "is_private_ipv4 a b c d =
     (if a = 0 \<and> b = 0 \<and> c = 0 \<and> d = 0 then True
      else if a = 127 then True
      else if a = 10 then True
      else if a = 172 \<and> 16 \<le> b \<and> b \<le> 31 then True
      else if a = 192 \<and> b = 168 then True
      else if a = 169 \<and> b = 254 then True
      else if a = 100 \<and> 64 \<le> b \<and> b \<le> 127 then True
      else if a = 192 \<and> b = 0 \<and> c = 0 then True
      else if a = 192 \<and> b = 0 \<and> c = 2 then True
      else if a = 198 \<and> b = 51 \<and> c = 100 then True
      else if a = 203 \<and> b = 0 \<and> c = 113 then True
      else if a = 198 \<and> 18 \<le> b \<and> b \<le> 19 then True
      else if 240 \<le> a then True
      else if a = 255 \<and> b = 255 \<and> c = 255 \<and> d = 255 then True
      else False)"

text \<open>\<open>Ipv6Addr::to_ipv4_mapped\<close>: the address in \<open>::ffff:0:0/96\<close>.\<close>

definition to_ipv4_mapped :: "16 word list \<Rightarrow> (u8 \<times> u8 \<times> u8 \<times> u8) option" where
  "to_ipv4_mapped s =
     (if take 5 s = [0, 0, 0, 0, 0] \<and> s ! 5 = 0xFFFF
      then Some (ucast (drop_bit 8 (s ! 6)), ucast (s ! 6), ucast (drop_bit 8 (s ! 7)), ucast (s ! 7))
      else None)"

definition is_private_ipv6 :: "16 word list \<Rightarrow> bool" where
  "is_private_ipv6 s =
     (if s = [0, 0, 0, 0, 0, 0, 0, 0] then True
      else if s = [0, 0, 0, 0, 0, 0, 0, 1] then True
      else if s ! 0 AND 0xFFC0 = 0xFE80 then True
      else if s ! 0 AND 0xFE00 = 0xFC00 then True
      else (case to_ipv4_mapped s of Some (a, b, c, d) \<Rightarrow> is_private_ipv4 a b c d | None \<Rightarrow> False))"

fun is_private_ip :: "IpAddr \<Rightarrow> bool" where
  "is_private_ip (V4 a b c d) = is_private_ipv4 a b c d"
| "is_private_ip (V6 s) = is_private_ipv6 s"

definition is_private_hostname :: "string \<Rightarrow> bool" where
  "is_private_hostname host =
     (let lower = to_lowercase host
      in if list_ex (\<lambda>blocked. lower = blocked) BLOCKED_HOSTNAMES then True
         else list_ex (\<lambda>suffix. ends_with lower suffix) BLOCKED_HOSTNAME_SUFFIXES)"

text \<open>Steps 6 and 7 of \<open>validate_url_ssrf\<close>: the host of the part after \<open>://\<close>.\<close>

definition host_port_of :: "string \<Rightarrow> string" where
  "host_port_of rest =
     (let authority = first_part CHR ''/'' rest;
          authority = first_part CHR ''?'' authority;
          authority = first_part CHR ''#'' authority
      in case rsplit_once CHR ''@'' authority of Some (_, hp) \<Rightarrow> hp | None \<Rightarrow> authority)"

definition host_of :: "string \<Rightarrow> SsrfError + string" where
  "host_of host_port =
     (if take 1 host_port = ''['' then
        if CHR '']'' \<in> set host_port then Inr (drop 1 (first_part CHR '']'' host_port))
        else Inl (ParseError ''unclosed IPv6 bracket'')
      else Inr (case rsplit_once CHR '':'' host_port of Some (h, _) \<Rightarrow> h | None \<Rightarrow> host_port))"

definition check_host :: "string \<Rightarrow> SsrfError + unit" where
  "check_host host =
     (case parse_ip host of
        Some ip \<Rightarrow> if is_private_ip ip then Inl (PrivateIp ip) else Inr ()
      | None \<Rightarrow> if is_private_hostname host then Inl (PrivateHostname host) else Inr ())"

definition validate_url_ssrf :: "string \<Rightarrow> SsrfError + unit" where
  "validate_url_ssrf url =
     (let url = trim url
      in if url = [] then Inl EmptyUrl
         else if MAX_URL_LENGTH < length url then Inl (TooLong (length url) MAX_URL_LENGTH)
         else if list_ex is_control url then Inl ControlCharacters
         else case split_once ''://'' url of
                None \<Rightarrow> Inl (ParseError ''missing '://' separator'')
              | Some (scheme, rest) \<Rightarrow>
                  (let scheme_lower = to_lowercase scheme
                   in if scheme_lower \<notin> set ALLOWED_SCHEMES then Inl (DisallowedScheme scheme_lower)
                      else (let host_port = host_port_of rest
                            in if host_port = [] then Inl MissingHost
                               else case host_of host_port of
                                      Inl e \<Rightarrow> Inl e
                                    | Inr host \<Rightarrow> if host = [] then Inl MissingHost else check_host host)))"

section \<open>The address ranges\<close>

text \<open>The documented ranges as networks with a prefix length.\<close>

definition ipv4_value :: "u8 \<Rightarrow> u8 \<Rightarrow> u8 \<Rightarrow> u8 \<Rightarrow> nat" where
  "ipv4_value a b c d = unat a * 2 ^ 24 + unat b * 2 ^ 16 + unat c * 2 ^ 8 + unat d"

definition in_network :: "nat \<Rightarrow> (nat \<times> nat \<times> nat \<times> nat) \<times> nat \<Rightarrow> bool" where
  "in_network ip net = (case net of ((a, b, c, d), len) \<Rightarrow>
     ip div 2 ^ (32 - len) = (a * 2 ^ 24 + b * 2 ^ 16 + c * 2 ^ 8 + d) div 2 ^ (32 - len))"

definition blocked_networks :: "((nat \<times> nat \<times> nat \<times> nat) \<times> nat) list" where
  "blocked_networks =
     [((0, 0, 0, 0), 32), ((127, 0, 0, 0), 8), ((10, 0, 0, 0), 8), ((172, 16, 0, 0), 12), ((192, 168, 0, 0), 16),
      ((169, 254, 0, 0), 16), ((100, 64, 0, 0), 10), ((192, 0, 0, 0), 24), ((192, 0, 2, 0), 24), ((198, 51, 100, 0), 24),
      ((203, 0, 113, 0), 24), ((198, 18, 0, 0), 15), ((240, 0, 0, 0), 4), ((255, 255, 255, 255), 32)]"

text \<open>An address shifted to the prefix lengths in use.\<close>

lemma address_shift:
  fixes A B C D :: nat
  assumes "B < 256" "C < 256" "D < 256"
  defines "v \<equiv> A * 16777216 + B * 65536 + C * 256 + D"
  shows "v div 256 = A * 65536 + B * 256 + C" "v div 65536 = A * 256 + B" "v div 131072 = (A * 256 + B) div 2"
    "v div 1048576 = (A * 256 + B) div 16" "v div 4194304 = (A * 256 + B) div 64" "v div 16777216 = A" "v div 268435456 = A div 16"
proof -
  have 8: "v div 256 = A * 65536 + B * 256 + C" unfolding v_def using assms(3) by (intro div_nat_eqI) simp_all
  have 16: "v div 65536 = A * 256 + B" unfolding v_def using assms(1-3) by (intro div_nat_eqI) simp_all
  have 24: "v div 16777216 = A" unfolding v_def using assms(1-3) by (intro div_nat_eqI) simp_all
  have "v div 131072 = v div 65536 div 2" "v div 1048576 = v div 65536 div 16" "v div 4194304 = v div 65536 div 64"
    "v div 268435456 = v div 16777216 div 16"
    by (simp_all add: div_mult2_eq [symmetric])
  then show "v div 256 = A * 65536 + B * 256 + C" "v div 65536 = A * 256 + B" "v div 131072 = (A * 256 + B) div 2"
    "v div 1048576 = (A * 256 + B) div 16" "v div 4194304 = (A * 256 + B) div 64" "v div 16777216 = A" "v div 268435456 = A div 16"
    using 8 16 24 by metis+
qed

text \<open>Octet conditions of the networks.\<close>

lemma digits_eq: "B < k \<Longrightarrow> N < k \<Longrightarrow> A * k + B = M * k + N \<longleftrightarrow> A = M \<and> B = (N :: nat)"
  by (metis add.commute add_left_imp_eq div_less div_mult_self1 less_nat_zero_code add_0)

lemma div_range: "0 < k \<Longrightarrow> n div k = m \<longleftrightarrow> m * k \<le> n \<and> n < Suc m * (k :: nat)"
  by (metis div_nat_eqI dividend_less_times_div times_div_less_eq_dividend mult.commute mult_Suc_right mult_Suc)

lemma network_octets:
  fixes A B C D :: nat
  assumes "A < 256" "B < 256" "C < 256" "D < 256"
  shows "(A * 256 + B) div 16 = 2753 \<longleftrightarrow> A = 172 \<and> 16 \<le> B \<and> B \<le> 31"
    "(A * 256 + B) div 64 = 401 \<longleftrightarrow> A = 100 \<and> 64 \<le> B \<and> B \<le> 127"
    "(A * 256 + B) div 2 = 25353 \<longleftrightarrow> A = 198 \<and> 18 \<le> B \<and> B \<le> 19"
    "A * 256 + B = 49320 \<longleftrightarrow> A = 192 \<and> B = 168" "A * 256 + B = 43518 \<longleftrightarrow> A = 169 \<and> B = 254"
    "A div 16 = 15 \<longleftrightarrow> 240 \<le> A"
proof -
  have 12: "(A * 256 + B) div 16 = A * 16 + B div 16" using div_mult_self3 [of 16 "A * 16" B] by simp
  have 10: "(A * 256 + B) div 64 = A * 4 + B div 64" using div_mult_self3 [of 64 "A * 4" B] by simp
  have 15: "(A * 256 + B) div 2 = A * 128 + B div 2" using div_mult_self3 [of 2 "A * 128" B] by simp
  have "B div 16 < 16" "B div 64 < 4" "B div 2 < 128" using assms(2) by simp_all
  then have "A * 16 + B div 16 = 2753 \<longleftrightarrow> A = 172 \<and> B div 16 = 1" "A * 4 + B div 64 = 401 \<longleftrightarrow> A = 100 \<and> B div 64 = 1"
    "A * 128 + B div 2 = 25353 \<longleftrightarrow> A = 198 \<and> B div 2 = 9"
    using digits_eq [of "B div 16" 16 1 A 172] digits_eq [of "B div 64" 4 1 A 100] digits_eq [of "B div 2" 128 9 A 198] by simp_all
  then show "(A * 256 + B) div 16 = 2753 \<longleftrightarrow> A = 172 \<and> 16 \<le> B \<and> B \<le> 31"
    "(A * 256 + B) div 64 = 401 \<longleftrightarrow> A = 100 \<and> 64 \<le> B \<and> B \<le> 127"
    "(A * 256 + B) div 2 = 25353 \<longleftrightarrow> A = 198 \<and> 18 \<le> B \<and> B \<le> 19"
    unfolding 12 10 15 by (auto simp: div_range)
  show "A * 256 + B = 49320 \<longleftrightarrow> A = 192 \<and> B = 168" "A * 256 + B = 43518 \<longleftrightarrow> A = 169 \<and> B = 254"
    using digits_eq [of B 256 168 A 192] digits_eq [of B 256 254 A 169] assms(2) by simp_all
  show "A div 16 = 15 \<longleftrightarrow> 240 \<le> A" using assms(1) by (auto simp: div_range)
qed

lemma network_octets3:
  fixes A B C :: nat
  assumes "B < 256" "C < 256" "b < 256" "c < 256"
  shows "A * 65536 + B * 256 + C = a * 65536 + b * 256 + c \<longleftrightarrow> A = a \<and> B = b \<and> C = c"
  using digits_eq [of C 256 c "A * 256 + B" "a * 256 + b"] digits_eq [of B 256 b A a] assms by (simp add: algebra_simps)

lemma network_octets4:
  fixes A B C D :: nat
  assumes "B < 256" "C < 256" "D < 256" "b < 256" "c < 256" "d < 256"
  shows "A * 16777216 + B * 65536 + C * 256 + D = a * 16777216 + b * 65536 + c * 256 + d \<longleftrightarrow> A = a \<and> B = b \<and> C = c \<and> D = d"
  using digits_eq [of D 256 d "A * 65536 + B * 256 + C" "a * 65536 + b * 256 + c"] network_octets3 [of B C b c A a] assms
  by (simp add: algebra_simps)

lemma in_blocked_network:
  fixes A B C D :: nat
  assumes lt: "A < 256" "B < 256" "C < 256" "D < 256"
  defines "v \<equiv> A * 16777216 + B * 65536 + C * 256 + D"
  shows "in_network v ((0, 0, 0, 0), 32) \<longleftrightarrow> A = 0 \<and> B = 0 \<and> C = 0 \<and> D = 0"
    "in_network v ((127, 0, 0, 0), 8) \<longleftrightarrow> A = 127" "in_network v ((10, 0, 0, 0), 8) \<longleftrightarrow> A = 10"
    "in_network v ((172, 16, 0, 0), 12) \<longleftrightarrow> A = 172 \<and> 16 \<le> B \<and> B \<le> 31"
    "in_network v ((192, 168, 0, 0), 16) \<longleftrightarrow> A = 192 \<and> B = 168"
    "in_network v ((169, 254, 0, 0), 16) \<longleftrightarrow> A = 169 \<and> B = 254"
    "in_network v ((100, 64, 0, 0), 10) \<longleftrightarrow> A = 100 \<and> 64 \<le> B \<and> B \<le> 127"
    "in_network v ((192, 0, 0, 0), 24) \<longleftrightarrow> A = 192 \<and> B = 0 \<and> C = 0"
    "in_network v ((192, 0, 2, 0), 24) \<longleftrightarrow> A = 192 \<and> B = 0 \<and> C = 2"
    "in_network v ((198, 51, 100, 0), 24) \<longleftrightarrow> A = 198 \<and> B = 51 \<and> C = 100"
    "in_network v ((203, 0, 113, 0), 24) \<longleftrightarrow> A = 203 \<and> B = 0 \<and> C = 113"
    "in_network v ((198, 18, 0, 0), 15) \<longleftrightarrow> A = 198 \<and> 18 \<le> B \<and> B \<le> 19"
    "in_network v ((240, 0, 0, 0), 4) \<longleftrightarrow> 240 \<le> A"
    "in_network v ((255, 255, 255, 255), 32) \<longleftrightarrow> A = 255 \<and> B = 255 \<and> C = 255 \<and> D = 255"
proof -
  note shift = address_shift [OF lt(2-4), of A, folded v_def]
  note three = network_octets3 [OF lt(2,3)] and four = network_octets4 [OF lt(2-4)]
  show "in_network v ((0, 0, 0, 0), 32) \<longleftrightarrow> A = 0 \<and> B = 0 \<and> C = 0 \<and> D = 0" by (auto simp: in_network_def v_def)
  show "in_network v ((127, 0, 0, 0), 8) \<longleftrightarrow> A = 127" "in_network v ((10, 0, 0, 0), 8) \<longleftrightarrow> A = 10"
    "in_network v ((172, 16, 0, 0), 12) \<longleftrightarrow> A = 172 \<and> 16 \<le> B \<and> B \<le> 31"
    "in_network v ((192, 168, 0, 0), 16) \<longleftrightarrow> A = 192 \<and> B = 168"
    "in_network v ((169, 254, 0, 0), 16) \<longleftrightarrow> A = 169 \<and> B = 254"
    "in_network v ((100, 64, 0, 0), 10) \<longleftrightarrow> A = 100 \<and> 64 \<le> B \<and> B \<le> 127"
    "in_network v ((198, 18, 0, 0), 15) \<longleftrightarrow> A = 198 \<and> 18 \<le> B \<and> B \<le> 19"
    "in_network v ((240, 0, 0, 0), 4) \<longleftrightarrow> 240 \<le> A"
    by (simp_all add: in_network_def shift network_octets [OF lt])
  show "in_network v ((192, 0, 0, 0), 24) \<longleftrightarrow> A = 192 \<and> B = 0 \<and> C = 0" using three [of 0 0 A 192] by (simp add: in_network_def shift)
  show "in_network v ((192, 0, 2, 0), 24) \<longleftrightarrow> A = 192 \<and> B = 0 \<and> C = 2" using three [of 0 2 A 192] by (simp add: in_network_def shift)
  show "in_network v ((198, 51, 100, 0), 24) \<longleftrightarrow> A = 198 \<and> B = 51 \<and> C = 100" using three [of 51 100 A 198] by (simp add: in_network_def shift)
  show "in_network v ((203, 0, 113, 0), 24) \<longleftrightarrow> A = 203 \<and> B = 0 \<and> C = 113" using three [of 0 113 A 203] by (simp add: in_network_def shift)
  show "in_network v ((255, 255, 255, 255), 32) \<longleftrightarrow> A = 255 \<and> B = 255 \<and> C = 255 \<and> D = 255"
    using four [of 255 255 255 A 255] by (simp add: in_network_def v_def)
qed

lemma is_private_ipv4_networks:
  "is_private_ipv4 a b c d \<longleftrightarrow> list_ex (in_network (ipv4_value a b c d)) blocked_networks"
proof -
  have lt: "unat x < 256" for x :: u8 using unsigned_less [of x] by simp
  have v: "ipv4_value a b c d = unat a * 16777216 + unat b * 65536 + unat c * 256 + unat d" by (simp add: ipv4_value_def)
  have n: "x = 0 \<longleftrightarrow> unat x = 0" "x = numeral k \<longleftrightarrow> unat x = unat (numeral k :: u8)" "numeral k \<le> x \<longleftrightarrow> unat (numeral k :: u8) \<le> unat x"
    "x \<le> numeral k \<longleftrightarrow> unat x \<le> unat (numeral k :: u8)" for x :: u8 and k
    by (simp_all add: word_unat_eq_iff word_le_nat_alt)
  have "is_private_ipv4 a b c d \<longleftrightarrow>
      unat a = 0 \<and> unat b = 0 \<and> unat c = 0 \<and> unat d = 0 \<or> unat a = 127 \<or> unat a = 10
      \<or> unat a = 172 \<and> 16 \<le> unat b \<and> unat b \<le> 31 \<or> unat a = 192 \<and> unat b = 168 \<or> unat a = 169 \<and> unat b = 254
      \<or> unat a = 100 \<and> 64 \<le> unat b \<and> unat b \<le> 127 \<or> unat a = 192 \<and> unat b = 0 \<and> unat c = 0
      \<or> unat a = 192 \<and> unat b = 0 \<and> unat c = 2 \<or> unat a = 198 \<and> unat b = 51 \<and> unat c = 100
      \<or> unat a = 203 \<and> unat b = 0 \<and> unat c = 113 \<or> unat a = 198 \<and> 18 \<le> unat b \<and> unat b \<le> 19 \<or> 240 \<le> unat a
      \<or> unat a = 255 \<and> unat b = 255 \<and> unat c = 255 \<and> unat d = 255"
    unfolding is_private_ipv4_def n by simp
  then show ?thesis
    by (simp only: v blocked_networks_def list_ex_Nil_iff list_ex_Cons_iff in_blocked_network [OF lt lt lt lt] simp_thms)
qed

text \<open>Masking the high bits of a segment compares a prefix.\<close>

lemma and_mask_high:
  fixes w m n :: "16 word"
  assumes "m = push_bit k (- 1)" "n = push_bit k (drop_bit k n)"
  shows "w AND m = n \<longleftrightarrow> drop_bit k w = drop_bit k n"
proof
  assume "w AND m = n"
  then have "drop_bit k (w AND m) = drop_bit k n" by simp
  moreover have "drop_bit k (w AND m) = drop_bit k w" unfolding assms(1)
    by (rule bit_word_eqI) (auto simp: bit_simps dest: bit_imp_le_length)
  ultimately show "drop_bit k w = drop_bit k n" by simp
next
  assume a: "drop_bit k w = drop_bit k n"
  have "w AND m = push_bit k (drop_bit k w)" unfolding assms(1)
    by (rule bit_word_eqI) (auto simp: bit_simps)
  then show "w AND m = n" using a assms(2) by simp
qed

lemma ipv6_prefixes:
  fixes w :: "16 word"
  shows "w AND 0xFFC0 = 0xFE80 \<longleftrightarrow> unat w div 2 ^ 6 = 0xFE80 div 2 ^ 6"
    "w AND 0xFE00 = 0xFC00 \<longleftrightarrow> unat w div 2 ^ 9 = 0xFC00 div 2 ^ 9"
proof -
  have "w AND 0xFFC0 = 0xFE80 \<longleftrightarrow> drop_bit 6 w = (drop_bit 6 0xFE80 :: 16 word)"
    by (rule and_mask_high) (simp_all add: push_bit_eq_mult drop_bit_eq_div)
  then show "w AND 0xFFC0 = 0xFE80 \<longleftrightarrow> unat w div 2 ^ 6 = 0xFE80 div 2 ^ 6"
    by (simp add: word_unat_eq_iff drop_bit_eq_div unat_div)
  have "w AND 0xFE00 = 0xFC00 \<longleftrightarrow> drop_bit 9 w = (drop_bit 9 0xFC00 :: 16 word)"
    by (rule and_mask_high) (simp_all add: push_bit_eq_mult drop_bit_eq_div)
  then show "w AND 0xFE00 = 0xFC00 \<longleftrightarrow> unat w div 2 ^ 9 = 0xFC00 div 2 ^ 9"
    by (simp add: word_unat_eq_iff drop_bit_eq_div unat_div)
qed

text \<open>The documented ranges of both families: networks for IPv4, and for IPv6 the unspecified and the loopback
  address, the prefixes \<open>fe80::/10\<close> and \<open>fc00::/7\<close>, and mapped IPv4 addresses of the IPv4 networks.\<close>

fun blocked_address :: "IpAddr \<Rightarrow> bool" where
  "blocked_address (V4 a b c d) = list_ex (in_network (ipv4_value a b c d)) blocked_networks"
| "blocked_address (V6 s) \<longleftrightarrow>
     s = replicate 8 0 \<or> s = replicate 7 0 @ [1] \<or> unat (s ! 0) div 2 ^ 6 = 0xFE80 div 2 ^ 6
     \<or> unat (s ! 0) div 2 ^ 9 = 0xFC00 div 2 ^ 9
     \<or> (case to_ipv4_mapped s of
          Some (a, b, c, d) \<Rightarrow> list_ex (in_network (ipv4_value a b c d)) blocked_networks
        | None \<Rightarrow> False)"

lemma is_private_ip_blocked: "is_private_ip ip \<longleftrightarrow> blocked_address ip"
proof (cases ip)
  case (V6 s)
  have "replicate 8 (0 :: 16 word) = [0, 0, 0, 0, 0, 0, 0, 0]" "replicate 7 (0 :: 16 word) @ [1] = [0, 0, 0, 0, 0, 0, 0, 1]"
    by (simp_all add: numeral_eq_Suc)
  then show ?thesis
    unfolding V6 is_private_ip.simps blocked_address.simps is_private_ipv6_def ipv6_prefixes is_private_ipv4_networks
    by simp
qed (simp add: is_private_ipv4_networks)

lemma is_private_hostname_iff:
  "is_private_hostname host \<longleftrightarrow>
     to_lowercase host \<in> set BLOCKED_HOSTNAMES \<or> list_ex (ends_with (to_lowercase host)) BLOCKED_HOSTNAME_SUFFIXES"
  by (auto simp: is_private_hostname_def Let_def list_ex_iff)

section \<open>What an accepted URL is\<close>

text \<open>The host that the filter reads from a URL.\<close>

definition url_host :: "string \<Rightarrow> string option" where
  "url_host url =
     (case split_once ''://'' (trim url) of
        None \<Rightarrow> None
      | Some (_, rest) \<Rightarrow> (case host_of (host_port_of rest) of Inl _ \<Rightarrow> None | Inr host \<Rightarrow> Some host))"

lemma validate_url_iff:
  "validate_url_ssrf url = Inr () \<longleftrightarrow>
     trim url \<noteq> [] \<and> length (trim url) \<le> MAX_URL_LENGTH \<and> \<not> list_ex is_control (trim url)
     \<and> (\<exists>scheme rest host. split_once ''://'' (trim url) = Some (scheme, rest) \<and> to_lowercase scheme \<in> set ALLOWED_SCHEMES
          \<and> host_port_of rest \<noteq> [] \<and> host_of (host_port_of rest) = Inr host \<and> host \<noteq> [] \<and> check_host host = Inr ())"
  by (auto simp: validate_url_ssrf_def Let_def not_less split: option.splits sum.splits if_splits)

lemma check_host_iff:
  "check_host host = Inr () \<longleftrightarrow>
     (case parse_ip host of Some ip \<Rightarrow> \<not> is_private_ip ip | None \<Rightarrow> \<not> is_private_hostname host)"
  by (simp add: check_host_def split: option.splits)

lemma url_accepted:
  "validate_url_ssrf url = Inr () \<longleftrightarrow>
     trim url \<noteq> [] \<and> length (trim url) \<le> MAX_URL_LENGTH \<and> \<not> list_ex is_control (trim url)
     \<and> (\<exists>scheme rest. split_once ''://'' (trim url) = Some (scheme, rest) \<and> to_lowercase scheme \<in> set ALLOWED_SCHEMES)
     \<and> (\<exists>host. url_host url = Some host \<and> host \<noteq> []
          \<and> (case parse_ip host of
               Some ip \<Rightarrow> \<not> blocked_address ip
             | None \<Rightarrow> to_lowercase host \<notin> set BLOCKED_HOSTNAMES \<and> \<not> list_ex (ends_with (to_lowercase host)) BLOCKED_HOSTNAME_SUFFIXES))"
proof -
  have [simp]: "host_of [] = Inr []" by (simp add: host_of_def rsplit_once_def)
  show ?thesis
    unfolding validate_url_iff check_host_iff is_private_ip_blocked is_private_hostname_iff
    by (auto simp: url_host_def split: option.splits sum.splits)
qed

section \<open>Two readings of a backslash\<close>

text \<open>The filter takes the text after the last \<open>@\<close> of the authority as the host. A client that reads a backslash
  as a slash, as the URL standard asks for these schemes, connects to the address in front of it.\<close>

definition ex_url :: string where
  "ex_url = ''http://127.0.0.1'' @ [CHR 0x5C] @ ''@example.com/''"

lemma ex_digits: "to_digit 10 CHR ''e'' = None" "to_digit 16 CHR ''e'' = Some 14" "to_digit 16 CHR ''x'' = None"
  by (simp_all add: to_digit_def)

lemma ex_parse: "parse_ip ''example.com'' = None"
proof -
  have "read_number 10 3 False 256 ''example.com'' = None" by (simp add: read_number_def ex_digits)
  then have v4: "read_ipv4_addr ''example.com'' = None"
    unfolding read_ipv4_addr_def using read_octets.simps(2) [of 0 3] by (simp add: read_separator_def)
  have n: "read_number 16 4 True 65536 ''example.com'' = Some (14, ''xample.com'')" by (simp add: read_number_def ex_digits)
  have "read_groups 8 7 ''xample.com'' = ([], False, ''xample.com'')"
    using read_groups.simps(2) [of 8 6 "''xample.com''"] by (simp add: read_separator_def read_given_char_def)
  then have "read_groups 8 8 ''example.com'' = ([14], False, ''xample.com'')"
    using read_groups.simps(2) [of 8 7 "''example.com''"] by (simp add: read_separator_def v4 n)
  then show ?thesis by (simp add: parse_ip_def v4 read_ipv6_addr_def read_given_char_def)
qed

lemma backslash_accepted: "validate_url_ssrf ex_url = Inr ()"
proof -
  have "trim ex_url = ex_url" by (simp add: ex_url_def trim_def is_space_def)
  moreover have "split_once ''://'' ex_url = Some (''http'', drop 7 ex_url)" by (simp add: ex_url_def)
  moreover have "host_port_of (drop 7 ex_url) = ''example.com''"
    by (simp add: ex_url_def host_port_of_def first_part_def rsplit_once_def)
  moreover have "host_of ''example.com'' = Inr ''example.com''" by (simp add: host_of_def rsplit_once_def)
  moreover have "\<not> list_ex is_control ex_url" by (simp add: ex_url_def is_control_def)
  moreover have "to_lowercase ''http'' = ''http''" by (simp add: to_lowercase_def lower_char_def)
  moreover have "\<not> is_private_hostname ''example.com''"
    by (simp add: is_private_hostname_def to_lowercase_def lower_char_def BLOCKED_HOSTNAMES_def BLOCKED_HOSTNAME_SUFFIXES_def ends_with_def)
  ultimately show ?thesis
    by (auto simp: validate_url_iff check_host_iff ex_parse ALLOWED_SCHEMES_def MAX_URL_LENGTH_def) (simp_all add: ex_url_def)
qed

end
