(* ===== verification/Bounded_Window.thy ===== *)
theory Bounded_Window
  imports Prelude_ZK
begin

text \<open>
  The interface of a duplicate filter with bounded memory: it accepts a key unless the key is among the last \<open>cap\<close> that
  it accepted. The nonce registry of the enclave and the tracker of processed events of the operator both provide it.
\<close>

text \<open>Equal elements of a list are at least \<open>n\<close> positions apart.\<close>

definition spaced :: "nat \<Rightarrow> 'a list \<Rightarrow> bool" where
  "spaced n xs \<longleftrightarrow> (\<forall>i j. i < j \<and> j < length xs \<and> xs ! i = xs ! j \<longrightarrow> n \<le> j - i)"

lemma spaced_Nil [simp]: "spaced n []"
  by (simp add: spaced_def)

lemma spaced_Cons:
  assumes "spaced n xs" "x \<notin> set (take n xs)"
  shows "spaced n (x # xs)"
  unfolding spaced_def
proof (intro allI impI, elim conjE)
  fix i j
  assume ij: "i < j" "j < length (x # xs)" "(x # xs) ! i = (x # xs) ! j"
  obtain l where l: "j = Suc l" using ij(1) by (cases j) auto
  show "n \<le> j - i"
  proof (cases i)
    case 0
    then have "xs ! l = x" "l < length xs" using ij l by auto
    moreover have "xs ! l \<in> set (take n xs)" if "l < n" "l < length xs"
      using that by (auto simp: in_set_conv_nth)
    ultimately show ?thesis using assms(2) 0 l by fastforce
  next
    case (Suc k)
    then show ?thesis using assms(1) ij l by (auto simp: spaced_def)
  qed
qed

text \<open>A full window drops its oldest element, a shorter one keeps all: the last \<open>m\<close> of a longer history.\<close>

lemma set_take_Suc_minus:
  assumes "distinct (take (Suc m) xs)" "m < length xs"
  shows "set (take (Suc m) xs) - {xs ! m} = set (take m xs)"
  using assms by (auto simp: take_Suc_conv_app_nth)

locale bounded_window =
  fixes accept :: "'k \<Rightarrow> 's \<Rightarrow> bool \<times> 's"
    and inv :: "'k list \<Rightarrow> 's \<Rightarrow> bool"
    and cap :: nat
  assumes accept_iff: "inv accepted s \<Longrightarrow> fst (accept k s) \<longleftrightarrow> k \<notin> set (take cap accepted)"
    and accept_inv: "inv accepted s \<Longrightarrow> fst (accept k s) \<Longrightarrow> inv (k # accepted) (snd (accept k s))"
    and reject_same: "inv accepted s \<Longrightarrow> \<not> fst (accept k s) \<Longrightarrow> snd (accept k s) = s"
begin

definition feed :: "'k \<Rightarrow> 's \<times> 'k list \<Rightarrow> 's \<times> 'k list" where
  "feed k st = (let (ok, s) = accept k (fst st) in (s, if ok then k # snd st else snd st))"

lemma snd_feed: "snd (feed k st) = (if fst (accept k (fst st)) then k # snd st else snd st)"
  by (simp add: feed_def split: prod.split)

definition feed_inv :: "'s \<times> 'k list \<Rightarrow> bool" where
  "feed_inv st \<longleftrightarrow> inv (snd st) (fst st) \<and> spaced cap (snd st)"

lemma feed_inv_step: "feed_inv st \<Longrightarrow> feed_inv (feed k st)"
  using accept_iff [of "snd st" "fst st" k] accept_inv [of "snd st" "fst st" k] reject_same [of "snd st" "fst st" k]
  by (cases "accept k (fst st)") (auto simp: feed_inv_def feed_def intro: spaced_Cons)

lemma feed_inv_run: "feed_inv st \<Longrightarrow> feed_inv (fold feed ks st)"
  by (induction ks arbitrary: st) (simp_all add: feed_inv_step)

lemma window_run:
  assumes "inv [] s"
  shows "inv (snd (fold feed ks (s, []))) (fst (fold feed ks (s, [])))" "spaced cap (snd (fold feed ks (s, [])))"
  using feed_inv_run [of "(s, [])" ks] assms by (simp_all add: feed_inv_def)

lemma accepted_keys: "set (snd (fold feed ks st)) \<subseteq> set (snd st) \<union> set ks"
  by (induction ks arbitrary: st) (fastforce simp: feed_def split: prod.splits if_splits)+

text \<open>While at most \<open>cap\<close> different keys were seen, each is accepted exactly once.\<close>

lemma window_exact:
  assumes "inv [] s" "length (snd (fold feed ks (s, []))) \<le> cap"
  shows "distinct (snd (fold feed ks (s, [])))" "set (snd (fold feed ks (s, []))) = set ks"
proof -
  let ?r = "\<lambda>ks. fold feed ks (s, [])"
  have mono: "length (snd st) \<le> length (snd (feed k st))" for k st by (simp add: snd_feed)
  have "distinct (snd (?r ks)) \<and> set (snd (?r ks)) = set ks"
    using assms(2)
  proof (induction ks rule: rev_induct)
    case Nil
    then show ?case by simp
  next
    case (snoc k ks)
    then have short: "length (snd (?r ks)) \<le> cap" using mono [of "?r ks" k] by simp
    then have IH: "distinct (snd (?r ks))" "set (snd (?r ks)) = set ks" using snoc.IH by simp_all
    have "fst (accept k (fst (?r ks))) \<longleftrightarrow> k \<notin> set ks"
      using accept_iff [OF window_run(1) [OF assms(1)], of k ks] short IH(2) by simp
    then show ?case using IH by (auto simp: snd_feed)
  qed
  then show "distinct (snd (?r ks))" "set (snd (?r ks)) = set ks" by simp_all
qed

end

end
