(* ===== verification/Replay_Guard.thy ===== *)
theory Replay_Guard
  imports Bounded_Window
begin

text \<open>
  The replay protection of the enclave (\<open>tee/enclave/src/watchdog.rs\<close>) and its use by the inference handler
  (\<open>tee/enclave/src/main.rs\<close>): a bounded registry of nonces with first-in first-out eviction, a freshness window
  for timestamps, and the chain id. The system clock is read in seconds; the reading is an argument.

  The registry remembers a bounded number of nonces, so that the protection is relative: \<open>guard_run\<close> collects the
  accepted requests, and the laws say how far apart two accepted requests with the same nonce are.
\<close>

definition MAX_NONCE_ENTRIES :: nat where
  "MAX_NONCE_ENTRIES = 100000"

definition DEFAULT_MAX_REQUEST_AGE_SECS :: nat where
  "DEFAULT_MAX_REQUEST_AGE_SECS = 60"

datatype ReplayError = DuplicateNonce | ExpiredTimestamp | InvalidChainId

record NonceRegistry =
  nonce_set :: "string set"
  nonce_order :: "string list"
  max_entries :: nat

definition registry_new :: "nat \<Rightarrow> NonceRegistry" where
  "registry_new n = \<lparr> nonce_set = {}, nonce_order = [], max_entries = n \<rparr>"

definition check_nonce :: "string \<Rightarrow> NonceRegistry \<Rightarrow> bool \<times> NonceRegistry" where
  "check_nonce nonce r =
     (if nonce \<in> nonce_set r then (False, r)
      else let r = (if max_entries r \<le> card (nonce_set r)
                    then (case nonce_order r of
                            oldest # rest \<Rightarrow> r\<lparr> nonce_set := nonce_set r - {oldest}, nonce_order := rest \<rparr>
                          | [] \<Rightarrow> r)
                    else r)
           in (True, r\<lparr> nonce_set := insert nonce (nonce_set r), nonce_order := nonce_order r @ [nonce] \<rparr>))"

definition registry_len :: "NonceRegistry \<Rightarrow> nat" where
  "registry_len r = card (nonce_set r)"

definition registry_is_empty :: "NonceRegistry \<Rightarrow> bool" where
  "registry_is_empty r = (nonce_set r = {})"

definition check_timestamp :: "nat \<Rightarrow> nat \<Rightarrow> nat \<Rightarrow> bool" where
  "check_timestamp now timestamp_secs max_age =
     (if timestamp_secs < now \<and> max_age < now - timestamp_secs then False
      else if now < timestamp_secs \<and> max_age < timestamp_secs - now then False
      else True)"

definition check_chain_id :: "nat \<Rightarrow> nat \<Rightarrow> bool" where
  "check_chain_id request_chain_id expected \<longleftrightarrow> request_chain_id = expected"

record ReplayProtection =
  nonces :: NonceRegistry
  max_request_age_secs :: nat
  expected_chain_id :: nat

definition replay_new :: "nat \<Rightarrow> nat \<Rightarrow> ReplayProtection" where
  "replay_new max_age chain_id =
     \<lparr> nonces = registry_new MAX_NONCE_ENTRIES, max_request_age_secs = max_age, expected_chain_id = chain_id \<rparr>"

definition default_mainnet :: ReplayProtection where
  "default_mainnet = replay_new DEFAULT_MAX_REQUEST_AGE_SECS 1"

definition validate_request ::
  "nat \<Rightarrow> string \<Rightarrow> nat \<Rightarrow> nat \<Rightarrow> ReplayProtection \<Rightarrow> (ReplayError + unit) \<times> ReplayProtection" where
  "validate_request now nonce timestamp_secs chain_id rp =
     (if \<not> check_chain_id chain_id (expected_chain_id rp) then (Inl InvalidChainId, rp)
      else if \<not> check_timestamp now timestamp_secs (max_request_age_secs rp) then (Inl ExpiredTimestamp, rp)
      else (case check_nonce nonce (nonces rp) of
              (ok, r) \<Rightarrow> let rp = rp\<lparr> nonces := r \<rparr> in if \<not> ok then (Inl DuplicateNonce, rp) else (Inr (), rp)))"

text \<open>The check of the inference handler: it applies to requests that carry both a nonce and a timestamp; a missing
  chain id is the attestor's own.\<close>

record InferRequest =
  req_nonce :: "string option"
  req_timestamp :: "nat option"
  req_chain_id :: "nat option"

definition infer_replay_check :: "nat \<Rightarrow> nat \<Rightarrow> InferRequest \<Rightarrow> ReplayProtection \<Rightarrow> (ReplayError + unit) \<times> ReplayProtection" where
  "infer_replay_check now attestor_chain_id req rp =
     (case (req_nonce req, req_timestamp req) of
        (Some nonce, Some timestamp) \<Rightarrow>
          validate_request now nonce timestamp (case req_chain_id req of Some c \<Rightarrow> c | None \<Rightarrow> attestor_chain_id) rp
      | _ \<Rightarrow> (Inr (), rp))"

section \<open>The registry\<close>

text \<open>The registry holds the last accepted nonces, as many as it may (one at least), oldest first.\<close>

definition registry_inv :: "string list \<Rightarrow> NonceRegistry \<Rightarrow> bool" where
  "registry_inv accepted r \<longleftrightarrow>
     nonce_order r = rev (take (max 1 (max_entries r)) accepted) \<and> distinct (nonce_order r) \<and> nonce_set r = set (nonce_order r)"

lemma registry_inv_new: "registry_inv [] (registry_new n)"
  by (simp add: registry_inv_def registry_new_def)

lemma check_nonce_accepts: "registry_inv accepted r \<Longrightarrow> fst (check_nonce nonce r) \<longleftrightarrow> nonce \<notin> set (take (max 1 (max_entries r)) accepted)"
  by (simp add: check_nonce_def registry_inv_def Let_def)

lemma registry_inv_step:
  assumes "registry_inv accepted r" "fst (check_nonce nonce r)"
  shows "registry_inv (nonce # accepted) (snd (check_nonce nonce r))" "max_entries (snd (check_nonce nonce r)) = max_entries r"
proof -
  obtain m where m: "max 1 (max_entries r) = Suc m" by (cases "max_entries r") (auto simp: max_def)
  have inv: "nonce_order r = rev (take (Suc m) accepted)" "distinct (nonce_order r)" "nonce_set r = set (nonce_order r)"
    using assms(1) unfolding registry_inv_def m by blast+
  have new: "nonce \<notin> nonce_set r" using assms(2) by (auto simp: check_nonce_def)
  have card: "card (nonce_set r) = min (Suc m) (length accepted)" using distinct_card [OF inv(2)] inv(1,3) by simp
  show max: "max_entries (snd (check_nonce nonce r)) = max_entries r"
    using new by (simp add: check_nonce_def Let_def split: list.split)
  have goal: "registry_inv (nonce # accepted) (snd (check_nonce nonce r))"
    if "nonce_order (snd (check_nonce nonce r)) = rev (take m accepted) @ [nonce]" "distinct (take m accepted)"
      "nonce \<notin> set (take m accepted)" "nonce_set (snd (check_nonce nonce r)) = insert nonce (set (take m accepted))"
    using that unfolding registry_inv_def max m by simp
  have part: "distinct (take m accepted)" "nonce \<notin> set (take m accepted)"
    using inv new set_take_subset_set_take [of m "Suc m" accepted] distinct_take [of "take (Suc m) accepted" m] by auto
  show "registry_inv (nonce # accepted) (snd (check_nonce nonce r))"
  proof (cases "m < length accepted")
    case True
    have full: "max_entries r \<le> card (nonce_set r)" using card m True by simp
    have t: "take (Suc m) accepted = take m accepted @ [accepted ! m]" using True by (rule take_Suc_conv_app_nth)
    then have ord: "nonce_order r = accepted ! m # rev (take m accepted)" using inv(1) by simp
    then have "nonce_set r - {accepted ! m} = set (take m accepted)" using inv(2,3) by auto
    then show ?thesis using new full ord part by (intro goal) (simp_all add: check_nonce_def)
  next
    case False
    then have all: "take m accepted = accepted" "take (Suc m) accepted = accepted" by simp_all
    have ord: "nonce_order r = rev accepted" "nonce_set r = set accepted" using inv all by simp_all
    have room: "accepted = []" if "max_entries r \<le> card (nonce_set r)"
    proof -
      have "max_entries r \<le> m" using that card False by simp
      then have "m = 0" using m by linarith
      then show ?thesis using False by simp
    qed
    have "snd (check_nonce nonce r) = r\<lparr> nonce_set := insert nonce (set accepted), nonce_order := rev accepted @ [nonce] \<rparr>"
    proof (cases "max_entries r \<le> card (nonce_set r)")
      case True
      then show ?thesis using new ord room [OF True] by (simp add: check_nonce_def)
    next
      case False
      then show ?thesis using new ord by (simp add: check_nonce_def)
    qed
    then show ?thesis using part all by (intro goal) simp_all
  qed
qed

text \<open>The registry is a bounded duplicate filter.\<close>

lemma check_nonce_rejected: "\<not> fst (check_nonce nonce r) \<Longrightarrow> snd (check_nonce nonce r) = r"
  by (simp add: check_nonce_def Let_def split: if_splits)

interpretation registry: bounded_window check_nonce "\<lambda>accepted r. registry_inv accepted r \<and> max_entries r = n" "max (Suc 0) n" for n
  by unfold_locales (auto simp: check_nonce_accepts registry_inv_step check_nonce_rejected)

section \<open>Runs\<close>

text \<open>Requests as \<open>(clock reading, nonce, timestamp, chain id)\<close>; the accepted ones are collected, latest first.\<close>

type_synonym request = "nat \<times> string \<times> nat \<times> nat"

fun guard_step :: "request \<Rightarrow> ReplayProtection \<times> request list \<Rightarrow> ReplayProtection \<times> request list" where
  "guard_step (now, nonce, timestamp, chain_id) (rp, accepted) =
     (case validate_request now nonce timestamp chain_id rp of
        (Inr _, rp) \<Rightarrow> (rp, (now, nonce, timestamp, chain_id) # accepted)
      | (Inl _, rp) \<Rightarrow> (rp, accepted))"

definition guard_run :: "ReplayProtection \<Rightarrow> request list \<Rightarrow> ReplayProtection \<times> request list" where
  "guard_run rp reqs = fold guard_step reqs (rp, [])"

definition nonce_of :: "request \<Rightarrow> string" where
  "nonce_of q = fst (snd q)"

text \<open>Among the accepted requests, nonces repeat only at a distance of the size of the registry.\<close>

definition guard_inv :: "ReplayProtection \<Rightarrow> ReplayProtection \<times> request list \<Rightarrow> bool" where
  "guard_inv rp0 s \<longleftrightarrow>
     registry.feed_inv (max_entries (nonces rp0)) (nonces (fst s), map nonce_of (snd s))
     \<and> max_request_age_secs (fst s) = max_request_age_secs rp0 \<and> expected_chain_id (fst s) = expected_chain_id rp0
     \<and> (\<forall>(now, nonce, timestamp, chain_id) \<in> set (snd s).
          chain_id = expected_chain_id rp0 \<and> check_timestamp now timestamp (max_request_age_secs rp0))"

lemma guard_inv_registry:
  assumes "guard_inv rp0 s"
  shows "registry_inv (map nonce_of (snd s)) (nonces (fst s))" "max_entries (nonces (fst s)) = max_entries (nonces rp0)"
    "spaced (max 1 (max_entries (nonces rp0))) (map nonce_of (snd s))"
  using assms by (simp_all add: guard_inv_def registry.feed_inv_def)

lemma guard_inv_start: "nonces rp = registry_new n \<Longrightarrow> guard_inv rp (rp, [])"
  using registry_inv_new [of n] by (simp add: guard_inv_def registry.feed_inv_def registry_new_def)

lemma validate_request_accepts:
  assumes "chain_id = expected_chain_id rp" "check_timestamp now timestamp (max_request_age_secs rp)" "fst (check_nonce nonce (nonces rp))"
  shows "validate_request now nonce timestamp chain_id rp = (Inr (), rp\<lparr> nonces := snd (check_nonce nonce (nonces rp)) \<rparr>)"
  using assms by (cases "check_nonce nonce (nonces rp)") (simp add: validate_request_def check_chain_id_def)

lemma validate_request_rejects:
  assumes "\<not> (chain_id = expected_chain_id rp \<and> check_timestamp now timestamp (max_request_age_secs rp) \<and> fst (check_nonce nonce (nonces rp)))"
  shows "\<exists>e. validate_request now nonce timestamp chain_id rp = (Inl e, rp)"
proof (cases "fst (check_nonce nonce (nonces rp))")
  case True
  then show ?thesis using assms by (simp add: validate_request_def check_chain_id_def)
next
  case False
  then have "check_nonce nonce (nonces rp) = (False, nonces rp)" by (simp add: check_nonce_def Let_def split: if_splits)
  then show ?thesis by (simp add: validate_request_def)
qed

lemma guard_step_cases:
  obtains (accept) "guard_step (now, nonce, timestamp, chain_id) (rp, accepted) =
      (rp\<lparr> nonces := snd (check_nonce nonce (nonces rp)) \<rparr>, (now, nonce, timestamp, chain_id) # accepted)"
      "fst (check_nonce nonce (nonces rp))" "chain_id = expected_chain_id rp" "check_timestamp now timestamp (max_request_age_secs rp)"
  | (reject) "guard_step (now, nonce, timestamp, chain_id) (rp, accepted) = (rp, accepted)"
proof (cases "chain_id = expected_chain_id rp \<and> check_timestamp now timestamp (max_request_age_secs rp) \<and> fst (check_nonce nonce (nonces rp))")
  case True
  then show ?thesis using validate_request_accepts [of chain_id rp now timestamp nonce] by (intro accept) simp_all
next
  case False
  obtain e where "validate_request now nonce timestamp chain_id rp = (Inl e, rp)" using validate_request_rejects [OF False] by blast
  then show ?thesis by (intro reject) simp
qed

lemma guard_inv_step:
  assumes "guard_inv rp0 s"
  shows "guard_inv rp0 (guard_step q s)"
proof -
  obtain rp accepted where s: "s = (rp, accepted)" by (cases s)
  obtain now nonce timestamp chain_id where q: "q = (now, nonce, timestamp, chain_id)" by (cases q)
  show ?thesis
    unfolding q s
  proof (cases rule: guard_step_cases [of now nonce timestamp chain_id rp accepted])
    case accept
    have "registry.feed_inv (max_entries (nonces rp0)) (nonces rp, map nonce_of accepted)" using assms by (simp add: guard_inv_def s)
    then have "registry.feed_inv (max_entries (nonces rp0)) (snd (check_nonce nonce (nonces rp)), nonce # map nonce_of accepted)"
      using registry.feed_inv_step [of _ "(nonces rp, map nonce_of accepted)" nonce] accept(2)
      by (simp add: registry.feed_def case_prod_unfold)
    then show "guard_inv rp0 (guard_step (now, nonce, timestamp, chain_id) (rp, accepted))"
      unfolding accept(1) using assms accept(3,4) by (simp add: guard_inv_def s q nonce_of_def)
  next
    case reject
    then show "guard_inv rp0 (guard_step (now, nonce, timestamp, chain_id) (rp, accepted))" using assms by (simp only: s)
  qed
qed

lemma guard_run_inv: "nonces rp = registry_new n \<Longrightarrow> guard_inv rp (guard_run rp reqs)"
  by (induction reqs rule: rev_induct) (simp_all add: guard_run_def guard_inv_start guard_inv_step del: guard_step.simps)

text \<open>A timestamp is fresh when it differs from the clock by the maximal age at most.\<close>

lemma check_timestamp_iff: "check_timestamp now t age \<longleftrightarrow> now \<le> t + age \<and> t \<le> now + age"
  by (auto simp: check_timestamp_def)

lemma validate_request_iff:
  assumes "guard_inv rp0 (rp, accepted)"
  shows "fst (validate_request now nonce timestamp chain_id rp) = Inr () \<longleftrightarrow>
    chain_id = expected_chain_id rp0 \<and> now \<le> timestamp + max_request_age_secs rp0 \<and> timestamp \<le> now + max_request_age_secs rp0
    \<and> nonce \<notin> set (take (max 1 (max_entries (nonces rp0))) (map nonce_of accepted))"
proof -
  have inv: "registry_inv (map nonce_of accepted) (nonces rp)" "max_entries (nonces rp) = max_entries (nonces rp0)"
    "max_request_age_secs rp = max_request_age_secs rp0" "expected_chain_id rp = expected_chain_id rp0"
    using assms guard_inv_registry [OF assms] by (simp_all add: guard_inv_def)
  have "fst (validate_request now nonce timestamp chain_id rp) = Inr () \<longleftrightarrow>
      chain_id = expected_chain_id rp \<and> check_timestamp now timestamp (max_request_age_secs rp) \<and> fst (check_nonce nonce (nonces rp))"
    using validate_request_accepts [of chain_id rp now timestamp nonce] validate_request_rejects [of chain_id rp now timestamp nonce] by fastforce
  then show ?thesis unfolding check_nonce_accepts [OF inv(1)] check_timestamp_iff inv(2-4) by blast
qed

text \<open>Two accepted requests with the same timestamp are close in time.\<close>

lemma accepted_close:
  assumes "guard_inv rp0 (rp, accepted)" "(now, n, t, c) \<in> set accepted" "(now', n', t, c') \<in> set accepted"
  shows "now' \<le> now + 2 * max_request_age_secs rp0"
proof -
  have "check_timestamp now t (max_request_age_secs rp0)" "check_timestamp now' t (max_request_age_secs rp0)"
    using assms unfolding guard_inv_def by auto
  then show ?thesis by (simp add: check_timestamp_iff)
qed

end
