(* ===== verification/Tree_Model.thy ===== *)
theory Tree_Model
  imports Prelude_ZK Net_Addr
begin

text \<open>
  The model loader and the inference of the enclave (\<open>tee/enclave/src/model.rs\<close>): XGBoost models arrive as arrays of
  nodes, LightGBM models as nested JSON objects that \<open>flatten_lgb_tree\<close> numbers breadth first; both become the same
  array form, which \<open>traverse_tree\<close> walks by index.

  Not fixed by the model: the floating-point operations (\<open>f64_ops\<close>), the deserialiser \<open>serde_json::from_str\<close>, the number
  representation of \<open>serde_json\<close> with its accessors (\<open>num_ops\<close>) and the parser of floating-point text. A JSON value is
  the value type that the library documents; the entries of an object have distinct keys there, so the first entry of a
  key is the only one.

  \<open>traverse_tree\<close> is a loop over indices that nothing bounds: it is the partial function \<open>traverse_loop\<close>, whose value
  \<open>None\<close> means that the loop does not end. The laws connect the array form with the tree it came from (\<open>dtree\<close>).
\<close>

section \<open>Data\<close>

type_synonym i32 = "32 word"

datatype 'n Json =
    JNull
  | JBool bool
  | JNumber 'n
  | JString string
  | JArray "'n Json list"
  | JObject "(string \<times> 'n Json) list"

record 'f f64_ops =
  f_zero :: 'f
  f_sum_start :: 'f
  f_add :: "'f \<Rightarrow> 'f \<Rightarrow> 'f"
  f_lt :: "'f \<Rightarrow> 'f \<Rightarrow> bool"

record ('n, 'f) num_ops =
  num_f64 :: "'n \<Rightarrow> 'f option"
  num_i64 :: "'n \<Rightarrow> int option"
  num_u64 :: "'n \<Rightarrow> nat option"

text \<open>\<open>Value::get(key)\<close> and the number accessors of \<open>Value\<close>.\<close>

fun json_get :: "string \<Rightarrow> 'n Json \<Rightarrow> 'n Json option" where
  "json_get k (JObject kvs) = map_of kvs k"
| "json_get k _ = None"

fun json_number :: "('n \<Rightarrow> 'a option) \<Rightarrow> 'n Json \<Rightarrow> 'a option" where
  "json_number f (JNumber n) = f n"
| "json_number f _ = None"

record 'f Tree =
  left_children :: "i32 list"
  right_children :: "i32 list"
  split_indices :: "nat list"
  split_conditions :: "'f list"
  base_weights :: "'f list"

record 'f XgboostModel =
  num_features :: nat
  num_classes :: nat
  base_score :: 'f
  trees :: "'f Tree list"

datatype ModelFormat = Auto | Xgboost | Lightgbm

definition ModelFormat_from_str :: "string \<Rightarrow> ModelFormat option" where
  "ModelFormat_from_str s =
     (let s = to_lowercase s
      in if s = ''auto'' then Some Auto
         else if s = ''xgboost'' then Some Xgboost
         else if s = ''lightgbm'' \<or> s = ''lgbm'' then Some Lightgbm
         else None)"

text \<open>The errors of the loader, and its panics.\<close>

datatype model_error =
    Invalid_leaf_value
  | Missing_split_feature nat
  | Missing_threshold nat
  | Missing_left_child nat
  | Missing_right_child nat
  | Lgb_no_nodes
  | Lgb_json string
  | Lgb_no_trees
  | Lgb_no_structure nat
  | Xgb_json string
  | Invalid_num_feature
  | Invalid_num_class
  | Invalid_base_score
  | Xgb_tree_empty nat
  | Xgb_no_trees
  | Neither_format model_error model_error
  | Model_panic panic

section \<open>Flattening of LightGBM trees\<close>

text \<open>\<open>x as usize\<close> for a signed integer, and the five \<open>push\<close> calls that allocate a node.\<close>

definition as_usize :: "int \<Rightarrow> nat" where
  "as_usize x = nat (x mod 2 ^ 64)"

definition push_node :: "'f f64_ops \<Rightarrow> 'f Tree \<Rightarrow> 'f Tree" where
  "push_node fo t =
     t\<lparr> left_children := left_children t @ [0], right_children := right_children t @ [0],
       split_indices := split_indices t @ [0], split_conditions := split_conditions t @ [f_zero fo],
       base_weights := base_weights t @ [f_zero fo] \<rparr>"

definition empty_tree :: "'f Tree" where
  "empty_tree = \<lparr> left_children = [], right_children = [], split_indices = [], split_conditions = [], base_weights = [] \<rparr>"

text \<open>The five assignments \<open>xs[idx] = v\<close>: each panics when \<open>idx\<close> is out of range.\<close>

definition set_node :: "nat \<Rightarrow> i32 \<Rightarrow> i32 \<Rightarrow> nat \<Rightarrow> 'f \<Rightarrow> 'f \<Rightarrow> 'f Tree \<Rightarrow> model_error + 'f Tree" where
  "set_node i l r s c w t =
     (if i < length (left_children t) \<and> i < length (right_children t) \<and> i < length (split_indices t)
         \<and> i < length (split_conditions t) \<and> i < length (base_weights t)
      then Inr (t\<lparr> left_children := (left_children t)[i := l], right_children := (right_children t)[i := r],
                  split_indices := (split_indices t)[i := s], split_conditions := (split_conditions t)[i := c],
                  base_weights := (base_weights t)[i := w] \<rparr>)
      else Inl (Model_panic Index_Out_Of_Bounds))"

lemma size_map_of: "map_of kvs k = Some v \<Longrightarrow> size v < size (JObject kvs)"
  by (induction kvs) (auto split: if_splits)

lemma json_get_size: "json_get k j = Some v \<Longrightarrow> size v < size j"
  by (cases j) (auto dest: size_map_of)

text \<open>Two different fields of one object.\<close>

lemma size_map_of2: "map_of kvs a = Some u \<Longrightarrow> map_of kvs b = Some v \<Longrightarrow> a \<noteq> b \<Longrightarrow> Suc (size u + size v) < size (JObject kvs)"
  by (induction kvs) (auto split: if_splits dest!: size_map_of)

lemma children_size:
  "json_get ''left_child'' j = Some u \<Longrightarrow> json_get ''right_child'' j = Some v \<Longrightarrow> Suc (size u + size v) < size j"
  by (cases j) (auto dest: size_map_of2)

text \<open>The loop over the queue; the list is the part of the queue from \<open>head\<close> on.\<close>

function flatten_loop :: "'f f64_ops \<Rightarrow> ('n, 'f) num_ops \<Rightarrow> ('n Json \<times> nat) list \<Rightarrow> 'f Tree \<Rightarrow> model_error + 'f Tree" where
  "flatten_loop fo no [] t = Inr t"
| "flatten_loop fo no ((node, i) # queue) t =
     (case json_get ''leaf_value'' node of
        Some v \<Rightarrow>
          (case json_number (num_f64 no) v of
             None \<Rightarrow> Inl Invalid_leaf_value
           | Some leaf_val \<Rightarrow>
               (case set_node i (- 1) (- 1) 0 (f_zero fo) leaf_val t of
                  Inl e \<Rightarrow> Inl e
                | Inr t \<Rightarrow> flatten_loop fo no queue t))
      | None \<Rightarrow>
          (case Option.bind (json_get ''split_feature'' node) (json_number (num_i64 no)) of
             None \<Rightarrow> Inl (Missing_split_feature i)
           | Some sf \<Rightarrow>
          (case Option.bind (json_get ''threshold'' node) (json_number (num_f64 no)) of
             None \<Rightarrow> Inl (Missing_threshold i)
           | Some threshold \<Rightarrow>
          (case json_get ''left_child'' node of
             None \<Rightarrow> Inl (Missing_left_child i)
           | Some left_child_json \<Rightarrow>
          (case json_get ''right_child'' node of
             None \<Rightarrow> Inl (Missing_right_child i)
           | Some right_child_json \<Rightarrow>
               (let left_idx = length (left_children t);
                    t = push_node fo t;
                    right_idx = length (left_children t);
                    t = push_node fo t
                in (case set_node i (word_of_nat left_idx) (word_of_nat right_idx) (as_usize sf) threshold (f_zero fo) t of
                      Inl e \<Rightarrow> Inl e
                    | Inr t \<Rightarrow>
                        flatten_loop fo no (queue @ [(left_child_json, left_idx), (right_child_json, right_idx)]) t)))))))"
  by pat_completeness auto

termination
  by (relation "measure (\<lambda>(fo, no, queue, t). sum_list (map (\<lambda>(j, i). Suc (size j)) queue))")
     (auto dest: children_size)

definition flatten_lgb_tree :: "'f f64_ops \<Rightarrow> ('n, 'f) num_ops \<Rightarrow> 'n Json \<Rightarrow> model_error + 'f Tree" where
  "flatten_lgb_tree fo no root =
     (case flatten_loop fo no [(root, 0)] (push_node fo empty_tree) of
        Inl e \<Rightarrow> Inl e
      | Inr t \<Rightarrow> if left_children t = [] then Inl Lgb_no_nodes else Inr t)"

section \<open>Parsing of models\<close>

text \<open>The deserialised LightGBM model.\<close>

record 'n LgbTreeInfo =
  tree_structure :: "'n Json option"

record 'n LgbJsonModel =
  lgb_tree_info :: "'n LgbTreeInfo list"
  max_feature_idx :: "int option"
  lgb_num_class :: "int option"
  num_tree_per_iteration :: "int option"

function scan_max_feature :: "('n, 'f) num_ops \<Rightarrow> 'n Json \<Rightarrow> nat \<Rightarrow> nat" where
  "scan_max_feature no node max_feat =
     (let max_feat = (case Option.bind (json_get ''split_feature'' node) (json_number (num_u64 no)) of
                        Some f \<Rightarrow> if max_feat < f then f else max_feat
                      | None \<Rightarrow> max_feat);
          max_feat = (case json_get ''left_child'' node of
                        Some left \<Rightarrow> scan_max_feature no left max_feat
                      | None \<Rightarrow> max_feat)
      in (case json_get ''right_child'' node of
            Some right \<Rightarrow> scan_max_feature no right max_feat
          | None \<Rightarrow> max_feat))"
  by auto

termination
  by (relation "measure (\<lambda>(no, node, m). size node)") (auto dest: json_get_size)

definition lgb_num_features :: "('n, 'f) num_ops \<Rightarrow> 'n LgbJsonModel \<Rightarrow> nat" where
  "lgb_num_features no raw =
     (case max_feature_idx raw of
        Some mfi \<Rightarrow> as_usize (mfi + 1)
      | None \<Rightarrow>
          (fold (\<lambda>ti m. case tree_structure ti of Some ts \<Rightarrow> scan_max_feature no ts m | None \<Rightarrow> m)
             (lgb_tree_info raw) 0 + 1) mod 2 ^ 64)"

definition lgb_num_classes :: "'n LgbJsonModel \<Rightarrow> nat" where
  "lgb_num_classes raw =
     (let num_tree_per_iter = as_usize (case num_tree_per_iteration raw of Some k \<Rightarrow> k | None \<Rightarrow> 1)
      in if num_tree_per_iter \<le> 1 then 2 else num_tree_per_iter)"

text \<open>The loop over \<open>tree_info\<close>; \<open>i\<close> is the index of the first element.\<close>

fun lgb_trees :: "'f f64_ops \<Rightarrow> ('n, 'f) num_ops \<Rightarrow> nat \<Rightarrow> 'n LgbTreeInfo list \<Rightarrow> model_error + 'f Tree list" where
  "lgb_trees fo no i [] = Inr []"
| "lgb_trees fo no i (ti # tis) =
     (case tree_structure ti of
        None \<Rightarrow> Inl (Lgb_no_structure i)
      | Some ts \<Rightarrow>
          (case flatten_lgb_tree fo no ts of
             Inl e \<Rightarrow> Inl e
           | Inr t \<Rightarrow> (case lgb_trees fo no (Suc i) tis of Inl e \<Rightarrow> Inl e | Inr ts \<Rightarrow> Inr (t # ts))))"

definition parse_lightgbm ::
  "'f f64_ops \<Rightarrow> ('n, 'f) num_ops \<Rightarrow> (string \<Rightarrow> string + 'n LgbJsonModel) \<Rightarrow> string \<Rightarrow> model_error + 'f XgboostModel" where
  "parse_lightgbm fo no lgb_json json_str =
     (case lgb_json json_str of
        Inl e \<Rightarrow> Inl (Lgb_json e)
      | Inr raw \<Rightarrow>
          if lgb_tree_info raw = [] then Inl Lgb_no_trees
          else (case lgb_trees fo no 0 (lgb_tree_info raw) of
                  Inl e \<Rightarrow> Inl e
                | Inr ts \<Rightarrow>
                    Inr \<lparr> num_features = lgb_num_features no raw, num_classes = lgb_num_classes raw,
                          base_score = f_zero fo, trees = ts \<rparr>))"

text \<open>The deserialised XGBoost model, from the top: \<open>learner\<close> with its parameters and its trees.\<close>

record XgbModelParam =
  num_feature :: string
  num_class :: string
  base_score_str :: string

record 'f XgbTree =
  xgb_left_children :: "i32 list"
  xgb_right_children :: "i32 list"
  xgb_split_indices :: "i32 list"
  xgb_split_conditions :: "'f list"
  xgb_base_weights :: "'f list"

record 'f XgbJsonModel =
  learner_model_param :: XgbModelParam
  xgb_trees :: "'f XgbTree list"

text \<open>\<open>str::parse::<usize>()\<close>: an optional plus sign, then decimal digits, within 64 bits.\<close>

definition parse_usize :: "string \<Rightarrow> nat option" where
  "parse_usize s =
     (let ds = (case s of c # cs \<Rightarrow> if c = CHR ''+'' then cs else s | [] \<Rightarrow> [])
      in if ds = [] \<or> list_ex (\<lambda>c. to_digit 10 c = None) ds then None
         else let v = foldl (\<lambda>v c. v * 10 + the (to_digit 10 c)) 0 ds in if v < 2 ^ 64 then Some v else None)"

fun xgb_tree_list :: "nat \<Rightarrow> 'f XgbTree list \<Rightarrow> model_error + 'f Tree list" where
  "xgb_tree_list i [] = Inr []"
| "xgb_tree_list i (x # xs) =
     (if xgb_left_children x = [] then Inl (Xgb_tree_empty i)
      else (case xgb_tree_list (Suc i) xs of
              Inl e \<Rightarrow> Inl e
            | Inr ts \<Rightarrow>
                Inr (\<lparr> left_children = xgb_left_children x, right_children = xgb_right_children x,
                       split_indices = map (\<lambda>w. as_usize (sint w)) (xgb_split_indices x),
                       split_conditions = xgb_split_conditions x, base_weights = xgb_base_weights x \<rparr> # ts)))"

definition parse_xgboost ::
  "(string \<Rightarrow> 'f option) \<Rightarrow> (string \<Rightarrow> string + 'f XgbJsonModel) \<Rightarrow> string \<Rightarrow> model_error + 'f XgboostModel" where
  "parse_xgboost parse_f64 xgb_json json_str =
     (case xgb_json json_str of
        Inl e \<Rightarrow> Inl (Xgb_json e)
      | Inr raw \<Rightarrow>
          let param = learner_model_param raw
          in (case parse_usize (num_feature param) of
                None \<Rightarrow> Inl Invalid_num_feature
              | Some nf \<Rightarrow>
             (case (if num_class param = [] \<or> num_class param = ''0'' then Some 2 else parse_usize (num_class param)) of
                None \<Rightarrow> Inl Invalid_num_class
              | Some nc \<Rightarrow>
             (case parse_f64 (base_score_str param) of
                None \<Rightarrow> Inl Invalid_base_score
              | Some bs \<Rightarrow>
             (case xgb_tree_list 0 (xgb_trees raw) of
                Inl e \<Rightarrow> Inl e
              | Inr ts \<Rightarrow>
                  if ts = [] then Inl Xgb_no_trees
                  else Inr \<lparr> num_features = nf, num_classes = nc, base_score = bs, trees = ts \<rparr>)))))"

definition parse_model_with_format ::
  "'f f64_ops \<Rightarrow> ('n, 'f) num_ops \<Rightarrow> (string \<Rightarrow> 'f option) \<Rightarrow> (string \<Rightarrow> string + 'f XgbJsonModel)
   \<Rightarrow> (string \<Rightarrow> string + 'n LgbJsonModel) \<Rightarrow> string \<Rightarrow> ModelFormat \<Rightarrow> model_error + 'f XgboostModel" where
  "parse_model_with_format fo no parse_f64 xgb_json lgb_json json_str format =
     (case format of
        Xgboost \<Rightarrow> parse_xgboost parse_f64 xgb_json json_str
      | Lightgbm \<Rightarrow> parse_lightgbm fo no lgb_json json_str
      | Auto \<Rightarrow>
          (case parse_xgboost parse_f64 xgb_json json_str of
             Inr model \<Rightarrow> Inr model
           | Inl xgb_err \<Rightarrow>
               (case parse_lightgbm fo no lgb_json json_str of
                  Inr model \<Rightarrow> Inr model
                | Inl lgb_err \<Rightarrow> Inl (Neither_format xgb_err lgb_err))))"

section \<open>Inference\<close>

text \<open>A run that may panic, or not end (\<open>None\<close>).\<close>

type_synonym 'a run = "(panic + 'a) option"

definition run_bind :: "'a run \<Rightarrow> ('a \<Rightarrow> 'b run) \<Rightarrow> 'b run" where
  "run_bind m f = (case m of None \<Rightarrow> None | Some (Inl p) \<Rightarrow> Some (Inl p) | Some (Inr x) \<Rightarrow> f x)"

definition run_idx :: "'a list \<Rightarrow> nat \<Rightarrow> 'a run" where
  "run_idx xs i = Some (if i < length xs then Inr (xs ! i) else Inl Index_Out_Of_Bounds)"

lemma run_bind_simps [simp]:
  "run_bind None f = None" "run_bind (Some (Inl p)) f = Some (Inl p)" "run_bind (Some (Inr x)) f = f x"
  by (simp_all add: run_bind_def)

lemma run_idx_in_range [simp]: "i < length xs \<Longrightarrow> run_idx xs i = Some (Inr (xs ! i))"
  by (simp add: run_idx_def)

lemma run_bind_mono [partial_function_mono]:
  assumes "mono_option B" and "\<And>y. mono_option (\<lambda>f. C y f)"
  shows "mono_option (\<lambda>f. run_bind (B f) (\<lambda>y. C y f))"
proof (rule monotoneI)
  fix f g :: "'a \<Rightarrow> 'b option"
  assume fg: "fun_ord option_ord f g"
  with assms have B: "option_ord (B f) (B g)" and C: "option_ord (C y f) (C y g)" for y by (auto dest: monotoneD)
  show "option_ord (run_bind (B f) (\<lambda>y. C y f)) (run_bind (B g) (\<lambda>y. C y g))"
  proof (cases "B f")
    case None
    then show ?thesis by (simp add: flat_ord_def)
  next
    case (Some m)
    then have "B g = Some m" using B by (auto simp: flat_ord_def)
    with Some C show ?thesis by (cases m) (auto simp: flat_ord_def)
  qed
qed

partial_function (option) traverse_loop :: "'f f64_ops \<Rightarrow> 'f Tree \<Rightarrow> 'f list \<Rightarrow> nat \<Rightarrow> 'f run" where
  "traverse_loop fo tree features node =
     run_bind (run_idx (left_children tree) node) (\<lambda>l.
       if l = - 1 then run_idx (base_weights tree) node
       else run_bind (run_idx (split_indices tree) node) (\<lambda>feat_idx.
            run_bind (run_idx (split_conditions tree) node) (\<lambda>threshold.
            run_bind (run_idx features feat_idx) (\<lambda>x.
              if f_lt fo x threshold then traverse_loop fo tree features (as_usize (sint l))
              else run_bind (run_idx (right_children tree) node) (\<lambda>r.
                     traverse_loop fo tree features (as_usize (sint r)))))))"

declare traverse_loop.simps [code]

definition traverse_tree :: "'f f64_ops \<Rightarrow> 'f Tree \<Rightarrow> 'f list \<Rightarrow> 'f run" where
  "traverse_tree fo tree features = traverse_loop fo tree features 0"

text \<open>The sum of the tree outputs, and the loop of the multi-class case; \<open>i\<close> is the index of the first tree.\<close>

fun sum_trees :: "'f f64_ops \<Rightarrow> 'f list \<Rightarrow> 'f Tree list \<Rightarrow> 'f \<Rightarrow> 'f run" where
  "sum_trees fo features [] acc = Some (Inr acc)"
| "sum_trees fo features (t # ts) acc =
     run_bind (traverse_tree fo t features) (\<lambda>y. sum_trees fo features ts (f_add fo acc y))"

fun class_scores :: "'f f64_ops \<Rightarrow> 'f list \<Rightarrow> nat \<Rightarrow> nat \<Rightarrow> 'f Tree list \<Rightarrow> 'f list \<Rightarrow> 'f list run" where
  "class_scores fo features nc i [] scores = Some (Inr scores)"
| "class_scores fo features nc i (t # ts) scores =
     run_bind (traverse_tree fo t features) (\<lambda>y.
       run_bind (run_idx scores (i mod nc)) (\<lambda>s.
         class_scores fo features nc (Suc i) ts (scores[i mod nc := f_add fo s y])))"

definition predict :: "'f f64_ops \<Rightarrow> 'f XgboostModel \<Rightarrow> 'f list \<Rightarrow> 'f list run" where
  "predict fo model features =
     (if num_classes model \<le> 2
      then run_bind (sum_trees fo features (trees model) (f_sum_start fo)) (\<lambda>sum. Some (Inr [f_add fo sum (base_score model)]))
      else if 2 ^ 63 \<le> 8 * num_classes model then Some (Inl Capacity_Overflow)
      else class_scores fo features (num_classes model) 0 (trees model) (replicate (num_classes model) (base_score model)))"

section \<open>Decision trees\<close>

text \<open>What a LightGBM tree means: a decision tree, its evaluation and its size.\<close>

datatype 'f dtree = Leaf 'f | Split nat 'f "'f dtree" "'f dtree"

function lgb_dtree :: "('n, 'f) num_ops \<Rightarrow> 'n Json \<Rightarrow> 'f dtree option" where
  "lgb_dtree no node =
     (case json_get ''leaf_value'' node of
        Some v \<Rightarrow> map_option Leaf (json_number (num_f64 no) v)
      | None \<Rightarrow>
          (case (Option.bind (json_get ''split_feature'' node) (json_number (num_i64 no)),
                 Option.bind (json_get ''threshold'' node) (json_number (num_f64 no)),
                 json_get ''left_child'' node, json_get ''right_child'' node) of
             (Some f, Some c, Some l, Some r) \<Rightarrow>
               (case (lgb_dtree no l, lgb_dtree no r) of
                  (Some dl, Some dr) \<Rightarrow> Some (Split (as_usize f) c dl dr)
                | _ \<Rightarrow> None)
           | _ \<Rightarrow> None))"
  by auto

termination
  by (relation "measure (\<lambda>(no, node). size node)") (auto dest: json_get_size [OF sym])

declare lgb_dtree.simps [simp del]

fun dtree_eval :: "'f f64_ops \<Rightarrow> 'f list \<Rightarrow> 'f dtree \<Rightarrow> 'f run" where
  "dtree_eval fo features (Leaf v) = Some (Inr v)"
| "dtree_eval fo features (Split f c l r) =
     run_bind (run_idx features f) (\<lambda>x. if f_lt fo x c then dtree_eval fo features l else dtree_eval fo features r)"

fun dnodes :: "'f dtree \<Rightarrow> nat" where
  "dnodes (Leaf v) = 1"
| "dnodes (Split f c l r) = 1 + dnodes l + dnodes r"

fun dfeatures :: "'f dtree \<Rightarrow> nat set" where
  "dfeatures (Leaf v) = {}"
| "dfeatures (Split f c l r) = insert f (dfeatures l \<union> dfeatures r)"

lemma dtree_eval_total: "\<forall>f\<in>dfeatures d. f < length features \<Longrightarrow> \<exists>y. dtree_eval fo features d = Some (Inr y)"
  by (induction d) auto

lemma lgb_dtree_leaf:
  "json_get ''leaf_value'' node = Some v \<Longrightarrow> lgb_dtree no node = map_option Leaf (json_number (num_f64 no) v)"
  by (subst lgb_dtree.simps) simp

lemma lgb_dtree_split:
  assumes "json_get ''leaf_value'' node = None"
    "Option.bind (json_get ''split_feature'' node) (json_number (num_i64 no)) = Some f"
    "Option.bind (json_get ''threshold'' node) (json_number (num_f64 no)) = Some c"
    "json_get ''left_child'' node = Some l" "json_get ''right_child'' node = Some r"
  shows "lgb_dtree no node =
    (case (lgb_dtree no l, lgb_dtree no r) of (Some dl, Some dr) \<Rightarrow> Some (Split (as_usize f) c dl dr) | _ \<Rightarrow> None)"
  using assms by (subst lgb_dtree.simps) simp

section \<open>The array form\<close>

definition tree_len :: "'f Tree \<Rightarrow> nat" where
  "tree_len t = length (left_children t)"

definition same_lengths :: "'f Tree \<Rightarrow> bool" where
  "same_lengths t \<longleftrightarrow>
     length (right_children t) = tree_len t \<and> length (split_indices t) = tree_len t
     \<and> length (split_conditions t) = tree_len t \<and> length (base_weights t) = tree_len t"

definition node_at :: "'f Tree \<Rightarrow> nat \<Rightarrow> i32 \<times> i32 \<times> nat \<times> 'f \<times> 'f" where
  "node_at t i = (left_children t ! i, right_children t ! i, split_indices t ! i, split_conditions t ! i, base_weights t ! i)"

text \<open>The children of an inner node are nodes behind it.\<close>

definition child_ok :: "'f Tree \<Rightarrow> nat \<Rightarrow> i32 \<Rightarrow> bool" where
  "child_ok t i w \<longleftrightarrow> i < as_usize (sint w) \<and> as_usize (sint w) < tree_len t"

definition tree_ok :: "nat \<Rightarrow> 'f Tree \<Rightarrow> bool" where
  "tree_ok nf t \<longleftrightarrow>
     0 < tree_len t \<and> same_lengths t
     \<and> (\<forall>i < tree_len t. left_children t ! i = - 1
          \<or> child_ok t i (left_children t ! i) \<and> child_ok t i (right_children t ! i) \<and> split_indices t ! i < nf)"

text \<open>Node \<open>i\<close> of the arrays is the root of a copy of a decision tree.\<close>

fun stands_for :: "'f Tree \<Rightarrow> nat \<Rightarrow> 'f dtree \<Rightarrow> bool" where
  "stands_for t i (Leaf v) \<longleftrightarrow> i < tree_len t \<and> left_children t ! i = - 1 \<and> base_weights t ! i = v"
| "stands_for t i (Split f c l r) \<longleftrightarrow>
     i < tree_len t \<and> split_indices t ! i = f \<and> split_conditions t ! i = c
     \<and> (\<exists>li ri. i < li \<and> i < ri \<and> li < tree_len t \<and> ri < tree_len t
          \<and> left_children t ! i = word_of_nat li \<and> right_children t ! i = word_of_nat ri
          \<and> stands_for t li l \<and> stands_for t ri r)"

lemma stands_for_SplitI:
  assumes "i < tree_len t" "i < li" "i < ri" "li < tree_len t" "ri < tree_len t" "stands_for t li l" "stands_for t ri r"
    "node_at t i = (word_of_nat li, word_of_nat ri, f, c, w)"
  shows "stands_for t i (Split f c l r)"
  using assms by (simp add: node_at_def) blast

text \<open>Every index below \<open>2\<^sup>3\<^sup>1\<close> survives the cast to \<open>i32\<close> and back.\<close>

lemma child_index:
  assumes "j < 2 ^ 31"
  shows "as_usize (sint (word_of_nat j :: i32)) = j" "(word_of_nat j :: i32) \<noteq> - 1"
proof -
  have "sint (word_of_nat j :: i32) = int j"
    using assms by (simp add: signed_of_nat signed_take_bit_int_eq_self)
  then show "as_usize (sint (word_of_nat j :: i32)) = j" "(word_of_nat j :: i32) \<noteq> - 1"
    using assms by (auto simp: as_usize_def dest: arg_cong [of _ _ sint])
qed

lemma traverse_stands_for:
  assumes "stands_for t i d" "same_lengths t" "tree_len t \<le> 2 ^ 31"
  shows "traverse_loop fo t features i = dtree_eval fo features d"
  using assms(1)
proof (induction d arbitrary: i)
  case (Leaf v)
  then show ?case using assms(2)
    by (subst traverse_loop.simps) (simp add: tree_len_def same_lengths_def)
next
  case (Split f c l r)
  then obtain li ri where lr: "i < tree_len t" "split_indices t ! i = f" "split_conditions t ! i = c"
      "li < tree_len t" "ri < tree_len t" "left_children t ! i = word_of_nat li" "right_children t ! i = word_of_nat ri"
      "stands_for t li l" "stands_for t ri r" by auto
  have idx: "as_usize (sint (word_of_nat li :: i32)) = li" "as_usize (sint (word_of_nat ri :: i32)) = ri"
      "(word_of_nat li :: i32) \<noteq> - 1"
    using lr assms(3) child_index by auto
  show ?case using lr idx assms(2) Split.IH
    by (subst traverse_loop.simps) (auto simp: tree_len_def same_lengths_def intro!: arg_cong [where f = "run_bind _"])
qed

section \<open>Flattening\<close>

text \<open>One step of the loop on the arrays: the length, the written node and the other nodes.\<close>

lemma push_node_laws [simp]:
  "tree_len (push_node fo t) = Suc (tree_len t)"
  "same_lengths t \<Longrightarrow> same_lengths (push_node fo t)"
  "same_lengths t \<Longrightarrow> i < tree_len t \<Longrightarrow> node_at (push_node fo t) i = node_at t i"
  by (simp_all add: tree_len_def same_lengths_def push_node_def node_at_def nth_append)

lemma set_node_in_range:
  assumes "same_lengths t" "i < tree_len t"
  obtains t' where "set_node i l r s c w t = Inr t'" "same_lengths t'" "tree_len t' = tree_len t"
    "node_at t' i = (l, r, s, c, w)" "\<And>k. k \<noteq> i \<Longrightarrow> node_at t' k = node_at t k"
  using assms by (auto simp: set_node_def same_lengths_def tree_len_def node_at_def)

text \<open>The queue of the loop: nodes that are allocated, each once.\<close>

definition queue_ok :: "('n Json \<times> nat) list \<Rightarrow> 'f Tree \<Rightarrow> bool" where
  "queue_ok q t \<longleftrightarrow> same_lengths t \<and> distinct (map snd q) \<and> (\<forall>i\<in>snd ` set q. i < tree_len t)"

definition queue_ok_step ::
  "('n Json \<times> nat) list \<Rightarrow> nat \<Rightarrow> 'n Json \<Rightarrow> 'n Json \<Rightarrow> 'f Tree \<Rightarrow> 'f Tree \<Rightarrow> bool" where
  "queue_ok_step q i l r t t' \<longleftrightarrow>
     queue_ok (q @ [(l, tree_len t), (r, Suc (tree_len t))]) t' \<and> tree_len t' = Suc (Suc (tree_len t))
     \<and> (\<forall>k < tree_len t. k \<noteq> i \<longrightarrow> node_at t' k = node_at t k)"

text \<open>The cases of one step on a well-formed queue.\<close>

lemma flatten_step_cases:
  assumes "queue_ok ((node, i) # q) t"
  obtains
    (leaf) v x t' where "json_get ''leaf_value'' node = Some v" "json_number (num_f64 no) v = Some x"
      "lgb_dtree no node = Some (Leaf x)" "flatten_loop fo no ((node, i) # q) t = flatten_loop fo no q t'"
      "queue_ok q t'" "tree_len t' = tree_len t" "node_at t' i = (- 1, - 1, 0, f_zero fo, x)"
      "\<And>k. k \<noteq> i \<Longrightarrow> node_at t' k = node_at t k"
  | (split) f c l r t' where "lgb_dtree no node =
        (case (lgb_dtree no l, lgb_dtree no r) of (Some dl, Some dr) \<Rightarrow> Some (Split (as_usize f) c dl dr) | _ \<Rightarrow> None)"
      "flatten_loop fo no ((node, i) # q) t = flatten_loop fo no (q @ [(l, tree_len t), (r, Suc (tree_len t))]) t'"
      "node_at t' i = (word_of_nat (tree_len t), word_of_nat (Suc (tree_len t)), as_usize f, c, f_zero fo)"
      "queue_ok_step q i l r t t'" "Suc (size l + size r) < size node"
  | (error) e where "lgb_dtree no node = None" "flatten_loop fo no ((node, i) # q) t = Inl e" "\<forall>p. e \<noteq> Model_panic p"
proof -
  have q: "same_lengths t" "i < tree_len t" "i \<notin> snd ` set q" "queue_ok q t"
    using assms by (auto simp: queue_ok_def)
  let ?sf = "Option.bind (json_get ''split_feature'' node) (json_number (num_i64 no))"
  let ?th = "Option.bind (json_get ''threshold'' node) (json_number (num_f64 no))"
  show thesis
  proof (cases "json_get ''leaf_value'' node")
    case (Some v)
    show thesis
    proof (cases "json_number (num_f64 no) v")
      case None
      then show thesis using Some by (intro error [of Invalid_leaf_value]) (simp_all add: lgb_dtree_leaf)
    next
      case x: (Some x)
      obtain t' where t': "set_node i (- 1) (- 1) 0 (f_zero fo) x t = Inr t'" "same_lengths t'" "tree_len t' = tree_len t"
          "node_at t' i = (- 1, - 1, 0, f_zero fo, x)" "\<And>k. k \<noteq> i \<Longrightarrow> node_at t' k = node_at t k"
        using set_node_in_range [OF q(1,2), of "- 1" "- 1" 0 "f_zero fo" x] by blast
      show thesis
        by (rule leaf [OF Some x, of t']) (use Some x t' q in \<open>auto simp: lgb_dtree_leaf queue_ok_def\<close>)
    qed
  next
    case None
    consider (missing) "?sf = None \<or> ?th = None \<or> json_get ''left_child'' node = None \<or> json_get ''right_child'' node = None"
      | (ok) f c l r where "?sf = Some f" "?th = Some c" "json_get ''left_child'' node = Some l" "json_get ''right_child'' node = Some r"
      by (metis not_None_eq)
    then show thesis
    proof cases
      case missing
      have "lgb_dtree no node = None" using None missing
        by (subst lgb_dtree.simps) (auto split: option.split)
      moreover obtain e where "flatten_loop fo no ((node, i) # q) t = Inl e" "\<forall>p. e \<noteq> Model_panic p"
        using None missing by (cases ?sf; cases ?th; cases "json_get ''left_child'' node") auto
      ultimately show thesis by (rule error)
    next
      case ok
      obtain t' where t': "set_node i (word_of_nat (tree_len t)) (word_of_nat (Suc (tree_len t))) (as_usize f) c (f_zero fo)
            (push_node fo (push_node fo t)) = Inr t'" "same_lengths t'" "tree_len t' = tree_len (push_node fo (push_node fo t))"
          "node_at t' i = (word_of_nat (tree_len t), word_of_nat (Suc (tree_len t)), as_usize f, c, f_zero fo)"
          "\<And>k. k \<noteq> i \<Longrightarrow> node_at t' k = node_at (push_node fo (push_node fo t)) k"
        by (rule set_node_in_range [of "push_node fo (push_node fo t)" i]) (use q in auto)
      have len: "length (left_children t) = tree_len t" "length (left_children (push_node fo t)) = Suc (tree_len t)"
        by (simp_all flip: tree_len_def)
      show thesis
      proof (rule split)
        show "flatten_loop fo no ((node, i) # q) t = flatten_loop fo no (q @ [(l, tree_len t), (r, Suc (tree_len t))]) t'"
          using None ok t'(1) by (simp add: len Let_def)
        show "queue_ok_step q i l r t t'" using t' q assms by (fastforce simp: queue_ok_step_def queue_ok_def)
        show "Suc (size l + size r) < size node" using ok by (simp add: children_size)
      qed (use None ok t' in \<open>auto simp: lgb_dtree_split\<close>)
    qed
  qed
qed

declare flatten_loop.simps(2) [simp del]

text \<open>What the loop does from a well-formed queue: every queued node becomes a copy of its decision tree, every other
  allocated node keeps its contents, and the number of nodes is the number of nodes of the trees.\<close>

definition flattened :: "('n, 'f) num_ops \<Rightarrow> ('n Json \<times> nat) list \<Rightarrow> 'f Tree \<Rightarrow> 'f Tree \<Rightarrow> bool" where
  "flattened no q t t' \<longleftrightarrow>
     same_lengths t' \<and> tree_len t \<le> tree_len t'
     \<and> (\<forall>k < tree_len t. k \<notin> snd ` set q \<longrightarrow> node_at t' k = node_at t k)
     \<and> (\<forall>(j, i)\<in>set q. \<exists>d. lgb_dtree no j = Some d \<and> stands_for t' i d)
     \<and> tree_len t' + length q = tree_len t + sum_list (map (\<lambda>(j, i). dnodes (the (lgb_dtree no j))) q)"

lemma flattened_leaf:
  assumes "flattened no q t' tf" "queue_ok ((node, i) # q) t" "lgb_dtree no node = Some (Leaf x)"
    "tree_len t' = tree_len t" "node_at t' i = (- 1, - 1, 0, z, x)" "\<And>k. k \<noteq> i \<Longrightarrow> node_at t' k = node_at t k"
  shows "flattened no ((node, i) # q) t tf"
proof -
  have i: "i < tree_len t" "i \<notin> snd ` set q" using assms(2) by (auto simp: queue_ok_def)
  then have "node_at tf i = (- 1, - 1, 0, z, x)" "i < tree_len tf" using assms(1,4,5) by (auto simp: flattened_def)
  then have "stands_for tf i (Leaf x)" by (simp add: node_at_def)
  then show ?thesis using assms by (auto simp: flattened_def)
qed

lemma flattened_split:
  assumes fl: "flattened no (q @ [(l, tree_len t), (r, Suc (tree_len t))]) t' tf" and q: "queue_ok ((node, i) # q) t"
    and d: "lgb_dtree no node =
        (case (lgb_dtree no l, lgb_dtree no r) of (Some dl, Some dr) \<Rightarrow> Some (Split (as_usize f) c dl dr) | _ \<Rightarrow> None)"
    and n: "node_at t' i = (word_of_nat (tree_len t), word_of_nat (Suc (tree_len t)), as_usize f, c, z)"
    and st: "queue_ok_step q i l r t t'"
  shows "flattened no ((node, i) # q) t tf"
proof -
  have i: "i < tree_len t" "i \<notin> snd ` set q" using q by (auto simp: queue_ok_def)
  have len: "tree_len t' = Suc (Suc (tree_len t))" using st by (simp add: queue_ok_step_def)
  obtain dl dr where dlr: "lgb_dtree no l = Some dl" "stands_for tf (tree_len t) dl"
      "lgb_dtree no r = Some dr" "stands_for tf (Suc (tree_len t)) dr"
    using fl by (auto simp: flattened_def)
  have node: "lgb_dtree no node = Some (Split (as_usize f) c dl dr)" using d dlr by simp
  have "node_at tf i = node_at t' i" "tree_len t' \<le> tree_len tf" using fl i len by (auto simp: flattened_def)
  then have "stands_for tf i (Split (as_usize f) c dl dr)"
    using dlr i len n by (intro stands_for_SplitI [of i _ "tree_len t" "Suc (tree_len t)"]) simp_all
  then show ?thesis using fl node dlr(1,3) len st
    by (auto simp: flattened_def queue_ok_step_def)
qed

definition queue_size :: "('n Json \<times> nat) list \<Rightarrow> nat" where
  "queue_size q = sum_list (map (\<lambda>(j, i). Suc (size j)) q)"

text \<open>The loop fails exactly when a queued object is not a decision tree, and it never panics.\<close>

lemma flatten_loop_result:
  assumes "queue_ok q t"
  shows "case flatten_loop fo no q t of
           Inr t' \<Rightarrow> flattened no q t t'
         | Inl e \<Rightarrow> (\<exists>(j, i)\<in>set q. lgb_dtree no j = None) \<and> (\<forall>p. e \<noteq> Model_panic p)"
  using assms
proof (induction "queue_size q" arbitrary: q t rule: less_induct)
  case less
  show ?case
  proof (cases q)
    case Nil
    then show ?thesis using less.prems by (auto simp: flattened_def queue_ok_def)
  next
    case (Cons a q')
    obtain node i where a: "a = (node, i)" by (cases a)
    have ok: "queue_ok ((node, i) # q') t" using less.prems Cons a by simp
    then show ?thesis
    proof (cases rule: flatten_step_cases [where fo = fo and no = no])
      case (leaf v x t')
      have "queue_size q' < queue_size q" using Cons a by (simp add: queue_size_def)
      from less.hyps [OF this leaf(5)] show ?thesis
        using flattened_leaf [OF _ ok leaf(3,6,7,8)] leaf(4) Cons a by (auto split: sum.splits)
    next
      case (split f c l r t')
      have "queue_size (q' @ [(l, tree_len t), (r, Suc (tree_len t))]) < queue_size q"
        using Cons a split(5) by (simp add: queue_size_def)
      moreover have "queue_ok (q' @ [(l, tree_len t), (r, Suc (tree_len t))]) t'" using split(4) by (simp add: queue_ok_step_def)
      ultimately have IH: "case flatten_loop fo no q t of
           Inr tf \<Rightarrow> flattened no (q' @ [(l, tree_len t), (r, Suc (tree_len t))]) t' tf
         | Inl e \<Rightarrow> (\<exists>(j, i)\<in>set (q' @ [(l, tree_len t), (r, Suc (tree_len t))]). lgb_dtree no j = None)
             \<and> (\<forall>p. e \<noteq> Model_panic p)"
        using less.hyps unfolding Cons a split(2) by blast
      show ?thesis
      proof (cases "flatten_loop fo no q t")
        case (Inl e)
        then show ?thesis using IH split(1) Cons a by (auto split: option.splits)
      next
        case (Inr tf)
        then show ?thesis using IH flattened_split [OF _ ok split(1,3,4)] Cons a by simp
      qed
    next
      case (error e)
      then show ?thesis using Cons a by auto
    qed
  qed
qed

text \<open>The shape of a node: a leaf, or two children behind it and a feature of the trees.\<close>

definition node_shape :: "nat \<Rightarrow> nat set \<Rightarrow> nat \<Rightarrow> i32 \<times> i32 \<times> nat \<times> 'f \<times> 'f \<Rightarrow> bool" where
  "node_shape len F k n \<longleftrightarrow>
     (case n of (l, r, s, c, w) \<Rightarrow>
        l = - 1 \<or> (\<exists>li ri. l = word_of_nat li \<and> r = word_of_nat ri \<and> k < li \<and> k < ri \<and> li < len \<and> ri < len \<and> s \<in> F))"

lemma node_shape_leaf [intro]: "node_shape len F k (- 1, r, s, c, w)"
  by (simp add: node_shape_def)

lemma node_shape_inner [intro]:
  "k < li \<Longrightarrow> k < ri \<Longrightarrow> li < len \<Longrightarrow> ri < len \<Longrightarrow> s \<in> F \<Longrightarrow> node_shape len F k (word_of_nat li, word_of_nat ri, s, c, w)"
  unfolding node_shape_def by blast

lemma node_shape_cases:
  assumes "node_shape len F k n"
  obtains (leaf) r s c w where "n = (- 1, r, s, c, w)"
  | (inner) li ri s c w where "n = (word_of_nat li, word_of_nat ri, s, c, w)" "k < li" "k < ri" "li < len" "ri < len" "s \<in> F"
  using assms unfolding node_shape_def by (cases n) blast

lemma node_shape_mono: "node_shape len F k n \<Longrightarrow> len \<le> len' \<Longrightarrow> node_shape len' F k n"
  by (erule node_shape_cases) auto

lemma flatten_loop_shape:
  assumes "queue_ok q t" "flatten_loop fo no q t = Inr tf"
    "\<forall>(j, i)\<in>set q. dfeatures (the (lgb_dtree no j)) \<subseteq> F"
    "\<forall>k < tree_len t. k \<notin> snd ` set q \<longrightarrow> node_shape (tree_len t) F k (node_at t k)"
  shows "\<forall>k < tree_len tf. node_shape (tree_len tf) F k (node_at tf k)"
  using assms
proof (induction "queue_size q" arbitrary: q t rule: less_induct)
  case less
  show ?case
  proof (cases q)
    case Nil
    then show ?thesis using less.prems by simp
  next
    case (Cons a q')
    obtain node i where a: "a = (node, i)" by (cases a)
    have ok: "queue_ok ((node, i) # q') t" using less.prems(1) Cons a by simp
    then have i: "i < tree_len t" by (simp add: queue_ok_def)
    from ok show ?thesis
    proof (cases rule: flatten_step_cases [where fo = fo and no = no])
      case (leaf v x t')
      show ?thesis
      proof (rule less.hyps [OF _ leaf(5)])
        show "queue_size q' < queue_size q" using Cons a by (simp add: queue_size_def)
        show "flatten_loop fo no q' t' = Inr tf" using less.prems(2) leaf(4) Cons a by simp
        show "\<forall>(j, i)\<in>set q'. dfeatures (the (lgb_dtree no j)) \<subseteq> F" using less.prems(3) Cons by simp
        show "\<forall>k < tree_len t'. k \<notin> snd ` set q' \<longrightarrow> node_shape (tree_len t') F k (node_at t' k)"
        proof (intro allI impI)
          fix k
          assume k: "k < tree_len t'" "k \<notin> snd ` set q'"
          show "node_shape (tree_len t') F k (node_at t' k)"
            using k leaf(6-8) less.prems(4) Cons a by (cases "k = i") (auto simp: node_shape_def)
        qed
      qed
    next
      case (split f c l r t')
      let ?q = "q' @ [(l, tree_len t), (r, Suc (tree_len t))]"
      have len: "tree_len t' = Suc (Suc (tree_len t))" and q': "queue_ok ?q t'"
        and keep: "\<And>k. k < tree_len t \<Longrightarrow> k \<noteq> i \<Longrightarrow> node_at t' k = node_at t k"
        using split(4) by (auto simp: queue_ok_step_def)
      have run: "flatten_loop fo no ?q t' = Inr tf" using less.prems(2) split(2) Cons a by simp
      then have "flattened no ?q t' tf" using flatten_loop_result [OF q', where fo = fo and no = no] by simp
      then obtain dl dr where "lgb_dtree no l = Some dl" "lgb_dtree no r = Some dr" by (auto simp: flattened_def)
      then have F: "as_usize f \<in> F" "\<forall>(j, i)\<in>set ?q. dfeatures (the (lgb_dtree no j)) \<subseteq> F"
        using less.prems(3) split(1) Cons a by auto
      show ?thesis
      proof (rule less.hyps [OF _ q' run F(2)])
        show "queue_size ?q < queue_size q" using Cons a split(5) by (simp add: queue_size_def)
        show "\<forall>k < tree_len t'. k \<notin> snd ` set ?q \<longrightarrow> node_shape (tree_len t') F k (node_at t' k)"
        proof (intro allI impI)
          fix k
          assume k: "k < tree_len t'" "k \<notin> snd ` set ?q"
          then have "k < tree_len t" using len by (cases "k = tree_len t"; cases "k = Suc (tree_len t)") auto
          show "node_shape (tree_len t') F k (node_at t' k)"
          proof (cases "k = i")
            case True
            then show ?thesis unfolding True split(3) using i len F(1) by (intro node_shape_inner) auto
          next
            case False
            then have "node_shape (tree_len t) F k (node_at t k)" using k less.prems(4) Cons a \<open>k < tree_len t\<close> by auto
            then show ?thesis using keep [OF \<open>k < tree_len t\<close> False] len by (auto intro: node_shape_mono)
          qed
        qed
      qed
    next
      case (error e)
      then show ?thesis using less.prems(2) Cons a by simp
    qed
  qed
qed

text \<open>The initial queue holds the root, in the one allocated node.\<close>

lemma queue_ok_init: "queue_ok [(root, 0)] (push_node fo empty_tree)"
  by (simp add: queue_ok_def same_lengths_def tree_len_def push_node_def empty_tree_def)

lemma tree_len_empty [simp]: "tree_len empty_tree = 0"
  by (simp add: tree_len_def empty_tree_def)

lemma flattened_nonempty: "flattened no q (push_node fo t) t' \<Longrightarrow> left_children t' \<noteq> []"
  by (auto simp: flattened_def tree_len_def push_node_def)

lemma flatten_lgb_tree_eq: "flatten_lgb_tree fo no root = flatten_loop fo no [(root, 0)] (push_node fo empty_tree)"
  using flatten_loop_result [OF queue_ok_init [of root fo], where fo = fo and no = no]
  by (auto simp: flatten_lgb_tree_def dest: flattened_nonempty split: sum.split)

lemma flatten_lgb_tree_result:
  "case flatten_lgb_tree fo no root of
     Inr t \<Rightarrow> \<exists>d. lgb_dtree no root = Some d \<and> same_lengths t \<and> tree_len t = dnodes d \<and> stands_for t 0 d
   | Inl e \<Rightarrow> lgb_dtree no root = None \<and> (\<forall>p. e \<noteq> Model_panic p)"
  using flatten_loop_result [OF queue_ok_init [of root fo], where fo = fo and no = no]
  by (auto simp: flatten_lgb_tree_eq flattened_def split: sum.split)

lemma flatten_lgb_tree_Inr:
  assumes "flatten_lgb_tree fo no root = Inr t"
  obtains d where "lgb_dtree no root = Some d" "same_lengths t" "tree_len t = dnodes d" "stands_for t 0 d"
  using assms flatten_lgb_tree_result [where fo = fo and no = no and root = root] by auto

lemma dnodes_pos: "0 < dnodes d"
  by (cases d) auto

lemma flatten_lgb_tree_ok:
  assumes "flatten_lgb_tree fo no root = Inr t" "lgb_dtree no root = Some d" "dnodes d \<le> 2 ^ 31" "\<forall>f\<in>dfeatures d. f < nf"
  shows "tree_ok nf t"
proof -
  have t: "same_lengths t" "tree_len t = dnodes d" using assms(1,2) by (auto elim: flatten_lgb_tree_Inr)
  have shape: "\<forall>k < tree_len t. node_shape (tree_len t) {f. f < nf} k (node_at t k)"
    by (rule flatten_loop_shape [OF queue_ok_init assms(1) [unfolded flatten_lgb_tree_eq]]) (use assms in auto)
  have "left_children t ! i = - 1
      \<or> child_ok t i (left_children t ! i) \<and> child_ok t i (right_children t ! i) \<and> split_indices t ! i < nf"
    if "i < tree_len t" for i
    using shape [rule_format, OF that]
  proof (cases rule: node_shape_cases)
    case (leaf r s c w)
    then show ?thesis by (simp add: node_at_def)
  next
    case (inner li ri s c w)
    then have "li < 2 ^ 31" "ri < 2 ^ 31" using t(2) assms(3) by simp_all
    then show ?thesis using inner by (simp add: node_at_def child_ok_def child_index)
  qed
  then show ?thesis using t dnodes_pos by (simp add: tree_ok_def)
qed

lemma traverse_tree_flattened:
  assumes "flatten_lgb_tree fo no root = Inr t" "lgb_dtree no root = Some d" "dnodes d \<le> 2 ^ 31"
  shows "traverse_tree fo' t features = dtree_eval fo' features d"
  using assms unfolding traverse_tree_def
  by (auto elim!: flatten_lgb_tree_Inr intro!: traverse_stands_for)

section \<open>Inference on well-formed trees\<close>

lemma traverse_loop_total:
  assumes "tree_ok nf t" "nf \<le> length features" "i < tree_len t"
  shows "\<exists>y. traverse_loop fo t features i = Some (Inr y)"
  using assms(3)
proof (induction "tree_len t - i" arbitrary: i rule: less_induct)
  case less
  have t: "same_lengths t" "left_children t ! i = - 1
      \<or> child_ok t i (left_children t ! i) \<and> child_ok t i (right_children t ! i) \<and> split_indices t ! i < nf"
    using assms(1) less.prems by (auto simp: tree_ok_def)
  have IH: "\<exists>y. traverse_loop fo t features (as_usize (sint w)) = Some (Inr y)" if "child_ok t i w" for w
    using that less.prems by (intro less.hyps) (auto simp: child_ok_def)
  show ?case
  proof (cases "left_children t ! i = - 1")
    case True
    then show ?thesis using t(1) less.prems by (subst traverse_loop.simps) (simp add: same_lengths_def tree_len_def)
  next
    case False
    then show ?thesis using t IH less.prems assms(2)
      by (subst traverse_loop.simps) (auto simp: same_lengths_def tree_len_def)
  qed
qed

lemma traverse_tree_total: "tree_ok nf t \<Longrightarrow> nf \<le> length features \<Longrightarrow> \<exists>y. traverse_tree fo t features = Some (Inr y)"
  unfolding traverse_tree_def by (rule traverse_loop_total) (auto simp: tree_ok_def)

lemma sum_trees_eval:
  assumes "\<forall>t\<in>set ts. traverse_tree fo t features = Some (Inr (ev t))"
  shows "sum_trees fo features ts acc = Some (Inr (foldl (f_add fo) acc (map ev ts)))"
  using assms by (induction ts arbitrary: acc) auto

text \<open>The scores of a multi-class model: class \<open>c\<close> adds up the trees whose index is \<open>c\<close> modulo the number of classes.\<close>

definition class_trees :: "nat \<Rightarrow> nat \<Rightarrow> nat \<Rightarrow> 'a list \<Rightarrow> 'a list" where
  "class_trees nc c i ts = nths ts {k. (i + k) mod nc = c}"

lemma class_trees_simps:
  "class_trees nc c i [] = []"
  "class_trees nc c i (t # ts) = (if i mod nc = c then [t] else []) @ class_trees nc c (Suc i) ts"
  by (simp_all add: class_trees_def nths_Cons)

lemma class_scores_eval:
  assumes "\<forall>t\<in>set ts. traverse_tree fo t features = Some (Inr (ev t))" "0 < nc" "length scores = nc"
  shows "class_scores fo features nc i ts scores =
    Some (Inr (map (\<lambda>c. foldl (f_add fo) (scores ! c) (map ev (class_trees nc c i ts))) [0..<nc]))"
  using assms
proof (induction ts arbitrary: i scores)
  case Nil
  then show ?case by (auto simp: class_trees_simps intro: nth_equalityI)
next
  case (Cons t ts)
  then show ?case by (auto simp: class_trees_simps nth_list_update)
qed

text \<open>The prediction as a function of the tree outputs.\<close>

definition prediction :: "'f f64_ops \<Rightarrow> nat \<Rightarrow> 'f \<Rightarrow> 'f list \<Rightarrow> 'f list" where
  "prediction fo nc base ys =
     (if nc \<le> 2 then [f_add fo (foldl (f_add fo) (f_sum_start fo) ys) base]
      else map (\<lambda>c. foldl (f_add fo) base (class_trees nc c 0 ys)) [0..<nc])"

lemma class_trees_map: "class_trees nc c i (map f ts) = map f (class_trees nc c i ts)"
  by (simp add: class_trees_def nths_map)

lemma predict_eval:
  assumes "\<forall>t\<in>set (trees model). traverse_tree fo t features = Some (Inr (ev t))" "num_classes model < 2 ^ 60"
  shows "predict fo model features =
    Some (Inr (prediction fo (num_classes model) (base_score model) (map ev (trees model))))"
proof (cases "num_classes model \<le> 2")
  case True
  then show ?thesis by (simp add: predict_def prediction_def sum_trees_eval [OF assms(1)])
next
  case False
  let ?nc = "num_classes model"
  have "class_scores fo features ?nc 0 (trees model) (replicate ?nc (base_score model)) =
      Some (Inr (map (\<lambda>c. foldl (f_add fo) (replicate ?nc (base_score model) ! c) (map ev (class_trees ?nc c 0 (trees model)))) [0..<?nc]))"
    using False by (intro class_scores_eval [OF assms(1)]) simp_all
  also have "\<dots> = Some (Inr (prediction fo ?nc (base_score model) (map ev (trees model))))"
    using False by (simp add: prediction_def class_trees_map)
  finally show ?thesis using False assms(2) by (simp add: predict_def)
qed

section \<open>LightGBM models\<close>

text \<open>The decision trees of a deserialised model.\<close>

definition lgb_dtrees :: "('n, 'f) num_ops \<Rightarrow> 'n LgbJsonModel \<Rightarrow> 'f dtree option list" where
  "lgb_dtrees no raw = map (\<lambda>ti. Option.bind (tree_structure ti) (lgb_dtree no)) (lgb_tree_info raw)"

lemma lgb_trees_Inr:
  assumes "lgb_trees fo no i tis = Inr ts"
  shows "list_all2 (\<lambda>ti t. \<exists>j. tree_structure ti = Some j \<and> flatten_lgb_tree fo no j = Inr t) tis ts"
  using assms by (induction tis arbitrary: i ts) (auto split: option.splits sum.splits)

lemma lgb_trees_dtrees:
  assumes "lgb_trees fo no i tis = Inr ts"
  obtains ds where "map (\<lambda>ti. Option.bind (tree_structure ti) (lgb_dtree no)) tis = map Some ds"
    "list_all2 (\<lambda>d t. \<exists>j. lgb_dtree no j = Some d \<and> flatten_lgb_tree fo no j = Inr t) ds ts"
proof -
  have "\<exists>ds. map (\<lambda>ti. Option.bind (tree_structure ti) (lgb_dtree no)) tis = map Some ds
      \<and> list_all2 (\<lambda>d t. \<exists>j. lgb_dtree no j = Some d \<and> flatten_lgb_tree fo no j = Inr t) ds ts"
    using lgb_trees_Inr [OF assms]
  proof (induction rule: list_all2_induct)
    case Nil
    then show ?case by simp
  next
    case (Cons ti tis t ts)
    then obtain j ds where "tree_structure ti = Some j" "flatten_lgb_tree fo no j = Inr t"
        "map (\<lambda>ti. Option.bind (tree_structure ti) (lgb_dtree no)) tis = map Some ds"
        "list_all2 (\<lambda>d t. \<exists>j. lgb_dtree no j = Some d \<and> flatten_lgb_tree fo no j = Inr t) ds ts" by auto
    moreover from this obtain d where "lgb_dtree no j = Some d" by (auto elim: flatten_lgb_tree_Inr)
    ultimately show ?case by (intro exI [of _ "d # ds"]) auto
  qed
  then show thesis using that by blast
qed

lemma parse_lightgbm_Inr:
  assumes "parse_lightgbm fo no lgb_json s = Inr model" "lgb_json s = Inr raw"
  obtains ds where "lgb_dtrees no raw = map Some ds" "num_features model = lgb_num_features no raw"
    "num_classes model = lgb_num_classes raw" "base_score model = f_zero fo"
    "list_all2 (\<lambda>d t. \<exists>j. lgb_dtree no j = Some d \<and> flatten_lgb_tree fo no j = Inr t) ds (trees model)"
proof -
  obtain ts where ts: "lgb_trees fo no 0 (lgb_tree_info raw) = Inr ts"
      "model = \<lparr> num_features = lgb_num_features no raw, num_classes = lgb_num_classes raw, base_score = f_zero fo, trees = ts \<rparr>"
    using assms by (auto simp: parse_lightgbm_def split: if_splits sum.splits)
  from ts(1) show thesis by (rule lgb_trees_dtrees) (rule that, auto simp: ts(2) lgb_dtrees_def)
qed

lemma predict_lightgbm:
  assumes "list_all2 (\<lambda>d t. \<exists>j. lgb_dtree no j = Some d \<and> flatten_lgb_tree fo no j = Inr t) ds (trees model)"
    "\<forall>d\<in>set ds. dnodes d \<le> 2 ^ 31 \<and> dtree_eval fo features d = Some (Inr (ev d))" "num_classes model < 2 ^ 60"
  shows "predict fo model features = Some (Inr (prediction fo (num_classes model) (base_score model) (map ev ds)))"
proof -
  define val where "val t = (case traverse_tree fo t features of Some (Inr y) \<Rightarrow> y | _ \<Rightarrow> f_zero fo)" for t
  have "list_all2 (\<lambda>d t. traverse_tree fo t features = Some (Inr (ev d)) \<and> val t = ev d) ds (trees model)"
    using assms(2) by (intro list.rel_mono_strong [OF assms(1)]) (auto simp: val_def traverse_tree_flattened)
  then have "\<forall>t\<in>set (trees model). traverse_tree fo t features = Some (Inr (val t))" "map ev ds = map val (trees model)"
    by (induction rule: list_all2_induct) auto
  then show ?thesis using predict_eval [of model fo features val] assms(3) by simp
qed

text \<open>The number accessors agree on the integers that both can represent, as \<open>serde_json\<close> documents.\<close>

definition num_ops_ok :: "('n, 'f) num_ops \<Rightarrow> bool" where
  "num_ops_ok no \<longleftrightarrow>
     (\<forall>n i. num_i64 no n = Some i \<longrightarrow> - (2 ^ 63) \<le> i \<and> i < 2 ^ 63 \<and> (0 \<le> i \<longrightarrow> num_u64 no n = Some (nat i)))"

lemma num_ops_ok_feature:
  assumes "num_ops_ok no" "json_number (num_i64 no) v = Some i" "as_usize i < 2 ^ 63"
  shows "json_number (num_u64 no) v = Some (as_usize i)"
proof -
  obtain n where n: "v = JNumber n" "num_i64 no n = Some i" using assms(2) by (cases v) auto
  then have i: "- (2 ^ 63) \<le> i" "i < 2 ^ 63" "0 \<le> i \<Longrightarrow> num_u64 no n = Some (nat i)"
    using assms(1) by (auto simp: num_ops_ok_def)
  have "0 \<le> i"
  proof (rule ccontr)
    assume "\<not> 0 \<le> i"
    have "i mod 2 ^ 64 = (i + 2 ^ 64) mod 2 ^ 64" by simp
    also have "\<dots> = i + 2 ^ 64" using i(1) \<open>\<not> 0 \<le> i\<close> by (intro mod_pos_pos_trivial) auto
    finally show False using assms(3) i(1) by (simp add: as_usize_def)
  qed
  then show ?thesis using n i by (simp add: as_usize_def)
qed

text \<open>The scan finds every feature of the decision tree.\<close>

declare scan_max_feature.simps [simp del]

lemma scan_max_feature_ge: "m \<le> scan_max_feature no j m"
proof (induction no j m rule: scan_max_feature.induct)
  case (1 no node m)
  then show ?case
    by (subst scan_max_feature.simps) (fastforce simp: Let_def split: option.splits if_splits intro: order_trans)
qed

lemma lgb_dtree_SplitE:
  assumes "lgb_dtree no node = Some (Split f c dl dr)"
  obtains v sf l r where "json_get ''split_feature'' node = Some v" "json_number (num_i64 no) v = Some sf" "f = as_usize sf"
    "json_get ''left_child'' node = Some l" "json_get ''right_child'' node = Some r"
    "lgb_dtree no l = Some dl" "lgb_dtree no r = Some dr"
  using assms by (subst (asm) lgb_dtree.simps) (auto simp: bind_eq_Some_conv split: option.splits)

lemma scan_max_feature_features:
  assumes "num_ops_ok no" "lgb_dtree no j = Some d" "\<forall>f\<in>dfeatures d. f < 2 ^ 63"
  shows "\<forall>f\<in>dfeatures d. f \<le> scan_max_feature no j m"
  using assms(2,3)
proof (induction d arbitrary: j m)
  case (Leaf v)
  then show ?case by simp
next
  case (Split f c dl dr)
  from Split.prems(1) obtain v sf l r where sp: "json_get ''split_feature'' j = Some v" "json_number (num_i64 no) v = Some sf"
      "f = as_usize sf" "json_get ''left_child'' j = Some l" "json_get ''right_child'' j = Some r"
      "lgb_dtree no l = Some dl" "lgb_dtree no r = Some dr"
    by (rule lgb_dtree_SplitE)
  have v: "json_number (num_u64 no) v = Some f"
    using num_ops_ok_feature [OF assms(1) sp(2)] Split.prems(2) sp(3) by simp
  define m1 where "m1 = (if m < f then f else m)"
  define m2 where "m2 = scan_max_feature no l m1"
  have scan: "scan_max_feature no j m = scan_max_feature no r m2"
    unfolding m1_def m2_def using sp v by (subst scan_max_feature.simps) simp
  have "f \<le> m1" "m1 \<le> m2" "m2 \<le> scan_max_feature no r m2" by (auto simp: m1_def m2_def scan_max_feature_ge)
  moreover have "\<forall>f\<in>dfeatures dl. f \<le> m2" using Split.IH(1) [OF sp(6)] Split.prems(2) by (auto simp: m2_def)
  moreover have "\<forall>f\<in>dfeatures dr. f \<le> scan_max_feature no r m2" using Split.IH(2) [OF sp(7)] Split.prems(2) by auto
  ultimately show ?case unfolding scan by fastforce
qed

definition scan_infos :: "('n, 'f) num_ops \<Rightarrow> 'n LgbTreeInfo list \<Rightarrow> nat \<Rightarrow> nat" where
  "scan_infos no = fold (\<lambda>ti m. case tree_structure ti of Some ts \<Rightarrow> scan_max_feature no ts m | None \<Rightarrow> m)"

lemma scan_infos_ge: "m \<le> scan_infos no tis m"
  unfolding scan_infos_def
  by (induction tis arbitrary: m) (auto split: option.split intro: order_trans scan_max_feature_ge)

lemma scan_infos_features:
  assumes "num_ops_ok no" "map (\<lambda>ti. Option.bind (tree_structure ti) (lgb_dtree no)) tis = map Some ds"
    "\<forall>d\<in>set ds. \<forall>f\<in>dfeatures d. f < 2 ^ 63"
  shows "\<forall>d\<in>set ds. \<forall>f\<in>dfeatures d. f \<le> scan_infos no tis m"
  using assms(2,3)
proof (induction tis arbitrary: ds m)
  case Nil
  then show ?case by simp
next
  case (Cons ti tis)
  then obtain d ds' j where ds: "ds = d # ds'" "tree_structure ti = Some j" "lgb_dtree no j = Some d"
      "map (\<lambda>ti. Option.bind (tree_structure ti) (lgb_dtree no)) tis = map Some ds'"
    by (auto simp: bind_eq_Some_conv Cons_eq_map_conv)
  have step: "scan_infos no (ti # tis) m = scan_infos no tis (scan_max_feature no j m)"
    using ds(2) by (simp add: scan_infos_def)
  have "\<forall>f\<in>dfeatures d. f \<le> scan_max_feature no j m"
    using Cons.prems(2) ds by (intro scan_max_feature_features [OF assms(1) ds(3)]) auto
  then have "\<forall>f\<in>dfeatures d. f \<le> scan_infos no (ti # tis) m"
    unfolding step using scan_infos_ge order_trans by blast
  then show ?case using Cons.IH [OF ds(4), of "scan_max_feature no j m"] Cons.prems(2) ds(1) step by auto
qed

text \<open>A model without \<open>max_feature_idx\<close>, whose features are not negative, expects enough features for its trees.\<close>

lemma lgb_model_features:
  assumes "num_ops_ok no" "lgb_dtrees no raw = map Some ds" "max_feature_idx raw = None"
    "\<forall>d\<in>set ds. \<forall>f\<in>dfeatures d. f < 2 ^ 63" "0 < lgb_num_features no raw"
    "scan_infos no (lgb_tree_info raw) 0 < 2 ^ 64"
  shows "\<forall>d\<in>set ds. \<forall>f\<in>dfeatures d. f < lgb_num_features no raw"
proof -
  let ?m = "scan_infos no (lgb_tree_info raw) 0"
  have nf: "lgb_num_features no raw = (?m + 1) mod 2 ^ 64" using assms(3) by (simp add: lgb_num_features_def scan_infos_def)
  then have "?m + 1 \<noteq> 2 ^ 64" using assms(5) by auto
  then have "lgb_num_features no raw = ?m + 1" using nf assms(6) by simp
  then show ?thesis using scan_infos_features [OF assms(1), of "lgb_tree_info raw" ds 0] assms(2,4)
    by (auto simp: lgb_dtrees_def less_Suc_eq_le)
qed

lemma predict_total:
  assumes "\<forall>t\<in>set (trees model). tree_ok nf t" "nf \<le> length features" "num_classes model < 2 ^ 60"
  obtains ys where "predict fo model features = Some (Inr ys)"
    "length ys = (if num_classes model \<le> 2 then 1 else num_classes model)"
proof -
  define val where "val t = (case traverse_tree fo t features of Some (Inr y) \<Rightarrow> y | _ \<Rightarrow> f_zero fo)" for t
  have "traverse_tree fo t features = Some (Inr (val t))" if t: "t \<in> set (trees model)" for t
    using traverse_tree_total [of nf t features fo] assms(1,2) t by (auto simp: val_def)
  then show thesis using predict_eval [of model fo features val] assms(3) that by (auto simp: prediction_def)
qed

section \<open>XGBoost models\<close>

text \<open>The loader copies the arrays of an XGBoost tree without looking at the child indices. A node that is its own
  child is accepted, and the traversal does not end.\<close>

definition self_loop :: "'f \<Rightarrow> 'f XgbTree" where
  "self_loop c = \<lparr> xgb_left_children = [0], xgb_right_children = [0], xgb_split_indices = [0],
                   xgb_split_conditions = [c], xgb_base_weights = [c] \<rparr>"

definition self_loop_tree :: "'f \<Rightarrow> 'f Tree" where
  "self_loop_tree c = \<lparr> left_children = [0], right_children = [0], split_indices = [0], split_conditions = [c], base_weights = [c] \<rparr>"

lemma traverse_self_loop: "features \<noteq> [] \<Longrightarrow> traverse_tree fo (self_loop_tree c) features = None"
proof (rule ccontr)
  assume f: "features \<noteq> []" and "traverse_tree fo (self_loop_tree c) features \<noteq> None"
  then obtain y where "traverse_loop fo (self_loop_tree c) features 0 = Some y" by (auto simp: traverse_tree_def)
  then have "self_loop_tree c = self_loop_tree c \<longrightarrow> features = features \<longrightarrow> (0::nat) \<noteq> 0"
  proof (rule traverse_loop.raw_induct [rotated, where P = "\<lambda>fo t fs n y. t = self_loop_tree c \<longrightarrow> fs = features \<longrightarrow> n \<noteq> 0"])
    fix loop :: "'a f64_ops \<Rightarrow> 'a Tree \<Rightarrow> 'a list \<Rightarrow> nat \<Rightarrow> 'a run" and fo t fs n y
    assume "\<And>fo t fs n y. loop fo t fs n = Some y \<Longrightarrow> t = self_loop_tree c \<longrightarrow> fs = features \<longrightarrow> n \<noteq> 0"
    then have never: "loop fo (self_loop_tree c) features 0 = None" for fo by (metis not_None_eq)
    assume run: "run_bind (run_idx (left_children t) n) (\<lambda>l.
       if l = - 1 then run_idx (base_weights t) n
       else run_bind (run_idx (split_indices t) n) (\<lambda>feat_idx.
            run_bind (run_idx (split_conditions t) n) (\<lambda>threshold.
            run_bind (run_idx fs feat_idx) (\<lambda>x.
              if f_lt fo x threshold then loop fo t fs (as_usize (sint l))
              else run_bind (run_idx (right_children t) n) (\<lambda>r. loop fo t fs (as_usize (sint r))))))) = Some y"
    show "t = self_loop_tree c \<longrightarrow> fs = features \<longrightarrow> n \<noteq> 0"
    proof (intro impI notI)
      assume "t = self_loop_tree c" "fs = features" "n = 0"
      with run f never [of fo] show False by (simp add: self_loop_tree_def as_usize_def split: if_splits)
    qed
  qed
  then show False by simp
qed

lemma parse_xgboost_self_loop:
  assumes "xgb_json s = Inr \<lparr> learner_model_param = \<lparr> num_feature = ''1'', num_class = [], base_score_str = b \<rparr>, xgb_trees = [self_loop c] \<rparr>"
    "parse_f64 b = Some v"
  shows "parse_xgboost parse_f64 xgb_json s =
    Inr \<lparr> num_features = 1, num_classes = 2, base_score = v, trees = [self_loop_tree c] \<rparr>"
  using assms by (simp add: parse_xgboost_def parse_usize_def to_digit_def self_loop_def self_loop_tree_def as_usize_def Let_def)

end
