(* ===== verification/Keccak.thy ===== *)
theory Keccak
  imports Prelude_ZK
begin

text \<open>
  The compile-time Keccak-256 of the event crate (\<open>crates/events/src/lib.rs\<close>), which computes the topic hashes, and the
  sponge construction that it implements: the input is padded to a multiple of the rate and absorbed block by block.
  Loops that assign every lane of an array once are written as maps over the indices.
\<close>

section \<open>The permutation\<close>

definition KECCAK_RC :: "u64 list" where
  "KECCAK_RC =
    [0x0000000000000001, 0x0000000000008082, 0x800000000000808A, 0x8000000080008000,
     0x000000000000808B, 0x0000000080000001, 0x8000000080008081, 0x8000000000008009,
     0x000000000000008A, 0x0000000000000088, 0x0000000080008009, 0x000000008000000A,
     0x000000008000808B, 0x800000000000008B, 0x8000000000008089, 0x8000000000008003,
     0x8000000000008002, 0x8000000000000080, 0x000000000000800A, 0x800000008000000A,
     0x8000000080008081, 0x8000000000008080, 0x0000000080000001, 0x8000000080008008]"

definition ROTATIONS :: "nat list" where
  "ROTATIONS = [0, 1, 62, 28, 27, 36, 44, 6, 55, 20, 3, 10, 43, 25, 39, 41, 45, 15, 21, 8, 18, 2, 61, 56, 14]"

definition PI_LANES :: "nat list" where
  "PI_LANES = [0, 10, 20, 5, 15, 16, 1, 11, 21, 6, 7, 17, 2, 12, 22, 23, 8, 18, 3, 13, 14, 24, 9, 19, 4]"

text \<open>\<open>u64::rotate_left\<close> for a distance below 64.\<close>

definition rotate_left :: "nat \<Rightarrow> u64 \<Rightarrow> u64" where
  "rotate_left k x = push_bit k x OR drop_bit (64 - k) x"

definition keccak_theta :: "u64 list \<Rightarrow> u64 list" where
  "keccak_theta st =
     (let c = map (\<lambda>x. st ! x XOR st ! (x + 5) XOR st ! (x + 10) XOR st ! (x + 15) XOR st ! (x + 20)) [0..<5];
          d = map (\<lambda>x. c ! ((x + 4) mod 5) XOR rotate_left 1 (c ! ((x + 1) mod 5))) [0..<5]
      in map (\<lambda>i. st ! i XOR d ! (i mod 5)) [0..<25])"

definition keccak_rho_pi :: "u64 list \<Rightarrow> u64 list" where
  "keccak_rho_pi st =
     fold (\<lambda>i tmp. tmp[PI_LANES ! i := rotate_left (ROTATIONS ! i) (st ! i)]) [0..<25] (replicate 25 0)"

definition keccak_chi :: "u64 list \<Rightarrow> u64 list" where
  "keccak_chi tmp =
     map (\<lambda>i. let x = i mod 5; y = i div 5
              in tmp ! i XOR (NOT (tmp ! ((x + 1) mod 5 + 5 * y)) AND tmp ! ((x + 2) mod 5 + 5 * y))) [0..<25]"

definition keccak_round :: "nat \<Rightarrow> u64 list \<Rightarrow> u64 list" where
  "keccak_round r st =
     (let st = keccak_chi (keccak_rho_pi (keccak_theta st)) in st[0 := st ! 0 XOR KECCAK_RC ! r])"

definition keccak_f1600 :: "u64 list \<Rightarrow> u64 list" where
  "keccak_f1600 st = fold keccak_round [0..<24] st"

section \<open>Absorbing\<close>

definition RATE :: nat where
  "RATE = 136"

definition block_lane :: "u8 list \<Rightarrow> nat \<Rightarrow> u64" where
  "block_lane buf i =
     fold (\<lambda>k acc. acc OR push_bit (8 * k) (ucast (buf ! (8 * i + k)))) [0..<8] 0"

definition xor_and_permute :: "u64 list \<Rightarrow> u8 list \<Rightarrow> u64 list" where
  "xor_and_permute st buf =
     keccak_f1600 (fold (\<lambda>i st. st[i := st ! i XOR block_lane buf i]) [0..<17] st)"

text \<open>The loop over the input, on the state, the buffer and its fill level.\<close>

definition absorb_byte :: "u8 \<Rightarrow> u64 list \<times> u8 list \<times> nat \<Rightarrow> u64 list \<times> u8 list \<times> nat" where
  "absorb_byte b s =
     (case s of (st, buf, n) \<Rightarrow>
        let buf = buf[n := b]; n = n + 1
        in if n = RATE then (xor_and_permute st buf, buf, 0) else (st, buf, n))"

definition squeeze32 :: "u64 list \<Rightarrow> u8 list" where
  "squeeze32 st = map (\<lambda>j. ucast (drop_bit (8 * (j mod 8)) (st ! (j div 8)))) [0..<32]"

definition const_keccak :: "u8 list \<Rightarrow> u8 list" where
  "const_keccak input =
     (case fold absorb_byte input (replicate 25 0, replicate RATE 0, 0) of (st, buf, n) \<Rightarrow>
        let buf = buf[n := 1];
            buf = fold (\<lambda>k buf. buf[k := 0]) [n + 1..<RATE] buf;
            buf = buf[RATE - 1 := buf ! (RATE - 1) OR 0x80]
        in squeeze32 (xor_and_permute st buf))"

section \<open>The sponge\<close>

text \<open>The multi-rate padding and the absorption of whole blocks.\<close>

definition keccak_pad :: "nat \<Rightarrow> u8 list" where
  "keccak_pad len =
     (let k = RATE - len mod RATE in if k = 1 then [0x81] else 1 # replicate (k - 2) 0 @ [0x80])"

function absorb_blocks :: "u64 list \<Rightarrow> u8 list \<Rightarrow> u64 list" where
  "absorb_blocks st bytes =
     (if length bytes < RATE then st else absorb_blocks (xor_and_permute st (take RATE bytes)) (drop RATE bytes))"
  by auto

termination
  by (relation "measure (\<lambda>(st, bytes). length bytes)") (auto simp: RATE_def)

declare absorb_blocks.simps [simp del]

definition keccak256_spec :: "u8 list \<Rightarrow> u8 list" where
  "keccak256_spec input = squeeze32 (absorb_blocks (replicate 25 0) (input @ keccak_pad (length input)))"

lemma length_keccak_pad: "length (keccak_pad len) = RATE - len mod RATE"
proof -
  have "0 < RATE - len mod RATE" by (simp add: RATE_def)
  then show ?thesis by (auto simp: keccak_pad_def Let_def)
qed

lemma padded_blocks: "(len + length (keccak_pad len)) mod RATE = 0"
proof -
  have "len mod RATE < RATE" by (simp add: RATE_def)
  then have "len + length (keccak_pad len) = RATE * (len div RATE + 1)"
    using mult_div_mod_eq [of RATE len] unfolding length_keccak_pad distrib_left mult_1_right by linarith
  then show ?thesis by simp
qed

lemma RATE_pos [simp]: "0 < RATE" "RATE \<noteq> 0"
  by (simp_all add: RATE_def)

lemma absorb_blocks_short: "length bytes < RATE \<Longrightarrow> absorb_blocks st bytes = st"
  by (subst absorb_blocks.simps) simp

lemma absorb_blocks_block:
  "length block = RATE \<Longrightarrow> absorb_blocks st (block @ bytes) = absorb_blocks (xor_and_permute st block) bytes"
  by (subst absorb_blocks.simps) simp

lemma absorb_blocks_append:
  "length xs mod RATE = 0 \<Longrightarrow> absorb_blocks st (xs @ ys) = absorb_blocks (absorb_blocks st xs) ys"
proof (induction st xs rule: absorb_blocks.induct)
  case (1 st xs)
  show ?case
  proof (cases "length xs < RATE")
    case True
    then have "xs = []" using "1.prems" by simp
    then show ?thesis by (simp add: absorb_blocks_short)
  next
    case False
    then have len: "length (take RATE xs) = RATE" by simp
    have m: "(length xs - RATE) mod RATE = 0"
      by (metis "1.prems" False le_mod_geq linorder_not_less)
    from "1.IH" [OF False] m have "absorb_blocks (xor_and_permute st (take RATE xs)) (drop RATE xs @ ys)
        = absorb_blocks (absorb_blocks (xor_and_permute st (take RATE xs)) (drop RATE xs)) ys"
      by simp
    then show ?thesis
      using absorb_blocks_block [OF len, of st "drop RATE xs @ ys"] absorb_blocks_block [OF len, of st "drop RATE xs"]
      by (simp flip: append_assoc)
  qed
qed

text \<open>After a prefix of the input, the whole blocks are absorbed and the buffer begins with the rest.\<close>

definition absorbed :: "u8 list \<Rightarrow> u64 list \<times> u8 list \<times> nat \<Rightarrow> bool" where
  "absorbed input s \<longleftrightarrow>
     (case s of (st, buf, n) \<Rightarrow>
        \<exists>blocks rest. input = blocks @ rest \<and> length blocks mod RATE = 0 \<and> length rest = n \<and> n < RATE \<and> length buf = RATE
          \<and> take n buf = rest \<and> st = absorb_blocks (replicate 25 0) blocks)"

lemma absorbedI:
  "input = blocks @ rest \<Longrightarrow> length blocks mod RATE = 0 \<Longrightarrow> length rest = n \<Longrightarrow> n < RATE \<Longrightarrow> length buf = RATE
    \<Longrightarrow> take n buf = rest \<Longrightarrow> st = absorb_blocks (replicate 25 0) blocks \<Longrightarrow> absorbed input (st, buf, n)"
  unfolding absorbed_def prod.case by (intro exI [of _ blocks] exI [of _ rest] conjI) simp_all

lemma absorbed_step:
  assumes "absorbed input s"
  shows "absorbed (input @ [b]) (absorb_byte b s)"
proof -
  obtain st buf n where s: "s = (st, buf, n)" by (cases s)
  obtain blocks rest where inv: "input = blocks @ rest" "length blocks mod RATE = 0" "length rest = n" "n < RATE"
      "length buf = RATE" "take n buf = rest" "st = absorb_blocks (replicate 25 0) blocks"
    using assms unfolding absorbed_def s by auto
  have tk: "take (Suc n) (buf[n := b]) = rest @ [b]" using inv(4-6) by (simp add: take_Suc_conv_app_nth)
  show ?thesis
  proof (cases "Suc n = RATE")
    case True
    then have full: "buf[n := b] = rest @ [b]" using tk inv(5) by (metis length_list_update order_refl take_all)
    then have len: "length (rest @ [b]) = RATE" using inv(5) by (metis length_list_update)
    have "absorb_blocks (replicate 25 0) (blocks @ rest @ [b]) = xor_and_permute st (rest @ [b])"
      using absorb_blocks_append [OF inv(2)] absorb_blocks_block [OF len, of _ "[]"] inv(7)
      by (simp add: absorb_blocks_short)
    moreover have "absorb_byte b s = (xor_and_permute st (rest @ [b]), rest @ [b], 0)"
      using True full by (simp add: absorb_byte_def s Let_def)
    moreover have "length (blocks @ rest @ [b]) mod RATE = 0" using inv(2) len by (simp only: length_append mod_add_self2)
    ultimately show ?thesis using inv(1,2) len by (auto intro!: absorbedI [of _ "blocks @ rest @ [b]" "[]"])
  next
    case False
    then have "absorb_byte b s = (st, buf[n := b], Suc n)" by (simp add: absorb_byte_def s Let_def)
    then show ?thesis using tk inv False by (auto intro!: absorbedI [of _ blocks "rest @ [b]"])
  qed
qed

lemma absorbed_fold: "absorbed input (fold absorb_byte input (replicate 25 0, replicate RATE 0, 0))"
proof (induction input rule: rev_induct)
  case Nil
  then show ?case by (auto simp: absorbed_def absorb_blocks_short)
next
  case (snoc b input)
  then show ?case by (simp add: absorbed_step)
qed

lemma zero_fill: "length buf = N \<Longrightarrow> m \<le> N \<Longrightarrow> fold (\<lambda>k buf. buf[k := 0]) [m..<N] buf = take m buf @ replicate (N - m) (0 :: u8)"
proof (induction "N - m" arbitrary: m buf)
  case 0
  then show ?case by simp
next
  case (Suc d)
  then have "m < N" by simp
  then have "fold (\<lambda>k buf. buf[k := 0]) [m..<N] buf = take (Suc m) (buf[m := 0]) @ replicate (N - Suc m) 0"
    using Suc.hyps(1) [of "Suc m" "buf[m := 0]"] Suc.hyps(2) Suc.prems by (simp add: upt_conv_Cons)
  also have "\<dots> = take m buf @ replicate (N - m) 0"
    using \<open>m < N\<close> Suc.prems by (simp add: take_Suc_conv_app_nth Suc_diff_Suc flip: replicate_Suc)
  finally show ?case .
qed

lemma final_block:
  assumes "length buf = RATE" "n < RATE" "take n buf = rest"
  shows "(let buf = buf[n := 1]; buf = fold (\<lambda>k buf. buf[k := 0]) [n + 1..<RATE] buf
          in buf[RATE - 1 := buf ! (RATE - 1) OR 0x80]) = rest @ keccak_pad n"
proof -
  have n: "length rest = n" "n mod RATE = n" using assms by auto
  have "fold (\<lambda>k buf. buf[k := 0]) [n + 1..<RATE] (buf[n := 1]) = take (n + 1) (buf[n := 1]) @ replicate (RATE - (n + 1)) 0"
    using assms by (intro zero_fill) simp_all
  also have "take (n + 1) (buf[n := 1]) = rest @ [1]" using assms by (simp add: take_Suc_conv_app_nth)
  finally have fill: "fold (\<lambda>k buf. buf[k := 0]) [n + 1..<RATE] (buf[n := 1]) = rest @ 1 # replicate (RATE - (n + 1)) 0" by simp
  show ?thesis
  proof (cases "n = RATE - 1")
    case True
    then have "RATE - n = 1" by (simp add: RATE_def)
    then show ?thesis using n True unfolding Let_def fill keccak_pad_def by (simp add: nth_append list_update_append)
  next
    case False
    then obtain k where k: "RATE - (n + 1) = Suc k" "RATE - n = Suc (Suc k)" using assms(2) by (metis Suc_diff_Suc Suc_eq_plus1 Suc_lessI diff_Suc_1 linorder_not_less le_SucE less_eq_Suc_le)
    have r: "rest @ 1 # replicate (Suc k) 0 = (rest @ 1 # replicate k 0) @ [0]" by (simp flip: replicate_append_same)
    have l: "RATE - 1 = length (rest @ 1 # replicate k 0)" using n k(2) by simp
    show ?thesis unfolding Let_def fill k(1) r l keccak_pad_def n(2) k(2) by (simp add: nth_append list_update_append)
  qed
qed

lemma const_keccak_spec: "const_keccak input = keccak256_spec input"
proof -
  obtain st buf n where s: "fold absorb_byte input (replicate 25 0, replicate RATE 0, 0) = (st, buf, n)"
    by (metis prod_cases3)
  obtain blocks rest where inv: "input = blocks @ rest" "length blocks mod RATE = 0" "length rest = n" "n < RATE"
      "length buf = RATE" "take n buf = rest" "st = absorb_blocks (replicate 25 0) blocks"
    using absorbed_fold [of input] unfolding absorbed_def s by auto
  have pad: "keccak_pad (length input) = keccak_pad n" using inv by (simp add: keccak_pad_def mod_add_left_eq [symmetric])
  have len: "length (rest @ keccak_pad n) = RATE" using inv(3,4) by (auto simp: keccak_pad_def Let_def)
  have "absorb_blocks (replicate 25 0) (input @ keccak_pad (length input)) = xor_and_permute st (rest @ keccak_pad n)"
    using absorb_blocks_append [OF inv(2)] absorb_blocks_block [OF len, of st "[]"] inv(1,7) pad
    by (simp add: absorb_blocks_short)
  then show ?thesis
    using final_block [OF inv(5,4,6)] by (simp add: const_keccak_def keccak256_spec_def s Let_def)
qed

section \<open>Shapes\<close>

lemma length_squeeze32 [simp]: "length (squeeze32 st) = 32"
  by (simp add: squeeze32_def)

lemma length_const_keccak [simp]: "length (const_keccak input) = 32"
  by (simp add: const_keccak_def Let_def split: prod.split)

lemma length_keccak_round [simp]: "length (keccak_round r st) = 25"
  by (simp add: keccak_round_def keccak_chi_def Let_def)

lemma length_keccak_f1600 [simp]: "length (keccak_f1600 st) = 25"
  by (simp add: keccak_f1600_def upt_rec)

text \<open>The lane permutation is one: every lane of the new state is written once.\<close>

lemma PI_LANES_perm: "distinct PI_LANES" "set PI_LANES = {..<25}"
  by (simp_all add: PI_LANES_def lessThan_nat_numeral lessThan_Suc insert_commute)

end
