(* ===== verification/Tee_Events.thy ===== *)
theory Tee_Events
  imports Keccak
begin

text \<open>
  Contract events: the decoder of the event crate (\<open>crates/events/src/lib.rs\<close>) and the watcher that polls a node for logs
  and decodes them on its own (\<open>crates/watcher/src/lib.rs\<close>). Byte arrays are lists of bytes: topics and hashes have 32
  elements, addresses 20. The node is a parameter (\<open>provider\<close>): its answers to \<open>eth_blockNumber\<close> and \<open>eth_getLogs\<close>.
\<close>

type_synonym bytes = "u8 list"

text \<open>The characters of a string as bytes.\<close>

definition str_bytes :: "string \<Rightarrow> bytes" where
  "str_bytes s = map of_char s"

section \<open>The event crate\<close>

datatype TEEEvent =
    ResultSubmitted (sub_result_id: bytes) (submitter: bytes) (sub_model_hash: bytes) (sub_input_hash: bytes) (sub_result: bytes) (stake: u64)
  | ResultChallenged (ch_result_id: bytes) (challenger: bytes) (bond: u64)
  | ResultFinalized (fin_result_id: bytes) (fin_is_valid: bool)
  | ResultExpired (exp_result_id: bytes)
  | DisputeResolved (res_result_id: bytes) (prover_won: bool)
  | EnclaveRegistered (reg_enclave: bytes) (image_hash: bytes)
  | EnclaveRevoked (rev_enclave: bytes)

definition TOPIC_RESULT_SUBMITTED :: bytes where
  "TOPIC_RESULT_SUBMITTED = const_keccak (str_bytes ''ResultSubmitted(bytes32,bytes32,bytes32,address)'')"

definition TOPIC_RESULT_CHALLENGED :: bytes where
  "TOPIC_RESULT_CHALLENGED = const_keccak (str_bytes ''ResultChallenged(bytes32,address)'')"

definition TOPIC_RESULT_FINALIZED :: bytes where
  "TOPIC_RESULT_FINALIZED = const_keccak (str_bytes ''ResultFinalized(bytes32)'')"

definition TOPIC_DISPUTE_RESOLVED :: bytes where
  "TOPIC_DISPUTE_RESOLVED = const_keccak (str_bytes ''DisputeResolved(bytes32,bool)'')"

definition TOPIC_RESULT_EXPIRED :: bytes where
  "TOPIC_RESULT_EXPIRED = const_keccak (str_bytes ''ResultExpired(bytes32)'')"

definition TOPIC_ENCLAVE_REGISTERED :: bytes where
  "TOPIC_ENCLAVE_REGISTERED = const_keccak (str_bytes ''EnclaveRegistered(address,bytes32)'')"

definition TOPIC_ENCLAVE_REVOKED :: bytes where
  "TOPIC_ENCLAVE_REVOKED = const_keccak (str_bytes ''EnclaveRevoked(address)'')"

definition addr_from_topic :: "bytes \<Rightarrow> bytes" where
  "addr_from_topic topic = take 20 (drop 12 topic)"

definition addr_from_data :: "bytes \<Rightarrow> bytes" where
  "addr_from_data w = take 20 (drop 12 w)"

text \<open>\<open>u64::from_be_bytes\<close> of the last eight bytes of an ABI word.\<close>

definition read_u64_from_word :: "bytes \<Rightarrow> u64" where
  "read_u64_from_word w =
     (if length w < 32 then 0 else foldl (\<lambda>acc b. acc * 256 + ucast b) 0 (take 8 (drop 24 w)))"

text \<open>\<open>&data[a..b]\<close> behind a check of the length.\<close>

definition sub_bytes :: "bytes \<Rightarrow> nat \<Rightarrow> nat \<Rightarrow> bytes" where
  "sub_bytes data a b = take (b - a) (drop a data)"

definition parse_log :: "bytes list \<Rightarrow> bytes \<Rightarrow> TEEEvent option" where
  "parse_log topics data =
     (if topics = [] then None
      else let selector = topics ! 0
      in if selector = TOPIC_RESULT_SUBMITTED then
           (if length topics < 4 \<or> length data < 32 then None
            else Some (ResultSubmitted (topics ! 1) (addr_from_topic (topics ! 3)) (topics ! 2) (sub_bytes data 0 32)
                   (if 64 < length data then drop 64 data else [])
                   (if 64 \<le> length data then read_u64_from_word (sub_bytes data 32 64) else 0)))
         else if selector = TOPIC_RESULT_CHALLENGED then
           (if length topics < 2 \<or> length data < 32 then None
            else Some (ResultChallenged (topics ! 1) (addr_from_data (sub_bytes data 0 32))
                   (if 64 \<le> length data then read_u64_from_word (sub_bytes data 32 64) else 0)))
         else if selector = TOPIC_RESULT_FINALIZED then
           (if length topics < 2 then None
            else Some (ResultFinalized (topics ! 1) (if 32 \<le> length data then data ! 31 \<noteq> 0 else True)))
         else if selector = TOPIC_RESULT_EXPIRED then
           (if length topics < 2 then None else Some (ResultExpired (topics ! 1)))
         else if selector = TOPIC_DISPUTE_RESOLVED then
           (if length topics < 2 \<or> length data < 32 then None
            else Some (DisputeResolved (topics ! 1) (data ! 31 \<noteq> 0)))
         else if selector = TOPIC_ENCLAVE_REGISTERED then
           (if length topics < 2 \<or> length data < 32 then None
            else Some (EnclaveRegistered (addr_from_topic (topics ! 1)) (sub_bytes data 0 32)))
         else if selector = TOPIC_ENCLAVE_REVOKED then
           (if length topics < 2 then None else Some (EnclaveRevoked (addr_from_topic (topics ! 1))))
         else None)"

section \<open>The watcher crate\<close>

datatype WEvent =
    WResultSubmitted (w_result_id: bytes) (w_model_hash: bytes) (w_input_hash: bytes) (w_submitter: bytes) (w_block_number: u64)
  | WResultChallenged (w_result_id: bytes) (w_challenger: bytes)
  | WResultFinalized (w_result_id: bytes)
  | WResultExpired (w_result_id: bytes)
  | WDisputeResolved (w_result_id: bytes) (w_prover_won: bool)

record Log =
  log_address :: bytes
  log_topics :: "bytes list"
  log_data :: bytes
  log_block_number :: "u64 option"

record TaggedEvent =
  contract_address :: bytes
  tagged_event :: WEvent

text \<open>\<open>topics.get(i)\<close>.\<close>

definition get :: "'a list \<Rightarrow> nat \<Rightarrow> 'a option" where
  "get xs i = (if i < length xs then Some (xs ! i) else None)"

definition watcher_parse_log :: "Log \<Rightarrow> WEvent option" where
  "watcher_parse_log log =
     (let topics = log_topics log; data = log_data log
      in if topics = [] then None
         else let topic0 = topics ! 0;
                  block_number = (case log_block_number log of Some b \<Rightarrow> b | None \<Rightarrow> 0)
         in if topic0 = TOPIC_RESULT_SUBMITTED then
              Option.bind (get topics 1) (\<lambda>result_id.
              Option.bind (get topics 2) (\<lambda>model_hash.
              Option.bind (get topics 3) (\<lambda>submitter_topic.
                if length data < 32 then None
                else Some (WResultSubmitted result_id model_hash (sub_bytes data 0 32) (sub_bytes submitter_topic 12 32) block_number))))
            else if topic0 = TOPIC_RESULT_CHALLENGED then
              Option.bind (get topics 1) (\<lambda>result_id.
                if length data < 32 then None else Some (WResultChallenged result_id (sub_bytes data 12 32)))
            else if topic0 = TOPIC_RESULT_FINALIZED then
              Option.bind (get topics 1) (\<lambda>result_id. Some (WResultFinalized result_id))
            else if topic0 = TOPIC_RESULT_EXPIRED then
              Option.bind (get topics 1) (\<lambda>result_id. Some (WResultExpired result_id))
            else if topic0 = TOPIC_DISPUTE_RESOLVED then
              Option.bind (get topics 1) (\<lambda>result_id.
                if length data < 32 then None else Some (WDisputeResolved result_id (data ! 31 \<noteq> 0)))
            else None)"

definition parse_log_tagged :: "Log \<Rightarrow> TaggedEvent option" where
  "parse_log_tagged log =
     map_option (\<lambda>ev. \<lparr> contract_address = log_address log, tagged_event = ev \<rparr>) (watcher_parse_log log)"

text \<open>The node: its latest block, and the logs of a list of contracts, optionally with a first topic, in a range of blocks.\<close>

record 'e provider =
  url_ok :: "'e option"
  get_block_number :: "'e + u64"
  get_logs :: "bytes list \<Rightarrow> bytes option \<Rightarrow> u64 \<Rightarrow> u64 \<Rightarrow> 'e + Log list"

definition new_multi :: "bytes list \<Rightarrow> panic + bytes list" where
  "new_multi addresses =
     (if addresses = [] then Inl (Assert_Failed ''EventWatcher requires at least one contract address'') else Inr addresses)"

text \<open>\<open>poll_events\<close> and \<open>poll_events_tagged\<close> differ in the decoder of a log.\<close>

definition poll_with :: "(Log \<Rightarrow> 'a option) \<Rightarrow> 'e provider \<Rightarrow> bytes list \<Rightarrow> u64 \<Rightarrow> 'e + 'a list \<times> u64" where
  "poll_with dec p addresses from_block =
     (case url_ok p of
        Some e \<Rightarrow> Inl e
      | None \<Rightarrow>
          (case get_block_number p of
             Inl e \<Rightarrow> Inl e
           | Inr latest \<Rightarrow>
               if latest < from_block then Inr ([], from_block)
               else (case get_logs p addresses None from_block latest of
                       Inl e \<Rightarrow> Inl e
                     | Inr logs \<Rightarrow> Inr (List.map_filter dec logs, latest + 1))))"

definition poll_events :: "'e provider \<Rightarrow> bytes list \<Rightarrow> u64 \<Rightarrow> 'e + WEvent list \<times> u64" where
  "poll_events = poll_with watcher_parse_log"

definition poll_events_tagged :: "'e provider \<Rightarrow> bytes list \<Rightarrow> u64 \<Rightarrow> 'e + TaggedEvent list \<times> u64" where
  "poll_events_tagged = poll_with parse_log_tagged"

definition get_challenges :: "'e provider \<Rightarrow> bytes list \<Rightarrow> u64 \<Rightarrow> u64 \<Rightarrow> 'e + (bytes \<times> bytes) list" where
  "get_challenges p addresses from_block to_block =
     (case url_ok p of
        Some e \<Rightarrow> Inl e
      | None \<Rightarrow>
          (case get_logs p addresses (Some TOPIC_RESULT_CHALLENGED) from_block to_block of
             Inl e \<Rightarrow> Inl e
           | Inr logs \<Rightarrow>
               Inr (List.map_filter (\<lambda>log. case watcher_parse_log log of
                      Some (WResultChallenged result_id ch) \<Rightarrow> Some (result_id, ch) | _ \<Rightarrow> None) logs)))"

definition get_submissions :: "'e provider \<Rightarrow> bytes list \<Rightarrow> u64 \<Rightarrow> u64 \<Rightarrow> 'e + bytes list" where
  "get_submissions p addresses from_block to_block =
     (case url_ok p of
        Some e \<Rightarrow> Inl e
      | None \<Rightarrow>
          (case get_logs p addresses (Some TOPIC_RESULT_SUBMITTED) from_block to_block of
             Inl e \<Rightarrow> Inl e
           | Inr logs \<Rightarrow>
               Inr (List.map_filter (\<lambda>log. case watcher_parse_log log of
                      Some (WResultSubmitted result_id _ _ _ _) \<Rightarrow> Some result_id | _ \<Rightarrow> None) logs)))"

text \<open>\<open>From<&TEEEvent> for tee_events::TEEEvent\<close>.\<close>

fun to_tee_event :: "WEvent \<Rightarrow> TEEEvent" where
  "to_tee_event (WResultSubmitted r m i s b) = ResultSubmitted r s m i [] 0"
| "to_tee_event (WResultChallenged r c) = ResultChallenged r c 0"
| "to_tee_event (WResultFinalized r) = ResultFinalized r True"
| "to_tee_event (WResultExpired r) = ResultExpired r"
| "to_tee_event (WDisputeResolved r w) = DisputeResolved r w"

section \<open>The two decoders agree\<close>

text \<open>What the watcher keeps of an event: it does not know the enclave events, and drops the result, the amounts and the
  validity flag.\<close>

fun watched :: "TEEEvent \<Rightarrow> TEEEvent option" where
  "watched (ResultSubmitted r s m i _ _) = Some (ResultSubmitted r s m i [] 0)"
| "watched (ResultChallenged r c _) = Some (ResultChallenged r c 0)"
| "watched (ResultFinalized r _) = Some (ResultFinalized r True)"
| "watched (ResultExpired r) = Some (ResultExpired r)"
| "watched (DisputeResolved r w) = Some (DisputeResolved r w)"
| "watched (EnclaveRegistered _ _) = None"
| "watched (EnclaveRevoked _) = None"

lemma sub_bytes_simps: "sub_bytes t 12 32 = take 20 (drop 12 t)" "take 20 (drop 12 (sub_bytes d 0 32)) = sub_bytes d 12 32"
  by (simp_all add: sub_bytes_def drop_take min_def)

lemma decoders_agree:
  "map_option to_tee_event (watcher_parse_log log) = Option.bind (parse_log (log_topics log) (log_data log)) watched"
  by (simp add: watcher_parse_log_def parse_log_def get_def addr_from_topic_def addr_from_data_def sub_bytes_simps Let_def)

section \<open>Polling\<close>

text \<open>The history of the chain is a list of logs in the order of their blocks. A node answers with the logs of the
  queried contracts in the queried blocks, as long as it has seen those blocks; it may be behind, and it may fail.\<close>

definition block_of :: "Log \<Rightarrow> u64" where
  "block_of l = (case log_block_number l of Some n \<Rightarrow> n | None \<Rightarrow> 0)"

definition history_ok :: "Log list \<Rightarrow> bool" where
  "history_ok chain \<longleftrightarrow> sorted (map block_of chain)"

definition node_ok :: "Log list \<Rightarrow> 'e provider \<Rightarrow> bool" where
  "node_ok chain p \<longleftrightarrow>
     (\<forall>latest. get_block_number p = Inr latest \<longrightarrow>
        latest \<noteq> - 1
        \<and> (\<forall>addresses a logs. get_logs p addresses None a latest = Inr logs \<longrightarrow>
             logs = filter (\<lambda>l. log_address l \<in> set addresses \<and> a \<le> block_of l \<and> block_of l \<le> latest) chain))"

text \<open>The events of the blocks from \<open>a\<close> to before \<open>b\<close>.\<close>

definition events_between :: "bytes list \<Rightarrow> Log list \<Rightarrow> u64 \<Rightarrow> u64 \<Rightarrow> WEvent list" where
  "events_between addresses chain a b =
     List.map_filter watcher_parse_log (filter (\<lambda>l. log_address l \<in> set addresses \<and> a \<le> block_of l \<and> block_of l < b) chain)"

text \<open>Successive polls, each from where the last successful one ended.\<close>

definition poll_step :: "bytes list \<Rightarrow> 'e provider \<Rightarrow> WEvent list \<times> u64 \<Rightarrow> WEvent list \<times> u64" where
  "poll_step addresses p s =
     (case poll_events p addresses (snd s) of Inr (evs, next_block) \<Rightarrow> (fst s @ evs, next_block) | Inl e \<Rightarrow> s)"

lemma poll_step_simps:
  "poll_events p addresses b = Inl e \<Longrightarrow> poll_step addresses p (evs, b) = (evs, b)"
  "poll_events p addresses b = Inr (es, c) \<Longrightarrow> poll_step addresses p (evs, b) = (evs @ es, c)"
  by (simp_all add: poll_step_def)

lemma less_next_block: "latest \<noteq> - 1 \<Longrightarrow> (n :: u64) < latest + 1 \<longleftrightarrow> n \<le> latest"
proof -
  assume "latest \<noteq> - 1"
  then have "1 + latest \<noteq> 0" by (metis eq_neg_iff_add_eq_0 add.commute)
  then have "unat (1 + latest) = Suc (unat latest)" by (rule unatSuc)
  then show ?thesis by (simp add: word_less_nat_alt word_le_nat_alt add.commute less_Suc_eq_le)
qed

lemma filter_split_sorted:
  fixes key :: "'a \<Rightarrow> 'b :: linorder"
  assumes "sorted (map key xs)" "a \<le> b" "b \<le> c"
  shows "filter (\<lambda>x. P x \<and> a \<le> key x \<and> key x < c) xs =
    filter (\<lambda>x. P x \<and> a \<le> key x \<and> key x < b) xs @ filter (\<lambda>x. P x \<and> b \<le> key x \<and> key x < c) xs"
  using assms(1)
proof (induction xs)
  case Nil
  then show ?case by simp
next
  case (Cons x xs)
  show ?case
  proof (cases "key x < b")
    case True
    then show ?thesis using Cons assms(2,3) by auto
  next
    case False
    then have "b \<le> key y" if "y \<in> set xs" for y using Cons.prems that by (auto simp: not_less intro: order_trans)
    then have "filter (\<lambda>x. P x \<and> a \<le> key x \<and> key x < b) xs = []" by (auto simp: filter_empty_conv not_less)
    then show ?thesis using Cons False assms(2,3) by auto
  qed
qed

lemma map_filter_append: "List.map_filter f (xs @ ys) = List.map_filter f xs @ List.map_filter f ys"
  by (simp add: List.map_filter_def)

lemma events_between_append:
  assumes "history_ok chain" "a \<le> b" "b \<le> c"
  shows "events_between addresses chain a c = events_between addresses chain a b @ events_between addresses chain b c"
  unfolding events_between_def using filter_split_sorted [of block_of chain a b c "\<lambda>l. log_address l \<in> set addresses"] assms
  by (simp add: history_ok_def map_filter_append)

lemma events_between_empty: "events_between addresses chain a a = []"
  by (auto simp: events_between_def filter_empty_conv List.map_filter_def)

lemma poll_events_result:
  assumes "node_ok chain p" "poll_events p addresses a = Inr (evs, b)"
  shows "evs = events_between addresses chain a b" "a \<le> b"
proof -
  consider (behind) "evs = []" "b = a"
    | (ahead) latest logs where "get_block_number p = Inr latest" "a \<le> latest" "get_logs p addresses None a latest = Inr logs"
        "evs = List.map_filter watcher_parse_log logs" "b = latest + 1"
    using assms(2) by (auto simp: poll_events_def poll_with_def not_less split: option.splits sum.splits if_splits)
  then have "evs = events_between addresses chain a b \<and> a \<le> b"
  proof cases
    case behind
    then show ?thesis by (simp add: events_between_empty)
  next
    case ahead
    then have "latest \<noteq> - 1"
        "logs = filter (\<lambda>l. log_address l \<in> set addresses \<and> a \<le> block_of l \<and> block_of l \<le> latest) chain"
      using assms(1) by (auto simp: node_ok_def)
    then show ?thesis using ahead less_next_block [of latest] by (simp add: events_between_def less_imp_le)
  qed
  then show "evs = events_between addresses chain a b" "a \<le> b" by simp_all
qed

lemma poll_run:
  assumes "history_ok chain" "\<forall>p\<in>set ps. node_ok chain p"
  shows "case fold (poll_step addresses) ps ([], a) of (evs, b) \<Rightarrow> evs = events_between addresses chain a b \<and> a \<le> b"
  using assms(2)
proof (induction ps rule: rev_induct)
  case Nil
  then show ?case by (simp add: events_between_empty)
next
  case (snoc p ps)
  obtain evs b where run: "fold (poll_step addresses) ps ([], a) = (evs, b)" by fastforce
  with snoc have IH: "evs = events_between addresses chain a b" "a \<le> b" by auto
  show ?case
  proof (cases "poll_events p addresses b")
    case (Inl e)
    then show ?thesis using run IH by (simp add: poll_step_simps)
  next
    case (Inr r)
    then obtain es c where r: "poll_events p addresses b = Inr (es, c)" by (cases r) auto
    have "es = events_between addresses chain b c" "b \<le> c" using poll_events_result [OF _ r] snoc.prems by auto
    then show ?thesis using run IH r events_between_append [OF assms(1), of a b c addresses]
      by (simp add: poll_step_simps)
  qed
qed

end
