(* ===== verification/Operator_Store.thy ===== *)
theory Operator_Store
  imports Bounded_Window "HOL-Library.AList"
begin

text \<open>
  The crash-recovery state of the operator (\<open>services/operator/src/store.rs\<close>): the bounded tracker of processed event ids,
  the persistent state, and the state file that is replaced atomically.

  A hash map is an association list without repeated keys, in any order. The file system is a map from paths to
  contents; every operation of \<open>save\<close> may fail, and the process may be killed between and during operations, so that
  \<open>save_trace\<close> lists the file systems that can be left behind. \<open>rename\<close> replaces its target in one step, as \<open>std::fs\<close>
  documents for the platforms it runs on. The JSON printer and parser are parameters.
\<close>

section \<open>The tracker of processed events\<close>

definition MAX_PROCESSED_IDS :: nat where
  "MAX_PROCESSED_IDS = 10000"

record ProcessedEventTracker =
  ids_set :: "string set"
  ids_order :: "string list"

definition tracker_new :: ProcessedEventTracker where
  "tracker_new = \<lparr> ids_set = {}, ids_order = [] \<rparr>"

text \<open>The loop \<open>while set.len() > MAX\<close>; it ends because every iteration shortens the queue.\<close>

fun evict_loop :: "string set \<Rightarrow> string list \<Rightarrow> string set \<times> string list" where
  "evict_loop S [] = (S, [])"
| "evict_loop S (oldest # rest) =
     (if MAX_PROCESSED_IDS < card S then evict_loop (S - {oldest}) rest else (S, oldest # rest))"

definition evict_excess :: "ProcessedEventTracker \<Rightarrow> ProcessedEventTracker" where
  "evict_excess tr = (case evict_loop (ids_set tr) (ids_order tr) of (S, xs) \<Rightarrow> \<lparr> ids_set = S, ids_order = xs \<rparr>)"

definition tracker_insert :: "string \<Rightarrow> ProcessedEventTracker \<Rightarrow> bool \<times> ProcessedEventTracker" where
  "tracker_insert k tr =
     (if k \<in> ids_set tr then (False, tr)
      else (True, evict_excess (tr\<lparr> ids_set := insert k (ids_set tr), ids_order := ids_order tr @ [k] \<rparr>)))"

definition tracker_contains :: "string \<Rightarrow> ProcessedEventTracker \<Rightarrow> bool" where
  "tracker_contains k tr \<longleftrightarrow> k \<in> ids_set tr"

definition tracker_len :: "ProcessedEventTracker \<Rightarrow> nat" where
  "tracker_len tr = card (ids_set tr)"

definition tracker_is_empty :: "ProcessedEventTracker \<Rightarrow> bool" where
  "tracker_is_empty tr \<longleftrightarrow> ids_set tr = {}"

definition from_vec :: "string list \<Rightarrow> ProcessedEventTracker" where
  "from_vec items =
     (let kept = drop (length items - MAX_PROCESSED_IDS) items in \<lparr> ids_set = set kept, ids_order = kept \<rparr>)"

text \<open>\<open>PartialEq\<close>, \<open>Serialize\<close>.\<close>

definition tracker_eq :: "ProcessedEventTracker \<Rightarrow> ProcessedEventTracker \<Rightarrow> bool" where
  "tracker_eq a b \<longleftrightarrow> ids_set a = ids_set b"

definition tracker_serialize :: "ProcessedEventTracker \<Rightarrow> string list" where
  "tracker_serialize tr = ids_order tr"

section \<open>The state file\<close>

record OperatorState =
  last_polled_block :: u64
  active_disputes :: "(string \<times> u64) list"
  processed_event_ids :: ProcessedEventTracker

definition OperatorState_default :: OperatorState where
  "OperatorState_default = \<lparr> last_polled_block = 0, active_disputes = [], processed_event_ids = tracker_new \<rparr>"

text \<open>What is written: the tracker appears as the array of its ids.\<close>

type_synonym wire_state = "u64 \<times> (string \<times> u64) list \<times> string list"

definition to_wire :: "OperatorState \<Rightarrow> wire_state" where
  "to_wire st = (last_polled_block st, active_disputes st, tracker_serialize (processed_event_ids st))"

definition from_wire :: "wire_state \<Rightarrow> OperatorState" where
  "from_wire w =
     (case w of (b, ds, xs) \<Rightarrow> \<lparr> last_polled_block = b, active_disputes = ds, processed_event_ids = from_vec xs \<rparr>)"

type_synonym files = "string \<rightharpoonup> string"

text \<open>What the operations on files report: \<open>Write_Failed\<close> leaves some contents, or no file, at the temporary path.\<close>

datatype write_result = Write_Ok | Write_Failed "string option"

record outcome =
  mkdir_ok :: bool
  read_ok :: bool
  write_res :: write_result
  rename_ok :: bool
  remove_ok :: bool

datatype store_error = Mkdir_Error | Read_Error | Parse_Error | Write_Error | Rename_Error

definition tmp_path :: "string \<Rightarrow> string" where
  "tmp_path path = path @ ''.tmp''"

definition store_load :: "(string \<Rightarrow> wire_state option) \<Rightarrow> outcome \<Rightarrow> string \<Rightarrow> files \<Rightarrow> store_error + OperatorState option" where
  "store_load parse oc path fs =
     (case fs path of
        None \<Rightarrow> Inr None
      | Some json \<Rightarrow>
          if \<not> read_ok oc then Inl Read_Error
          else (case parse json of None \<Rightarrow> Inl Parse_Error | Some w \<Rightarrow> Inr (Some (from_wire w))))"

definition load_or_default :: "(string \<Rightarrow> wire_state option) \<Rightarrow> outcome \<Rightarrow> string \<Rightarrow> files \<Rightarrow> OperatorState" where
  "load_or_default parse oc path fs =
     (case store_load parse oc path fs of
        Inr (Some st) \<Rightarrow> st
      | Inr None \<Rightarrow> OperatorState_default
      | Inl e \<Rightarrow> OperatorState_default)"

text \<open>\<open>save\<close>: the result and the file system afterwards. Printing a state of this shape does not fail.\<close>

definition store_save :: "(wire_state \<Rightarrow> string) \<Rightarrow> outcome \<Rightarrow> string \<Rightarrow> OperatorState \<Rightarrow> files \<Rightarrow> (store_error + unit) \<times> files" where
  "store_save print oc path st fs =
     (if \<not> mkdir_ok oc then (Inl Mkdir_Error, fs)
      else let json = print (to_wire st); tmp = tmp_path path
           in (case write_res oc of
                 Write_Failed partial \<Rightarrow> (Inl Write_Error, fs(tmp := partial))
               | Write_Ok \<Rightarrow>
                   (let fs = fs(tmp \<mapsto> json)
                    in if rename_ok oc then (Inr (), fs(path \<mapsto> json, tmp := None))
                       else (Inl Rename_Error, if remove_ok oc then fs(tmp := None) else fs))))"

text \<open>The file systems that a process killed during \<open>save\<close> can leave: nothing done, the temporary file missing or with
  any contents, and the file systems of the completed run.\<close>

inductive save_trace :: "(wire_state \<Rightarrow> string) \<Rightarrow> string \<Rightarrow> OperatorState \<Rightarrow> files \<Rightarrow> files \<Rightarrow> bool" for print path st fs where
  untouched: "save_trace print path st fs fs"
| writing: "save_trace print path st fs (fs(tmp_path path := partial))"
| finished: "save_trace print path st fs (snd (store_save print oc path st fs))"

section \<open>Laws of the tracker\<close>

text \<open>The tracker holds the last accepted ids, oldest first.\<close>

definition tracker_inv :: "string list \<Rightarrow> ProcessedEventTracker \<Rightarrow> bool" where
  "tracker_inv accepted tr \<longleftrightarrow>
     ids_order tr = rev (take MAX_PROCESSED_IDS accepted) \<and> distinct (ids_order tr) \<and> ids_set tr = set (ids_order tr)"

definition tracker_ok :: "ProcessedEventTracker \<Rightarrow> bool" where
  "tracker_ok tr \<longleftrightarrow> distinct (ids_order tr) \<and> ids_set tr = set (ids_order tr) \<and> length (ids_order tr) \<le> MAX_PROCESSED_IDS"

lemma tracker_inv_ok: "tracker_inv accepted tr \<Longrightarrow> tracker_ok tr"
  by (auto simp: tracker_inv_def tracker_ok_def)

lemma tracker_inv_exists: "tracker_ok tr \<Longrightarrow> tracker_inv (rev (ids_order tr)) tr"
  by (simp add: tracker_inv_def tracker_ok_def)

lemma tracker_inv_new: "tracker_inv [] tracker_new"
  by (simp add: tracker_inv_def tracker_new_def)

lemma evict_none: "card S \<le> MAX_PROCESSED_IDS \<Longrightarrow> evict_loop S xs = (S, xs)"
  by (cases xs) auto

lemma evict_one: "card S = Suc MAX_PROCESSED_IDS \<Longrightarrow> x \<in> S \<Longrightarrow> evict_loop S (x # xs) = (S - {x}, xs)"
  by (simp add: evict_none)

lemma tracker_insert_window:
  assumes "tracker_inv accepted tr" "fst (tracker_insert k tr)"
  shows "tracker_inv (k # accepted) (snd (tracker_insert k tr))"
proof -
  let ?m = MAX_PROCESSED_IDS
  obtain m where m: "?m = Suc m" by (simp add: MAX_PROCESSED_IDS_def)
  have inv: "ids_order tr = rev (take ?m accepted)" "distinct (take ?m accepted)" "ids_set tr = set (take ?m accepted)"
    using assms(1) by (auto simp: tracker_inv_def)
  have new: "k \<notin> set (take ?m accepted)" using assms(2) inv by (auto simp: tracker_insert_def)
  then have new': "k \<notin> set (take m accepted)" using set_take_subset_set_take [of m ?m accepted] m by auto
  have dist: "distinct (take m accepted)" using inv(2) distinct_take [of "take ?m accepted" m] m by simp
  have tk: "take ?m (k # accepted) = k # take m accepted" unfolding m by simp
  have ev: "snd (tracker_insert k tr) =
      evict_excess \<lparr> ids_set = insert k (set (take ?m accepted)), ids_order = rev (take ?m accepted) @ [k] \<rparr>"
    using new inv by (simp add: tracker_insert_def evict_excess_def)
  show ?thesis
  proof (cases "m < length accepted")
    case True
    have t: "take ?m accepted = take m accepted @ [accepted ! m]" unfolding m by (rule take_Suc_conv_app_nth [OF True])
    have card: "card (insert k (set (take ?m accepted))) = Suc ?m"
      using new distinct_card [OF inv(2)] True m by simp
    have "evict_excess \<lparr> ids_set = insert k (set (take ?m accepted)), ids_order = rev (take ?m accepted) @ [k] \<rparr> =
        \<lparr> ids_set = insert k (set (take ?m accepted)) - {accepted ! m}, ids_order = rev (take m accepted) @ [k] \<rparr>"
      using evict_one [OF card, of "accepted ! m" "rev (take m accepted) @ [k]"] unfolding evict_excess_def t by simp
    moreover have "insert k (set (take ?m accepted)) - {accepted ! m} = insert k (set (take m accepted))"
      using new inv(2) unfolding t by auto
    ultimately show ?thesis unfolding ev tracker_inv_def tk using new' dist by simp
  next
    case False
    then have all: "take ?m accepted = accepted" "take m accepted = accepted" using m by simp_all
    have "card (insert k (set accepted)) \<le> ?m" using False m distinct_card [OF inv(2)] all new by simp
    then show ?thesis unfolding ev tracker_inv_def tk using all new' dist by (simp add: evict_excess_def evict_none)
  qed
qed

interpretation tracker: bounded_window tracker_insert tracker_inv MAX_PROCESSED_IDS
proof
  show "fst (tracker_insert k tr) \<longleftrightarrow> k \<notin> set (take MAX_PROCESSED_IDS accepted)" if "tracker_inv accepted tr" for accepted tr k
    using that by (simp add: tracker_insert_def tracker_inv_def)
qed (use tracker_insert_window in \<open>auto simp: tracker_insert_def split: if_splits\<close>)

lemma tracker_insert_ok: "tracker_ok tr \<Longrightarrow> tracker_ok (snd (tracker_insert k tr))"
  using tracker.accept_inv [OF tracker_inv_exists, of tr k] tracker_inv_ok
  by (cases "fst (tracker_insert k tr)") (auto simp: tracker_insert_def split: if_splits)

text \<open>A tracker survives the state file, and a file without repeated ids gives a well-formed tracker.\<close>

lemma tracker_roundtrip: "tracker_ok tr \<Longrightarrow> from_vec (tracker_serialize tr) = tr"
  by (simp add: from_vec_def tracker_serialize_def tracker_ok_def Let_def)

lemma from_vec_ok: "distinct xs \<Longrightarrow> tracker_ok (from_vec xs)"
  by (simp add: from_vec_def tracker_ok_def Let_def)

text \<open>A file that repeats an id gives a tracker that forgets the id when its first copy is evicted.\<close>

lemma repeated_id_forgotten:
  assumes "ids_order tr = a # xs" "a \<in> set xs" "ids_set tr = set xs" "card (set xs) = MAX_PROCESSED_IDS" "k \<notin> set xs"
  shows "\<not> tracker_contains a (snd (tracker_insert k tr))" "a \<in> set (ids_order (snd (tracker_insert k tr)))"
proof -
  have "card (insert k (set xs)) = Suc MAX_PROCESSED_IDS" using assms by simp
  from evict_one [OF this, of a "xs @ [k]"] assms
  have "snd (tracker_insert k tr) = \<lparr> ids_set = insert k (set xs) - {a}, ids_order = xs @ [k] \<rparr>"
    by (simp add: tracker_insert_def evict_excess_def)
  then show "\<not> tracker_contains a (snd (tracker_insert k tr))" "a \<in> set (ids_order (snd (tracker_insert k tr)))"
    using assms by (auto simp: tracker_contains_def)
qed

section \<open>Laws of the state file\<close>

lemma tmp_path_neq [simp]: "tmp_path path \<noteq> path" "path \<noteq> tmp_path path"
  by (simp_all add: tmp_path_def)

lemma wire_roundtrip: "tracker_ok (processed_event_ids st) \<Longrightarrow> from_wire (to_wire st) = st"
  by (simp add: from_wire_def to_wire_def tracker_roundtrip)

lemma store_save_target:
  "store_save print oc path st fs = (r, fs') \<Longrightarrow>
     (fs' path = fs path \<and> r \<noteq> Inr ()) \<or> (fs' path = Some (print (to_wire st)) \<and> r = Inr ())"
  by (auto simp: store_save_def Let_def split: if_splits write_result.splits)

lemma store_save_others:
  "p \<noteq> path \<Longrightarrow> p \<noteq> tmp_path path \<Longrightarrow> snd (store_save print oc path st fs) p = fs p"
  by (auto simp: store_save_def Let_def split: write_result.split)

lemma save_trace_target:
  assumes "save_trace print path st fs fs'"
  shows "fs' path = fs path \<or> fs' path = Some (print (to_wire st))"
  using assms
proof cases
  case (finished oc)
  then show ?thesis using store_save_target [of print oc path st fs] by (metis prod.collapse)
qed auto

lemma store_load_cong: "fs' path = fs path \<Longrightarrow> store_load parse oc path fs' = store_load parse oc path fs"
  by (simp add: store_load_def)

lemma store_load_saved:
  assumes "fs path = Some (print (to_wire st))" "parse (print (to_wire st)) = Some (to_wire st)"
    "tracker_ok (processed_event_ids st)" "read_ok oc"
  shows "store_load parse oc path fs = Inr (Some st)"
  using assms by (simp add: store_load_def wire_roundtrip)

end
