(* ===== verification/Hash_Maps.thy ===== *)
theory Hash_Maps
  imports Main "HOL-Library.AList"
begin

text \<open>
  Hash maps of the services as association lists without repeated keys. The order of the list stands for the iteration
  order of the hash map, which the source does not fix; an insertion under a new key goes to the end, and nothing in the
  development depends on that.
\<close>

definition keys_ok :: "('k \<times> 'v) list \<Rightarrow> bool" where
  "keys_ok m \<longleftrightarrow> distinct (map fst m)"

lemma keys_ok_Nil [simp]: "keys_ok []"
  by (simp add: keys_ok_def)

lemma update_new: "k \<notin> fst ` set m \<Longrightarrow> AList.update k v m = m @ [(k, v)]"
  by (induction m) auto

lemma update_split:
  assumes "keys_ok m" "map_of m k = Some v0"
  obtains xs ys where "m = xs @ (k, v0) # ys" "k \<notin> fst ` set xs" "k \<notin> fst ` set ys"
    "\<And>v. AList.update k v m = xs @ (k, v) # ys"
proof -
  have upd: "AList.update k v (xs @ (k, v0) # ys) = xs @ (k, v) # ys" if "k \<notin> fst ` set xs" for v xs ys
    using that by (induction xs) auto
  from assms(2) obtain xs ys where m: "m = xs @ (k, v0) # ys" by (meson map_of_SomeD split_list)
  then have "k \<notin> fst ` set xs" "k \<notin> fst ` set ys" using assms(1) by (auto simp: keys_ok_def)
  with m upd that show thesis by blast
qed

lemma keys_ok_update [simp]: "keys_ok m \<Longrightarrow> keys_ok (AList.update k v m)"
  by (simp add: keys_ok_def distinct_update)

lemma keys_ok_delete [simp]: "keys_ok m \<Longrightarrow> keys_ok (AList.delete k m)"
  by (simp add: keys_ok_def distinct_delete)

lemma map_of_update [simp]: "map_of (AList.update k v m) = (map_of m)(k \<mapsto> v)"
  by (rule update_conv')

lemma map_of_delete [simp]: "map_of (AList.delete k m) = (map_of m)(k := None)"
  by (rule delete_conv')

lemma keys_update [simp]: "fst ` set (AList.update k v m) = insert k (fst ` set m)"
  by (metis dom_map_of_conv_image_fst dom_fun_upd map_of_update option.simps(3))

lemma keys_delete [simp]: "fst ` set (AList.delete k m) = fst ` set m - {k}"
  by (metis dom_map_of_conv_image_fst dom_fun_upd map_of_delete)

lemma in_set_iff_map_of: "keys_ok m \<Longrightarrow> (k, v) \<in> set m \<longleftrightarrow> map_of m k = Some v"
  by (simp add: keys_ok_def)

lemma key_in_iff: "k \<in> fst ` set m \<longleftrightarrow> map_of m k \<noteq> None"
  by (simp add: map_of_eq_None_iff)

text \<open>\<open>get_mut\<close> on a list of keys that were collected before: the values under those keys are changed, in place.\<close>

lemma fold_modify:
  assumes "keys_ok m" "distinct ks" "set ks \<subseteq> fst ` set m"
  shows "fold (\<lambda>k m. case map_of m k of Some v \<Rightarrow> AList.update k (f v) m | None \<Rightarrow> m) ks m =
    map (\<lambda>(k, v). (k, if k \<in> set ks then f v else v)) m"
  using assms
proof (induction ks arbitrary: m)
  case Nil
  then show ?case by (simp add: case_prod_unfold)
next
  case (Cons k ks)
  then obtain v where v: "map_of m k = Some v" by (auto simp: key_in_iff)
  obtain xs ys where m: "m = xs @ (k, v) # ys" "k \<notin> fst ` set xs" "k \<notin> fst ` set ys"
      "AList.update k (f v) m = xs @ (k, f v) # ys"
    using update_split [OF Cons.prems(1) v] by metis
  have "keys_ok (xs @ (k, f v) # ys)" using Cons.prems(1) m by (simp add: keys_ok_def)
  moreover have "set ks \<subseteq> fst ` set (xs @ (k, f v) # ys)" using Cons.prems(3) m by auto
  ultimately have "fold (\<lambda>k m. case map_of m k of Some v \<Rightarrow> AList.update k (f v) m | None \<Rightarrow> m) ks (xs @ (k, f v) # ys) =
      map (\<lambda>(k, v). (k, if k \<in> set ks then f v else v)) (xs @ (k, f v) # ys)"
    using Cons by simp
  also have "\<dots> = map (\<lambda>(k', v). (k', if k' \<in> set (k # ks) then f v else v)) m"
    using m(1-3) Cons.prems(2) by (auto simp: case_prod_unfold intro!: map_cong)
  finally show ?case using v m(4) by simp
qed

end
