(* ===== verification/Hex_Format.thy ===== *)
theory Hex_Format
  imports Main
begin

text \<open>
  Formatting of numbers in the standard library: \<open>{:x}\<close> and its padded forms, with the value of the text, and decimal
  numbers.
\<close>

definition hex_digit :: "nat \<Rightarrow> char" where
  "hex_digit d = char_of (if d < 10 then 48 + d else 87 + d)"

fun hex_digits :: "nat \<Rightarrow> string" where
  "hex_digits n = (if n < 16 then [hex_digit n] else hex_digits (n div 16) @ [hex_digit (n mod 16)])"

declare hex_digits.simps [simp del]

text \<open>\<open>{:0wx}\<close>.\<close>

definition hex_padded :: "nat \<Rightarrow> nat \<Rightarrow> string" where
  "hex_padded w n = (let ds = hex_digits n in replicate (w - length ds) (CHR ''0'') @ ds)"

definition hex_value :: "string \<Rightarrow> nat" where
  "hex_value s = foldl (\<lambda>v c. v * 16 + (let d = of_char c :: nat in if d < 58 then d - 48 else d - 87)) 0 s"

lemma hex_value_single: "d < 16 \<Longrightarrow> (let c = of_char (hex_digit d) :: nat in if c < 58 then c - 48 else c - 87) = d"
  by (auto simp: hex_digit_def Let_def)

lemma hex_value_digits: "hex_value (hex_digits n) = n"
proof (induction n rule: hex_digits.induct)
  case (1 n)
  show ?case
  proof (cases "n < 16")
    case True
    then show ?thesis by (subst hex_digits.simps) (simp add: hex_value_def hex_value_single)
  next
    case False
    then have "hex_value (hex_digits (n div 16)) = n div 16" using 1 by simp
    then show ?thesis using False hex_value_single [of "n mod 16"]
      by (subst hex_digits.simps) (simp add: hex_value_def)
  qed
qed

lemma hex_value_zeros: "hex_value (replicate k (CHR ''0'') @ s) = hex_value s"
  by (induction k) (simp_all add: hex_value_def)

lemma hex_value_padded: "hex_value (hex_padded w n) = n"
  by (simp add: hex_padded_def Let_def hex_value_zeros hex_value_digits)

lemma hex_padded_inject: "hex_padded w m = hex_padded w n \<longleftrightarrow> m = n"
  by (metis hex_value_padded)

section \<open>Decimal numbers\<close>

fun dec_digits :: "nat \<Rightarrow> string" where
  "dec_digits n = (if n < 10 then [char_of (48 + n)] else dec_digits (n div 10) @ [char_of (48 + n mod 10)])"

declare dec_digits.simps [simp del]

definition dec_padded :: "nat \<Rightarrow> nat \<Rightarrow> string" where
  "dec_padded w n = (let ds = dec_digits n in replicate (w - length ds) (CHR ''0'') @ ds)"

end
