(* ===== verification/Alerting.thy ===== *)
theory Alerting
  imports Prelude_ZK Hash_Maps Hex_Format
begin

text \<open>
  The alert manager of the operator (\<open>services/operator/src/alerting.rs\<close>): routing by severity, suppression of duplicates,
  acknowledgement, statistics and escalation.

  The mutex makes every operation atomic. Hash maps are association lists without repeated keys, in any order. The
  reading of the clock (seconds) is an argument. Sending is fire and forget: an operation returns the list of
  \<open>(channel, alert)\<close> pairs handed to the sender. Counters keep their width. A lock poisoned by a panic is not modelled.
\<close>

datatype AlertSeverity = Critical | Warning | Info

fun severity_str :: "AlertSeverity \<Rightarrow> string" where
  "severity_str Critical = ''critical''"
| "severity_str Warning = ''warning''"
| "severity_str Info = ''info''"

datatype AlertChannel =
    SlackWebhook string "string option"
  | PagerDuty string string
  | Email string "16 word" string "string list" "string option" "string option"
  | GenericWebhook string "(string \<times> string) list"

fun channel_type :: "AlertChannel \<Rightarrow> string" where
  "channel_type (SlackWebhook _ _) = ''slack''"
| "channel_type (PagerDuty _ _) = ''pagerduty''"
| "channel_type (Email _ _ _ _ _ _) = ''email''"
| "channel_type (GenericWebhook _ _) = ''generic_webhook''"

fun receives_critical :: "AlertChannel \<Rightarrow> bool" where
  "receives_critical (PagerDuty _ _) = True"
| "receives_critical (SlackWebhook _ _) = True"
| "receives_critical (GenericWebhook _ _) = True"
| "receives_critical (Email _ _ _ _ _ _) = False"

fun receives_warning :: "AlertChannel \<Rightarrow> bool" where
  "receives_warning (SlackWebhook _ _) = True"
| "receives_warning (GenericWebhook _ _) = True"
| "receives_warning (PagerDuty _ _) = False"
| "receives_warning (Email _ _ _ _ _ _) = False"

record Alert =
  al_id :: string
  al_severity :: AlertSeverity
  al_type :: string
  al_source :: string
  al_message :: string
  al_timestamp :: nat
  al_metadata :: "(string \<times> string) list"

record AlertConfig =
  channels :: "AlertChannel list"
  dedup_window_secs :: nat
  escalation_timeout_secs :: nat

definition AlertConfig_default :: AlertConfig where
  "AlertConfig_default = \<lparr> channels = [], dedup_window_secs = 300, escalation_timeout_secs = 900 \<rparr>"

record AlertStats =
  total_sent :: u64
  total_suppressed :: u64
  total_acknowledged :: u64
  by_severity :: "(string \<times> u64) list"

record TrackedAlert =
  tracked_alert :: Alert
  acknowledged :: bool
  last_escalation :: nat

record AlertState =
  alerts :: "(string \<times> TrackedAlert) list"
  dedup_map :: "((string \<times> string) \<times> nat) list"
  alert_stats :: AlertStats
  next_id :: u64

definition AlertState_default :: AlertState where
  "AlertState_default =
     \<lparr> alerts = [], dedup_map = [],
       alert_stats = \<lparr> total_sent = 0, total_suppressed = 0, total_acknowledged = 0, by_severity = [] \<rparr>, next_id = 0 \<rparr>"

text \<open>\<open>format!("alert-{:08x}", n)\<close>.\<close>

definition format_alert_id :: "nat \<Rightarrow> string" where
  "format_alert_id n = ''alert-'' @ hex_padded 8 n"

definition route :: "AlertConfig \<Rightarrow> AlertSeverity \<Rightarrow> AlertChannel list" where
  "route cfg severity =
     (case severity of
        Critical \<Rightarrow> filter receives_critical (channels cfg)
      | Warning \<Rightarrow> filter receives_warning (channels cfg)
      | Info \<Rightarrow> [])"

text \<open>\<open>*entry(k).or_insert(0) += 1\<close>.\<close>

definition count_up :: "'k \<Rightarrow> ('k \<times> u64) list \<Rightarrow> ('k \<times> u64) list" where
  "count_up k m = AList.update k ((case map_of m k of Some n \<Rightarrow> n | None \<Rightarrow> 0) + 1) m"

type_synonym sends = "(AlertChannel \<times> Alert) list"

definition suppressed :: "AlertConfig \<Rightarrow> nat \<Rightarrow> string \<times> string \<Rightarrow> AlertState \<Rightarrow> bool" where
  "suppressed cfg now key st \<longleftrightarrow>
     (case map_of (dedup_map st) key of Some last_ts \<Rightarrow> now - last_ts < dedup_window_secs cfg | None \<Rightarrow> False)"

definition send_alert ::
  "AlertConfig \<Rightarrow> nat \<Rightarrow> AlertSeverity \<Rightarrow> string \<Rightarrow> string \<Rightarrow> string \<Rightarrow> (string \<times> string) list \<Rightarrow> AlertState
   \<Rightarrow> string option \<times> sends \<times> AlertState" where
  "send_alert cfg now severity alert_type source message metadata st =
     (let key = (alert_type, source); stats = alert_stats st
      in if suppressed cfg now key st
         then (None, [], st\<lparr> alert_stats := stats\<lparr> total_suppressed := total_suppressed stats + 1 \<rparr> \<rparr>)
         else let n = next_id st + 1;
                  alert_id = format_alert_id (unat n);
                  alert = \<lparr> al_id = alert_id, al_severity = severity, al_type = alert_type, al_source = source,
                            al_message = message, al_timestamp = now, al_metadata = metadata \<rparr>
              in (Some alert_id, map (\<lambda>ch. (ch, alert)) (route cfg severity),
                  st\<lparr> next_id := n,
                      dedup_map := AList.update key now (dedup_map st),
                      alerts := AList.update alert_id \<lparr> tracked_alert = alert, acknowledged = False, last_escalation = now \<rparr> (alerts st),
                      alert_stats := stats\<lparr> total_sent := total_sent stats + 1,
                                            by_severity := count_up (severity_str severity) (by_severity stats) \<rparr> \<rparr>))"

definition acknowledge :: "string \<Rightarrow> AlertState \<Rightarrow> bool \<times> AlertState" where
  "acknowledge i st =
     (case map_of (alerts st) i of
        None \<Rightarrow> (False, st)
      | Some t \<Rightarrow>
          if acknowledged t then (False, st)
          else (True, st\<lparr> alerts := AList.update i (t\<lparr> acknowledged := True \<rparr>) (alerts st),
                          alert_stats := (alert_stats st)\<lparr> total_acknowledged := total_acknowledged (alert_stats st) + 1 \<rparr> \<rparr>))"

definition get_active_alerts :: "AlertState \<Rightarrow> Alert list" where
  "get_active_alerts st =
     sort_key (\<lambda>a. - int (al_timestamp a)) (map (\<lambda>(i, t). tracked_alert t) (filter (\<lambda>(i, t). \<not> acknowledged t) (alerts st)))"

text \<open>The condition of the escalation loop.\<close>

definition escalates :: "AlertConfig \<Rightarrow> nat \<Rightarrow> TrackedAlert \<Rightarrow> bool" where
  "escalates cfg now t \<longleftrightarrow>
     \<not> acknowledged t \<and> al_severity (tracked_alert t) = Critical \<and> escalation_timeout_secs cfg \<le> now - last_escalation t"

definition check_escalations :: "AlertConfig \<Rightarrow> nat \<Rightarrow> AlertState \<Rightarrow> nat \<times> sends \<times> AlertState" where
  "check_escalations cfg now st =
     (let due = filter (\<lambda>(i, t). escalates cfg now t) (alerts st);
          to_escalate = map (\<lambda>(i, t). tracked_alert t) due;
          updated = fold (\<lambda>i m. case map_of m i of Some t \<Rightarrow> AList.update i (t\<lparr> last_escalation := now \<rparr>) m | None \<Rightarrow> m)
                      (map fst due) (alerts st)
      in (length to_escalate, concat (map (\<lambda>a. map (\<lambda>ch. (ch, a)) (channels cfg)) to_escalate), st\<lparr> alerts := updated \<rparr>))"

definition pending_escalations :: "AlertConfig \<Rightarrow> nat \<Rightarrow> AlertState \<Rightarrow> nat" where
  "pending_escalations cfg now st = length (filter (\<lambda>(i, t). escalates cfg now t) (alerts st))"

section \<open>Alert identifiers\<close>

lemma format_alert_id_inject: "format_alert_id m = format_alert_id n \<longleftrightarrow> m = n"
proof
  assume "format_alert_id m = format_alert_id n"
  then have "hex_value (hex_padded 8 m) = hex_value (hex_padded 8 n)" by (simp add: format_alert_id_def)
  then show "m = n" by (simp add: hex_value_padded)
qed simp

section \<open>Runs\<close>

text \<open>Operations with the clock reading of each; the alerts that were sent are collected, latest first.\<close>

datatype alert_op =
    Send AlertSeverity string string string "(string \<times> string) list"
  | Ack string
  | Escalate

definition alert_key :: "Alert \<Rightarrow> string \<times> string" where
  "alert_key a = (al_type a, al_source a)"

definition new_alert ::
  "nat \<Rightarrow> AlertSeverity \<Rightarrow> string \<Rightarrow> string \<Rightarrow> string \<Rightarrow> (string \<times> string) list \<Rightarrow> AlertState \<Rightarrow> Alert" where
  "new_alert now severity alert_type source message metadata st =
     \<lparr> al_id = format_alert_id (unat (next_id st + 1)), al_severity = severity, al_type = alert_type, al_source = source,
       al_message = message, al_timestamp = now, al_metadata = metadata \<rparr>"

fun alert_step :: "AlertConfig \<Rightarrow> nat \<times> alert_op \<Rightarrow> AlertState \<times> Alert list \<Rightarrow> AlertState \<times> Alert list" where
  "alert_step cfg (now, Send sev ty src msg meta) (st, sent) =
     (case send_alert cfg now sev ty src msg meta st of
        (None, _, st') \<Rightarrow> (st', sent)
      | (Some i, _, st') \<Rightarrow> (st', new_alert now sev ty src msg meta st # sent))"
| "alert_step cfg (now, Ack i) (st, sent) = (snd (acknowledge i st), sent)"
| "alert_step cfg (now, Escalate) (st, sent) = (snd (snd (check_escalations cfg now st)), sent)"

definition alert_run :: "AlertConfig \<Rightarrow> (nat \<times> alert_op) list \<Rightarrow> AlertState \<times> Alert list" where
  "alert_run cfg ops = fold (alert_step cfg) ops (AlertState_default, [])"

text \<open>The most recent alert of a key.\<close>

definition last_of :: "string \<times> string \<Rightarrow> Alert list \<Rightarrow> Alert option" where
  "last_of key sent = find (\<lambda>a. alert_key a = key) sent"

text \<open>Alerts with the same key are at least the window apart, the later one first.\<close>

definition dedup_spaced :: "nat \<Rightarrow> Alert list \<Rightarrow> bool" where
  "dedup_spaced w = sorted_wrt (\<lambda>a b. alert_key a = alert_key b \<longrightarrow> w \<le> al_timestamp a - al_timestamp b)"

definition count_severity :: "AlertSeverity \<Rightarrow> Alert list \<Rightarrow> nat" where
  "count_severity sev sent = length (filter (\<lambda>a. al_severity a = sev) sent)"

definition count_acked :: "AlertState \<Rightarrow> nat" where
  "count_acked st = length (filter (\<lambda>(i, t). acknowledged t) (alerts st))"

definition tracked_ok :: "AlertState \<Rightarrow> Alert list \<Rightarrow> bool" where
  "tracked_ok st sent \<longleftrightarrow>
     keys_ok (alerts st) \<and> fst ` set (alerts st) = al_id ` set sent
     \<and> (\<forall>(i, t)\<in>set (alerts st). tracked_alert t \<in> set sent \<and> al_id (tracked_alert t) = i)"

definition alert_inv :: "AlertConfig \<Rightarrow> AlertState \<times> Alert list \<Rightarrow> bool" where
  "alert_inv cfg s \<longleftrightarrow>
     (case s of (st, sent) \<Rightarrow>
        next_id st = of_nat (length sent)
        \<and> map al_id sent = map format_alert_id (rev [1..<Suc (length sent)])
        \<and> (\<forall>key. map_of (dedup_map st) key = map_option al_timestamp (last_of key sent))
        \<and> dedup_spaced (dedup_window_secs cfg) sent
        \<and> tracked_ok st sent
        \<and> total_sent (alert_stats st) = of_nat (length sent)
        \<and> (\<forall>sev. (case map_of (by_severity (alert_stats st)) (severity_str sev) of Some n \<Rightarrow> n | None \<Rightarrow> 0) = of_nat (count_severity sev sent))
        \<and> total_acknowledged (alert_stats st) = of_nat (count_acked st))"

lemma severity_str_inject [simp]: "severity_str a = severity_str b \<longleftrightarrow> a = b"
  by (cases a; cases b) simp_all

lemma last_of_Cons: "last_of key (a # sent) = (if alert_key a = key then Some a else last_of key sent)"
  by (simp add: last_of_def)

lemma last_of_Some: "last_of key sent = Some a \<Longrightarrow> a \<in> set sent \<and> alert_key a = key"
  by (auto simp: last_of_def find_Some_iff)

text \<open>With the alerts of a key in order, the window only has to be checked against the latest one.\<close>

lemma dedup_spaced_Cons:
  assumes "dedup_spaced w sent"
    and "\<forall>b. last_of (alert_key a) sent = Some b \<longrightarrow> w \<le> al_timestamp a - al_timestamp b"
  shows "dedup_spaced w (a # sent)"
proof -
  have "w \<le> al_timestamp a - al_timestamp c" if "c \<in> set sent" "alert_key c = alert_key a" for c
    using assms that
  proof (induction sent)
    case Nil
    then show ?case by simp
  next
    case (Cons b sent)
    show ?case
    proof (cases "alert_key b = alert_key a")
      case True
      then have b: "w \<le> al_timestamp a - al_timestamp b" using Cons.prems(2) by (simp add: last_of_Cons)
      show ?thesis
      proof (cases "c = b")
        case False
        then have "w \<le> al_timestamp b - al_timestamp c" using Cons.prems True by (auto simp: dedup_spaced_def)
        then show ?thesis using b by linarith
      qed (use b in simp)
    next
      case False
      then show ?thesis using Cons by (auto simp: dedup_spaced_def last_of_Cons)
    qed
  qed
  then show ?thesis using assms(1) by (auto simp: dedup_spaced_def)
qed

lemma not_suppressed_window:
  assumes "\<not> suppressed cfg now key st" "\<forall>key. map_of (dedup_map st) key = map_option al_timestamp (last_of key sent)"
  shows "\<forall>b. last_of key sent = Some b \<longrightarrow> dedup_window_secs cfg \<le> now - al_timestamp b"
  using assms by (auto simp: suppressed_def not_less)

lemma send_alert_suppressed:
  "suppressed cfg now (ty, src) st \<Longrightarrow>
     send_alert cfg now sev ty src msg meta st =
       (None, [], st\<lparr> alert_stats := (alert_stats st)\<lparr> total_suppressed := total_suppressed (alert_stats st) + 1 \<rparr> \<rparr>)"
  by (simp add: send_alert_def Let_def)

lemma send_alert_accepted:
  assumes "\<not> suppressed cfg now (ty, src) st"
  shows "send_alert cfg now sev ty src msg meta st =
    (let a = new_alert now sev ty src msg meta st
     in (Some (al_id a), map (\<lambda>ch. (ch, a)) (route cfg sev),
         st\<lparr> next_id := next_id st + 1, dedup_map := AList.update (ty, src) now (dedup_map st),
             alerts := AList.update (al_id a) \<lparr> tracked_alert = a, acknowledged = False, last_escalation = now \<rparr> (alerts st),
             alert_stats := (alert_stats st)\<lparr> total_sent := total_sent (alert_stats st) + 1,
                                             by_severity := count_up (severity_str sev) (by_severity (alert_stats st)) \<rparr> \<rparr>))"
  using assms by (simp add: send_alert_def new_alert_def Let_def)

text \<open>The number of alerts stays below the width of the counter, so that identifiers do not repeat.\<close>

lemma alert_inv_ids:
  assumes "alert_inv cfg (st, sent)" "length sent < 2 ^ 64 - 1"
  shows "format_alert_id (unat (next_id st + 1)) = format_alert_id (Suc (length sent))"
    "format_alert_id (Suc (length sent)) \<notin> al_id ` set sent"
proof -
  have "next_id st + 1 = (of_nat (Suc (length sent)) :: u64)" using assms(1) by (simp add: alert_inv_def)
  moreover have "unat (of_nat (Suc (length sent)) :: u64) = Suc (length sent)"
    using assms(2) by (simp only: unat_of_nat) simp
  ultimately show "format_alert_id (unat (next_id st + 1)) = format_alert_id (Suc (length sent))" by (simp only:)
  have "map al_id sent = map format_alert_id (rev [1..<Suc (length sent)])" using assms(1) unfolding alert_inv_def prod.case by blast
  from arg_cong [OF this, of set] have "al_id ` set sent = format_alert_id ` {1..<Suc (length sent)}" by (simp del: upt_Suc)
  then show "format_alert_id (Suc (length sent)) \<notin> al_id ` set sent" by (auto simp: format_alert_id_inject)
qed

lemma alert_inv_accept:
  assumes inv: "alert_inv cfg (st, sent)" and len: "length sent < 2 ^ 64 - 1" and ns: "\<not> suppressed cfg now (ty, src) st"
  shows "alert_inv cfg (snd (snd (send_alert cfg now sev ty src msg meta st)), new_alert now sev ty src msg meta st # sent)"
proof -
  let ?a = "new_alert now sev ty src msg meta st"
  have a: "al_id ?a = format_alert_id (Suc (length sent))" "alert_key ?a = (ty, src)" "al_timestamp ?a = now" "al_severity ?a = sev"
    using alert_inv_ids(1) [OF inv len] by (simp_all add: new_alert_def alert_key_def)
  have new: "al_id ?a \<notin> al_id ` set sent" using alert_inv_ids(2) [OF inv len] a(1) by simp
  have i: "next_id st = of_nat (length sent)" "map al_id sent = map format_alert_id (rev [1..<Suc (length sent)])"
      "\<forall>key. map_of (dedup_map st) key = map_option al_timestamp (last_of key sent)"
      "dedup_spaced (dedup_window_secs cfg) sent" "tracked_ok st sent" "total_sent (alert_stats st) = of_nat (length sent)"
      "\<And>sev. (case map_of (by_severity (alert_stats st)) (severity_str sev) of Some n \<Rightarrow> n | None \<Rightarrow> 0) = of_nat (count_severity sev sent)"
      "total_acknowledged (alert_stats st) = of_nat (count_acked st)"
    using inv by (simp_all add: alert_inv_def)
  have "\<forall>b. last_of (alert_key ?a) sent = Some b \<longrightarrow> dedup_window_secs cfg \<le> al_timestamp ?a - al_timestamp b"
    using not_suppressed_window [OF ns i(3)] a(2,3) by simp
  then have sp: "dedup_spaced (dedup_window_secs cfg) (?a # sent)" by (rule dedup_spaced_Cons [OF i(4)])
  have upd: "AList.update (al_id ?a) v (alerts st) = alerts st @ [(al_id ?a, v)]" for v
    using new i(5) by (intro update_new) (simp add: tracked_ok_def)
  have sev: "(case map_of (count_up (severity_str sev) m) (severity_str s) of Some n \<Rightarrow> n | None \<Rightarrow> 0) =
      (case map_of m (severity_str s) of Some n \<Rightarrow> n | None \<Rightarrow> 0) + (if s = sev then 1 else 0)" for m s
    by (simp add: count_up_def)
  let ?st = "snd (snd (send_alert cfg now sev ty src msg meta st))"
  have st: "?st = st\<lparr> next_id := next_id st + 1, dedup_map := AList.update (ty, src) now (dedup_map st),
      alerts := alerts st @ [(al_id ?a, \<lparr> tracked_alert = ?a, acknowledged = False, last_escalation = now \<rparr>)],
      alert_stats := (alert_stats st)\<lparr> total_sent := total_sent (alert_stats st) + 1,
                                      by_severity := count_up (severity_str sev) (by_severity (alert_stats st)) \<rparr> \<rparr>"
    unfolding send_alert_accepted [OF ns] Let_def snd_conv upd ..
  have "map_of (dedup_map ?st) key = map_option al_timestamp (last_of key (?a # sent))" for key
    using i(3) [rule_format, of key] a(2,3) by (simp add: st last_of_Cons)
  moreover have "tracked_ok ?st (?a # sent)" using i(5) new by (auto simp: st tracked_ok_def keys_ok_def)
  moreover have "(case map_of (by_severity (alert_stats ?st)) (severity_str s) of Some n \<Rightarrow> n | None \<Rightarrow> 0)
      = of_nat (count_severity s (?a # sent))" for s
    using i(7) [of s] a(4) by (simp add: st sev count_severity_def)
  moreover have "map al_id (?a # sent) = map format_alert_id (rev [1..<Suc (length (?a # sent))])" using i(2) a(1) by simp
  moreover have "count_acked ?st = count_acked st" by (simp add: st count_acked_def)
  ultimately show ?thesis
    unfolding alert_inv_def prod.case using sp i(1,6,8) by (simp add: st)
qed

lemma alert_inv_suppressed:
  "alert_inv cfg (st, sent) \<Longrightarrow> alert_inv cfg (st\<lparr> alert_stats := (alert_stats st)\<lparr> total_suppressed := n \<rparr> \<rparr>, sent)"
  by (simp add: alert_inv_def tracked_ok_def count_acked_def)

lemma alert_inv_ack: "alert_inv cfg (st, sent) \<Longrightarrow> alert_inv cfg (snd (acknowledge i st), sent)"
proof -
  assume inv: "alert_inv cfg (st, sent)"
  show ?thesis
  proof (cases "\<exists>t. map_of (alerts st) i = Some t \<and> \<not> acknowledged t")
    case True
    then obtain t where t: "map_of (alerts st) i = Some t" "\<not> acknowledged t" by blast
    have keys: "keys_ok (alerts st)" using inv by (simp add: alert_inv_def tracked_ok_def)
    obtain xs ys where m: "alerts st = xs @ (i, t) # ys" "AList.update i (t\<lparr> acknowledged := True \<rparr>) (alerts st) = xs @ (i, t\<lparr> acknowledged := True \<rparr>) # ys"
      using update_split [OF keys t(1)] by metis
    have "snd (acknowledge i st) = st\<lparr> alerts := xs @ (i, t\<lparr> acknowledged := True \<rparr>) # ys,
        alert_stats := (alert_stats st)\<lparr> total_acknowledged := total_acknowledged (alert_stats st) + 1 \<rparr> \<rparr>"
      using t by (simp add: acknowledge_def m(2))
    then show ?thesis using inv t(2) m(1) by (simp add: alert_inv_def tracked_ok_def count_acked_def keys_ok_def)
  next
    case False
    then have "snd (acknowledge i st) = st" by (auto simp: acknowledge_def split: option.split)
    then show ?thesis using inv by simp
  qed
qed

section \<open>Escalation\<close>

lemma check_escalations_alerts:
  assumes "keys_ok (alerts st)"
  shows "alerts (snd (snd (check_escalations cfg now st))) =
    map (\<lambda>(i, t). (i, if escalates cfg now t then t\<lparr> last_escalation := now \<rparr> else t)) (alerts st)"
proof -
  let ?due = "filter (\<lambda>(i, t). escalates cfg now t) (alerts st)"
  let ?esc = "\<lambda>t. t\<lparr> last_escalation := now \<rparr>"
  have due: "i \<in> set (map fst ?due) \<longleftrightarrow> escalates cfg now t" if it: "(i, t) \<in> set (alerts st)" for i t
  proof -
    have "i \<in> set (map fst ?due) \<longleftrightarrow> (\<exists>t'. (i, t') \<in> set (alerts st) \<and> escalates cfg now t')" by (auto simp: image_iff)
    also have "\<dots> \<longleftrightarrow> escalates cfg now t" using it in_set_iff_map_of [OF assms] by auto
    finally show ?thesis .
  qed
  have "alerts (snd (snd (check_escalations cfg now st))) =
      fold (\<lambda>i m. case map_of m i of Some t \<Rightarrow> AList.update i (?esc t) m | None \<Rightarrow> m) (map fst ?due) (alerts st)"
    by (simp add: check_escalations_def Let_def)
  also have "\<dots> = map (\<lambda>(i, t). (i, if i \<in> set (map fst ?due) then ?esc t else t)) (alerts st)"
    using assms by (intro fold_modify) (auto simp: keys_ok_def distinct_map_filter)
  also have "\<dots> = map (\<lambda>(i, t). (i, if escalates cfg now t then ?esc t else t)) (alerts st)"
    by (rule map_cong [OF refl]) (auto simp only: due split: prod.split)
  finally show ?thesis .
qed

lemma tracked_ok_same_keys:
  assumes "tracked_ok st sent" "map fst m = map fst (alerts st)"
    "\<And>i t. (i, t) \<in> set m \<Longrightarrow> tracked_alert t \<in> set sent \<and> al_id (tracked_alert t) = i"
  shows "tracked_ok (st\<lparr> alerts := m \<rparr>) sent"
proof -
  have "fst ` set m = fst ` set (alerts st)" using arg_cong [OF assms(2), of set] by simp
  then show ?thesis using assms unfolding tracked_ok_def keys_ok_def by auto
qed

lemma alert_inv_escalate:
  assumes inv: "alert_inv cfg (st, sent)"
  shows "alert_inv cfg (snd (snd (check_escalations cfg now st)), sent)"
proof -
  have keys: "keys_ok (alerts st)" using inv by (simp add: alert_inv_def tracked_ok_def)
  have rest: "snd (snd (check_escalations cfg now st)) = st\<lparr> alerts := alerts (snd (snd (check_escalations cfg now st))) \<rparr>"
    by (simp add: check_escalations_def Let_def)
  have acked: "length (filter (\<lambda>(i, t). acknowledged t) (map (\<lambda>(i, t). (i, if escalates cfg now t then t\<lparr> last_escalation := now \<rparr> else t)) m))
      = length (filter (\<lambda>(i, t). acknowledged t) m)" for m
    by (induction m) (auto split: if_splits)
  let ?m = "map (\<lambda>(i, t). (i, if escalates cfg now t then t\<lparr> last_escalation := now \<rparr> else t)) (alerts st)"
  have fst: "map fst ?m = map fst (alerts st)" by (induction "alerts st") auto
  have "tracked_alert t' \<in> set sent \<and> al_id (tracked_alert t') = i" if "(i, t') \<in> set ?m" for i t'
    using that inv by (auto simp: alert_inv_def tracked_ok_def split: if_splits)
  then have "tracked_ok (st\<lparr> alerts := ?m \<rparr>) sent"
    using inv by (intro tracked_ok_same_keys [OF _ fst]) (simp_all add: alert_inv_def)
  moreover have "count_acked (st\<lparr> alerts := ?m \<rparr>) = count_acked st" using acked [of "alerts st"] by (simp add: count_acked_def)
  moreover have "snd (snd (check_escalations cfg now st)) = st\<lparr> alerts := ?m \<rparr>"
    by (rule trans [OF rest arg_cong [OF check_escalations_alerts [OF keys], of "\<lambda>m. st\<lparr> alerts := m \<rparr>"]])
  ultimately show ?thesis using inv by (simp add: alert_inv_def)
qed

lemma pending_after_check:
  assumes "keys_ok (alerts st)" "0 < escalation_timeout_secs cfg"
  shows "pending_escalations cfg now (snd (snd (check_escalations cfg now st))) = 0"
  unfolding pending_escalations_def check_escalations_alerts [OF assms(1)]
  using assms(2) by (auto simp: escalates_def filter_empty_conv split: if_splits)

section \<open>The invariant\<close>

lemma alert_inv_start: "alert_inv cfg (AlertState_default, [])"
  by (simp add: alert_inv_def AlertState_default_def last_of_def dedup_spaced_def tracked_ok_def count_severity_def count_acked_def)

lemma alert_inv_step:
  assumes "alert_inv cfg s" "length (snd s) < 2 ^ 64 - 1"
  shows "alert_inv cfg (alert_step cfg op s)"
proof -
  obtain st sent where s: "s = (st, sent)" by (cases s)
  obtain now o' where op: "op = (now, o')" by (cases op)
  show ?thesis
  proof (cases o')
    case (Send sev ty src msg meta)
    show ?thesis
    proof (cases "suppressed cfg now (ty, src) st")
      case True
      then show ?thesis using assms(1) unfolding op s Send by (simp add: send_alert_suppressed alert_inv_suppressed)
    next
      case False
      then show ?thesis using alert_inv_accept [OF _ _ False, of sent sev msg meta] assms unfolding op s Send
        by (simp add: send_alert_accepted Let_def)
    qed
  qed (use assms(1) in \<open>simp_all add: op s alert_inv_ack alert_inv_escalate\<close>)
qed

lemma sent_length_step: "length (snd (alert_step cfg op s)) \<le> Suc (length (snd s))"
  by (cases "(cfg, op, s)" rule: alert_step.cases) (auto split: prod.split option.split)

lemma sent_length_run: "length (snd (fold (alert_step cfg) ops s)) \<le> length ops + length (snd s)"
proof (induction ops arbitrary: s)
  case (Cons op ops)
  have "length (snd (fold (alert_step cfg) ops (alert_step cfg op s))) \<le> length ops + length (snd (alert_step cfg op s))"
    by (rule Cons.IH)
  also have "\<dots> \<le> length (op # ops) + length (snd s)" using sent_length_step [of cfg op s] by simp
  finally show ?case by simp
qed simp

lemma alert_run_inv:
  assumes "length ops < 2 ^ 64"
  shows "alert_inv cfg (alert_run cfg ops)"
  using assms unfolding alert_run_def
proof (induction ops rule: rev_induct)
  case Nil
  then show ?case by (simp add: alert_inv_start)
next
  case (snoc op ops)
  then show ?case using alert_inv_step [of cfg "fold (alert_step cfg) ops (AlertState_default, [])" op]
      sent_length_run [of cfg ops "(AlertState_default, [])"] by simp
qed

lemma alert_inv_distinct: "alert_inv cfg (st, sent) \<Longrightarrow> distinct (map al_id sent)"
  unfolding alert_inv_def prod.case by (elim conjE) (simp del: upt_Suc add: distinct_map inj_on_def format_alert_id_inject)

lemma check_escalations_counts:
  "fst (check_escalations cfg now st) = pending_escalations cfg now st"
  "length (fst (snd (check_escalations cfg now st))) = pending_escalations cfg now st * length (channels cfg)"
  by (simp_all add: check_escalations_def pending_escalations_def Let_def length_concat comp_def sum_list_triv)

end
