(* ===== verification/Deadline_Monitor.thy ===== *)
theory Deadline_Monitor
  imports Prelude_ZK Hash_Maps
begin

text \<open>
  The deadline monitor of the operator (\<open>services/operator/src/deadline_monitor.rs\<close>): active disputes with their deadlines,
  and alerts of rising level as a deadline comes closer. Result ids are any type. Timestamps and counters are 64-bit
  words. The instant at which tracking started is an argument. A call of the logger that raises an alert is an element of
  the returned list of alerts.
\<close>

datatype AlertLevel = Warned | CriticalLevel | Expired

record ('k, 'a) DisputeInfo =
  dispute_result_id :: 'k
  challenger_addr :: 'a
  deadline_timestamp :: u64
  tracked_at :: nat

record ('k, 'a) DeadlineMonitor =
  disputes :: "('k \<times> ('k, 'a) DisputeInfo) list"
  warn_threshold_secs :: u64
  critical_threshold_secs :: u64
  total_warnings_issued :: u64
  total_critical_issued :: u64
  total_disputes_tracked :: u64
  total_disputes_expired :: u64
  warned :: "('k \<times> AlertLevel) list"

record 'k DeadlineCheckResult =
  total_active :: nat
  warnings :: "'k list"
  criticals :: "'k list"
  expired :: "'k list"

record DeadlineMetrics =
  dm_active_disputes :: u64
  dm_total_tracked :: u64
  dm_total_warnings :: u64
  dm_total_criticals :: u64
  dm_total_expired :: u64

definition monitor_with_thresholds :: "u64 \<Rightarrow> u64 \<Rightarrow> ('k, 'a) DeadlineMonitor" where
  "monitor_with_thresholds warn_secs critical_secs =
     \<lparr> disputes = [], warn_threshold_secs = warn_secs, critical_threshold_secs = critical_secs,
       total_warnings_issued = 0, total_critical_issued = 0, total_disputes_tracked = 0, total_disputes_expired = 0, warned = [] \<rparr>"

definition monitor_new :: "('k, 'a) DeadlineMonitor" where
  "monitor_new = monitor_with_thresholds 300 60"

definition track_dispute :: "nat \<Rightarrow> 'k \<Rightarrow> 'a \<Rightarrow> u64 \<Rightarrow> ('k, 'a) DeadlineMonitor \<Rightarrow> ('k, 'a) DeadlineMonitor" where
  "track_dispute now k ch deadline m =
     m\<lparr> disputes := AList.update k \<lparr> dispute_result_id = k, challenger_addr = ch, deadline_timestamp = deadline, tracked_at = now \<rparr> (disputes m),
        total_disputes_tracked := total_disputes_tracked m + 1 \<rparr>"

definition remove_dispute :: "'k \<Rightarrow> ('k, 'a) DeadlineMonitor \<Rightarrow> ('k, 'a) DisputeInfo option \<times> ('k, 'a) DeadlineMonitor" where
  "remove_dispute k m =
     (map_of (disputes m) k, m\<lparr> warned := AList.delete k (warned m), disputes := AList.delete k (disputes m) \<rparr>)"

text \<open>The body of the loop of \<open>check_deadlines\<close>, on the monitor, the result and the alerts raised so far.\<close>

type_synonym ('k, 'a) check_state = "('k, 'a) DeadlineMonitor \<times> 'k DeadlineCheckResult \<times> ('k \<times> AlertLevel) list"

definition check_one :: "u64 \<Rightarrow> 'k \<times> ('k, 'a) DisputeInfo \<Rightarrow> ('k, 'a) check_state \<Rightarrow> ('k, 'a) check_state" where
  "check_one now d s =
     (case (d, s) of ((k, info), (m, res, raised)) \<Rightarrow>
        let prev = map_of (warned m) k
        in if deadline_timestamp info \<le> now then
             (if prev \<noteq> Some Expired
              then (m\<lparr> warned := AList.update k Expired (warned m), total_disputes_expired := total_disputes_expired m + 1 \<rparr>,
                    res\<lparr> expired := expired res @ [k] \<rparr>, raised @ [(k, Expired)])
              else (m, res\<lparr> expired := expired res @ [k] \<rparr>, raised))
           else let remaining = deadline_timestamp info - now
           in if remaining \<le> critical_threshold_secs m then
                (if prev \<noteq> Some CriticalLevel \<and> prev \<noteq> Some Expired
                 then (m\<lparr> warned := AList.update k CriticalLevel (warned m), total_critical_issued := total_critical_issued m + 1 \<rparr>,
                       res\<lparr> criticals := criticals res @ [k] \<rparr>, raised @ [(k, CriticalLevel)])
                 else (m, res\<lparr> criticals := criticals res @ [k] \<rparr>, raised))
              else if remaining \<le> warn_threshold_secs m then
                (if prev = None
                 then (m\<lparr> warned := AList.update k Warned (warned m), total_warnings_issued := total_warnings_issued m + 1 \<rparr>,
                       res\<lparr> warnings := warnings res @ [k] \<rparr>, raised @ [(k, Warned)])
                 else (m, res\<lparr> warnings := warnings res @ [k] \<rparr>, raised))
              else (m, res, raised))"

definition check_deadlines :: "u64 \<Rightarrow> ('k, 'a) DeadlineMonitor \<Rightarrow> ('k, 'a) check_state" where
  "check_deadlines now m =
     fold (check_one now) (disputes m)
       (m, \<lparr> total_active = length (disputes m), warnings = [], criticals = [], expired = [] \<rparr>, [])"

definition active_count :: "('k, 'a) DeadlineMonitor \<Rightarrow> nat" where
  "active_count m = length (disputes m)"

definition active_dispute_infos :: "('k, 'a) DeadlineMonitor \<Rightarrow> ('k, 'a) DisputeInfo list" where
  "active_dispute_infos m = map snd (disputes m)"

definition time_remaining :: "'k \<Rightarrow> u64 \<Rightarrow> ('k, 'a) DeadlineMonitor \<Rightarrow> int option" where
  "time_remaining k now m = map_option (\<lambda>info. sint (deadline_timestamp info - now)) (map_of (disputes m) k)"

definition monitor_metrics :: "('k, 'a) DeadlineMonitor \<Rightarrow> DeadlineMetrics" where
  "monitor_metrics m =
     \<lparr> dm_active_disputes = word_of_nat (length (disputes m)), dm_total_tracked = total_disputes_tracked m,
       dm_total_warnings = total_warnings_issued m, dm_total_criticals = total_critical_issued m, dm_total_expired = total_disputes_expired m \<rparr>"

definition DISPUTE_WINDOW_SECS :: u64 where
  "DISPUTE_WINDOW_SECS = 86400"

definition compute_dispute_deadline :: "u64 \<Rightarrow> u64" where
  "compute_dispute_deadline challenge_timestamp = challenge_timestamp + DISPUTE_WINDOW_SECS"

section \<open>Levels\<close>

fun level_rank :: "AlertLevel option \<Rightarrow> nat" where
  "level_rank None = 0"
| "level_rank (Some Warned) = 1"
| "level_rank (Some CriticalLevel) = 2"
| "level_rank (Some Expired) = 3"

text \<open>The level that a deadline calls for at a time.\<close>

definition level_at :: "('k, 'a) DeadlineMonitor \<Rightarrow> u64 \<Rightarrow> ('k, 'a) DisputeInfo \<Rightarrow> AlertLevel option" where
  "level_at m now info =
     (if deadline_timestamp info \<le> now then Some Expired
      else if deadline_timestamp info - now \<le> critical_threshold_secs m then Some CriticalLevel
      else if deadline_timestamp info - now \<le> warn_threshold_secs m then Some Warned
      else None)"

text \<open>An entry of the table of alerts after a check: the higher one of what was there and what is called for.\<close>

definition raise_level :: "AlertLevel option \<Rightarrow> AlertLevel option \<Rightarrow> AlertLevel option" where
  "raise_level new prev = (if level_rank prev < level_rank new then new else prev)"

definition result_add :: "AlertLevel option \<Rightarrow> 'k \<Rightarrow> 'k DeadlineCheckResult \<Rightarrow> 'k DeadlineCheckResult" where
  "result_add l k res =
     (case l of
        None \<Rightarrow> res
      | Some Warned \<Rightarrow> res\<lparr> warnings := warnings res @ [k] \<rparr>
      | Some CriticalLevel \<Rightarrow> res\<lparr> criticals := criticals res @ [k] \<rparr>
      | Some Expired \<Rightarrow> res\<lparr> expired := expired res @ [k] \<rparr>)"

lemma check_one_effect:
  assumes "check_one now (k, info) (m, res, raised) = (m', res', raised')"
  shows "map_of (warned m') = (map_of (warned m))(k := raise_level (level_at m now info) (map_of (warned m) k))"
    "res' = result_add (level_at m now info) k res"
    "raised' = raised @ (if level_rank (map_of (warned m) k) < level_rank (level_at m now info)
                         then [(k, the (level_at m now info))] else [])"
    "disputes m' = disputes m" "warn_threshold_secs m' = warn_threshold_secs m" "critical_threshold_secs m' = critical_threshold_secs m"
  using assms
  by (cases "map_of (warned m) k" rule: level_rank.cases;
      auto simp: check_one_def level_at_def raise_level_def result_add_def Let_def split: if_splits)+

section \<open>A check\<close>

definition raises :: "('k, 'a) DeadlineMonitor \<Rightarrow> u64 \<Rightarrow> 'k \<times> ('k, 'a) DisputeInfo \<Rightarrow> ('k \<times> AlertLevel) list" where
  "raises m now d =
     (case d of (k, info) \<Rightarrow>
        if level_rank (map_of (warned m) k) < level_rank (level_at m now info) then [(k, the (level_at m now info))] else [])"

lemma level_at_cong:
  "warn_threshold_secs m' = warn_threshold_secs m \<Longrightarrow> critical_threshold_secs m' = critical_threshold_secs m \<Longrightarrow>
     level_at m' now info = level_at m now info"
  by (simp add: level_at_def)

lemma check_fold_effect:
  assumes "keys_ok ds" "fold (check_one now) ds (m, res, raised) = (m', res', raised')"
  shows "map_of (warned m') = (\<lambda>k. case map_of ds k of
             Some info \<Rightarrow> raise_level (level_at m now info) (map_of (warned m) k) | None \<Rightarrow> map_of (warned m) k)
    \<and> res' = fold (\<lambda>(k, info). result_add (level_at m now info) k) ds res
    \<and> raised' = raised @ concat (map (raises m now) ds)
    \<and> disputes m' = disputes m \<and> warn_threshold_secs m' = warn_threshold_secs m \<and> critical_threshold_secs m' = critical_threshold_secs m"
  using assms
proof (induction ds arbitrary: m res raised)
  case Nil
  then show ?case by simp
next
  case (Cons d ds)
  obtain k info where d: "d = (k, info)" by (cases d)
  obtain m1 res1 raised1 where one: "check_one now (k, info) (m, res, raised) = (m1, res1, raised1)" by (metis prod_cases3)
  note eff = check_one_effect [OF one]
  have ds: "keys_ok ds" "map_of ds k = None" using Cons.prems(1) d by (auto simp: keys_ok_def map_of_eq_None_iff)
  have lev: "level_at m1 now = level_at m now" using eff(5,6) level_at_cong by blast
  have other: "map_of (warned m1) k' = map_of (warned m) k'" if "k' \<noteq> k" for k' using eff(1) that by simp
  have run: "fold (check_one now) ds (m1, res1, raised1) = (m', res', raised')" using Cons.prems(2) d one by simp
  note IH = Cons.IH [OF ds(1) run, unfolded lev]
  have "raises m1 now x = raises m now x" if x: "x \<in> set ds" for x
  proof (cases x)
    case (Pair k' info')
    then have "k' \<noteq> k" using x ds(2) by (force simp: map_of_eq_None_iff)
    then show ?thesis using other [of k'] lev by (simp add: Pair raises_def)
  qed
  then have "concat (map (raises m1 now) ds) = concat (map (raises m now) ds)" by (intro arg_cong [of _ _ concat] map_cong) auto
  moreover have "map_of (warned m') = (\<lambda>k'. case map_of (d # ds) k' of
      Some info \<Rightarrow> raise_level (level_at m now info) (map_of (warned m) k') | None \<Rightarrow> map_of (warned m) k')"
    using IH eff(1) ds(2) d other by (auto simp: fun_eq_iff split: option.split)
  moreover have "raised1 = raised @ raises m now d" by (simp add: eff(3) raises_def d)
  ultimately show ?case using IH eff(2,4-6) d by simp
qed

lemma check_deadlines_effect:
  assumes "keys_ok (disputes m)" "check_deadlines now m = (m', res, raised)"
  shows "map_of (warned m') k = (case map_of (disputes m) k of
             Some info \<Rightarrow> raise_level (level_at m now info) (map_of (warned m) k) | None \<Rightarrow> map_of (warned m) k)"
    "raised = concat (map (raises m now) (disputes m))" "disputes m' = disputes m"
    "warn_threshold_secs m' = warn_threshold_secs m" "critical_threshold_secs m' = critical_threshold_secs m"
    "res = fold (\<lambda>(k, info). result_add (level_at m now info) k) (disputes m)
       \<lparr> total_active = length (disputes m), warnings = [], criticals = [], expired = [] \<rparr>"
  using check_fold_effect [OF assms(1) assms(2) [unfolded check_deadlines_def]] by simp_all

lemma result_lists:
  "warnings (fold (\<lambda>(k, info). result_add (lev info) k) ds res) = warnings res @ [k. (k, info) \<leftarrow> ds, lev info = Some Warned]"
  "criticals (fold (\<lambda>(k, info). result_add (lev info) k) ds res) = criticals res @ [k. (k, info) \<leftarrow> ds, lev info = Some CriticalLevel]"
  "expired (fold (\<lambda>(k, info). result_add (lev info) k) ds res) = expired res @ [k. (k, info) \<leftarrow> ds, lev info = Some Expired]"
  "total_active (fold (\<lambda>(k, info). result_add (lev info) k) ds res) = total_active res"
  by (induction ds arbitrary: res) (auto simp: result_add_def split: option.split AlertLevel.split)

section \<open>Runs\<close>

datatype ('k, 'a) monitor_op = Track nat 'k 'a u64 | Remove 'k | Check u64

text \<open>Operations in sequence, with the alerts raised so far.\<close>

fun monitor_step :: "('k, 'a) monitor_op \<Rightarrow> ('k, 'a) DeadlineMonitor \<times> ('k \<times> AlertLevel) list \<Rightarrow> ('k, 'a) DeadlineMonitor \<times> ('k \<times> AlertLevel) list" where
  "monitor_step (Track now k ch d) (m, log) = (track_dispute now k ch d m, log)"
| "monitor_step (Remove k) (m, log) = (snd (remove_dispute k m), log)"
| "monitor_step (Check now) (m, log) = (case check_deadlines now m of (m, _, raised) \<Rightarrow> (m, log @ raised))"

definition monitor_run :: "('k, 'a) monitor_op list \<Rightarrow> ('k, 'a) DeadlineMonitor \<Rightarrow> ('k, 'a) DeadlineMonitor \<times> ('k \<times> AlertLevel) list" where
  "monitor_run ops m = fold monitor_step ops (m, [])"

definition levels_of :: "'k \<Rightarrow> ('k \<times> AlertLevel) list \<Rightarrow> AlertLevel list" where
  "levels_of k log = map snd (filter (\<lambda>a. fst a = k) log)"

text \<open>The alerts of a dispute rise, and the last one is the recorded level.\<close>

definition alerts_inv :: "'k \<Rightarrow> ('k, 'a) DeadlineMonitor \<times> ('k \<times> AlertLevel) list \<Rightarrow> bool" where
  "alerts_inv k s \<longleftrightarrow>
     keys_ok (disputes (fst s))
     \<and> sorted_wrt (<) (map (\<lambda>l. level_rank (Some l)) (levels_of k (snd s)))
     \<and> map_of (warned (fst s)) k = (if levels_of k (snd s) = [] then None else Some (last (levels_of k (snd s))))"

lemma levels_of_append: "levels_of k (a @ b) = levels_of k a @ levels_of k b"
  by (simp add: levels_of_def)

lemma levels_of_raises:
  assumes "keys_ok ds"
  shows "levels_of k (concat (map (raises m now) ds)) =
    (case map_of ds k of
       Some info \<Rightarrow> if level_rank (map_of (warned m) k) < level_rank (level_at m now info) then [the (level_at m now info)] else []
     | None \<Rightarrow> [])"
  using assms
proof (induction ds)
  case Nil
  then show ?case by (simp add: levels_of_def)
next
  case (Cons d ds)
  obtain k' info where d: "d = (k', info)" by (cases d)
  have "keys_ok ds" "map_of ds k' = None" using Cons.prems d by (auto simp: keys_ok_def map_of_eq_None_iff)
  moreover have "levels_of k (raises m now d) =
      (if k' = k \<and> level_rank (map_of (warned m) k') < level_rank (level_at m now info) then [the (level_at m now info)] else [])"
    by (simp add: d raises_def levels_of_def)
  ultimately show ?case using Cons.IH d by (auto simp: levels_of_append)
qed

lemma level_rank_zero: "level_rank l = 0 \<longleftrightarrow> l = None"
  by (cases l rule: level_rank.cases) auto

lemma sorted_wrt_last: "sorted_wrt (<) (map f xs) \<Longrightarrow> x \<in> set xs \<Longrightarrow> f x \<le> (f (last xs) :: nat)"
  by (induction xs rule: rev_induct) (auto simp: sorted_wrt_append less_imp_le)

lemma alerts_inv_check:
  assumes "alerts_inv k (m, log)"
  shows "alerts_inv k (monitor_step (Check now) (m, log))"
proof -
  obtain m' res raised where c: "check_deadlines now m = (m', res, raised)" by (metis prod_cases3)
  have inv: "keys_ok (disputes m)" "sorted_wrt (<) (map (\<lambda>l. level_rank (Some l)) (levels_of k log))"
      "map_of (warned m) k = (if levels_of k log = [] then None else Some (last (levels_of k log)))"
    using assms by (simp_all add: alerts_inv_def)
  note eff = check_deadlines_effect [OF inv(1) c]
  show ?thesis
  proof (cases "\<exists>info. map_of (disputes m) k = Some info \<and> level_rank (map_of (warned m) k) < level_rank (level_at m now info)")
    case True
    then obtain info where info: "map_of (disputes m) k = Some info" "level_rank (map_of (warned m) k) < level_rank (level_at m now info)" by blast
    then obtain l where l: "level_at m now info = Some l" by (cases "level_at m now info") auto
    have new: "levels_of k raised = [l]" "map_of (warned m') k = Some l"
      using info l levels_of_raises [OF inv(1), of k m now] eff(1) [of k] by (simp_all add: eff(2) raise_level_def)
    have "level_rank (Some x) \<le> level_rank (map_of (warned m) k)" if "x \<in> set (levels_of k log)" for x
      using sorted_wrt_last [OF inv(2) that] inv(3) that by auto
    then have "\<forall>x\<in>set (levels_of k log). level_rank (Some x) < level_rank (Some l)" using info(2) l by fastforce
    then show ?thesis using inv new eff(3) c by (simp add: alerts_inv_def levels_of_append sorted_wrt_append)
  next
    case False
    then have "levels_of k raised = []" "map_of (warned m') k = map_of (warned m) k"
      using levels_of_raises [OF inv(1), of k m now] eff(1) [of k] by (auto simp: eff(2) raise_level_def split: option.splits)
    then show ?thesis using inv eff(3) c by (simp add: alerts_inv_def levels_of_append)
  qed
qed

lemma alerts_inv_step:
  assumes "alerts_inv k s" "op \<noteq> Remove k"
  shows "alerts_inv k (monitor_step op s)"
proof -
  obtain m log where s: "s = (m, log)" by (cases s)
  show ?thesis
  proof (cases op)
    case (Check now)
    show ?thesis unfolding s Check using assms(1) [unfolded s] by (rule alerts_inv_check)
  qed (use assms in \<open>auto simp: s alerts_inv_def track_dispute_def remove_dispute_def\<close>)
qed

lemma alerts_inv_run:
  assumes "alerts_inv k (m, [])" "Remove k \<notin> set ops"
  shows "alerts_inv k (monitor_run ops m)"
  using assms(2) unfolding monitor_run_def
proof (induction ops rule: rev_induct)
  case Nil
  then show ?case using assms(1) by simp
next
  case (snoc op ops)
  then show ?case by (auto intro!: alerts_inv_step)
qed

lemma alerts_inv_new: "alerts_inv k (monitor_with_thresholds w c, [])"
  by (simp add: alerts_inv_def monitor_with_thresholds_def levels_of_def)

text \<open>Right after a check, an alert at least as high as the deadline calls for has been raised.\<close>

lemma check_covers:
  assumes "alerts_inv k (m, log)" "map_of (disputes m) k = Some info" "monitor_step (Check now) (m, log) = (m', log')"
    "level_at m now info = Some l"
  shows "\<exists>l'\<in>set (levels_of k log'). level_rank (Some l) \<le> level_rank (Some l')"
proof -
  obtain m2 res raised where c: "check_deadlines now m = (m2, res, raised)" by (metis prod_cases3)
  have keys: "keys_ok (disputes m)" using assms(1) by (simp add: alerts_inv_def)
  have m': "m' = m2" using assms(3) c by simp
  have "map_of (warned m') k = raise_level (Some l) (map_of (warned m) k)"
    using check_deadlines_effect(1) [OF keys c, of k] assms(2,4) m' by simp
  then have w: "level_rank (Some l) \<le> level_rank (map_of (warned m') k)" by (simp add: raise_level_def)
  moreover have "0 < level_rank (Some l)" by (metis level_rank_zero neq0_conv option.simps(3))
  ultimately have "map_of (warned m') k \<noteq> None" by (metis level_rank_zero le_zero_eq neq0_conv)
  moreover have "alerts_inv k (m', log')" using alerts_inv_check [OF assms(1), of now] assms(3) by simp
  ultimately have "levels_of k log' \<noteq> []" "map_of (warned m') k = Some (last (levels_of k log'))"
    by (auto simp: alerts_inv_def split: if_splits)
  then show ?thesis using w by (intro bexI [of _ "last (levels_of k log')"]) simp_all
qed

end
