(* ===== verification/Watch_Loop.thy ===== *)
theory Watch_Loop
  imports Circuit_Breaker Operator_Store Alerting Tee_Events
begin

text \<open>
  The watch command of the operator (\<open>services/operator/src/main.rs\<close>, \<open>cmd_watch\<close>): it polls the chain through a circuit
  breaker, handles each event, persists its state after every cycle, and every twelfth cycle tries to finalize results.
  It composes the watcher, the event tracker and the state file, the alert manager and the circuit breaker.

  A cycle is a function of the state and of what the cycle finds in its environment (\<open>cycle_in\<close>): the node, the clocks,
  whether a permit for a proof task is free and whether shutdown was requested when an event is reached, the outcome of
  the file operations, and what the chain answers to \<open>finalize\<close>. Spawned tasks and webhook calls are recorded as effects;
  the task itself is \<open>handle_challenge\<close> (\<open>Challenge_Task\<close>). Log and audit messages and the gauge of failed webhooks are left out. The hexadecimal encoder and the display of
  addresses are parameters.
\<close>

section \<open>Data\<close>

record watch_env =
  dry_run :: bool
  alert_cfg :: AlertConfig
  rpc_cfg :: CircuitBreakerConfig
  chain_cfg :: CircuitBreakerConfig
  contracts :: "bytes list"
  state_path :: string
  state_json :: "wire_state \<Rightarrow> string"
  encode_hex :: "bytes \<Rightarrow> string"
  show_address :: "bytes \<Rightarrow> string"

record 'e cycle_in =
  node :: "'e provider"
  poll_times :: "nat \<times> nat \<times> nat"
  wall_clock :: "nat \<Rightarrow> nat"
  alert_clock :: "nat \<Rightarrow> nat"
  permit_free :: "nat \<Rightarrow> bool"
  stopping :: "nat \<Rightarrow> bool"
  file_outcome :: outcome
  finalize_node :: "'e provider"
  finalize_poll_times :: "nat \<times> nat \<times> nat"
  finalize_clock :: "nat \<Rightarrow> nat \<times> nat \<times> nat"
  finalize_ok :: "bytes \<Rightarrow> bool"

datatype effect =
    Spawn_Task bytes
  | Webhook_Challenge string string nat u64
  | Alert_Sent sends
  | Finalize bytes bool

record watch_state =
  op_state :: OperatorState
  from_block :: u64
  finalize_counter :: u64
  result_model_map :: "(string \<times> string) list"
  rpc_cb :: CircuitBreaker
  chain_cb :: CircuitBreaker
  alert_state :: AlertState
  disk :: files
  effects :: "effect list"
  total_challenges :: u64
  total_submissions :: u64
  total_finalizations :: u64
  total_errors :: u64
  last_block_polled :: u64
  active_dispute_gauge :: u64

definition rid_hex :: "watch_env \<Rightarrow> bytes \<Rightarrow> string" where
  "rid_hex env r = ''0x'' @ encode_hex env r"

section \<open>Events\<close>

definition mark_processed :: "string \<Rightarrow> watch_state \<Rightarrow> watch_state" where
  "mark_processed k st =
     st\<lparr> op_state := (op_state st)\<lparr> processed_event_ids := snd (tracker_insert k (processed_event_ids (op_state st))) \<rparr> \<rparr>"

definition set_disputes :: "(string \<times> u64) list \<Rightarrow> watch_state \<Rightarrow> watch_state" where
  "set_disputes ds st = st\<lparr> op_state := (op_state st)\<lparr> active_disputes := ds \<rparr> \<rparr>"

definition raise_alert :: "watch_env \<Rightarrow> nat \<Rightarrow> string \<Rightarrow> string \<Rightarrow> watch_state \<Rightarrow> watch_state" where
  "raise_alert env now rid ch st =
     (case send_alert (alert_cfg env) now Warning ''challenge_detected'' ''operator'' (''Challenge detected for result '' @ rid)
             [(''result_id'', rid), (''challenger'', ch)] (alert_state st) of
        (r, sent, al) \<Rightarrow> st\<lparr> alert_state := al, effects := effects st @ [Alert_Sent sent] \<rparr>)"

definition handle_challenged :: "watch_env \<Rightarrow> 'e cycle_in \<Rightarrow> nat \<Rightarrow> bytes \<Rightarrow> bytes \<Rightarrow> watch_state \<Rightarrow> watch_state" where
  "handle_challenged env inp i r ch st =
     (let rid = rid_hex env r
      in if tracker_contains rid (processed_event_ids (op_state st)) then st
         else let st = st\<lparr> total_challenges := total_challenges st + 1 \<rparr>;
                  now = wall_clock inp i;
                  deadline = word_of_nat now + 86400;
                  st = set_disputes (AList.update rid deadline (active_disputes (op_state st))) st;
                  st = st\<lparr> effects := effects st @ [Webhook_Challenge rid (show_address env ch) now deadline] \<rparr>;
                  st = raise_alert env (alert_clock inp i) rid (show_address env ch) st
              in if dry_run env then mark_processed rid st
                 else if permit_free inp i
                 then mark_processed rid (st\<lparr> effects := effects st @ [Spawn_Task r] \<rparr>)
                 else st\<lparr> total_errors := total_errors st + 1 \<rparr>)"

definition drop_dispute :: "string \<Rightarrow> watch_state \<Rightarrow> watch_state" where
  "drop_dispute rid st =
     (set_disputes (AList.delete rid (active_disputes (op_state st))) st)\<lparr> result_model_map := AList.delete rid (result_model_map st) \<rparr>"

definition handle_event :: "watch_env \<Rightarrow> 'e cycle_in \<Rightarrow> nat \<Rightarrow> WEvent \<Rightarrow> watch_state \<Rightarrow> watch_state" where
  "handle_event env inp i ev st =
     (case ev of
        WResultChallenged r ch \<Rightarrow> handle_challenged env inp i r ch st
      | WResultSubmitted r mh _ _ _ \<Rightarrow>
          st\<lparr> total_submissions := total_submissions st + 1,
              result_model_map := AList.update (rid_hex env r) (''0x'' @ encode_hex env mh) (result_model_map st) \<rparr>
      | WResultFinalized r \<Rightarrow> drop_dispute (rid_hex env r) (st\<lparr> total_finalizations := total_finalizations st + 1 \<rparr>)
      | WResultExpired r \<Rightarrow> drop_dispute (rid_hex env r) st
      | WDisputeResolved r _ \<Rightarrow> drop_dispute (rid_hex env r) st)"

text \<open>The loop over the events of a cycle; \<open>i\<close> is the index of the first.\<close>

fun handle_events :: "watch_env \<Rightarrow> 'e cycle_in \<Rightarrow> nat \<Rightarrow> WEvent list \<Rightarrow> watch_state \<Rightarrow> watch_state" where
  "handle_events env inp i [] st = st"
| "handle_events env inp i (ev # evs) st =
     (if stopping inp i then st else handle_events env inp (Suc i) evs (handle_event env inp i ev st))"

section \<open>The cycle\<close>

text \<open>A poll behind the circuit breaker: when it is refused or fails, there are no events and the block stays.\<close>

definition guarded_poll ::
  "CircuitBreakerConfig \<Rightarrow> nat \<times> nat \<times> nat \<Rightarrow> 'e provider \<Rightarrow> bytes list \<Rightarrow> u64 \<Rightarrow> CircuitBreaker \<Rightarrow> (WEvent list \<times> u64) option \<times> CircuitBreaker" where
  "guarded_poll cfg ts p addresses start cb =
     (case ts of (now, now', later) \<Rightarrow>
        (case allow_request cfg now now' cb :: ('e CircuitBreakerError + unit) \<times> CircuitBreaker of
           (Inl e, cb) \<Rightarrow> (None, cb)
         | (Inr _, cb) \<Rightarrow>
             (case poll_events p addresses start of
                Inr r \<Rightarrow> (Some r, record_success cfg cb)
              | Inl e \<Rightarrow> (None, record_failure cfg later cb))))"

text \<open>\<open>auto_finalize\<close>: the loop over the polled events, with the chain circuit breaker; \<open>i\<close> is the index of the first
  event, and the clock gives the readings of \<open>allow_request\<close> and \<open>record_failure\<close> at each event.\<close>

fun finalize_loop ::
  "CircuitBreakerConfig \<Rightarrow> (nat \<Rightarrow> nat \<times> nat \<times> nat) \<Rightarrow> (bytes \<Rightarrow> bool) \<Rightarrow> nat \<Rightarrow> WEvent list \<Rightarrow> CircuitBreaker \<Rightarrow> effect list \<times> CircuitBreaker" where
  "finalize_loop cfg clock ok i [] cb = ([], cb)"
| "finalize_loop cfg clock ok i (ev # evs) cb =
     (case ev of
        WResultSubmitted r _ _ _ _ \<Rightarrow>
          (case clock i of (now, now', later) \<Rightarrow>
             (case allow_request cfg now now' cb :: (unit CircuitBreakerError + unit) \<times> CircuitBreaker of
                (Inl e, cb) \<Rightarrow> ([], cb)
              | (Inr _, cb) \<Rightarrow>
                  (let cb = (if ok r then record_success cfg cb else record_failure cfg later cb);
                       (fx, cb) = finalize_loop cfg clock ok (Suc i) evs cb
                   in (Finalize r (ok r) # fx, cb))))
      | _ \<Rightarrow> finalize_loop cfg clock ok (Suc i) evs cb)"

definition auto_finalize :: "watch_env \<Rightarrow> 'e cycle_in \<Rightarrow> u64 \<Rightarrow> watch_state \<Rightarrow> watch_state" where
  "auto_finalize env inp start st =
     (case guarded_poll (rpc_cfg env) (finalize_poll_times inp) (finalize_node inp) (contracts env) start (rpc_cb st) of
        (None, cb) \<Rightarrow> st\<lparr> rpc_cb := cb \<rparr>
      | (Some (evs, _), cb) \<Rightarrow>
          (case finalize_loop (chain_cfg env) (finalize_clock inp) (finalize_ok inp) 0 evs (chain_cb st) of
             (fx, ccb) \<Rightarrow> st\<lparr> rpc_cb := cb, chain_cb := ccb, effects := effects st @ fx \<rparr>))"

definition persist :: "watch_env \<Rightarrow> 'e cycle_in \<Rightarrow> watch_state \<Rightarrow> watch_state" where
  "persist env inp st =
     (let st = st\<lparr> op_state := (op_state st)\<lparr> last_polled_block := from_block st \<rparr> \<rparr>
      in st\<lparr> disk := snd (store_save (state_json env) (file_outcome inp) (state_path env) (op_state st) (disk st)) \<rparr>)"

text \<open>\<open>from_block.saturating_sub(7200)\<close>.\<close>

definition back_7200 :: "u64 \<Rightarrow> u64" where
  "back_7200 b = (if b < 7200 then 0 else b - 7200)"

definition watch_cycle :: "watch_env \<Rightarrow> 'e cycle_in \<Rightarrow> watch_state \<Rightarrow> watch_state" where
  "watch_cycle env inp st =
     (case guarded_poll (rpc_cfg env) (poll_times inp) (node inp) (contracts env) (from_block st) (rpc_cb st) of
        (polled, cb) \<Rightarrow>
          let (evs, next_block) = (case polled of Some r \<Rightarrow> r | None \<Rightarrow> ([], from_block st));
              st = st\<lparr> rpc_cb := cb, from_block := next_block, last_block_polled := next_block \<rparr>;
              st = handle_events env inp 0 evs st;
              st = st\<lparr> active_dispute_gauge := word_of_nat (length (active_disputes (op_state st))) \<rparr>;
              st = persist env inp st;
              st = st\<lparr> finalize_counter := finalize_counter st + 1 \<rparr>
          in if 12 \<le> finalize_counter st \<and> \<not> dry_run env
             then auto_finalize env inp (back_7200 (from_block st)) (st\<lparr> finalize_counter := 0 \<rparr>)
             else st)"

text \<open>The start: the state is loaded, everything else is new.\<close>

definition watch_start :: "watch_env \<Rightarrow> (string \<Rightarrow> wire_state option) \<Rightarrow> outcome \<Rightarrow> files \<Rightarrow> watch_state" where
  "watch_start env parse oc fs =
     (let op = load_or_default parse oc (state_path env) fs
      in \<lparr> op_state = op, from_block = last_polled_block op, finalize_counter = 0, result_model_map = [],
           rpc_cb = breaker_new, chain_cb = breaker_new, alert_state = AlertState_default, disk = fs, effects = [],
           total_challenges = 0, total_submissions = 0, total_finalizations = 0, total_errors = 0,
           last_block_polled = 0, active_dispute_gauge = 0 \<rparr>)"

definition watch_run :: "watch_env \<Rightarrow> 'e cycle_in list \<Rightarrow> watch_state \<Rightarrow> watch_state" where
  "watch_run env inps st = fold (watch_cycle env) inps st"

section \<open>Frames\<close>

named_theorems watch_defs \<open>the definitions of the event handlers\<close>

declare handle_event_def [watch_defs] handle_challenged_def [watch_defs] drop_dispute_def [watch_defs]
  set_disputes_def [watch_defs] mark_processed_def [watch_defs]

text \<open>What the handlers leave alone.\<close>

lemma raise_alert_frame [simp]:
  "op_state (raise_alert env now rid ch st) = op_state st" "from_block (raise_alert env now rid ch st) = from_block st"
  "disk (raise_alert env now rid ch st) = disk st" "rpc_cb (raise_alert env now rid ch st) = rpc_cb st"
  "chain_cb (raise_alert env now rid ch st) = chain_cb st" "finalize_counter (raise_alert env now rid ch st) = finalize_counter st"
  by (simp_all add: raise_alert_def split: prod.split)

lemma handle_event_frame [simp]:
  "from_block (handle_event env inp i ev st) = from_block st" "disk (handle_event env inp i ev st) = disk st"
  "last_polled_block (op_state (handle_event env inp i ev st)) = last_polled_block (op_state st)"
  by (cases ev; simp add: watch_defs Let_def)+

lemma handle_events_frame [simp]:
  "from_block (handle_events env inp i evs st) = from_block st" "disk (handle_events env inp i evs st) = disk st"
  by (induction evs arbitrary: i st) simp_all

lemma auto_finalize_frame [simp]:
  "op_state (auto_finalize env inp b st) = op_state st" "from_block (auto_finalize env inp b st) = from_block st"
  "disk (auto_finalize env inp b st) = disk st" "alert_state (auto_finalize env inp b st) = alert_state st"
  by (simp_all add: auto_finalize_def Let_def split: prod.split option.split)

section \<open>Tasks\<close>

definition spawned :: "effect list \<Rightarrow> bytes list" where
  "spawned fx = List.map_filter (\<lambda>e. case e of Spawn_Task r \<Rightarrow> Some r | _ \<Rightarrow> None) fx"

lemma spawned_append [simp]: "spawned (a @ b) = spawned a @ spawned b"
  by (simp add: spawned_def List.map_filter_def)

lemma spawned_simps [simp]:
  "spawned [] = []" "spawned (Spawn_Task r # fx) = r # spawned fx" "spawned (Webhook_Challenge a b c d # fx) = spawned fx"
  "spawned (Alert_Sent s # fx) = spawned fx" "spawned (Finalize r ok # fx) = spawned fx"
  by (simp_all add: spawned_def List.map_filter_def)

lemma spawned_raise_alert [simp]: "spawned (effects (raise_alert env now rid ch st)) = spawned (effects st)"
  by (simp add: raise_alert_def split: prod.split)

lemma spawned_finalize_loop [simp]: "spawned (fst (finalize_loop cfg clock ok i evs cb)) = []"
  by (induction evs arbitrary: i cb) (auto simp: Let_def case_prod_unfold split: WEvent.split sum.split)

lemma spawned_auto_finalize [simp]: "spawned (effects (auto_finalize env inp b st)) = spawned (effects st)"
proof -
  have "spawned fx = []" if "finalize_loop cfg clock ok i evs cb = (fx, cb')" for cfg clock ok i evs cb fx cb'
    using spawned_finalize_loop [of cfg clock ok i evs cb] that by simp
  then show ?thesis by (auto simp: auto_finalize_def Let_def split: prod.split option.split)
qed

text \<open>The ids for which a task was started, latest first, before the ids that the loaded state knew.\<close>

definition task_ids :: "watch_env \<Rightarrow> string list \<Rightarrow> watch_state \<Rightarrow> string list" where
  "task_ids env old st = rev (map (rid_hex env) (spawned (effects st))) @ old"

definition tasks_inv :: "watch_env \<Rightarrow> string list \<Rightarrow> watch_state \<Rightarrow> bool" where
  "tasks_inv env old st \<longleftrightarrow> tracker.feed_inv (processed_event_ids (op_state st), task_ids env old st)"

lemma handle_event_tasks:
  assumes "\<not> dry_run env"
  shows "processed_event_ids (op_state (handle_event env inp i ev st)) = processed_event_ids (op_state st)
      \<and> spawned (effects (handle_event env inp i ev st)) = spawned (effects st)
    \<or> (\<exists>r ch. ev = WResultChallenged r ch \<and> permit_free inp i
        \<and> \<not> tracker_contains (rid_hex env r) (processed_event_ids (op_state st))
        \<and> processed_event_ids (op_state (handle_event env inp i ev st)) = snd (tracker_insert (rid_hex env r) (processed_event_ids (op_state st)))
        \<and> spawned (effects (handle_event env inp i ev st)) = spawned (effects st) @ [r])"
  using assms
  by (cases ev) (auto simp: watch_defs Let_def)

lemma tasks_inv_event:
  assumes "tasks_inv env old st" "\<not> dry_run env"
  shows "tasks_inv env old (handle_event env inp i ev st)"
  using handle_event_tasks [OF assms(2), of inp i ev st]
proof (elim disjE exE conjE)
  fix r ch
  assume new: "\<not> tracker_contains (rid_hex env r) (processed_event_ids (op_state st))"
    and st': "processed_event_ids (op_state (handle_event env inp i ev st)) = snd (tracker_insert (rid_hex env r) (processed_event_ids (op_state st)))"
      "spawned (effects (handle_event env inp i ev st)) = spawned (effects st) @ [r]"
  have "tracker.feed (rid_hex env r) (processed_event_ids (op_state st), task_ids env old st) =
      (snd (tracker_insert (rid_hex env r) (processed_event_ids (op_state st))), rid_hex env r # task_ids env old st)"
    using new by (simp add: tracker.feed_def tracker_insert_def tracker_contains_def)
  then show ?thesis
    using tracker.feed_inv_step [OF assms(1) [unfolded tasks_inv_def], of "rid_hex env r"] st'
    by (simp add: tasks_inv_def task_ids_def)
qed (use assms(1) in \<open>simp add: tasks_inv_def task_ids_def\<close>)

lemma tasks_inv_events: "tasks_inv env old st \<Longrightarrow> \<not> dry_run env \<Longrightarrow> tasks_inv env old (handle_events env inp i evs st)"
  by (induction evs arbitrary: i st) (simp_all add: tasks_inv_event)

section \<open>Cycles\<close>

text \<open>The events that a cycle and a run poll. The handlers see them up to a request to stop.\<close>

definition cycle_poll :: "watch_env \<Rightarrow> 'e cycle_in \<Rightarrow> watch_state \<Rightarrow> WEvent list \<times> u64" where
  "cycle_poll env inp st =
     (case fst (guarded_poll (rpc_cfg env) (poll_times inp) (node inp) (contracts env) (from_block st) (rpc_cb st)) of
        Some r \<Rightarrow> r | None \<Rightarrow> ([], from_block st))"

fun run_polled :: "watch_env \<Rightarrow> 'e cycle_in list \<Rightarrow> watch_state \<Rightarrow> WEvent list" where
  "run_polled env [] st = []"
| "run_polled env (inp # inps) st = fst (cycle_poll env inp st) @ run_polled env inps (watch_cycle env inp st)"

definition polled_state :: "watch_env \<Rightarrow> 'e cycle_in \<Rightarrow> watch_state \<Rightarrow> watch_state" where
  "polled_state env inp st =
     st\<lparr> rpc_cb := snd (guarded_poll (rpc_cfg env) (poll_times inp) (node inp) (contracts env) (from_block st) (rpc_cb st)),
         from_block := snd (cycle_poll env inp st), last_block_polled := snd (cycle_poll env inp st) \<rparr>"

definition handled_state :: "watch_env \<Rightarrow> 'e cycle_in \<Rightarrow> watch_state \<Rightarrow> watch_state" where
  "handled_state env inp st = handle_events env inp 0 (fst (cycle_poll env inp st)) (polled_state env inp st)"

lemma persist_frame [simp]:
  "from_block (persist env inp st) = from_block st" "effects (persist env inp st) = effects st"
  "op_state (persist env inp st) = (op_state st)\<lparr> last_polled_block := from_block st \<rparr>"
  "disk (persist env inp st) =
     snd (store_save (state_json env) (file_outcome inp) (state_path env) ((op_state st)\<lparr> last_polled_block := from_block st \<rparr>) (disk st))"
  by (simp_all add: persist_def Let_def)

lemma watch_cycle_result:
  "from_block (watch_cycle env inp st) = snd (cycle_poll env inp st)"
  "spawned (effects (watch_cycle env inp st)) = spawned (effects (handled_state env inp st))"
  "op_state (watch_cycle env inp st) = (op_state (handled_state env inp st))\<lparr> last_polled_block := snd (cycle_poll env inp st) \<rparr>"
  "disk (watch_cycle env inp st) =
     snd (store_save (state_json env) (file_outcome inp) (state_path env) (op_state (watch_cycle env inp st)) (disk st))"
  by (simp_all add: watch_cycle_def handled_state_def polled_state_def cycle_poll_def Let_def case_prod_unfold)

lemma tasks_inv_cycle:
  assumes "tasks_inv env old st" "\<not> dry_run env"
  shows "tasks_inv env old (watch_cycle env inp st)"
proof -
  have "tasks_inv env old (polled_state env inp st)" using assms(1) by (simp add: tasks_inv_def task_ids_def polled_state_def)
  then have "tasks_inv env old (handled_state env inp st)" unfolding handled_state_def by (rule tasks_inv_events [OF _ assms(2)])
  then show ?thesis by (simp add: tasks_inv_def task_ids_def watch_cycle_result)
qed

lemma tasks_inv_run: "tasks_inv env old st \<Longrightarrow> \<not> dry_run env \<Longrightarrow> tasks_inv env old (watch_run env inps st)"
  unfolding watch_run_def by (induction inps arbitrary: st) (simp_all add: tasks_inv_cycle)

lemma guarded_poll_Some: "fst (guarded_poll cfg ts p addresses start cb) = Some r \<Longrightarrow> poll_events p addresses start = Inr r"
  by (auto simp: guarded_poll_def split: prod.splits sum.splits)

lemma cycle_poll_result:
  assumes "node_ok chain (node inp)"
  shows "fst (cycle_poll env inp st) = events_between (contracts env) chain (from_block st) (snd (cycle_poll env inp st))"
    "from_block st \<le> snd (cycle_poll env inp st)"
proof -
  have "fst (cycle_poll env inp st) = events_between (contracts env) chain (from_block st) (snd (cycle_poll env inp st))
      \<and> from_block st \<le> snd (cycle_poll env inp st)"
  proof (cases "fst (guarded_poll (rpc_cfg env) (poll_times inp) (node inp) (contracts env) (from_block st) (rpc_cb st))")
    case None
    then show ?thesis by (simp add: cycle_poll_def events_between_empty)
  next
    case (Some r)
    obtain evs b where r: "r = (evs, b)" by (cases r)
    show ?thesis using poll_events_result [OF assms guarded_poll_Some [OF Some [unfolded r]]] Some r
      by (simp add: cycle_poll_def)
  qed
  then show "fst (cycle_poll env inp st) = events_between (contracts env) chain (from_block st) (snd (cycle_poll env inp st))"
    "from_block st \<le> snd (cycle_poll env inp st)" by simp_all
qed

lemma run_polled_between:
  assumes "history_ok chain" "\<forall>inp\<in>set inps. node_ok chain (node inp)"
  shows "run_polled env inps st = events_between (contracts env) chain (from_block st) (from_block (watch_run env inps st))
    \<and> from_block st \<le> from_block (watch_run env inps st)"
  using assms(2)
proof (induction inps arbitrary: st)
  case Nil
  then show ?case by (simp add: watch_run_def events_between_empty)
next
  case (Cons inp inps)
  let ?st = "watch_cycle env inp st"
  have run: "watch_run env (inp # inps) st = watch_run env inps ?st" by (simp add: watch_run_def)
  have IH: "run_polled env inps ?st = events_between (contracts env) chain (from_block ?st) (from_block (watch_run env inps ?st))"
      "from_block ?st \<le> from_block (watch_run env inps ?st)"
    using Cons.IH [of ?st] Cons.prems by simp_all
  have c: "fst (cycle_poll env inp st) = events_between (contracts env) chain (from_block st) (from_block ?st)" "from_block st \<le> from_block ?st"
    using cycle_poll_result [where chain = chain and inp = inp and env = env and st = st] Cons.prems watch_cycle_result(1) [of env inp st] by simp_all
  show ?case unfolding run using events_between_append [OF assms(1) c(2) IH(2), of "contracts env"] c IH by simp
qed

section \<open>Challenges that found no permit\<close>

text \<open>A task for a result is started by a challenge of that result among the handled events only.\<close>

lemma handle_events_spawned:
  assumes "\<not> dry_run env" "r \<in> set (spawned (effects (handle_events env inp i evs st)))"
  shows "r \<in> set (spawned (effects st)) \<or> (\<exists>j < length evs. \<exists>ch. evs ! j = WResultChallenged r ch \<and> permit_free inp (i + j))"
  using assms(2)
proof (induction evs arbitrary: i st)
  case Nil
  then show ?case by simp
next
  case (Cons ev evs)
  show ?case
  proof (cases "stopping inp i")
    case True
    then show ?thesis using Cons.prems by simp
  next
    case False
    let ?st = "handle_event env inp i ev st"
    have "r \<in> set (spawned (effects ?st)) \<or> (\<exists>j < length evs. \<exists>ch. evs ! j = WResultChallenged r ch \<and> permit_free inp (Suc i + j))"
      using Cons.IH [of "Suc i" ?st] Cons.prems False by simp
    then show ?thesis
    proof
      assume "r \<in> set (spawned (effects ?st))"
      then show ?thesis using handle_event_tasks [OF assms(1), of inp i ev st] by force
    next
      assume "\<exists>j < length evs. \<exists>ch. evs ! j = WResultChallenged r ch \<and> permit_free inp (Suc i + j)"
      then obtain j ch where "j < length evs" "evs ! j = WResultChallenged r ch" "permit_free inp (Suc i + j)" by blast
      then show ?thesis by (intro disjI2 exI [of _ "Suc j"]) auto
    qed
  qed
qed

lemma watch_cycle_spawned:
  assumes "\<not> dry_run env" "r \<in> set (spawned (effects (watch_cycle env inp st)))"
  shows "r \<in> set (spawned (effects st))
    \<or> (\<exists>j < length (fst (cycle_poll env inp st)). \<exists>ch. fst (cycle_poll env inp st) ! j = WResultChallenged r ch \<and> permit_free inp j)"
  using handle_events_spawned [OF assms(1), of r inp 0 "fst (cycle_poll env inp st)" "polled_state env inp st"] assms(2)
  by (simp add: watch_cycle_result handled_state_def polled_state_def)

lemma watch_run_spawned:
  assumes "\<not> dry_run env" "r \<in> set (spawned (effects (watch_run env inps st)))"
  shows "r \<in> set (spawned (effects st)) \<or> (\<exists>ch. WResultChallenged r ch \<in> set (run_polled env inps st))"
  using assms(2)
proof (induction inps arbitrary: st)
  case Nil
  then show ?case by (simp add: watch_run_def)
next
  case (Cons inp inps)
  then have "r \<in> set (spawned (effects (watch_cycle env inp st)))
      \<or> (\<exists>ch. WResultChallenged r ch \<in> set (run_polled env inps (watch_cycle env inp st)))"
    by (simp add: watch_run_def)
  then show ?case using watch_cycle_spawned [OF assms(1), of r inp st] by (auto simp: in_set_conv_nth)
qed

lemma in_events_between:
  "ev \<in> set (events_between addresses chain a b) \<Longrightarrow>
     \<exists>l\<in>set chain. watcher_parse_log l = Some ev \<and> a \<le> block_of l \<and> block_of l < b"
  by (auto simp: events_between_def List.map_filter_def)

lemma challenge_not_retried:
  assumes env: "\<not> dry_run env" and fresh: "r \<notin> set (spawned (effects st))"
    and denied: "\<forall>j < length (fst (cycle_poll env inp st)). \<forall>ch. fst (cycle_poll env inp st) ! j = WResultChallenged r ch \<longrightarrow> \<not> permit_free inp j"
    and hist: "history_ok chain" "\<forall>inp\<in>set inps. node_ok chain (node inp)"
    and later: "\<forall>l\<in>set chain. \<forall>ch. watcher_parse_log l = Some (WResultChallenged r ch) \<longrightarrow> block_of l < snd (cycle_poll env inp st)"
  shows "r \<notin> set (spawned (effects (watch_run env (inp # inps) st)))"
proof
  let ?st = "watch_cycle env inp st"
  assume "r \<in> set (spawned (effects (watch_run env (inp # inps) st)))"
  then have "r \<in> set (spawned (effects (watch_run env inps ?st)))" by (simp add: watch_run_def)
  then consider "r \<in> set (spawned (effects ?st))" | ch where "WResultChallenged r ch \<in> set (run_polled env inps ?st)"
    using watch_run_spawned [OF env] by blast
  then show False
  proof cases
    case 1
    then show False using watch_cycle_spawned [OF env] fresh denied by blast
  next
    case 2
    then obtain l where "l \<in> set chain" "watcher_parse_log l = Some (WResultChallenged r ch)" "from_block ?st \<le> block_of l"
      using run_polled_between [OF hist, of env ?st] in_events_between by metis
    then show False using later by (auto simp: watch_cycle_result)
  qed
qed

section \<open>What the events do\<close>

text \<open>The part of the state in which each submission, finalization, expiry and resolution leaves a trace: the hash of the model of each open
  result, and the two counters. \<open>apply_event\<close> is the effect of an event on it.\<close>

type_synonym trace = "(string \<rightharpoonup> string) \<times> u64 \<times> u64"

definition event_trace :: "watch_state \<Rightarrow> trace" where
  "event_trace st = (map_of (result_model_map st), total_submissions st, total_finalizations st)"

fun apply_event :: "watch_env \<Rightarrow> WEvent \<Rightarrow> trace \<Rightarrow> trace" where
  "apply_event env (WResultSubmitted r mh a b c) (m, s, f) = (m(rid_hex env r \<mapsto> ''0x'' @ encode_hex env mh), s + 1, f)"
| "apply_event env (WResultFinalized r) (m, s, f) = (m(rid_hex env r := None), s, f + 1)"
| "apply_event env (WResultExpired r) (m, s, f) = (m(rid_hex env r := None), s, f)"
| "apply_event env (WDisputeResolved r w) (m, s, f) = (m(rid_hex env r := None), s, f)"
| "apply_event env (WResultChallenged r ch) t = t"

lemma raise_alert_trace [simp]: "event_trace (raise_alert env now rid ch st) = event_trace st"
  by (simp add: raise_alert_def event_trace_def split: prod.split)

lemma handle_event_trace: "event_trace (handle_event env inp i ev st) = apply_event env ev (event_trace st)"
proof (cases ev)
  case (WResultChallenged r ch)
  have "event_trace (st\<lparr> effects := x \<rparr>) = event_trace st" "event_trace (set_disputes ds st) = event_trace st"
    "event_trace (st\<lparr> total_errors := e \<rparr>) = event_trace st" "event_trace (mark_processed k st) = event_trace st"
    "event_trace (st\<lparr> total_challenges := e \<rparr>) = event_trace st" for x ds e k st
    by (simp_all add: event_trace_def set_disputes_def mark_processed_def)
  then show ?thesis using WResultChallenged by (simp add: handle_event_def handle_challenged_def Let_def)
qed (simp_all add: handle_event_def drop_dispute_def set_disputes_def event_trace_def update_conv' delete_conv')

lemma handle_events_trace:
  "\<forall>j. \<not> stopping inp j \<Longrightarrow> event_trace (handle_events env inp i evs st) = fold (apply_event env) evs (event_trace st)"
  by (induction evs arbitrary: i st) (simp_all add: handle_event_trace)

lemma handle_events_stopped: "stopping inp i \<Longrightarrow> handle_events env inp i evs st = st"
  by (cases evs) simp_all

lemma auto_finalize_trace [simp]: "event_trace (auto_finalize env inp b st) = event_trace st"
  by (simp add: auto_finalize_def event_trace_def Let_def split: prod.split option.split)

lemma watch_cycle_trace: "event_trace (watch_cycle env inp st) = event_trace (handled_state env inp st)"
proof -
  have "event_trace (st\<lparr> finalize_counter := n \<rparr>) = event_trace st" "event_trace (st\<lparr> active_dispute_gauge := n \<rparr>) = event_trace st"
    "event_trace (persist env inp st) = event_trace st" for n st
    by (simp_all add: event_trace_def persist_def Let_def)
  then show ?thesis
    by (simp add: watch_cycle_def handled_state_def polled_state_def cycle_poll_def Let_def case_prod_unfold)
qed

lemma polled_state_trace [simp]: "event_trace (polled_state env inp st) = event_trace st"
  by (simp add: polled_state_def event_trace_def)

theorem watch_run_trace:
  assumes "\<forall>inp \<in> set inps. \<forall>j. \<not> stopping inp j"
  shows "event_trace (watch_run env inps st) = fold (apply_event env) (run_polled env inps st) (event_trace st)"
  using assms
proof (induction inps arbitrary: st)
  case (Cons inp inps)
  then have "event_trace (watch_run env inps (watch_cycle env inp st)) =
      fold (apply_event env) (run_polled env inps (watch_cycle env inp st)) (event_trace (watch_cycle env inp st))" by simp
  then show ?case using Cons.prems by (simp add: watch_run_def watch_cycle_trace handled_state_def handle_events_trace)
qed (simp add: watch_run_def)

text \<open>A cycle that is asked to stop before its first event handles none of them, but the block it persists is past them.\<close>

theorem watch_cycle_stopped:
  assumes "stopping inp 0"
  shows "event_trace (watch_cycle env inp st) = event_trace st" "spawned (effects (watch_cycle env inp st)) = spawned (effects st)"
    "last_polled_block (op_state (watch_cycle env inp st)) = snd (cycle_poll env inp st)"
  using handle_events_stopped [where evs = "fst (cycle_poll env inp st)", OF assms]
  by (simp_all add: watch_cycle_trace watch_cycle_result handled_state_def) (simp add: polled_state_def)

section \<open>Restart\<close>

lemma watch_cycle_saved:
  assumes "mkdir_ok (file_outcome inp)" "write_res (file_outcome inp) = Write_Ok" "rename_ok (file_outcome inp)"
  shows "disk (watch_cycle env inp st) (state_path env) = Some (state_json env (to_wire (op_state (watch_cycle env inp st))))"
  unfolding watch_cycle_result(4) [of env inp st] using assms by (simp add: store_save_def Let_def)

section \<open>Finalization\<close>

text \<open>Each attempt that fails counts against the chain circuit breaker; while it is open, no submission is tried.\<close>

lemma finalize_open:
  assumes "cb_state cb = Open" "opened_at cb = Some t" "\<forall>j. fst (clock j) - t < recovery_timeout cfg"
  shows "finalize_loop cfg clock ok i evs cb = ([], cb)"
  using assms(1,2)
proof (induction evs arbitrary: i)
  case (Cons ev evs)
  have "fst (clock i) - t < recovery_timeout cfg" using assms(3) by blast
  then show ?case using Cons
    by (auto simp: allow_request_def maybe_transition_to_half_open_def split: WEvent.split prod.split)
qed simp

lemma finalize_blocked:
  assumes "cb_state cb = Closed" "cb_failures cb = 0" "failure_threshold cfg = 3"
    "\<forall>j. fst (clock j) - snd (snd (clock 2)) < recovery_timeout cfg" "\<not> ok r1" "\<not> ok r2" "\<not> ok r3"
  shows "fst (finalize_loop cfg clock ok 0 (WResultSubmitted r1 a1 b1 c1 d1 # WResultSubmitted r2 a2 b2 c2 d2
           # WResultSubmitted r3 a3 b3 c3 d3 # evs) cb) = [Finalize r1 False, Finalize r2 False, Finalize r3 False]"
proof -
  note opened = finalize_open [OF _ _ assms(4) [unfolded numeral_2_eq_2], where i = "Suc (Suc (Suc 0))" and evs = evs and ok = ok]
  show ?thesis using assms(1-3,5-7) opened
    by (cases "clock 0"; cases "clock (Suc 0)"; cases "clock (Suc (Suc 0))")
       (simp add: allow_request_def maybe_transition_to_half_open_def record_failure_def Let_def word_le_nat_alt)
qed

lemma auto_finalize_effects:
  assumes "fst (guarded_poll (rpc_cfg env) (finalize_poll_times inp) (finalize_node inp) (contracts env) start (rpc_cb st)) = Some (evs, next_block)"
  shows "effects (auto_finalize env inp start st) =
    effects st @ fst (finalize_loop (chain_cfg env) (finalize_clock inp) (finalize_ok inp) 0 evs (chain_cb st))"
  using assms by (auto simp: auto_finalize_def split: prod.split)

end
