(* ===== verification/Challenge_Task.thy ===== *)
theory Challenge_Task
  imports Verifier_Api Net_Addr Circuit_Breaker Alerting
begin

text \<open>
  The task that answers a challenge (\<open>services/operator/src/main.rs\<close>: \<open>handle_challenge\<close>, \<open>resolve_with_proof\<close>), the local
  check before it (\<open>verify.rs\<close>) and the proof files (\<open>prover.rs\<close>). It connects the operator with the verifier crate: the
  check runs \<open>verify\<close> on a bundle built from the stored proof.

  The task is one run of \<open>handle_challenge\<close>; the state is what it shares with the rest of the operator. Parameters: the
  parameters of the verifier, the JSON parsers, the display of errors and transactions, and the chain client, which gets
  the decoded proof and answers with a transaction and its gas, or with an error. What the client was given is recorded
  (\<open>submissions\<close>). A panic of the verifier ends the task (\<open>Died\<close>). The wait for a proof file is a loop over the clock: it is
  a partial function, with \<open>None\<close> for a call that does not return.
\<close>

section \<open>Local pre-verification\<close>

record StoredProof =
  sp_proof_hex :: string
  sp_circuit_hash :: string
  sp_public_inputs_hex :: string
  sp_gens_hex :: string

record 'j ProofPreVerifier =
  circuit_desc_dir :: string
  desc_cache :: "(string \<times> 'j) list"

datatype PreVerifyResult = Verified | Failed string | Skipped string

record 'j verifier_env =
  v_sha256 :: "u8 list \<Rightarrow> u8 list"
  v_hex_decode :: "string \<Rightarrow> string + u8 list"
  v_json :: "'j json_ops"
  v_from_str :: "string \<Rightarrow> 'j option"
  v_show_error :: "verify_error \<Rightarrow> string"

text \<open>\<open>PathBuf::join\<close>: an absolute path replaces the directory.\<close>

definition path_join :: "string \<Rightarrow> string \<Rightarrow> string" where
  "path_join dir p =
     (if take 1 p = ''/'' then p else if dir = [] \<or> last dir = CHR ''/'' then dir @ p else dir @ ''/'' @ p)"

definition normalize_hex :: "string \<Rightarrow> string" where
  "normalize_hex s = to_lowercase (if take 2 s = ''0x'' \<or> take 2 s = ''0X'' then drop 2 s else s)"

definition load_circuit_desc_file :: "'j verifier_env \<Rightarrow> (string \<rightharpoonup> string) \<Rightarrow> string \<Rightarrow> 'j option" where
  "load_circuit_desc_file env fs path = Option.bind (fs path) (v_from_str env)"

definition load_circuit_desc ::
  "'j verifier_env \<Rightarrow> (string \<rightharpoonup> string) \<Rightarrow> string \<Rightarrow> 'j ProofPreVerifier \<Rightarrow> 'j option \<times> 'j ProofPreVerifier" where
  "load_circuit_desc env fs h pv =
     (case map_of (desc_cache pv) h of
        Some d \<Rightarrow> (Some d, pv)
      | None \<Rightarrow>
          (case load_circuit_desc_file env fs (path_join (circuit_desc_dir pv) (h @ ''.json'')) of
             None \<Rightarrow> (None, pv)
           | Some d \<Rightarrow> (Some d, pv\<lparr> desc_cache := AList.update h d (desc_cache pv) \<rparr>)))"

definition bundle_of :: "StoredProof \<Rightarrow> 'j \<Rightarrow> 'j ProofBundle" where
  "bundle_of p desc =
     \<lparr> proof_hex = sp_proof_hex p, public_inputs_hex = sp_public_inputs_hex p, gens_hex = sp_gens_hex p,
       dag_circuit_description = desc, bundle_model_hash = None, bundle_timestamp = None, bundle_prover_version = None,
       bundle_circuit_hash = None \<rparr>"

definition pre_verify ::
  "'j verifier_env \<Rightarrow> (string \<rightharpoonup> string) \<Rightarrow> StoredProof \<Rightarrow> 'j ProofPreVerifier \<Rightarrow> (panic + PreVerifyResult) \<times> 'j ProofPreVerifier" where
  "pre_verify env fs p pv =
     (let h = normalize_hex (sp_circuit_hash p)
      in case load_circuit_desc env fs h pv of
           (None, pv) \<Rightarrow> (Inr (Skipped (''no circuit description for '' @ h)), pv)
         | (Some desc, pv) \<Rightarrow>
             (case verify (v_sha256 env) (v_hex_decode env) (v_json env) (bundle_of p desc) of
                Inr r \<Rightarrow> if verified r then (Inr Verified, pv) else (Inr (Failed (''proof failed for circuit '' @ h)), pv)
              | Inl (Returned e) \<Rightarrow> (Inr (Failed (''verification error: '' @ v_show_error env e)), pv)
              | Inl (Panicked pk) \<Rightarrow> (Inl pk, pv)))"

definition pre_verify_hybrid ::
  "'j verifier_env \<Rightarrow> (string \<rightharpoonup> string) \<Rightarrow> StoredProof \<Rightarrow> 'j ProofPreVerifier
   \<Rightarrow> (panic + PreVerifyResult + HybridVerificationResult) \<times> 'j ProofPreVerifier" where
  "pre_verify_hybrid env fs p pv =
     (let h = normalize_hex (sp_circuit_hash p)
      in case load_circuit_desc env fs h pv of
           (None, pv) \<Rightarrow> (Inr (Inl (Skipped (''no circuit description for '' @ h))), pv)
         | (Some desc, pv) \<Rightarrow>
             (case verify_hybrid (v_sha256 env) (v_hex_decode env) (v_json env) (bundle_of p desc) of
                Inr r \<Rightarrow> (Inr (Inr r), pv)
              | Inl (Returned e) \<Rightarrow> (Inr (Inl (Failed (''hybrid error: '' @ v_show_error env e))), pv)
              | Inl (Panicked pk) \<Rightarrow> (Inl pk, pv)))"

section \<open>Proof files\<close>

datatype file_view = Absent | Cannot_Read string | Contents string

definition read_proof :: "(string \<Rightarrow> string + StoredProof) \<Rightarrow> file_view \<Rightarrow> string + StoredProof option" where
  "read_proof parse v =
     (case v of
        Absent \<Rightarrow> Inr None
      | Cannot_Read e \<Rightarrow> Inl e
      | Contents s \<Rightarrow> (case parse s of Inl e \<Rightarrow> Inl e | Inr p \<Rightarrow> Inr (Some p)))"

text \<open>Iteration \<open>i\<close> reads the elapsed seconds and looks for the file.\<close>

partial_function (option) wait_loop :: "nat \<Rightarrow> (nat \<Rightarrow> nat) \<Rightarrow> (nat \<Rightarrow> bool) \<Rightarrow> nat \<Rightarrow> bool option" where
  "wait_loop timeout elapsed present i =
     (if elapsed i < timeout then (if present i then Some True else wait_loop timeout elapsed present (Suc i)) else Some False)"

declare wait_loop.simps [code]

definition wait_for_proof :: "nat \<Rightarrow> (nat \<Rightarrow> nat) \<Rightarrow> (nat \<Rightarrow> bool) \<Rightarrow> (string + bool) option" where
  "wait_for_proof timeout elapsed present = map_option Inr (wait_loop timeout elapsed present 0)"

section \<open>The task\<close>

definition hex_to_bytes :: "(string \<Rightarrow> string + u8 list) \<Rightarrow> string \<Rightarrow> string + u8 list" where
  "hex_to_bytes hex_decode s = hex_decode (strip_0x s)"

definition hex_to_b256 :: "(string \<Rightarrow> string + u8 list) \<Rightarrow> string \<Rightarrow> string + u8 list" where
  "hex_to_b256 hex_decode s =
     (case hex_decode (strip_0x s) of
        Inl e \<Rightarrow> Inl e
      | Inr bs \<Rightarrow> if length bs \<noteq> 32 then Inl (''Expected 32 bytes, got '' @ dec_digits (length bs)) else Inr bs)"

definition STYLUS_GAS_THRESHOLD :: u64 where
  "STYLUS_GAS_THRESHOLD = 30000000"

definition SOLIDITY_GAS_THRESHOLD :: u64 where
  "SOLIDITY_GAS_THRESHOLD = 200000000"

text \<open>The id of the result, proof bytes, circuit hash, public inputs and generators, as the chain client gets them.\<close>

type_synonym submission = "u8 list \<times> u8 list \<times> u8 list \<times> u8 list \<times> u8 list"

record ('j, 'x) task_env =
  verifier :: "'j verifier_env"
  desc_files :: "string \<rightharpoonup> string"
  first_file :: file_view
  waiting :: "(nat \<Rightarrow> nat) \<times> (nat \<Rightarrow> bool)"
  second_file :: file_view
  parse_proof :: "string \<Rightarrow> string + StoredProof"
  chain_client :: "submission \<Rightarrow> string + 'x \<times> u64"
  show_tx :: "'x \<Rightarrow> string"
  hex_of_id :: "u8 list \<Rightarrow> string"
  task_chain_cfg :: CircuitBreakerConfig
  task_alert_cfg :: AlertConfig
  failed_at :: nat
  alert_at :: nat

record 'j task_state =
  pre_verifier :: "'j ProofPreVerifier option"
  submissions :: "submission list"
  task_cb :: CircuitBreaker
  task_alerts :: AlertState
  disputes_resolved :: u64
  disputes_failed :: u64
  stylus_disputes_resolved :: u64
  solidity_disputes_resolved :: u64

datatype 'x task_outcome = Died panic | Declined | Answered "string + 'x"

definition pre_verify_proof :: "('j, 'x) task_env \<Rightarrow> StoredProof \<Rightarrow> 'j task_state \<Rightarrow> (panic + bool) \<times> 'j task_state" where
  "pre_verify_proof env p st =
     (case pre_verifier st of
        None \<Rightarrow> (Inr True, st)
      | Some pv \<Rightarrow>
          (case pre_verify (verifier env) (desc_files env) p pv of
             (r, pv) \<Rightarrow>
               (case r of
                  Inl pk \<Rightarrow> Inl pk
                | Inr Verified \<Rightarrow> Inr True
                | Inr (Failed _) \<Rightarrow> Inr False
                | Inr (Skipped _) \<Rightarrow> Inr True,
                st\<lparr> pre_verifier := Some pv \<rparr>)))"

definition count_path :: "u64 \<Rightarrow> 'j task_state \<Rightarrow> 'j task_state" where
  "count_path gas_used st =
     (if gas_used < STYLUS_GAS_THRESHOLD then st\<lparr> stylus_disputes_resolved := stylus_disputes_resolved st + 1 \<rparr>
      else if SOLIDITY_GAS_THRESHOLD < gas_used then st\<lparr> solidity_disputes_resolved := solidity_disputes_resolved st + 1 \<rparr>
      else st)"

definition resolve_with_proof :: "('j, 'x) task_env \<Rightarrow> u8 list \<Rightarrow> StoredProof \<Rightarrow> 'j task_state \<Rightarrow> (string + 'x) \<times> 'j task_state" where
  "resolve_with_proof env result_id p st =
     (let hex = v_hex_decode (verifier env)
      in case hex_to_bytes hex (sp_proof_hex p) of Inl e \<Rightarrow> (Inl e, st) | Inr proof_bytes \<Rightarrow>
        (case hex_to_b256 hex (sp_circuit_hash p) of Inl e \<Rightarrow> (Inl e, st) | Inr chash \<Rightarrow>
        (case hex_to_bytes hex (sp_public_inputs_hex p) of Inl e \<Rightarrow> (Inl e, st) | Inr public_inputs \<Rightarrow>
        (case hex_to_bytes hex (sp_gens_hex p) of Inl e \<Rightarrow> (Inl e, st) | Inr gens \<Rightarrow>
          let sub = (result_id, proof_bytes, chash, public_inputs, gens); st = st\<lparr> submissions := submissions st @ [sub] \<rparr>
          in (case chain_client env sub of
                Inl e \<Rightarrow> (Inl e, st)
              | Inr (tx, gas_used) \<Rightarrow> (Inr tx, count_path gas_used st))))))"

text \<open>The check and the answer; a proof that fails the check ends the task.\<close>

definition check_and_resolve :: "('j, 'x) task_env \<Rightarrow> u8 list \<Rightarrow> StoredProof \<Rightarrow> 'j task_state \<Rightarrow> 'x task_outcome \<times> 'j task_state" where
  "check_and_resolve env result_id p st =
     (case pre_verify_proof env p st of
        (Inl pk, st) \<Rightarrow> (Died pk, st)
      | (Inr False, st) \<Rightarrow> (Declined, st\<lparr> disputes_failed := disputes_failed st + 1 \<rparr>)
      | (Inr True, st) \<Rightarrow> (case resolve_with_proof env result_id p st of (r, st) \<Rightarrow> (Answered r, st)))"

definition resolve_challenge :: "('j, 'x) task_env \<Rightarrow> u8 list \<Rightarrow> 'j task_state \<Rightarrow> ('x task_outcome \<times> 'j task_state) option" where
  "resolve_challenge env result_id st =
     (case read_proof (parse_proof env) (first_file env) of
        Inr (Some p) \<Rightarrow> Some (check_and_resolve env result_id p st)
      | Inl e \<Rightarrow> Some (Answered (Inl e), st)
      | Inr None \<Rightarrow>
          (case wait_for_proof 60 (fst (waiting env)) (snd (waiting env)) of
             None \<Rightarrow> None
           | Some (Inr True) \<Rightarrow>
               (case read_proof (parse_proof env) (second_file env) of
                  Inr (Some p) \<Rightarrow> Some (check_and_resolve env result_id p st)
                | _ \<Rightarrow> Some (Answered (Inl ''Proof disappeared after wait''), st))
           | Some (Inr False) \<Rightarrow> Some (Answered (Inl (''Proof timeout for 0x'' @ hex_of_id env result_id)), st)
           | Some (Inl e) \<Rightarrow> Some (Answered (Inl e), st)))"

definition task_alert ::
  "('j, 'x) task_env \<Rightarrow> AlertSeverity \<Rightarrow> string \<Rightarrow> string \<Rightarrow> (string \<times> string) list \<Rightarrow> 'j task_state \<Rightarrow> sends \<times> 'j task_state" where
  "task_alert env sev ty msg meta st =
     (case send_alert (task_alert_cfg env) (alert_at env) sev ty ''operator'' msg meta (task_alerts st) of
        (_, sent, al) \<Rightarrow> (sent, st\<lparr> task_alerts := al \<rparr>))"

definition handle_challenge ::
  "('j, 'x) task_env \<Rightarrow> u8 list \<Rightarrow> 'j task_state \<Rightarrow> ('x task_outcome \<times> sends \<times> 'j task_state) option" where
  "handle_challenge env result_id st =
     (let rid = ''0x'' @ hex_of_id env result_id
      in case resolve_challenge env result_id st of
        None \<Rightarrow> None
      | Some (Answered (Inr tx), st) \<Rightarrow>
          (let st = st\<lparr> task_cb := record_success (task_chain_cfg env) (task_cb st), disputes_resolved := disputes_resolved st + 1 \<rparr>
           in Some (Answered (Inr tx), task_alert env Info ''dispute_resolved'' ''Dispute resolved successfully''
                      [(''result_id'', rid), (''tx'', show_tx env tx)] st))
      | Some (Answered (Inl e), st) \<Rightarrow>
          (let st = st\<lparr> task_cb := record_failure (task_chain_cfg env) (failed_at env) (task_cb st), disputes_failed := disputes_failed st + 1 \<rparr>
           in Some (Answered (Inl e), task_alert env Critical ''dispute_failed'' (''Dispute resolution failed: '' @ e)
                      [(''result_id'', rid), (''error'', e)] st))
      | Some (Declined, st) \<Rightarrow> Some (Declined, [], st)
      | Some (Died pk, st) \<Rightarrow> Some (Died pk, [], st))"

section \<open>The wait\<close>

text \<open>Two iterations take at least a second, since each sleeps for half of one: the wait ends.\<close>

lemma wait_loop_ends:
  assumes "\<And>i. i div 2 \<le> elapsed i" "i \<le> 2 * timeout"
  shows "\<exists>b. wait_loop timeout elapsed present i = Some b"
  using assms(2)
proof (induction "2 * timeout - i" arbitrary: i)
  case 0
  then have "timeout \<le> elapsed i" using assms(1) [of i] by simp
  then show ?case by (subst wait_loop.simps) auto
next
  case (Suc d)
  then have "\<exists>b. wait_loop timeout elapsed present (Suc i) = Some b" by (intro Suc.hyps) auto
  then show ?case by (subst wait_loop.simps) (auto split: if_split)
qed

lemma wait_for_proof_ends:
  assumes "\<And>i. i div 2 \<le> elapsed i"
  obtains b where "wait_for_proof timeout elapsed present = Some (Inr b)"
  using wait_loop_ends [OF assms, of 0 timeout present] by (auto simp: wait_for_proof_def)

lemma resolve_challenge_ends:
  assumes "\<And>i. i div 2 \<le> fst (waiting env) i"
  shows "\<exists>r. resolve_challenge env rid st = Some r"
proof -
  obtain b where "wait_for_proof 60 (fst (waiting env)) (snd (waiting env)) = Some (Inr b)"
    using wait_for_proof_ends [OF assms] by blast
  then show ?thesis by (auto simp: resolve_challenge_def split: sum.split option.split bool.split)
qed

lemma handle_challenge_ends:
  assumes "\<And>i. i div 2 \<le> fst (waiting env) i"
  shows "\<exists>out sent st'. handle_challenge env rid st = Some (out, sent, st')"
  using resolve_challenge_ends [OF assms, of rid st]
  by (auto simp: handle_challenge_def Let_def split: task_outcome.split sum.split)

section \<open>What the task submits\<close>

text \<open>The description that the check uses for a stored proof, when there is one.\<close>

definition known_desc :: "('j, 'x) task_env \<Rightarrow> 'j task_state \<Rightarrow> StoredProof \<Rightarrow> 'j option" where
  "known_desc env st p =
     Option.bind (pre_verifier st)
       (\<lambda>pv. fst (load_circuit_desc (verifier env) (desc_files env) (normalize_hex (sp_circuit_hash p)) pv))"

definition accepted_locally :: "'j verifier_env \<Rightarrow> 'j \<Rightarrow> submission \<Rightarrow> bool" where
  "accepted_locally env desc sub \<longleftrightarrow>
     (\<exists>cd r. encode_circuit_desc_from_json (v_json env) (v_hex_decode env) desc = Inr cd
        \<and> verify_raw (v_sha256 env) (fst (snd sub)) (snd (snd (snd (snd sub)))) cd = Inr r \<and> verified r)"

definition decodes_stored :: "'j verifier_env \<Rightarrow> StoredProof \<Rightarrow> submission \<Rightarrow> bool" where
  "decodes_stored env p sub \<longleftrightarrow>
     (case sub of (_, pb, ch, pub, gens) \<Rightarrow>
        hex_to_bytes (v_hex_decode env) (sp_proof_hex p) = Inr pb \<and> hex_to_b256 (v_hex_decode env) (sp_circuit_hash p) = Inr ch
        \<and> hex_to_bytes (v_hex_decode env) (sp_public_inputs_hex p) = Inr pub \<and> hex_to_bytes (v_hex_decode env) (sp_gens_hex p) = Inr gens)"

lemma pre_verify_proof_state: "submissions (snd (pre_verify_proof env p st)) = submissions st"
  by (simp add: pre_verify_proof_def split: option.split prod.split)

lemma pre_verify_proof_known:
  assumes "fst (pre_verify_proof env p st) = Inr True" "known_desc env st p = Some desc"
  shows "\<exists>r. verify (v_sha256 (verifier env)) (v_hex_decode (verifier env)) (v_json (verifier env)) (bundle_of p desc) = Inr r \<and> verified r"
  using assms
  by (auto simp: pre_verify_proof_def known_desc_def pre_verify_def bind_eq_Some_conv Let_def
      split: option.splits prod.splits sum.splits PreVerifyResult.splits failure.splits if_splits)

lemma decode_hex_Inr: "decode_hex hex s field = Inr bs \<longleftrightarrow> hex (strip_0x s) = Inr bs"
  by (auto simp: decode_hex_def bundle_parse_def Let_def split: sum.split)

lemma verified_submission:
  assumes "verify (v_sha256 env) (v_hex_decode env) (v_json env) (bundle_of p desc) = Inr r" "verified r" "decodes_stored env p sub"
  shows "accepted_locally env desc sub"
proof -
  obtain pd gd cd where parts: "bundle_parts (v_hex_decode env) (v_json env) (bundle_of p desc) pd gd cd"
      "verify_raw (v_sha256 env) pd gd cd = Inr r"
    by (rule verify_imp_parts [OF assms(1)])
  then have "pd = fst (snd sub)" "gd = snd (snd (snd (snd sub)))"
    using assms(3) by (auto simp: bundle_parts_def bundle_of_def proof_data_def gens_data_def decode_hex_Inr decodes_stored_def hex_to_bytes_def)
  then show ?thesis using parts assms(2) by (auto simp: accepted_locally_def bundle_parts_def bundle_of_def)
qed

lemma resolve_with_proof_submits:
  assumes "resolve_with_proof env rid p st = (r, st')"
  shows "submissions st' = submissions st \<and> (\<exists>e. r = Inl e)
    \<or> (\<exists>sub. fst sub = rid \<and> decodes_stored (verifier env) p sub \<and> submissions st' = submissions st @ [sub]
        \<and> r = map_sum id fst (chain_client env sub))"
  using assms
  by (auto simp: resolve_with_proof_def decodes_stored_def count_path_def Let_def split: sum.splits prod.splits if_splits)

lemma check_and_resolve_submits:
  assumes "check_and_resolve env rid p st = (out, st')" "submissions st' \<noteq> submissions st"
  shows "\<exists>sub. submissions st' = submissions st @ [sub] \<and> fst sub = rid \<and> decodes_stored (verifier env) p sub
    \<and> out = Answered (map_sum id fst (chain_client env sub))
    \<and> (\<forall>desc. known_desc env st p = Some desc \<longrightarrow> accepted_locally (verifier env) desc sub)"
proof -
  obtain b st1 where pv: "pre_verify_proof env p st = (b, st1)" by fastforce
  have same: "submissions st1 = submissions st" using pre_verify_proof_state [of env p st] pv by simp
  have b: "b = Inr True" using assms pv same by (auto simp: check_and_resolve_def split: sum.splits bool.splits)
  obtain r where r: "resolve_with_proof env rid p st1 = (r, st')" "out = Answered r"
    using assms(1) pv b by (auto simp: check_and_resolve_def split: prod.splits)
  obtain sub where sub: "decodes_stored (verifier env) p sub" "fst sub = rid" "submissions st' = submissions st @ [sub]" "r = map_sum id fst (chain_client env sub)"
    using resolve_with_proof_submits [OF r(1)] assms(2) same by auto
  have "accepted_locally (verifier env) desc sub" if "known_desc env st p = Some desc" for desc
    using pre_verify_proof_known [OF _ that] pv b verified_submission [OF _ _ sub(1)] by auto
  then show ?thesis using sub r(2) by blast
qed

lemma check_and_resolve_counts:
  assumes "check_and_resolve env rid p st = (out, st')"
  shows "disputes_resolved st' = disputes_resolved st"
    "disputes_failed st' = disputes_failed st + (case out of Declined \<Rightarrow> 1 | _ \<Rightarrow> 0)"
proof -
  have pv: "disputes_resolved (snd (pre_verify_proof env p st)) = disputes_resolved st"
      "disputes_failed (snd (pre_verify_proof env p st)) = disputes_failed st"
    by (simp_all add: pre_verify_proof_def split: option.split prod.split)
  have rs: "disputes_resolved (snd (resolve_with_proof env rid p s)) = disputes_resolved s"
      "disputes_failed (snd (resolve_with_proof env rid p s)) = disputes_failed s" for s
    by (auto simp: resolve_with_proof_def count_path_def Let_def split: sum.split prod.split)
  obtain b st1 where b: "pre_verify_proof env p st = (b, st1)" by fastforce
  obtain r st2 where r: "resolve_with_proof env rid p st1 = (r, st2)" by fastforce
  show "disputes_resolved st' = disputes_resolved st"
    "disputes_failed st' = disputes_failed st + (case out of Declined \<Rightarrow> 1 | _ \<Rightarrow> 0)"
    using assms pv rs [of st1] b r by (auto simp: check_and_resolve_def split: sum.splits bool.splits)
qed

lemma task_alert_frame [simp]:
  "submissions (snd (task_alert env sev ty msg meta st)) = submissions st"
  "disputes_resolved (snd (task_alert env sev ty msg meta st)) = disputes_resolved st"
  "disputes_failed (snd (task_alert env sev ty msg meta st)) = disputes_failed st"
  "task_cb (snd (task_alert env sev ty msg meta st)) = task_cb st"
  by (simp_all add: task_alert_def split: prod.split)

text \<open>The stored proof that the task reads.\<close>

definition stored_proof :: "('j, 'x) task_env \<Rightarrow> StoredProof \<Rightarrow> bool" where
  "stored_proof env p \<longleftrightarrow>
     read_proof (parse_proof env) (first_file env) = Inr (Some p)
     \<or> read_proof (parse_proof env) (first_file env) = Inr None \<and> read_proof (parse_proof env) (second_file env) = Inr (Some p)"

lemma resolve_challenge_cases:
  assumes "resolve_challenge env rid st = Some (out, st')"
  shows "(\<exists>e. out = Answered (Inl e) \<and> st' = st) \<or> (\<exists>p. stored_proof env p \<and> check_and_resolve env rid p st = (out, st'))"
  using assms by (auto simp: resolve_challenge_def stored_proof_def split: sum.splits option.splits bool.splits)

lemma handle_challenge_resolve:
  assumes "handle_challenge env rid st = Some (out, sent, st')"
  obtains st1 where "resolve_challenge env rid st = Some (out, st1)" "submissions st' = submissions st1"
    "disputes_resolved st' = disputes_resolved st1 + (case out of Answered (Inr _) \<Rightarrow> 1 | _ \<Rightarrow> 0)"
    "disputes_failed st' = disputes_failed st1 + (case out of Answered (Inl _) \<Rightarrow> 1 | _ \<Rightarrow> 0)"
proof -
  obtain o' st1 where r: "resolve_challenge env rid st = Some (o', st1)"
    using assms by (cases "resolve_challenge env rid st") (auto simp: handle_challenge_def)
  have "o' = out \<and> submissions st' = submissions st1
      \<and> disputes_resolved st' = disputes_resolved st1 + (case out of Answered (Inr _) \<Rightarrow> 1 | _ \<Rightarrow> 0)
      \<and> disputes_failed st' = disputes_failed st1 + (case out of Answered (Inl _) \<Rightarrow> 1 | _ \<Rightarrow> 0)"
  proof (cases o')
    case (Answered a)
    have st': "st' = snd (sent, st')" by simp
    show ?thesis using assms unfolding handle_challenge_def r Answered
      by (cases a) (auto simp: Let_def dest!: arg_cong [of _ "(sent, st')" snd])
  qed (use assms in \<open>auto simp: handle_challenge_def r\<close>)
  then show thesis using that r by blast
qed

text \<open>A task counts its dispute once, as resolved or as failed, unless it dies.\<close>

definition counted_once :: "'x task_outcome \<Rightarrow> 'j task_state \<Rightarrow> 'j task_state \<Rightarrow> bool" where
  "counted_once out st st' \<longleftrightarrow>
     disputes_resolved st' = disputes_resolved st + (case out of Answered (Inr _) \<Rightarrow> 1 | _ \<Rightarrow> 0)
     \<and> disputes_failed st' = disputes_failed st + (case out of Answered (Inr _) \<Rightarrow> 0 | Died _ \<Rightarrow> 0 | _ \<Rightarrow> 1)"

lemma handle_challenge_counts:
  assumes "handle_challenge env rid st = Some (out, sent, st')"
  shows "counted_once out st st'"
proof -
  obtain st1 where r: "resolve_challenge env rid st = Some (out, st1)"
      "disputes_resolved st' = disputes_resolved st1 + (case out of Answered (Inr _) \<Rightarrow> 1 | _ \<Rightarrow> 0)"
      "disputes_failed st' = disputes_failed st1 + (case out of Answered (Inl _) \<Rightarrow> 1 | _ \<Rightarrow> 0)"
    by (rule handle_challenge_resolve [OF assms])
  from resolve_challenge_cases [OF r(1)] show ?thesis
  proof (elim disjE exE conjE)
    fix p
    assume "check_and_resolve env rid p st = (out, st1)"
    from check_and_resolve_counts [OF this] show ?thesis using r(2,3)
      by (auto simp: counted_once_def split: task_outcome.split sum.split)
  qed (use r(2,3) in \<open>simp add: counted_once_def\<close>)
qed

lemma handle_challenge_submits:
  assumes "handle_challenge env rid st = Some (out, sent, st')" "submissions st' \<noteq> submissions st"
  shows "\<exists>p sub. stored_proof env p \<and> submissions st' = submissions st @ [sub] \<and> fst sub = rid \<and> decodes_stored (verifier env) p sub
    \<and> out = Answered (map_sum id fst (chain_client env sub))
    \<and> (\<forall>desc. known_desc env st p = Some desc \<longrightarrow> accepted_locally (verifier env) desc sub)"
proof -
  obtain st1 where r: "resolve_challenge env rid st = Some (out, st1)" "submissions st' = submissions st1"
    by (rule handle_challenge_resolve [OF assms(1)])
  with resolve_challenge_cases [OF r(1)] assms(2) obtain p where p: "stored_proof env p" "check_and_resolve env rid p st = (out, st1)" by auto
  with check_and_resolve_submits [OF p(2)] assms(2) r(2) show ?thesis by auto
qed

end
