(* ===== verification/Tenant_Auth.thy ===== *)
theory Tenant_Auth
  imports Prelude_ZK Hash_Maps Hex_Format Net_Addr
begin

text \<open>
  The tenants of the verification service and the authentication of its requests (\<open>services/verifier/src/tenant.rs\<close>,
  \<open>auth.rs\<close>). The locks make every operation atomic; a poisoned lock is not modelled. The clock and the stack address from
  which identifiers and keys are made are arguments (\<open>entropy\<close>), names are ASCII text. The tenant file either is missing,
  holds a list of tenants or cannot be read back; a write may fail, or leave a torn file.
\<close>

record Tenant =
  t_id :: string
  t_name :: string
  t_api_key :: string
  t_rate_limit_rpm :: "32 word"
  t_active :: bool
  t_total_requests :: u64
  t_created_at :: string
  t_last_request_at :: "string option"

datatype tenant_file = Missing | Unreadable | Holds "Tenant list"

datatype write_outcome = Written | Not_Written | Torn

record TenantStore =
  tenants_by_key :: "(string \<times> Tenant) list"
  id_to_key :: "(string \<times> string) list"
  has_file :: bool
  tfile :: tenant_file

record TenantUsage =
  u_tenant_id :: string
  u_name :: string
  u_total_requests :: u64
  u_last_request_at :: "string option"
  u_rate_limit_rpm :: "32 word"
  u_active :: bool

section \<open>Identifiers, keys and dates\<close>

definition simple_hash :: "u128 \<Rightarrow> u64" where
  "simple_hash x =
     (let x = x XOR drop_bit 33 x;
          x = x * 0xff51afd7ed558ccd;
          x = x XOR drop_bit 33 x;
          x = x * 0xc4ceb9fe1a85ec53;
          x = x XOR drop_bit 33 x
      in ucast x)"

definition is_alphanumeric :: "char \<Rightarrow> bool" where
  "is_alphanumeric c \<longleftrightarrow>
     (let n = of_char c :: nat in 48 \<le> n \<and> n \<le> 57 \<or> 65 \<le> n \<and> n \<le> 90 \<or> 97 \<le> n \<and> n \<le> 122)"

definition trim_matches :: "char \<Rightarrow> string \<Rightarrow> string" where
  "trim_matches c s = rev (dropWhile (\<lambda>x. x = c) (rev (dropWhile (\<lambda>x. x = c) s)))"

definition generate_tenant_id :: "u128 \<Rightarrow> string \<Rightarrow> string" where
  "generate_tenant_id nanos name =
     (let base = map (\<lambda>c. if is_alphanumeric c then c else CHR ''-'') (to_lowercase name)
      in trim_matches (CHR ''-'') base @ ''-'' @ hex_padded 8 (unat (ucast (simple_hash nanos) :: 32 word)))"

definition generate_api_key :: "u128 \<Rightarrow> u64 \<Rightarrow> string" where
  "generate_api_key nanos addr =
     (let seed = nanos XOR ucast addr XOR push_bit 64 (ucast addr)
      in ''zk_'' @ hex_padded 16 (unat (simple_hash seed)) @ hex_padded 16 (unat (simple_hash (seed + 0xdeadbeef))))"

definition days_to_ymd :: "nat \<Rightarrow> nat \<times> nat \<times> nat" where
  "days_to_ymd days =
     (let z = days + 719468;
          era = z div 146097;
          doe = z - era * 146097;
          yoe = (doe - doe div 1460 + doe div 36524 - doe div 146096) div 365;
          y = yoe + era * 400;
          doy = doe - (365 * yoe + yoe div 4 - yoe div 100);
          mp = (5 * doy + 2) div 153;
          d = doy - (153 * mp + 2) div 5 + 1;
          m = (if mp < 10 then mp + 3 else mp - 9);
          year = (if m \<le> 2 then y + 1 else y)
      in (year, m, d))"

definition iso8601 :: "nat \<Rightarrow> string" where
  "iso8601 secs =
     (let tod = secs mod 86400
      in case days_to_ymd (secs div 86400) of
           (year, month, day) \<Rightarrow>
             dec_padded 4 year @ ''-'' @ dec_padded 2 month @ ''-'' @ dec_padded 2 day @ ''T''
             @ dec_padded 2 (tod div 3600) @ '':'' @ dec_padded 2 (tod mod 3600 div 60) @ '':'' @ dec_padded 2 (tod mod 60) @ ''Z'')"

section \<open>The store\<close>

record entropy =
  id_nanos :: u128
  key_nanos :: u128
  stack_addr :: u64
  clock_secs :: nat

definition store_new :: TenantStore where
  "store_new = \<lparr> tenants_by_key = [], id_to_key = [], has_file = False, tfile = Missing \<rparr>"

definition load_tenant :: "Tenant \<Rightarrow> TenantStore \<Rightarrow> TenantStore" where
  "load_tenant t s =
     s\<lparr> id_to_key := AList.update (t_id t) (t_api_key t) (id_to_key s),
        tenants_by_key := AList.update (t_api_key t) t (tenants_by_key s) \<rparr>"

definition tenants_load :: "tenant_file \<Rightarrow> TenantStore" where
  "tenants_load f =
     (let s = \<lparr> tenants_by_key = [], id_to_key = [], has_file = True, tfile = f \<rparr>
      in case f of Holds ts \<Rightarrow> fold load_tenant ts s | Unreadable \<Rightarrow> s | Missing \<Rightarrow> s)"

definition save_to_file :: "write_outcome \<Rightarrow> TenantStore \<Rightarrow> TenantStore" where
  "save_to_file w s =
     (if \<not> has_file s then s
      else (case w of
              Written \<Rightarrow> s\<lparr> tfile := Holds (map snd (tenants_by_key s)) \<rparr>
            | Torn \<Rightarrow> s\<lparr> tfile := Unreadable \<rparr>
            | Not_Written \<Rightarrow> s))"

definition get_by_key :: "string \<Rightarrow> TenantStore \<Rightarrow> Tenant option" where
  "get_by_key k s = (case map_of (tenants_by_key s) k of Some t \<Rightarrow> if t_active t then Some t else None | None \<Rightarrow> None)"

definition get_by_id :: "string \<Rightarrow> TenantStore \<Rightarrow> Tenant option" where
  "get_by_id i s = (case map_of (id_to_key s) i of Some k \<Rightarrow> map_of (tenants_by_key s) k | None \<Rightarrow> None)"

definition new_tenant :: "entropy \<Rightarrow> string \<Rightarrow> string \<Rightarrow> 32 word \<Rightarrow> Tenant" where
  "new_tenant e i name rpm =
     \<lparr> t_id = i, t_name = name, t_api_key = generate_api_key (key_nanos e) (stack_addr e), t_rate_limit_rpm = rpm,
       t_active = True, t_total_requests = 0, t_created_at = iso8601 (clock_secs e), t_last_request_at = None \<rparr>"

definition create_with_id :: "write_outcome \<Rightarrow> entropy \<Rightarrow> string \<Rightarrow> string \<Rightarrow> 32 word \<Rightarrow> TenantStore \<Rightarrow> Tenant option \<times> TenantStore" where
  "create_with_id w e i name rpm s =
     (let t = new_tenant e i name rpm
      in if map_of (id_to_key s) i \<noteq> None then (None, s)
         else (Some t, save_to_file w
                 (s\<lparr> id_to_key := AList.update i (t_api_key t) (id_to_key s),
                     tenants_by_key := AList.update (t_api_key t) t (tenants_by_key s) \<rparr>)))"

definition create_tenant :: "write_outcome \<Rightarrow> entropy \<Rightarrow> string \<Rightarrow> 32 word \<Rightarrow> TenantStore \<Rightarrow> Tenant option \<times> TenantStore" where
  "create_tenant w e name rpm s = create_with_id w e (generate_tenant_id (id_nanos e) name) name rpm s"

definition revoke_by_key :: "write_outcome \<Rightarrow> string \<Rightarrow> TenantStore \<Rightarrow> bool \<times> TenantStore" where
  "revoke_by_key w k s =
     (case map_of (tenants_by_key s) k of
        Some t \<Rightarrow> (True, save_to_file w (s\<lparr> tenants_by_key := AList.update k (t\<lparr> t_active := False \<rparr>) (tenants_by_key s) \<rparr>))
      | None \<Rightarrow> (False, s))"

definition revoke :: "write_outcome \<Rightarrow> string \<Rightarrow> TenantStore \<Rightarrow> bool \<times> TenantStore" where
  "revoke w i s = (case map_of (id_to_key s) i of Some k \<Rightarrow> revoke_by_key w k s | None \<Rightarrow> (False, s))"

definition record_request :: "nat \<Rightarrow> string \<Rightarrow> TenantStore \<Rightarrow> TenantStore" where
  "record_request secs k s =
     (case map_of (tenants_by_key s) k of
        Some t \<Rightarrow> s\<lparr> tenants_by_key := AList.update k
                      (t\<lparr> t_total_requests := t_total_requests t + 1, t_last_request_at := Some (iso8601 secs) \<rparr>) (tenants_by_key s) \<rparr>
      | None \<Rightarrow> s)"

definition list_tenants :: "TenantStore \<Rightarrow> Tenant list" where
  "list_tenants s = map snd (tenants_by_key s)"

definition usage :: "string \<Rightarrow> TenantStore \<Rightarrow> TenantUsage option" where
  "usage i s =
     map_option (\<lambda>t. \<lparr> u_tenant_id = t_id t, u_name = t_name t, u_total_requests = t_total_requests t,
                      u_last_request_at = t_last_request_at t, u_rate_limit_rpm = t_rate_limit_rpm t, u_active = t_active t \<rparr>)
       (get_by_id i s)"

definition tenant_count :: "TenantStore \<Rightarrow> nat" where
  "tenant_count s = length (tenants_by_key s)"

definition tenant_active_count :: "TenantStore \<Rightarrow> nat" where
  "tenant_active_count s = length (filter (\<lambda>(k, t). t_active t) (tenants_by_key s))"

section \<open>Authentication\<close>

record AuthState =
  legacy_keys :: "string list"
  tenant_store :: "TenantStore option"

definition is_open :: "AuthState \<Rightarrow> bool" where
  "is_open a = (if legacy_keys a \<noteq> [] then False else (case tenant_store a of Some s \<Rightarrow> tenant_active_count s = 0 | None \<Rightarrow> True))"

definition validate_key :: "string \<Rightarrow> AuthState \<Rightarrow> string option" where
  "validate_key k a =
     (if k \<in> set (legacy_keys a) then Some ''legacy''
      else (case tenant_store a of
              Some s \<Rightarrow> map_option t_id (get_by_key k s)
            | None \<Rightarrow> None))"

text \<open>\<open>extract_client_id\<close>: the header values as text.\<close>

definition extract_client_id :: "string option \<Rightarrow> string option \<Rightarrow> string" where
  "extract_client_id api_key forwarded =
     (case api_key of
        Some k \<Rightarrow> ''key:'' @ k
      | None \<Rightarrow> (case forwarded of Some s \<Rightarrow> ''ip:'' @ trim (first_part CHR '','' s) | None \<Rightarrow> ''ip:unknown''))"

datatype auth_result = Pass | Invalid_Key | Missing_Key

definition auth_middleware :: "nat \<Rightarrow> string \<Rightarrow> string option \<Rightarrow> AuthState \<Rightarrow> auth_result \<times> AuthState" where
  "auth_middleware secs path key a =
     (if path = ''/health'' then (Pass, a)
      else if is_open a then (Pass, a)
      else (case key of
              None \<Rightarrow> (Missing_Key, a)
            | Some k \<Rightarrow>
                (case validate_key k a of
                   None \<Rightarrow> (Invalid_Key, a)
                 | Some tenant_id \<Rightarrow>
                     (Pass, if tenant_id \<noteq> ''legacy'' then a\<lparr> tenant_store := map_option (record_request secs k) (tenant_store a) \<rparr> else a))))"

section \<open>The invariant of the store\<close>

text \<open>The two maps are inverse to each other.\<close>

definition store_ok :: "TenantStore \<Rightarrow> bool" where
  "store_ok s \<longleftrightarrow>
     keys_ok (tenants_by_key s) \<and> keys_ok (id_to_key s)
     \<and> (\<forall>k t. map_of (tenants_by_key s) k = Some t \<longrightarrow> t_api_key t = k \<and> map_of (id_to_key s) (t_id t) = Some k)
     \<and> (\<forall>i k. map_of (id_to_key s) i = Some k \<longrightarrow> (\<exists>t. map_of (tenants_by_key s) k = Some t \<and> t_id t = i))"

lemma store_okD:
  assumes "store_ok s"
  shows "keys_ok (tenants_by_key s)" "map_of (tenants_by_key s) k = Some t \<Longrightarrow> t_api_key t = k"
    "map_of (tenants_by_key s) k = Some t \<Longrightarrow> map_of (id_to_key s) (t_id t) = Some k"
    "map_of (id_to_key s) i = Some k \<Longrightarrow> \<exists>t. map_of (tenants_by_key s) k = Some t \<and> t_id t = i"
  using assms unfolding store_ok_def by blast+

lemma distinct_map_ConsD: "distinct (map f (x # xs)) \<Longrightarrow> y \<in> set xs \<Longrightarrow> f y \<noteq> f x"
  by (metis distinct.simps(2) image_eqI list.set_map list.simps(9))

lemma store_ok_new: "store_ok store_new"
  by (simp add: store_ok_def store_new_def)

lemma store_ok_save [simp]: "store_ok (save_to_file w s) = store_ok s"
  by (cases w) (simp_all add: save_to_file_def store_ok_def)

lemma save_to_file_maps [simp]:
  "tenants_by_key (save_to_file w s) = tenants_by_key s" "id_to_key (save_to_file w s) = id_to_key s"
  by (cases w; simp add: save_to_file_def)+

text \<open>Adding a tenant under a new id and a new key.\<close>

lemma store_ok_load:
  assumes "store_ok s" "map_of (id_to_key s) (t_id t) = None" "map_of (tenants_by_key s) (t_api_key t) = None"
  shows "store_ok (load_tenant t s)"
  using assms unfolding store_ok_def load_tenant_def
  by (auto split: if_splits) (metis option.distinct(1))+

lemma store_ok_create:
  assumes "store_ok s" "map_of (tenants_by_key s) (generate_api_key (key_nanos e) (stack_addr e)) = None"
  shows "store_ok (snd (create_with_id w e i name rpm s))"
proof (cases "map_of (id_to_key s) i")
  case None
  then have "store_ok (load_tenant (new_tenant e i name rpm) s)"
    using assms by (intro store_ok_load) (simp_all add: new_tenant_def)
  then show ?thesis using None by (simp add: create_with_id_def load_tenant_def new_tenant_def Let_def)
next
  case (Some k)
  then show ?thesis using assms by (simp add: create_with_id_def)
qed

text \<open>Changing a tenant in place, without its id and key.\<close>

lemma store_ok_modify:
  assumes "store_ok s" "map_of (tenants_by_key s) k = Some t" "t_id t' = t_id t" "t_api_key t' = t_api_key t"
  shows "store_ok (s\<lparr> tenants_by_key := AList.update k t' (tenants_by_key s) \<rparr>)"
  using assms unfolding store_ok_def by (auto; metis option.inject)

lemma store_ok_revoke: "store_ok s \<Longrightarrow> store_ok (snd (revoke w i s))" "store_ok s \<Longrightarrow> store_ok (snd (revoke_by_key w k s))"
  by (auto simp: revoke_def revoke_by_key_def store_ok_modify split: option.split)

lemma store_ok_record: "store_ok s \<Longrightarrow> store_ok (record_request secs k s)"
  by (auto simp: record_request_def store_ok_modify split: option.split)

lemma store_ok_load_file:
  assumes "distinct (map t_id ts)" "distinct (map t_api_key ts)"
  shows "store_ok (tenants_load (Holds ts))"
proof -
  have "store_ok (fold load_tenant ts s)"
    if "store_ok s" "\<forall>t\<in>set ts. map_of (id_to_key s) (t_id t) = None \<and> map_of (tenants_by_key s) (t_api_key t) = None" for s
    using that assms
  proof (induction ts arbitrary: s)
    case (Cons t ts)
    have "store_ok (load_tenant t s)" using Cons.prems by (intro store_ok_load) auto
    moreover have "\<forall>t'\<in>set ts. map_of (id_to_key (load_tenant t s)) (t_id t') = None
        \<and> map_of (tenants_by_key (load_tenant t s)) (t_api_key t') = None"
      using Cons.prems(2) distinct_map_ConsD [OF Cons.prems(3)] distinct_map_ConsD [OF Cons.prems(4)]
      by (simp add: load_tenant_def)
    ultimately show ?case using Cons by simp
  qed simp
  moreover have "store_ok \<lparr> tenants_by_key = [], id_to_key = [], has_file = True, tfile = Holds ts \<rparr>" by (simp add: store_ok_def)
  ultimately show ?thesis by (simp add: tenants_load_def)
qed

section \<open>Steps\<close>

text \<open>What the service can do to its store. A generated key is not in use yet.\<close>

inductive tenant_step :: "TenantStore \<Rightarrow> TenantStore \<Rightarrow> bool" where
  created: "map_of (tenants_by_key s) (generate_api_key (key_nanos e) (stack_addr e)) = None
    \<Longrightarrow> tenant_step s (snd (create_with_id w e i name rpm s))"
| revoked: "tenant_step s (snd (revoke w i s))"
| revoked_key: "tenant_step s (snd (revoke_by_key w k s))"
| requested: "tenant_step s (record_request secs k s)"
| saved: "tenant_step s (save_to_file w s)"

lemma store_ok_step: "tenant_step s s' \<Longrightarrow> store_ok s \<Longrightarrow> store_ok s'"
  by (induction rule: tenant_step.induct) (simp_all add: store_ok_create store_ok_revoke store_ok_record)

lemma store_ok_steps: "tenant_step\<^sup>*\<^sup>* s s' \<Longrightarrow> store_ok s \<Longrightarrow> store_ok s'"
  by (induction rule: rtranclp_induct) (auto intro: store_ok_step)

definition key_revoked :: "string \<Rightarrow> string \<Rightarrow> TenantStore \<Rightarrow> bool" where
  "key_revoked i k s \<longleftrightarrow>
     (\<exists>t. map_of (tenants_by_key s) k = Some t \<and> \<not> t_active t \<and> t_id t = i) \<and> map_of (id_to_key s) i = Some k"

lemma key_revoked_step:
  assumes "tenant_step s s'" "store_ok s" "key_revoked i k s"
  shows "key_revoked i k s'"
  using assms
proof (induction rule: tenant_step.induct)
  case (created s e w i' name rpm)
  then show ?case by (auto simp: key_revoked_def create_with_id_def new_tenant_def Let_def)
next
  case (revoked s w i')
  then show ?case by (auto simp: key_revoked_def revoke_def revoke_by_key_def split: option.split)
next
  case (revoked_key s w k')
  then show ?case by (auto simp: key_revoked_def revoke_by_key_def split: option.split)
next
  case (requested s secs k')
  then show ?case by (auto simp: key_revoked_def record_request_def split: option.split)
next
  case (saved s w)
  then show ?case by (simp add: key_revoked_def)
qed

lemma key_revoked_steps: "tenant_step\<^sup>*\<^sup>* s s' \<Longrightarrow> store_ok s \<Longrightarrow> key_revoked i k s \<Longrightarrow> key_revoked i k s'"
proof (induction rule: rtranclp_induct)
  case base
  then show ?case by simp
next
  case (step s' s'')
  then show ?case using key_revoked_step store_ok_steps by blast
qed

lemma revoke_revokes:
  assumes "store_ok s" "map_of (id_to_key s) i = Some k"
  shows "fst (revoke w i s)" "key_revoked i k (snd (revoke w i s))"
proof -
  obtain t where t: "map_of (tenants_by_key s) k = Some t" "t_id t = i" using store_okD(4) [OF assms] by blast
  show "fst (revoke w i s)" "key_revoked i k (snd (revoke w i s))"
    using assms(2) t by (simp_all add: revoke_def revoke_by_key_def key_revoked_def)
qed

lemma key_revoked_get: "key_revoked i k s \<Longrightarrow> get_by_key k s = None"
  by (auto simp: key_revoked_def get_by_key_def)

lemma active_count_zero: "keys_ok (tenants_by_key s) \<Longrightarrow> tenant_active_count s = 0 \<longleftrightarrow> (\<forall>k. get_by_key k s = None)"
  by (force simp: tenant_active_count_def get_by_key_def filter_empty_conv simp flip: in_set_iff_map_of split: option.splits)

lemma get_by_key_id:
  assumes "store_ok s" "get_by_key k s = Some t"
  shows "get_by_id (t_id t) s = Some t" "t_api_key t = k"
proof -
  have t: "map_of (tenants_by_key s) k = Some t" using assms(2) by (auto simp: get_by_key_def split: option.splits if_splits)
  then show "t_api_key t = k" by (rule store_okD(2) [OF assms(1)])
  show "get_by_id (t_id t) s = Some t" using t store_okD(3) [OF assms(1) t] by (simp add: get_by_id_def)
qed

section \<open>Decisions\<close>

lemma auth_decision:
  "fst (auth_middleware secs path key a) = Pass \<longleftrightarrow> path = ''/health'' \<or> is_open a \<or> (\<exists>k. key = Some k \<and> validate_key k a \<noteq> None)"
  by (auto simp: auth_middleware_def split: option.split)

lemma validate_key_iff:
  "validate_key k a \<noteq> None \<longleftrightarrow> k \<in> set (legacy_keys a) \<or> (\<exists>s. tenant_store a = Some s \<and> get_by_key k s \<noteq> None)"
  by (auto simp: validate_key_def split: option.split)

section \<open>The tenant file\<close>

lemma fold_load_tenant:
  assumes "distinct (map t_id ts)" "distinct (map t_api_key ts)"
    "\<forall>t\<in>set ts. t_id t \<notin> fst ` set (id_to_key s) \<and> t_api_key t \<notin> fst ` set (tenants_by_key s)"
  shows "tenants_by_key (fold load_tenant ts s) = tenants_by_key s @ map (\<lambda>t. (t_api_key t, t)) ts
    \<and> id_to_key (fold load_tenant ts s) = id_to_key s @ map (\<lambda>t. (t_id t, t_api_key t)) ts"
  using assms
proof (induction ts arbitrary: s)
  case Nil
  then show ?case by simp
next
  case (Cons t ts)
  have st: "tenants_by_key (load_tenant t s) = tenants_by_key s @ [(t_api_key t, t)]"
      "id_to_key (load_tenant t s) = id_to_key s @ [(t_id t, t_api_key t)]"
    using Cons.prems(3) by (simp_all add: load_tenant_def update_new)
  have "\<forall>t'\<in>set ts. t_id t' \<notin> fst ` set (id_to_key (load_tenant t s)) \<and> t_api_key t' \<notin> fst ` set (tenants_by_key (load_tenant t s))"
    using Cons.prems(3) distinct_map_ConsD [OF Cons.prems(1)] distinct_map_ConsD [OF Cons.prems(2)] unfolding st by simp
  then show ?case using Cons st by simp
qed

lemma store_ok_distinct_ids:
  assumes "store_ok s"
  shows "distinct (map t_id (map snd (tenants_by_key s)))" "map (\<lambda>t. (t_api_key t, t)) (map snd (tenants_by_key s)) = tenants_by_key s"
proof -
  have keys: "keys_ok (tenants_by_key s)" using assms by (simp add: store_ok_def)
  have in_map: "map_of (tenants_by_key s) k = Some t" if "(k, t) \<in> set (tenants_by_key s)" for k t
    using that keys by (simp add: in_set_iff_map_of)
  have "inj_on (\<lambda>x. t_id (snd x)) (set (tenants_by_key s))"
  proof (rule inj_onI, clarify)
    fix k t k' t'
    assume "(k, t) \<in> set (tenants_by_key s)" "(k', t') \<in> set (tenants_by_key s)" "t_id (snd (k, t)) = t_id (snd (k', t'))"
    then have "map_of (id_to_key s) (t_id t) = Some k" "map_of (id_to_key s) (t_id t) = Some k'"
        "map_of (tenants_by_key s) k = Some t" "map_of (tenants_by_key s) k' = Some t'"
      using in_map store_okD(3) [OF assms] by force+
    then show "k = k' \<and> t = t'" by simp
  qed
  moreover have "distinct (tenants_by_key s)" using keys unfolding keys_ok_def distinct_map ..
  ultimately show "distinct (map t_id (map snd (tenants_by_key s)))" by (simp add: distinct_map comp_def)
  have "(\<lambda>x. (t_api_key (snd x), snd x)) x = x" if "x \<in> set (tenants_by_key s)" for x
    using store_okD(2) [OF assms in_map, of "fst x" "snd x"] that by simp
  then show "map (\<lambda>t. (t_api_key t, t)) (map snd (tenants_by_key s)) = tenants_by_key s"
    by (simp add: comp_def map_idI)
qed

lemma tenant_file_restores:
  assumes "store_ok s" "has_file s"
  shows "tenants_by_key (tenants_load (tfile (save_to_file Written s))) = tenants_by_key s"
    "map_of (id_to_key (tenants_load (tfile (save_to_file Written s)))) = map_of (id_to_key s)"
proof -
  let ?ts = "map snd (tenants_by_key s)"
  have "map t_api_key ?ts = map fst (tenants_by_key s)"
    using arg_cong [OF store_ok_distinct_ids(2) [OF assms(1)], of "map fst"] by (simp add: comp_def)
  then have d: "distinct (map t_api_key ?ts)" using store_okD(1) [OF assms(1)] unfolding keys_ok_def by (simp only:)
  have load: "tenants_by_key (tenants_load (Holds ?ts)) = tenants_by_key s"
      "id_to_key (tenants_load (Holds ?ts)) = map (\<lambda>t. (t_id t, t_api_key t)) ?ts"
    using fold_load_tenant [OF store_ok_distinct_ids(1) [OF assms(1)] d, of "\<lparr> tenants_by_key = [], id_to_key = [], has_file = True, tfile = Holds ?ts \<rparr>"]
      store_ok_distinct_ids(2) [OF assms(1)]
    by (simp_all add: tenants_load_def)
  have f: "tfile (save_to_file Written s) = Holds ?ts" using assms(2) by (simp add: save_to_file_def)
  show "tenants_by_key (tenants_load (tfile (save_to_file Written s))) = tenants_by_key s" unfolding f by (rule load(1))
  have ok: "store_ok (tenants_load (Holds ?ts))" by (rule store_ok_load_file [OF store_ok_distinct_ids(1) [OF assms(1)] d])
  have "map_of (id_to_key s1) i = Some k \<Longrightarrow> map_of (id_to_key s2) i = Some k"
    if "store_ok s1" "store_ok s2" "tenants_by_key s1 = tenants_by_key s2" for s1 s2 i k
    using store_okD(4) [OF that(1), of i k] store_okD(3) [OF that(2)] that(3) by metis
  then have "map_of (id_to_key (tenants_load (Holds ?ts))) i = Some k \<longleftrightarrow> map_of (id_to_key s) i = Some k" for i k
    using ok assms(1) load(1) by metis
  then show "map_of (id_to_key (tenants_load (tfile (save_to_file Written s)))) = map_of (id_to_key s)"
    unfolding f by (intro ext option.expand) (metis not_None_eq option.sel option.collapse)+
qed

end
