(* ===== verification/Example_Services.thy ===== *)
theory Example_Services
  imports Tree_Model Watch_Loop Deadline_Monitor Tenant_Auth Challenge_Task Example_Proofs
begin

text \<open>
  Concrete inputs for the services: a LightGBM tree with a type of numbers and the floating-point operations instantiated
  by integers, a printer and parser of state files, an environment of the operator with a chain of one log, and a tenant
  store. They instantiate the parameters that stand for third-party code.
\<close>

section \<open>Inference\<close>

definition ex_f64 :: "int f64_ops" where
  "ex_f64 = \<lparr> f_zero = 0, f_sum_start = 0, f_add = (+), f_lt = (<) \<rparr>"

definition ex_num :: "(int, int) num_ops" where
  "ex_num = \<lparr> num_f64 = Some, num_i64 = (\<lambda>n. if - (2 ^ 63) \<le> n \<and> n < 2 ^ 63 then Some n else None),
              num_u64 = (\<lambda>n. if 0 \<le> n \<and> n < 2 ^ 64 then Some (nat n) else None) \<rparr>"

definition ex_leaf :: "int \<Rightarrow> int Json" where
  "ex_leaf v = JObject [(''leaf_value'', JNumber v)]"

definition ex_lgb_tree :: "int Json" where
  "ex_lgb_tree = JObject [(''split_feature'', JNumber 1), (''threshold'', JNumber 10),
                          (''left_child'', ex_leaf 5), (''right_child'', ex_leaf 7)]"

definition ex_lgb_model :: "int LgbJsonModel" where
  "ex_lgb_model = \<lparr> lgb_tree_info = [\<lparr> tree_structure = Some ex_lgb_tree \<rparr>], max_feature_idx = Some 1,
                    lgb_num_class = None, num_tree_per_iteration = None \<rparr>"

lemma ex_lgb_dtree: "lgb_dtree ex_num ex_lgb_tree = Some (Split 1 10 (Leaf 5) (Leaf 7))"
  by (simp add: lgb_dtree.simps ex_lgb_tree_def ex_leaf_def ex_num_def as_usize_def)

lemma ex_lgb_flat:
  "flatten_lgb_tree ex_f64 ex_num ex_lgb_tree =
     Inr \<lparr> left_children = [1, - 1, - 1], right_children = [2, - 1, - 1], split_indices = [1, 0, 0],
           split_conditions = [10, 0, 0], base_weights = [0, 5, 7] \<rparr>"
  by (simp add: flatten_lgb_tree_def flatten_loop.simps(2) ex_lgb_tree_def ex_leaf_def ex_num_def ex_f64_def
      empty_tree_def push_node_def set_node_def as_usize_def Let_def)

lemma ex_lgb_parse:
  "parse_lightgbm ex_f64 ex_num (\<lambda>_. Inr ex_lgb_model) s =
     Inr \<lparr> num_features = 2, num_classes = 2, base_score = 0,
           trees = [\<lparr> left_children = [1, - 1, - 1], right_children = [2, - 1, - 1], split_indices = [1, 0, 0],
                     split_conditions = [10, 0, 0], base_weights = [0, 5, 7] \<rparr>] \<rparr>"
  by (simp add: parse_lightgbm_def ex_lgb_model_def ex_lgb_flat lgb_num_features_def lgb_num_classes_def as_usize_def
      ex_f64_def [THEN arg_cong, of f_zero])

section \<open>The operator\<close>

text \<open>The printer of the environment is constant: the parser that inverts it on one state is constant as well.\<close>

definition ex_outcome :: outcome where
  "ex_outcome = \<lparr> mkdir_ok = True, read_ok = True, write_res = Write_Ok, rename_ok = True, remove_ok = True \<rparr>"

definition ex_env :: watch_env where
  "ex_env = \<lparr> dry_run = False, alert_cfg = AlertConfig_default, rpc_cfg = CircuitBreakerConfig_default,
              chain_cfg = \<lparr> failure_threshold = 3, recovery_timeout = 60000, success_threshold_for_close = 1 \<rparr>,
              contracts = [[1]], state_path = ''state.json'', state_json = (\<lambda>_. ''{}''), encode_hex = map (\<lambda>b. char_of (unat b)),
              show_address = map (\<lambda>b. char_of (unat b)) \<rparr>"

definition ex_log :: Log where
  "ex_log = \<lparr> log_address = [1], log_topics = [TOPIC_RESULT_CHALLENGED, [7]], log_data = replicate 32 0, log_block_number = Some 5 \<rparr>"

definition ex_node :: "Log list \<Rightarrow> unit provider" where
  "ex_node chain = \<lparr> url_ok = None, get_block_number = Inr 5,
     get_logs = (\<lambda>addresses topic a b. Inr (filter (\<lambda>l. log_address l \<in> set addresses \<and> a \<le> block_of l \<and> block_of l \<le> b) chain)) \<rparr>"

lemma ex_node_ok: "node_ok chain (ex_node chain)"
  by (simp add: node_ok_def ex_node_def)

definition ex_cycle :: "Log list \<Rightarrow> bool \<Rightarrow> unit cycle_in" where
  "ex_cycle chain free = \<lparr> node = ex_node chain, poll_times = (0, 0, 0), wall_clock = (\<lambda>_. 0), alert_clock = (\<lambda>_. 0),
     permit_free = (\<lambda>_. free), stopping = (\<lambda>_. False), file_outcome = ex_outcome,
     finalize_node = ex_node [], finalize_poll_times = (0, 0, 0), finalize_clock = (\<lambda>_. (0, 0, 0)), finalize_ok = (\<lambda>_. True) \<rparr>"

definition ex_submission :: "u8 \<Rightarrow> Log" where
  "ex_submission i = \<lparr> log_address = [1], log_topics = [TOPIC_RESULT_SUBMITTED, [i], [], []], log_data = replicate 32 0, log_block_number = Some 5 \<rparr>"

lemma ex_submission_event: "watcher_parse_log (ex_submission i) = Some (WResultSubmitted [i] [] (replicate 32 0) [] 5)"
  by (simp add: watcher_parse_log_def ex_submission_def get_def sub_bytes_def Let_def)

definition ex_start :: watch_state where
  "ex_start = watch_start ex_env (\<lambda>_. None) ex_outcome Map.empty"

lemma ex_start_simps:
  "effects ex_start = []" "from_block ex_start = 0" "rpc_cb ex_start = breaker_new" "result_model_map ex_start = []"
  "total_submissions ex_start = 0" "total_finalizations ex_start = 0"
  by (simp_all add: ex_start_def watch_start_def load_or_default_def store_load_def OperatorState_default_def Let_def)

text \<open>The first cycle polls up to block 5, whether it is asked to stop or not.\<close>

lemma ex_first_cycle:
  "from_block (watch_cycle ex_env (ex_cycle chain free) ex_start) = 6"
  "from_block (watch_cycle ex_env ((ex_cycle chain free)\<lparr> stopping := s \<rparr>) ex_start) = 6"
  unfolding watch_cycle_result(1) cycle_poll_def
  by (simp_all add: ex_start_simps guarded_poll_def ex_cycle_def allow_request_def maybe_transition_to_half_open_def breaker_new_def
      poll_events_def poll_with_def ex_node_def)

lemma ex_events_between:
  assumes "6 \<le> b"
  shows "events_between (contracts ex_env) [ex_submission 1] 0 b = [WResultSubmitted [1] [] (replicate 32 0) [] 5]"
proof -
  have "5 < b" using assms by (rule less_le_trans [rotated]) simp
  then have "filter (\<lambda>l. log_address l \<in> set (contracts ex_env) \<and> 0 \<le> block_of l \<and> block_of l < b) [ex_submission 1] = [ex_submission 1]"
    by (simp add: ex_env_def ex_submission_def block_of_def)
  then show ?thesis by (simp add: events_between_def List.map_filter_def ex_submission_event)
qed

section \<open>The task of a challenge\<close>

definition ex_verifier :: "json verifier_env" where
  "ex_verifier = \<lparr> v_sha256 = ex_sha256, v_hex_decode = ex_hex_decode, v_json = ex_ops, v_from_str = (\<lambda>_. None), v_show_error = (\<lambda>_. []) \<rparr>"

definition ex_stored :: StoredProof where
  "ex_stored = \<lparr> sp_proof_hex = ''0x'' @ hex_encode ex_proof, sp_circuit_hash = ''0x'' @ Example_Proofs.hex_encode (replicate 32 0),
                 sp_public_inputs_hex = [], sp_gens_hex = ''0x'' \<rparr>"

definition ex_task :: "(json, unit) task_env" where
  "ex_task = \<lparr> verifier = ex_verifier, desc_files = Map.empty, first_file = Contents ''{}'', waiting = (\<lambda>i. i, \<lambda>i. False),
               second_file = Absent, parse_proof = (\<lambda>_. Inr ex_stored), chain_client = (\<lambda>_. Inr ((), 1000)), show_tx = (\<lambda>_. []), hex_of_id = map (\<lambda>b. char_of (unat b)),
               task_chain_cfg = CircuitBreakerConfig_default, task_alert_cfg = AlertConfig_default, failed_at = 0, alert_at = 0 \<rparr>"

definition ex_task_state :: "json task_state" where
  "ex_task_state = \<lparr> pre_verifier = Some \<lparr> circuit_desc_dir = [], desc_cache = [(normalize_hex (sp_circuit_hash ex_stored), json_of_desc ex_desc)] \<rparr>,
                     submissions = [], task_cb = breaker_new, task_alerts = AlertState_default, disputes_resolved = 0, disputes_failed = 0,
                     stylus_disputes_resolved = 0, solidity_disputes_resolved = 0 \<rparr>"

lemma ex_stored_bundle: "bundle_of ex_stored (json_of_desc ex_desc) = ex_bundle"
  by (simp add: bundle_of_def ex_stored_def ex_bundle_def)

lemma ex_stored_hex:
  "hex_to_bytes ex_hex_decode (sp_proof_hex ex_stored) = Inr ex_proof" "hex_to_b256 ex_hex_decode (sp_circuit_hash ex_stored) = Inr (replicate 32 0)"
  "hex_to_bytes ex_hex_decode (sp_public_inputs_hex ex_stored) = Inr []" "hex_to_bytes ex_hex_decode (sp_gens_hex ex_stored) = Inr []"
  by (simp_all add: hex_to_bytes_def hex_to_b256_def ex_stored_def strip_0x_def ex_hex_roundtrip)

lemma ex_known_desc: "known_desc ex_task ex_task_state ex_stored = Some (json_of_desc ex_desc)"
  by (simp add: known_desc_def ex_task_state_def load_circuit_desc_def)

lemma ex_task_submits:
  assumes "handle_challenge ex_task rid ex_task_state = Some (out, sent, st')"
  shows "submissions st' = [(rid, ex_proof, replicate 32 0, [], [])]"
proof -
  have v: "verify ex_sha256 ex_hex_decode ex_ops ex_bundle = Inr \<lparr>circuit_hash = take 32 (drop 4 ex_proof), verified = True\<rparr>"
    using verify_parts [OF ex_bundle_parts] ex_verify_raw by blast
  have env: "verifier ex_task = ex_verifier" "desc_files ex_task = Map.empty" "chain_client ex_task = (\<lambda>_. Inr ((), 1000))"
      "read_proof (parse_proof ex_task) (first_file ex_task) = Inr (Some ex_stored)"
    by (simp_all add: ex_task_def read_proof_def)
  have "fst (pre_verify_proof ex_task ex_stored ex_task_state) = Inr True"
    by (simp add: pre_verify_proof_def pre_verify_def env ex_task_state_def load_circuit_desc_def ex_stored_bundle ex_verifier_def v Let_def)
  then obtain st1 where pv: "pre_verify_proof ex_task ex_stored ex_task_state = (Inr True, st1)" "submissions st1 = []"
    using pre_verify_proof_state [of ex_task ex_stored ex_task_state] by (cases "pre_verify_proof ex_task ex_stored ex_task_state") (simp add: ex_task_state_def)
  obtain st2 where r: "resolve_challenge ex_task rid ex_task_state = Some (out, st2)" "submissions st' = submissions st2"
    by (rule handle_challenge_resolve [OF assms])
  have "submissions (snd (resolve_with_proof ex_task rid ex_stored st1)) = [(rid, ex_proof, replicate 32 0, [], [])]"
    by (simp add: resolve_with_proof_def env ex_verifier_def ex_stored_hex count_path_def pv(2) Let_def)
  then show ?thesis using r pv by (auto simp: resolve_challenge_def env check_and_resolve_def split: prod.splits)
qed

section \<open>Tenants\<close>

definition ex_entropy :: entropy where
  "ex_entropy = \<lparr> id_nanos = 1, key_nanos = 2, stack_addr = 3, clock_secs = 0 \<rparr>"

definition ex_store :: TenantStore where
  "ex_store = snd (create_with_id Written ex_entropy ''acme'' ''Acme'' 60 store_new)"

lemma ex_store_maps:
  "id_to_key ex_store = [(''acme'', generate_api_key 2 3)]"
  "tenants_by_key ex_store = [(generate_api_key 2 3, new_tenant ex_entropy ''acme'' ''Acme'' 60)]"
  by (simp_all add: ex_store_def create_with_id_def store_new_def new_tenant_def ex_entropy_def Let_def)

lemma ex_store_ok: "store_ok ex_store"
  unfolding ex_store_def by (rule store_ok_create [OF store_ok_new]) (simp add: store_new_def)

end
