(* ===== verification/Transparency_Log.thy ===== *)
theory Transparency_Log
  imports Prelude_ZK
begin

text \<open>
  The Merkle tree of the transparency log (\<open>services/proof-registry/src/transparency.rs\<close>): depth, root,
  inclusion proofs and their verification. SHA-256 is an argument; a node is a list of bytes. The SQL table
  that stores the leaves is not part of the model: the functions take the list of leaves that \<open>all_leaves\<close>
  returns.

  The depth loop doubles a \<open>usize\<close> until it reaches the number of leaves. Above \<open>2 ^ 63\<close> leaves the doubling
  wraps to 0 and the loop does not end, so the results are \<open>option\<close> values, with \<open>None\<close> for a call that does
  not return; inside it, a panic is a \<open>failure\<close> as elsewhere.
\<close>

type_synonym node = "u8 list"

definition zero_node :: node where
  "zero_node = replicate 32 0"

partial_function (option) depth_loop :: "nat \<Rightarrow> nat \<Rightarrow> nat \<Rightarrow> nat option" where
  "depth_loop n sz depth = (if sz < n then depth_loop n (sz * 2 mod 2 ^ 64) (depth + 1) else Some depth)"

definition tree_depth :: "nat \<Rightarrow> nat option" where
  "tree_depth n = (if n \<le> 1 then Some 0 else depth_loop n 1 0)"

definition hash_pair_log :: "(u8 list \<Rightarrow> node) \<Rightarrow> node \<Rightarrow> node \<Rightarrow> node" where
  "hash_pair_log sha256 left right = sha256 (left @ right)"

text \<open>\<open>for pair in level.chunks(2)\<close>: the last chunk of an odd level has one element.\<close>

fun next_level :: "(u8 list \<Rightarrow> node) \<Rightarrow> node list \<Rightarrow> node list res" where
  "next_level sha256 [] = Inr []"
| "next_level sha256 [x] = rpanic Index_Out_Of_Bounds"
| "next_level sha256 (x # y # zs) = rbind (next_level sha256 zs) (\<lambda>ns. Inr (hash_pair_log sha256 x y # ns))"

lemma length_next_level: "next_level sha256 level = Inr ns \<Longrightarrow> length level = 2 * length ns"
  by (induction sha256 level arbitrary: ns rule: next_level.induct) (auto simp: rbind_eq_Inr_iff)

function root_loop :: "(u8 list \<Rightarrow> node) \<Rightarrow> node list \<Rightarrow> node res" where
  "root_loop sha256 level =
     (if length level > 1 then rbind (next_level sha256 level) (\<lambda>level. root_loop sha256 level) else idx level 0)"
  by auto
termination
  by (relation "measure (\<lambda>(_, level). length level)") (auto dest!: length_next_level)

declare root_loop.simps [simp del]

text \<open>\<open>level.extend_from_slice(leaves); level.resize(padded_size, [0; 32])\<close>.\<close>

definition padded :: "node list \<Rightarrow> nat \<Rightarrow> node list" where
  "padded leaves padded_size = take padded_size leaves @ replicate (padded_size - length leaves) zero_node"

definition compute_root :: "(u8 list \<Rightarrow> node) \<Rightarrow> node list \<Rightarrow> node res option" where
  "compute_root sha256 leaves =
     (if leaves = [] then Some (Inr zero_node)
      else map_option (\<lambda>depth. rbind (with_capacity 32 (shl1 depth)) (\<lambda>_.
               root_loop sha256 (padded leaves (shl1 depth)))) (tree_depth (length leaves)))"

fun proof_loop :: "(u8 list \<Rightarrow> node) \<Rightarrow> nat \<Rightarrow> node list \<Rightarrow> nat \<Rightarrow> node list res" where
  "proof_loop sha256 0 level i = Inr []"
| "proof_loop sha256 (Suc d) level i =
     (let sibling_idx = i XOR 1
      in rbind (idx level sibling_idx) (\<lambda>sibling.
         rbind (next_level sha256 level) (\<lambda>level.
         rbind (proof_loop sha256 d level (i div 2)) (\<lambda>proof. Inr (sibling # proof)))))"

definition merkle_proof :: "(u8 list \<Rightarrow> node) \<Rightarrow> node list \<Rightarrow> nat \<Rightarrow> node list res option" where
  "merkle_proof sha256 leaves index =
     map_option (\<lambda>depth. rbind (with_capacity 32 (shl1 depth)) (\<lambda>_.
         proof_loop sha256 depth (padded leaves (shl1 depth)) index)) (tree_depth (length leaves))"

text \<open>\<open>TransparencyLog::inclusion_proof\<close>, after the leaves are read: an error for an index out of range.\<close>

definition inclusion_proof :: "(u8 list \<Rightarrow> node) \<Rightarrow> node list \<Rightarrow> nat \<Rightarrow> (unit + node list res) option" where
  "inclusion_proof sha256 leaves index =
     (if length leaves \<le> index then Some (Inl ()) else map_option Inr (merkle_proof sha256 leaves index))"

fun verify_path :: "(u8 list \<Rightarrow> node) \<Rightarrow> node list \<Rightarrow> node \<Rightarrow> nat \<Rightarrow> node" where
  "verify_path sha256 [] cur i = cur"
| "verify_path sha256 (sibling # proof) cur i =
     verify_path sha256 proof
       (if even i then hash_pair_log sha256 cur sibling else hash_pair_log sha256 sibling cur) (i div 2)"

definition verify_inclusion ::
  "(u8 list \<Rightarrow> node) \<Rightarrow> node \<Rightarrow> node \<Rightarrow> nat \<Rightarrow> node list \<Rightarrow> nat \<Rightarrow> bool option" where
  "verify_inclusion sha256 root leaf index proof tree_size =
     (if tree_size = 0 then Some False
      else if tree_size \<le> index then Some False
      else map_option (\<lambda>expected_depth.
             if length proof \<noteq> expected_depth then False else verify_path sha256 proof leaf index = root)
           (tree_depth tree_size))"

section \<open>The verification endpoint\<close>

text \<open>\<open>POST /transparency/verify\<close> (\<open>routes.rs\<close>). \<open>hex::decode\<close> is an argument: the bytes, or the text of its
  error. A reply is the status code and message of an error, or the field \<open>valid\<close> of the response; \<open>None\<close> is no
  reply at all.\<close>

record VerifyRequest =
  index :: nat
  leaf_hash :: string
  proof_hex :: "string list"
  root_hex :: string
  tree_size :: nat

type_synonym hex_decode = "string \<Rightarrow> string + u8 list"

definition BAD_REQUEST :: nat where
  "BAD_REQUEST = 400"

definition decode_node :: "hex_decode \<Rightarrow> string \<Rightarrow> string \<Rightarrow> string \<Rightarrow> (nat \<times> string) + node" where
  "decode_node hex what short h =
     (case hex h of
        Inl e \<Rightarrow> Inl (BAD_REQUEST, ''invalid '' @ what @ '' hex: '' @ e)
      | Inr b \<Rightarrow> if length b = 32 then Inr b else Inl (BAD_REQUEST, short @ '' must be 32 bytes''))"

fun decode_path :: "hex_decode \<Rightarrow> string list \<Rightarrow> (nat \<times> string) + node list" where
  "decode_path hex [] = Inr []"
| "decode_path hex (h # hs) =
     (case decode_node hex ''proof'' ''proof element'' h of
        Inl e \<Rightarrow> Inl e
      | Inr b \<Rightarrow> (case decode_path hex hs of Inl e \<Rightarrow> Inl e | Inr bs \<Rightarrow> Inr (b # bs)))"

definition transparency_verify ::
  "hex_decode \<Rightarrow> (u8 list \<Rightarrow> node) \<Rightarrow> VerifyRequest \<Rightarrow> ((nat \<times> string) + bool) option" where
  "transparency_verify hex sha256 req =
     (case decode_node hex ''root'' ''root'' (root_hex req) of
        Inl e \<Rightarrow> Some (Inl e)
      | Inr root \<Rightarrow> (case decode_node hex ''leaf_hash'' ''leaf_hash'' (leaf_hash req) of
          Inl e \<Rightarrow> Some (Inl e)
        | Inr leaf \<Rightarrow> (case decode_path hex (proof_hex req) of
            Inl e \<Rightarrow> Some (Inl e)
          | Inr path \<Rightarrow> map_option Inr (verify_inclusion sha256 root leaf (index req) path (tree_size req)))))"

section \<open>The depth\<close>

lemma depth_loop_power:
  assumes "n \<le> 2 ^ 63" "2 ^ k < 2 * n" "k \<le> 63"
  shows "\<exists>d. depth_loop n (2 ^ k) (depth) = Some (depth + d) \<and> n \<le> 2 ^ (k + d) \<and> 2 ^ (k + d) < 2 * n"
  using assms
proof (induction "63 - k" arbitrary: k depth)
  case 0
  then have "k = 63" by simp
  then show ?case using "0.prems" by (subst depth_loop.simps) auto
next
  case (Suc m)
  show ?case
  proof (cases "2 ^ k < n")
    case False
    then show ?thesis using Suc.prems by (subst depth_loop.simps) (auto intro!: exI [of _ 0])
  next
    case True
    have k: "Suc k \<le> 63" using Suc.hyps(2) by simp
    have "(2 :: nat) ^ Suc k \<le> 2 ^ 63" by (rule power_increasing) (use k in auto)
    then have step: "2 ^ k * 2 mod 2 ^ 64 = (2 :: nat) ^ Suc k" by simp
    have "2 ^ Suc k < 2 * n" using True by simp
    moreover have "m = 63 - Suc k" using Suc.hyps(2) by simp
    ultimately obtain d where
      "depth_loop n (2 ^ Suc k) (depth + 1) = Some (depth + 1 + d)" "n \<le> 2 ^ (Suc k + d)" "2 ^ (Suc k + d) < 2 * n"
      using Suc.hyps(1) [OF _ Suc.prems(1) _ k, of "depth + 1"] by blast
    moreover have "depth_loop n (2 ^ k) depth = depth_loop n (2 ^ Suc k) (depth + 1)"
      using True by (subst depth_loop.simps) (simp only: step if_True)
    ultimately show ?thesis by (intro exI [of _ "Suc d"]) simp
  qed
qed

lemma tree_depth_ok:
  assumes "0 < n" "n \<le> 2 ^ m" "m \<le> 63"
  shows "\<exists>d. tree_depth n = Some d \<and> n \<le> 2 ^ d \<and> 2 ^ d < 2 * n \<and> d \<le> m"
proof (cases "n = 1")
  case True
  then show ?thesis by (auto simp: tree_depth_def)
next
  case False
  have "n \<le> 2 ^ 63" using assms(2) power_increasing [OF assms(3), of "2 :: nat"] by simp
  with assms depth_loop_power [of n 0 0] obtain d where d: "depth_loop n 1 0 = Some d" "n \<le> 2 ^ d" "2 ^ d < 2 * n" by auto
  have "(2 :: nat) ^ d < 2 ^ Suc m" using d(3) assms(2) by simp
  then have "d < Suc m" by (rule power_less_imp_less_exp [rotated]) simp
  with d False assms show ?thesis by (auto simp: tree_depth_def)
qed

text \<open>Above \<open>2 ^ 63\<close> the size wraps to 0 and stays there.\<close>

lemma depth_loop_diverges:
  assumes "depth_loop n s depth = Some r"
  shows "2 ^ 63 < n \<and> (s = 0 \<or> (\<exists>k \<le> 63. s = 2 ^ k)) \<longrightarrow> False"
proof (rule depth_loop.raw_induct [OF _ assms])
  fix loop :: "nat \<Rightarrow> nat \<Rightarrow> nat \<Rightarrow> nat option" and n s depth r :: nat
  assume IH: "\<And>n s depth r. loop n s depth = Some r \<Longrightarrow> 2 ^ 63 < n \<and> (s = 0 \<or> (\<exists>k \<le> 63. s = 2 ^ k)) \<longrightarrow> False"
    and step: "(if s < n then loop n (s * 2 mod 2 ^ 64) (depth + 1) else Some depth) = Some r"
  show "2 ^ 63 < n \<and> (s = 0 \<or> (\<exists>k \<le> 63. s = 2 ^ k)) \<longrightarrow> False"
  proof
    assume P: "2 ^ 63 < n \<and> (s = 0 \<or> (\<exists>k \<le> 63. s = 2 ^ k))"
    have "(2 :: nat) ^ k \<le> 2 ^ 63" if "k \<le> 63" for k using that by (rule power_increasing) simp
    then have "s < n" using P by (auto intro: le_less_trans)
    moreover have "s * 2 mod 2 ^ 64 = 0 \<or> (\<exists>k \<le> 63. s * 2 mod 2 ^ 64 = 2 ^ k)"
    proof (cases "s = 0 \<or> s = 2 ^ 63")
      case False
      with P obtain k where k: "k \<le> 63" "s = 2 ^ k" by blast
      with False have "k < 63" by (cases "k = 63") auto
      then have "(2 :: nat) ^ Suc k \<le> 2 ^ 63" by (intro power_increasing) auto
      then have "s * 2 mod 2 ^ 64 = 2 ^ Suc k" by (simp add: k(2))
      then show ?thesis using \<open>k < 63\<close> by (intro disjI2 exI [of _ "Suc k"]) auto
    qed auto
    ultimately show False using IH [of n "s * 2 mod 2 ^ 64" "depth + 1" r] step P by simp
  qed
qed

lemma tree_depth_diverges: "2 ^ 63 < n \<Longrightarrow> tree_depth n = None"
proof -
  assume n: "2 ^ 63 < n"
  have "\<exists>k \<le> 63. 1 = (2 :: nat) ^ k" by (rule exI [of _ 0]) simp
  then have "depth_loop n 1 0 \<noteq> Some r" for r using depth_loop_diverges [of n 1 0 r] n by blast
  then have "depth_loop n 1 0 = None" by (cases "depth_loop n 1 0") auto
  then show ?thesis using n by (simp add: tree_depth_def)
qed

section \<open>Levels\<close>

text \<open>The level above a level of even length, as a total function.\<close>

definition up :: "(u8 list \<Rightarrow> node) \<Rightarrow> node list \<Rightarrow> node list" where
  "up sha256 level = map (\<lambda>i. hash_pair_log sha256 (level ! (2 * i)) (level ! (2 * i + 1))) [0..<length level div 2]"

lemma next_level_up: "even (length level) \<Longrightarrow> next_level sha256 level = Inr (up sha256 level)"
proof (induction sha256 level rule: next_level.induct)
  case (3 sha256 x y zs)
  have "up sha256 (x # y # zs) = hash_pair_log sha256 x y # up sha256 zs"
    by (simp add: up_def upt_conv_Cons map_Suc_upt [symmetric] comp_def del: upt_Suc)
  then show ?case using 3 by simp
qed (simp_all add: up_def)

lemma length_up: "length level = 2 ^ Suc d \<Longrightarrow> length (up sha256 level) = 2 ^ d"
  by (simp add: up_def)

lemma up_nth: "i < length level div 2 \<Longrightarrow> up sha256 level ! i = hash_pair_log sha256 (level ! (2 * i)) (level ! (2 * i + 1))"
  by (simp add: up_def)

text \<open>The root of a level of \<open>2 ^ d\<close> nodes.\<close>

fun root_of :: "(u8 list \<Rightarrow> node) \<Rightarrow> nat \<Rightarrow> node list \<Rightarrow> node" where
  "root_of sha256 0 level = level ! 0"
| "root_of sha256 (Suc d) level = root_of sha256 d (up sha256 level)"

lemma root_loop_root_of: "length level = 2 ^ d \<Longrightarrow> root_loop sha256 level = Inr (root_of sha256 d level)"
proof (induction d arbitrary: level)
  case 0
  then show ?case by (simp add: root_loop.simps idx_def)
next
  case (Suc d)
  have "(1 :: nat) \<le> 2 ^ d" by simp
  then have "1 < length level" "even (length level)" using Suc.prems by (simp_all only: power_Suc) auto
  then show ?case
    using Suc.IH [OF length_up [OF Suc.prems]] by (subst root_loop.simps) (simp add: next_level_up)
qed

lemma xor_one: "i XOR Suc 0 = (if even i then i + 1 else i - 1)"
  by (simp add: xor_Suc_0_eq)

lemma sibling_bound: "i < 2 ^ Suc d \<Longrightarrow> i XOR 1 < (2 :: nat) ^ Suc d"
  by (auto simp: xor_one elim!: evenE)

text \<open>The path that the prover collects leads the verifier from the leaf to the root.\<close>

lemma path_complete:
  assumes "length level = 2 ^ d" "i < 2 ^ d"
  shows "\<exists>ps. proof_loop sha256 d level i = Inr ps \<and> length ps = d \<and> verify_path sha256 ps (level ! i) i = root_of sha256 d level"
  using assms
proof (induction d arbitrary: level i)
  case 0
  then show ?case by simp
next
  case (Suc d)
  have i2: "i div 2 < 2 ^ d" using Suc.prems(2) by simp
  from Suc.IH [OF length_up [OF Suc.prems(1)] this, of sha256] obtain ps where
    ps: "proof_loop sha256 d (up sha256 level) (i div 2) = Inr ps" "length ps = d"
      "verify_path sha256 ps (up sha256 level ! (i div 2)) (i div 2) = root_of sha256 d (up sha256 level)" by blast
  let ?s = "i XOR 1"
  have s: "?s < length level" using sibling_bound [OF Suc.prems(2)] Suc.prems(1) by simp
  have "up sha256 level ! (i div 2) = (if even i then hash_pair_log sha256 (level ! i) (level ! ?s) else hash_pair_log sha256 (level ! ?s) (level ! i))"
    using i2 Suc.prems(1) by (auto simp: up_nth xor_one elim!: oddE)
  moreover have "even (length level)" using Suc.prems(1) by simp
  ultimately show ?case
    using ps s by (intro exI [of _ "level ! ?s # ps"]) (auto simp: idx_def next_level_up Let_def split: if_splits)
qed

text \<open>The inputs that are hashed when a path is verified, and when the tree above a level is built.\<close>

fun path_inputs :: "(u8 list \<Rightarrow> node) \<Rightarrow> node list \<Rightarrow> node \<Rightarrow> nat \<Rightarrow> u8 list list" where
  "path_inputs sha256 [] cur i = []"
| "path_inputs sha256 (s # ps) cur i =
     (let x = (if even i then cur @ s else s @ cur) in x # path_inputs sha256 ps (sha256 x) (i div 2))"

fun tree_inputs :: "(u8 list \<Rightarrow> node) \<Rightarrow> nat \<Rightarrow> node list \<Rightarrow> u8 list list" where
  "tree_inputs sha256 0 level = []"
| "tree_inputs sha256 (Suc d) level =
     map (\<lambda>i. level ! (2 * i) @ level ! (2 * i + 1)) [0..<length level div 2] @ tree_inputs sha256 d (up sha256 level)"

text \<open>Two different inputs with the same hash, one from each list.\<close>

definition collision :: "(u8 list \<Rightarrow> node) \<Rightarrow> u8 list list \<Rightarrow> u8 list list \<Rightarrow> bool" where
  "collision sha256 xs ys \<longleftrightarrow> list_ex (\<lambda>a. list_ex (\<lambda>b. a \<noteq> b \<and> sha256 a = sha256 b) ys) xs"

lemma collisionI: "a \<in> set xs \<Longrightarrow> b \<in> set ys \<Longrightarrow> a \<noteq> b \<Longrightarrow> sha256 a = sha256 b \<Longrightarrow> collision sha256 xs ys"
  by (auto simp: collision_def list_ex_iff)

lemma collision_mono: "collision sha256 xs ys \<Longrightarrow> set xs \<subseteq> set xs' \<Longrightarrow> set ys \<subseteq> set ys' \<Longrightarrow> collision sha256 xs' ys'"
  by (auto simp: collision_def list_ex_iff)

text \<open>A path that leads to the root starts at the leaf, or verifying it and building the tree hash different inputs
  to the same node.\<close>

lemma path_sound:
  assumes "\<And>bs. length (sha256 bs) = 32" "length level = 2 ^ d" "\<forall>x \<in> set level. length x = 32" "i < 2 ^ d"
    and "length ps = d" "\<forall>x \<in> set ps. length x = 32" "length cur = 32"
    and "verify_path sha256 ps cur i = root_of sha256 d level"
  shows "cur = level ! i \<or> collision sha256 (path_inputs sha256 ps cur i) (tree_inputs sha256 d level)"
  using assms(2-)
proof (induction d arbitrary: level i ps cur)
  case 0
  then show ?case by simp
next
  case (Suc d)
  then obtain s ps' where ps: "ps = s # ps'" by (cases ps) auto
  define x where "x = (if even i then cur @ s else s @ cur)"
  let ?y = "level ! (2 * (i div 2)) @ level ! (2 * (i div 2) + 1)"
  have len: "\<forall>x \<in> set (up sha256 level). length x = 32" by (auto simp: up_def hash_pair_log_def assms(1))
  have i2: "i div 2 < 2 ^ d" using Suc.prems(3) by simp
  then have half: "i div 2 < length level div 2" using Suc.prems(1) by simp
  have "verify_path sha256 ps' (sha256 x) (i div 2) = root_of sha256 d (up sha256 level)"
    using Suc.prems(7) by (simp add: ps x_def hash_pair_log_def split: if_splits)
  then have "sha256 x = up sha256 level ! (i div 2)
      \<or> collision sha256 (path_inputs sha256 ps' (sha256 x) (i div 2)) (tree_inputs sha256 d (up sha256 level))"
    using Suc.prems ps len i2 by (intro Suc.IH [OF length_up [OF Suc.prems(1)]]) (auto simp: assms(1))
  moreover have "collision sha256 (path_inputs sha256 ps cur i) (tree_inputs sha256 (Suc d) level)"
    if "collision sha256 (path_inputs sha256 ps' (sha256 x) (i div 2)) (tree_inputs sha256 d (up sha256 level))"
    by (rule collision_mono [OF that]) (auto simp: ps x_def Let_def)
  ultimately consider (up) "sha256 x = sha256 ?y" | (above) "collision sha256 (path_inputs sha256 ps cur i) (tree_inputs sha256 (Suc d) level)"
    using half by (auto simp: up_nth hash_pair_log_def)
  then show ?case
  proof cases
    case up
    have mem: "x \<in> set (path_inputs sha256 ps cur i)" "?y \<in> set (tree_inputs sha256 (Suc d) level)"
      using half by (auto simp: ps x_def Let_def)
    have "cur = level ! i" if "x = ?y"
    proof -
      have "length (level ! (2 * (i div 2))) = 32" using Suc.prems(1,2) i2 by (intro bspec [OF Suc.prems(2)] nth_mem) simp
      then show ?thesis using that Suc.prems(5,6) ps by (auto simp: x_def split: if_splits)
    qed
    then show ?thesis using collisionI [OF mem] up by blast
  qed simp
qed

section \<open>The log\<close>

lemma padded_ok:
  assumes "length leaves \<le> 2 ^ d" "d \<le> 57"
  shows "length (padded leaves (shl1 d)) = 2 ^ d" "i < length leaves \<Longrightarrow> padded leaves (shl1 d) ! i = leaves ! i"
    "\<forall>x \<in> set leaves. length x = 32 \<Longrightarrow> \<forall>x \<in> set (padded leaves (shl1 d)). length x = 32"
  using assms by (auto simp: padded_def shl1_def nth_append zero_node_def dest: in_set_takeD)

lemma capacity_ok: "d \<le> 57 \<Longrightarrow> with_capacity 32 (shl1 d) = Inr ()"
  using power_increasing [of d 57 "2 :: nat"] by (simp add: with_capacity_def shl1_def)

lemma compute_root_ok:
  assumes "leaves \<noteq> []" "length leaves \<le> 2 ^ 57"
  shows "\<exists>d. tree_depth (length leaves) = Some d \<and> d \<le> 57 \<and> length leaves \<le> 2 ^ d
    \<and> compute_root sha256 leaves = Some (Inr (root_of sha256 d (padded leaves (shl1 d))))"
proof -
  obtain d where d: "tree_depth (length leaves) = Some d" "length leaves \<le> 2 ^ d" "d \<le> 57"
    using tree_depth_ok [of "length leaves" 57] assms by auto
  then show ?thesis
    using assms(1) root_loop_root_of [OF padded_ok(1) [OF d(2,3)]] capacity_ok [OF d(3)] by (simp add: compute_root_def)
qed

lemma inclusion_complete:
  assumes "i < length leaves" "length leaves \<le> 2 ^ 57"
  shows "\<exists>root ps. compute_root sha256 leaves = Some (Inr root) \<and> inclusion_proof sha256 leaves i = Some (Inr (Inr ps))
    \<and> verify_inclusion sha256 root (leaves ! i) i ps (length leaves) = Some True"
proof -
  have ne: "leaves \<noteq> []" using assms(1) by auto
  obtain d where d: "tree_depth (length leaves) = Some d" "d \<le> 57" "length leaves \<le> 2 ^ d"
    and r: "compute_root sha256 leaves = Some (Inr (root_of sha256 d (padded leaves (shl1 d))))"
    using compute_root_ok [OF ne assms(2)] by blast
  note pad = padded_ok [OF d(3,2)]
  have "i < 2 ^ d" using assms(1) d(3) by linarith
  from path_complete [OF pad(1) this, of sha256] obtain ps where
    ps: "proof_loop sha256 d (padded leaves (shl1 d)) i = Inr ps" "length ps = d"
      "verify_path sha256 ps (leaves ! i) i = root_of sha256 d (padded leaves (shl1 d))" using pad(2) [OF assms(1)] by auto
  show ?thesis
    using r ps d(1) assms(1) ne by (simp add: inclusion_proof_def merkle_proof_def verify_inclusion_def capacity_ok [OF d(2)])
qed

text \<open>The inputs that \<open>compute_root\<close> hashes.\<close>

definition log_inputs :: "(u8 list \<Rightarrow> node) \<Rightarrow> node list \<Rightarrow> u8 list list" where
  "log_inputs sha256 leaves =
     (case tree_depth (length leaves) of Some d \<Rightarrow> tree_inputs sha256 d (padded leaves (shl1 d)) | None \<Rightarrow> [])"

lemma inclusion_sound:
  assumes "\<And>bs. length (sha256 bs) = 32" "\<forall>x \<in> set leaves. length x = 32" "length leaves \<le> 2 ^ 57"
    and "length leaf = 32" "\<forall>x \<in> set ps. length x = 32" "compute_root sha256 leaves = Some (Inr root)"
    and "verify_inclusion sha256 root leaf i ps (length leaves) = Some True"
  shows "(i < length leaves \<and> leaf = leaves ! i) \<or> collision sha256 (path_inputs sha256 ps leaf i) (log_inputs sha256 leaves)"
proof -
  have i: "i < length leaves" using assms(7) by (auto simp: verify_inclusion_def split: if_splits)
  then have ne: "leaves \<noteq> []" by auto
  obtain d where d: "tree_depth (length leaves) = Some d" "d \<le> 57" "length leaves \<le> 2 ^ d"
    and r: "root = root_of sha256 d (padded leaves (shl1 d))"
    using compute_root_ok [OF ne assms(3), of sha256] assms(6) by auto
  note pad = padded_ok [OF d(3,2)]
  have "length ps = d" "verify_path sha256 ps leaf i = root_of sha256 d (padded leaves (shl1 d))"
    using assms(7) d(1) r i by (auto simp: verify_inclusion_def split: if_splits)
  moreover have "i < 2 ^ d" using i d(3) by linarith
  ultimately have "leaf = padded leaves (shl1 d) ! i
      \<or> collision sha256 (path_inputs sha256 ps leaf i) (tree_inputs sha256 d (padded leaves (shl1 d)))"
    using path_sound [of sha256 "padded leaves (shl1 d)" d i ps leaf] assms(1,4,5) pad(1) pad(3) [OF assms(2)] by blast
  then show ?thesis using pad(2) [OF i] i d(1) by (auto simp: log_inputs_def)
qed

section \<open>The endpoint\<close>

lemma decode_node_length: "decode_node hex what short h = Inr b \<Longrightarrow> length b = 32"
  by (auto simp: decode_node_def split: sum.splits if_splits)

lemma decode_path_length: "decode_path hex hs = Inr bs \<Longrightarrow> \<forall>x \<in> set bs. length x = 32"
  by (induction hex hs arbitrary: bs rule: decode_path.induct) (auto dest: decode_node_length split: sum.splits)

lemma transparency_verify_True:
  "transparency_verify hex sha256 req = Some (Inr True) \<longleftrightarrow>
     (\<exists>root leaf path. decode_node hex ''root'' ''root'' (root_hex req) = Inr root
        \<and> decode_node hex ''leaf_hash'' ''leaf_hash'' (leaf_hash req) = Inr leaf
        \<and> decode_path hex (proof_hex req) = Inr path
        \<and> verify_inclusion sha256 root leaf (index req) path (tree_size req) = Some True)"
  by (auto simp: transparency_verify_def split: sum.splits)

lemma verify_inclusion_total: "n \<le> 2 ^ 63 \<Longrightarrow> \<exists>b. verify_inclusion sha256 root leaf i ps n = Some b"
  using tree_depth_ok [of n 63] by (auto simp: verify_inclusion_def)

lemma verify_inclusion_diverges:
  "2 ^ 63 < n \<Longrightarrow> i < n \<Longrightarrow> verify_inclusion sha256 root leaf i ps n = None"
  using tree_depth_diverges [of n] by (auto simp: verify_inclusion_def)

end
