(* ===== verification/Guest_Wire.thy ===== *)
theory Guest_Wire
  imports Prelude_ZK
begin

text \<open>
  The word streams of the zkVM guest programs (\<open>examples/rule-engine\<close>, \<open>examples/xgboost-inference\<close>): a guest reads 32-bit
  words from the host one at a time, and commits a list of words as its journal. The formats are those of the comment at
  the head of the readers: a \<open>u32\<close> is a word, a 64-bit value two words (low, high), a byte one word, \<open>[u8; 32]\<close> 32
  words, a \<open>Vec\<close> its length and its elements.

  \<^item> A reader is a function of the words that are left. It panics when they run out (\<open>env::read\<close>), and when a
    \<open>Vec::with_capacity\<close> exceeds \<open>isize::MAX\<close> bytes; \<open>usize\<close> of the guests has 32 bits.
  \<^item> The locale \<open>word_codec\<close> is the contract of a reader and the words it is meant to read.
\<close>

type_synonym u32 = "32 word"
type_synonym 'a wreader = "u32 list \<Rightarrow> ('a \<times> u32 list) res"

section \<open>Readers\<close>

definition wr_ret :: "'a \<Rightarrow> 'a wreader" where
  "wr_ret x ws = Inr (x, ws)"

definition wr_bind :: "'a wreader \<Rightarrow> ('a \<Rightarrow> 'b wreader) \<Rightarrow> 'b wreader" where
  "wr_bind m f ws = rbind (m ws) (\<lambda>(x, ws). f x ws)"

text \<open>\<open>Vec::with_capacity(n)\<close> on the guest, for elements of \<open>w\<close> bytes: outside and inside a reader.\<close>

definition guest_alloc :: "nat \<Rightarrow> nat \<Rightarrow> unit res" where
  "guest_alloc w n = (if w * n < 2 ^ 31 then Inr () else rpanic Capacity_Overflow)"

definition guest_capacity :: "nat \<Rightarrow> nat \<Rightarrow> unit wreader" where
  "guest_capacity w n ws = rmap (\<lambda>_. ((), ws)) (guest_alloc w n)"

definition read_word :: "u32 wreader" where
  "read_word ws = (case ws of [] \<Rightarrow> rpanic (Unwrap_Failed ''end of input'') | w # ws \<Rightarrow> Inr (w, ws))"

definition read_u64_val :: "u64 wreader" where
  "read_u64_val =
     wr_bind read_word (\<lambda>low. wr_bind read_word (\<lambda>high. wr_ret (push_bit 32 (ucast high) OR ucast low)))"

definition read_byte :: "u8 wreader" where
  "read_byte = wr_bind read_word (\<lambda>w. wr_ret (ucast w))"

definition read_byte_array_32 :: "u8 list wreader" where
  "read_byte_array_32 = rtimes 32 read_byte"

text \<open>A length, the allocation, and the elements in a loop.\<close>

definition wr_vec :: "nat \<Rightarrow> 'a wreader \<Rightarrow> 'a list wreader" where
  "wr_vec w rd =
     wr_bind read_word (\<lambda>len. wr_bind (guest_capacity w (unat len)) (\<lambda>_. rtimes (unat len) rd))"

section \<open>Writers\<close>

definition u64_words :: "u64 \<Rightarrow> u32 list" where
  "u64_words v = [ucast v, ucast (drop_bit 32 v)]"

definition byte_words :: "u8 list \<Rightarrow> u32 list" where
  "byte_words bs = map ucast bs"

definition vec_words :: "('a \<Rightarrow> u32 list) \<Rightarrow> 'a list \<Rightarrow> u32 list" where
  "vec_words enc xs = of_nat (length xs) # concat (map enc xs)"

text \<open>\<open>to_le_bytes\<close>, and the length of a slice as a \<open>u32\<close> in bytes.\<close>

definition u32_le :: "u32 \<Rightarrow> u8 list" where
  "u32_le w = map (\<lambda>k. ucast (drop_bit (8 * k) w)) [0..<4]"

definition u64_le :: "u64 \<Rightarrow> u8 list" where
  "u64_le w = map (\<lambda>k. ucast (drop_bit (8 * k) w)) [0..<8]"

definition len_le :: "'a list \<Rightarrow> u8 list" where
  "len_le xs = u32_le (of_nat (length xs))"

text \<open>The bytes of a number, least significant first.\<close>

definition le_bytes :: "nat \<Rightarrow> nat \<Rightarrow> u8 list" where
  "le_bytes n v = map (\<lambda>k. of_nat (v div 256 ^ k)) [0..<n]"

lemma ucast_drop_bit: "ucast (drop_bit (8 * k) w) = (of_nat (unat w div 256 ^ k) :: u8)" for w :: "'a :: len word"
proof -
  have "unat (drop_bit (8 * k) w) = drop_bit (8 * k) (unat w)" by (simp add: unsigned_drop_bit_eq take_bit_nat_eq_self unsigned_less)
  also have "\<dots> = unat w div 256 ^ k" by (simp add: drop_bit_eq_div power_mult)
  finally show ?thesis by (metis unsigned_of_nat of_nat_unat)
qed

lemma le_bytes_words: "u32_le a = le_bytes 4 (unat a)" "u64_le b = le_bytes 8 (unat b)"
  by (simp_all add: u32_le_def u64_le_def le_bytes_def ucast_drop_bit)

lemma le_bytes_append: "le_bytes (m + n) v = le_bytes m v @ le_bytes n (v div 256 ^ m)"
proof -
  have "[0..<m + n] = [0..<m] @ map (\<lambda>k. m + k) [0..<n]" using upt_add_eq_append [of 0 m n] by (simp add: map_add_upt add.commute)
  then show ?thesis by (simp add: le_bytes_def div_mult2_eq power_add)
qed

lemma le_bytes_mod: "le_bytes n (v mod 256 ^ n) = le_bytes n v"
proof -
  have "(of_nat (v mod 256 ^ n div 256 ^ k) :: u8) = of_nat (v div 256 ^ k)" if "k < n" for k
  proof -
    have e: "a div 256 ^ k = drop_bit (8 * k) a" "a mod 256 ^ n = take_bit (8 * n) a" for a :: nat
      by (simp_all add: drop_bit_eq_div take_bit_eq_mod power_mult)
    have "8 \<le> 8 * n - 8 * k" using that by simp
    then have "take_bit 8 (drop_bit (8 * k) (take_bit (8 * n) v)) = take_bit 8 (drop_bit (8 * k) v)"
      by (simp add: drop_bit_take_bit min_def)
    then show ?thesis unfolding e by (simp add: word_unat_eq_iff unsigned_of_nat)
  qed
  then show ?thesis by (simp add: le_bytes_def)
qed

lemma le_bytes_length: "length xs < 2 ^ 31 \<Longrightarrow> len_le xs = le_bytes 4 (length xs)"
  by (simp add: len_le_def le_bytes_words unat_of_nat)

section \<open>A reader reads what a writer writes\<close>

definition wreads :: "'a wreader \<Rightarrow> u32 list \<Rightarrow> 'a \<Rightarrow> bool" where
  "wreads rd ws x \<longleftrightarrow> (\<forall>rest. rd (ws @ rest) = Inr (x, rest))"

lemma wreads_ret [intro]: "wreads (wr_ret x) [] x"
  by (simp add: wreads_def wr_ret_def)

lemma wreads_bind: "wreads m ws x \<Longrightarrow> wreads (f x) vs y \<Longrightarrow> wreads (wr_bind m f) (ws @ vs) y"
  by (simp add: wreads_def wr_bind_def)

lemma wreads_bind_Cons: "wreads m [w] x \<Longrightarrow> wreads (f x) vs y \<Longrightarrow> wreads (wr_bind m f) (w # vs) y"
  using wreads_bind [of m "[w]"] by simp

lemma wreads_last: "wreads m ws x \<Longrightarrow> g x = y \<Longrightarrow> wreads (wr_bind m (\<lambda>v. wr_ret (g v))) ws y"
  by (auto simp add: wreads_def wr_bind_def wr_ret_def)

lemma wreads_word [intro]: "wreads read_word [w] w"
  by (simp add: wreads_def read_word_def)

lemma join_halves: "push_bit 32 (ucast (ucast (drop_bit 32 v) :: u32)) OR ucast (ucast v :: u32) = (v :: u64)"
  by (rule bit_word_eqI) (auto simp: bit_simps)

lemma wreads_u64 [intro]: "wreads read_u64_val (u64_words v) v"
  using join_halves [of v] by (simp add: wreads_def read_u64_val_def u64_words_def wr_bind_def wr_ret_def read_word_def)

lemma ucast_byte: "ucast (ucast (b :: u8) :: u32) = b"
  by (rule bit_word_eqI) (simp add: bit_simps)

text \<open>The words of a value determine it and what follows.\<close>

lemma wreads_unique:
  "wreads rd ws x \<Longrightarrow> wreads rd vs y \<Longrightarrow> ws @ ws' = vs @ vs' \<Longrightarrow> x = y \<and> ws' = vs'"
  unfolding wreads_def by (metis Inr_inject prod.inject)

locale word_codec =
  fixes ok :: "'a \<Rightarrow> bool" and enc :: "'a \<Rightarrow> u32 list" and dec :: "'a wreader"
  assumes round_trip: "ok x \<Longrightarrow> wreads dec (enc x) x"
begin

lemma reads_times: "list_all ok xs \<Longrightarrow> wreads (rtimes (length xs) dec) (concat (map enc xs)) xs"
proof (induction xs)
  case Nil
  then show ?case by (simp add: wreads_def)
next
  case (Cons x xs)
  then have "wreads dec (enc x) x" "wreads (rtimes (length xs) dec) (concat (map enc xs)) xs"
    by (simp_all add: round_trip)
  then show ?case by (simp add: wreads_def)
qed

lemma reads_vec:
  assumes "list_all ok xs" "w * length xs < 2 ^ 31" "0 < w"
  shows "wreads (wr_vec w dec) (vec_words enc xs) xs"
proof -
  have "length xs \<le> w * length xs" using assms(3) by simp
  also have "\<dots> < 2 ^ 32" using assms(2) by (rule less_trans) simp
  finally have "length xs < 2 ^ 32" .
  then have "unat (of_nat (length xs) :: u32) = length xs" by (simp add: unat_of_nat)
  then show ?thesis using reads_times [OF assms(1)] assms(2)
    by (simp add: wreads_def wr_vec_def vec_words_def wr_bind_def read_word_def guest_capacity_def guest_alloc_def)
qed

end

interpretation byte_codec: word_codec "\<lambda>_. True" "\<lambda>b. [ucast b]" read_byte
  by unfold_locales (simp add: wreads_def read_byte_def wr_bind_def wr_ret_def read_word_def ucast_byte)

interpretation u64_codec_w: word_codec "\<lambda>_. True" u64_words read_u64_val
  by unfold_locales (rule wreads_u64)

lemma wreads_byte_array: "length bs = 32 \<Longrightarrow> wreads read_byte_array_32 (byte_words bs) bs"
  using byte_codec.reads_times [of bs] by (simp add: read_byte_array_32_def byte_words_def list_all_iff)

interpretation id_codec: word_codec "\<lambda>bs. length bs = 32" byte_words read_byte_array_32
  by unfold_locales (rule wreads_byte_array)

end
