(* ===== verification/Glob_Match.thy ===== *)
theory Glob_Match
  imports Guest_Wire "HOL-Library.Sublist"
begin

text \<open>
  The string matchers of the rule engine guest (\<open>examples/rule-engine/methods/guest/src/main.rs\<close>): substring search and
  patterns with \<open>*\<close> (42, any sequence) and \<open>?\<close> (63, any byte).

  \<^item> \<open>glob_loop\<close> is the loop of \<open>glob_match\<close>; it ends in every state, also in those that the code does not reach.
  \<^item> \<open>glob\<close> is the meaning of a pattern. The loop keeps one star to go back to; \<open>glob_loop_pending\<close> shows that this is
    enough, for texts without a \<open>*\<close>, and \<open>glob_match_sound\<close> that a match is right for all texts.
\<close>

section \<open>The two matchers\<close>

text \<open>\<open>for i in 0..=(haystack.len() - needle.len())\<close>.\<close>

definition bytes_contains :: "u8 list \<Rightarrow> u8 list \<Rightarrow> bool" where
  "bytes_contains haystack needle =
     (if needle = [] then True
      else if length needle > length haystack then False
      else list_ex (\<lambda>i. take (length needle) (drop i haystack) = needle) [0..<length haystack - length needle + 1])"

text \<open>A state of the loop that the loop itself makes: the last star is left of the position.\<close>

definition star_ok :: "nat \<Rightarrow> nat \<Rightarrow> (nat \<times> nat) option \<Rightarrow> bool" where
  "star_ok px tx star \<longleftrightarrow> (\<forall>sp stx. star = Some (sp, stx) \<longrightarrow> sp < px \<and> stx \<le> tx)"

function glob_loop :: "u8 list \<Rightarrow> u8 list \<Rightarrow> nat \<Rightarrow> nat \<Rightarrow> (nat \<times> nat) option \<Rightarrow> nat option" where
  "glob_loop pattern text px tx star =
     (if tx < length text
      then if px < length pattern \<and> (pattern ! px = 63 \<or> pattern ! px = text ! tx)
           then glob_loop pattern text (px + 1) (tx + 1) star
           else if px < length pattern \<and> pattern ! px = 42
           then glob_loop pattern text (px + 1) tx (Some (px, tx))
           else (case star of
                   Some (sp, stx) \<Rightarrow> glob_loop pattern text (sp + 1) (stx + 1) (Some (sp, stx + 1))
                 | None \<Rightarrow> None)
      else Some px)"
  by pat_completeness auto

termination
  by (relation "measures [\<lambda>(p, t, px, tx, star). if star_ok px tx star then 0 else 1,
        \<lambda>(p, t, px, tx, star). case star of None \<Rightarrow> length p + 1 | Some (sp, _) \<Rightarrow> length p - sp,
        \<lambda>(p, t, px, tx, star). case star of None \<Rightarrow> 0 | Some (_, stx) \<Rightarrow> length t - stx,
        \<lambda>(p, t, px, tx, star). length t - tx]")
    (auto simp: star_ok_def split: option.splits)

declare glob_loop.simps [simp del]

definition glob_match :: "u8 list \<Rightarrow> u8 list \<Rightarrow> bool" where
  "glob_match pattern text =
     (case glob_loop pattern text 0 0 None of
        None \<Rightarrow> False
      | Some px \<Rightarrow> dropWhile (\<lambda>b. b = 42) (drop px pattern) = [])"

section \<open>The meaning of a pattern\<close>

inductive glob :: "u8 list \<Rightarrow> u8 list \<Rightarrow> bool" where
  glob_Nil: "glob [] []"
| glob_char: "glob p t \<Longrightarrow> c \<noteq> 42 \<Longrightarrow> glob (c # p) (c # t)"
| glob_any: "glob p t \<Longrightarrow> glob (63 # p) (c # t)"
| glob_skip: "glob p t \<Longrightarrow> glob (42 # p) t"
| glob_take: "glob (42 # p) t \<Longrightarrow> glob (42 # p) (c # t)"

inductive_simps glob_Nil_iff [simp]: "glob [] t"
inductive_cases glob_starE: "glob (42 # p) t"

text \<open>The byte \<open>c\<close> of a pattern, other than a star, against the byte \<open>d\<close>.\<close>

definition byte_matches :: "u8 \<Rightarrow> u8 \<Rightarrow> bool" where
  "byte_matches c d \<longleftrightarrow> c = 63 \<or> c = d"

lemma glob_Cons_iff: "c \<noteq> 42 \<Longrightarrow> glob (c # p) t \<longleftrightarrow> (\<exists>d t'. t = d # t' \<and> byte_matches c d \<and> glob p t')"
  by (auto simp: byte_matches_def intro: glob.intros elim: glob.cases)

lemma glob_star_iff: "glob (42 # p) t \<longleftrightarrow> (\<exists>k \<le> length t. glob p (drop k t))"
proof
  show "glob (42 # p) t \<Longrightarrow> \<exists>k \<le> length t. glob p (drop k t)"
  proof (induction t)
    case Nil
    then show ?case by (auto elim: glob_starE)
  next
    case (Cons c t)
    from Cons.prems consider "glob p (c # t)" | "glob (42 # p) t" by (auto elim: glob_starE)
    then show ?case
    proof cases
      case 1
      then show ?thesis by (intro exI [of _ 0]) simp
    next
      case 2
      then obtain k where "k \<le> length t" "glob p (drop k t)" using Cons.IH by auto
      then show ?thesis by (intro exI [of _ "Suc k"]) simp
    qed
  qed
  show "\<exists>k \<le> length t. glob p (drop k t) \<Longrightarrow> glob (42 # p) t"
  proof (induction t)
    case Nil
    then show ?case by (auto intro: glob_skip)
  next
    case (Cons c t)
    then obtain k where k: "k \<le> length (c # t)" "glob p (drop k (c # t))" by blast
    then show ?case using Cons.IH by (cases k) (auto intro: glob_skip glob_take)
  qed
qed

lemma glob_segment:
  "42 \<notin> set seg \<Longrightarrow> glob (seg @ p) t \<longleftrightarrow>
     length seg \<le> length t \<and> list_all2 byte_matches seg (take (length seg) t) \<and> glob p (drop (length seg) t)"
proof (induction seg arbitrary: t)
  case Nil
  then show ?case by simp
next
  case (Cons c seg)
  then show ?case by (cases t) (auto simp: glob_Cons_iff)
qed

lemma glob_stars: "glob p [] \<longleftrightarrow> dropWhile (\<lambda>b. b = 42) p = []"
proof (induction p)
  case Nil
  then show ?case by simp
next
  case (Cons c p)
  then show ?case by (cases "c = 42") (simp_all add: glob_star_iff glob_Cons_iff)
qed

section \<open>The loop of the matcher\<close>

definition accepts :: "u8 list \<Rightarrow> nat option \<Rightarrow> bool" where
  "accepts p r = (case r of None \<Rightarrow> False | Some px \<Rightarrow> dropWhile (\<lambda>b. b = 42) (drop px p) = [])"

lemma glob_match_accepts: "glob_match p t = accepts p (glob_loop p t 0 0 None)"
  by (simp add: glob_match_def accepts_def)

text \<open>What the loop has still to decide: with no star so far, whether the rest matches the rest; with a star, whether the
  pattern after it matches some suffix of the text from \<open>stx\<close> on.\<close>

definition pending :: "u8 list \<Rightarrow> u8 list \<Rightarrow> nat \<Rightarrow> nat \<Rightarrow> (nat \<times> nat) option \<Rightarrow> bool" where
  "pending p t px tx star =
     (case star of
        None \<Rightarrow> glob (drop px p) (drop tx t)
      | Some (sp, stx) \<Rightarrow> \<exists>k. stx \<le> k \<and> k \<le> length t \<and> glob (drop (Suc sp) p) (drop k t))"

text \<open>The bytes of the pattern since the last star, and that they have matched.\<close>

definition segment :: "u8 list \<Rightarrow> nat \<Rightarrow> nat \<Rightarrow> u8 list" where
  "segment p sp px = take (px - Suc sp) (drop (Suc sp) p)"

definition matched :: "u8 list \<Rightarrow> u8 list \<Rightarrow> nat \<Rightarrow> nat \<Rightarrow> (nat \<times> nat) option \<Rightarrow> bool" where
  "matched p t px tx star \<longleftrightarrow> px \<le> length p \<and> tx \<le> length t \<and>
     (\<forall>sp stx. star = Some (sp, stx) \<longrightarrow> sp < px \<and> stx \<le> tx \<and> 42 \<notin> set (segment p sp px)
        \<and> list_all2 byte_matches (segment p sp px) (take (tx - stx) (drop stx t)))"

lemma segment_append: "sp < px \<Longrightarrow> px \<le> length p \<Longrightarrow> drop (Suc sp) p = segment p sp px @ drop px p"
  unfolding segment_def by (metis Suc_leI append_take_drop_id drop_drop le_add_diff_inverse2)

lemma segment_snoc: "sp < px \<Longrightarrow> px < length p \<Longrightarrow> segment p sp (Suc px) = segment p sp px @ [p ! px]"
  by (simp add: segment_def Suc_diff_le take_Suc_conv_app_nth Suc_diff_Suc flip: Suc_diff_Suc)

lemma length_segment:
  assumes "matched p t px tx (Some (sp, stx))"
  shows "length (segment p sp px) = tx - stx"
  using assms by (auto simp: matched_def dest: list_all2_lengthD)

text \<open>From the star on, the pattern matches at \<open>k\<close> only if the segment does, and then goes on after it.\<close>

lemma matched_suffix:
  assumes m: "matched p t px tx (Some (sp, stx))" and "k \<le> length t"
  shows "glob (drop (Suc sp) p) (drop k t) \<longleftrightarrow> k + (tx - stx) \<le> length t
    \<and> list_all2 byte_matches (segment p sp px) (take (tx - stx) (drop k t)) \<and> glob (drop px p) (drop (k + (tx - stx)) t)"
proof -
  have "drop (Suc sp) p = segment p sp px @ drop px p" and "42 \<notin> set (segment p sp px)"
    using m by (simp_all add: matched_def segment_append)
  then show ?thesis using glob_segment [of "segment p sp px" "drop px p" "drop k t"] length_segment [OF m] assms(2)
    by (auto simp: add.commute)
qed

lemma matched_here:
  assumes "matched p t px tx (Some (sp, stx))"
  shows "glob (drop (Suc sp) p) (drop stx t) \<longleftrightarrow> glob (drop px p) (drop tx t)"
  using matched_suffix [OF assms, of stx] assms by (auto simp: matched_def)

lemma pending_end: "matched p t px (length t) star \<Longrightarrow> pending p t px (length t) star = glob (drop px p) []"
proof (cases star)
  case (Some s)
  obtain sp stx where s: "s = (sp, stx)" by (cases s)
  assume m: "matched p t px (length t) star"
  then have m: "matched p t px (length t) (Some (sp, stx))" and le: "stx \<le> length t" using Some s by (auto simp: matched_def)
  have "k = stx" if "stx \<le> k" "k \<le> length t" "glob (drop (Suc sp) p) (drop k t)" for k
  proof -
    have "k + (length t - stx) \<le> length t" using matched_suffix [OF m that(2)] that(3) by blast
    then show ?thesis using that(1) le by linarith
  qed
  then show ?thesis using matched_here [OF m] le Some s by (auto simp: pending_def)
qed (simp add: pending_def)

lemma pending_star:
  assumes m: "matched p t px tx star" and px: "px < length p" "p ! px = 42"
  shows "pending p t px tx star = pending p t (Suc px) tx (Some (px, tx))"
proof -
  have d: "drop px p = 42 # drop (Suc px) p" using px by (simp add: Cons_nth_drop_Suc [symmetric])
  have tx: "tx \<le> length t" using m by (simp add: matched_def)
  have star_here: "glob (drop px p) (drop k t) \<longleftrightarrow> (\<exists>j. k \<le> j \<and> j \<le> length t \<and> glob (drop (Suc px) p) (drop j t))"
    if "k \<le> length t" for k
    unfolding d glob_star_iff
  proof
    assume "\<exists>i \<le> length (drop k t). glob (drop (Suc px) p) (drop i (drop k t))"
    then obtain i where "i \<le> length t - k" "glob (drop (Suc px) p) (drop (k + i) t)" by (auto simp: add.commute)
    then show "\<exists>j. k \<le> j \<and> j \<le> length t \<and> glob (drop (Suc px) p) (drop j t)" using that
      by (intro exI [of _ "k + i"]) auto
  next
    assume "\<exists>j. k \<le> j \<and> j \<le> length t \<and> glob (drop (Suc px) p) (drop j t)"
    then obtain j where "k \<le> j" "j \<le> length t" "glob (drop (Suc px) p) (drop j t)" by blast
    then show "\<exists>i \<le> length (drop k t). glob (drop (Suc px) p) (drop i (drop k t))"
      by (intro exI [of _ "j - k"]) auto
  qed
  show ?thesis
  proof (cases star)
    case None
    then show ?thesis using star_here [OF tx] by (simp add: pending_def)
  next
    case (Some s)
    obtain sp stx where s: "s = (sp, stx)" by (cases s)
    have m': "matched p t px tx (Some (sp, stx))" and le: "stx \<le> tx" using m Some s by (auto simp: matched_def)
    have "glob (drop px p) (drop tx t)"
      if "stx \<le> k" "k \<le> length t" "glob (drop (Suc sp) p) (drop k t)" for k
    proof -
      have k: "k + (tx - stx) \<le> length t" "glob (drop px p) (drop (k + (tx - stx)) t)"
        using matched_suffix [OF m' that(2)] that(3) by blast+
      have "tx \<le> k + (tx - stx)" using that(1) le by simp
      then show ?thesis using k star_here [OF k(1)] star_here [OF tx] by (meson order_trans)
    qed
    moreover have "glob (drop (Suc sp) p) (drop stx t) \<longleftrightarrow> glob (drop px p) (drop tx t)" by (rule matched_here [OF m'])
    ultimately have "pending p t px tx star = glob (drop px p) (drop tx t)"
      using le tx Some s by (auto simp: pending_def)
    then show ?thesis using star_here [OF tx] by (simp add: pending_def)
  qed
qed

lemma matched_step:
  assumes m: "matched p t px tx star" and "tx < length t" "px < length p" "byte_matches (p ! px) (t ! tx)" "p ! px \<noteq> 42"
  shows "matched p t (Suc px) (Suc tx) star"
proof -
  have "42 \<notin> set (segment p sp (Suc px)) \<and> list_all2 byte_matches (segment p sp (Suc px)) (take (Suc tx - stx) (drop stx t))"
    if "star = Some (sp, stx)" for sp stx
  proof -
    have b: "sp < px" "stx \<le> tx" "42 \<notin> set (segment p sp px)"
        "list_all2 byte_matches (segment p sp px) (take (tx - stx) (drop stx t))"
      using m that by (auto simp: matched_def)
    then have "take (Suc tx - stx) (drop stx t) = take (tx - stx) (drop stx t) @ [t ! tx]"
      using assms(2) by (simp add: Suc_diff_le take_Suc_conv_app_nth)
    then show ?thesis using b assms(3-5) by (simp add: segment_snoc list_all2_appendI)
  qed
  then show ?thesis using m assms(2,3) by (auto simp: matched_def)
qed

lemma pending_step:
  assumes "matched p t px tx star" "tx < length t" "px < length p" "byte_matches (p ! px) (t ! tx)" "p ! px \<noteq> 42"
  shows "pending p t (Suc px) (Suc tx) star = pending p t px tx star"
proof (cases star)
  case None
  have "drop px p = p ! px # drop (Suc px) p" "drop tx t = t ! tx # drop (Suc tx) t"
    using assms by (simp_all add: Cons_nth_drop_Suc)
  then show ?thesis using None assms(4,5) by (simp add: pending_def glob_Cons_iff)
qed (simp add: pending_def)

lemma no_match_here:
  assumes "tx < length t" "\<not> (px < length p \<and> (byte_matches (p ! px) (t ! tx) \<or> p ! px = 42))"
  shows "\<not> glob (drop px p) (drop tx t)"
proof (cases "px < length p")
  case True
  then have "drop px p = p ! px # drop (Suc px) p" "drop tx t = t ! tx # drop (Suc tx) t"
    using assms by (simp_all add: Cons_nth_drop_Suc)
  then show ?thesis using assms True by (simp add: glob_Cons_iff)
qed (use assms in simp)

lemma pending_retry:
  assumes m: "matched p t px tx (Some (sp, stx))" and "tx < length t" "\<not> glob (drop px p) (drop tx t)"
  shows "pending p t (Suc sp) (Suc stx) (Some (sp, Suc stx)) = pending p t px tx (Some (sp, stx))"
proof -
  have "\<not> glob (drop (Suc sp) p) (drop stx t)" using matched_here [OF m] assms(3) by simp
  moreover have "stx \<le> tx" using m by (simp add: matched_def)
  ultimately show ?thesis unfolding pending_def option.case prod.case by (metis Suc_leD le_antisym not_less_eq_eq)
qed

lemma glob_loop_pending:
  assumes "42 \<notin> set t" "matched p t px tx star"
  shows "accepts p (glob_loop p t px tx star) = pending p t px tx star"
  using assms
proof (induction p t px tx star rule: glob_loop.induct)
  case (1 p t px tx star)
  show ?case
  proof (cases "tx < length t")
    case False
    then have tx: "tx = length t" using 1(5) by (simp add: matched_def)
    then show ?thesis using pending_end 1(5) by (subst glob_loop.simps) (simp add: accepts_def glob_stars)
  next
    case tx: True
    then have no_star: "t ! tx \<noteq> 42" using 1(4) by (metis nth_mem)
    show ?thesis
    proof (cases "px < length p \<and> byte_matches (p ! px) (t ! tx)")
      case True
      then have "p ! px \<noteq> 42" using no_star by (auto simp: byte_matches_def)
      then show ?thesis using 1(1) [OF tx] 1(4,5) True tx matched_step [of p t px tx star] pending_step [of p t px tx star]
        by (subst glob_loop.simps) (simp add: byte_matches_def)
    next
      case no: False
      show ?thesis
      proof (cases "px < length p \<and> p ! px = 42")
        case True
        have "matched p t (Suc px) tx (Some (px, tx))" using 1(5) True by (simp add: matched_def segment_def)
        then show ?thesis using 1(2) [OF tx] 1(4,5) no True tx pending_star [of p t px tx star]
          by (subst glob_loop.simps) (simp add: byte_matches_def)
      next
        case False
        then have here: "\<not> glob (drop px p) (drop tx t)" using no_match_here [of tx t px p] no tx by blast
        show ?thesis
        proof (cases star)
          case None
          then show ?thesis using here no False tx
            by (subst glob_loop.simps) (auto simp: byte_matches_def accepts_def pending_def)
        next
          case (Some s)
          obtain sp stx where s: "s = (sp, stx)" by (cases s)
          then have b: "sp < px" "stx \<le> tx" using 1(5) Some by (auto simp: matched_def)
          have "matched p t (Suc sp) (Suc stx) (Some (sp, Suc stx))"
            using 1(5) tx b by (simp add: matched_def segment_def)
          then have "accepts p (glob_loop p t (sp + 1) (stx + 1) (Some (sp, stx + 1))) = pending p t px tx star"
            using 1(3) [OF tx _ _ Some s [symmetric]] 1(4,5) no False Some s pending_retry [OF _ tx here]
            by (simp add: byte_matches_def)
          then show ?thesis using no False tx Some s by (subst glob_loop.simps) (auto simp: byte_matches_def)
        qed
      qed
    qed
  qed
qed

theorem glob_match_complete: "42 \<notin> set t \<Longrightarrow> glob_match p t = glob p t"
  using glob_loop_pending [of t p 0 0 None] by (simp add: glob_match_accepts matched_def pending_def)

text \<open>Whatever the text holds, a match of the loop is a match of the pattern.\<close>

lemma glob_loop_sound:
  assumes "accepts p (glob_loop p t px tx star)" "tx \<le> length t"
    and "glob (drop px p) (drop tx t) \<Longrightarrow> glob p t"
    and "\<And>sp stx k. star = Some (sp, stx) \<Longrightarrow> stx \<le> k \<Longrightarrow> k \<le> length t \<Longrightarrow> glob (drop (Suc sp) p) (drop k t) \<Longrightarrow> glob p t"
    and "\<And>sp stx. star = Some (sp, stx) \<Longrightarrow> stx \<le> tx"
  shows "glob p t"
  using assms
proof (induction p t px tx star rule: glob_loop.induct)
  case (1 p t px tx star)
  show ?case
  proof (cases "tx < length t")
    case False
    then show ?thesis using 1(4-6) by (simp add: glob_loop.simps accepts_def glob_stars)
  next
    case tx: True
    have t: "drop tx t = t ! tx # drop (Suc tx) t" using tx by (simp add: Cons_nth_drop_Suc)
    consider "px < length p \<and> (p ! px = 63 \<or> p ! px = t ! tx)"
      | "\<not> (px < length p \<and> (p ! px = 63 \<or> p ! px = t ! tx))" "px < length p \<and> p ! px = 42"
      | "\<not> (px < length p \<and> (p ! px = 63 \<or> p ! px = t ! tx))" "\<not> (px < length p \<and> p ! px = 42)" by blast
    then show ?thesis
    proof cases
      case c: 1
      have p: "drop px p = p ! px # drop (Suc px) p" using c by (simp add: Cons_nth_drop_Suc)
      have "glob p t" if "glob (drop (Suc px) p) (drop (Suc tx) t)"
      proof (rule 1(6))
        show "glob (drop px p) (drop tx t)"
          using that c unfolding p t by (cases "p ! px = 42") (auto intro: glob.intros)
      qed
      moreover have "stx \<le> Suc tx" if "star = Some (sp, stx)" for sp stx using 1(8) [OF that] by simp
      ultimately show ?thesis using 1(1) [OF tx c] 1(4,7) tx c by (subst (asm) (2) glob_loop.simps) auto
    next
      case c: 2
      have p: "drop px p = 42 # drop (Suc px) p" using c(2) by (metis Cons_nth_drop_Suc)
      have star: "glob p t" if "tx \<le> k" "k \<le> length t" "glob (drop (Suc px) p) (drop k t)" for k
      proof (rule 1(6))
        have "glob (drop (Suc px) p) (drop (k - tx) (drop tx t))" using that by simp
        then show "glob (drop px p) (drop tx t)"
          unfolding p glob_star_iff by (rule_tac exI [of _ "k - tx"]) (use that in simp)
      qed
      have "accepts p (glob_loop p t (Suc px) tx (Some (px, tx)))"
        using 1(4) tx c by (subst (asm) glob_loop.simps) auto
      then show ?thesis using 1(2) [OF tx c] 1(5) star star [OF order_refl 1(5)] by auto
    next
      case c: 3
      then obtain sp stx where s: "star = Some (sp, stx)" using 1(4) tx
        by (subst (asm) glob_loop.simps) (auto simp: accepts_def split: option.splits)
      then have "accepts p (glob_loop p t (sp + 1) (stx + 1) (Some (sp, stx + 1)))"
        using 1(4) tx c by (subst (asm) glob_loop.simps) auto
      moreover have lt: "Suc stx \<le> length t" using 1(8) [OF s] tx by simp
      moreover have again: "glob p t" if "Suc stx \<le> k" "k \<le> length t" "glob (drop (Suc sp) p) (drop k t)" for k
        using 1(7) [OF s, of k] that by simp
      ultimately show ?thesis using 1(3) [OF tx c s refl] again [OF order_refl lt] by auto
    qed
  qed
qed

theorem glob_match_sound: "glob_match p t \<Longrightarrow> glob p t"
  unfolding glob_match_accepts by (rule glob_loop_sound [of p t 0 0 None]) simp_all

theorem bytes_contains_iff: "bytes_contains haystack needle \<longleftrightarrow> sublist needle haystack"
proof -
  have "(\<exists>i \<le> length haystack - length needle. take (length needle) (drop i haystack) = needle) \<longleftrightarrow> sublist needle haystack"
    if "length needle \<le> length haystack"
  proof
    assume "\<exists>i \<le> length haystack - length needle. take (length needle) (drop i haystack) = needle"
    then obtain i where "take (length needle) (drop i haystack) = needle" by blast
    then have "haystack = take i haystack @ needle @ drop (length needle) (drop i haystack)"
      by (metis append_take_drop_id)
    then show "sublist needle haystack" unfolding sublist_def by blast
  next
    assume "sublist needle haystack"
    then obtain xs ys where "haystack = xs @ needle @ ys" by (auto simp: sublist_def)
    then show "\<exists>i \<le> length haystack - length needle. take (length needle) (drop i haystack) = needle"
      by (intro exI [of _ "length xs"]) simp
  qed
  moreover have "\<not> sublist needle haystack" if "length haystack < length needle"
    using that sublist_length_le by fastforce
  moreover have "list_ex P [0..<n + 1] \<longleftrightarrow> (\<exists>i \<le> n. P i)" for P n
    by (auto simp: list_ex_iff less_Suc_eq_le simp del: upt_Suc)
  ultimately show ?thesis by (auto simp: bytes_contains_def not_less simp del: upt_Suc)
qed

text \<open>A text that contains a star: the loop compares it with the star of the pattern before it looks for stars, so that it consumes
  the star as a plain byte. The pattern \<open>*a\<close> does not match the text \<open>*ba\<close>.\<close>

theorem glob_star_literal: "glob [42, 97] [42, 98, 97]" "\<not> glob_match [42, 97] [42, 98, 97]"
proof -
  have "glob [97] (drop 2 [42, 98, 97])" by (simp add: glob_Cons_iff byte_matches_def)
  then show "glob [42, 97] [42, 98, 97]" unfolding glob_star_iff by (intro exI [of _ 2]) simp
  show "\<not> glob_match [42, 97] [42, 98, 97]" by (simp add: glob_match_def glob_loop.simps)
qed

end
