(* ===== verification/Rule_Engine.thy ===== *)
theory Rule_Engine
  imports Glob_Match
begin

text \<open>
  The rule engine guest (\<open>examples/rule-engine/methods/guest/src/main.rs\<close>, and the entry point of its port
  \<open>examples/rule-engine-sp1/program/src/main.rs\<close>): it reads records, rules and aggregations, evaluates every rule on every
  record, aggregates integer fields over the records that a rule matches, and commits counts, the ids of the flagged
  records, the aggregates and a hash of the input.

  \<^item> An \<open>i64\<close> is a 64-bit word, compared by \<open>sint\<close>; \<open>sum += val\<close> wraps in the release build of a guest.
  \<^item> \<open>rule_spec\<close> is the result that the engine is meant to compute, on integers, substrings and patterns, \<open>rule_input_words\<close> the words
    of an input in the format of the readers.
  \<^item> Allocations of a known size panic from \<open>2 ^ 31\<close> bytes on. Vectors that grow as they are filled (the flagged ids) are written to
    the journal, whose allocation panics before they reach that size.
  \<^item> SHA-256 is a third-party crate: an argument.
\<close>

type_synonym i64 = "64 word"

section \<open>Data\<close>

record rule_record =
  rec_id :: "u8 list"
  int_fields :: "i64 list"
  str_fields :: "u8 list list"

record condition =
  cond_type :: u32
  cond_field :: u32
  compare_op :: u32
  int_value :: i64
  str_value :: "u8 list"

record rule =
  conditions :: "condition list"
  combine :: u32

record agg_def =
  agg_type :: u32
  agg_field :: u32
  filter_rule :: u32

record rule_result =
  matching_count :: u32
  flagged_ids :: "u8 list list"

record agg_result =
  agg_value :: i64
  agg_count :: u32

type_synonym rule_input = "rule_record list \<times> rule list \<times> agg_def list"

text \<open>\<open>RuleEngineOutput\<close> of the port.\<close>

record rule_output =
  total_records :: u32
  rule_results :: "rule_result list"
  agg_results :: "agg_result list"
  ro_input_hash :: "u8 list"

section \<open>The readers of the input\<close>

definition read_vec_i64 :: "i64 list wreader" where
  "read_vec_i64 = wr_vec 8 read_u64_val"

definition read_vec_u8 :: "u8 list wreader" where
  "read_vec_u8 = wr_vec 1 read_byte"

definition read_record :: "rule_record wreader" where
  "read_record =
     wr_bind read_byte_array_32 (\<lambda>i. wr_bind read_vec_i64 (\<lambda>ints. wr_bind (wr_vec 12 read_vec_u8) (\<lambda>strs.
     wr_ret \<lparr>rec_id = i, int_fields = ints, str_fields = strs\<rparr>)))"

definition read_condition :: "condition wreader" where
  "read_condition =
     wr_bind read_word (\<lambda>ct. wr_bind read_word (\<lambda>fi. wr_bind read_word (\<lambda>op.
     wr_bind read_u64_val (\<lambda>iv. wr_bind read_vec_u8 (\<lambda>sv.
     wr_ret \<lparr>cond_type = ct, cond_field = fi, compare_op = op, int_value = iv, str_value = sv\<rparr>)))))"

definition read_rule :: "rule wreader" where
  "read_rule =
     wr_bind (wr_vec 32 read_condition) (\<lambda>cs. wr_bind read_word (\<lambda>cb. wr_ret \<lparr>conditions = cs, combine = cb\<rparr>))"

definition read_agg :: "agg_def wreader" where
  "read_agg =
     wr_bind read_word (\<lambda>ty. wr_bind read_word (\<lambda>fi. wr_bind read_word (\<lambda>fr.
     wr_ret \<lparr>agg_type = ty, agg_field = fi, filter_rule = fr\<rparr>)))"

definition read_rule_input :: "rule_input wreader" where
  "read_rule_input =
     wr_bind (wr_vec 56 read_record) (\<lambda>rs. wr_bind (wr_vec 16 read_rule) (\<lambda>rules.
     wr_bind (wr_vec 12 read_agg) (\<lambda>aggs. wr_ret (rs, rules, aggs))))"

section \<open>Conditions, rules, aggregations\<close>

definition evaluate_condition :: "condition \<Rightarrow> rule_record \<Rightarrow> bool" where
  "evaluate_condition cond r =
     (let idx = unat (cond_field cond)
      in if cond_type cond = 0
         then if idx \<ge> length (int_fields r) then False
              else let val = int_fields r ! idx; op = compare_op cond; v = int_value cond
                   in if op = 0 then val = v
                      else if op = 1 then val \<noteq> v
                      else if op = 2 then sint val > sint v
                      else if op = 3 then sint val \<ge> sint v
                      else if op = 4 then sint val < sint v
                      else if op = 5 then sint val \<le> sint v
                      else False
         else if cond_type cond \<in> {1, 2, 3, 4, 5}
         then if idx \<ge> length (str_fields r) then False
              else let s = str_fields r ! idx; v = str_value cond
                   in if cond_type cond = 1 then s = v
                      else if cond_type cond = 2 then bytes_contains s v
                      else if cond_type cond = 3 then prefix v s
                      else if cond_type cond = 4 then suffix v s
                      else glob_match v s
         else False)"

fun all_loop :: "condition list \<Rightarrow> rule_record \<Rightarrow> bool" where
  "all_loop [] r = True"
| "all_loop (c # cs) r = (if \<not> evaluate_condition c r then False else all_loop cs r)"

fun any_loop :: "condition list \<Rightarrow> rule_record \<Rightarrow> bool" where
  "any_loop [] r = False"
| "any_loop (c # cs) r = (if evaluate_condition c r then True else any_loop cs r)"

definition evaluate_rule :: "rule \<Rightarrow> rule_record \<Rightarrow> bool" where
  "evaluate_rule rule r =
     (if conditions rule = [] then False
      else if combine rule = 0 then all_loop (conditions rule) r
      else any_loop (conditions rule) r)"

record agg_state =
  st_count :: u32
  st_sum :: i64
  st_min :: i64
  st_max :: i64

definition i64_max :: i64 where "i64_max = 0x7FFFFFFFFFFFFFFF"
definition i64_min :: i64 where "i64_min = 0x8000000000000000"

text \<open>One record of the loop; \<open>skip\<close> is the \<open>continue\<close> of the filter, which may panic on the row of another rule.\<close>

definition agg_filtered :: "agg_def \<Rightarrow> bool list list \<Rightarrow> nat \<Rightarrow> bool res" where
  "agg_filtered agg rule_matches i =
     (if filter_rule agg \<noteq> 0xFFFFFFFF
      then let rule_idx = unat (filter_rule agg)
           in if rule_idx \<ge> length rule_matches then Inr True
              else rmap Not (idx (rule_matches ! rule_idx) i)
      else Inr False)"

definition agg_step :: "agg_def \<Rightarrow> rule_record \<Rightarrow> agg_state \<Rightarrow> agg_state" where
  "agg_step agg r st =
     (let st = st\<lparr>st_count := st_count st + 1\<rparr>; field_idx = unat (agg_field agg)
      in if agg_type agg \<noteq> 0 \<and> field_idx < length (int_fields r)
         then let val = int_fields r ! field_idx; st = st\<lparr>st_sum := st_sum st + val\<rparr>;
                  st = (if sint val < sint (st_min st) then st\<lparr>st_min := val\<rparr> else st)
              in if sint val > sint (st_max st) then st\<lparr>st_max := val\<rparr> else st
         else st)"

definition compute_aggregation :: "agg_def \<Rightarrow> rule_record list \<Rightarrow> bool list list \<Rightarrow> agg_result res" where
  "compute_aggregation agg records rule_matches =
     rbind (rfold (\<lambda>(i, r) st. rbind (agg_filtered agg rule_matches i) (\<lambda>skip.
                     if skip then Inr st else Inr (agg_step agg r st)))
              (enumerate 0 records) \<lparr>st_count = 0, st_sum = 0, st_min = i64_max, st_max = i64_min\<rparr>) (\<lambda>st.
     let value = (if agg_type agg = 0 then ucast (st_count st)
                  else if agg_type agg = 1 then st_sum st
                  else if agg_type agg = 2 then if st_count st = 0 then 0 else st_min st
                  else if agg_type agg = 3 then if st_count st = 0 then 0 else st_max st
                  else 0)
     in Inr \<lparr>agg_value = value, agg_count = st_count st\<rparr>)"

section \<open>The hash of the input\<close>

definition record_preimage :: "rule_record \<Rightarrow> u8 list" where
  "record_preimage r =
     rec_id r @ concat (map u64_le (int_fields r)) @ concat (map (\<lambda>f. len_le f @ f) (str_fields r))"

definition rule_preimage :: "rule \<Rightarrow> u8 list" where
  "rule_preimage rule =
     u32_le (combine rule)
     @ concat (map (\<lambda>c. u32_le (cond_type c) @ u32_le (cond_field c) @ u32_le (compare_op c) @ u64_le (int_value c)
                         @ len_le (str_value c) @ str_value c) (conditions rule))"

definition compute_input_hash :: "(u8 list \<Rightarrow> u8 list) \<Rightarrow> rule_input \<Rightarrow> u8 list" where
  "compute_input_hash sha256 inp =
     (case inp of (records, rules, aggs) \<Rightarrow>
        sha256 (concat (map record_preimage records) @ concat (map rule_preimage rules)
          @ concat (map (\<lambda>a. u32_le (agg_type a) @ u32_le (agg_field a) @ u32_le (filter_rule a)) aggs)))"

section \<open>The entry points\<close>

text \<open>The inner loop of \<open>main\<close> over the records, for one rule.\<close>

definition rule_pass :: "rule \<Rightarrow> rule_record list \<Rightarrow> (rule_result \<times> bool list) res" where
  "rule_pass rule records =
     rbind (guest_alloc 1 (length records)) (\<lambda>_.
     let (n, ids, ms) = fold (\<lambda>r (n, ids, ms).
             let matched = evaluate_rule rule r; ms = ms @ [matched]
             in if matched then (n + 1, ids @ [rec_id r], ms) else (n, ids, ms)) records (0, [], [])
      in Inr (\<lparr>matching_count = n, flagged_ids = ids\<rparr>, ms))"

text \<open>The body of \<open>main\<close> between input and output, which the port has in the same words.\<close>

definition run_rule_engine :: "(u8 list \<Rightarrow> u8 list) \<Rightarrow> rule_input \<Rightarrow> rule_output res" where
  "run_rule_engine sha256 inp =
     (case inp of (records, rules, aggs) \<Rightarrow>
        let h = compute_input_hash sha256 inp
        in rbind (guest_alloc 16 (length rules)) (\<lambda>_. rbind (guest_alloc 12 (length rules)) (\<lambda>_.
           rbind (rfold (\<lambda>rule out. rbind (rule_pass rule records) (\<lambda>p. Inr (out @ [p]))) rules []) (\<lambda>passes.
           rbind (guest_alloc 16 (length aggs)) (\<lambda>_.
           rbind (rfold (\<lambda>agg out. rbind (compute_aggregation agg records (map snd passes)) (\<lambda>a. Inr (out @ [a]))) aggs []) (\<lambda>ars.
           Inr \<lparr>total_records = of_nat (length records), rule_results = map fst passes, agg_results = ars, ro_input_hash = h\<rparr>))))))"

definition rule_result_words :: "rule_result \<Rightarrow> u32 list" where
  "rule_result_words r = matching_count r # vec_words byte_words (flagged_ids r)"

definition agg_result_words :: "agg_result \<Rightarrow> u32 list" where
  "agg_result_words a = u64_words (agg_value a) @ [agg_count a]"

text \<open>\<open>commit_output\<close>: the words, and their number, for which the journal is allocated. (The sum wraps at \<open>2 ^ 32\<close>; then the
  vector grows while it is filled and panics when it exceeds \<open>2 ^ 31\<close> bytes, which is the same panic.)\<close>

definition rule_output_words :: "rule_output \<Rightarrow> u32 list" where
  "rule_output_words out =
     total_records out # vec_words rule_result_words (rule_results out) @ vec_words agg_result_words (agg_results out)
     @ byte_words (ro_input_hash out)"

definition word_count :: "rule_output \<Rightarrow> nat" where
  "word_count out = 35 + sum_list (map (\<lambda>r. 2 + length (flagged_ids r) * 32) (rule_results out)) + length (agg_results out) * 3"

definition commit_output :: "rule_output \<Rightarrow> u32 list res" where
  "commit_output out = rbind (guest_alloc 4 (word_count out)) (\<lambda>_. Inr (rule_output_words out))"

definition rule_engine_main :: "(u8 list \<Rightarrow> u8 list) \<Rightarrow> u32 list \<Rightarrow> u32 list res" where
  "rule_engine_main sha256 ws =
     rbind (read_rule_input ws) (\<lambda>(inp, _). rbind (run_rule_engine sha256 inp) commit_output)"

section \<open>Rules\<close>

lemma all_loop_iff: "all_loop cs r \<longleftrightarrow> (\<forall>c \<in> set cs. evaluate_condition c r)"
  by (induction cs) auto

lemma any_loop_iff: "any_loop cs r \<longleftrightarrow> (\<exists>c \<in> set cs. evaluate_condition c r)"
  by (induction cs) auto

text \<open>What a condition means: six relations on the integers, and five on the strings.\<close>

definition int_relations :: "(int \<Rightarrow> int \<Rightarrow> bool) list" where
  "int_relations = [(=), (\<noteq>), (>), (\<ge>), (<), (\<le>)]"

definition str_relations :: "(u8 list \<Rightarrow> u8 list \<Rightarrow> bool) list" where
  "str_relations = [(=), \<lambda>s v. sublist v s, \<lambda>s v. \<exists>u. s = v @ u, \<lambda>s v. \<exists>u. s = u @ v, \<lambda>s v. glob v s]"

definition condition_holds :: "condition \<Rightarrow> rule_record \<Rightarrow> bool" where
  "condition_holds c r \<longleftrightarrow>
     cond_type c = 0 \<and> unat (compare_op c) < 6 \<and> unat (cond_field c) < length (int_fields r)
       \<and> (int_relations ! unat (compare_op c)) (sint (int_fields r ! unat (cond_field c))) (sint (int_value c))
   \<or> unat (cond_type c) \<in> {1..5} \<and> unat (cond_field c) < length (str_fields r)
       \<and> (str_relations ! (unat (cond_type c) - 1)) (str_fields r ! unat (cond_field c)) (str_value c)"

definition rule_holds :: "rule \<Rightarrow> rule_record \<Rightarrow> bool" where
  "rule_holds rule r \<longleftrightarrow> conditions rule \<noteq> [] \<and>
     (if combine rule = 0 then \<forall>c \<in> set (conditions rule). condition_holds c r else \<exists>c \<in> set (conditions rule). condition_holds c r)"

text \<open>The pattern matcher misses matches on texts with a \<open>*\<close> (byte 42).\<close>

definition no_stars :: "rule list \<Rightarrow> rule_record list \<Rightarrow> bool" where
  "no_stars rules records \<longleftrightarrow>
     (\<forall>rule \<in> set rules. \<forall>c \<in> set (conditions rule). cond_type c \<noteq> 5) \<or> (\<forall>r \<in> set records. \<forall>s \<in> set (str_fields r). 42 \<notin> set s)"

lemma small_words: "unat w = 0 \<longleftrightarrow> w = 0" "unat w = 1 \<longleftrightarrow> w = 1" "unat w = 2 \<longleftrightarrow> w = 2" "unat w = 3 \<longleftrightarrow> w = 3" "unat w = 4 \<longleftrightarrow> w = 4"
    "unat w = 5 \<longleftrightarrow> w = 5" for w :: u32
  by (simp_all add: word_unat_eq_iff)

lemma less_6_cases: "n < 6 \<longleftrightarrow> n = 0 \<or> n = 1 \<or> n = 2 \<or> n = 3 \<or> n = 4 \<or> n = (5 :: nat)"
  by auto

lemma int_condition:
  assumes "cond_type c = 0"
  shows "evaluate_condition c r \<longleftrightarrow> condition_holds c r"
proof (cases "unat (compare_op c) < 6")
  case True
  then show ?thesis using assms unfolding less_6_cases small_words
    by (elim disjE) (auto simp: evaluate_condition_def condition_holds_def int_relations_def Let_def signed_word_eqI not_le)
next
  case False
  then have "compare_op c \<notin> {0, 1, 2, 3, 4, 5}" by auto
  then show ?thesis using False assms by (auto simp: evaluate_condition_def condition_holds_def Let_def)
qed

lemma str_condition:
  assumes "cond_type c \<noteq> 0" "cond_type c = 5 \<longrightarrow> (\<forall>s \<in> set (str_fields r). 42 \<notin> set s)"
  shows "evaluate_condition c r \<longleftrightarrow> condition_holds c r"
proof (cases "unat (cond_type c) < 6")
  case True
  then consider "cond_type c = 1" | "cond_type c = 2" | "cond_type c = 3" | "cond_type c = 4" | "cond_type c = 5"
    using assms(1) unfolding less_6_cases small_words by blast
  then show ?thesis using assms(2)
    by cases (auto simp: evaluate_condition_def condition_holds_def str_relations_def Let_def not_le bytes_contains_iff
        prefix_def suffix_def glob_match_complete)
next
  case False
  then have "cond_type c \<notin> {0, 1, 2, 3, 4, 5}" by auto
  then show ?thesis using False by (auto simp: evaluate_condition_def condition_holds_def Let_def)
qed

theorem evaluate_rule_holds:
  assumes "no_stars rules records" "rule \<in> set rules" "r \<in> set records"
  shows "evaluate_rule rule r \<longleftrightarrow> rule_holds rule r"
proof -
  have "evaluate_condition c r \<longleftrightarrow> condition_holds c r" if "c \<in> set (conditions rule)" for c
    using int_condition [of c r] str_condition [of c r] assms that by (auto simp: no_stars_def)
  then show ?thesis by (simp add: evaluate_rule_def all_loop_iff any_loop_iff rule_holds_def)
qed

lemma rule_pass_eq:
  assumes "length records < 2 ^ 31"
  shows "rule_pass rule records =
     Inr (\<lparr>matching_count = of_nat (length (filter (evaluate_rule rule) records)),
       flagged_ids = map rec_id (filter (evaluate_rule rule) records)\<rparr>, map (evaluate_rule rule) records)"
proof -
  have "fold (\<lambda>r (n, ids, ms). let m = evaluate_rule rule r; ms = ms @ [m]
             in if m then (n + 1, ids @ [rec_id r], ms) else (n, ids, ms)) records (n, ids, ms) =
      (n + of_nat (length (filter (evaluate_rule rule) records)),
       ids @ map rec_id (filter (evaluate_rule rule) records), ms @ map (evaluate_rule rule) records)" for n :: u32 and ids ms
    by (induction records arbitrary: n ids ms) (simp_all add: Let_def)
  from this [of 0 "[]" "[]"] show ?thesis using assms by (simp add: rule_pass_def guest_alloc_def)
qed

section \<open>Aggregations\<close>

text \<open>The records that an aggregation covers, the values of the field in those that have it, and the result. (The
  minimum and the maximum start from the extreme values of the type, which are the result when records are covered but
  none of them has the field.)\<close>

definition selected :: "agg_def \<Rightarrow> rule list \<Rightarrow> rule_record list \<Rightarrow> rule_record list" where
  "selected agg rules records =
     (if filter_rule agg = 0xFFFFFFFF then records
      else if unat (filter_rule agg) < length rules then filter (evaluate_rule (rules ! unat (filter_rule agg))) records
      else [])"

definition field_values :: "agg_def \<Rightarrow> rule_record list \<Rightarrow> int list" where
  "field_values agg rs =
     map (\<lambda>r. sint (int_fields r ! unat (agg_field agg))) (filter (\<lambda>r. unat (agg_field agg) < length (int_fields r)) rs)"

definition agg_spec :: "agg_def \<Rightarrow> rule_record list \<Rightarrow> agg_result" where
  "agg_spec agg rs =
     (let vs = field_values agg rs
      in \<lparr>agg_value =
            (if agg_type agg = 0 then of_nat (length rs)
             else if agg_type agg = 1 then of_int (sum_list vs)
             else if agg_type agg = 2 then if rs = [] then 0 else of_int (fold min vs (2 ^ 63 - 1))
             else if agg_type agg = 3 then if rs = [] then 0 else of_int (fold max vs (- (2 ^ 63)))
             else 0),
          agg_count = of_nat (length rs)\<rparr>)"

lemma fold_agg_step_count: "st_count (fold (agg_step agg) rs st) = st_count st + of_nat (length rs)"
  by (induction rs arbitrary: st) (simp_all add: agg_step_def Let_def)

lemma fold_agg_step:
  assumes "agg_type agg \<noteq> 0"
  shows "st_sum (fold (agg_step agg) rs st) = st_sum st + of_int (sum_list (field_values agg rs))
    \<and> sint (st_min (fold (agg_step agg) rs st)) = fold min (field_values agg rs) (sint (st_min st))
    \<and> sint (st_max (fold (agg_step agg) rs st)) = fold max (field_values agg rs) (sint (st_max st))"
  using assms
proof (induction rs arbitrary: st)
  case Nil
  then show ?case by (simp add: field_values_def)
next
  case (Cons r rs)
  show ?case using Cons.IH [OF Cons.prems, of "agg_step agg r st"] Cons.prems
    by (auto simp: field_values_def agg_step_def Let_def min_def max_def)
qed

lemma agg_filtered_eq:
  assumes "i < length records"
  shows "agg_filtered agg (map (\<lambda>rule. map (evaluate_rule rule) records) rules) i =
    Inr (\<not> (filter_rule agg = 0xFFFFFFFF \<or> (unat (filter_rule agg) < length rules
      \<and> evaluate_rule (rules ! unat (filter_rule agg)) (records ! i))))"
  using assms by (auto simp: agg_filtered_def Let_def idx_def)

lemma rfold_filter:
  assumes "\<And>i. i < length xs \<Longrightarrow> skips (n + i) = Inr (\<not> keep (xs ! i))"
  shows "rfold (\<lambda>(i, x) s. rbind (skips i) (\<lambda>b. if b then Inr s else Inr (f x s))) (enumerate n xs) s =
    Inr (fold f (filter keep xs) s)"
  using assms
proof (induction xs arbitrary: n s)
  case Nil
  then show ?case by simp
next
  case (Cons x xs)
  have "skips n = Inr (\<not> keep x)" using Cons.prems [of 0] by simp
  moreover have "skips (Suc n + i) = Inr (\<not> keep (xs ! i))" if "i < length xs" for i
    using Cons.prems [of "Suc i"] that by simp
  ultimately show ?case using Cons.IH [of "Suc n"] by simp
qed

theorem compute_aggregation_spec:
  assumes "length records < 2 ^ 31"
  shows "compute_aggregation agg records (map (\<lambda>rule. map (evaluate_rule rule) records) rules) =
    Inr (agg_spec agg (selected agg rules records))"
proof -
  let ?keep = "\<lambda>r. filter_rule agg = 0xFFFFFFFF \<or> (unat (filter_rule agg) < length rules
      \<and> evaluate_rule (rules ! unat (filter_rule agg)) r)"
  let ?rm = "map (\<lambda>rule. map (evaluate_rule rule) records) rules"
  let ?st = "\<lparr>st_count = 0, st_sum = 0, st_min = i64_max, st_max = i64_min\<rparr>"
  let ?sel = "selected agg rules records" and ?vs = "field_values agg (selected agg rules records)"
  let ?F = "fold (agg_step agg) ?sel ?st"
  have sel: "filter ?keep records = ?sel" by (auto simp: selected_def)
  have loop: "rfold (\<lambda>(i, r) st. rbind (agg_filtered agg ?rm i) (\<lambda>skip. if skip then Inr st else Inr (agg_step agg r st)))
      (enumerate 0 records) ?st = Inr (fold (agg_step agg) ?sel ?st)"
    unfolding sel [symmetric] by (rule rfold_filter) (use agg_filtered_eq [of _ records agg rules] in simp)
  have "length ?sel \<le> length records" by (simp add: selected_def)
  then have len: "length ?sel < 2 ^ 31" using assms by simp
  have count: "st_count (fold (agg_step agg) ?sel ?st) = of_nat (length ?sel)" by (simp add: fold_agg_step_count)
  have zero: "(of_nat (length ?sel) :: u32) = 0 \<longleftrightarrow> ?sel = []"
    using len by (simp add: word_unat_eq_iff unat_of_nat)
  have "take_bit 64 (length ?sel) = length ?sel" using len by (intro take_bit_nat_eq_self) simp
  then have cast: "ucast (of_nat (length ?sel) :: u32) = (of_nat (length ?sel) :: i64)"
    using len by (simp add: word_unat_eq_iff unsigned_ucast_eq unat_of_nat)
  have ext: "sint i64_max = 2 ^ 63 - 1" "sint i64_min = - (2 ^ 63)" by (simp_all add: i64_max_def i64_min_def)
  have vals: "st_sum ?F = of_int (sum_list ?vs)" "st_min ?F = of_int (fold min ?vs (2 ^ 63 - 1))"
      "st_max ?F = of_int (fold max ?vs (- (2 ^ 63)))" if "agg_type agg \<noteq> 0"
  proof -
    note f = fold_agg_step [OF that, of ?sel ?st, unfolded agg_state.select_convs ext]
    show "st_sum ?F = of_int (sum_list ?vs)" using f by simp
    have "st_min ?F = of_int (sint (st_min ?F))" "st_max ?F = of_int (sint (st_max ?F))" by simp_all
    then show "st_min ?F = of_int (fold min ?vs (2 ^ 63 - 1))" "st_max ?F = of_int (fold max ?vs (- (2 ^ 63)))"
      using f by metis+
  qed
  show ?thesis unfolding compute_aggregation_def loop
    by (cases "agg_type agg = 0") (simp_all add: agg_spec_def Let_def count zero cast vals)
qed

section \<open>The words of the input\<close>

definition str_words :: "u8 list \<Rightarrow> u32 list" where
  "str_words = vec_words (\<lambda>b. [ucast b])"

definition record_words :: "rule_record \<Rightarrow> u32 list" where
  "record_words r = byte_words (rec_id r) @ vec_words u64_words (int_fields r) @ vec_words str_words (str_fields r)"

definition condition_words :: "condition \<Rightarrow> u32 list" where
  "condition_words c = cond_type c # cond_field c # compare_op c # u64_words (int_value c) @ str_words (str_value c)"

definition rule_words :: "rule \<Rightarrow> u32 list" where
  "rule_words r = vec_words condition_words (conditions r) @ [combine r]"

definition agg_words :: "agg_def \<Rightarrow> u32 list" where
  "agg_words a = [agg_type a, agg_field a, filter_rule a]"

definition rule_input_words :: "rule_input \<Rightarrow> u32 list" where
  "rule_input_words inp =
     (case inp of (records, rules, aggs) \<Rightarrow>
        vec_words record_words records @ vec_words rule_words rules @ vec_words agg_words aggs)"

text \<open>What fits into the memory of a guest.\<close>

definition record_ok :: "rule_record \<Rightarrow> bool" where
  "record_ok r \<longleftrightarrow> length (rec_id r) = 32 \<and> 8 * length (int_fields r) < 2 ^ 31 \<and> 12 * length (str_fields r) < 2 ^ 31
     \<and> list_all (\<lambda>s. length s < 2 ^ 31) (str_fields r)"

definition rule_ok :: "rule \<Rightarrow> bool" where
  "rule_ok r \<longleftrightarrow> 32 * length (conditions r) < 2 ^ 31 \<and> list_all (\<lambda>c. length (str_value c) < 2 ^ 31) (conditions r)"

definition rule_input_ok :: "rule_input \<Rightarrow> bool" where
  "rule_input_ok inp \<longleftrightarrow>
     (case inp of (records, rules, aggs) \<Rightarrow>
        56 * length records < 2 ^ 31 \<and> list_all record_ok records \<and> 16 * length rules < 2 ^ 31 \<and> list_all rule_ok rules
        \<and> 16 * length aggs < 2 ^ 31)"

lemma wreads_str: "length s < 2 ^ 31 \<Longrightarrow> wreads read_vec_u8 (str_words s) s"
  unfolding read_vec_u8_def str_words_def by (rule byte_codec.reads_vec) (simp_all add: list_all_iff)

interpretation str_codec: word_codec "\<lambda>s. length s < 2 ^ 31" str_words read_vec_u8
  by unfold_locales (rule wreads_str)

interpretation record_codec: word_codec record_ok record_words read_record
proof
  fix r assume ok: "record_ok r"
  show "wreads read_record (record_words r) r"
    unfolding read_record_def record_words_def read_vec_i64_def
    by (intro wreads_bind [OF wreads_byte_array] wreads_bind [OF u64_codec_w.reads_vec] wreads_last [OF str_codec.reads_vec])
      (use ok in \<open>auto simp: record_ok_def list_all_iff\<close>)
qed

interpretation condition_codec: word_codec "\<lambda>c. length (str_value c) < 2 ^ 31" condition_words read_condition
proof
  fix c :: condition assume len: "length (str_value c) < 2 ^ 31"
  show "wreads read_condition (condition_words c) c"
    unfolding read_condition_def condition_words_def
    by (intro wreads_bind_Cons [OF wreads_word] wreads_bind [OF wreads_u64] wreads_last [OF wreads_str [OF len]]) simp
qed

interpretation rule_codec: word_codec rule_ok rule_words read_rule
proof
  fix r assume ok: "rule_ok r"
  show "wreads read_rule (rule_words r) r"
    unfolding read_rule_def rule_words_def
    by (intro wreads_bind [OF condition_codec.reads_vec] wreads_last [OF wreads_word]) (use ok in \<open>simp_all add: rule_ok_def\<close>)
qed

interpretation agg_codec: word_codec "\<lambda>_. True" agg_words read_agg
  by unfold_locales (simp add: wreads_def read_agg_def agg_words_def wr_bind_def wr_ret_def read_word_def)

theorem wreads_rule_input:
  assumes "rule_input_ok inp"
  shows "wreads read_rule_input (rule_input_words inp) inp"
proof -
  obtain records rules aggs where inp: "inp = (records, rules, aggs)" by (cases inp)
  show ?thesis unfolding read_rule_input_def inp rule_input_words_def prod.case
    by (intro wreads_bind [OF record_codec.reads_vec] wreads_bind [OF rule_codec.reads_vec] wreads_last [OF agg_codec.reads_vec])
      (use assms inp in \<open>auto simp: rule_input_ok_def list_all_iff\<close>)
qed

section \<open>The journal\<close>

text \<open>The result that the engine is meant to compute: the records that an aggregation covers, the bytes that are hashed.\<close>

definition covered :: "agg_def \<Rightarrow> rule list \<Rightarrow> rule_record list \<Rightarrow> rule_record list" where
  "covered agg rules records =
     (if filter_rule agg = - 1 then records
      else if unat (filter_rule agg) < length rules then filter (rule_holds (rules ! unat (filter_rule agg))) records
      else [])"

definition string_bytes :: "u8 list \<Rightarrow> u8 list" where
  "string_bytes s = le_bytes 4 (length s) @ s"

definition record_bytes :: "rule_record \<Rightarrow> u8 list" where
  "record_bytes r = rec_id r @ concat (map (\<lambda>v. le_bytes 8 (unat v)) (int_fields r)) @ concat (map string_bytes (str_fields r))"

definition condition_bytes :: "condition \<Rightarrow> u8 list" where
  "condition_bytes c =
     concat (map (\<lambda>w. le_bytes 4 (unat w)) [cond_type c, cond_field c, compare_op c]) @ le_bytes 8 (unat (int_value c)) @ string_bytes (str_value c)"

definition rule_input_bytes :: "rule_input \<Rightarrow> u8 list" where
  "rule_input_bytes inp =
     (case inp of (records, rules, aggs) \<Rightarrow>
        concat (map record_bytes records)
        @ concat (map (\<lambda>rule. le_bytes 4 (unat (combine rule)) @ concat (map condition_bytes (conditions rule))) rules)
        @ concat (map (\<lambda>a. concat (map (\<lambda>w. le_bytes 4 (unat w)) [agg_type a, agg_field a, filter_rule a])) aggs))"

definition rule_spec :: "(u8 list \<Rightarrow> u8 list) \<Rightarrow> rule_input \<Rightarrow> rule_output" where
  "rule_spec sha256 inp =
     (case inp of (records, rules, aggs) \<Rightarrow>
        \<lparr>total_records = of_nat (length records),
         rule_results = map (\<lambda>rule. let hits = filter (rule_holds rule) records
           in \<lparr>matching_count = of_nat (length hits), flagged_ids = map rec_id hits\<rparr>) rules,
         agg_results = map (\<lambda>a. agg_spec a (covered a rules records)) aggs,
         ro_input_hash = sha256 (rule_input_bytes inp)\<rparr>)"

lemma len_le_string: "length s < 2 ^ 31 \<Longrightarrow> len_le s @ s = string_bytes s"
  by (simp add: string_bytes_def le_bytes_length)

lemma compute_input_hash_spec:
  assumes "rule_input_ok inp"
  shows "compute_input_hash sha256 inp = sha256 (rule_input_bytes inp)"
proof -
  obtain records rules aggs where inp: "inp = (records, rules, aggs)" by (cases inp)
  have "record_preimage r = record_bytes r" if "r \<in> set records" for r
  proof -
    have strs: "map (\<lambda>f. len_le f @ f) (str_fields r) = map string_bytes (str_fields r)"
      using assms that inp by (auto simp: rule_input_ok_def record_ok_def list_all_iff len_le_string)
    have ints: "map u64_le (int_fields r) = map (\<lambda>v. le_bytes 8 (unat v)) (int_fields r)" by (simp add: le_bytes_words)
    show ?thesis unfolding record_preimage_def record_bytes_def strs ints ..
  qed
  moreover have "rule_preimage rule = le_bytes 4 (unat (combine rule)) @ concat (map condition_bytes (conditions rule))" if "rule \<in> set rules" for rule
  proof -
    have conds: "map (\<lambda>c. u32_le (cond_type c) @ u32_le (cond_field c) @ u32_le (compare_op c) @ u64_le (int_value c) @ len_le (str_value c) @ str_value c)
        (conditions rule) = map condition_bytes (conditions rule)"
      using assms that inp by (auto simp: rule_input_ok_def rule_ok_def list_all_iff condition_bytes_def le_bytes_words len_le_string)
    show ?thesis unfolding rule_preimage_def conds by (simp add: le_bytes_words)
  qed
  ultimately have "map record_preimage records = map record_bytes records"
    "map rule_preimage rules = map (\<lambda>rule. le_bytes 4 (unat (combine rule)) @ concat (map condition_bytes (conditions rule))) rules" by simp_all
  then show ?thesis by (simp add: compute_input_hash_def rule_input_bytes_def inp le_bytes_words del: map_eq_conv)
qed

lemma rfold_snoc: "(\<And>x. x \<in> set xs \<Longrightarrow> f x = Inr (g x)) \<Longrightarrow>
    rfold (\<lambda>x out. rbind (f x) (\<lambda>y. Inr (out @ [y]))) xs out = Inr (out @ map g xs)"
  by (induction xs arbitrary: out) simp_all

theorem run_rule_engine_spec:
  assumes "rule_input_ok inp" "no_stars (fst (snd inp)) (fst inp)"
  shows "run_rule_engine sha256 inp = Inr (rule_spec sha256 inp)"
proof -
  obtain records rules aggs where inp: "inp = (records, rules, aggs)" by (cases inp)
  have sizes: "length records < 2 ^ 31" "16 * length rules < 2 ^ 31" "16 * length aggs < 2 ^ 31"
    using assms(1) inp by (simp_all add: rule_input_ok_def)
  have holds: "filter (evaluate_rule rule) records = filter (rule_holds rule) records" if "rule \<in> set rules" for rule
    using evaluate_rule_holds [of rules records rule] assms(2) inp that by (intro filter_cong) simp_all
  define pass where "pass rule = (\<lparr>matching_count = of_nat (length (filter (evaluate_rule rule) records)),
       flagged_ids = map rec_id (filter (evaluate_rule rule) records)\<rparr>, map (evaluate_rule rule) records)" for rule
  have passes: "rfold (\<lambda>rule out. rbind (rule_pass rule records) (\<lambda>p. Inr (out @ [p]))) rules [] = Inr (map pass rules)"
    using rfold_snoc [of rules "\<lambda>rule. rule_pass rule records" pass "[]"] by (simp add: rule_pass_eq [OF sizes(1)] pass_def)
  have snds: "map snd (map pass rules) = map (\<lambda>rule. map (evaluate_rule rule) records) rules" by (simp add: pass_def)
  have cov: "selected a rules records = covered a rules records" for a
    using holds by (simp add: selected_def covered_def)
  have aggs: "rfold (\<lambda>agg out. rbind (compute_aggregation agg records (map (\<lambda>rule. map (evaluate_rule rule) records) rules)) (\<lambda>a. Inr (out @ [a]))) aggs []
      = Inr (map (\<lambda>a. agg_spec a (covered a rules records)) aggs)"
    using rfold_snoc [of aggs "\<lambda>agg. compute_aggregation agg records (map (\<lambda>rule. map (evaluate_rule rule) records) rules)"
        "\<lambda>a. agg_spec a (covered a rules records)" "[]"] by (simp add: compute_aggregation_spec [OF sizes(1)] cov)
  have "map fst (map pass rules) = map (\<lambda>rule. let hits = filter (rule_holds rule) records
           in \<lparr>matching_count = of_nat (length hits), flagged_ids = map rec_id hits\<rparr>) rules" by (simp add: pass_def holds Let_def)
  with passes snds aggs sizes show ?thesis
    unfolding inp run_rule_engine_def rule_spec_def prod.case Let_def compute_input_hash_spec [OF assms(1) [unfolded inp]]
    by (simp add: guest_alloc_def del: map_map map_eq_conv)
qed

text \<open>The journal in the format of the guest, read back.\<close>

definition read_rule_result :: "rule_result wreader" where
  "read_rule_result =
     wr_bind read_word (\<lambda>n. wr_bind (wr_vec 32 read_byte_array_32) (\<lambda>ids. wr_ret \<lparr>matching_count = n, flagged_ids = ids\<rparr>))"

definition read_agg_result :: "agg_result wreader" where
  "read_agg_result = wr_bind read_u64_val (\<lambda>v. wr_bind read_word (\<lambda>n. wr_ret \<lparr>agg_value = v, agg_count = n\<rparr>))"

definition read_rule_output :: "rule_output wreader" where
  "read_rule_output =
     wr_bind read_word (\<lambda>n. wr_bind (wr_vec 16 read_rule_result) (\<lambda>rs. wr_bind (wr_vec 12 read_agg_result) (\<lambda>as.
     wr_bind read_byte_array_32 (\<lambda>h.
     wr_ret \<lparr>total_records = n, rule_results = rs, agg_results = as, ro_input_hash = h\<rparr>))))"

definition result_ok :: "rule_result \<Rightarrow> bool" where
  "result_ok r \<longleftrightarrow> 32 * length (flagged_ids r) < 2 ^ 31 \<and> list_all (\<lambda>i. length i = 32) (flagged_ids r)"

interpretation result_codec: word_codec result_ok rule_result_words read_rule_result
proof
  fix r assume ok: "result_ok r"
  show "wreads read_rule_result (rule_result_words r) r"
    unfolding read_rule_result_def rule_result_words_def 
    by (intro wreads_bind_Cons [OF wreads_word] wreads_last [OF id_codec.reads_vec]) (use ok in \<open>simp_all add: result_ok_def\<close>)
qed

interpretation agg_result_codec: word_codec "\<lambda>_. True" agg_result_words read_agg_result
proof
  fix a :: agg_result
  show "wreads read_agg_result (agg_result_words a) a"
    unfolding read_agg_result_def agg_result_words_def by (intro wreads_bind [OF wreads_u64] wreads_last [OF wreads_word]) simp
qed

lemma wreads_rule_output:
  assumes "16 * length (rule_results out) < 2 ^ 31" "list_all result_ok (rule_results out)"
    and "12 * length (agg_results out) < 2 ^ 31" "length (ro_input_hash out) = 32"
  shows "wreads read_rule_output (rule_output_words out) out"
  unfolding read_rule_output_def rule_output_words_def
  by (intro wreads_bind_Cons [OF wreads_word] wreads_bind [OF result_codec.reads_vec] wreads_bind [OF agg_result_codec.reads_vec]
      wreads_last [OF wreads_byte_array])
      (use assms in \<open>simp_all add: list_all_iff\<close>)

text \<open>The journal is written when its words fit into memory.\<close>

theorem rule_engine_main_eq:
  assumes "rule_input_ok inp" "no_stars (fst (snd inp)) (fst inp)"
  shows "rule_engine_main sha256 (rule_input_words inp @ rest) =
    (if 4 * word_count (rule_spec sha256 inp) < 2 ^ 31 then Inr (rule_output_words (rule_spec sha256 inp)) else rpanic Capacity_Overflow)"
proof -
  have "read_rule_input (rule_input_words inp @ rest) = Inr (inp, rest)"
    using wreads_rule_input [OF assms(1)] by (simp add: wreads_def)
  then show ?thesis by (simp add: rule_engine_main_def run_rule_engine_spec [OF assms] commit_output_def guest_alloc_def)
qed

lemma rule_journal_reads:
  assumes "rule_input_ok inp" "\<And>m. length (sha256 m) = 32"
  shows "read_rule_output (rule_output_words (rule_spec sha256 inp)) = Inr (rule_spec sha256 inp, [])"
proof -
  obtain records rules aggs where inp: "inp = (records, rules, aggs)" by (cases inp)
  let ?out = "rule_spec sha256 inp"
  have small: "56 * length records < 2 ^ 31" "list_all record_ok records" using assms(1) inp by (simp_all add: rule_input_ok_def)
  have "result_ok r" if "r \<in> set (rule_results ?out)" for r
  proof -
    from that inp obtain rule where r: "flagged_ids r = map rec_id (filter (rule_holds rule) records)"
      by (auto simp: rule_spec_def Let_def)
    have "length (flagged_ids r) \<le> length records" by (simp add: r)
    then have "32 * length (flagged_ids r) < 2 ^ 31" using small(1) by simp
    moreover have "list_all (\<lambda>i. length i = 32) (flagged_ids r)"
      using small(2) by (auto simp: r record_ok_def list_all_iff)
    ultimately show ?thesis by (simp add: result_ok_def)
  qed
  then have "wreads read_rule_output (rule_output_words ?out) ?out"
    using assms inp by (intro wreads_rule_output) (auto simp: rule_spec_def rule_input_ok_def list_all_iff)
  then show ?thesis unfolding wreads_def by (metis append_Nil2)
qed

section \<open>What the hash does not bind\<close>

text \<open>Integer fields are hashed without their number, so that an integer field can stand for a string field: the value 4
  has the bytes of the length 4 and of four zero bytes.\<close>

definition amb_rule :: rule where
  "amb_rule = \<lparr>conditions = [\<lparr>cond_type = 0, cond_field = 0, compare_op = 0, int_value = 4, str_value = []\<rparr>], combine = 0\<rparr>"

definition amb_int :: "u8 list \<Rightarrow> rule_input" where
  "amb_int i = ([\<lparr>rec_id = i, int_fields = [4], str_fields = []\<rparr>], [amb_rule], [])"

definition amb_str :: "u8 list \<Rightarrow> rule_input" where
  "amb_str i = ([\<lparr>rec_id = i, int_fields = [], str_fields = [[0, 0, 0, 0]]\<rparr>], [amb_rule], [])"

lemma amb_hash: "rule_input_bytes (amb_int i) = rule_input_bytes (amb_str i)"
proof -
  have "le_bytes 8 (unat (4 :: i64)) = string_bytes [0, 0, 0, 0]"
    by (simp add: le_bytes_def string_bytes_def upt_rec)
  then show ?thesis by (simp add: rule_input_bytes_def amb_int_def amb_str_def record_bytes_def)
qed

lemma amb_results:
  "map flagged_ids (rule_results (rule_spec sha256 (amb_int i))) = [[i]]"
  "map flagged_ids (rule_results (rule_spec sha256 (amb_str i))) = [[]]"
  by (simp_all add: rule_spec_def amb_int_def amb_str_def amb_rule_def Let_def rule_holds_def condition_holds_def int_relations_def)

lemma amb_fits:
  "no_stars (fst (snd (amb_int i))) (fst (amb_int i))" "no_stars (fst (snd (amb_str i))) (fst (amb_str i))"
  "4 * word_count (rule_spec sha256 (amb_int i)) < 2 ^ 31" "4 * word_count (rule_spec sha256 (amb_str i)) < 2 ^ 31"
  by (simp_all add: no_stars_def amb_int_def amb_str_def amb_rule_def word_count_def rule_spec_def Let_def)

lemma amb_ok: "length i = 32 \<Longrightarrow> rule_input_ok (amb_int i) \<and> rule_input_ok (amb_str i)"
  by (simp add: rule_input_ok_def amb_int_def amb_str_def amb_rule_def record_ok_def rule_ok_def)

lemma amb_journal:
  assumes "length i = 32" "\<And>m. length (sha256 m) = 32" "inp \<in> {amb_int i, amb_str i}"
  shows "\<exists>j. rule_engine_main sha256 (rule_input_words inp) = Inr j \<and> read_rule_output j = Inr (rule_spec sha256 inp, [])"
proof -
  have ok: "rule_input_ok inp" using amb_ok [OF assms(1)] assms(3) by auto
  have "no_stars (fst (snd inp)) (fst inp)" "4 * word_count (rule_spec sha256 inp) < 2 ^ 31"
    using amb_fits(1,2) [of i] amb_fits(3,4) [of sha256 i] assms(3) by auto
  then show ?thesis using rule_engine_main_eq [OF ok, of sha256 "[]"] rule_journal_reads [OF ok, of sha256] assms(2) by simp
qed

end
