(* ===== verification/Xgb_Guest.thy ===== *)
theory Xgb_Guest
  imports Guest_Wire
begin

text \<open>
  The XGBoost guest (\<open>examples/xgboost-inference/methods/guest/src/main.rs\<close>): it reads a model, samples and a threshold,
  scores every sample and commits the predictions, the ids of the flagged samples and a hash of the input.

  A number of type \<open>f64\<close> is its 64 bits, as on the wire; the floating-point operations are arguments (\<open>guest_f64\<close>), and
  so is SHA-256. The loop of \<open>traverse_tree\<close> is bounded by the number of nodes.
\<close>

section \<open>Data\<close>

record guest_f64 =
  g_add :: "u64 \<Rightarrow> u64 \<Rightarrow> u64"
  g_lt :: "u64 \<Rightarrow> u64 \<Rightarrow> bool"
  g_ge :: "u64 \<Rightarrow> u64 \<Rightarrow> bool"

record xg_node =
  is_leaf :: u32
  feature_idx :: u32
  node_threshold :: u64
  left_child :: u32
  right_child :: u32
  leaf_value :: u64

type_synonym xg_tree = "xg_node list"

record xg_model =
  xg_num_features :: u32
  xg_num_classes :: u32
  xg_base_score :: u64
  xg_trees :: "xg_tree list"

record xg_sample =
  sample_id :: "u8 list"
  sample_features :: "u64 list"

record xg_prediction =
  pred_id :: "u8 list"
  pred_score :: u64
  pred_flagged :: u32

type_synonym xg_input = "xg_model \<times> xg_sample list \<times> u64"

text \<open>What is committed, \<open>XGBoostOutput\<close> of the prover.\<close>

record xg_output =
  total_samples :: u32
  predictions :: "xg_prediction list"
  flagged_count :: u32
  flagged_samples :: "u8 list list"
  xg_input_hash :: "u8 list"

section \<open>The reader of the input\<close>

definition read_node :: "xg_node wreader" where
  "read_node =
     wr_bind read_word (\<lambda>lf. wr_bind read_word (\<lambda>fi. wr_bind read_u64_val (\<lambda>th.
     wr_bind read_word (\<lambda>lc. wr_bind read_word (\<lambda>rc. wr_bind read_u64_val (\<lambda>v.
     wr_ret \<lparr>is_leaf = lf, feature_idx = fi, node_threshold = th, left_child = lc, right_child = rc, leaf_value = v\<rparr>))))))"

definition read_model :: "xg_model wreader" where
  "read_model =
     wr_bind read_word (\<lambda>nf. wr_bind read_word (\<lambda>nc. wr_bind read_u64_val (\<lambda>bs.
     wr_bind (wr_vec 12 (wr_vec 32 read_node)) (\<lambda>ts.
     wr_ret \<lparr>xg_num_features = nf, xg_num_classes = nc, xg_base_score = bs, xg_trees = ts\<rparr>))))"

definition read_sample :: "xg_sample wreader" where
  "read_sample =
     wr_bind read_byte_array_32 (\<lambda>i. wr_bind (wr_vec 8 read_u64_val) (\<lambda>fs.
     wr_ret \<lparr>sample_id = i, sample_features = fs\<rparr>))"

definition read_xg_input :: "xg_input wreader" where
  "read_xg_input =
     wr_bind read_model (\<lambda>m. wr_bind (wr_vec 44 read_sample) (\<lambda>ss. wr_bind read_u64_val (\<lambda>th. wr_ret (m, ss, th))))"

section \<open>Prediction\<close>

fun xg_walk :: "guest_f64 \<Rightarrow> xg_tree \<Rightarrow> u64 list \<Rightarrow> nat \<Rightarrow> u32 \<Rightarrow> u64" where
  "xg_walk ops nodes features 0 node_idx = 0"
| "xg_walk ops nodes features (Suc n) node_idx =
     (if unat node_idx \<ge> length nodes then 0
      else let node = nodes ! unat node_idx
           in if is_leaf node = 1 then leaf_value node
              else let feat_idx = unat (feature_idx node);
                       feat_val = (if feat_idx < length features then features ! feat_idx else 0)
                   in if g_lt ops feat_val (node_threshold node)
                      then xg_walk ops nodes features n (left_child node)
                      else xg_walk ops nodes features n (right_child node))"

definition xg_traverse_tree :: "guest_f64 \<Rightarrow> xg_tree \<Rightarrow> u64 list \<Rightarrow> u64" where
  "xg_traverse_tree ops nodes features = (if nodes = [] then 0 else xg_walk ops nodes features (length nodes) 0)"

definition predict_sample :: "guest_f64 \<Rightarrow> xg_model \<Rightarrow> xg_sample \<Rightarrow> u64" where
  "predict_sample ops model s =
     fold (\<lambda>tree score. g_add ops score (xg_traverse_tree ops tree (sample_features s))) (xg_trees model) (xg_base_score model)"

definition model_preimage :: "xg_model \<Rightarrow> u8 list" where
  "model_preimage m =
     u32_le (xg_num_features m) @ u32_le (xg_num_classes m) @ u64_le (xg_base_score m)
     @ concat (map (\<lambda>tree. len_le tree @ concat (map (\<lambda>n. u32_le (is_leaf n) @ u32_le (feature_idx n) @ u64_le (node_threshold n)
         @ u32_le (left_child n) @ u32_le (right_child n) @ u64_le (leaf_value n)) tree)) (xg_trees m))"

definition xg_compute_input_hash :: "(u8 list \<Rightarrow> u8 list) \<Rightarrow> xg_input \<Rightarrow> u8 list" where
  "xg_compute_input_hash sha256 inp =
     (case inp of (m, ss, th) \<Rightarrow>
        sha256 (model_preimage m @ concat (map (\<lambda>s. sample_id s @ concat (map u64_le (sample_features s))) ss) @ u64_le th))"

section \<open>The entry point\<close>

definition xg_run :: "(u8 list \<Rightarrow> u8 list) \<Rightarrow> guest_f64 \<Rightarrow> xg_input \<Rightarrow> xg_output" where
  "xg_run sha256 ops inp =
     (case inp of (m, ss, th) \<Rightarrow>
        let h = xg_compute_input_hash sha256 inp;
            (preds, n, ids) = fold (\<lambda>s (preds, n, ids).
              let score = predict_sample ops m s;
                  flagged = (if g_ge ops score th then 1 else 0);
                  (n, ids) = (if flagged = 1 then (n + 1, ids @ [sample_id s]) else (n, ids))
              in (preds @ [\<lparr>pred_id = sample_id s, pred_score = score, pred_flagged = flagged\<rparr>], n, ids)) ss ([], 0, [])
        in \<lparr>total_samples = of_nat (length ss), predictions = preds, flagged_count = n, flagged_samples = ids, xg_input_hash = h\<rparr>)"

definition push_f64 :: "u64 \<Rightarrow> u32 list" where
  "push_f64 bits = [ucast bits, ucast (drop_bit 32 bits)]"

definition prediction_words :: "xg_prediction \<Rightarrow> u32 list" where
  "prediction_words p = byte_words (pred_id p) @ push_f64 (pred_score p) @ [pred_flagged p]"

definition xg_output_words :: "xg_output \<Rightarrow> u32 list" where
  "xg_output_words out =
     total_samples out # vec_words prediction_words (predictions out)
     @ flagged_count out # vec_words byte_words (flagged_samples out) @ byte_words (xg_input_hash out)"

text \<open>\<open>commit_output\<close> allocates the journal; the predictions are allocated before the loop over the samples.\<close>

definition xg_commit_output :: "xg_output \<Rightarrow> u32 list res" where
  "xg_commit_output out =
     rbind (guest_alloc 4 (1 + 1 + length (predictions out) * 35 + 1 + 1 + length (flagged_samples out) * 32 + 32)) (\<lambda>_.
     Inr (xg_output_words out))"

definition xg_main :: "(u8 list \<Rightarrow> u8 list) \<Rightarrow> guest_f64 \<Rightarrow> u32 list \<Rightarrow> u32 list res" where
  "xg_main sha256 ops ws =
     rbind (read_xg_input ws) (\<lambda>(inp, _).
     rbind (guest_alloc 48 (length (fst (snd inp)))) (\<lambda>_. xg_commit_output (xg_run sha256 ops inp)))"

section \<open>The words of the input\<close>

definition node_words :: "xg_node \<Rightarrow> u32 list" where
  "node_words n = is_leaf n # feature_idx n # u64_words (node_threshold n) @ left_child n # right_child n # u64_words (leaf_value n)"

definition model_words :: "xg_model \<Rightarrow> u32 list" where
  "model_words m = xg_num_features m # xg_num_classes m # u64_words (xg_base_score m) @ vec_words (vec_words node_words) (xg_trees m)"

definition sample_words :: "xg_sample \<Rightarrow> u32 list" where
  "sample_words s = byte_words (sample_id s) @ vec_words u64_words (sample_features s)"

definition xg_input_words :: "xg_input \<Rightarrow> u32 list" where
  "xg_input_words inp = (case inp of (m, ss, th) \<Rightarrow> model_words m @ vec_words sample_words ss @ u64_words th)"

definition tree_fits :: "xg_tree \<Rightarrow> bool" where
  "tree_fits t \<longleftrightarrow> 32 * length t < 2 ^ 31"

definition model_fits :: "xg_model \<Rightarrow> bool" where
  "model_fits m \<longleftrightarrow> 12 * length (xg_trees m) < 2 ^ 31 \<and> list_all tree_fits (xg_trees m)"

definition sample_fits :: "xg_sample \<Rightarrow> bool" where
  "sample_fits s \<longleftrightarrow> length (sample_id s) = 32 \<and> 8 * length (sample_features s) < 2 ^ 31"

text \<open>The samples, and a journal in which each of them is flagged, fit into memory.\<close>

definition xg_input_fits :: "xg_input \<Rightarrow> bool" where
  "xg_input_fits inp \<longleftrightarrow>
     (case inp of (m, ss, th) \<Rightarrow> model_fits m \<and> 4 * (36 + 67 * length ss) < 2 ^ 31 \<and> list_all sample_fits ss)"

interpretation node_codec: word_codec "\<lambda>_. True" node_words read_node
proof
  fix n
  show "wreads read_node (node_words n) n"
    unfolding read_node_def node_words_def
    by (intro wreads_bind_Cons [OF wreads_word] wreads_bind [OF wreads_u64] wreads_last [OF wreads_u64]) simp
qed

interpretation tree_codec: word_codec tree_fits "vec_words node_words" "wr_vec 32 read_node"
  by unfold_locales (simp add: tree_fits_def node_codec.reads_vec list_all_iff)

lemma wreads_model: "model_fits m \<Longrightarrow> wreads read_model (model_words m) m"
  unfolding read_model_def model_words_def
  by (intro wreads_bind_Cons [OF wreads_word] wreads_bind [OF wreads_u64] wreads_last [OF tree_codec.reads_vec])
    (simp_all add: model_fits_def)

interpretation sample_codec: word_codec sample_fits sample_words read_sample
proof
  fix s assume "sample_fits s"
  then show "wreads read_sample (sample_words s) s"
    unfolding read_sample_def sample_words_def
    by (intro wreads_bind [OF wreads_byte_array] wreads_last [OF u64_codec_w.reads_vec])
      (simp_all add: sample_fits_def list_all_iff)
qed

lemma wreads_xg_input: "xg_input_fits inp \<Longrightarrow> wreads read_xg_input (xg_input_words inp) inp"
  by (cases inp)
    (auto simp: read_xg_input_def xg_input_words_def xg_input_fits_def
      intro!: wreads_bind [OF wreads_model] wreads_bind [OF sample_codec.reads_vec] wreads_last [OF wreads_u64])

section \<open>The result\<close>

definition flags :: "guest_f64 \<Rightarrow> xg_model \<Rightarrow> u64 \<Rightarrow> xg_sample \<Rightarrow> bool" where
  "flags ops m th s \<longleftrightarrow> g_ge ops (predict_sample ops m s) th"

definition prediction_of :: "guest_f64 \<Rightarrow> xg_model \<Rightarrow> u64 \<Rightarrow> xg_sample \<Rightarrow> xg_prediction" where
  "prediction_of ops m th s =
     \<lparr>pred_id = sample_id s, pred_score = predict_sample ops m s, pred_flagged = (if flags ops m th s then 1 else 0)\<rparr>"

lemma xg_run_eq:
  "xg_run sha256 ops (m, ss, th) =
     \<lparr>total_samples = of_nat (length ss), predictions = map (prediction_of ops m th) ss,
      flagged_count = of_nat (length (filter (flags ops m th) ss)), flagged_samples = map sample_id (filter (flags ops m th) ss),
      xg_input_hash = xg_compute_input_hash sha256 (m, ss, th)\<rparr>"
proof -
  have "fold (\<lambda>s (preds, n, ids).
              let score = predict_sample ops m s;
                  flagged = (if g_ge ops score th then 1 else 0);
                  (n, ids) = (if flagged = 1 then (n + 1, ids @ [sample_id s]) else (n, ids))
              in (preds @ [\<lparr>pred_id = sample_id s, pred_score = score, pred_flagged = flagged\<rparr>], n, ids)) ss (preds, n, ids)
      = (preds @ map (prediction_of ops m th) ss, n + of_nat (length (filter (flags ops m th) ss)),
         ids @ map sample_id (filter (flags ops m th) ss))" for preds and n :: u32 and ids
    by (induction ss arbitrary: preds n ids) (simp_all add: Let_def flags_def prediction_of_def)
  from this [of "[]" 0 "[]"] show ?thesis by (simp add: xg_run_def Let_def)
qed

lemma xg_main_run:
  assumes "xg_input_fits inp"
  shows "xg_main sha256 ops (xg_input_words inp @ rest) = Inr (xg_output_words (xg_run sha256 ops inp))"
proof -
  obtain m ss th where inp: "inp = (m, ss, th)" by (cases inp)
  have n: "4 * (36 + 67 * length ss) < 2 ^ 31" using assms inp by (simp add: xg_input_fits_def)
  let ?out = "xg_run sha256 ops inp"
  have "length (flagged_samples ?out) \<le> length ss" "length (predictions ?out) = length ss" by (simp_all add: inp xg_run_eq)
  then have "4 * (1 + 1 + length (predictions ?out) * 35 + 1 + 1 + length (flagged_samples ?out) * 32 + 32) < 2 ^ 31"
    "48 * length ss < 2 ^ 31" using n by simp_all
  then show ?thesis
    using wreads_xg_input [OF assms] by (simp add: xg_main_def wreads_def xg_commit_output_def guest_alloc_def inp)
qed

section \<open>Trees\<close>

text \<open>A decision tree and when an array of nodes holds it below an index: then the walk finds its leaf, within as many
  steps as the tree is high.\<close>

datatype xtree = XLeaf u64 | XSplit u32 u64 xtree xtree

fun xeval :: "guest_f64 \<Rightarrow> u64 list \<Rightarrow> xtree \<Rightarrow> u64" where
  "xeval ops fs (XLeaf v) = v"
| "xeval ops fs (XSplit f th l r) =
     (if g_lt ops (if unat f < length fs then fs ! unat f else 0) th then xeval ops fs l else xeval ops fs r)"

fun holds :: "xg_tree \<Rightarrow> u32 \<Rightarrow> xtree \<Rightarrow> bool" where
  "holds nodes i (XLeaf v) \<longleftrightarrow> unat i < length nodes \<and> is_leaf (nodes ! unat i) = 1 \<and> leaf_value (nodes ! unat i) = v"
| "holds nodes i (XSplit f th l r) \<longleftrightarrow> unat i < length nodes
     \<and> (let n = nodes ! unat i in is_leaf n \<noteq> 1 \<and> feature_idx n = f \<and> node_threshold n = th
          \<and> holds nodes (left_child n) l \<and> holds nodes (right_child n) r)"

fun xheight :: "xtree \<Rightarrow> nat" where
  "xheight (XLeaf v) = 1"
| "xheight (XSplit f th l r) = Suc (max (xheight l) (xheight r))"

lemma xg_walk_eval: "holds nodes i t \<Longrightarrow> xheight t \<le> n \<Longrightarrow> xg_walk ops nodes fs n i = xeval ops fs t"
proof (induction t arbitrary: i n)
  case (XLeaf v)
  then show ?case by (cases n) (simp_all add: Let_def)
next
  case (XSplit f th l r)
  then obtain k where "n = Suc k" "xheight l \<le> k" "xheight r \<le> k" by (cases n) auto
  then show ?case using XSplit by (auto simp: Let_def)
qed

text \<open>The indices on a path of a tree that an array holds do not repeat, so that the array is as long as the tree is high.\<close>

lemma holds_functional: "holds nodes i t \<Longrightarrow> holds nodes i u \<Longrightarrow> t = u"
proof (induction t arbitrary: i u)
  case (XLeaf v)
  then show ?case by (cases u) (auto simp: Let_def)
next
  case (XSplit f th l r)
  then show ?case by (cases u) (auto simp: Let_def)
qed

fun subtrees :: "xtree \<Rightarrow> xtree set" where
  "subtrees (XLeaf v) = {XLeaf v}"
| "subtrees (XSplit f th l r) = insert (XSplit f th l r) (subtrees l \<union> subtrees r)"

lemma finite_subtrees: "finite (subtrees t)" by (induction t) simp_all

lemma subtrees_size: "u \<in> subtrees t \<Longrightarrow> size u \<le> size t" by (induction t) auto

lemma subtrees_self: "t \<in> subtrees t" by (cases t) simp_all

lemma xheight_le_subtrees: "xheight t \<le> card (subtrees t)"
proof (induction t)
  case (XLeaf v)
  then show ?case by simp
next
  case (XSplit f th l r)
  have "XSplit f th l r \<notin> subtrees l \<union> subtrees r" using subtrees_size by fastforce
  then have "card (subtrees (XSplit f th l r)) = Suc (card (subtrees l \<union> subtrees r))" by (simp add: finite_subtrees)
  moreover have "card (subtrees l) \<le> card (subtrees l \<union> subtrees r)" "card (subtrees r) \<le> card (subtrees l \<union> subtrees r)"
    by (simp_all add: card_mono finite_subtrees)
  ultimately show ?case using XSplit by simp
qed

lemma holds_subtrees: "holds nodes i t \<Longrightarrow> u \<in> subtrees t \<Longrightarrow> \<exists>j. unat j < length nodes \<and> holds nodes j u"
  by (induction t arbitrary: i) (auto simp: Let_def)

lemma holds_height:
  assumes "holds nodes i t"
  shows "xheight t \<le> length nodes"
proof -
  define at where "at u = (SOME j. unat j < length nodes \<and> holds nodes j u)" for u
  have at: "unat (at u) < length nodes" "holds nodes (at u) u" if "u \<in> subtrees t" for u
    using someI_ex [OF holds_subtrees [OF assms that]] by (simp_all add: at_def)
  have "inj_on (\<lambda>u. unat (at u)) (subtrees t)"
    by (rule inj_onI) (metis at(2) holds_functional word_unat_eq_iff)
  moreover have "(\<lambda>u. unat (at u)) ` subtrees t \<subseteq> {..<length nodes}" using at(1) by auto
  ultimately have "card (subtrees t) \<le> length nodes" by (metis card_inj_on_le card_lessThan finite_lessThan)
  then show ?thesis using xheight_le_subtrees [of t] by simp
qed

theorem xg_traverse_tree_eval:
  assumes "holds nodes 0 t"
  shows "xg_traverse_tree ops nodes fs = xeval ops fs t"
proof -
  have "nodes \<noteq> []" using assms by (cases t) auto
  then show ?thesis using xg_walk_eval [OF assms holds_height [OF assms]] by (simp add: xg_traverse_tree_def)
qed

end
