(* ===== verification/Sample_Split.thy ===== *)
theory Sample_Split
  imports Xgb_Guest
begin

text \<open>
  Decomposed proving (\<open>prover/src/input_decomposer.rs\<close>, \<open>xgboost_decomp.rs\<close>, \<open>recursive_wrapper.rs\<close>, and the choice of the
  submitted proof in \<open>monitor.rs\<close>): the samples of an XGBoost input are split into chunks, each chunk is proved on its own,
  and the journals are merged.

  \<^item> The trait \<open>DecompositionStrategy\<close> is the record \<open>strategy\<close>; \<open>xg_strategy\<close> is the one implementation. The locale
    \<open>lossless_strategy\<close> is what the decomposer relies on.
  \<^item> The serialiser of RISC Zero (\<open>serde_ops\<close>) and its prover are arguments. \<open>serde_ok\<close> and \<open>proves\<close> state their
    documented behaviour: values travel in the word format that the guest reads, and the journal of a proof is what the
    guest commits.
  \<^item> The tasks of the sub-proofs are awaited in their order, so that the first error in that order is returned.
\<close>

section \<open>Errors, serialisation\<close>

datatype decomp_error =
    Risc0_Serialize string
  | Risc0_Deserialize string
  | Not_Aligned nat
  | No_Samples
  | Decomp_Panic panic
  | Not_Suitable nat bool
  | One_Sub_Job
  | Sub_Job string
  | No_Receipts
  | Too_Many nat nat
  | Wrapper_Failed string

definition words_bytes :: "u32 list \<Rightarrow> u8 list" where
  "words_bytes ws = concat (map u32_le ws)"

definition risc0_serialize :: "('a \<Rightarrow> string + u32 list) \<Rightarrow> 'a \<Rightarrow> decomp_error + u8 list" where
  "risc0_serialize to_vec v = (case to_vec v of Inl e \<Rightarrow> Inl (Risc0_Serialize e) | Inr ws \<Rightarrow> Inr (words_bytes ws))"

definition risc0_deserialize :: "(u8 list \<Rightarrow> string + 'a) \<Rightarrow> u8 list \<Rightarrow> decomp_error + 'a" where
  "risc0_deserialize from_slice bytes =
     (if length bytes mod 4 \<noteq> 0 then Inl (Not_Aligned (length bytes))
      else case from_slice bytes of Inl e \<Rightarrow> Inl (Risc0_Deserialize e) | Inr v \<Rightarrow> Inr v)"

record serde_ops =
  in_to_vec :: "xg_input \<Rightarrow> string + u32 list"
  in_from_slice :: "u8 list \<Rightarrow> string + xg_input"
  out_to_vec :: "xg_output \<Rightarrow> string + u32 list"
  out_from_slice :: "u8 list \<Rightarrow> string + xg_output"

section \<open>The XGBoost strategy\<close>

record strategy =
  can_decompose :: "u8 list \<Rightarrow> bool"
  item_count :: "u8 list \<Rightarrow> decomp_error + nat"
  split_input :: "u8 list \<Rightarrow> nat \<Rightarrow> decomp_error + u8 list list"
  merge_journals :: "u8 list list \<Rightarrow> decomp_error + u8 list"
  estimate_cycles :: "u8 list \<Rightarrow> u64 option"

definition try_parse :: "serde_ops \<Rightarrow> u8 list \<Rightarrow> decomp_error + xg_input" where
  "try_parse sd input = risc0_deserialize (in_from_slice sd) input"

definition xg_can_decompose :: "serde_ops \<Rightarrow> u8 list \<Rightarrow> bool" where
  "xg_can_decompose sd input = (case try_parse sd input of Inr (m, ss, th) \<Rightarrow> length ss > 1 | Inl _ \<Rightarrow> False)"

definition xg_item_count :: "serde_ops \<Rightarrow> u8 list \<Rightarrow> decomp_error + nat" where
  "xg_item_count sd input = rbind (try_parse sd input) (\<lambda>(m, ss, th). Inr (length ss))"

text \<open>One iteration of the loop over the chunks; the state is \<open>offset\<close> and \<open>sub_inputs\<close>.\<close>

definition split_step ::
  "serde_ops \<Rightarrow> xg_input \<Rightarrow> nat \<Rightarrow> nat \<Rightarrow> nat \<Rightarrow> nat \<times> u8 list list \<Rightarrow> decomp_error + nat \<times> u8 list list" where
  "split_step sd parsed base_size remainder i st =
     (case (parsed, st) of ((m, ss, th), (offset, sub_inputs)) \<Rightarrow>
        let this_chunk = base_size + (if i < remainder then 1 else 0)
        in if offset + this_chunk > length ss then Inl (Decomp_Panic Slice_Out_Of_Bounds)
           else rbind (risc0_serialize (in_to_vec sd) (m, take this_chunk (drop offset ss), th)) (\<lambda>serialized.
                Inr (offset + this_chunk, sub_inputs @ [serialized])))"

definition xg_split :: "serde_ops \<Rightarrow> u8 list \<Rightarrow> nat \<Rightarrow> decomp_error + u8 list list" where
  "xg_split sd input n =
     rbind (try_parse sd input) (\<lambda>parsed.
     let total = length (fst (snd parsed))
     in if total = 0 then Inl No_Samples
        else let chunk_count = min n total
             in if chunk_count = 0 then Inl (Decomp_Panic (Explicit_Panic ''attempt to divide by zero''))
                else rbind (rfold (split_step sd parsed (total div chunk_count) (total mod chunk_count)) [0..<chunk_count] (0, []))
                  (\<lambda>(_, sub_inputs). Inr sub_inputs))"

definition zero_hash :: "u8 list" where
  "zero_hash = replicate 32 0"

definition merge_step :: "serde_ops \<Rightarrow> u8 list \<Rightarrow> xg_output \<Rightarrow> decomp_error + xg_output" where
  "merge_step sd journal acc =
     rbind (risc0_deserialize (out_from_slice sd) journal) (\<lambda>out.
     Inr (acc\<lparr>total_samples := total_samples acc + total_samples out, predictions := predictions acc @ predictions out,
              flagged_samples := flagged_samples acc @ flagged_samples out,
              xg_input_hash := (if xg_input_hash acc = zero_hash then xg_input_hash out else xg_input_hash acc)\<rparr>))"

definition xg_merge_journals :: "serde_ops \<Rightarrow> u8 list list \<Rightarrow> decomp_error + u8 list" where
  "xg_merge_journals sd journals =
     rbind (rfold (merge_step sd) journals
              \<lparr>total_samples = 0, predictions = [], flagged_count = 0, flagged_samples = [], xg_input_hash = zero_hash\<rparr>) (\<lambda>acc.
     risc0_serialize (out_to_vec sd) (acc\<lparr>flagged_count := of_nat (length (flagged_samples acc))\<rparr>))"

definition xg_estimate_cycles :: "serde_ops \<Rightarrow> u8 list \<Rightarrow> u64 option" where
  "xg_estimate_cycles sd input =
     (case try_parse sd input of
        Inr (m, ss, th) \<Rightarrow> Some (of_nat (length ss) * of_nat (length (xg_trees m)) * 1000 + 5000000)
      | Inl _ \<Rightarrow> None)"

definition xg_strategy :: "serde_ops \<Rightarrow> strategy" where
  "xg_strategy sd =
     \<lparr>can_decompose = xg_can_decompose sd, item_count = xg_item_count sd, split_input = xg_split sd,
      merge_journals = xg_merge_journals sd, estimate_cycles = xg_estimate_cycles sd\<rparr>"

section \<open>The decomposer\<close>

record decomposer_config =
  min_input_size :: nat
  max_sub_jobs :: nat
  target_cycles_per_job :: u64

definition decomposer_default :: decomposer_config where
  "decomposer_default = \<lparr>min_input_size = 4096, max_sub_jobs = 16, target_cycles_per_job = 20000000\<rparr>"

text \<open>\<open>sqrt_ceil\<close> is the square root of an \<open>f64\<close>, rounded up, which is used when the strategy has no estimate.\<close>

definition plan_split :: "decomposer_config \<Rightarrow> (nat \<Rightarrow> nat) \<Rightarrow> strategy \<Rightarrow> u8 list \<Rightarrow> decomp_error + nat" where
  "plan_split cfg sqrt_ceil strat input =
     rbind (item_count strat input) (\<lambda>items.
     rbind (case estimate_cycles strat input of
              Some est \<Rightarrow> if target_cycles_per_job cfg = 0 then Inl (Decomp_Panic (Explicit_Panic ''attempt to divide by zero''))
                          else Inr (unat (max (est div target_cycles_per_job cfg) 1))
            | None \<Rightarrow> Inr (max (sqrt_ceil items) 2)) (\<lambda>n.
     Inr (max (min (min n (max_sub_jobs cfg)) items) 1)))"

record 'r sub_proof =
  sub_receipt :: 'r
  sub_seal :: "u8 list"
  sub_journal :: "u8 list"

record 'r decomp_result =
  receipts :: "'r list"
  seals :: "u8 list list"
  journals :: "u8 list list"
  merged_journal :: "u8 list"
  sub_job_count :: nat

definition prove_decomposed_with_receipts ::
  "decomposer_config \<Rightarrow> (nat \<Rightarrow> nat) \<Rightarrow> (u8 list \<Rightarrow> string + 'r sub_proof) \<Rightarrow> strategy \<Rightarrow> u8 list
   \<Rightarrow> decomp_error + 'r decomp_result" where
  "prove_decomposed_with_receipts cfg sqrt_ceil prove strat input =
     (if length input < min_input_size cfg \<or> \<not> can_decompose strat input
      then Inl (Not_Suitable (length input) (can_decompose strat input))
      else rbind (plan_split cfg sqrt_ceil strat input) (\<lambda>n.
           if n \<le> 1 then Inl One_Sub_Job
           else rbind (split_input strat input n) (\<lambda>sub_inputs.
                rbind (rfold (\<lambda>sub_input out. case prove sub_input of
                                Inl e \<Rightarrow> Inl (Sub_Job e) | Inr r \<Rightarrow> Inr (out @ [r])) sub_inputs []) (\<lambda>results.
                rbind (merge_journals strat (map sub_journal results)) (\<lambda>merged.
                Inr \<lparr>receipts = map sub_receipt results, seals = map sub_seal results, journals = map sub_journal results,
                     merged_journal = merged, sub_job_count = n\<rparr>)))))"

section \<open>The wrapper and the submitted proof\<close>

record wrap_result =
  wrapper_seal :: "u8 list"
  wrapper_journal :: "u8 list"
  wrap_merged_journal :: "u8 list"
  first_sub_seal :: "u8 list"
  first_sub_journal :: "u8 list"

record 'r receipt_ops =
  extract_seal :: "'r \<Rightarrow> string + u8 list"
  journal_bytes :: "'r \<Rightarrow> u8 list"

definition wrapper_err :: "string + 'a \<Rightarrow> decomp_error + 'a" where
  "wrapper_err r = (case r of Inl e \<Rightarrow> Inl (Wrapper_Failed e) | Inr x \<Rightarrow> Inr x)"

text \<open>\<open>prove_wrapper\<close> runs the wrapper guest on the journals and the merged journal, with the receipts as assumptions.\<close>

definition recursive_wrap ::
  "'r receipt_ops \<Rightarrow> nat \<Rightarrow> (u8 list list \<Rightarrow> u8 list \<Rightarrow> 'r list \<Rightarrow> string + 'r) \<Rightarrow> strategy \<Rightarrow> 'r list \<Rightarrow> decomp_error + wrap_result" where
  "recursive_wrap ro max_sub_proofs prove_wrapper strat sub_receipts =
     (let sub_count = length sub_receipts
      in if sub_count = 0 then Inl No_Receipts
         else if sub_count > max_sub_proofs then Inl (Too_Many sub_count max_sub_proofs)
         else let sub_journals = map (journal_bytes ro) sub_receipts
              in rbind (wrapper_err (extract_seal ro (sub_receipts ! 0))) (\<lambda>first_seal.
                 rbind (merge_journals strat sub_journals) (\<lambda>merged.
                 rbind (wrapper_err (prove_wrapper sub_journals merged sub_receipts)) (\<lambda>wr.
                 rbind (wrapper_err (extract_seal ro wr)) (\<lambda>wseal.
                 Inr \<lparr>wrapper_seal = wseal, wrapper_journal = journal_bytes ro wr, wrap_merged_journal = merged,
                      first_sub_seal = first_seal, first_sub_journal = sub_journals ! 0\<rparr>)))))"

text \<open>The proof and the journal that a job submits after decomposed proving (\<open>decomp_proof\<close> of \<open>process_job\<close>); \<open>None\<close> goes on
  with a proof of the whole input.\<close>

definition decomp_proof :: "decomp_error + wrap_result \<Rightarrow> 'r decomp_result \<Rightarrow> (u8 list \<times> u8 list) option" where
  "decomp_proof wrapped res =
     (case wrapped of
        Inr w \<Rightarrow> Some (first_sub_seal w, wrap_merged_journal w)
      | Inl e \<Rightarrow> if sub_job_count res = 1
                 then Some (case seals res of [] \<Rightarrow> [] | s # _ \<Rightarrow> s, case journals res of [] \<Rightarrow> [] | j # _ \<Rightarrow> j)
                 else None)"

section \<open>What the decomposer relies on\<close>

text \<open>\<open>guest\<close> is the journal of a proved input and \<open>combined\<close> the meaning of a merged journal.\<close>

locale lossless_strategy =
  fixes strat :: strategy and guest :: "u8 list \<Rightarrow> u8 list option" and valid :: "u8 list \<Rightarrow> bool"
    and combined :: "u8 list \<Rightarrow> nat \<Rightarrow> u8 list \<Rightarrow> bool"
  assumes splits: "valid input \<Longrightarrow> 0 < n \<Longrightarrow>
      \<exists>subs js. split_input strat input n = Inr subs \<and> map guest subs = map Some js
        \<and> (\<exists>j. merge_journals strat js = Inr j \<and> combined input n j)"
    and counts: "valid input \<Longrightarrow> \<exists>k. item_count strat input = Inr k"
begin

definition proves :: "(u8 list \<Rightarrow> string + 'r sub_proof) \<Rightarrow> bool" where
  "proves prove \<longleftrightarrow> (\<forall>s j. guest s = Some j \<longrightarrow> (\<exists>r. prove s = Inr r \<and> sub_journal r = j))"

lemma sub_proofs:
  assumes "proves prove" "map guest subs = map Some js"
  shows "\<exists>rs. rfold (\<lambda>s out. case prove s of Inl e \<Rightarrow> Inl (Sub_Job e) | Inr r \<Rightarrow> Inr (out @ [r])) subs out = Inr (out @ rs)
    \<and> map sub_journal rs = js \<and> (\<forall>p \<in> set rs. \<exists>s. prove s = Inr p)"
  using assms(2)
proof (induction subs arbitrary: js out)
  case Nil
  then show ?case by simp
next
  case (Cons s subs)
  then obtain j js' where js: "js = j # js'" "guest s = Some j" "map guest subs = map Some js'" by (cases js) auto
  then obtain r where r: "prove s = Inr r" "sub_journal r = j" using assms(1) by (auto simp: proves_def)
  from Cons.IH [OF js(3), of "out @ [r]"] obtain rs where
    "rfold (\<lambda>s out. case prove s of Inl e \<Rightarrow> Inl (Sub_Job e) | Inr r \<Rightarrow> Inr (out @ [r])) subs (out @ [r]) = Inr (out @ r # rs)"
    "map sub_journal rs = js'" "\<forall>p \<in> set rs. \<exists>s. prove s = Inr p" by auto
  then show ?case using r js(1) by (intro exI [of _ "r # rs"]) auto
qed

text \<open>Decomposed proving returns a merged journal that stands for the whole input.\<close>

theorem decomposed:
  assumes "proves prove" "valid input" "min_input_size cfg \<le> length input" "can_decompose strat input"
    and "plan_split cfg sqrt_ceil strat input = Inr n" "1 < n"
  shows "\<exists>res. prove_decomposed_with_receipts cfg sqrt_ceil prove strat input = Inr res
    \<and> combined input n (merged_journal res) \<and> sub_job_count res = n
    \<and> (\<exists>subs. split_input strat input n = Inr subs \<and> map guest subs = map Some (journals res))
    \<and> (\<forall>r. (\<forall>s p. prove s = Inr p \<longrightarrow> r (sub_receipt p) = sub_journal p) \<longrightarrow> map r (receipts res) = journals res)"
proof -
  from splits [OF assms(2), of n] assms(6) obtain subs js j where s: "split_input strat input n = Inr subs"
    "map guest subs = map Some js" "merge_journals strat js = Inr j" "combined input n j" by auto
  from sub_proofs [OF assms(1) s(2), of "[]"] obtain rs where rs:
    "rfold (\<lambda>s out. case prove s of Inl e \<Rightarrow> Inl (Sub_Job e) | Inr r \<Rightarrow> Inr (out @ [r])) subs [] = Inr rs"
    "map sub_journal rs = js" "\<forall>p \<in> set rs. \<exists>s. prove s = Inr p" by auto
  then have "map r (map sub_receipt rs) = js" if "\<forall>s p. prove s = Inr p \<longrightarrow> r (sub_receipt p) = sub_journal p" for r
    using that by force
  then show ?thesis using s rs assms(3-6) by (simp add: prove_decomposed_with_receipts_def)
qed

end

section \<open>Chunks\<close>

fun chunks :: "nat list \<Rightarrow> 'a list \<Rightarrow> 'a list list" where
  "chunks [] xs = []"
| "chunks (s # sizes) xs = take s xs # chunks sizes (drop s xs)"

definition chunk_size :: "nat \<Rightarrow> nat \<Rightarrow> nat \<Rightarrow> nat" where
  "chunk_size len k i = len div k + (if i < len mod k then 1 else 0)"

definition sample_chunks :: "nat \<Rightarrow> 'a list \<Rightarrow> 'a list list" where
  "sample_chunks n xs = (let k = min n (length xs) in chunks (map (chunk_size (length xs) k) [0..<k]) xs)"

lemma concat_chunks: "sum_list sizes = length xs \<Longrightarrow> concat (chunks sizes xs) = xs"
proof (induction sizes arbitrary: xs)
  case Nil
  then show ?case by simp
next
  case (Cons s sizes)
  then have "concat (chunks sizes (drop s xs)) = drop s xs" by simp
  then show ?case by simp
qed

lemma length_chunks [simp]: "length (chunks sizes xs) = length sizes"
  by (induction sizes arbitrary: xs) simp_all

lemma chunk_sizes_sum: "sum_list (map (\<lambda>i. b + (if i < r then 1 else 0)) [0..<k]) = k * b + min r k"
  by (induction k) (auto simp: min_def)

lemma sum_chunk_size: "0 < k \<Longrightarrow> sum_list (map (chunk_size len k) [0..<k]) = len"
  using chunk_sizes_sum [of "len div k" "len mod k" k] by (simp add: chunk_size_def [abs_def] min_def)

theorem sample_chunks_laws:
  assumes "0 < n" "xs \<noteq> []"
  shows "concat (sample_chunks n xs) = xs" "length (sample_chunks n xs) = min n (length xs)"
  using assms by (simp_all add: sample_chunks_def Let_def concat_chunks sum_chunk_size)

lemma chunks_nonempty: "sum_list sizes \<le> length xs \<Longrightarrow> c \<in> set (chunks sizes xs) \<Longrightarrow> list_all (\<lambda>s. 0 < s) sizes \<Longrightarrow> c \<noteq> []"
proof (induction sizes arbitrary: xs)
  case Nil
  then show ?case by simp
next
  case (Cons s sizes)
  then show ?case using Cons.IH [of "drop s xs"] by fastforce
qed

lemma sample_chunks_nonempty:
  assumes "0 < n" "xs \<noteq> []" "c \<in> set (sample_chunks n xs)"
  shows "c \<noteq> []"
proof -
  let ?k = "min n (length xs)"
  have k: "0 < ?k" "?k \<le> length xs" using assms by simp_all
  then have "0 < length xs div ?k" by (simp add: div_greater_zero_iff)
  then have "list_all (\<lambda>s. 0 < s) (map (chunk_size (length xs) ?k) [0..<?k])" by (simp add: list_all_iff chunk_size_def)
  then show ?thesis using chunks_nonempty [of "map (chunk_size (length xs) ?k) [0..<?k]" xs c] assms(3) sum_chunk_size [OF k(1), of "length xs"]
    by (simp add: sample_chunks_def Let_def)
qed

section \<open>The XGBoost strategy loses nothing but the hash\<close>

definition xg_output_fits :: "xg_output \<Rightarrow> bool" where
  "xg_output_fits out \<longleftrightarrow> length (predictions out) < 2 ^ 32 \<and> list_all (\<lambda>p. length (pred_id p) = 32) (predictions out)
     \<and> length (flagged_samples out) < 2 ^ 32 \<and> list_all (\<lambda>i. length i = 32) (flagged_samples out)
     \<and> length (xg_input_hash out) = 32"

definition serde_ok :: "serde_ops \<Rightarrow> bool" where
  "serde_ok sd \<longleftrightarrow>
     (\<forall>inp. xg_input_fits inp \<longrightarrow> in_to_vec sd inp = Inr (xg_input_words inp)
        \<and> in_from_slice sd (words_bytes (xg_input_words inp)) = Inr inp)
     \<and> (\<forall>out. xg_output_fits out \<longrightarrow> out_to_vec sd out = Inr (xg_output_words out)
        \<and> out_from_slice sd (words_bytes (xg_output_words out)) = Inr out)"

lemma length_words_bytes: "length (words_bytes ws) = 4 * length ws"
  by (induction ws) (simp_all add: words_bytes_def u32_le_def)

lemma serde_laws:
  assumes "serde_ok sd"
  shows "xg_input_fits inp \<Longrightarrow> risc0_serialize (in_to_vec sd) inp = Inr (words_bytes (xg_input_words inp))"
    and "xg_input_fits inp \<Longrightarrow> try_parse sd (words_bytes (xg_input_words inp)) = Inr inp"
    and "xg_output_fits out \<Longrightarrow> risc0_serialize (out_to_vec sd) out = Inr (words_bytes (xg_output_words out))"
    and "xg_output_fits out \<Longrightarrow> risc0_deserialize (out_from_slice sd) (words_bytes (xg_output_words out)) = Inr out"
  using assms by (simp_all add: serde_ok_def risc0_serialize_def risc0_deserialize_def try_parse_def length_words_bytes del: split_paired_All)

lemma rfold_split:
  assumes "\<And>c. set c \<subseteq> set ss \<Longrightarrow> length c \<le> length ss \<Longrightarrow> risc0_serialize (in_to_vec sd) (m, c, th) = Inr (ser c)"
  shows "off + sum_list (map (\<lambda>i. b + (if i < r then 1 else 0)) is) \<le> length ss \<Longrightarrow>
    rfold (split_step sd (m, ss, th) b r) is (off, out) =
      Inr (off + sum_list (map (\<lambda>i. b + (if i < r then 1 else 0)) is),
           out @ map ser (chunks (map (\<lambda>i. b + (if i < r then 1 else 0)) is) (drop off ss)))"
proof (induction "is" arbitrary: off out)
  case Nil
  then show ?case by simp
next
  case (Cons i "is")
  let ?c = "b + (if i < r then 1 else 0)"
  have "set (take ?c (drop off ss)) \<subseteq> set ss" by (meson order_trans set_drop_subset set_take_subset)
  then have "risc0_serialize (in_to_vec sd) (m, take ?c (drop off ss), th) = Inr (ser (take ?c (drop off ss)))"
    by (rule assms) simp
  then have "split_step sd (m, ss, th) b r i (off, out) = Inr (off + ?c, out @ [ser (take ?c (drop off ss))])"
    using Cons.prems by (simp add: split_step_def Let_def)
  then show ?case using Cons.IH [of "off + ?c" "out @ [ser (take ?c (drop off ss))]"] Cons.prems
    by (simp add: add.assoc add.commute)
qed

lemma xg_split_chunks:
  assumes "serde_ok sd" "xg_input_fits (m, ss, th)" "ss \<noteq> []" "0 < n"
  shows "xg_split sd (words_bytes (xg_input_words (m, ss, th))) n =
    Inr (map (\<lambda>c. words_bytes (xg_input_words (m, c, th))) (sample_chunks n ss))"
proof -
  let ?k = "min n (length ss)"
  have k: "0 < ?k" using assms(3,4) by simp
  have "xg_input_fits (m, c, th)" if "set c \<subseteq> set ss" "length c \<le> length ss" for c
    using that assms(2) by (auto simp: xg_input_fits_def list_all_iff)
  then have ser: "risc0_serialize (in_to_vec sd) (m, c, th) = Inr (words_bytes (xg_input_words (m, c, th)))"
    if "set c \<subseteq> set ss" "length c \<le> length ss" for c using that serde_laws(1) [OF assms(1)] by blast
  have "sum_list (map (\<lambda>i. length ss div ?k + (if i < length ss mod ?k then 1 else 0)) [0..<?k]) = length ss"
    using sum_chunk_size [OF k, of "length ss"] by (simp add: chunk_size_def [abs_def])
  with rfold_split [of ss sd m th, OF ser, of 0 "length ss div ?k" "length ss mod ?k" "[0..<?k]" "[]"]
  have "rfold (split_step sd (m, ss, th) (length ss div ?k) (length ss mod ?k)) [0..<?k] (0, []) =
      Inr (length ss, map (\<lambda>c. words_bytes (xg_input_words (m, c, th))) (sample_chunks n ss))"
    by (simp add: sample_chunks_def Let_def chunk_size_def [abs_def])
  then show ?thesis using serde_laws(2) [OF assms(1,2)] assms(3) k by (simp add: xg_split_def Let_def)
qed

text \<open>The hash of a merged journal: the first one that is not zero, hence that of the first chunk.\<close>

definition merged_hash :: "u8 list list \<Rightarrow> u8 list" where
  "merged_hash hs = fold (\<lambda>h acc. if acc = zero_hash then h else acc) hs zero_hash"

lemma merged_hash_first: "h \<noteq> zero_hash \<Longrightarrow> merged_hash (h # hs) = h"
proof -
  assume "h \<noteq> zero_hash"
  then have "fold (\<lambda>h acc. if acc = zero_hash then h else acc) hs h = h" by (induction hs) simp_all
  then show ?thesis by (simp add: merged_hash_def)
qed

lemma xg_run_fits:
  assumes "xg_input_fits (m, ss, th)" "\<And>x. length (sha256 x) = 32"
  shows "xg_output_fits (xg_run sha256 ops (m, ss, th))"
proof -
  have "length (filter (flags ops m th) ss) \<le> length ss" by simp
  also have "\<dots> < 2 ^ 31" using assms(1) by (simp add: xg_input_fits_def)
  finally show ?thesis using assms
    by (auto simp: xg_output_fits_def xg_run_eq xg_input_fits_def list_all_iff sample_fits_def prediction_of_def xg_compute_input_hash_def)
qed

lemma rfold_merge:
  assumes "serde_ok sd" "\<And>x. length (sha256 x) = 32" "\<And>c. c \<in> set cs \<Longrightarrow> xg_input_fits (m, c, th)"
  shows "rfold (merge_step sd) (map (\<lambda>c. words_bytes (xg_output_words (xg_run sha256 ops (m, c, th)))) cs) acc =
    Inr (acc\<lparr>total_samples := total_samples acc + of_nat (length (concat cs)),
             predictions := predictions acc @ map (prediction_of ops m th) (concat cs),
             flagged_samples := flagged_samples acc @ map sample_id (filter (flags ops m th) (concat cs)),
             xg_input_hash := fold (\<lambda>h acc. if acc = zero_hash then h else acc)
               (map (\<lambda>c. xg_compute_input_hash sha256 (m, c, th)) cs) (xg_input_hash acc)\<rparr>)"
  using assms(3)
proof (induction cs arbitrary: acc)
  case Nil
  then show ?case by simp
next
  case (Cons c cs)
  have "xg_output_fits (xg_run sha256 ops (m, c, th))" using Cons.prems [of c] xg_run_fits assms(2) by simp
  from serde_laws(4) [OF assms(1) this] show ?case using Cons.IH Cons.prems
    by (simp add: merge_step_def xg_run_eq add.assoc)
qed

definition xg_combined :: "serde_ops \<Rightarrow> (u8 list \<Rightarrow> u8 list) \<Rightarrow> guest_f64 \<Rightarrow> u8 list \<Rightarrow> nat \<Rightarrow> u8 list \<Rightarrow> bool" where
  "xg_combined sd sha256 ops input n j \<longleftrightarrow>
     (\<exists>m ss th. try_parse sd input = Inr (m, ss, th)
        \<and> risc0_deserialize (out_from_slice sd) j =
            Inr ((xg_run sha256 ops (m, ss, th))\<lparr>xg_input_hash :=
              merged_hash (map (\<lambda>c. xg_compute_input_hash sha256 (m, c, th)) (sample_chunks n ss))\<rparr>))"

definition xg_valid :: "serde_ops \<Rightarrow> (u8 list \<Rightarrow> u8 list) \<Rightarrow> u8 list \<Rightarrow> bool" where
  "xg_valid sd sha256 input \<longleftrightarrow> serde_ok sd \<and> (\<forall>x. length (sha256 x) = 32)
     \<and> (\<exists>m ss th. xg_input_fits (m, ss, th) \<and> ss \<noteq> [] \<and> input = words_bytes (xg_input_words (m, ss, th)))"

text \<open>The journal of the guest on the bytes of an input.\<close>

definition xg_guest :: "serde_ops \<Rightarrow> (u8 list \<Rightarrow> u8 list) \<Rightarrow> guest_f64 \<Rightarrow> u8 list \<Rightarrow> u8 list option" where
  "xg_guest sd sha256 ops input =
     (case in_from_slice sd input of
        Inl _ \<Rightarrow> None
      | Inr inp \<Rightarrow> (case xg_main sha256 ops (xg_input_words inp) of Inl _ \<Rightarrow> None | Inr ws \<Rightarrow> Some (words_bytes ws)))"

lemma xg_guest_run:
  assumes "serde_ok sd" "xg_input_fits inp"
  shows "xg_guest sd sha256 ops (words_bytes (xg_input_words inp)) = Some (words_bytes (xg_output_words (xg_run sha256 ops inp)))"
  using assms xg_main_run [OF assms(2), of sha256 ops "[]"] by (simp add: xg_guest_def serde_ok_def del: split_paired_All)

lemma chunk_fits:
  assumes "xg_input_fits (m, ss, th)" "ss \<noteq> []" "0 < n" "c \<in> set (sample_chunks n ss)"
  shows "xg_input_fits (m, c, th)"
proof -
  have cat: "concat (sample_chunks n ss) = ss" by (rule sample_chunks_laws(1) [OF assms(3,2)])
  then have "set c \<subseteq> set ss" using assms(4) by (metis UN_upper set_concat)
  moreover obtain xs ys where "sample_chunks n ss = xs @ c # ys" using assms(4) by (meson split_list)
  then have "length c \<le> length ss" using arg_cong [OF cat, of length] by simp
  ultimately show ?thesis using assms(1) by (auto simp: xg_input_fits_def list_all_iff)
qed

lemma merged_fits:
  assumes "xg_input_fits (m, ss, th)" "\<And>x. length (sha256 x) = 32"
  shows "xg_output_fits ((xg_run sha256 ops (m, ss, th))\<lparr>xg_input_hash :=
    merged_hash (map (\<lambda>c. xg_compute_input_hash sha256 (m, c, th)) cs)\<rparr>)"
proof -
  have "length (fold (\<lambda>h acc. if acc = zero_hash then h else acc) hs z) = 32"
    if "list_all (\<lambda>h. length h = 32) hs" "length z = 32" for hs and z :: "u8 list"
    using that by (induction hs arbitrary: z) simp_all
  then have "length (merged_hash (map (\<lambda>c. xg_compute_input_hash sha256 (m, c, th)) cs)) = 32" using assms(2)
    by (simp add: merged_hash_def zero_hash_def list_all_iff xg_compute_input_hash_def)
  then show ?thesis using xg_run_fits [OF assms] by (simp add: xg_output_fits_def)
qed

lemma xg_merge_chunks:
  assumes "serde_ok sd" "\<And>x. length (sha256 x) = 32" "xg_input_fits (m, ss, th)" "ss \<noteq> []" "0 < n"
  shows "xg_merge_journals sd (map (\<lambda>c. words_bytes (xg_output_words (xg_run sha256 ops (m, c, th)))) (sample_chunks n ss)) =
    Inr (words_bytes (xg_output_words ((xg_run sha256 ops (m, ss, th))\<lparr>xg_input_hash :=
      merged_hash (map (\<lambda>c. xg_compute_input_hash sha256 (m, c, th)) (sample_chunks n ss))\<rparr>)))"
proof -
  let ?cs = "sample_chunks n ss" and ?h = "merged_hash (map (\<lambda>c. xg_compute_input_hash sha256 (m, c, th)) (sample_chunks n ss))"
  have cat: "concat ?cs = ss" by (rule sample_chunks_laws(1) [OF assms(5,4)])
  note fits = chunk_fits [OF assms(3-5)]
  from serde_laws(3) [OF assms(1) merged_fits [OF assms(3,2)]] show ?thesis
    using rfold_merge [OF assms(1,2) fits, where ops = ops] cat
    by (simp add: xg_merge_journals_def xg_run_eq merged_hash_def)
qed

interpretation xg: lossless_strategy "xg_strategy sd" "xg_guest sd sha256 ops" "xg_valid sd sha256" "xg_combined sd sha256 ops"
  for sd sha256 ops
proof
  fix input n assume v: "xg_valid sd sha256 input" and n: "0 < (n :: nat)"
  then obtain m ss th where ok: "serde_ok sd" "\<And>x. length (sha256 x) = 32" "xg_input_fits (m, ss, th)" "ss \<noteq> []"
    and input: "input = words_bytes (xg_input_words (m, ss, th))" by (auto simp: xg_valid_def)
  let ?cs = "sample_chunks n ss" and ?merged = "(xg_run sha256 ops (m, ss, th))\<lparr>xg_input_hash :=
      merged_hash (map (\<lambda>c. xg_compute_input_hash sha256 (m, c, th)) (sample_chunks n ss))\<rparr>"
  let ?j = "\<lambda>c. words_bytes (xg_output_words (xg_run sha256 ops (m, c, th)))"
  have "xg_guest sd sha256 ops (words_bytes (xg_input_words (m, c, th))) = Some (?j c)" if "c \<in> set ?cs" for c
    using xg_guest_run [OF ok(1) chunk_fits [OF ok(3,4) n that]] .
  then have "map (xg_guest sd sha256 ops) (map (\<lambda>c. words_bytes (xg_input_words (m, c, th))) ?cs) = map Some (map ?j ?cs)" by simp
  moreover have "split_input (xg_strategy sd) input n = Inr (map (\<lambda>c. words_bytes (xg_input_words (m, c, th))) ?cs)"
    using xg_split_chunks [OF ok(1,3,4) n] input by (simp add: xg_strategy_def)
  moreover have "merge_journals (xg_strategy sd) (map ?j ?cs) = Inr (words_bytes (xg_output_words (?merged)))"
    using xg_merge_chunks [OF ok(1-4) n, where ops = ops] by (simp add: xg_strategy_def)
  moreover have "xg_combined sd sha256 ops input n (words_bytes (xg_output_words (?merged)))"
    using serde_laws(2) [OF ok(1,3)] serde_laws(4) [OF ok(1) merged_fits [OF ok(3,2)]] input
    by (auto simp: xg_combined_def)
  ultimately show "\<exists>subs js. split_input (xg_strategy sd) input n = Inr subs \<and> map (xg_guest sd sha256 ops) subs = map Some js
        \<and> (\<exists>j. merge_journals (xg_strategy sd) js = Inr j \<and> xg_combined sd sha256 ops input n j)" by blast
next
  fix input assume "xg_valid sd sha256 input"
  then show "\<exists>k. item_count (xg_strategy sd) input = Inr k"
    using serde_laws(2) by (fastforce simp: xg_valid_def xg_strategy_def xg_item_count_def)
qed

section \<open>The submitted proof\<close>

lemma xg_first_chunk:
  assumes "1 < n" "1 < length ss"
  shows "\<exists>c cs. sample_chunks n ss = c # cs \<and> length c < length ss"
proof -
  have "ss \<noteq> []" "0 < n" using assms by auto
  note laws = sample_chunks_laws [OF this(2,1)] and ne = sample_chunks_nonempty [OF this(2,1)]
  from laws(2) assms obtain c d cs where cs: "sample_chunks n ss = c # d # cs"
    by (cases "sample_chunks n ss" rule: remdups_adj.cases) auto
  then have "d \<noteq> []" using ne by simp
  then have "0 < length d" by simp
  moreover have "length c + length d + length (concat cs) = length ss" using arg_cong [OF laws(1), of length] cs by simp
  ultimately show ?thesis using cs by (intro exI [of _ c] exI [of _ "d # cs"]) linarith
qed

text \<open>With more than one sub-job the journal of the first sub-proof is not the merged journal, since it counts fewer
  samples; the pair that is submitted after a successful wrap is the seal of the one with the other.\<close>

theorem merged_is_not_first:
  assumes "xg_valid sd sha256 input" "1 < n" "xg_can_decompose sd input"
    and "xg_split sd input n = Inr subs" "map (xg_guest sd sha256 ops) subs = map Some js" "xg_combined sd sha256 ops input n j"
  shows "hd js \<noteq> j"
proof -
  from assms(1) obtain m ss th where ok: "serde_ok sd" "\<And>x. length (sha256 x) = 32" "xg_input_fits (m, ss, th)" "ss \<noteq> []"
    and input: "input = words_bytes (xg_input_words (m, ss, th))" by (auto simp: xg_valid_def)
  have parse: "try_parse sd input = Inr (m, ss, th)" using serde_laws(2) [OF ok(1,3)] input by simp
  then have "1 < length ss" using assms(3) by (simp add: xg_can_decompose_def)
  from xg_first_chunk [OF assms(2) this] obtain c cs where c: "sample_chunks n ss = c # cs" "length c < length ss" by blast
  have fits: "xg_input_fits (m, c, th)" using chunk_fits [OF ok(3,4), of n c] assms(2) c(1) by simp
  have "subs = map (\<lambda>c. words_bytes (xg_input_words (m, c, th))) (c # cs)"
    using xg_split_chunks [OF ok(1,3,4), of n] assms(2,4) input c(1) by simp
  then have "hd js = words_bytes (xg_output_words (xg_run sha256 ops (m, c, th)))"
    using assms(5) xg_guest_run [OF ok(1) fits, of sha256 ops] by (cases js) auto
  then have first: "risc0_deserialize (out_from_slice sd) (hd js) = Inr (xg_run sha256 ops (m, c, th))"
    using serde_laws(4) [OF ok(1) xg_run_fits [OF fits ok(2)]] by simp
  have "length ss < 2 ^ 32" using ok(3) by (simp add: xg_input_fits_def)
  then have "(of_nat (length c) :: u32) \<noteq> of_nat (length ss)" using c(2) by (simp add: word_unat_eq_iff unat_of_nat)
  then show ?thesis using first assms(6) parse by (auto simp: xg_combined_def xg_run_eq)
qed

lemma wrapper_err_Inr [simp]: "wrapper_err r = Inr x \<longleftrightarrow> r = Inr x"
  by (cases r) (simp_all add: wrapper_err_def)

lemma recursive_wrap_submits:
  assumes "recursive_wrap ro mx prove_wrapper strat rs = Inr w"
  shows "rs \<noteq> [] \<and> extract_seal ro (hd rs) = Inr (first_sub_seal w)
    \<and> merge_journals strat (map (journal_bytes ro) rs) = Inr (wrap_merged_journal w)
    \<and> decomp_proof (Inr w) res = Some (first_sub_seal w, wrap_merged_journal w)"
proof -
  have "rs \<noteq> []" using assms by (auto simp: recursive_wrap_def Let_def)
  then have "rs ! 0 = hd rs" by (simp add: hd_conv_nth)
  then show ?thesis using assms \<open>rs \<noteq> []\<close>
    by (auto simp: recursive_wrap_def Let_def decomp_proof_def rbind_eq_Inr_iff split: if_splits)
qed

text \<open>The two together, for a decomposed proof of an XGBoost input.\<close>

theorem decomposed_submission:
  assumes v: "xg_valid sd sha256 input" "min_input_size cfg \<le> length input" "xg_can_decompose sd input"
    and n: "plan_split cfg sqrt_ceil (xg_strategy sd) input = Inr n" "1 < n"
    and prove: "\<forall>s j. xg_guest sd sha256 ops s = Some j \<longrightarrow> (\<exists>r. prove s = Inr r \<and> sub_journal r = j)"
    and receipts: "\<forall>s p. prove s = Inr p \<longrightarrow> journal_bytes ro (sub_receipt p) = sub_journal p"
  shows "\<exists>res. prove_decomposed_with_receipts cfg sqrt_ceil prove (xg_strategy sd) input = Inr res
    \<and> xg_combined sd sha256 ops input n (merged_journal res)
    \<and> (\<forall>mx prove_wrapper w. recursive_wrap ro mx prove_wrapper (xg_strategy sd) (receipts res) = Inr w \<longrightarrow>
         (\<exists>seal journal. decomp_proof (Inr w) res = Some (seal, journal)
            \<and> extract_seal ro (hd (receipts res)) = Inr seal \<and> journal \<noteq> journal_bytes ro (hd (receipts res))))"
proof -
  have "can_decompose (xg_strategy sd) input" using v(3) by (simp add: xg_strategy_def)
  from xg.decomposed [OF _ v(1,2) this n, where prove = prove and ops = ops] prove obtain res subs where
    res: "prove_decomposed_with_receipts cfg sqrt_ceil prove (xg_strategy sd) input = Inr res"
      "xg_combined sd sha256 ops input n (merged_journal res)"
      "split_input (xg_strategy sd) input n = Inr subs" "map (xg_guest sd sha256 ops) subs = map Some (journals res)"
    and rc: "map (journal_bytes ro) (receipts res) = journals res" using receipts
    unfolding xg.proves_def by blast
  have "\<exists>seal journal. decomp_proof (Inr w) res = Some (seal, journal)
      \<and> extract_seal ro (hd (receipts res)) = Inr seal \<and> journal \<noteq> journal_bytes ro (hd (receipts res))"
    if w: "recursive_wrap ro mx prove_wrapper (xg_strategy sd) (receipts res) = Inr w" for mx prove_wrapper w
  proof (intro exI conjI)
    note wrap = recursive_wrap_submits [OF w, of res]
    show "decomp_proof (Inr w) res = Some (first_sub_seal w, wrap_merged_journal w)"
      "extract_seal ro (hd (receipts res)) = Inr (first_sub_seal w)" using wrap by blast+
    have "merge_journals (xg_strategy sd) (journals res) = Inr (merged_journal res)"
      using res(1) by (auto simp: prove_decomposed_with_receipts_def rbind_eq_Inr_iff split: if_splits)
    then have "wrap_merged_journal w = merged_journal res" using wrap rc by simp
    moreover have "hd (journals res) \<noteq> merged_journal res"
      using merged_is_not_first [OF v(1) n(2) v(3) _ res(4,2)] res(3) by (simp add: xg_strategy_def)
    moreover have "hd (journals res) = journal_bytes ro (hd (receipts res))" using rc wrap by (metis hd_map)
    ultimately show "wrap_merged_journal w \<noteq> journal_bytes ro (hd (receipts res))" by simp
  qed
  then show ?thesis using res(1,2) by (intro exI [of _ res]) simp
qed

end
