(* ===== verification/Proof_Encoder.thy ===== *)
theory Proof_Encoder
  imports Circuit_Desc Guest_Wire
begin

text \<open>
  The proof encoder of the prover side (\<open>examples/xgboost-remainder/src/abi_encode.rs\<close>): a Hyrax proof, as the JSON value that
  serde makes of it, becomes the bytes that the decoder of the verifier reads.

  \<^item> The JSON accessors and the hexadecimal decoder are those of the theory \<open>Circuit_Desc\<close>, with indexing by position and
    the test for \<open>null\<close> (\<open>proof_json\<close>). The field type \<open>Fq\<close> of halo2curves, with its square root, is the record \<open>fq_ops\<close>.
  \<^item> \<open>hyrax_proof\<close> holds the contents of a proof; \<open>json_proof\<close> relates a JSON value to it.
  \<^item> An array is encoded with its length. The decoder rejects lengths above \<open>MAX_ARRAY_LEN\<close>, which the encoder does not
    check: \<open>counts_ok\<close>.
\<close>

section \<open>Parameters and errors\<close>

record 'j proof_json = "'j json_ops" +
  js_at :: "'j \<Rightarrow> nat \<Rightarrow> 'j"
  js_null :: "'j \<Rightarrow> bool"

record 'f fq_ops =
  fq_from_repr :: "u8 list \<Rightarrow> 'f option"
  fq_to_repr :: "'f \<Rightarrow> u8 list"
  fq_sq :: "'f \<Rightarrow> 'f"
  fq_times :: "'f \<Rightarrow> 'f \<Rightarrow> 'f"
  fq_plus :: "'f \<Rightarrow> 'f \<Rightarrow> 'f"
  fq_of_u64 :: "u64 \<Rightarrow> 'f"
  fq_sqrt :: "'f \<Rightarrow> 'f option"
  fq_negate :: "'f \<Rightarrow> 'f"

datatype encode_error =
    Missing string
  | Not_A_String
  | Invalid_Hex string
  | Point_Length nat
  | Invalid_X
  | No_Square_Root
  | Gen_At_Infinity

text \<open>\<open>s.trim_start_matches("0x")\<close>.\<close>

function trim_0x :: "string \<Rightarrow> string" where
  "trim_0x s = (if take 2 s = ''0x'' then trim_0x (drop 2 s) else s)"
  by pat_completeness auto

termination
proof (relation "measure length")
  fix s assume "take 2 s = ''0x''"
  then show "(drop 2 s, s) \<in> measure length" by (cases s) auto
qed simp

declare trim_0x.simps [simp del]

section \<open>Elements\<close>

definition encode_u256 :: "u8 list \<Rightarrow> u64 \<Rightarrow> u8 list" where
  "encode_u256 buf val = buf @ replicate 24 0 @ u64_to_be_bytes val"

definition encode_fq_be :: "'f fq_ops \<Rightarrow> u8 list \<Rightarrow> 'f \<Rightarrow> u8 list" where
  "encode_fq_be fq buf val = buf @ rev (fq_to_repr fq val)"

text \<open>The bytes of a field element, least significant first, reversed into an array of 32 bytes.\<close>

definition fr_be :: "u8 list \<Rightarrow> u8 list" where
  "fr_be bytes = fold (\<lambda>(i, b) be. be[31 - i := b]) (enumerate 0 (take 32 bytes)) (replicate 32 0)"

definition hex_of :: "'j proof_json \<Rightarrow> (string \<Rightarrow> string + u8 list) \<Rightarrow> 'j \<Rightarrow> encode_error + u8 list" where
  "hex_of ops hex_decode v =
     (case js_str ops v of
        None \<Rightarrow> Inl Not_A_String
      | Some s \<Rightarrow> (case hex_decode (trim_0x s) of Inl e \<Rightarrow> Inl (Invalid_Hex e) | Inr bytes \<Rightarrow> Inr bytes))"

definition encode_fr_from_json ::
  "'j proof_json \<Rightarrow> (string \<Rightarrow> string + u8 list) \<Rightarrow> 'j \<Rightarrow> u8 list \<Rightarrow> encode_error + u8 list" where
  "encode_fr_from_json ops hex_decode v buf = rbind (hex_of ops hex_decode v) (\<lambda>bytes. Inr (buf @ fr_be bytes))"

definition decompress_point :: "'f fq_ops \<Rightarrow> u8 list \<Rightarrow> encode_error + u8 list \<times> u8 list" where
  "decompress_point fq compressed =
     (if compressed = [] then Inr (replicate 32 0, replicate 32 0)
      else if length compressed \<noteq> 32 then Inl (Point_Length (length compressed))
      else let is_infinity = drop_bit 7 (compressed ! 31) AND 1;
               y_sign = drop_bit 6 (compressed ! 31) AND 1;
               tmp = compressed[31 := compressed ! 31 AND 63]
           in if is_infinity = 1 then Inr (replicate 32 0, replicate 32 0)
              else case fq_from_repr fq tmp of
                None \<Rightarrow> Inl Invalid_X
              | Some x \<Rightarrow>
                  (let y2 = fq_plus fq (fq_times fq (fq_sq fq x) x) (fq_of_u64 fq 3)
                   in case fq_sqrt fq y2 of
                        None \<Rightarrow> Inl No_Square_Root
                      | Some y \<Rightarrow>
                          (let computed_sign = fq_to_repr fq y ! 0 AND 1;
                               y = (if computed_sign \<noteq> y_sign then fq_negate fq y else y)
                           in Inr (rev (fq_to_repr fq x), rev (fq_to_repr fq y)))))"

definition encode_point_from_json ::
  "'j proof_json \<Rightarrow> (string \<Rightarrow> string + u8 list) \<Rightarrow> 'f fq_ops \<Rightarrow> 'j \<Rightarrow> u8 list \<Rightarrow> encode_error + u8 list" where
  "encode_point_from_json ops hex_decode fq v buf =
     rbind (hex_of ops hex_decode v) (\<lambda>bytes. rbind (decompress_point fq bytes) (\<lambda>(x_be, y_be). Inr (buf @ x_be @ y_be)))"

text \<open>\<open>v.as_array().ok_or_else(...)\<close>, the length, and the elements in a loop.\<close>

definition encode_list ::
  "'j proof_json \<Rightarrow> string \<Rightarrow> ('j \<Rightarrow> u8 list \<Rightarrow> encode_error + u8 list) \<Rightarrow> 'j \<Rightarrow> u8 list \<Rightarrow> encode_error + u8 list" where
  "encode_list ops label enc v buf =
     (case js_array ops v of
        None \<Rightarrow> Inl (Missing label)
      | Some arr \<Rightarrow> rfold enc arr (encode_u256 buf (of_nat (length arr))))"

section \<open>Parts of a proof\<close>

definition encode_podp_from_json ::
  "'j proof_json \<Rightarrow> (string \<Rightarrow> string + u8 list) \<Rightarrow> 'f fq_ops \<Rightarrow> 'j \<Rightarrow> u8 list \<Rightarrow> encode_error + u8 list" where
  "encode_podp_from_json ops hx fq podp buf =
     rbind (encode_point_from_json ops hx fq (js_get ops podp ''commit_d'') buf) (\<lambda>buf.
     rbind (encode_point_from_json ops hx fq (js_get ops podp ''commit_d_dot_a'') buf) (\<lambda>buf.
     rbind (encode_list ops ''z_vector'' (encode_fr_from_json ops hx) (js_get ops podp ''z_vector'') buf) (\<lambda>buf.
     rbind (encode_fr_from_json ops hx (js_get ops podp ''z_delta'') buf) (\<lambda>buf.
     encode_fr_from_json ops hx (js_get ops podp ''z_beta'') buf))))"

definition encode_pop ::
  "'j proof_json \<Rightarrow> (string \<Rightarrow> string + u8 list) \<Rightarrow> 'f fq_ops \<Rightarrow> 'j \<Rightarrow> u8 list \<Rightarrow> encode_error + u8 list" where
  "encode_pop ops hx fq pop buf =
     rbind (encode_point_from_json ops hx fq (js_get ops pop ''alpha'') buf) (\<lambda>buf.
     rbind (encode_point_from_json ops hx fq (js_get ops pop ''beta'') buf) (\<lambda>buf.
     rbind (encode_point_from_json ops hx fq (js_get ops pop ''delta'') buf) (\<lambda>buf.
     rbind (encode_fr_from_json ops hx (js_get ops pop ''z1'') buf) (\<lambda>buf.
     rbind (encode_fr_from_json ops hx (js_get ops pop ''z2'') buf) (\<lambda>buf.
     rbind (encode_fr_from_json ops hx (js_get ops pop ''z3'') buf) (\<lambda>buf.
     rbind (encode_fr_from_json ops hx (js_get ops pop ''z4'') buf) (\<lambda>buf.
     encode_fr_from_json ops hx (js_get ops pop ''z5'') buf)))))))"

definition encode_opening ::
  "'j proof_json \<Rightarrow> (string \<Rightarrow> string + u8 list) \<Rightarrow> 'f fq_ops \<Rightarrow> 'j \<Rightarrow> u8 list \<Rightarrow> encode_error + u8 list" where
  "encode_opening ops hx fq po buf =
     rbind (encode_fr_from_json ops hx (js_get ops po ''z1'') buf) (\<lambda>buf.
     rbind (encode_fr_from_json ops hx (js_get ops po ''z2'') buf) (\<lambda>buf.
     encode_point_from_json ops hx fq (js_get ops po ''alpha'') buf))"

definition encode_equality ::
  "'j proof_json \<Rightarrow> (string \<Rightarrow> string + u8 list) \<Rightarrow> 'f fq_ops \<Rightarrow> 'j \<Rightarrow> u8 list \<Rightarrow> encode_error + u8 list" where
  "encode_equality ops hx fq pe buf =
     rbind (encode_point_from_json ops hx fq (js_get ops pe ''alpha'') buf) (\<lambda>buf.
     encode_fr_from_json ops hx (js_get ops pe ''z'') buf)"

definition encode_agg ::
  "'j proof_json \<Rightarrow> (string \<Rightarrow> string + u8 list) \<Rightarrow> 'f fq_ops \<Rightarrow> 'j \<Rightarrow> u8 list \<Rightarrow> encode_error + u8 list" where
  "encode_agg ops hx fq agg buf =
     (if js_null ops agg then Inr (encode_u256 buf 0)
      else let buf = encode_u256 buf 1
           in rbind (encode_list ops ''interpolant_coeffs'' (encode_point_from_json ops hx fq) (js_get ops agg ''interpolant_coeffs'') buf) (\<lambda>buf.
              rbind (encode_list ops ''proofs_of_opening'' (encode_opening ops hx fq) (js_get ops agg ''proofs_of_opening'') buf) (\<lambda>buf.
              encode_list ops ''proofs_of_equality'' (encode_equality ops hx fq) (js_get ops agg ''proofs_of_equality'') buf)))"

definition encode_layer_proof ::
  "'j proof_json \<Rightarrow> (string \<Rightarrow> string + u8 list) \<Rightarrow> 'f fq_ops \<Rightarrow> 'j \<Rightarrow> u8 list \<Rightarrow> encode_error + u8 list" where
  "encode_layer_proof ops hx fq lp buf =
     (let pos = js_get ops lp ''proof_of_sumcheck''
      in rbind (encode_point_from_json ops hx fq (js_get ops pos ''sum'') buf) (\<lambda>buf.
         rbind (encode_list ops ''sumcheck messages'' (encode_point_from_json ops hx fq) (js_get ops pos ''messages'') buf) (\<lambda>buf.
         rbind (encode_podp_from_json ops hx fq (js_get ops pos ''podp'') buf) (\<lambda>buf.
         rbind (encode_list ops ''commitments'' (encode_point_from_json ops hx fq) (js_get ops lp ''commitments'') buf) (\<lambda>buf.
         rbind (encode_list ops ''proofs_of_product'' (encode_pop ops hx fq) (js_get ops lp ''proofs_of_product'') buf) (\<lambda>buf.
         encode_agg ops hx fq (js_get ops lp ''maybe_proof_of_claim_agg'') buf))))))"

definition encode_hyrax_claim ::
  "'j proof_json \<Rightarrow> (string \<Rightarrow> string + u8 list) \<Rightarrow> 'f fq_ops \<Rightarrow> 'j \<Rightarrow> u8 list \<Rightarrow> encode_error + u8 list" where
  "encode_hyrax_claim ops hx fq claim buf =
     (let ev = js_get ops claim ''evaluation''
      in rbind (encode_fr_from_json ops hx (js_get ops ev ''value'') buf) (\<lambda>buf.
         rbind (encode_fr_from_json ops hx (js_get ops ev ''blinding'') buf) (\<lambda>buf.
         rbind (encode_point_from_json ops hx fq (js_get ops ev ''commitment'') buf) (\<lambda>buf.
         encode_list ops ''claim point'' (encode_fr_from_json ops hx) (js_get ops claim ''point'') buf))))"

text \<open>An entry of \<open>public_inputs\<close>: \<open>[layer_id, MLE]\<close>.\<close>

definition encode_public_input ::
  "'j proof_json \<Rightarrow> (string \<Rightarrow> string + u8 list) \<Rightarrow> 'j \<Rightarrow> u8 list \<Rightarrow> encode_error + u8 list" where
  "encode_public_input ops hx inp buf =
     (let mle = js_at ops inp 1
      in if js_null ops mle then Inr (encode_u256 buf 0)
         else let evals = js_get ops (js_get ops mle ''f'') ''evals''
              in case js_array ops (js_get ops evals ''naive_buf'') of
                   None \<Rightarrow> Inl (Missing ''MLE.f.evals.naive_buf'')
                 | Some naive_buf \<Rightarrow>
                     (case js_u64 ops (js_get ops evals ''num_elements'') of
                        None \<Rightarrow> Inl (Missing ''num_elements'')
                      | Some num_elements \<Rightarrow>
                          rfold (encode_fr_from_json ops hx) (take (unat num_elements) naive_buf) (encode_u256 buf num_elements)))"

definition encode_eval ::
  "'j proof_json \<Rightarrow> (string \<Rightarrow> string + u8 list) \<Rightarrow> 'f fq_ops \<Rightarrow> 'j \<Rightarrow> u8 list \<Rightarrow> encode_error + u8 list" where
  "encode_eval ops hx fq ep buf =
     rbind (encode_podp_from_json ops hx fq (js_get ops ep ''podp_evaluation_proof'') buf) (\<lambda>buf.
     encode_point_from_json ops hx fq (js_get ops ep ''commitment_to_evaluation'') buf)"

definition encode_input_proof ::
  "'j proof_json \<Rightarrow> (string \<Rightarrow> string + u8 list) \<Rightarrow> 'f fq_ops \<Rightarrow> 'j \<Rightarrow> u8 list \<Rightarrow> encode_error + u8 list" where
  "encode_input_proof ops hx fq ip buf =
     rbind (encode_list ops ''input_commitment'' (encode_point_from_json ops hx fq) (js_get ops ip ''input_commitment'') buf) (\<lambda>buf.
     encode_list ops ''evaluation_proofs'' (encode_eval ops hx fq) (js_get ops ip ''evaluation_proofs'') buf)"

section \<open>The proof and the generators\<close>

definition PROOF_SELECTOR :: "u8 list" where
  "PROOF_SELECTOR = [82, 69, 77, 49]"

definition encode_hyrax_proof ::
  "'j proof_json \<Rightarrow> (string \<Rightarrow> string + u8 list) \<Rightarrow> 'f fq_ops \<Rightarrow> 'j \<Rightarrow> u8 list \<Rightarrow> encode_error + u8 list" where
  "encode_hyrax_proof ops hx fq json circuit_hash =
     (let buf = PROOF_SELECTOR @ circuit_hash; circuit_proof = js_get ops json ''circuit_proof''
      in rbind (encode_list ops ''public_inputs'' (encode_public_input ops hx) (js_get ops json ''public_inputs'') buf) (\<lambda>buf.
         rbind (encode_list ops ''output_layer_proofs''
                  (\<lambda>out. encode_point_from_json ops hx fq (js_get ops (js_at ops out 2) ''claim_commitment''))
                  (js_get ops circuit_proof ''output_layer_proofs'') buf) (\<lambda>buf.
         rbind (encode_list ops ''layer_proofs'' (\<lambda>layer. encode_layer_proof ops hx fq (js_at ops layer 1))
                  (js_get ops circuit_proof ''layer_proofs'') buf) (\<lambda>buf.
         rbind (encode_list ops ''fiat_shamir_claims'' (encode_hyrax_claim ops hx fq)
                  (js_get ops circuit_proof ''fiat_shamir_claims'') buf) (\<lambda>buf.
         rbind (encode_list ops ''claims_on_public_values'' (encode_hyrax_claim ops hx fq)
                  (js_get ops json ''claims_on_public_values'') buf) (\<lambda>buf.
         encode_list ops ''hyrax_input_proofs'' (encode_input_proof ops hx fq) (js_get ops json ''hyrax_input_proofs'') buf))))))"

text \<open>A committer as its generators: \<open>affine_coordinates\<close> of each is \<open>None\<close> at infinity.\<close>

record 'f committer =
  committer_gens :: "('f \<times> 'f) option list"
  committer_scalar :: "('f \<times> 'f) option"
  committer_blinding :: "('f \<times> 'f) option"

definition encode_gen :: "'f fq_ops \<Rightarrow> ('f \<times> 'f) option \<Rightarrow> u8 list \<Rightarrow> encode_error + u8 list" where
  "encode_gen fq g buf =
     (case g of None \<Rightarrow> Inl Gen_At_Infinity | Some (x, y) \<Rightarrow> Inr (encode_fq_be fq (encode_fq_be fq buf x) y))"

definition encode_pedersen_gens :: "'f fq_ops \<Rightarrow> 'f committer \<Rightarrow> encode_error + u8 list" where
  "encode_pedersen_gens fq c =
     rbind (rfold (encode_gen fq) (committer_gens c) (encode_u256 [] (of_nat (length (committer_gens c))))) (\<lambda>buf.
     rbind (encode_gen fq (committer_scalar c) buf) (\<lambda>buf. encode_gen fq (committer_blinding c) buf))"

section \<open>The contents of a proof\<close>

type_synonym claim_agg = "G1Point list \<times> (u256 \<times> u256 \<times> G1Point) list \<times> (G1Point \<times> u256) list"

record hyrax_layer = CommittedLayerProof +
  layer_agg :: "claim_agg option"

record hyrax_claim = PublicValueClaim +
  claim_point :: "u256 list"

record hyrax_input =
  hx_rows :: "G1Point list"
  hx_evals :: "(PODPProof \<times> G1Point) list"

record hyrax_proof =
  hx_public :: "u256 list option list"
  hx_outputs :: "G1Point list"
  hx_layers :: "hyrax_layer list"
  hx_fs_claims :: "hyrax_claim list"
  hx_public_claims :: "hyrax_claim list"
  hx_inputs :: "hyrax_input list"

text \<open>What the decoder makes of a proof.\<close>

definition gkr_of :: "hyrax_proof \<Rightarrow> GKRProof" where
  "gkr_of p = \<lparr>output_claim_commitments = hx_outputs p, layer_proofs = map CommittedLayerProof.truncate (hx_layers p)\<rparr>"

definition section_of :: "u256 list option \<Rightarrow> u256 list" where
  "section_of s = (case s of None \<Rightarrow> [] | Some vs \<Rightarrow> vs)"

definition embedded_of :: "hyrax_proof \<Rightarrow> u256 list" where
  "embedded_of p = concat (map section_of (hx_public p))"

definition input_of :: "hyrax_input \<Rightarrow> DAGInputLayerProof" where
  "input_of i = \<lparr>commitment_rows = hx_rows i, podps = map fst (hx_evals i), com_evals = map snd (hx_evals i)\<rparr>"

section \<open>The bytes of a proof\<close>

definition podp_bytes :: "PODPProof \<Rightarrow> u8 list" where
  "podp_bytes p = pt_to_be_bytes (commit_d p) @ pt_to_be_bytes (commit_d_dot_a p) @ array_bytes to_be_bytes (z_vector p)
     @ to_be_bytes (z_delta p) @ to_be_bytes (z_beta p)"

definition pop_bytes :: "ProofOfProduct \<Rightarrow> u8 list" where
  "pop_bytes p = pt_to_be_bytes (pop_alpha p) @ pt_to_be_bytes (pop_beta p) @ pt_to_be_bytes (pop_delta p)
     @ to_be_bytes (pop_z1 p) @ to_be_bytes (pop_z2 p) @ to_be_bytes (pop_z3 p) @ to_be_bytes (pop_z4 p) @ to_be_bytes (pop_z5 p)"

definition opening_bytes :: "u256 \<times> u256 \<times> G1Point \<Rightarrow> u8 list" where
  "opening_bytes o3 = (case o3 of (z1, z2, a) \<Rightarrow> to_be_bytes z1 @ to_be_bytes z2 @ pt_to_be_bytes a)"

definition equality_bytes :: "G1Point \<times> u256 \<Rightarrow> u8 list" where
  "equality_bytes e = pt_to_be_bytes (fst e) @ to_be_bytes (snd e)"

definition agg_bytes :: "claim_agg option \<Rightarrow> u8 list" where
  "agg_bytes agg =
     (case agg of
        None \<Rightarrow> word_bytes 0
      | Some (cs, os, es) \<Rightarrow>
          word_bytes 1 @ array_bytes pt_to_be_bytes cs @ array_bytes opening_bytes os @ array_bytes equality_bytes es)"

definition layer_bytes :: "hyrax_layer \<Rightarrow> u8 list" where
  "layer_bytes l =
     pt_to_be_bytes (sc_sum (sumcheck_proof l)) @ array_bytes pt_to_be_bytes (sc_messages (sumcheck_proof l))
     @ podp_bytes (sc_podp (sumcheck_proof l)) @ array_bytes pt_to_be_bytes (commitments l) @ array_bytes pop_bytes (pops l)
     @ agg_bytes (layer_agg l)"

definition claim_bytes :: "hyrax_claim \<Rightarrow> u8 list" where
  "claim_bytes c = to_be_bytes (pvc_value c) @ to_be_bytes (pvc_blinding c) @ pt_to_be_bytes (pvc_commitment c)
     @ array_bytes to_be_bytes (claim_point c)"

definition public_bytes :: "u256 list option \<Rightarrow> u8 list" where
  "public_bytes s = array_bytes to_be_bytes (section_of s)"

definition eval_bytes :: "PODPProof \<times> G1Point \<Rightarrow> u8 list" where
  "eval_bytes e = podp_bytes (fst e) @ pt_to_be_bytes (snd e)"

definition input_bytes :: "hyrax_input \<Rightarrow> u8 list" where
  "input_bytes i = array_bytes pt_to_be_bytes (hx_rows i) @ array_bytes eval_bytes (hx_evals i)"

definition proof_body :: "u8 list \<Rightarrow> hyrax_proof \<Rightarrow> u8 list" where
  "proof_body circuit_hash p =
     circuit_hash @ array_bytes public_bytes (hx_public p) @ array_bytes pt_to_be_bytes (hx_outputs p)
     @ array_bytes layer_bytes (hx_layers p) @ array_bytes claim_bytes (hx_fs_claims p)
     @ array_bytes claim_bytes (hx_public_claims p) @ array_bytes input_bytes (hx_inputs p)"

text \<open>Lengths that the decoder accepts.\<close>

abbreviation short :: "'a list \<Rightarrow> bool" where
  "short xs \<equiv> length xs \<le> MAX_ARRAY_LEN"

definition podp_short :: "PODPProof \<Rightarrow> bool" where
  "podp_short p \<longleftrightarrow> short (z_vector p)"

definition agg_short :: "claim_agg option \<Rightarrow> bool" where
  "agg_short agg \<longleftrightarrow> (case agg of None \<Rightarrow> True | Some (cs, os, es) \<Rightarrow> short cs \<and> short os \<and> short es)"

definition layer_short :: "hyrax_layer \<Rightarrow> bool" where
  "layer_short l \<longleftrightarrow> short (sc_messages (sumcheck_proof l)) \<and> podp_short (sc_podp (sumcheck_proof l)) \<and> short (commitments l)
     \<and> short (pops l) \<and> agg_short (layer_agg l)"

definition claim_short :: "hyrax_claim \<Rightarrow> bool" where
  "claim_short c \<longleftrightarrow> short (claim_point c)"

definition public_short :: "u256 list option \<Rightarrow> bool" where
  "public_short s \<longleftrightarrow> short (section_of s)"

definition input_short :: "hyrax_input \<Rightarrow> bool" where
  "input_short i \<longleftrightarrow> short (hx_rows i) \<and> short (hx_evals i) \<and> list_all (\<lambda>e. podp_short (fst e)) (hx_evals i)"

definition counts_ok :: "hyrax_proof \<Rightarrow> bool" where
  "counts_ok p \<longleftrightarrow> short (hx_public p) \<and> list_all public_short (hx_public p) \<and> short (hx_outputs p)
     \<and> short (hx_layers p) \<and> list_all layer_short (hx_layers p) \<and> short (hx_fs_claims p) \<and> list_all claim_short (hx_fs_claims p)
     \<and> short (hx_public_claims p) \<and> list_all claim_short (hx_public_claims p) \<and> short (hx_inputs p) \<and> list_all input_short (hx_inputs p)"

section \<open>Decoding the bytes\<close>

lemma reads_usize: "n \<le> MAX_ARRAY_LEN \<Longrightarrow> reads try_read_usize (word_bytes (of_nat n)) n"
proof -
  assume n: "n \<le> MAX_ARRAY_LEN"
  then have "unat (of_nat n :: u64) = n" by (simp add: unat_of_nat)
  then have "rd_lift (if \<not> small (from_u64 (of_nat n)) then rerr (DecodeError Too_Large_For_Usize)
      else let val = unat (limb (from_u64 (of_nat n)) 0)
           in if val > MAX_ARRAY_LEN then rerr (DecodeError (Array_Too_Long val)) else Inr val) = rd_ret n"
    using n by (simp add: limb_from_u64 rd_lift_def rd_ret_def fun_eq_iff Let_def)
  then show ?thesis
    unfolding try_read_usize_def
    using reads_bind [OF reads_u256, of _ "from_u64 (of_nat n)" "[]" n] reads_ret [of n] by simp
qed

lemma reads_count: "n \<le> MAX_ARRAY_LEN \<Longrightarrow> reads (g n) b y \<Longrightarrow> reads (rd_bind try_read_usize g) (word_bytes (of_nat n) @ b) y"
  by (rule reads_bind [OF reads_usize])

lemma reads_last: "reads rd b x \<Longrightarrow> g x = y \<Longrightarrow> reads (rd_bind rd (\<lambda>v. rd_ret (g v))) b y"
  using reads_map by metis

lemma reads_point: "reads try_read_g1 (pt_to_be_bytes p) p"
  unfolding try_read_g1_def pt_to_be_bytes_def
  by (intro reads_bind [OF reads_u256] reads_last [OF reads_u256]) simp

lemma reads_list:
  "(\<And>x. x \<in> set xs \<Longrightarrow> reads dec (enc x) (f x)) \<Longrightarrow> reads (rd_times (length xs) dec) (concat (map enc xs)) (map f xs)"
proof (induction xs)
  case Nil
  then show ?case by (simp add: reads_def rd_times_def)
next
  case (Cons x xs)
  have "rd_times (Suc n) dec = rd_bind dec (\<lambda>x. rd_bind (rd_times n dec) (\<lambda>xs. rd_ret (x # xs)))" for n
    by (simp add: rd_times_def rd_bind_def rd_ret_def fun_eq_iff)
  then show ?case using Cons by (auto intro!: reads_bind reads_last)
qed

lemma reads_vec_list:
  assumes "\<And>x. x \<in> set xs \<Longrightarrow> reads dec (enc x) (f x)" "short xs" "v \<le> 2 ^ 40"
  shows "reads (rd_vec v (length xs) dec) (concat (map enc xs)) (map f xs)"
proof -
  have "v * length xs \<le> 2 ^ 40 * MAX_ARRAY_LEN" using assms(2,3) by (rule_tac mult_le_mono) simp_all
  then have "with_capacity v (length xs) = Inr ()" by (simp add: with_capacity_def)
  then show ?thesis using reads_list [OF assms(1)] by (simp add: reads_def rd_vec_def rd_bind_def rd_lift_def)
qed

lemma reads_counted:
  assumes "\<And>x. x \<in> set xs \<Longrightarrow> reads dec (enc x) (f x)" "short xs" "v \<le> 2 ^ 40" "reads (g (map f xs)) b y"
  shows "reads (rd_bind try_read_usize (\<lambda>n. rd_bind (rd_vec v n dec) g)) (array_bytes enc xs @ b) y"
  unfolding array_bytes_def append_assoc
  by (rule reads_count [OF assms(2)], rule reads_bind, rule reads_vec_list) (use assms in simp_all)

lemma reads_counted_last:
  assumes "\<And>x. x \<in> set xs \<Longrightarrow> reads dec (enc x) (f x)" "short xs" "v \<le> 2 ^ 40"
  shows "reads (rd_bind try_read_usize (\<lambda>n. rd_vec v n dec)) (array_bytes enc xs) (map f xs)"
  unfolding array_bytes_def by (rule reads_count [OF assms(2)], rule reads_vec_list) (use assms in simp_all)

lemma reads_advance: "length b = n \<Longrightarrow> reads (try_advance n) b ()"
  by (auto simp: reads_def try_advance_def)

lemma length_concat_const: "(\<And>x. x \<in> set xs \<Longrightarrow> length (enc x) = sz) \<Longrightarrow> length (concat (map enc xs)) = length xs * sz"
  by (induction xs) simp_all

lemma reads_skip_sized:
  assumes "\<And>x. x \<in> set xs \<Longrightarrow> length (enc x) = sz" "short xs" "sz \<le> 2 ^ 40"
  shows "reads (try_skip_sized msg sz) (array_bytes enc xs) ()"
proof -
  have "length xs * sz \<le> MAX_ARRAY_LEN * 2 ^ 40" using assms(2,3) by (rule_tac mult_le_mono) simp_all
  then have mul: "checked_mul msg (length xs) sz = Inr (length xs * sz)" by (simp add: checked_mul_def)
  have "reads (rd_bind (rd_lift (checked_mul msg (length xs) sz)) (\<lambda>b. try_advance b)) (concat (map enc xs)) ()"
    using reads_advance [OF length_concat_const [OF assms(1)]] by (simp add: mul reads_def rd_bind_def rd_lift_def)
  then show ?thesis unfolding try_skip_sized_def array_bytes_def by (rule reads_count [OF assms(2)])
qed

lemmas reads_steps = reads_bind [OF reads_point] reads_bind [OF reads_u256] reads_counted [OF reads_u256] reads_counted [OF reads_point]

lemma reads_podp:
  assumes "podp_short p"
  shows "reads try_decode_podp (podp_bytes p) p"
  unfolding try_decode_podp_def podp_bytes_def
  by (intro reads_steps reads_last [OF reads_u256]) (use assms in \<open>simp_all add: podp_short_def\<close>)

lemma reads_pop: "reads try_decode_pop (pop_bytes p) p"
  unfolding try_decode_pop_def pop_bytes_def by (intro reads_steps reads_last [OF reads_u256]) simp

lemma length_point: "length (pt_to_be_bytes p) = 64"
  by (simp add: pt_to_be_bytes_def)

lemma length_agg_items: "length (opening_bytes a) = 128" "length (equality_bytes e) = 96"
  by (simp_all add: opening_bytes_def equality_bytes_def length_point split: prod.split)

lemma reads_agg:
  assumes "agg_short agg"
  shows "reads (rd_bind try_read_usize (\<lambda>h. rd_bind (try_skip_agg h) (\<lambda>_. rd_ret x))) (agg_bytes agg) x"
proof (cases agg)
  case None
  have "reads (rd_bind (try_skip_agg 0) (\<lambda>_. rd_ret x)) [] x"
    by (simp add: try_skip_agg_def reads_def rd_bind_def rd_ret_def)
  then have "reads (rd_bind try_read_usize (\<lambda>h. rd_bind (try_skip_agg h) (\<lambda>_. rd_ret x))) (word_bytes (of_nat 0) @ []) x"
    by (intro reads_count) simp
  then show ?thesis by (simp add: agg_bytes_def None)
next
  case (Some a)
  obtain cs os es where a: "a = (cs, os, es)" by (cases a)
  have "reads (try_skip_agg 1) (array_bytes pt_to_be_bytes cs @ array_bytes opening_bytes os @ array_bytes equality_bytes es) ()"
    unfolding try_skip_agg_def simp_thms if_True
    by (intro reads_bind [OF reads_skip_sized] reads_skip_sized)
      (use assms Some a in \<open>simp_all add: agg_short_def length_point length_agg_items\<close>)
  then have "reads (rd_bind try_read_usize (\<lambda>h. rd_bind (try_skip_agg h) (\<lambda>_. rd_ret x))) (word_bytes (of_nat 1)
      @ array_bytes pt_to_be_bytes cs @ array_bytes opening_bytes os @ array_bytes equality_bytes es) x"
    by (intro reads_count reads_last) simp_all
  then show ?thesis by (simp add: agg_bytes_def Some a)
qed

lemma reads_layer:
  assumes "layer_short l"
  shows "reads try_decode_committed_layer_proof (layer_bytes l) (CommittedLayerProof.truncate l)"
proof -
  have "CommittedLayerProof.truncate l =
      \<lparr>sumcheck_proof = \<lparr>sc_sum = sc_sum (sumcheck_proof l), sc_messages = sc_messages (sumcheck_proof l), sc_podp = sc_podp (sumcheck_proof l)\<rparr>,
       commitments = commitments l, pops = pops l\<rparr>" by (simp add: CommittedLayerProof.truncate_def)
  then show ?thesis unfolding try_decode_committed_layer_proof_def layer_bytes_def
    by (intro reads_steps reads_bind [OF reads_podp] reads_counted [OF reads_pop])
      (use assms in \<open>simp_all add: layer_short_def reads_agg\<close>)
qed

lemma reads_claim:
  assumes "claim_short c"
  shows "reads try_decode_claim (claim_bytes c) (PublicValueClaim.truncate c)"
  unfolding try_decode_claim_def claim_bytes_def
  by (intro reads_steps reads_last [OF reads_skip_sized])
    (use assms in \<open>simp_all add: claim_short_def PublicValueClaim.truncate_def\<close>)

lemma reads_skip_claim:
  assumes "claim_short c"
  shows "reads try_skip_claim (claim_bytes c) ()"
  unfolding try_skip_claim_def claim_bytes_def
  by (intro reads_bind [OF reads_advance] reads_skip_sized)
    (use assms in \<open>simp_all add: claim_short_def length_point\<close>)

lemma reads_eval: "podp_short (fst e) \<Longrightarrow> reads try_decode_eval (eval_bytes e) e"
  unfolding try_decode_eval_def eval_bytes_def by (intro reads_bind [OF reads_podp] reads_last [OF reads_point]) simp_all

lemma reads_input:
  assumes "input_short i"
  shows "reads try_decode_dag_input_layer_proof (input_bytes i) (input_of i)"
proof -
  have short: "short (hx_evals i)" "\<And>e. e \<in> set (hx_evals i) \<Longrightarrow> reads try_decode_eval (eval_bytes e) e"
    using assms by (auto simp: input_short_def list_all_iff reads_eval)
  have "with_capacity 216 (length (hx_evals i)) = Inr ()" using short(1) by (simp add: with_capacity_def)
  moreover have "reads (rd_vec 64 (length (hx_evals i)) try_decode_eval) (concat (map eval_bytes (hx_evals i))) (hx_evals i)"
    using reads_vec_list [of "hx_evals i" try_decode_eval eval_bytes "\<lambda>e. e" 64] short by simp
  ultimately have "reads (rd_bind (rd_lift (with_capacity 216 (length (hx_evals i)))) (\<lambda>_.
      rd_bind (rd_vec 64 (length (hx_evals i)) try_decode_eval) (\<lambda>evals.
      rd_ret \<lparr>commitment_rows = hx_rows i, podps = map fst evals, com_evals = map snd evals\<rparr>))) (concat (map eval_bytes (hx_evals i))) (input_of i)"
    by (simp add: reads_def rd_bind_def rd_lift_def rd_ret_def input_of_def)
  then show ?thesis unfolding try_decode_dag_input_layer_proof_def input_bytes_def array_bytes_def [of eval_bytes]
    by (intro reads_steps reads_count) (use assms in \<open>simp_all add: input_short_def\<close>)
qed

lemma reads_repeat:
  assumes "\<And>x. x \<in> set xs \<Longrightarrow> reads rd (enc x) ()"
  shows "reads (rd_repeat (length xs) rd) (concat (map enc xs)) ()"
  unfolding rd_repeat_def by (rule reads_last, rule reads_list [where f = "\<lambda>_. ()"], erule assms) simp

lemma reads_skip_public:
  assumes "public_short s"
  shows "reads (try_skip_sized msg 32) (public_bytes s) ()"
  unfolding public_bytes_def by (rule reads_skip_sized) (use assms in \<open>auto simp: public_short_def\<close>)

definition prefix_bytes :: "u8 list \<Rightarrow> hyrax_proof \<Rightarrow> u8 list" where
  "prefix_bytes circuit_hash p =
     circuit_hash @ array_bytes public_bytes (hx_public p) @ array_bytes pt_to_be_bytes (hx_outputs p)
     @ array_bytes layer_bytes (hx_layers p) @ array_bytes claim_bytes (hx_fs_claims p)"

lemma reads_prefix:
  assumes "counts_ok p" "length circuit_hash = 32"
  shows "reads try_decode_proof_prefix (prefix_bytes circuit_hash p) (gkr_of p)"
proof -
  have fs: "reads (rd_repeat (length (hx_fs_claims p)) try_skip_claim) (concat (map claim_bytes (hx_fs_claims p))) ()"
    by (rule reads_repeat) (use assms(1) in \<open>auto simp: counts_ok_def list_all_iff reads_skip_claim\<close>)
  have pub: "reads (rd_repeat (length (hx_public p)) (try_skip_sized msg 32)) (concat (map public_bytes (hx_public p))) ()" for msg
    by (rule reads_repeat) (use assms(1) in \<open>auto simp: counts_ok_def list_all_iff reads_skip_public\<close>)
  have layer: "\<And>l. l \<in> set (hx_layers p) \<Longrightarrow> reads try_decode_committed_layer_proof (layer_bytes l) (CommittedLayerProof.truncate l)"
    using assms(1) by (auto simp: counts_ok_def list_all_iff reads_layer)
  show ?thesis
    unfolding try_decode_proof_prefix_def prefix_bytes_def array_bytes_def [of public_bytes] array_bytes_def [of claim_bytes] append_assoc
    by (intro reads_bind [OF reads_advance [OF assms(2)]] reads_count reads_bind [OF pub] reads_steps reads_counted [OF layer] reads_last [OF fs])
      (use assms(1) in \<open>simp_all add: counts_ok_def gkr_of_def\<close>)
qed

lemma reads_skip_claims:
  assumes "counts_ok p"
  shows "reads try_skip_claims (array_bytes claim_bytes (hx_public_claims p)) ()"
  unfolding try_skip_claims_def array_bytes_def
  by (intro reads_count reads_repeat) (use assms in \<open>auto simp: counts_ok_def list_all_iff reads_skip_claim\<close>)

lemma reads_public_claims:
  assumes "counts_ok p"
  shows "reads try_decode_public_value_claims (array_bytes claim_bytes (hx_public_claims p))
    (map PublicValueClaim.truncate (hx_public_claims p))"
  unfolding try_decode_public_value_claims_def
  by (rule reads_counted_last) (use assms in \<open>auto simp: counts_ok_def list_all_iff reads_claim\<close>)

lemma reads_inputs:
  assumes "counts_ok p"
  shows "reads (rd_bind try_read_usize (\<lambda>n. rd_vec 72 n try_decode_dag_input_layer_proof))
    (array_bytes input_bytes (hx_inputs p)) (map input_of (hx_inputs p))"
  by (rule reads_counted_last) (use assms in \<open>auto simp: counts_ok_def list_all_iff reads_input\<close>)

text \<open>The embedded public inputs are read in two passes, of which the first adds up the counts.\<close>

lemma reads_count_elements:
  assumes "list_all public_short ss" "tot + length ss * MAX_ARRAY_LEN < 2 ^ 64"
  shows "reads (try_count_elements (length ss) tot) (concat (map public_bytes ss)) (tot + length (concat (map section_of ss)))"
  using assms
proof (induction ss arbitrary: tot)
  case Nil
  then show ?case using reads_ret [of tot] by simp
next
  case (Cons s ss)
  have short: "short (section_of s)" using Cons.prems(1) by (simp add: public_short_def)
  have "length (section_of s) * 32 < 2 ^ 64" using short by simp
  then have mul: "checked_mul msg (length (section_of s)) 32 = Inr (length (section_of s) * 32)" for msg by (simp add: checked_mul_def)
  have add: "checked_add msg tot (length (section_of s)) = Inr (tot + length (section_of s))" for msg
    using Cons.prems(2) short by (simp add: checked_add_def)
  have lift: "reads (rd_bind (rd_lift (Inr v)) g) b y" if "reads (g v) b y" for v and g :: "nat \<Rightarrow> nat reader" and b y
    using that by (simp add: reads_def rd_bind_def rd_lift_def)
  have adv: "reads (try_advance (length (section_of s) * 32)) (concat (map to_be_bytes (section_of s))) ()"
    by (intro reads_advance length_concat_const) simp
  have "tot + length (section_of s) + length ss * MAX_ARRAY_LEN < 2 ^ 64" using Cons.prems(2) short by simp
  from Cons.IH [OF _ this] Cons.prems(1)
  have "reads (try_count_elements (length (s # ss)) tot)
      (word_bytes (of_nat (length (section_of s))) @ concat (map to_be_bytes (section_of s)) @ concat (map public_bytes ss))
      (tot + length (section_of s) + length (concat (map section_of ss)))"
    unfolding list.size(4) add_0_right try_count_elements.simps plus_1_eq_Suc add_Suc_right
    by (intro reads_count [OF short]) (simp add: mul add lift reads_bind [OF adv])
  then show ?case by (simp add: public_bytes_def [of s] array_bytes_def add.assoc)
qed

lemma reads_at: "reads rd b x \<Longrightarrow> length (pre @ b @ post) < 2 ^ 63 \<Longrightarrow> rd (pre @ b @ post) (length pre) = Inr (x, length pre + length b)"
  by (simp add: reads_def)

lemma extract_embedded:
  assumes "counts_ok p" "length circuit_hash = 32" "length (proof_body circuit_hash p) < 2 ^ 63"
  shows "try_extract_embedded_public_inputs (proof_body circuit_hash p) = Inr (embedded_of p)"
proof -
  let ?n = "length (hx_public p)" and ?ss = "concat (map public_bytes (hx_public p))"
  obtain post where body: "proof_body circuit_hash p = circuit_hash @ word_bytes (of_nat ?n) @ ?ss @ post"
    by (simp add: proof_body_def array_bytes_def)
  let ?pre = "circuit_hash @ word_bytes (of_nat ?n)"
  have short: "?n \<le> MAX_ARRAY_LEN" "list_all public_short (hx_public p)" using assms(1) by (simp_all add: counts_ok_def)
  have "reads (rd_bind (try_advance 32) (\<lambda>_. try_read_usize)) ?pre ?n"
    by (intro reads_bind [OF reads_advance [OF assms(2)]] reads_usize short)
  from reads_at [OF this, of "[]" "?ss @ post"] assms(3)
  have head: "rd_bind (try_advance 32) (\<lambda>_. try_read_usize) (proof_body circuit_hash p) 0 = Inr (?n, length ?pre)"
    by (simp add: body)
  have "0 + ?n * MAX_ARRAY_LEN < 2 ^ 64" using short(1) by simp
  from reads_at [OF reads_count_elements [OF short(2) this], of ?pre post] assms(3)
  have count: "try_count_elements ?n 0 (proof_body circuit_hash p) (length ?pre) = Inr (length (embedded_of p), length ?pre + length ?ss)"
    by (simp add: body embedded_of_def)
  have one: "reads (rd_bind try_read_usize (\<lambda>cnt. rd_times cnt try_read_u256)) (public_bytes s) (section_of s)" if "s \<in> set (hx_public p)" for s
    unfolding public_bytes_def array_bytes_def using reads_list [of "section_of s" try_read_u256 to_be_bytes "\<lambda>x. x"] that short(2)
    by (intro reads_count) (auto simp: list_all_iff public_short_def reads_u256)
  have "reads (rd_times ?n (rd_bind try_read_usize (\<lambda>cnt. rd_times cnt try_read_u256))) ?ss (map section_of (hx_public p))"
    by (rule reads_list) (rule one)
  from reads_at [OF this, of ?pre post] assms(3)
  have read: "rd_times ?n (rd_bind try_read_usize (\<lambda>cnt. rd_times cnt try_read_u256)) (proof_body circuit_hash p) (length ?pre)
      = Inr (map section_of (hx_public p), length ?pre + length ?ss)" by (simp add: body)
  have "length (concat (map section_of ss)) \<le> length ss * MAX_ARRAY_LEN" if "list_all public_short ss" for ss
    using that by (induction ss) (simp_all add: public_short_def)
  from this [OF short(2)] have "length (embedded_of p) \<le> ?n * MAX_ARRAY_LEN" by (simp add: embedded_of_def)
  then have "with_capacity 32 (length (embedded_of p)) = Inr ()" using short(1) by (simp add: with_capacity_def)
  then show ?thesis
    by (simp add: try_extract_embedded_public_inputs_def head [simplified] count [simplified] read [simplified]) (simp add: embedded_of_def)
qed

theorem decode_proof_body:
  assumes "counts_ok p" "length circuit_hash = 32" "length (proof_body circuit_hash p) < 2 ^ 63"
  shows "try_decode_proof_for_dag (proof_body circuit_hash p) 0 =
    Inr (gkr_of p, embedded_of p, map input_of (hx_inputs p), map PublicValueClaim.truncate (hx_public_claims p))"
proof -
  let ?P = "prefix_bytes circuit_hash p" and ?C = "array_bytes claim_bytes (hx_public_claims p)"
    and ?I = "array_bytes input_bytes (hx_inputs p)"
  have body: "proof_body circuit_hash p = ?P @ ?C @ ?I" by (simp add: proof_body_def prefix_bytes_def)
  note len = assms(3) [unfolded body]
  have prefix: "try_decode_proof_prefix (?P @ ?C @ ?I) 0 = Inr (gkr_of p, length ?P)"
    using reads_at [OF reads_prefix [OF assms(1,2)], of "[]" "?C @ ?I"] len by simp
  have skip: "try_skip_claims (?P @ ?C @ ?I) (length ?P) = Inr ((), length ?P + length ?C)"
    by (rule reads_at [OF reads_skip_claims [OF assms(1)] len])
  have claims: "try_decode_public_value_claims (?P @ ?C @ ?I) (length ?P) =
      Inr (map PublicValueClaim.truncate (hx_public_claims p), length ?P + length ?C)"
    by (rule reads_at [OF reads_public_claims [OF assms(1)] len])
  have "\<exists>off. rd_bind try_read_usize (\<lambda>n. rd_vec 72 n try_decode_dag_input_layer_proof) (?P @ ?C @ ?I) (length ?P + length ?C)
      = Inr (map input_of (hx_inputs p), off)"
    using reads_at [OF reads_inputs [OF assms(1)], of "?P @ ?C" "[]"] len by auto
  then obtain off where inputs: "rd_bind try_read_usize (\<lambda>n. rd_vec 72 n try_decode_dag_input_layer_proof) (?P @ ?C @ ?I) (length ?P + length ?C)
      = Inr (map input_of (hx_inputs p), off)" by blast
  have "try_decode_proof_common (?P @ ?C @ ?I) 0 = Inr ((gkr_of p, length ?P), length ?P + length ?C)"
    by (simp add: try_decode_proof_common_def rd_bind_def rd_offset_def rd_ret_def prefix skip)
  then show ?thesis
    using extract_embedded [OF assms] by (simp add: try_decode_proof_for_dag_def body claims inputs)
qed

section \<open>Compressed points\<close>

text \<open>The numbers that the elements of \<open>Fq\<close> stand for, and what halo2curves documents of its operations: representations are the
  32 bytes of the reduced number, least significant first, and \<open>sqrt\<close> finds a root where there is one.\<close>

definition le32 :: "nat \<Rightarrow> u8 list" where
  "le32 n = le_bytes 32 n"

definition fq_laws :: "'f fq_ops \<Rightarrow> ('f \<Rightarrow> nat) \<Rightarrow> nat \<Rightarrow> bool" where
  "fq_laws fq val P \<longleftrightarrow>
     (\<forall>a. val a < P) \<and> (\<forall>a. fq_to_repr fq a = le32 (val a))
     \<and> (\<forall>n < P. \<exists>a. fq_from_repr fq (le32 n) = Some a \<and> val a = n)
     \<and> (\<forall>a. val (fq_sq fq a) = val a * val a mod P) \<and> (\<forall>a b. val (fq_times fq a b) = val a * val b mod P)
     \<and> (\<forall>a b. val (fq_plus fq a b) = (val a + val b) mod P) \<and> (\<forall>n. val (fq_of_u64 fq n) = unat n mod P)
     \<and> (\<forall>a. val (fq_negate fq a) = (P - val a) mod P)
     \<and> (\<forall>a r. fq_sqrt fq a = Some r \<longrightarrow> val r * val r mod P = val a)
     \<and> (\<forall>a y. y < P \<longrightarrow> y * y mod P = val a \<longrightarrow> fq_sqrt fq a \<noteq> None)"

text \<open>The compressed form: the \<open>x\<close> coordinate with the parity of \<open>y\<close> in bit 6 of the last byte.\<close>

definition compress_xy :: "nat \<Rightarrow> nat \<Rightarrow> u8 list" where
  "compress_xy x y = (le32 x)[31 := le32 x ! 31 OR (if odd y then 64 else 0)]"

lemma flag_bits:
  assumes "w < (64 :: u8)"
  shows "(w OR 64) AND 63 = w" "w AND 63 = w" "drop_bit 7 (w OR 64) AND 1 = 0" "drop_bit 7 w AND 1 = 0"
    "drop_bit 6 (w OR 64) AND 1 = 1" "drop_bit 6 w AND 1 = 0"
proof -
  have w: "take_bit 6 w = w" using assms
    by (intro word_unat_eq_iff [THEN iffD2]) (simp add: unsigned_take_bit_eq take_bit_nat_eq_self word_less_nat_alt)
  have m: "(63 :: u8) = mask 6" by (simp add: mask_eq_exp_minus_1)
  have d6: "drop_bit 6 w = 0" using w by (simp add: take_bit_eq_self_iff_drop_bit_eq_0)
  then have d7: "drop_bit 7 w = 0" using drop_bit_drop_bit [of 1 6 w] by simp
  show "w AND 63 = w" using w by (simp add: m take_bit_eq_mask)
  show "(w OR 64) AND 63 = w" using w by (simp add: m take_bit_eq_mask [symmetric] take_bit_or)
  show "drop_bit 7 (w OR 64) AND 1 = 0" "drop_bit 7 w AND 1 = 0" "drop_bit 6 w AND 1 = 0" "drop_bit 6 (w OR 64) AND 1 = 1"
    by (simp_all add: drop_bit_or d6 d7)
qed

lemma le32_nth: "i < 32 \<Longrightarrow> le32 n ! i = of_nat (n div 256 ^ i)" "length (le32 n) = 32"
  by (simp_all add: le32_def le_bytes_def)

lemma le32_parity: "le32 n ! 0 AND 1 = (if odd n then 1 else 0)"
  by (simp add: le32_nth and_one_eq mod_2_eq_odd)

text \<open>The modulus of the curve: the roots of \<open>y\<^sup>2\<close> are \<open>y\<close> and \<open>- y\<close>, as they are for a prime. A curve point whose coordinates are reduced
  is recovered from its compressed form.\<close>

definition base_field :: "nat \<Rightarrow> bool" where
  "base_field P \<longleftrightarrow> odd P \<and> 3 < P \<and> P \<le> 2 ^ 254
     \<and> (\<forall>y < P. \<forall>r < P. r * r mod P = y * y mod P \<longrightarrow> r = y \<or> r = (P - y) mod P)"

theorem decompress_compressed:
  assumes laws: "fq_laws fq val P" and field: "base_field P" and xy: "x < P" "y < P"
    and curve: "y * y mod P = (x * x * x + 3) mod P"
  shows "decompress_point fq (compress_xy x y) = Inr (rev (le32 x), rev (le32 y))"
proof -
  have P: "odd P" "3 < P" "P \<le> 2 ^ 254" using field by (simp_all add: base_field_def)
  have roots: "r = y \<or> r = (P - y) mod P" if "r < P" "r * r mod P = y * y mod P" for r
    using field that xy(2) by (simp add: base_field_def)
  let ?c = "compress_xy x y" and ?w = "le32 x ! 31"
  have len: "length ?c = 32" "?c \<noteq> []" by (auto simp: compress_xy_def le32_def le_bytes_def)
  have c31: "?c ! 31 = ?w OR (if odd y then 64 else 0)" by (simp add: compress_xy_def le32_nth)
  have "x div 256 ^ 31 < 64" using xy P by (simp add: div_less_iff_less_mult)
  then have w: "?w < 64" by (simp add: le32_nth word_less_nat_alt unat_of_nat)
  have tmp: "?c[31 := ?c ! 31 AND 63] = le32 x"
    using flag_bits(1,2) [OF w] by (simp add: c31 list_update_id) (simp add: compress_xy_def)
  have flags: "drop_bit 7 (?c ! 31) AND 1 = 0" "drop_bit 6 (?c ! 31) AND 1 = (if odd y then 1 else 0)"
    using flag_bits(3-6) [OF w] by (simp_all add: c31)
  note L = laws [unfolded fq_laws_def]
  obtain a where a: "fq_from_repr fq (le32 x) = Some a" "val a = x" using L xy(1) by blast
  let ?y2 = "fq_plus fq (fq_times fq (fq_sq fq a) a) (fq_of_u64 fq 3)"
  have y2: "val ?y2 = y * y mod P" using L curve P(2) by (simp add: a(2) mod_simps)
  then obtain r where r: "fq_sqrt fq ?y2 = Some r" using L xy(2) by (metis not_Some_eq)
  have "val r < P" "val r * val r mod P = y * y mod P" using L r y2 by metis+
  from roots [OF this] have root: "val r = y \<or> val r = (P - y) mod P" .
  have par: "odd ((P - y) mod P) \<longleftrightarrow> \<not> odd y" if "y \<noteq> 0"
    using that xy(2) P(1) by simp
  have neg: "val (fq_negate fq r) = y" if "(odd (val r)) \<noteq> odd y"
  proof -
    have nz: "y \<noteq> 0" using root that by (cases "y = 0") auto
    then have "val r = P - y" using root that xy(2) by auto
    then show ?thesis using L xy(2) nz by simp
  qed
  have eq: "val r = y" if "(odd (val r)) = odd y" using root that par xy(2) by (cases "y = 0") auto
  have "fq_to_repr fq (if fq_to_repr fq r ! 0 AND 1 \<noteq> (if odd y then 1 else 0) then fq_negate fq r else r) = le32 y"
    using L neg eq by (auto simp: le32_parity)
  then show ?thesis using L len flags
    by (simp add: decompress_point_def Let_def tmp a r del: not_Some_eq)
qed

text \<open>The forms of the point at infinity: no bytes, or 32 bytes with bit 7 of the last one set.\<close>

lemma decompress_infinity:
  assumes "bytes = [] \<or> length bytes = 32 \<and> 128 \<le> bytes ! 31"
  shows "decompress_point fq bytes = Inr (replicate 32 0, replicate 32 0)"
proof (cases "bytes = []")
  case True
  then show ?thesis by (simp add: decompress_point_def)
next
  case False
  then have b: "length bytes = 32" "128 \<le> bytes ! 31" using assms by auto
  have "unat (drop_bit 7 (bytes ! 31)) = 1"
  proof -
    have "unat (bytes ! 31) < 256" "128 \<le> unat (bytes ! 31)" using b(2) unsigned_less [of "bytes ! 31"] by (simp_all add: word_le_nat_alt)
    moreover have "take_bit 8 (unat (bytes ! 31)) = unat (bytes ! 31)" using unsigned_less [of "bytes ! 31"] by (intro take_bit_nat_eq_self) simp
    then have "unat (drop_bit 7 (bytes ! 31)) = drop_bit 7 (unat (bytes ! 31))" by (simp add: unsigned_drop_bit_eq)
    ultimately show ?thesis by (simp add: drop_bit_eq_div)
  qed
  then have "drop_bit 7 (bytes ! 31) = 1" by (simp add: word_unat_eq_iff)
  then show ?thesis using b(1) False by (simp add: decompress_point_def)
qed

text \<open>The bytes of a number, most significant first, in the encoder and in the verifier.\<close>

lemma rev_le32: "rev (le32 (uval x)) = to_be_bytes x"
proof -
  obtain a b c d where x: "x = U256 a b c d" by (cases x)
  have u: "rev (le_bytes 8 (unat w)) = u64_to_be_bytes w" for w
    by (simp add: le_bytes_words [symmetric] u64_le_def u64_to_be_bytes_def rev_map upt_rec)
  have v: "uval x = unat a + 256 ^ 8 * (unat b + 256 ^ 8 * (unat c + 256 ^ 8 * unat d))"
    by (simp add: x uval_U256)
  have low: "unat w < 256 ^ 8" for w :: u64 using unsigned_less [of w] by simp
  have m: "(unat w + 256 ^ 8 * n) mod 256 ^ 8 = unat w" "(unat w + 256 ^ 8 * n) div 256 ^ 8 = n" for w :: u64 and n
    using low [of w] by (simp_all del: power_numeral)
  have s: "le_bytes (8 + n) (unat w + 256 ^ 8 * k) = le_bytes 8 (unat w) @ le_bytes n k" for w :: u64 and n k
    using le_bytes_append [of 8 n "unat w + 256 ^ 8 * k"] le_bytes_mod [of 8 "unat w + 256 ^ 8 * k"] by (simp only: m)
  have "le32 (uval x) = le_bytes (8 + (8 + (8 + 8))) (uval x)" by (simp add: le32_def)
  then show ?thesis unfolding v s by (simp add: u to_be_bytes_def x limb_def)
qed

lemma fr_be_rev:
  assumes "length bytes = 32"
  shows "fr_be bytes = rev bytes"
proof -
  have "fold (\<lambda>(i, b) be. be[31 - i := b]) (enumerate 0 xs) (replicate 32 0) = replicate (32 - length xs) 0 @ rev xs"
    if "length xs \<le> 32" for xs :: "u8 list" using that
  proof (induction xs rule: rev_induct)
    case (snoc x xs)
    then have "replicate (32 - length xs) 0 = replicate (31 - length xs) (0 :: u8) @ [0]"
      by (simp add: replicate_append_same Suc_diff_le flip: replicate_Suc)
    then show ?case using snoc by (simp add: enumerate_append_eq list_update_append)
  qed simp
  from this [of bytes] show ?thesis using assms by (simp add: fr_be_def)
qed

section \<open>The encoder writes these bytes\<close>

text \<open>When a JSON value stands for an element, a list, a part of a proof: the string, without prefixes \<open>0x\<close>, is the hexadecimal form of the bytes of a
  number (least significant first) or of a compressed point of the curve modulo \<open>P\<close>.\<close>

definition json_bytes :: "'j proof_json \<Rightarrow> (string \<Rightarrow> string + u8 list) \<Rightarrow> 'j \<Rightarrow> u8 list \<Rightarrow> bool" where
  "json_bytes ops hx v bytes \<longleftrightarrow>
     (\<exists>n digits. js_str ops v = Some (concat (replicate n ''0x'') @ digits) \<and> take 2 digits \<noteq> ''0x'' \<and> hx digits = Inr bytes)"

definition json_fr :: "'j proof_json \<Rightarrow> (string \<Rightarrow> string + u8 list) \<Rightarrow> 'j \<Rightarrow> u256 \<Rightarrow> bool" where
  "json_fr ops hx v x \<longleftrightarrow> json_bytes ops hx v (le32 (uval x))"

definition curve_point :: "nat \<Rightarrow> G1Point \<Rightarrow> bool" where
  "curve_point P p \<longleftrightarrow> uval (pt_x p) < P \<and> uval (pt_y p) < P
     \<and> uval (pt_y p) ^ 2 mod P = (uval (pt_x p) ^ 3 + 3) mod P"

definition json_point :: "'j proof_json \<Rightarrow> (string \<Rightarrow> string + u8 list) \<Rightarrow> nat \<Rightarrow> 'j \<Rightarrow> G1Point \<Rightarrow> bool" where
  "json_point ops hx P v p \<longleftrightarrow>
     (\<exists>bytes. json_bytes ops hx v bytes \<and>
        (if p = INFINITY then bytes = [] \<or> length bytes = 32 \<and> 128 \<le> bytes ! 31
         else curve_point P p \<and> bytes = compress_xy (uval (pt_x p)) (uval (pt_y p))))"

definition json_list :: "'j proof_json \<Rightarrow> ('j \<Rightarrow> 'a \<Rightarrow> bool) \<Rightarrow> 'j \<Rightarrow> 'a list \<Rightarrow> bool" where
  "json_list ops rel v xs \<longleftrightarrow> (\<exists>arr. js_array ops v = Some arr \<and> list_all2 rel arr xs)"

definition json_podp :: "'j proof_json \<Rightarrow> (string \<Rightarrow> string + u8 list) \<Rightarrow> nat \<Rightarrow> 'j \<Rightarrow> PODPProof \<Rightarrow> bool" where
  "json_podp ops hx P v p \<longleftrightarrow>
     json_point ops hx P (js_get ops v ''commit_d'') (commit_d p)
     \<and> json_point ops hx P (js_get ops v ''commit_d_dot_a'') (commit_d_dot_a p)
     \<and> json_list ops (json_fr ops hx) (js_get ops v ''z_vector'') (z_vector p)
     \<and> json_fr ops hx (js_get ops v ''z_delta'') (z_delta p) \<and> json_fr ops hx (js_get ops v ''z_beta'') (z_beta p)"

definition json_pop :: "'j proof_json \<Rightarrow> (string \<Rightarrow> string + u8 list) \<Rightarrow> nat \<Rightarrow> 'j \<Rightarrow> ProofOfProduct \<Rightarrow> bool" where
  "json_pop ops hx P v p \<longleftrightarrow>
     json_point ops hx P (js_get ops v ''alpha'') (pop_alpha p) \<and> json_point ops hx P (js_get ops v ''beta'') (pop_beta p)
     \<and> json_point ops hx P (js_get ops v ''delta'') (pop_delta p)
     \<and> json_fr ops hx (js_get ops v ''z1'') (pop_z1 p) \<and> json_fr ops hx (js_get ops v ''z2'') (pop_z2 p)
     \<and> json_fr ops hx (js_get ops v ''z3'') (pop_z3 p) \<and> json_fr ops hx (js_get ops v ''z4'') (pop_z4 p)
     \<and> json_fr ops hx (js_get ops v ''z5'') (pop_z5 p)"

definition json_agg :: "'j proof_json \<Rightarrow> (string \<Rightarrow> string + u8 list) \<Rightarrow> nat \<Rightarrow> 'j \<Rightarrow> claim_agg option \<Rightarrow> bool" where
  "json_agg ops hx P v agg \<longleftrightarrow>
     (case agg of
        None \<Rightarrow> js_null ops v
      | Some (cs, os, es) \<Rightarrow> \<not> js_null ops v
          \<and> json_list ops (json_point ops hx P) (js_get ops v ''interpolant_coeffs'') cs
          \<and> json_list ops (\<lambda>v (z1, z2, a). json_fr ops hx (js_get ops v ''z1'') z1 \<and> json_fr ops hx (js_get ops v ''z2'') z2
               \<and> json_point ops hx P (js_get ops v ''alpha'') a) (js_get ops v ''proofs_of_opening'') os
          \<and> json_list ops (\<lambda>v (a, z). json_point ops hx P (js_get ops v ''alpha'') a \<and> json_fr ops hx (js_get ops v ''z'') z)
               (js_get ops v ''proofs_of_equality'') es)"

definition json_layer :: "'j proof_json \<Rightarrow> (string \<Rightarrow> string + u8 list) \<Rightarrow> nat \<Rightarrow> 'j \<Rightarrow> hyrax_layer \<Rightarrow> bool" where
  "json_layer ops hx P v l \<longleftrightarrow>
     (let pos = js_get ops v ''proof_of_sumcheck'' in
        json_point ops hx P (js_get ops pos ''sum'') (sc_sum (sumcheck_proof l))
        \<and> json_list ops (json_point ops hx P) (js_get ops pos ''messages'') (sc_messages (sumcheck_proof l))
        \<and> json_podp ops hx P (js_get ops pos ''podp'') (sc_podp (sumcheck_proof l)))
     \<and> json_list ops (json_point ops hx P) (js_get ops v ''commitments'') (commitments l)
     \<and> json_list ops (json_pop ops hx P) (js_get ops v ''proofs_of_product'') (pops l)
     \<and> json_agg ops hx P (js_get ops v ''maybe_proof_of_claim_agg'') (layer_agg l)"

definition json_claim :: "'j proof_json \<Rightarrow> (string \<Rightarrow> string + u8 list) \<Rightarrow> nat \<Rightarrow> 'j \<Rightarrow> hyrax_claim \<Rightarrow> bool" where
  "json_claim ops hx P v c \<longleftrightarrow>
     (let ev = js_get ops v ''evaluation'' in
        json_fr ops hx (js_get ops ev ''value'') (pvc_value c) \<and> json_fr ops hx (js_get ops ev ''blinding'') (pvc_blinding c)
        \<and> json_point ops hx P (js_get ops ev ''commitment'') (pvc_commitment c))
     \<and> json_list ops (json_fr ops hx) (js_get ops v ''point'') (claim_point c)"

text \<open>The buffer of an MLE may be longer than its number of elements.\<close>

definition json_public :: "'j proof_json \<Rightarrow> (string \<Rightarrow> string + u8 list) \<Rightarrow> 'j \<Rightarrow> u256 list option \<Rightarrow> bool" where
  "json_public ops hx v s \<longleftrightarrow>
     (let mle = js_at ops v 1; evals = js_get ops (js_get ops mle ''f'') ''evals'' in
      case s of
        None \<Rightarrow> js_null ops mle
      | Some vs \<Rightarrow> \<not> js_null ops mle \<and> length vs < 2 ^ 64
          \<and> js_u64 ops (js_get ops evals ''num_elements'') = Some (of_nat (length vs))
          \<and> (\<exists>arr. js_array ops (js_get ops evals ''naive_buf'') = Some arr \<and> list_all2 (json_fr ops hx) (take (length vs) arr) vs))"

definition json_eval :: "'j proof_json \<Rightarrow> (string \<Rightarrow> string + u8 list) \<Rightarrow> nat \<Rightarrow> 'j \<Rightarrow> PODPProof \<times> G1Point \<Rightarrow> bool" where
  "json_eval ops hx P v e \<longleftrightarrow> json_podp ops hx P (js_get ops v ''podp_evaluation_proof'') (fst e)
     \<and> json_point ops hx P (js_get ops v ''commitment_to_evaluation'') (snd e)"

definition json_input :: "'j proof_json \<Rightarrow> (string \<Rightarrow> string + u8 list) \<Rightarrow> nat \<Rightarrow> 'j \<Rightarrow> hyrax_input \<Rightarrow> bool" where
  "json_input ops hx P v i \<longleftrightarrow> json_list ops (json_point ops hx P) (js_get ops v ''input_commitment'') (hx_rows i)
     \<and> json_list ops (json_eval ops hx P) (js_get ops v ''evaluation_proofs'') (hx_evals i)"

definition json_proof :: "'j proof_json \<Rightarrow> (string \<Rightarrow> string + u8 list) \<Rightarrow> nat \<Rightarrow> 'j \<Rightarrow> hyrax_proof \<Rightarrow> bool" where
  "json_proof ops hx P v p \<longleftrightarrow>
     (let cp = js_get ops v ''circuit_proof'' in
        json_list ops (\<lambda>w. json_point ops hx P (js_get ops (js_at ops w 2) ''claim_commitment''))
          (js_get ops cp ''output_layer_proofs'') (hx_outputs p)
        \<and> json_list ops (\<lambda>l. json_layer ops hx P (js_at ops l 1)) (js_get ops cp ''layer_proofs'') (hx_layers p)
        \<and> json_list ops (json_claim ops hx P) (js_get ops cp ''fiat_shamir_claims'') (hx_fs_claims p))
     \<and> json_list ops (json_public ops hx) (js_get ops v ''public_inputs'') (hx_public p)
     \<and> json_list ops (json_claim ops hx P) (js_get ops v ''claims_on_public_values'') (hx_public_claims p)
     \<and> json_list ops (json_input ops hx P) (js_get ops v ''hyrax_input_proofs'') (hx_inputs p)"

text \<open>\<open>writes enc v b\<close>: the encoder appends the bytes \<open>b\<close>.\<close>

definition writes :: "('j \<Rightarrow> u8 list \<Rightarrow> encode_error + u8 list) \<Rightarrow> 'j \<Rightarrow> u8 list \<Rightarrow> bool" where
  "writes enc v b \<longleftrightarrow> (\<forall>buf. enc v buf = Inr (buf @ b))"

lemma writesD: "writes enc v b \<Longrightarrow> enc v buf = Inr (buf @ b)"
  by (simp add: writes_def)

lemma encode_u256_eq: "encode_u256 buf n = buf @ word_bytes n"
proof -
  have "u64_to_be_bytes 0 = replicate 8 0" by (simp add: u64_to_be_bytes_def map_replicate_const)
  then show ?thesis by (simp add: encode_u256_def to_be_bytes_def from_u64_def limb_def replicate_add [symmetric])
qed

lemma rfold_writes: "list_all2 (\<lambda>v x. writes enc v (bytes x)) arr xs \<Longrightarrow> rfold enc arr buf = Inr (buf @ concat (map bytes xs))"
  by (induction arr xs arbitrary: buf rule: list_all2_induct) (simp_all add: writesD)

lemma writes_list:
  assumes "json_list ops rel v xs" "\<And>v x. x \<in> set xs \<Longrightarrow> rel v x \<Longrightarrow> writes enc v (bytes x)"
  shows "writes (encode_list ops label enc) v (array_bytes bytes xs)"
proof -
  from assms(1) obtain arr where arr: "js_array ops v = Some arr" "list_all2 rel arr xs" by (auto simp: json_list_def)
  then have "list_all2 (\<lambda>v x. writes enc v (bytes x)) arr xs"
    using assms(2) by (auto simp: list_all2_conv_all_nth)
  then show ?thesis using arr list_all2_lengthD [OF arr(2)]
    by (simp add: writes_def encode_list_def encode_u256_eq rfold_writes array_bytes_def)
qed

lemma trim_0x_digits: "take 2 digits \<noteq> ''0x'' \<Longrightarrow> trim_0x (concat (replicate n ''0x'') @ digits) = digits"
  by (induction n) (subst trim_0x.simps, simp)+

lemma hex_of_bytes: "json_bytes ops hx v bytes \<Longrightarrow> hex_of ops hx v = Inr bytes"
  by (auto simp: json_bytes_def hex_of_def trim_0x_digits)

lemma writes_fr: "json_fr ops hx v x \<Longrightarrow> writes (encode_fr_from_json ops hx) v (to_be_bytes x)"
  using hex_of_bytes [of ops hx v "le32 (uval x)"] fr_be_rev [of "le32 (uval x)"]
  by (auto simp: json_fr_def writes_def encode_fr_from_json_def rev_le32 le32_nth(2))

definition fq_ok :: "'f fq_ops \<Rightarrow> nat \<Rightarrow> bool" where
  "fq_ok fq P \<longleftrightarrow> base_field P \<and> (\<exists>val. fq_laws fq val P)"

lemma decompress_json_point:
  assumes "fq_ok fq P" "curve_point P p"
  shows "decompress_point fq (compress_xy (uval (pt_x p)) (uval (pt_y p))) = Inr (to_be_bytes (pt_x p), to_be_bytes (pt_y p))"
proof -
  obtain val where "fq_laws fq val P" "base_field P" using assms(1) by (auto simp: fq_ok_def)
  moreover have "uval (pt_y p) * uval (pt_y p) mod P = (uval (pt_x p) * uval (pt_x p) * uval (pt_x p) + 3) mod P"
    using assms(2) by (simp add: curve_point_def power2_eq_square power3_eq_cube)
  ultimately show ?thesis
    using decompress_compressed [of fq val P "uval (pt_x p)" "uval (pt_y p)"] assms(2) by (simp add: rev_le32 curve_point_def)
qed

lemma writes_point:
  assumes "fq_ok fq P" "json_point ops hx P v p"
  shows "writes (encode_point_from_json ops hx fq) v (pt_to_be_bytes p)"
proof -
  obtain bytes where b: "json_bytes ops hx v bytes"
    "if p = INFINITY then bytes = [] \<or> length bytes = 32 \<and> 128 \<le> bytes ! 31
     else curve_point P p \<and> bytes = compress_xy (uval (pt_x p)) (uval (pt_y p))"
    using assms(2) by (auto simp: json_point_def)
  have "decompress_point fq bytes = Inr (to_be_bytes (pt_x p), to_be_bytes (pt_y p))"
    using b(2) decompress_infinity [of bytes fq] decompress_json_point [OF assms(1), of p]
    by (auto simp: INFINITY_def to_be_bytes_zero split: if_splits)
  then show ?thesis using hex_of_bytes [OF b(1)] by (simp add: writes_def encode_point_from_json_def pt_to_be_bytes_def)
qed

lemmas writes_elements = writes_fr [THEN writesD] writes_point [THEN writesD]

lemma writes_podp: "fq_ok fq P \<Longrightarrow> json_podp ops hx P v p \<Longrightarrow> writes (encode_podp_from_json ops hx fq) v (podp_bytes p)"
  by (clarsimp simp: json_podp_def writes_def encode_podp_from_json_def podp_bytes_def writes_elements
      writes_list [THEN writesD, OF _ writes_fr])

lemma writes_pop: "fq_ok fq P \<Longrightarrow> json_pop ops hx P v p \<Longrightarrow> writes (encode_pop ops hx fq) v (pop_bytes p)"
  by (clarsimp simp: json_pop_def writes_def encode_pop_def pop_bytes_def writes_elements)

lemma writes_agg:
  assumes f: "fq_ok fq P" and agg: "json_agg ops hx P v agg"
  shows "writes (encode_agg ops hx fq) v (agg_bytes agg)"
proof (cases agg)
  case None
  then show ?thesis using agg by (simp add: json_agg_def writes_def encode_agg_def agg_bytes_def encode_u256_eq)
next
  case (Some a)
  obtain cs os es where a: "a = (cs, os, es)" by (cases a)
  note j = agg [unfolded json_agg_def Some a option.case prod.case]
  have "writes (encode_list ops ''interpolant_coeffs'' (encode_point_from_json ops hx fq)) (js_get ops v ''interpolant_coeffs'') (array_bytes pt_to_be_bytes cs)"
    by (rule writes_list [OF conjunct1 [OF conjunct2 [OF j]]]) (rule writes_point [OF f])
  moreover have "writes (encode_list ops ''proofs_of_opening'' (encode_opening ops hx fq)) (js_get ops v ''proofs_of_opening'') (array_bytes opening_bytes os)"
    by (rule writes_list [OF conjunct1 [OF conjunct2 [OF conjunct2 [OF j]]]])
      (use f in \<open>auto simp: writes_def encode_opening_def opening_bytes_def writes_elements\<close>)
  moreover have "writes (encode_list ops ''proofs_of_equality'' (encode_equality ops hx fq)) (js_get ops v ''proofs_of_equality'') (array_bytes equality_bytes es)"
    by (rule writes_list [OF conjunct2 [OF conjunct2 [OF conjunct2 [OF j]]]])
      (use f in \<open>auto simp: writes_def encode_equality_def equality_bytes_def writes_elements\<close>)
  ultimately show ?thesis using j
    by (simp add: writes_def encode_agg_def agg_bytes_def Some a encode_u256_eq Let_def)
qed

lemma writes_layer: "fq_ok fq P \<Longrightarrow> json_layer ops hx P v l \<Longrightarrow> writes (encode_layer_proof ops hx fq) v (layer_bytes l)"
  by (clarsimp simp: json_layer_def writes_def encode_layer_proof_def layer_bytes_def Let_def writes_elements
      writes_list [THEN writesD, OF _ writes_point] writes_list [THEN writesD, OF _ writes_pop]
      writes_podp [THEN writesD] writes_agg [THEN writesD])

lemma writes_claim: "fq_ok fq P \<Longrightarrow> json_claim ops hx P v c \<Longrightarrow> writes (encode_hyrax_claim ops hx fq) v (claim_bytes c)"
  by (clarsimp simp: json_claim_def writes_def encode_hyrax_claim_def claim_bytes_def Let_def writes_elements
      writes_list [THEN writesD, OF _ writes_fr])

lemma writes_public:
  assumes "json_public ops hx v s"
  shows "writes (encode_public_input ops hx) v (public_bytes s)"
proof (cases s)
  case None
  then show ?thesis using assms
    by (simp add: json_public_def writes_def encode_public_input_def public_bytes_def section_of_def array_bytes_def encode_u256_eq Let_def)
next
  case (Some vs)
  note j = assms [unfolded json_public_def Some Let_def option.case]
  then obtain arr where arr: "js_array ops (js_get ops (js_get ops (js_get ops (js_at ops v 1) ''f'') ''evals'') ''naive_buf'') = Some arr"
    "list_all2 (json_fr ops hx) (take (length vs) arr) vs" by blast
  have "unat (of_nat (length vs) :: u64) = length vs" using j by (simp add: unat_of_nat)
  moreover have "list_all2 (\<lambda>v x. writes (encode_fr_from_json ops hx) v (to_be_bytes x)) (take (length vs) arr) vs"
    using arr(2) by (auto elim: list_all2_mono intro: writes_fr)
  ultimately show ?thesis using j arr(1)
    by (simp add: writes_def encode_public_input_def Let_def Some public_bytes_def section_of_def array_bytes_def encode_u256_eq rfold_writes)
qed

lemma writes_eval: "fq_ok fq P \<Longrightarrow> json_eval ops hx P v e \<Longrightarrow> writes (encode_eval ops hx fq) v (eval_bytes e)"
  by (clarsimp simp: json_eval_def writes_def encode_eval_def eval_bytes_def writes_elements writes_podp [THEN writesD])

lemma writes_input: "fq_ok fq P \<Longrightarrow> json_input ops hx P v i \<Longrightarrow> writes (encode_input_proof ops hx fq) v (input_bytes i)"
  by (clarsimp simp: json_input_def writes_def encode_input_proof_def input_bytes_def
      writes_list [THEN writesD, OF _ writes_point] writes_list [THEN writesD, OF _ writes_eval])

theorem encode_proof_body:
  assumes f: "fq_ok fq P" and pf: "json_proof ops hx P v p"
  shows "encode_hyrax_proof ops hx fq v circuit_hash = Inr (PROOF_SELECTOR @ proof_body circuit_hash p)"
proof -
  note j = pf [unfolded json_proof_def Let_def]
  let ?cp = "js_get ops v ''circuit_proof''"
  have "writes (encode_list ops ''output_layer_proofs''
      (\<lambda>out. encode_point_from_json ops hx fq (js_get ops (js_at ops out 2) ''claim_commitment'')))
      (js_get ops ?cp ''output_layer_proofs'') (array_bytes pt_to_be_bytes (hx_outputs p))"
    by (rule writes_list) (use j in blast, simp add: writes_def writes_point [OF f, THEN writesD])
  moreover have "writes (encode_list ops ''layer_proofs'' (\<lambda>layer. encode_layer_proof ops hx fq (js_at ops layer 1)))
      (js_get ops ?cp ''layer_proofs'') (array_bytes layer_bytes (hx_layers p))"
    by (rule writes_list) (use j in blast, simp add: writes_def writes_layer [OF f, THEN writesD])
  ultimately show ?thesis using j f
    by (clarsimp simp: encode_hyrax_proof_def Let_def proof_body_def writesD
        writes_list [THEN writesD, OF _ writes_public] writes_list [THEN writesD, OF _ writes_claim] writes_list [THEN writesD, OF _ writes_input])
qed

section \<open>Encoded proofs and generators decode\<close>

text \<open>The decoder reads the bytes after the selector \<open>PROOF_SELECTOR\<close>.\<close>

theorem encode_decode_proof:
  assumes f: "fq_ok fq P" and pf: "json_proof ops hx P v p" and ok: "counts_ok p" "length circuit_hash = 32" "length (proof_body circuit_hash p) < 2 ^ 63"
  shows "\<exists>bytes. encode_hyrax_proof ops hx fq v circuit_hash = Inr bytes
    \<and> take 4 bytes = PROOF_SELECTOR \<and> take 32 (drop 4 bytes) = circuit_hash
    \<and> try_decode_proof_for_dag (drop 4 bytes) 0 =
      Inr (gkr_of p, embedded_of p, map input_of (hx_inputs p), map PublicValueClaim.truncate (hx_public_claims p))"
  using decode_proof_body [OF assms(3-5)] assms(4) by (simp add: encode_proof_body [OF f pf] PROOF_SELECTOR_def proof_body_def)

text \<open>The generators of a committer, none at infinity, as the verifier sees them.\<close>

definition gen_point :: "'f fq_ops \<Rightarrow> ('f \<times> 'f) option \<Rightarrow> G1Point \<Rightarrow> bool" where
  "gen_point fq g p \<longleftrightarrow> (case g of None \<Rightarrow> False | Some (x, y) \<Rightarrow> rev (fq_to_repr fq x) = to_be_bytes (pt_x p) \<and> rev (fq_to_repr fq y) = to_be_bytes (pt_y p))"

definition gens_of :: "'f fq_ops \<Rightarrow> 'f committer \<Rightarrow> PedersenGens \<Rightarrow> bool" where
  "gens_of fq c g \<longleftrightarrow> list_all2 (gen_point fq) (committer_gens c) (message_gens g)
     \<and> gen_point fq (committer_scalar c) (scalar_gen g) \<and> gen_point fq (committer_blinding c) (blinding_gen g)"

definition gens_bytes :: "PedersenGens \<Rightarrow> u8 list" where
  "gens_bytes g = array_bytes pt_to_be_bytes (message_gens g) @ pt_to_be_bytes (scalar_gen g) @ pt_to_be_bytes (blinding_gen g)"

lemma writes_gen: "gen_point fq g p \<Longrightarrow> writes (encode_gen fq) g (pt_to_be_bytes p)"
  by (auto simp: gen_point_def writes_def encode_gen_def encode_fq_be_def pt_to_be_bytes_def split: option.splits)

lemma encode_gens:
  assumes "gens_of fq c g"
  shows "encode_pedersen_gens fq c = Inr (gens_bytes g)"
proof -
  have msgs: "list_all2 (gen_point fq) (committer_gens c) (message_gens g)" using assms by (simp add: gens_of_def)
  then have "list_all2 (\<lambda>v x. writes (encode_gen fq) v (pt_to_be_bytes x)) (committer_gens c) (message_gens g)"
    by (auto elim: list_all2_mono intro: writes_gen)
  from rfold_writes [OF this] show ?thesis
    using assms list_all2_lengthD [OF msgs]
    by (clarsimp simp: encode_pedersen_gens_def encode_u256_eq gens_bytes_def array_bytes_def gens_of_def writes_gen [THEN writesD])
qed

theorem encode_decode_gens:
  assumes "gens_of fq c g" "short (message_gens g)"
  shows "encode_pedersen_gens fq c = Inr (gens_bytes g)" "try_decode_pedersen_gens (gens_bytes g) = Inr g"
proof -
  have "reads try_read_gens (gens_bytes g) g"
    unfolding try_read_gens_def gens_bytes_def by (intro reads_steps reads_last [OF reads_point]) (use assms(2) in simp_all)
  moreover have "length (gens_bytes g) = 64 * length (message_gens g) + 160"
    by (simp add: gens_bytes_def array_bytes_def length_point length_concat_const [where sz = 64])
  ultimately have "try_read_gens (gens_bytes g) 0 = Inr (g, length (gens_bytes g))" "gens_bytes g \<noteq> []"
    using assms(2) by (intro reads_whole, simp_all) auto
  then show "try_decode_pedersen_gens (gens_bytes g) = Inr g" by (simp add: try_decode_pedersen_gens_def rmap_def)
qed (rule encode_gens [OF assms(1)])

lemma encode_gens_infinity: "None \<in> set (committer_gens c) \<Longrightarrow> encode_pedersen_gens fq c = Inl Gen_At_Infinity"
proof -
  have "None \<in> set gs \<Longrightarrow> rfold (encode_gen fq) gs buf = Inl Gen_At_Infinity" for gs buf
    by (induction gs arbitrary: buf) (auto simp: encode_gen_def split: option.splits)
  then show "None \<in> set (committer_gens c) \<Longrightarrow> ?thesis" by (simp add: encode_pedersen_gens_def)
qed

end
