(* ===== verification/Sha256.thy ===== *)
theory Sha256
  imports Guest_Wire Field_Limbs
begin

text \<open>
  The hash function that the verifier contract runs outside the chain (\<open>contracts/stylus/gkr-verifier/src/ec.rs\<close>,
  \<open>sha256_native\<close>), as it is written: a padding loop, a message schedule that fills an array of 64 words in place, and 64 rounds
  on eight variables. \<open>fips_sha256\<close> is the standard's definition of SHA-256 (FIPS 180-4, sections 4.1.2, 4.2.2, 5.1.1, 5.3.3 and 6.2): the
  constants as bits of roots of primes, the least number of zeros, a schedule given by its recurrence, the rounds. They agree; the digest has 32 bytes, so the function meets
  what the development assumes of the hash function elsewhere.
\<close>

section \<open>The program\<close>

text \<open>The rows of the array literal.\<close>

definition sha_K :: "u32 list" where
  "sha_K = concat
    [[0x428a2f98, 0x71374491, 0xb5c0fbcf, 0xe9b5dba5, 0x3956c25b, 0x59f111f1, 0x923f82a4],
     [0xab1c5ed5, 0xd807aa98, 0x12835b01, 0x243185be, 0x550c7dc3, 0x72be5d74, 0x80deb1fe],
     [0x9bdc06a7, 0xc19bf174, 0xe49b69c1, 0xefbe4786, 0x0fc19dc6, 0x240ca1cc, 0x2de92c6f],
     [0x4a7484aa, 0x5cb0a9dc, 0x76f988da, 0x983e5152, 0xa831c66d, 0xb00327c8, 0xbf597fc7],
     [0xc6e00bf3, 0xd5a79147, 0x06ca6351, 0x14292967, 0x27b70a85, 0x2e1b2138, 0x4d2c6dfc],
     [0x53380d13, 0x650a7354, 0x766a0abb, 0x81c2c92e, 0x92722c85, 0xa2bfe8a1, 0xa81a664b],
     [0xc24b8b70, 0xc76c51a3, 0xd192e819, 0xd6990624, 0xf40e3585, 0x106aa070, 0x19a4c116],
     [0x1e376c08, 0x2748774c, 0x34b0bcb5, 0x391c0cb3, 0x4ed8aa4a, 0x5b9cca4f, 0x682e6ff3],
     [0x748f82ee, 0x78a5636f, 0x84c87814, 0x8cc70208, 0x90befffa, 0xa4506ceb, 0xbef9a3f7],
     [0xc67178f2]]"

definition sha_H0 :: "u32 list" where
  "sha_H0 = [0x6a09e667, 0xbb67ae85, 0x3c6ef372, 0xa54ff53a, 0x510e527f, 0x9b05688c, 0x1f83d9ab, 0x5be0cd19]"

text \<open>The distance to the next length that is 56 modulo 64.\<close>

definition sha_gap :: "nat \<Rightarrow> nat" where
  "sha_gap n = (if n mod 64 \<le> 56 then 56 - n mod 64 else 120 - n mod 64)"

lemma sha_gap_Suc: "n mod 64 \<noteq> 56 \<Longrightarrow> sha_gap n = Suc (sha_gap (Suc n))"
  using mod_less_divisor [of 64 n] by (auto simp: sha_gap_def mod_Suc)

lemma sha_gap_bound: "sha_gap n < 64" "n mod 64 = 56 \<Longrightarrow> sha_gap n = 0"
  using mod_less_divisor [of 64 n] by (auto simp: sha_gap_def)

text \<open>\<open>while padded.len() % 64 != 56 \{ padded.push(0) \}\<close>.\<close>

function sha_pad_loop :: "u8 list \<Rightarrow> u8 list" where
  "sha_pad_loop padded = (if length padded mod 64 \<noteq> 56 then sha_pad_loop (padded @ [0]) else padded)"
  by pat_completeness auto

termination
  by (relation "measure (\<lambda>padded. sha_gap (length padded))") (simp_all add: sha_gap_Suc)

declare sha_pad_loop.simps [simp del]

definition sha_pad :: "u8 list \<Rightarrow> u8 list" where
  "sha_pad data = (let bit_len = of_nat (length data) * 8 in sha_pad_loop (data @ [0x80]) @ u64_to_be_bytes bit_len)"

definition u32_from_be_bytes :: "u8 \<Rightarrow> u8 \<Rightarrow> u8 \<Rightarrow> u8 \<Rightarrow> u32" where
  "u32_from_be_bytes a b c d = push_bit 24 (ucast a) OR push_bit 16 (ucast b) OR push_bit 8 (ucast c) OR ucast d"

definition u32_to_be_bytes :: "u32 \<Rightarrow> u8 list" where
  "u32_to_be_bytes x = map (\<lambda>i. ucast (drop_bit (8 * (3 - i)) x)) [0..<4]"

abbreviation rotate_right :: "u32 \<Rightarrow> nat \<Rightarrow> u32" where
  "rotate_right x n \<equiv> word_rotr n x"

text \<open>The two loops that fill the array \<open>w\<close>.\<close>

definition sha_load :: "u8 list \<Rightarrow> u32 list" where
  "sha_load block =
     fold (\<lambda>i w. w[i := u32_from_be_bytes (block ! (i * 4)) (block ! (i * 4 + 1)) (block ! (i * 4 + 2)) (block ! (i * 4 + 3))])
       [0..<16] (replicate 64 0)"

definition sha_extend :: "u32 list \<Rightarrow> u32 list" where
  "sha_extend w =
     fold (\<lambda>i w.
         let s0 = rotate_right (w ! (i - 15)) 7 XOR rotate_right (w ! (i - 15)) 18 XOR drop_bit 3 (w ! (i - 15));
             s1 = rotate_right (w ! (i - 2)) 17 XOR rotate_right (w ! (i - 2)) 19 XOR drop_bit 10 (w ! (i - 2))
         in w[i := w ! (i - 16) + s0 + w ! (i - 7) + s1])
       [16..<64] w"

type_synonym sha_vars = "u32 \<times> u32 \<times> u32 \<times> u32 \<times> u32 \<times> u32 \<times> u32 \<times> u32"

definition sha_round :: "u32 list \<Rightarrow> nat \<Rightarrow> sha_vars \<Rightarrow> sha_vars" where
  "sha_round w i = (\<lambda>(a, b, c, d, e, f, g, hh).
     let s1 = rotate_right e 6 XOR rotate_right e 11 XOR rotate_right e 25;
         ch = (e AND f) XOR (NOT e AND g);
         t1 = hh + s1 + ch + sha_K ! i + w ! i;
         s0 = rotate_right a 2 XOR rotate_right a 13 XOR rotate_right a 22;
         maj = (a AND b) XOR (a AND c) XOR (b AND c);
         t2 = s0 + maj
     in (t1 + t2, a, b, c, d + t1, e, f, g))"

definition sha_block :: "u8 list \<Rightarrow> u32 list \<Rightarrow> u32 list" where
  "sha_block block h =
     (let w = sha_extend (sha_load block);
          (a, b, c, d, e, f, g, hh) = fold (sha_round w) [0..<64] (h ! 0, h ! 1, h ! 2, h ! 3, h ! 4, h ! 5, h ! 6, h ! 7)
      in h[0 := h ! 0 + a, 1 := h ! 1 + b, 2 := h ! 2 + c, 3 := h ! 3 + d, 4 := h ! 4 + e, 5 := h ! 5 + f, 6 := h ! 6 + g, 7 := h ! 7 + hh])"

text \<open>\<open>padded.chunks_exact(64)\<close>: a last chunk that is shorter is left out.\<close>

fun chunks_exact :: "nat \<Rightarrow> 'a list \<Rightarrow> 'a list list" where
  "chunks_exact n xs = (if n = 0 \<or> length xs < n then [] else take n xs # chunks_exact n (drop n xs))"

declare chunks_exact.simps [simp del]

definition sha256_native :: "u8 list \<Rightarrow> u8 list" where
  "sha256_native data =
     (let h = fold sha_block (chunks_exact 64 (sha_pad data)) sha_H0
      in fold (\<lambda>i out. take (i * 4) out @ u32_to_be_bytes (h ! i) @ drop (i * 4 + 4) out) [0..<8] (replicate 32 0))"

section \<open>The standard\<close>

text \<open>Section 5.1.1: the message, the bit 1, the least number \<open>k\<close> of zero bits such that the length is 448 modulo 512, and the
  length of the message in bits as a 64-bit block. Messages consist of bytes, so \<open>k + 1\<close> is a multiple of 8.\<close>

definition fips_pad :: "u8 list \<Rightarrow> u8 list" where
  "fips_pad m =
     (let k = (LEAST k. (8 * length m + 1 + k) mod 512 = 448)
      in m @ [0x80] @ replicate ((k + 1) div 8 - 1) 0 @ u64_to_be_bytes (of_nat (8 * length m)))"

text \<open>Sections 4.2.2 and 5.3.3: the constants are the first 32 bits of the fractional parts of the cube roots of the first 64 primes,
  and of the square roots of the first eight. \<open>GREATEST\<close> gives the integer part of the root, shifted by 32 bits.\<close>

definition root_bits :: "nat \<Rightarrow> int \<Rightarrow> u32" where
  "root_bits k p = word_of_nat (GREATEST m. int m ^ k \<le> p * 2 ^ (32 * k))"

definition fips_primes :: "int list" where
  "fips_primes = filter (\<lambda>p. \<forall>d. 1 < d \<and> d < p \<longrightarrow> \<not> d dvd p) [2..311]"

definition fips_K :: "nat \<Rightarrow> u32" where
  "fips_K t = root_bits 3 (fips_primes ! t)"

definition Ch :: "u32 \<Rightarrow> u32 \<Rightarrow> u32 \<Rightarrow> u32" where
  "Ch x y z = (x AND y) XOR (NOT x AND z)"

definition Maj :: "u32 \<Rightarrow> u32 \<Rightarrow> u32 \<Rightarrow> u32" where
  "Maj x y z = (x AND y) XOR (x AND z) XOR (y AND z)"

definition Sigma0 :: "u32 \<Rightarrow> u32" where
  "Sigma0 x = word_rotr 2 x XOR word_rotr 13 x XOR word_rotr 22 x"

definition Sigma1 :: "u32 \<Rightarrow> u32" where
  "Sigma1 x = word_rotr 6 x XOR word_rotr 11 x XOR word_rotr 25 x"

definition sigma0 :: "u32 \<Rightarrow> u32" where
  "sigma0 x = word_rotr 7 x XOR word_rotr 18 x XOR drop_bit 3 x"

definition sigma1 :: "u32 \<Rightarrow> u32" where
  "sigma1 x = word_rotr 17 x XOR word_rotr 19 x XOR drop_bit 10 x"

text \<open>Word \<open>t\<close> of a block, and the schedule of section 6.2.2.\<close>

definition block_word :: "u8 list \<Rightarrow> nat \<Rightarrow> u32" where
  "block_word M t = u32_from_be_bytes (M ! (4 * t)) (M ! (4 * t + 1)) (M ! (4 * t + 2)) (M ! (4 * t + 3))"

fun W :: "u8 list \<Rightarrow> nat \<Rightarrow> u32" where
  "W M t = (if t < 16 then block_word M t else sigma1 (W M (t - 2)) + W M (t - 7) + sigma0 (W M (t - 15)) + W M (t - 16))"

declare W.simps [simp del]

text \<open>The working variables \<open>a\<close> to \<open>h\<close> after \<open>t\<close> rounds.\<close>

fun fips_rounds :: "u8 list \<Rightarrow> sha_vars \<Rightarrow> nat \<Rightarrow> sha_vars" where
  "fips_rounds M v 0 = v"
| "fips_rounds M v (Suc t) =
     (let (a, b, c, d, e, f, g, h) = fips_rounds M v t;
          T1 = h + Sigma1 e + Ch e f g + fips_K t + W M t;
          T2 = Sigma0 a + Maj a b c
      in (T1 + T2, a, b, c, d + T1, e, f, g))"

fun vars_list :: "sha_vars \<Rightarrow> u32 list" where
  "vars_list (a, b, c, d, e, f, g, h) = [a, b, c, d, e, f, g, h]"

definition fips_block :: "sha_vars \<Rightarrow> u8 list \<Rightarrow> sha_vars" where
  "fips_block v M =
     (let (a, b, c, d, e, f, g, h) = fips_rounds M v 64; (a', b', c', d', e', f', g', h') = v
      in (a' + a, b' + b, c' + c, d' + d, e' + e, f' + f, g' + g, h' + h))"

text \<open>The blocks \<open>M\<^sup>(\<^sup>0\<^sup>)\<close>, \<open>\<dots>\<close>, by index.\<close>

definition fips_blocks :: "u8 list \<Rightarrow> u8 list list" where
  "fips_blocks p = map (\<lambda>i. map (\<lambda>j. p ! (64 * i + j)) [0..<64]) [0..<length p div 64]"

definition fips_H0 :: sha_vars where
  "fips_H0 = (let H = (\<lambda>i. root_bits 2 (fips_primes ! i)) in (H 0, H 1, H 2, H 3, H 4, H 5, H 6, H 7))"

definition fips_sha256 :: "u8 list \<Rightarrow> u8 list" where
  "fips_sha256 m = concat (map u32_to_be_bytes (vars_list (foldl fips_block fips_H0 (fips_blocks (fips_pad m)))))"

section \<open>Constants\<close>

lemma prime_iff_small_divisors:
  assumes "2 \<le> p" "p \<le> (311 :: int)"
  shows "(\<forall>d. 1 < d \<and> d < p \<longrightarrow> \<not> d dvd p) \<longleftrightarrow> list_all (\<lambda>d. d < p \<longrightarrow> \<not> d dvd p) [2..17]"
proof
  assume r: "list_all (\<lambda>d. d < p \<longrightarrow> \<not> d dvd p) [2..17]"
  have small: "17 < d" if "1 < d" "d < p" "d dvd p" for d
  proof (rule ccontr)
    assume "\<not> 17 < d"
    then have "d \<in> {2..17}" using that by simp
    then show False using r that unfolding list_all_iff set_upto by blast
  qed
  show "\<forall>d. 1 < d \<and> d < p \<longrightarrow> \<not> d dvd p"
  proof (intro allI impI notI)
    fix d assume d: "1 < d \<and> d < p" "d dvd p"
    then obtain e where e: "p = d * e" by (elim dvdE)
    have "0 < e" using d assms e zero_less_mult_iff [of d e] by simp
    moreover have "e \<noteq> 1" using d e by auto
    ultimately have "1 < e" by simp
    moreover have "e < p" using d \<open>0 < e\<close> e mult_strict_right_mono [of 1 d e] by simp
    moreover have "e dvd p" using e by simp
    ultimately have "17 < d" "17 < e" using small d by blast+
    then have "18 * 18 \<le> d * e" by (intro mult_mono) simp_all
    then show False using e assms by simp
  qed
qed (unfold list_all_iff set_upto, auto)

lemma fips_primes_eq: "fips_primes = [2, 3, 5, 7, 11, 13, 17, 19, 23, 29, 31, 37, 41, 43, 47, 53, 59, 61, 67, 71, 73, 79, 83, 89, 97,
   101, 103, 107, 109, 113, 127, 131, 137, 139, 149, 151, 157, 163, 167, 173, 179, 181, 191, 193, 197, 199, 211, 223, 227, 229, 233,
   239, 241, 251, 257, 263, 269, 271, 277, 281, 283, 293, 307, 311]"
proof -
  have "fips_primes = filter (\<lambda>p. list_all (\<lambda>d. d < p \<longrightarrow> \<not> d dvd p) [2..17]) [2..311]"
    unfolding fips_primes_def by (rule filter_cong [OF refl]) (unfold set_upto, rule prime_iff_small_divisors, simp_all)
  also have "\<dots> = [2, 3, 5, 7, 11, 13, 17, 19, 23, 29, 31, 37, 41, 43, 47, 53, 59, 61, 67, 71, 73, 79, 83, 89, 97,
   101, 103, 107, 109, 113, 127, 131, 137, 139, 149, 151, 157, 163, 167, 173, 179, 181, 191, 193, 197, 199, 211, 223, 227, 229, 233,
   239, 241, 251, 257, 263, 269, 271, 277, 281, 283, 293, 307, 311]" by code_simp
  finally show ?thesis .
qed

text \<open>A word that is right for some integer part of the root is the one of the standard.\<close>

definition root_word :: "nat \<Rightarrow> int \<Rightarrow> u32 \<Rightarrow> bool" where
  "root_word k p w \<longleftrightarrow> list_ex (\<lambda>c. let m = c * 2 ^ 32 + uint w in m ^ k \<le> p * 2 ^ (32 * k) \<and> p * 2 ^ (32 * k) < (m + 1) ^ k) [1..6]"

lemma root_word_bits:
  assumes "root_word k p w"
  shows "root_bits k p = w"
proof -
  obtain c where c: "c \<in> set [1..6]" "(c * 2 ^ 32 + uint w) ^ k \<le> p * 2 ^ (32 * k)" "p * 2 ^ (32 * k) < (c * 2 ^ 32 + uint w + 1) ^ k"
    using assms unfolding root_word_def list_ex_iff Let_def by blast
  define m where "m = nat (c * 2 ^ 32 + uint w)"
  have m: "int m = c * 2 ^ 32 + uint w" using c(1) uint_ge_0 [of w] unfolding m_def set_upto by simp
  have "(GREATEST m. int m ^ k \<le> p * 2 ^ (32 * k)) = m"
  proof (rule Greatest_equality)
    show "int m ^ k \<le> p * 2 ^ (32 * k)" using c(2) m by simp
    fix n assume n: "int n ^ k \<le> p * 2 ^ (32 * k)"
    then have "int n ^ k < (int m + 1) ^ k" using c(3) m by simp
    then have "int n < int m + 1" by (rule power_less_imp_less_base) simp
    then show "n \<le> m" by simp
  qed
  moreover have "word_of_nat m = w"
  proof -
    have "word_of_int (int m) = (word_of_int (c * 2 ^ 32) + w :: u32)" unfolding m by simp
    moreover have "word_of_int (c * 2 ^ 32) = (0 :: u32)" unfolding of_int_mult
      by (rule mult_zero_right [THEN trans [rotated]], rule arg_cong [of _ 0], code_simp)
    ultimately show ?thesis by simp
  qed
  ultimately show ?thesis by (simp add: root_bits_def)
qed

lemma sha_constants:
  shows fips_K_nth: "t < 64 \<Longrightarrow> fips_K t = sha_K ! t" and fips_H0_list: "vars_list fips_H0 = sha_H0"
proof -
  have K: "list_all2 (root_word 3) fips_primes sha_K" unfolding fips_primes_eq by code_simp
  then have "length fips_primes = length sha_K" by (rule list_all2_lengthD)
  then show "t < 64 \<Longrightarrow> fips_K t = sha_K ! t"
    using list_all2_nthD [OF K, of t] by (auto simp: fips_K_def fips_primes_eq intro: root_word_bits)
  have H: "list_all2 (root_word 2) (take 8 fips_primes) sha_H0" unfolding fips_primes_eq by code_simp
  have "root_bits 2 (fips_primes ! i) = sha_H0 ! i" if "i < 8" for i
  proof -
    have "length (take 8 fips_primes) = 8" by (simp add: fips_primes_eq)
    then have "root_word 2 (take 8 fips_primes ! i) (sha_H0 ! i)" using list_all2_nthD [OF H, of i] that by simp
    then show ?thesis using that by (simp add: root_word_bits)
  qed
  then show "vars_list fips_H0 = sha_H0" by (simp add: fips_H0_def sha_H0_def Let_def)
qed

section \<open>Padding\<close>

lemma sha_pad_loop_eq: "sha_pad_loop p = p @ replicate (sha_gap (length p)) 0"
proof (induction p rule: sha_pad_loop.induct)
  case (1 p)
  then show ?case
    by (subst sha_pad_loop.simps) (auto simp: sha_gap_Suc sha_gap_bound)
qed

lemma sha_gap_mod: "(n + sha_gap n) mod 64 = 56"
proof -
  have "(n mod 64 + sha_gap n) mod 64 = 56"
    using mod_less_divisor [of 64 n] by (auto simp: sha_gap_def)
  then show ?thesis by (simp add: mod_simps)
qed

lemma sha_gap_bits: "(LEAST k. (8 * n + 1 + k) mod 512 = 448) = 8 * sha_gap (Suc n) + 7"
proof (rule Least_equality)
  have "(8 * n + 1 + (8 * sha_gap (Suc n) + 7)) mod 512 = 8 * ((Suc n + sha_gap (Suc n)) mod 64)"
    using mult_mod_right [of 8 "Suc n + sha_gap (Suc n)" 64] by (simp add: algebra_simps)
  then show "(8 * n + 1 + (8 * sha_gap (Suc n) + 7)) mod 512 = 448" by (simp only: sha_gap_mod)
next
  fix k assume k: "(8 * n + 1 + k) mod 512 = 448"
  show "8 * sha_gap (Suc n) + 7 \<le> k"
  proof (rule ccontr)
    assume "\<not> ?thesis"
    then have less: "k < 8 * sha_gap (Suc n) + 7" by simp
    have "(8 * n + 1 + (8 * sha_gap (Suc n) + 7)) mod 512 = 8 * ((Suc n + sha_gap (Suc n)) mod 64)"
      using mult_mod_right [of 8 "Suc n + sha_gap (Suc n)" 64] by (simp add: algebra_simps)
    then have e: "(8 * n + 1 + (8 * sha_gap (Suc n) + 7)) mod 512 = 448" by (simp only: sha_gap_mod)
    have "sha_gap (Suc n) < 64" by (rule sha_gap_bound)
    then have "8 * sha_gap (Suc n) + 7 - k < 512" by simp
    moreover have "512 dvd (8 * n + 1 + (8 * sha_gap (Suc n) + 7)) - (8 * n + 1 + k)"
      using e k less by (intro mod_eq_dvd_iff_nat [THEN iffD1]) simp_all
    ultimately show False using less by (auto dest: dvd_imp_le)
  qed
qed

lemma sha_pad_eq: "sha_pad m = fips_pad m"
  unfolding sha_pad_def fips_pad_def Let_def sha_gap_bits by (simp add: sha_pad_loop_eq mult.commute)

text \<open>The capacity that the code reserves, \<open>data.len() + 72\<close>, is enough and is needed.\<close>

lemma length_sha_pad: "length (sha_pad m) mod 64 = 0" "length (sha_pad m) \<le> length m + 72"
proof -
  have e: "length (sha_pad m) = Suc (length m) + sha_gap (Suc (length m)) + 8"
    by (simp add: sha_pad_def sha_pad_loop_eq Let_def)
  have "length (sha_pad m) mod 64 = ((Suc (length m) + sha_gap (Suc (length m))) mod 64 + 8) mod 64"
    unfolding e by (simp only: mod_simps)
  then show "length (sha_pad m) mod 64 = 0" by (simp only: sha_gap_mod) simp
  have "sha_gap (Suc (length m)) < 64" by (rule sha_gap_bound)
  then show "length (sha_pad m) \<le> length m + 72" using e by simp
qed

section \<open>Schedule and rounds\<close>

lemma fold_update:
  "length (fold (\<lambda>i w. w[i := f i]) [0..<n] w) = length w"
  "j < length w \<Longrightarrow> fold (\<lambda>i w. w[i := f i]) [0..<n] w ! j = (if j < n then f j else w ! j)"
proof -
  show len: "length (fold (\<lambda>i w. w[i := f i]) [0..<n] w) = length w" for n by (induction n) simp_all
  show "j < length w \<Longrightarrow> fold (\<lambda>i w. w[i := f i]) [0..<n] w ! j = (if j < n then f j else w ! j)"
  proof (induction n)
    case (Suc n)
    then show ?case by (cases "j = n") (auto simp: len less_Suc_eq)
  qed simp
qed

lemma sha_load_nth: "length (sha_load M) = 64" "t < 16 \<Longrightarrow> sha_load M ! t = W M t"
  by (simp_all add: sha_load_def fold_update W.simps [of M t] block_word_def mult.commute)

lemma sha_extend_upto:
  assumes "length w = 64" "\<And>t. t < 16 \<Longrightarrow> w ! t = W M t" "n \<le> 64" "16 \<le> n"
  defines "step \<equiv> \<lambda>i w. let s0 = rotate_right (w ! (i - 15)) 7 XOR rotate_right (w ! (i - 15)) 18 XOR drop_bit 3 (w ! (i - 15));
      s1 = rotate_right (w ! (i - 2)) 17 XOR rotate_right (w ! (i - 2)) 19 XOR drop_bit 10 (w ! (i - 2))
    in w[i := w ! (i - 16) + s0 + w ! (i - 7) + s1]"
  shows "length (fold step [16..<n] w) = 64 \<and> (\<forall>t < n. fold step [16..<n] w ! t = W M t)"
  using assms(4,3)
proof (induction n rule: dec_induct)
  case base
  then show ?case using assms by simp
next
  case (step n)
  then have IH: "length (fold step [16..<n] w) = 64" "\<And>t. t < n \<Longrightarrow> fold step [16..<n] w ! t = W M t" by simp_all
  have "W M n = sigma1 (W M (n - 2)) + W M (n - 7) + sigma0 (W M (n - 15)) + W M (n - 16)"
    using step.hyps by (subst W.simps) simp
  then have "step n (fold step [16..<n] w) = (fold step [16..<n] w)[n := W M n]"
    using step.hyps IH(2) by (simp add: step_def Let_def sigma0_def sigma1_def ac_simps)
  then show ?case using step IH by (auto simp: nth_list_update less_Suc_eq)
qed

lemma sha_schedule: "t < 64 \<Longrightarrow> sha_extend (sha_load M) ! t = W M t"
  unfolding sha_extend_def by (rule sha_extend_upto [OF sha_load_nth, THEN conjunct2, rule_format]) simp_all

lemma sha_rounds: "n \<le> 64 \<Longrightarrow> fold (sha_round (sha_extend (sha_load M))) [0..<n] v = fips_rounds M v n"
proof (induction n)
  case (Suc n)
  then show ?case
    by (cases "fips_rounds M v n" rule: vars_list.cases)
      (simp add: sha_round_def Sigma0_def Sigma1_def Ch_def Maj_def Let_def sha_schedule fips_K_nth)
qed simp

lemma sha_block_eq: "sha_block M (vars_list v) = vars_list (fips_block v M)"
proof -
  obtain a b c d e f g h where v: "v = (a, b, c, d, e, f, g, h)" by (rule vars_list.cases)
  obtain a' b' c' d' e' f' g' h' where r: "fips_rounds M v 64 = (a', b', c', d', e', f', g', h')" by (rule vars_list.cases)
  show ?thesis
    using sha_rounds [of 64 M v] r by (simp add: sha_block_def fips_block_def v Let_def)
qed

lemma sha_fold_blocks: "fold sha_block bs (vars_list v) = vars_list (foldl fips_block v bs)"
  by (induction bs arbitrary: v) (simp_all add: sha_block_eq)

lemma chunks_exact_eq: "chunks_exact 64 p = fips_blocks p"
proof (induction "length p div 64" arbitrary: p)
  case 0
  then have "length p < 64" by simp
  then show ?case by (simp add: chunks_exact.simps [of 64 p] fips_blocks_def)
next
  case (Suc n)
  then have len: "64 \<le> length p" by (cases "length p < 64") simp_all
  then have n: "length (drop 64 p) div 64 = n" using Suc.hyps(2) by simp
  have head: "map ((!) p) [0..<64] = take 64 p" using len by (intro nth_equalityI) simp_all
  have "fips_blocks p = map ((!) p) [0..<64] # fips_blocks (drop 64 p)"
    using len n unfolding fips_blocks_def Suc.hyps(2) [symmetric] upt_conv_Cons [OF zero_less_Suc] map_Suc_upt [symmetric]
    by (simp add: add.assoc)
  then show ?case using Suc.hyps(1) [OF n [symmetric]] len by (simp add: chunks_exact.simps [of 64 p] head)
qed

lemma sha_output:
  "fold (\<lambda>i out. take (i * 4) out @ u32_to_be_bytes (vars_list v ! i) @ drop (i * 4 + 4) out) [0..<8] (replicate 32 0)
     = concat (map u32_to_be_bytes (vars_list v))"
proof -
  have len: "length (u32_to_be_bytes x) = 4" for x by (simp add: u32_to_be_bytes_def)
  have "n \<le> 8 \<Longrightarrow> fold (\<lambda>i out. take (i * 4) out @ u32_to_be_bytes (l ! i) @ drop (i * 4 + 4) out) [0..<n] (replicate 32 0)
     = concat (map u32_to_be_bytes (take n l)) @ replicate (32 - 4 * n) 0" if "length l = 8" for l n
  proof (induction n)
    case (Suc n)
    have c: "length (concat (map u32_to_be_bytes (take n l))) = n * 4"
      using Suc.prems that by (simp add: length_concat comp_def len sum_list_triv)
    show ?case using Suc that by (simp add: c take_Suc_conv_app_nth)
  qed simp
  from this [of "vars_list v" 8] show ?thesis by (cases v rule: vars_list.cases) simp
qed

theorem sha256_native_fips: "sha256_native m = fips_sha256 m"
proof -
  have H0: "sha_H0 = vars_list fips_H0" by (rule fips_H0_list [symmetric])
  show ?thesis
    by (simp add: H0 sha256_native_def fips_sha256_def sha_fold_blocks chunks_exact_eq sha_pad_eq sha_output Let_def)
qed

theorem length_sha256_native [simp]: "length (sha256_native m) = 32"
proof -
  have "length (concat (map u32_to_be_bytes (vars_list v))) = 32" for v by (cases v rule: vars_list.cases) (simp add: u32_to_be_bytes_def)
  then show ?thesis by (simp add: sha256_native_fips fips_sha256_def)
qed

end
