(* ===== verification/Proof_Cache.thy ===== *)
theory Proof_Cache
  imports Prelude_ZK Hash_Maps Hex_Format
begin

text \<open>
  The proof cache of the prover (\<open>prover/src/proof_cache.rs\<close>): finished proofs in memory, with eviction of the least recently
  used, and in files.

  \<^item> A key is \<open>proof_key\<close>, with hashes of 32 bytes; \<open>as_hex\<close> names the file. The memory is an association list in the
    iteration order of the hash map, the directory one from file names to contents. Serialization is the parameter \<open>bincode\<close>.
  \<^item> \<open>Instant::now()\<close> and the Unix time are arguments; a \<open>Duration\<close> is a number of nanoseconds. A write to a file may fail
    and leave the old content or a prefix of the new one.
  \<^item> \<open>cache_run\<close> are the states after any sequence of operations, with the proofs that were stored. A lookup returns a
    proof that was stored under exactly that key and is not older than the time to live.
\<close>

section \<open>Data\<close>

record proof_key =
  pk_image_id :: "u8 list"
  pk_input_hash :: "u8 list"
  pk_use_snark :: bool

record cached_proof =
  cp_proof :: "u8 list"
  cp_journal :: "u8 list"
  cp_cycles :: u64
  cp_generated_at :: u64
  cp_proof_time_ms :: u64

record cache_entry =
  ce_proof :: cached_proof
  ce_last_accessed :: nat
  ce_access_count :: u64

record cache_stats =
  st_hits :: u64
  st_misses :: u64
  st_inserts :: u64
  st_evictions :: u64
  st_disk_hits :: u64

record cache_config =
  max_memory_entries :: nat
  has_disk :: bool
  cache_ttl :: nat

record proof_cache =
  pc_memory :: "(proof_key \<times> cache_entry) list"
  pc_disk :: "(string \<times> u8 list) list"
  pc_stats :: cache_stats

record bincode =
  bc_serialize :: "cached_proof \<Rightarrow> u8 list option"
  bc_deserialize :: "u8 list \<Rightarrow> cached_proof option"

text \<open>The outcome of writing a file: done, the file not opened, or an error after some bytes.\<close>

datatype disk_write = Disk_Written | Disk_Unopened | Disk_Partial nat

section \<open>Keys\<close>

definition hex_lower :: "u8 list \<Rightarrow> string" where
  "hex_lower bs = concat (map (\<lambda>b. hex_padded 2 (unat b)) bs)"

definition as_hex :: "proof_key \<Rightarrow> string" where
  "as_hex k = hex_lower (pk_image_id k) @ ''_'' @ hex_lower (pk_input_hash k) @ (if pk_use_snark k then ''_snark'' else ''_stark'')"

definition file_of :: "proof_key \<Rightarrow> string" where
  "file_of k = as_hex k @ ''.bin''"

definition key_wf :: "proof_key \<Rightarrow> bool" where
  "key_wf k \<longleftrightarrow> length (pk_image_id k) = 32 \<and> length (pk_input_hash k) = 32"

section \<open>Operations\<close>

definition cached_proof_new :: "u8 list \<Rightarrow> u8 list \<Rightarrow> u64 \<Rightarrow> nat \<Rightarrow> u64 \<Rightarrow> cached_proof" where
  "cached_proof_new proof journal cycles proof_time now =
     \<lparr>cp_proof = proof, cp_journal = journal, cp_cycles = cycles, cp_generated_at = now,
      cp_proof_time_ms = of_nat (proof_time div 1000000)\<rparr>"

definition cache_new :: "(string \<times> u8 list) list \<Rightarrow> proof_cache" where
  "cache_new disk = \<lparr>pc_memory = [], pc_disk = disk,
     pc_stats = \<lparr>st_hits = 0, st_misses = 0, st_inserts = 0, st_evictions = 0, st_disk_hits = 0\<rparr>\<rparr>"

definition with_defaults :: cache_config where
  "with_defaults = \<lparr>max_memory_entries = 1000, has_disk = True, cache_ttl = 24 * 3600 * 1000000000\<rparr>"

text \<open>\<open>now.saturating_sub(generated_at)\<close>, in seconds.\<close>

definition proof_age :: "u64 \<Rightarrow> cached_proof \<Rightarrow> nat" where
  "proof_age now p = unat now - unat (cp_generated_at p)"

definition proof_fresh :: "cache_config \<Rightarrow> u64 \<Rightarrow> cached_proof \<Rightarrow> bool" where
  "proof_fresh cfg now p \<longleftrightarrow> proof_age now p * 1000000000 \<le> cache_ttl cfg"

text \<open>\<open>min_by_key\<close>: the first entry with the least time of access.\<close>

definition lru_key :: "(proof_key \<times> cache_entry) list \<Rightarrow> proof_key option" where
  "lru_key m = (if m = [] then None else Some (fst (arg_min_list (\<lambda>(_, e). ce_last_accessed e) m)))"

lemma lru_key_min:
  assumes "lru_key m = Some k"
  shows "\<exists>e. (k, e) \<in> set m \<and> (\<forall>(k', e') \<in> set m. ce_last_accessed e \<le> ce_last_accessed e')"
proof -
  have m: "m \<noteq> []" "k = fst (arg_min_list (\<lambda>(_, e). ce_last_accessed e) m)" using assms by (auto simp: lru_key_def split: if_splits)
  let ?a = "arg_min_list (\<lambda>(_, e). ce_last_accessed e) m"
  have "?a \<in> set m" "\<And>y. y \<in> set m \<Longrightarrow> (case ?a of (_, e) \<Rightarrow> ce_last_accessed e) \<le> (case y of (_, e) \<Rightarrow> ce_last_accessed e)"
    using m(1) arg_min_list_in f_arg_min_list_f [of m "\<lambda>(_, e). ce_last_accessed e"] by auto
  then show ?thesis using m(2) by (intro exI [of _ "snd ?a"]) (fastforce simp: case_prod_unfold)
qed

lemma length_delete_less: "k \<in> fst ` set m \<Longrightarrow> length (AList.delete k m) < length m"
  by (auto simp: AList.delete_eq intro!: length_filter_less)

function lru_evict :: "nat \<Rightarrow> (proof_key \<times> cache_entry) list \<Rightarrow> cache_stats \<Rightarrow> (proof_key \<times> cache_entry) list \<times> cache_stats" where
  "lru_evict mx m st =
     (if mx \<le> length m then
        case lru_key m of
          Some k \<Rightarrow> lru_evict mx (AList.delete k m) (st\<lparr>st_evictions := st_evictions st + 1\<rparr>)
        | None \<Rightarrow> (m, st)
      else (m, st))"
  by pat_completeness auto

termination
  by (relation "measure (\<lambda>(_, m, _). length m)") (auto dest!: lru_key_min intro!: length_delete_less simp: rev_image_eqI)

declare lru_evict.simps [simp del]

definition insert_memory :: "cache_config \<Rightarrow> nat \<Rightarrow> proof_key \<Rightarrow> cached_proof \<Rightarrow> proof_cache \<Rightarrow> proof_cache" where
  "insert_memory cfg inst k p c =
     (let (m, st) = lru_evict (max_memory_entries cfg) (pc_memory c) (pc_stats c)
      in c\<lparr>pc_memory := AList.update k \<lparr>ce_proof = p, ce_last_accessed = inst, ce_access_count = 1\<rparr> m, pc_stats := st\<rparr>)"

definition load_from_disk :: "bincode \<Rightarrow> (string \<times> u8 list) list \<Rightarrow> proof_key \<Rightarrow> cached_proof option" where
  "load_from_disk bc disk k = Option.bind (map_of disk (file_of k)) (bc_deserialize bc)"

definition save_to_disk :: "bincode \<Rightarrow> disk_write \<Rightarrow> (string \<times> u8 list) list \<Rightarrow> proof_key \<Rightarrow> cached_proof \<Rightarrow> (string \<times> u8 list) list" where
  "save_to_disk bc w disk k p =
     (case bc_serialize bc p of
        None \<Rightarrow> disk
      | Some data \<Rightarrow>
          (case w of
             Disk_Written \<Rightarrow> AList.update (file_of k) data disk
           | Disk_Unopened \<Rightarrow> disk
           | Disk_Partial n \<Rightarrow> AList.update (file_of k) (take n data) disk))"

definition record_miss :: "proof_cache \<Rightarrow> proof_cache" where
  "record_miss c = c\<lparr>pc_stats := (pc_stats c)\<lparr>st_misses := st_misses (pc_stats c) + 1\<rparr>\<rparr>"

definition get_disk :: "cache_config \<Rightarrow> bincode \<Rightarrow> u64 \<Rightarrow> nat \<Rightarrow> proof_key \<Rightarrow> proof_cache \<Rightarrow> cached_proof option \<times> proof_cache" where
  "get_disk cfg bc now inst k c =
     (case (if has_disk cfg then load_from_disk bc (pc_disk c) k else None) of
        Some p \<Rightarrow>
          (if proof_fresh cfg now p then
             let c = insert_memory cfg inst k p c
             in (Some p, c\<lparr>pc_stats := (pc_stats c)\<lparr>st_hits := st_hits (pc_stats c) + 1, st_disk_hits := st_disk_hits (pc_stats c) + 1\<rparr>\<rparr>)
           else (None, record_miss c))
      | None \<Rightarrow> (None, record_miss c))"

definition cache_get :: "cache_config \<Rightarrow> bincode \<Rightarrow> u64 \<Rightarrow> nat \<Rightarrow> proof_key \<Rightarrow> proof_cache \<Rightarrow> cached_proof option \<times> proof_cache" where
  "cache_get cfg bc now inst k c =
     (case map_of (pc_memory c) k of
        Some e \<Rightarrow>
          (if \<not> proof_fresh cfg now (ce_proof e) then get_disk cfg bc now inst k (c\<lparr>pc_memory := AList.delete k (pc_memory c)\<rparr>)
           else (Some (ce_proof e),
             c\<lparr>pc_memory := AList.update k (e\<lparr>ce_last_accessed := inst, ce_access_count := ce_access_count e + 1\<rparr>) (pc_memory c),
               pc_stats := (pc_stats c)\<lparr>st_hits := st_hits (pc_stats c) + 1\<rparr>\<rparr>))
      | None \<Rightarrow> get_disk cfg bc now inst k c)"

definition cache_put :: "cache_config \<Rightarrow> bincode \<Rightarrow> disk_write \<Rightarrow> nat \<Rightarrow> proof_key \<Rightarrow> cached_proof \<Rightarrow> proof_cache \<Rightarrow> proof_cache" where
  "cache_put cfg bc w inst k p c =
     (let c = insert_memory cfg inst k p c;
          c = (if has_disk cfg then c\<lparr>pc_disk := save_to_disk bc w (pc_disk c) k p\<rparr> else c)
      in c\<lparr>pc_stats := (pc_stats c)\<lparr>st_inserts := st_inserts (pc_stats c) + 1\<rparr>\<rparr>)"

text \<open>\<open>retain\<close> compares whole seconds.\<close>

definition cleanup_expired :: "cache_config \<Rightarrow> u64 \<Rightarrow> proof_cache \<Rightarrow> nat \<times> proof_cache" where
  "cleanup_expired cfg now c =
     (let m = filter (\<lambda>(_, e). proof_age now (ce_proof e) < cache_ttl cfg div 1000000000) (pc_memory c)
      in (length (pc_memory c) - length m, c\<lparr>pc_memory := m\<rparr>))"

text \<open>\<open>path.extension() == Some("bin")\<close>: the part after the last dot, which is not the first character.\<close>

definition has_bin_extension :: "string \<Rightarrow> bool" where
  "has_bin_extension name \<longleftrightarrow> 4 < length name \<and> drop (length name - 4) name = ''.bin''"

text \<open>\<open>readable\<close> and \<open>removable\<close> say of which files \<open>read\<close> and \<open>remove_file\<close> succeed.\<close>

definition cleanup_file ::
  "cache_config \<Rightarrow> bincode \<Rightarrow> (string \<Rightarrow> bool) \<Rightarrow> (string \<Rightarrow> bool) \<Rightarrow> u64 \<Rightarrow> string \<times> u8 list
     \<Rightarrow> nat \<times> (string \<times> u8 list) list \<Rightarrow> nat \<times> (string \<times> u8 list) list" where
  "cleanup_file cfg bc readable removable now = (\<lambda>(name, data) (removed, disk).
     if \<not> has_bin_extension name \<or> \<not> readable name then (removed, disk)
     else let gone = (if removable name then AList.delete name disk else disk)
          in case bc_deserialize bc data of
               Some p \<Rightarrow>
                 (if cache_ttl cfg div 1000000000 < proof_age now p
                  then (if removable name then removed + 1 else removed, gone) else (removed, disk))
             | None \<Rightarrow> (removed + 1, gone))"

definition cleanup_disk_expired ::
  "cache_config \<Rightarrow> bincode \<Rightarrow> (string \<Rightarrow> bool) \<Rightarrow> (string \<Rightarrow> bool) \<Rightarrow> u64 \<Rightarrow> proof_cache \<Rightarrow> nat \<times> proof_cache" where
  "cleanup_disk_expired cfg bc readable removable now c =
     (if \<not> has_disk cfg then (0, c)
      else let (removed, disk) = fold (cleanup_file cfg bc readable removable now) (pc_disk c) (0, pc_disk c)
           in (removed, c\<lparr>pc_disk := disk\<rparr>))"

text \<open>One tick of the background task.\<close>

definition cleanup_tick ::
  "cache_config \<Rightarrow> bincode \<Rightarrow> (string \<Rightarrow> bool) \<Rightarrow> (string \<Rightarrow> bool) \<Rightarrow> u64 \<Rightarrow> proof_cache \<Rightarrow> proof_cache" where
  "cleanup_tick cfg bc readable removable now c =
     snd (cleanup_disk_expired cfg bc readable removable now (snd (cleanup_expired cfg now c)))"

section \<open>File names\<close>

lemma length_hex_byte: "length (hex_padded 2 (unat (b :: u8))) = 2"
proof -
  have "unat b < 256" using unsigned_less [of b] by simp
  then have "length (hex_digits (unat b)) \<le> 2"
    by (subst hex_digits.simps, subst hex_digits.simps) (auto simp: div_less_iff_less_mult)
  then show ?thesis by (simp add: hex_padded_def Let_def)
qed

lemma length_hex_lower: "length (hex_lower bs) = 2 * length bs"
  by (induction bs) (simp_all add: hex_lower_def length_hex_byte)

lemma hex_lower_inject: "length bs = length cs \<Longrightarrow> hex_lower bs = hex_lower cs \<longleftrightarrow> bs = cs"
proof (induction bs cs rule: list_induct2)
  case (Cons b bs c cs)
  then show ?case
    by (auto simp: hex_lower_def append_eq_append_conv length_hex_byte hex_padded_inject word_unat_eq_iff)
qed simp

lemma file_of_inject: "key_wf k \<Longrightarrow> key_wf k' \<Longrightarrow> file_of k = file_of k' \<longleftrightarrow> k = k'"
  by (auto simp: file_of_def as_hex_def key_wf_def append_eq_append_conv length_hex_lower hex_lower_inject split: if_splits
      intro!: proof_key.equality)

section \<open>Runs of the cache\<close>

text \<open>What bincode guarantees: deserializing inverts serializing, and data that end too early are an error.\<close>

definition bincode_ok :: "bincode \<Rightarrow> bool" where
  "bincode_ok bc \<longleftrightarrow>
     (\<forall>p data. bc_serialize bc p = Some data \<longrightarrow> bc_deserialize bc data = Some p \<and> (\<forall>n < length data. bc_deserialize bc (take n data) = None))"

text \<open>The states after any operations on a cache that starts with an empty directory; \<open>P\<close> are the proofs stored so far.\<close>

inductive cache_run :: "cache_config \<Rightarrow> bincode \<Rightarrow> (proof_key \<times> cached_proof) set \<Rightarrow> proof_cache \<Rightarrow> bool" for cfg bc where
  run_new: "cache_run cfg bc {} (cache_new [])"
| run_put: "cache_run cfg bc P c \<Longrightarrow> key_wf k \<Longrightarrow> cache_run cfg bc (insert (k, p) P) (cache_put cfg bc w inst k p c)"
| run_get: "cache_run cfg bc P c \<Longrightarrow> key_wf k \<Longrightarrow> cache_run cfg bc P (snd (cache_get cfg bc now inst k c))"
| run_cleanup: "cache_run cfg bc P c \<Longrightarrow> cache_run cfg bc P (cleanup_tick cfg bc readable removable now c)"
| run_restart: "cache_run cfg bc P c \<Longrightarrow> cache_run cfg bc P (cache_new (pc_disk c))"

definition memory_inv :: "cache_config \<Rightarrow> (proof_key \<times> cached_proof) set \<Rightarrow> (proof_key \<times> cache_entry) list \<Rightarrow> bool" where
  "memory_inv cfg P m \<longleftrightarrow> keys_ok m \<and> length m \<le> max 1 (max_memory_entries cfg) \<and> (\<forall>(k, e) \<in> set m. key_wf k \<and> (k, ce_proof e) \<in> P)"

definition disk_inv :: "bincode \<Rightarrow> (proof_key \<times> cached_proof) set \<Rightarrow> (string \<times> u8 list) list \<Rightarrow> bool" where
  "disk_inv bc P disk \<longleftrightarrow> keys_ok disk
     \<and> (\<forall>k p. key_wf k \<longrightarrow> load_from_disk bc disk k = Some p \<longrightarrow> (k, p) \<in> P)"

definition cache_inv :: "cache_config \<Rightarrow> bincode \<Rightarrow> (proof_key \<times> cached_proof) set \<Rightarrow> proof_cache \<Rightarrow> bool" where
  "cache_inv cfg bc P c \<longleftrightarrow> memory_inv cfg P (pc_memory c) \<and> disk_inv bc P (pc_disk c)"

lemma set_delete_subset: "set (AList.delete k m) \<subseteq> set m"
  by (auto simp: AList.delete_eq)

lemma memory_inv_delete: "memory_inv cfg P m \<Longrightarrow> memory_inv cfg P (AList.delete k m)"
  using set_delete_subset [of k m] length_delete_le [of k m] by (fastforce simp: memory_inv_def)

text \<open>Eviction makes room, and keeps what the entries satisfy.\<close>

lemma lru_evict_inv:
  assumes "memory_inv cfg P m"
  shows "memory_inv cfg P (fst (lru_evict mx m st)) \<and> length (fst (lru_evict mx m st)) \<le> mx - 1 \<and> set (fst (lru_evict mx m st)) \<subseteq> set m"
  using assms
proof (induction mx m st rule: lru_evict.induct)
  case (1 mx m st)
  show ?case
  proof (cases "mx \<le> length m \<and> m \<noteq> []")
    case True
    then obtain k where k: "lru_key m = Some k" by (simp add: lru_key_def)
    then show ?thesis
      using 1(1) [OF _ k memory_inv_delete [OF 1(2)]] True set_delete_subset [of k m] by (subst (1 2 3) lru_evict.simps) auto
  next
    case False
    then have "lru_evict mx m st = (m, st)" by (subst lru_evict.simps) (auto simp: lru_key_def)
    then show ?thesis using False 1(2) by auto
  qed
qed

lemma set_update_subset: "set (AList.update k v m) \<subseteq> insert (k, v) (set m)"
  by (induction m) auto

lemma length_update: "length (AList.update k v m) = (if k \<in> fst ` set m then length m else Suc (length m))"
  by (induction m) auto

lemma insert_memory_simps:
  "pc_disk (insert_memory cfg inst k p c) = pc_disk c"
  "map_of (pc_memory (insert_memory cfg inst k p c)) k = Some \<lparr>ce_proof = p, ce_last_accessed = inst, ce_access_count = 1\<rparr>"
  by (simp_all add: insert_memory_def case_prod_unfold Let_def)

lemma insert_memory_inv:
  assumes "memory_inv cfg P (pc_memory c)" "key_wf k" "(k, p) \<in> P"
  shows "memory_inv cfg P (pc_memory (insert_memory cfg inst k p c))"
proof -
  let ?m = "fst (lru_evict (max_memory_entries cfg) (pc_memory c) (pc_stats c))"
  let ?e = "\<lparr>ce_proof = p, ce_last_accessed = inst, ce_access_count = 1\<rparr>"
  have m: "memory_inv cfg P ?m" "length ?m \<le> max_memory_entries cfg - 1" using lru_evict_inv [OF assms(1)] by blast+
  have "pc_memory (insert_memory cfg inst k p c) = AList.update k ?e ?m" by (simp add: insert_memory_def case_prod_unfold Let_def)
  moreover have "length (AList.update k ?e ?m) \<le> max 1 (max_memory_entries cfg)" using m(2) by (auto simp: length_update max_def)
  ultimately show ?thesis using m(1) assms(2,3) set_update_subset [of k ?e ?m] by (fastforce simp: memory_inv_def)
qed

lemma memory_inv_mono: "memory_inv cfg P m \<Longrightarrow> P \<subseteq> P' \<Longrightarrow> memory_inv cfg P' m"
  by (fastforce simp: memory_inv_def)

lemma save_to_disk_inv:
  assumes "bincode_ok bc" "disk_inv bc P disk" "key_wf k"
  shows "disk_inv bc (insert (k, p) P) (save_to_disk bc w disk k p)"
proof -
  have wr: "disk_inv bc (insert (k, p) P) (AList.update (file_of k) data disk)" if "bc_deserialize bc data \<in> {None, Some p}" for data
    using assms(2) that file_of_inject [OF _ assms(3)]
    by (auto simp: disk_inv_def load_from_disk_def split: if_splits)
  have keep: "disk_inv bc (insert (k, p) P) disk" using assms(2) by (auto simp: disk_inv_def)
  have "bc_deserialize bc (take n data) \<in> {None, Some p}" if "bc_serialize bc p = Some data" for n data
    using assms(1) that by (cases "n < length data") (auto simp: bincode_ok_def)
  then show ?thesis using assms(1) wr keep
    by (auto simp: save_to_disk_def bincode_ok_def split: option.split disk_write.split)
qed

lemma cache_put_inv:
  assumes "bincode_ok bc" "cache_inv cfg bc P c" "key_wf k"
  shows "cache_inv cfg bc (insert (k, p) P) (cache_put cfg bc w inst k p c)"
proof -
  have "memory_inv cfg (insert (k, p) P) (pc_memory (insert_memory cfg inst k p c))"
    using assms(2,3) by (intro insert_memory_inv) (auto simp: cache_inv_def intro: memory_inv_mono)
  moreover have "disk_inv bc (insert (k, p) P) (pc_disk c)" using assms(2) by (auto simp: cache_inv_def disk_inv_def)
  ultimately show ?thesis
    using save_to_disk_inv [OF assms(1) _ assms(3)] assms(2) by (simp add: cache_inv_def cache_put_def Let_def insert_memory_simps)
qed

text \<open>A lookup keeps the invariant and returns a stored proof that is not too old.\<close>

lemma get_disk_inv:
  assumes "cache_inv cfg bc P c" "key_wf k" "get_disk cfg bc now inst k c = (r, c')"
  shows "cache_inv cfg bc P c'" "r = Some p \<Longrightarrow> (k, p) \<in> P \<and> proof_fresh cfg now p"
proof -
  have "(k, p) \<in> P" if "load_from_disk bc (pc_disk c) k = Some p" for p
    using that assms(1,2) by (simp add: cache_inv_def disk_inv_def)
  moreover have "memory_inv cfg P (pc_memory (insert_memory cfg inst k p c))" if "(k, p) \<in> P" for p
    using that assms(1,2) by (intro insert_memory_inv) (simp_all add: cache_inv_def)
  ultimately show "cache_inv cfg bc P c'" "r = Some p \<Longrightarrow> (k, p) \<in> P \<and> proof_fresh cfg now p"
    using assms(1,3)
    by (auto simp: get_disk_def cache_inv_def record_miss_def Let_def insert_memory_simps split: option.splits if_splits)
qed

lemma cache_get_inv:
  assumes "cache_inv cfg bc P c" "key_wf k" "cache_get cfg bc now inst k c = (r, c')"
  shows "cache_inv cfg bc P c' \<and> (\<forall>p. r = Some p \<longrightarrow> (k, p) \<in> P \<and> proof_fresh cfg now p)"
proof (cases "map_of (pc_memory c) k")
  case None
  then show ?thesis using get_disk_inv [OF assms(1,2)] assms(3) by (auto simp: cache_get_def)
next
  case (Some e)
  have e: "(k, e) \<in> set (pc_memory c)" using Some by (rule map_of_SomeD)
  have del: "cache_inv cfg bc P (c\<lparr>pc_memory := AList.delete k (pc_memory c)\<rparr>)"
    using assms(1) memory_inv_delete by (auto simp: cache_inv_def)
  have touch: "memory_inv cfg P (AList.update k (e\<lparr>ce_last_accessed := i, ce_access_count := n\<rparr>) (pc_memory c))" for i n
  proof -
    let ?e = "e\<lparr>ce_last_accessed := i, ce_access_count := n\<rparr>"
    have m: "memory_inv cfg P (pc_memory c)" using assms(1) by (simp add: cache_inv_def)
    have "k \<in> fst ` set (pc_memory c)" using e by force
    then have "length (AList.update k ?e (pc_memory c)) = length (pc_memory c)" by (simp add: length_update)
    moreover have "key_wf k' \<and> (k', ce_proof e') \<in> P" if "(k', e') \<in> set (AList.update k ?e (pc_memory c))" for k' e'
    proof -
      from that set_update_subset [of k ?e "pc_memory c"] consider "k' = k" "e' = ?e" | "(k', e') \<in> set (pc_memory c)" by auto
      then show ?thesis using m e by cases (auto simp: memory_inv_def)
    qed
    ultimately show ?thesis using m by (auto simp: memory_inv_def)
  qed
  have "(k, ce_proof e) \<in> P" using assms(1) e by (fastforce simp: cache_inv_def memory_inv_def)
  moreover have "cache_inv cfg bc P (c\<lparr>pc_memory := AList.update k (e\<lparr>ce_last_accessed := i, ce_access_count := n\<rparr>) (pc_memory c), pc_stats := st\<rparr>)" for i n st
    using touch assms(1) by (simp add: cache_inv_def)
  ultimately show ?thesis
  proof (cases "proof_fresh cfg now (ce_proof e)")
    case False
    then have "get_disk cfg bc now inst k (c\<lparr>pc_memory := AList.delete k (pc_memory c)\<rparr>) = (r, c')"
      using assms(3) Some by (simp add: cache_get_def)
    from get_disk_inv [OF del assms(2) this] show ?thesis by blast
  qed (use assms(3) Some in \<open>auto simp: cache_get_def\<close>)
qed

lemma disk_inv_delete: "disk_inv bc P disk \<Longrightarrow> disk_inv bc P (AList.delete name disk)"
  by (auto simp: disk_inv_def load_from_disk_def split: if_splits)

lemma cleanup_tick_inv:
  assumes "cache_inv cfg bc P c"
  shows "cache_inv cfg bc P (cleanup_tick cfg bc readable removable now c)"
proof -
  have one: "disk_inv bc P (snd (cleanup_file cfg bc readable removable now f rd))" if "disk_inv bc P (snd rd)" for f rd
    using that disk_inv_delete [of bc P "snd rd" "fst f"]
    by (cases f, cases rd) (auto simp: cleanup_file_def Let_def split: option.split)
  have "disk_inv bc P (snd (fold (cleanup_file cfg bc readable removable now) fs rd))" if "disk_inv bc P (snd rd)" for fs rd
    using that by (induction fs arbitrary: rd) (simp_all add: one)
  from this [of "(0, pc_disk c)" "pc_disk c"] assms
  have disk: "disk_inv bc P (snd (fold (cleanup_file cfg bc readable removable now) (pc_disk c) (0, pc_disk c)))"
    by (simp add: cache_inv_def)
  have "memory_inv cfg P (filter Q (pc_memory c))" for Q
  proof -
    have "length (pc_memory c) \<le> max 1 (max_memory_entries cfg)" using assms by (simp add: cache_inv_def memory_inv_def)
    then have "length (filter Q (pc_memory c)) \<le> max 1 (max_memory_entries cfg)" by (rule order_trans [OF length_filter_le])
    then show ?thesis using assms by (auto simp: cache_inv_def memory_inv_def keys_ok_def distinct_map_filter)
  qed
  then show ?thesis using disk assms
    by (simp add: cleanup_tick_def cleanup_disk_expired_def cleanup_expired_def Let_def cache_inv_def case_prod_unfold)
qed

theorem cache_run_inv:
  assumes "cache_run cfg bc P c" "bincode_ok bc"
  shows "cache_inv cfg bc P c"
  using assms(1)
proof induction
  case run_new
  then show ?case by (simp add: cache_inv_def memory_inv_def disk_inv_def cache_new_def load_from_disk_def)
next
  case (run_put P c k p w inst)
  then show ?case using cache_put_inv [OF assms(2)] by blast
next
  case (run_get P c k now inst)
  then show ?case using cache_get_inv [of cfg bc P c k now inst] by (metis prod.collapse)
next
  case (run_cleanup P c readable removable now)
  then show ?case by (simp add: cleanup_tick_inv)
next
  case (run_restart P c)
  then show ?case by (simp add: cache_inv_def memory_inv_def cache_new_def)
qed

section \<open>Storing and looking up\<close>

theorem get_after_put:
  assumes "proof_fresh cfg now p"
  shows "fst (cache_get cfg bc now inst' k (cache_put cfg bc w inst k p c)) = Some p"
  using assms by (simp add: cache_get_def cache_put_def Let_def insert_memory_simps)

text \<open>After a restart the proof comes from the file, when that was written.\<close>

theorem get_after_restart:
  assumes "bincode_ok bc" "bc_serialize bc p = Some data" "has_disk cfg" "proof_fresh cfg now p"
  shows "fst (cache_get cfg bc now inst' k (cache_new (pc_disk (cache_put cfg bc Disk_Written inst k p c)))) = Some p"
proof -
  have "bc_deserialize bc data = Some p" using assms(1,2) by (simp add: bincode_ok_def)
  then show ?thesis using assms(2-4)
    by (simp add: cache_get_def cache_new_def get_disk_def load_from_disk_def cache_put_def save_to_disk_def insert_memory_simps Let_def)
qed

text \<open>A proof that is as old as the time to live is served, and dropped by the cleanup.\<close>

theorem age_equal_ttl:
  assumes "map_of (pc_memory c) k = Some e" "cache_ttl cfg = proof_age now (ce_proof e) * 1000000000" "keys_ok (pc_memory c)"
  shows "fst (cache_get cfg bc now inst k c) = Some (ce_proof e)" "map_of (pc_memory (snd (cleanup_expired cfg now c))) k = None"
proof -
  show "fst (cache_get cfg bc now inst k c) = Some (ce_proof e)"
    using assms by (simp add: cache_get_def proof_fresh_def)
  have "(k, e) \<in> set (pc_memory c)" using assms(1) by (rule map_of_SomeD)
  then show "map_of (pc_memory (snd (cleanup_expired cfg now c))) k = None"
    using assms by (auto simp: cleanup_expired_def Let_def map_of_eq_None_iff in_set_iff_map_of)
qed

text \<open>Storing under a key that is present evicts another entry when the memory is full.\<close>

theorem put_same_key_evicts:
  assumes "pc_memory c = [(k1, e1), (k2, e2)]" "k1 \<noteq> k2" "ce_last_accessed e1 < ce_last_accessed e2" "max_memory_entries cfg = 2"
  shows "map fst (pc_memory (cache_put cfg bc w inst k2 p c)) = [k2]"
proof -
  have k: "lru_key [(k1, e1), (k2, e2)] = Some k1" using assms(3) by (simp add: lru_key_def)
  have "fst (lru_evict 2 [(k1, e1), (k2, e2)] st) = [(k2, e2)]" for st
    using assms(2) by (simp add: lru_evict.simps [of 2] k)
  then show ?thesis using assms(1,4)
    by (simp add: cache_put_def insert_memory_def Let_def case_prod_unfold)
qed

end
