(* ===== verification/Tx_Sender.thy ===== *)
theory Tx_Sender
  imports Prelude_ZK Net_Addr "HOL-Library.Sublist" "HOL-Library.Multiset"
begin

text \<open>
  Transactions of the prover: the nonce manager (\<open>prover/src/nonce.rs\<close>) and the retry loops around \<open>claimExecution\<close> and
  \<open>submitProof\<close> (\<open>prover/src/monitor.rs\<close>).

  \<^item> The counters of the nonce manager wrap, as \<open>AtomicU64\<close> does. Tasks share the manager, and its operations are several atomic
    steps: \<open>op_atoms\<close> are the steps of an operation, \<open>interleaving\<close> relates the steps of the tasks to a run, and \<open>atoms_alone\<close> shows that
    an operation without steps of other tasks in between is the function that the retry loop uses.
  \<^item> The node is a function of the transactions sent so far: it answers a transaction with a receipt, an error while waiting
    for the receipt, or an error of the call; and \<open>get_transaction_count\<close> with a number or an error.
\<close>

section \<open>The nonce manager\<close>

record nonce_manager =
  current_nonce :: u64
  pending_count :: u64

definition nonce_new :: "u64 \<Rightarrow> nonce_manager" where
  "nonce_new nonce = \<lparr>current_nonce = nonce, pending_count = 0\<rparr>"

definition next_nonce :: "nonce_manager \<Rightarrow> u64 \<times> nonce_manager" where
  "next_nonce nm = (current_nonce nm, nm\<lparr>current_nonce := current_nonce nm + 1, pending_count := pending_count nm + 1\<rparr>)"

definition transaction_completed :: "nonce_manager \<Rightarrow> nonce_manager" where
  "transaction_completed nm = nm\<lparr>pending_count := pending_count nm - 1\<rparr>"

text \<open>\<open>chain\<close> is the answer of the node to \<open>get_transaction_count\<close>.\<close>

definition sync_from_chain :: "string + u64 \<Rightarrow> nonce_manager \<Rightarrow> (string + u64) \<times> nonce_manager" where
  "sync_from_chain chain nm =
     (case chain of
        Inl e \<Rightarrow> (Inl e, nm)
      | Inr chain_nonce \<Rightarrow> (Inr chain_nonce, nm\<lparr>current_nonce := chain_nonce, pending_count := 0\<rparr>))"

text \<open>\<open>str::contains\<close>.\<close>

definition str_contains :: "string \<Rightarrow> string \<Rightarrow> bool" where
  "str_contains s p \<longleftrightarrow> list_ex (\<lambda>i. take (length p) (drop i s) = p) [0..<Suc (length s)]"

definition is_nonce_error :: "string \<Rightarrow> bool" where
  "is_nonce_error err \<longleftrightarrow>
     (let error_lower = to_lowercase err
      in str_contains error_lower ''nonce too low'' \<or> str_contains error_lower ''nonce too high''
         \<or> str_contains error_lower ''replacement transaction underpriced'' \<or> str_contains error_lower ''already known'')"

text \<open>An error of the node is handed on by \<open>?\<close>, before \<open>transaction_completed\<close>.\<close>

definition handle_nonce_error :: "string + u64 \<Rightarrow> string \<Rightarrow> u64 \<Rightarrow> nonce_manager \<Rightarrow> (string + unit) \<times> nonce_manager" where
  "handle_nonce_error chain err used_nonce nm =
     (if is_nonce_error err then
        case sync_from_chain chain nm of
          (Inl e, nm) \<Rightarrow> (Inl e, nm)
        | (Inr _, nm) \<Rightarrow> (Inr (), transaction_completed nm)
      else (Inr (), transaction_completed nm))"

section \<open>Retries\<close>

record retry_config =
  max_retries :: nat
  initial_delay :: nat
  backoff :: "nat \<Rightarrow> nat"

text \<open>Delays in milliseconds, doubled up to ten seconds.\<close>

definition retry_default :: retry_config where
  "retry_default = \<lparr>max_retries = 3, initial_delay = 500, backoff = (\<lambda>delay. min (delay * 2) 10000)\<rparr>"

definition permanent_errors :: "string list" where
  "permanent_errors =
     [''nonce too low'', ''insufficient funds'', ''execution reverted'', ''already claimed'', ''already completed'',
      ''request not found'', ''not pending'', ''invalid signature'', ''gas too low'', ''max fee per gas less than block base fee'']"

definition transient_errors :: "string list" where
  "transient_errors =
     [''timeout'', ''timed out'', ''connection'', ''network'', ''rate limit'', ''too many requests'', ''429'', ''500'', ''502'',
      ''503'', ''504'', ''temporarily unavailable'', ''try again'', ''retry'', ''econnreset'', ''econnrefused'', ''socket hang up'']"

definition is_retryable_error :: "string \<Rightarrow> bool" where
  "is_retryable_error err =
     (let error_lower = to_lowercase err
      in if list_ex (str_contains error_lower) permanent_errors then False
         else if list_ex (str_contains error_lower) transient_errors then True
         else False)"

text \<open>A transaction with its nonce, and what the node answers. A receipt says whether the transaction reverted, which
  the code does not look at.\<close>

datatype tx = Claim "256 word" | Submit "256 word" "u8 list" "u8 list"

datatype tx_outcome =
    Receipt (tx_hash: "u8 list") (tx_status: bool)
  | Receipt_Error string
  | Send_Error string

record chain_node =
  answer :: "(tx \<times> u64) list \<Rightarrow> tx_outcome"
  tx_count :: "(tx \<times> u64) list \<Rightarrow> string + u64"

datatype tx_error =
    Receipt_Failed nat string
  | Send_Failed nat string
  | Sync_Failed string

record tx_result =
  result_hash :: "u8 list"
  attempts_made :: nat

text \<open>The transactions sent, the nonce manager, and the delays slept.\<close>

record sender =
  sent_txs :: "(tx \<times> u64) list"
  sender_nonces :: nonce_manager
  slept :: "nat list"

text \<open>The body of the loops of \<open>send_claim_with_retry\<close> and \<open>send_submit_with_retry\<close>, which differ in the transaction only. An error
  leads to another attempt while it is retryable and attempts are left.\<close>

definition give_up :: "retry_config \<Rightarrow> nat \<Rightarrow> string \<Rightarrow> bool" where
  "give_up cfg attempts err \<longleftrightarrow> \<not> is_retryable_error err \<or> max_retries cfg \<le> attempts"

function send_loop :: "chain_node \<Rightarrow> retry_config \<Rightarrow> tx \<Rightarrow> nat \<Rightarrow> nat \<Rightarrow> sender \<Rightarrow> (tx_error + tx_result) \<times> sender" where
  "send_loop nd cfg t attempts delay s =
     (let attempts = attempts + 1;
          (nonce, nm) = next_nonce (sender_nonces s);
          s = s\<lparr>sent_txs := sent_txs s @ [(t, nonce)], sender_nonces := nm\<rparr>
      in case answer nd (sent_txs s) of
           Receipt h st \<Rightarrow> (Inr \<lparr>result_hash = h, attempts_made = attempts\<rparr>, s\<lparr>sender_nonces := transaction_completed nm\<rparr>)
         | Receipt_Error err \<Rightarrow>
             (case handle_nonce_error (tx_count nd (sent_txs s)) err nonce nm of
                (Inl e, nm) \<Rightarrow> (Inl (Sync_Failed e), s\<lparr>sender_nonces := nm\<rparr>)
              | (Inr _, nm) \<Rightarrow>
                  if give_up cfg attempts err then (Inl (Receipt_Failed attempts err), s\<lparr>sender_nonces := nm\<rparr>)
                  else send_loop nd cfg t attempts (backoff cfg delay) (s\<lparr>sender_nonces := nm, slept := slept s @ [delay]\<rparr>))
         | Send_Error err \<Rightarrow>
             (case handle_nonce_error (tx_count nd (sent_txs s)) err nonce nm of
                (Inl e, nm) \<Rightarrow> (Inl (Sync_Failed e), s\<lparr>sender_nonces := nm\<rparr>)
              | (Inr _, nm) \<Rightarrow>
                  if give_up cfg attempts err then (Inl (Send_Failed attempts err), s\<lparr>sender_nonces := nm\<rparr>)
                  else send_loop nd cfg t attempts (backoff cfg delay) (s\<lparr>sender_nonces := nm, slept := slept s @ [delay]\<rparr>)))"
  by pat_completeness auto

termination
  by (relation "measure (\<lambda>(_, cfg, _, attempts, _, _). max_retries cfg - attempts)") (auto simp: give_up_def)

declare send_loop.simps [simp del]

definition send_claim_with_retry :: "chain_node \<Rightarrow> 256 word \<Rightarrow> retry_config \<Rightarrow> sender \<Rightarrow> (tx_error + tx_result) \<times> sender" where
  "send_claim_with_retry nd request_id cfg s = send_loop nd cfg (Claim request_id) 0 (initial_delay cfg) s"

definition send_submit_with_retry ::
  "chain_node \<Rightarrow> 256 word \<Rightarrow> u8 list \<Rightarrow> u8 list \<Rightarrow> retry_config \<Rightarrow> sender \<Rightarrow> (tx_error + tx_result) \<times> sender" where
  "send_submit_with_retry nd request_id proof journal cfg s =
     send_loop nd cfg (Submit request_id proof journal) 0 (initial_delay cfg) s"

section \<open>Strings\<close>

lemma str_contains_iff: "str_contains s p \<longleftrightarrow> sublist p s"
proof
  assume "str_contains s p"
  then obtain i where "take (length p) (drop i s) = p" by (auto simp: str_contains_def list_ex_iff)
  then have "s = take i s @ p @ drop (length p) (drop i s)" by (metis append_take_drop_id)
  then show "sublist p s" by (metis sublist_appendI)
next
  assume "sublist p s"
  then obtain xs ys where "s = xs @ p @ ys" by (auto simp: sublist_def)
  then show "str_contains s p" by (auto simp: str_contains_def list_ex_iff intro!: bexI [of _ "length xs"])
qed

section \<open>Nonces\<close>

text \<open>The atomic steps on the two counters: \<open>fetch_add\<close> on the nonce, which also hands the nonce out, \<open>fetch_add\<close> and \<open>fetch_sub\<close> on the
  count, \<open>swap\<close> of the nonce and \<open>store(0)\<close> of the count. The state is paired with the nonces handed out.\<close>

datatype atom = Fetch_Nonce | Add_Pending | Sub_Pending | Swap_Nonce u64 | Zero_Pending

fun atom_step :: "atom \<Rightarrow> u64 list \<times> nonce_manager \<Rightarrow> u64 list \<times> nonce_manager" where
  "atom_step Fetch_Nonce (issued, nm) = (issued @ [current_nonce nm], nm\<lparr>current_nonce := current_nonce nm + 1\<rparr>)"
| "atom_step Add_Pending (issued, nm) = (issued, nm\<lparr>pending_count := pending_count nm + 1\<rparr>)"
| "atom_step Sub_Pending (issued, nm) = (issued, nm\<lparr>pending_count := pending_count nm - 1\<rparr>)"
| "atom_step (Swap_Nonce n) (issued, nm) = (issued, nm\<lparr>current_nonce := n\<rparr>)"
| "atom_step Zero_Pending (issued, nm) = (issued, nm\<lparr>pending_count := 0\<rparr>)"

definition run_atoms :: "atom list \<Rightarrow> u64 \<Rightarrow> u64 list \<times> nonce_manager" where
  "run_atoms xs n = fold atom_step xs ([], nonce_new n)"

text \<open>The calls of a task: \<open>next_nonce\<close>, \<open>transaction_completed\<close>, \<open>sync_from_chain\<close> and \<open>handle_nonce_error\<close>, the last two with the answer of
  the node.\<close>

datatype nonce_op = Issue | Complete | Sync "string + u64" | Fail string "string + u64"

fun sync_atoms :: "string + u64 \<Rightarrow> atom list" where
  "sync_atoms (Inl e) = []"
| "sync_atoms (Inr n) = [Swap_Nonce n, Zero_Pending]"

fun op_atoms :: "nonce_op \<Rightarrow> atom list" where
  "op_atoms Issue = [Fetch_Nonce, Add_Pending]"
| "op_atoms Complete = [Sub_Pending]"
| "op_atoms (Sync chain) = sync_atoms chain"
| "op_atoms (Fail err chain) =
     (if is_nonce_error err then case chain of Inl e \<Rightarrow> [] | Inr n \<Rightarrow> sync_atoms chain @ [Sub_Pending] else [Sub_Pending])"

definition task_atoms :: "nonce_op list \<Rightarrow> atom list" where
  "task_atoms ops = concat (map op_atoms ops)"

lemma atoms_alone:
  "fold atom_step (op_atoms Issue) (issued, nm) = (issued @ [fst (next_nonce nm)], snd (next_nonce nm))"
  "fold atom_step (op_atoms Complete) (issued, nm) = (issued, transaction_completed nm)"
  "fold atom_step (op_atoms (Sync chain)) (issued, nm) = (issued, snd (sync_from_chain chain nm))"
  "fold atom_step (op_atoms (Fail err chain)) (issued, nm) = (issued, snd (handle_nonce_error chain err used nm))"
  by (simp_all add: next_nonce_def transaction_completed_def sync_from_chain_def handle_nonce_error_def split: sum.split)

text \<open>The runs of tasks, each with its list of steps left.\<close>

inductive interleaving :: "'a list list \<Rightarrow> 'a list \<Rightarrow> bool" where
  interleaving_done: "\<forall>t \<in> set ts. t = [] \<Longrightarrow> interleaving ts []"
| interleaving_step: "i < length ts \<Longrightarrow> ts ! i = x # t \<Longrightarrow> interleaving (ts[i := t]) xs \<Longrightarrow> interleaving ts (x # xs)"

lemma mset_concat_update:
  "i < length ts \<Longrightarrow> ts ! i = x # t \<Longrightarrow> mset (concat ts) = add_mset x (mset (concat (ts[i := t])))"
proof (induction ts arbitrary: i)
  case (Cons u us)
  then show ?case by (cases i) auto
qed simp

lemma interleaving_mset: "interleaving ts xs \<Longrightarrow> mset xs = mset (concat ts)"
  by (induction rule: interleaving.induct) (simp_all add: mset_concat_update)

text \<open>The texts of an error about the nonce.\<close>

definition nonce_texts :: "string list" where
  "nonce_texts = [''nonce too low'', ''nonce too high'', ''replacement transaction underpriced'', ''already known'']"

lemma is_nonce_error_iff: "is_nonce_error err \<longleftrightarrow> (\<exists>t \<in> set nonce_texts. sublist t (to_lowercase err))"
  by (simp add: is_nonce_error_def nonce_texts_def Let_def str_contains_iff)

text \<open>Without synchronization, the nonces are consecutive, whichever tasks ask for them, and the counter is the number of
  transactions that are not completed.\<close>

lemma atoms_counts:
  assumes "set xs \<subseteq> {Fetch_Nonce, Add_Pending, Sub_Pending}"
  shows "fold atom_step xs (issued, nm) =
    (issued @ map (\<lambda>i. current_nonce nm + of_nat i) [0..<count_list xs Fetch_Nonce],
     nm\<lparr>current_nonce := current_nonce nm + of_nat (count_list xs Fetch_Nonce),
        pending_count := pending_count nm + of_nat (count_list xs Add_Pending) - of_nat (count_list xs Sub_Pending)\<rparr>)"
  using assms
proof (induction xs arbitrary: issued nm)
  case (Cons a xs)
  have shift: "map (\<lambda>i. c + of_nat i) [0..<Suc n] = c # map (\<lambda>i. c + 1 + of_nat i) [0..<n]" for c :: u64 and n
    unfolding upt_conv_Cons [OF zero_less_Suc] map_Suc_upt [symmetric] by (simp add: add.assoc)
  from Cons.prems consider "a = Fetch_Nonce" | "a = Add_Pending" | "a = Sub_Pending" by auto
  then show ?case
  proof cases
    case 1
    then show ?thesis using Cons by (simp add: shift add.assoc del: upt_Suc)
  qed (use Cons in \<open>simp_all add: algebra_simps\<close>)
qed simp

lemma distinct_consecutive: "k \<le> 2 ^ 64 \<Longrightarrow> distinct (map (\<lambda>i. n + of_nat i :: u64) [0..<k])"
proof -
  assume k: "k \<le> 2 ^ 64"
  have "i = j" if "i < k" "j < k" "(of_nat i :: u64) = of_nat j" for i j
  proof -
    have "i < 2 ^ 64" "j < 2 ^ 64" using that k by simp_all
    then have "unat (of_nat i :: u64) = i" "unat (of_nat j :: u64) = j" by (simp_all add: unat_of_nat)
    then show ?thesis using that(3) by metis
  qed
  then show ?thesis by (auto simp: distinct_map inj_on_def)
qed

text \<open>Calls that do not synchronize: \<open>next_nonce\<close>, \<open>transaction_completed\<close>, and \<open>handle_nonce_error\<close> with another error.\<close>

fun local_op :: "nonce_op \<Rightarrow> bool" where
  "local_op Issue = True"
| "local_op Complete = True"
| "local_op (Sync chain) = False"
| "local_op (Fail err chain) = (\<forall>t \<in> set nonce_texts. \<not> sublist t (to_lowercase err))"

lemma local_op_atoms: "local_op op \<Longrightarrow> op_atoms op = (if op = Issue then [Fetch_Nonce, Add_Pending] else [Sub_Pending])"
  by (cases op) (auto simp: is_nonce_error_iff)

lemma task_atoms_counts:
  assumes "\<forall>op \<in> set ops. local_op op"
  shows "set (task_atoms ops) \<subseteq> {Fetch_Nonce, Add_Pending, Sub_Pending}"
    "count_list (task_atoms ops) Fetch_Nonce = count_list ops Issue" "count_list (task_atoms ops) Add_Pending = count_list ops Issue"
    "count_list (task_atoms ops) Sub_Pending = length ops - count_list ops Issue"
  using assms
  by (induction ops) (auto simp: task_atoms_def local_op_atoms Suc_diff_le count_le_length)

theorem nonces_local:
  assumes "interleaving (map task_atoms tasks) xs" "\<forall>op \<in> set (concat tasks). local_op op" "count_list (concat tasks) Issue \<le> 2 ^ 64"
  defines "k \<equiv> count_list (concat tasks) Issue"
  shows "run_atoms xs n = (map (\<lambda>i. n + of_nat i) [0..<k],
      \<lparr>current_nonce = n + of_nat k, pending_count = of_nat k - of_nat (length (concat tasks) - k)\<rparr>)"
    "distinct (fst (run_atoms xs n))"
proof -
  have "concat (map task_atoms tasks) = task_atoms (concat tasks)" by (induction tasks) (simp_all add: task_atoms_def)
  then have m: "mset xs = mset (task_atoms (concat tasks))" using interleaving_mset [OF assms(1)] by simp
  then have c: "count_list xs a = count_list (task_atoms (concat tasks)) a" "set xs = set (task_atoms (concat tasks))" for a
    by (metis count_mset, metis mset_eq_setD)
  show "run_atoms xs n = (map (\<lambda>i. n + of_nat i) [0..<k],
      \<lparr>current_nonce = n + of_nat k, pending_count = of_nat k - of_nat (length (concat tasks) - k)\<rparr>)"
    using task_atoms_counts [OF assms(2)] atoms_counts [of xs "[]" "nonce_new n"] by (simp add: c run_atoms_def nonce_new_def k_def)
  then show "distinct (fst (run_atoms xs n))" using distinct_consecutive assms(3) by (simp add: k_def)
qed

text \<open>A transaction that fails with an error about its nonce leaves the counter at its greatest value, when no other task
  steps in between.\<close>

lemma nonce_error_wraps_pending:
  assumes "t \<in> set nonce_texts" "sublist t (to_lowercase err)"
  shows "fold atom_step (op_atoms (Fail err (Inr m))) s = (fst s, \<lparr>current_nonce = m, pending_count = - 1\<rparr>)"
  using assms by (cases s) (auto simp: is_nonce_error_iff)

lemma run_atoms_nonce_error:
  assumes "t \<in> set nonce_texts" "sublist t (to_lowercase err)"
  shows "snd (run_atoms (xs @ op_atoms (Fail err (Inr m))) n) = \<lparr>current_nonce = m, pending_count = - 1\<rparr>"
  using nonce_error_wraps_pending [OF assms] by (simp add: run_atoms_def del: op_atoms.simps)

text \<open>The node counts the transactions that are mined. A task that runs into a nonce error makes the manager issue the nonce of
  another task's transaction again.\<close>

lemma nonce_reissued:
  assumes "t \<in> set nonce_texts" "sublist t (to_lowercase err)"
  shows "\<exists>ys. interleaving (map task_atoms [[Issue], [Issue, Fail err (Inr n), Issue]]) ys \<and> fst (run_atoms ys n) = [n, n + 1, n]"
proof (intro exI conjI)
  have e: "is_nonce_error err" using assms is_nonce_error_iff by blast
  let ?ys = "[Fetch_Nonce, Add_Pending, Fetch_Nonce, Add_Pending, Swap_Nonce n, Zero_Pending, Sub_Pending, Fetch_Nonce, Add_Pending]"
  show "interleaving (map task_atoms [[Issue], [Issue, Fail err (Inr n), Issue]]) ?ys"
    by (simp add: task_atoms_def e)
       (rule interleaving_step [of 0], simp, simp, rule interleaving_step [of 0], simp, simp,
        (rule interleaving_step [of 1], simp, simp)+, rule interleaving_done, simp)
  show "fst (run_atoms ?ys n) = [n, n + 1, n]" by (simp add: run_atoms_def nonce_new_def)
qed

section \<open>The retry loop\<close>

text \<open>Between one and \<open>max_retries\<close> copies of the transaction are sent. The result is a receipt of the last one, or its error,
  which is permanent or came with the last attempt, or an error of the node while synchronizing.\<close>

definition explained :: "chain_node \<Rightarrow> retry_config \<Rightarrow> tx_error + tx_result \<Rightarrow> nat \<Rightarrow> (tx \<times> u64) list \<Rightarrow> bool" where
  "explained nd cfg r k log \<longleftrightarrow>
     (case r of
        Inr res \<Rightarrow> attempts_made res = k \<and> (\<exists>st. answer nd log = Receipt (result_hash res) st)
      | Inl (Receipt_Failed n err) \<Rightarrow> n = k \<and> answer nd log = Receipt_Error err \<and> give_up cfg k err
      | Inl (Send_Failed n err) \<Rightarrow> n = k \<and> answer nd log = Send_Error err \<and> give_up cfg k err
      | Inl (Sync_Failed e) \<Rightarrow> tx_count nd log = Inl e)"

definition tx_done :: "chain_node \<Rightarrow> retry_config \<Rightarrow> tx \<Rightarrow> nat \<Rightarrow> (tx \<times> u64) list \<Rightarrow> tx_error + tx_result \<Rightarrow> (tx \<times> u64) list \<Rightarrow> bool" where
  "tx_done nd cfg t attempts log r log' \<longleftrightarrow>
     (\<exists>ns. ns \<noteq> [] \<and> length ns \<le> max 1 (max_retries cfg - attempts) \<and> log' = log @ map (Pair t) ns
      \<and> explained nd cfg r (attempts + length ns) log')"

lemma tx_done_retry:
  assumes "tx_done nd cfg t (attempts + 1) (log @ [(t, n)]) r log'" "\<not> give_up cfg (attempts + 1) err"
  shows "tx_done nd cfg t attempts log r log'"
proof -
  have left: "attempts + 1 < max_retries cfg" using assms(2) by (simp add: give_up_def)
  from assms(1) obtain ns where ns: "length ns \<le> max 1 (max_retries cfg - (attempts + 1))"
    "log' = log @ map (Pair t) (n # ns)" "explained nd cfg r (attempts + 1 + length ns) log'"
    unfolding tx_done_def by (metis append.assoc append_Cons append_Nil list.simps(9))
  have "length (n # ns) \<le> max 1 (max_retries cfg - attempts)" using ns(1) left by simp
  then show ?thesis unfolding tx_done_def by (intro exI [of _ "n # ns"]) (use ns(2,3) in simp)
qed

lemma tx_done_once:
  assumes "log' = log @ [(t, n)]" "explained nd cfg r (attempts + 1) log'"
  shows "tx_done nd cfg t attempts log r log'"
  unfolding tx_done_def by (intro exI [of _ "[n]"]) (use assms in simp)

lemma handle_nonce_error_Inl: "handle_nonce_error chain err n nm = (Inl e, nm') \<Longrightarrow> chain = Inl e"
  by (auto simp: handle_nonce_error_def sync_from_chain_def split: if_splits sum.splits)

theorem send_loop_done:
  assumes "send_loop nd cfg t attempts delay s = (r, s')"
  shows "tx_done nd cfg t attempts (sent_txs s) r (sent_txs s')"
  using assms
proof (induction nd cfg t attempts delay s rule: send_loop.induct)
  case (1 nd cfg t attempts delay s)
  obtain nonce nm where nn: "next_nonce (sender_nonces s) = (nonce, nm)" by (cases "next_nonce (sender_nonces s)")
  let ?s = "s\<lparr>sent_txs := sent_txs s @ [(t, nonce)], sender_nonces := nm\<rparr>"
  note run = 1(3) [unfolded send_loop.simps [of nd cfg t attempts delay s] Let_def nn prod.case]
  note IH = 1(1,2) [OF refl nn [symmetric] refl refl]
  show ?case
  proof (cases "answer nd (sent_txs ?s)")
    case (Receipt h st)
    then show ?thesis using run by (intro tx_done_once) (auto simp: explained_def)
  next
    case (Receipt_Error err)
    obtain q nm' where h: "handle_nonce_error (tx_count nd (sent_txs ?s)) err nonce nm = (q, nm')" by fastforce
    show ?thesis
    proof (cases q)
      case (Inl e)
      then show ?thesis using run Receipt_Error h handle_nonce_error_Inl by (intro tx_done_once) (auto simp: explained_def)
    next
      case (Inr u)
      show ?thesis
      proof (cases "give_up cfg (attempts + 1) err")
        case True
        then show ?thesis using run Receipt_Error h Inr by (intro tx_done_once) (auto simp: explained_def)
      next
        case False
        then have "tx_done nd cfg t (attempts + 1) (sent_txs s @ [(t, nonce)]) r (sent_txs s')"
          using IH(1) [OF Receipt_Error h [symmetric] Inr] run Receipt_Error h Inr by simp
        then show ?thesis using False by (rule tx_done_retry)
      qed
    qed
  next
    case (Send_Error err)
    obtain q nm' where h: "handle_nonce_error (tx_count nd (sent_txs ?s)) err nonce nm = (q, nm')" by fastforce
    show ?thesis
    proof (cases q)
      case (Inl e)
      then show ?thesis using run Send_Error h handle_nonce_error_Inl by (intro tx_done_once) (auto simp: explained_def)
    next
      case (Inr u)
      show ?thesis
      proof (cases "give_up cfg (attempts + 1) err")
        case True
        then show ?thesis using run Send_Error h Inr by (intro tx_done_once) (auto simp: explained_def)
      next
        case False
        then have "tx_done nd cfg t (attempts + 1) (sent_txs s @ [(t, nonce)]) r (sent_txs s')"
          using IH(2) [OF Send_Error h [symmetric] Inr] run Send_Error h Inr by simp
        then show ?thesis using False by (rule tx_done_retry)
      qed
    qed
  qed
qed

end
