(* ===== verification/Input_Fetch.thy ===== *)
theory Input_Fetch
  imports Tx_Sender Hash_Maps Job_Queue
begin

text \<open>
  Inputs of jobs: the IPFS client (\<open>prover/src/ipfs.rs\<close>), the fetchers by URL scheme (\<open>prover/src/monitor.rs\<close>,
  \<open>prover/src/prefetch.rs\<close>), and the prefetcher with its cache.

  \<^item> The network is the record \<open>net\<close>: the answer to an HTTP request, which may depend on how many requests were made before,
    and the base64 decoder.
  \<^item> A prefetch is a task that runs beside others. Each access to the shared cache or to the set of URLs in progress is a
    critical section of its own, so the task is a machine with a phase per section (\<open>task_step\<close>), and \<open>pf_reach\<close> are the
    states of any number of tasks in any interleaving.
  \<^item> Entries are verified and the counter of bytes never falls below the bytes that are held, whatever the interleaving; it
    may exceed them, since two tasks can store the same URL.
\<close>

section \<open>Fetching\<close>

datatype fetch_error =
    Http_Error string
  | Http_Status nat
  | Too_Large nat
  | No_Gateways
  | Unknown_Error
  | Bad_Data_Url
  | Bad_Base64
  | Unsupported_Scheme string
  | Digest_Mismatch

record response =
  status_ok :: bool
  status_code :: nat
  content_length :: "nat option"
  body :: "u8 list"

text \<open>The answer to the \<open>n\<close>-th request.\<close>

record net =
  http_get :: "nat \<Rightarrow> string \<Rightarrow> string + response"
  base64_decode :: "string \<Rightarrow> u8 list option"

record ipfs_config =
  gateways :: "string list"
  ipfs_max_retries :: nat
  ipfs_max_size :: nat

definition DEFAULT_GATEWAYS :: "string list" where
  "DEFAULT_GATEWAYS =
     [''https://cloudflare-ipfs.com/ipfs/'', ''https://ipfs.io/ipfs/'', ''https://dweb.link/ipfs/'', ''https://gateway.pinata.cloud/ipfs/'']"

definition ipfs_default :: ipfs_config where
  "ipfs_default = \<lparr>gateways = DEFAULT_GATEWAYS, ipfs_max_retries = 2, ipfs_max_size = 100 * 1024 * 1024\<rparr>"

definition starts_with :: "string \<Rightarrow> string \<Rightarrow> bool" where
  "starts_with s p \<longleftrightarrow> take (length p) s = p"

text \<open>\<open>trim_start_matches(p)\<close>, which removes every copy of a non-empty prefix.\<close>

function trim_start_matches :: "string \<Rightarrow> string \<Rightarrow> string" where
  "trim_start_matches p s = (if p \<noteq> [] \<and> s \<noteq> [] \<and> starts_with s p then trim_start_matches p (drop (length p) s) else s)"
  by pat_completeness auto

termination
  by (relation "measure (\<lambda>(_, s). length s)") auto

declare trim_start_matches.simps [simp del]

definition normalize_cid :: "string \<Rightarrow> string" where
  "normalize_cid cid = trim_start_matches ''/ipfs/'' (trim_start_matches ''ipfs://'' (trim cid))"

definition is_ipfs_url :: "string \<Rightarrow> bool" where
  "is_ipfs_url url \<longleftrightarrow> starts_with url ''ipfs://'' \<or> starts_with url ''/ipfs/'' \<or> starts_with url ''Qm'' \<or> starts_with url ''bafy''"

text \<open>The state is the list of URLs that were requested.\<close>

definition do_fetch :: "net \<Rightarrow> ipfs_config \<Rightarrow> string \<Rightarrow> string list \<Rightarrow> (fetch_error + u8 list) \<times> string list" where
  "do_fetch nt cfg url log =
     (case http_get nt (length log) url of
        Inl e \<Rightarrow> (Inl (Http_Error e), log @ [url])
      | Inr r \<Rightarrow>
          (if \<not> status_ok r then Inl (Http_Status (status_code r))
           else if (case content_length r of Some len \<Rightarrow> ipfs_max_size cfg < len | None \<Rightarrow> False)
                then Inl (Too_Large (the (content_length r)))
           else if ipfs_max_size cfg < length (body r) then Inl (Too_Large (length (body r)))
           else Inr (body r), log @ [url]))"

text \<open>The loops of \<open>fetch_from_gateway\<close> and \<open>fetch\<close>: the first success, or the last error.\<close>

fun gateway_loop ::
  "net \<Rightarrow> ipfs_config \<Rightarrow> string \<Rightarrow> nat \<Rightarrow> fetch_error option \<Rightarrow> string list \<Rightarrow> (fetch_error + u8 list) \<times> string list" where
  "gateway_loop nt cfg url 0 last_error log = (Inl (case last_error of Some e \<Rightarrow> e | None \<Rightarrow> Unknown_Error), log)"
| "gateway_loop nt cfg url (Suc n) last_error log =
     (case do_fetch nt cfg url log of
        (Inr data, log) \<Rightarrow> (Inr data, log)
      | (Inl e, log) \<Rightarrow> gateway_loop nt cfg url n (Some e) log)"

definition fetch_from_gateway :: "net \<Rightarrow> ipfs_config \<Rightarrow> string \<Rightarrow> string \<Rightarrow> string list \<Rightarrow> (fetch_error + u8 list) \<times> string list" where
  "fetch_from_gateway nt cfg gateway cid log = gateway_loop nt cfg (gateway @ cid) (ipfs_max_retries cfg) None log"

fun gateways_loop ::
  "net \<Rightarrow> ipfs_config \<Rightarrow> string \<Rightarrow> string list \<Rightarrow> fetch_error option \<Rightarrow> string list \<Rightarrow> (fetch_error + u8 list) \<times> string list" where
  "gateways_loop nt cfg cid [] last_error log = (Inl (case last_error of Some e \<Rightarrow> e | None \<Rightarrow> No_Gateways), log)"
| "gateways_loop nt cfg cid (g # gs) last_error log =
     (case fetch_from_gateway nt cfg g cid log of
        (Inr data, log) \<Rightarrow> (Inr data, log)
      | (Inl e, log) \<Rightarrow> gateways_loop nt cfg cid gs (Some e) log)"

definition ipfs_fetch :: "net \<Rightarrow> ipfs_config \<Rightarrow> string \<Rightarrow> string list \<Rightarrow> (fetch_error + u8 list) \<times> string list" where
  "ipfs_fetch nt cfg cid log = gateways_loop nt cfg (normalize_cid cid) (gateways cfg) None log"

definition parse_data_url :: "net \<Rightarrow> string \<Rightarrow> fetch_error + u8 list" where
  "parse_data_url nt url =
     (case split_once '','' url of
        None \<Rightarrow> Inl Bad_Data_Url
      | Some (_, data) \<Rightarrow> (case base64_decode nt data of None \<Rightarrow> Inl Bad_Base64 | Some bytes \<Rightarrow> Inr bytes))"

definition http_ok :: "net \<Rightarrow> string \<Rightarrow> string list \<Rightarrow> (fetch_error + u8 list) \<times> string list" where
  "http_ok nt url log =
     (case http_get nt (length log) url of
        Inl e \<Rightarrow> (Inl (Http_Error e), log @ [url])
      | Inr r \<Rightarrow> (if status_ok r then Inr (body r) else Inl (Http_Status (status_code r)), log @ [url]))"

definition fetch_input_smart :: "net \<Rightarrow> ipfs_config \<Rightarrow> string \<Rightarrow> string list \<Rightarrow> (fetch_error + u8 list) \<times> string list" where
  "fetch_input_smart nt cfg url log =
     (if is_ipfs_url url then ipfs_fetch nt cfg url log
      else if starts_with url ''http://'' \<or> starts_with url ''https://'' then http_ok nt url log
      else if starts_with url ''data:'' then (parse_data_url nt url, log)
      else (Inl (Unsupported_Scheme url), log))"

definition download_program_elf :: "net \<Rightarrow> string \<Rightarrow> string list \<Rightarrow> (fetch_error + u8 list) \<times> string list" where
  "download_program_elf nt url log =
     (if starts_with url ''ipfs://'' \<or> str_contains url ''/ipfs/'' then ipfs_fetch nt ipfs_default url log
      else if starts_with url ''http://'' \<or> starts_with url ''https://'' then http_ok nt url log
      else if starts_with url ''data:'' then (parse_data_url nt url, log)
      else (Inl (Unsupported_Scheme url), log))"

record prefetch_config =
  pf_max_cache_bytes :: nat
  pf_cache_ttl :: nat
  pf_max_input_size :: nat

definition prefetch_default :: prefetch_config where
  "prefetch_default = \<lparr>pf_max_cache_bytes = 256 * 1024 * 1024, pf_cache_ttl = 300 * 1000000000, pf_max_input_size = 10 * 1024 * 1024\<rparr>"

text \<open>The status of the response is not checked here.\<close>

definition fetch_input_for_prefetch ::
  "net \<Rightarrow> ipfs_config \<Rightarrow> prefetch_config \<Rightarrow> string \<Rightarrow> string list \<Rightarrow> (fetch_error + u8 list) \<times> string list" where
  "fetch_input_for_prefetch nt icfg cfg url log =
     (let (r, log) =
        (if starts_with url ''ipfs://'' \<or> str_contains url ''/ipfs/'' then ipfs_fetch nt icfg url log
         else if starts_with url ''http://'' \<or> starts_with url ''https://'' then
           (case http_get nt (length log) url of
              Inl e \<Rightarrow> (Inl (Http_Error e), log @ [url])
            | Inr r \<Rightarrow> (case content_length r of
                          Some len \<Rightarrow> if pf_max_input_size cfg < len then Inl (Too_Large len) else Inr (body r)
                        | None \<Rightarrow> Inr (body r), log @ [url]))
         else if starts_with url ''data:'' then (parse_data_url nt url, log)
         else (Inl (Unsupported_Scheme url), log))
      in (rbind r (\<lambda>data. if pf_max_input_size cfg < length data then Inl (Too_Large (length data)) else Inr data), log))"

section \<open>The prefetcher\<close>

record cached_input =
  ci_data :: "u8 list"
  ci_hash :: "u8 list"
  ci_fetched_at :: nat
  ci_size :: nat

record prefetcher =
  pf_cache :: "(string \<times> cached_input) list"
  pf_cache_size :: nat
  pf_in_progress :: "string set"

definition prefetcher_new :: prefetcher where
  "prefetcher_new = \<lparr>pf_cache = [], pf_cache_size = 0, pf_in_progress = {}\<rparr>"

definition oldest_key :: "(string \<times> cached_input) list \<Rightarrow> string option" where
  "oldest_key m = (if m = [] then None else Some (fst (arg_min_list (\<lambda>(_, v). ci_fetched_at v) m)))"

text \<open>The eviction loop. \<open>*size_write -= removed.size\<close> on \<open>usize\<close> panics when it would go below zero, in a build with overflow
  checks.\<close>

lemma oldest_key_in: "oldest_key m = Some k \<Longrightarrow> k \<in> fst ` set m"
  by (auto simp: oldest_key_def arg_min_list_in split: if_splits)

lemma length_delete_key: "k \<in> fst ` set m \<Longrightarrow> length (AList.delete k m) < length m"
  by (auto simp: AList.delete_eq intro!: length_filter_less)

function pf_evict :: "nat \<Rightarrow> nat \<Rightarrow> (string \<times> cached_input) list \<Rightarrow> nat \<Rightarrow> ((string \<times> cached_input) list \<times> nat) res" where
  "pf_evict mx sz m held_bytes =
     (if held_bytes + sz > mx \<and> m \<noteq> [] then
        case oldest_key m of
          None \<Rightarrow> Inr (m, held_bytes)
        | Some k \<Rightarrow>
            (case map_of m k of
               None \<Rightarrow> Inr (m, held_bytes)
             | Some removed \<Rightarrow> rbind (usub held_bytes (ci_size removed)) (\<lambda>held_bytes. pf_evict mx sz (AList.delete k m) held_bytes))
      else Inr (m, held_bytes))"
  by pat_completeness auto

termination
  by (relation "measure (\<lambda>(_, _, m, _). length m)") (auto simp: length_delete_key oldest_key_in)

declare pf_evict.simps [simp del]

definition pf_store :: "prefetch_config \<Rightarrow> nat \<Rightarrow> string \<Rightarrow> u8 list \<Rightarrow> u8 list \<Rightarrow> prefetcher \<Rightarrow> prefetcher res" where
  "pf_store cfg inst url hash data p =
     rbind (pf_evict (pf_max_cache_bytes cfg) (length data) (pf_cache p) (pf_cache_size p)) (\<lambda>(m, held_bytes).
       Inr (p\<lparr>pf_cache := AList.update url \<lparr>ci_data = data, ci_hash = hash, ci_fetched_at = inst, ci_size = length data\<rparr> m,
              pf_cache_size := held_bytes + length data\<rparr>))"

datatype phase =
    Check_Cache
  | Check_Progress
  | Fetching
  | Fetched "fetch_error + u8 list"
  | Storing "u8 list"
  | Finished
  | Crashed panic

record task =
  task_url :: string
  task_hash :: "u8 list"
  task_phase :: phase

text \<open>\<open>prefetch\<close>: a task is spawned, except for private inputs.\<close>

definition spawn_prefetch :: "QueuedJob \<Rightarrow> task list \<Rightarrow> task list" where
  "spawn_prefetch job ts =
     (if input_type job = 1 then ts
      else ts @ [\<lparr>task_url = input_url job, task_hash = input_hash job, task_phase = Check_Cache\<rparr>])"

text \<open>One critical section, or the fetch, of a task; \<open>fetched\<close> is what the network answers, \<open>inst\<close> the clock.\<close>

definition task_step ::
  "prefetch_config \<Rightarrow> (u8 list \<Rightarrow> u8 list) \<Rightarrow> fetch_error + u8 list \<Rightarrow> nat \<Rightarrow> task \<Rightarrow> prefetcher \<Rightarrow> phase \<times> prefetcher" where
  "task_step cfg sha256 fetched inst t p =
     (case task_phase t of
        Check_Cache \<Rightarrow> (if map_of (pf_cache p) (task_url t) \<noteq> None then Finished else Check_Progress, p)
      | Check_Progress \<Rightarrow>
          (if task_url t \<in> pf_in_progress p then (Finished, p)
           else (Fetching, p\<lparr>pf_in_progress := insert (task_url t) (pf_in_progress p)\<rparr>))
      | Fetching \<Rightarrow> (Fetched fetched, p)
      | Fetched r \<Rightarrow>
          (case r of
             Inl e \<Rightarrow> Finished
           | Inr data \<Rightarrow> if sha256 data \<noteq> task_hash t then Finished else Storing data,
           p\<lparr>pf_in_progress := pf_in_progress p - {task_url t}\<rparr>)
      | Storing data \<Rightarrow>
          (case pf_store cfg inst (task_url t) (sha256 data) data p of
             Inl (Panicked e) \<Rightarrow> (Crashed e, p)
           | Inl (Returned e) \<Rightarrow> (Finished, p)
           | Inr p \<Rightarrow> (Finished, p))
      | Finished \<Rightarrow> (Finished, p)
      | Crashed e \<Rightarrow> (Crashed e, p))"

definition get_cached :: "prefetch_config \<Rightarrow> nat \<Rightarrow> string \<Rightarrow> u8 list \<Rightarrow> prefetcher \<Rightarrow> u8 list option" where
  "get_cached cfg now url expected_hash p =
     (case map_of (pf_cache p) url of
        None \<Rightarrow> None
      | Some entry \<Rightarrow>
          if pf_cache_ttl cfg < now - ci_fetched_at entry then None
          else if ci_hash entry \<noteq> expected_hash then None
          else Some (ci_data entry))"

text \<open>Any interleaving of any number of tasks.\<close>

inductive pf_reach :: "prefetch_config \<Rightarrow> (u8 list \<Rightarrow> u8 list) \<Rightarrow> task list \<Rightarrow> prefetcher \<Rightarrow> bool" for cfg sha256 where
  reach_new: "pf_reach cfg sha256 [] prefetcher_new"
| reach_spawn: "pf_reach cfg sha256 ts p \<Longrightarrow> pf_reach cfg sha256 (spawn_prefetch job ts) p"
| reach_step: "pf_reach cfg sha256 ts p \<Longrightarrow> i < length ts \<Longrightarrow> task_step cfg sha256 fetched inst (ts ! i) p = (ph, p')
    \<Longrightarrow> pf_reach cfg sha256 (ts[i := (ts ! i)\<lparr>task_phase := ph\<rparr>]) p'"

section \<open>Entries are verified and accounted for\<close>

definition held :: "(string \<times> cached_input) list \<Rightarrow> nat" where
  "held m = sum_list (map (\<lambda>(_, v). ci_size v) m)"

definition entry_ok :: "(u8 list \<Rightarrow> u8 list) \<Rightarrow> cached_input \<Rightarrow> bool" where
  "entry_ok sha256 v \<longleftrightarrow> ci_hash v = sha256 (ci_data v) \<and> ci_size v = length (ci_data v)"

definition pf_inv :: "(u8 list \<Rightarrow> u8 list) \<Rightarrow> task list \<Rightarrow> prefetcher \<Rightarrow> bool" where
  "pf_inv sha256 ts p \<longleftrightarrow> keys_ok (pf_cache p) \<and> (\<forall>(_, v) \<in> set (pf_cache p). entry_ok sha256 v)
     \<and> held (pf_cache p) \<le> pf_cache_size p \<and> (\<forall>t \<in> set ts. \<forall>e. task_phase t \<noteq> Crashed e)"

lemma held_delete:
  assumes "keys_ok m" "map_of m k = Some v"
  shows "held m = ci_size v + held (AList.delete k m)"
  using assms by (induction m) (auto simp: held_def keys_ok_def AList.delete_idem split: if_splits)

lemma held_update: "keys_ok m \<Longrightarrow> held (AList.update k v m) + (case map_of m k of Some w \<Rightarrow> ci_size w | None \<Rightarrow> 0) = held m + ci_size v"
  by (induction m) (auto simp: held_def keys_ok_def)

text \<open>Eviction does not underflow, and ends with room for the new entry or with an empty cache.\<close>

lemma pf_evict_ok:
  assumes "keys_ok m" "held m \<le> n"
  shows "\<exists>m' n'. pf_evict mx sz m n = Inr (m', n') \<and> keys_ok m' \<and> set m' \<subseteq> set m \<and> held m' \<le> n' \<and> n' - held m' = n - held m
    \<and> (n' + sz \<le> mx \<or> m' = [])"
  using assms
proof (induction mx sz m n rule: pf_evict.induct)
  case (1 mx sz m n)
  show ?case
  proof (cases "n + sz > mx \<and> m \<noteq> []")
    case False
    then show ?thesis using 1 by (subst pf_evict.simps) auto
  next
    case True
    then obtain k where k: "oldest_key m = Some k" by (simp add: oldest_key_def)
    then have "map_of m k \<noteq> None" using oldest_key_in [of m k] key_in_iff [of k m] by simp
    then obtain v where v: "map_of m k = Some v" by blast
    have h: "held m = ci_size v + held (AList.delete k m)" by (rule held_delete [OF 1(2) v])
    then have sub: "usub n (ci_size v) = Inr (n - ci_size v)" using 1(3) by (simp add: usub_def)
    have "\<exists>m' n'. pf_evict mx sz (AList.delete k m) (n - ci_size v) = Inr (m', n') \<and> keys_ok m' \<and> set m' \<subseteq> set (AList.delete k m)
        \<and> held m' \<le> n' \<and> n' - held m' = n - ci_size v - held (AList.delete k m) \<and> (n' + sz \<le> mx \<or> m' = [])"
    proof (rule 1(1) [OF True k v sub])
      show "keys_ok (AList.delete k m)" using 1(2) by simp
      show "held (AList.delete k m) \<le> n - ci_size v" using h 1(3) by simp
    qed
    moreover have "pf_evict mx sz m n = pf_evict mx sz (AList.delete k m) (n - ci_size v)"
      using True by (subst pf_evict.simps) (simp add: k v sub)
    moreover have "set (AList.delete k m) \<subseteq> set m" by (auto simp: AList.delete_eq)
    ultimately show ?thesis using h by (metis (no_types, lifting) diff_diff_left order_trans)
  qed
qed

lemma pf_store_ok:
  assumes "keys_ok (pf_cache p)" "held (pf_cache p) \<le> pf_cache_size p" "\<forall>(_, v) \<in> set (pf_cache p). entry_ok sha256 v"
  shows "\<exists>p'. pf_store cfg inst url (sha256 data) data p = Inr p' \<and> keys_ok (pf_cache p') \<and> held (pf_cache p') \<le> pf_cache_size p'
    \<and> (\<forall>(_, v) \<in> set (pf_cache p'). entry_ok sha256 v) \<and> held (pf_cache p') \<le> max (pf_max_cache_bytes cfg) (length data)"
proof -
  obtain m n where e: "pf_evict (pf_max_cache_bytes cfg) (length data) (pf_cache p) (pf_cache_size p) = Inr (m, n)"
    and m: "keys_ok m" "set m \<subseteq> set (pf_cache p)" "held m \<le> n" "n + length data \<le> pf_max_cache_bytes cfg \<or> m = []"
    using pf_evict_ok [OF assms(1,2)] by metis
  let ?v = "\<lparr>ci_data = data, ci_hash = sha256 data, ci_fetched_at = inst, ci_size = length data\<rparr>"
  have upd: "set (AList.update url ?v m) \<subseteq> insert (url, ?v) (set m)" by (induction m) auto
  have "entry_ok sha256 ?v" by (simp add: entry_ok_def)
  then have "\<forall>(_, v) \<in> set (AList.update url ?v m). entry_ok sha256 v" using upd m(2) assms(3) by fastforce
  moreover have h: "held (AList.update url ?v m) \<le> held m + length data" using held_update [OF m(1), of url ?v] by simp
  moreover have "held m + length data \<le> max (pf_max_cache_bytes cfg) (length data)"
    using m(3,4) by (auto simp: held_def)
  ultimately show ?thesis using m(1,3) by (simp add: pf_store_def e)
qed

theorem pf_reach_inv: "pf_reach cfg sha256 ts p \<Longrightarrow> pf_inv sha256 ts p"
proof (induction rule: pf_reach.induct)
  case reach_new
  then show ?case by (simp add: pf_inv_def prefetcher_new_def held_def)
next
  case (reach_spawn ts p job)
  then show ?case by (auto simp: pf_inv_def spawn_prefetch_def)
next
  case (reach_step ts p i fetched inst ph p')
  have store: "\<exists>q. pf_store cfg inst url (sha256 data) data p = Inr q \<and> keys_ok (pf_cache q) \<and> held (pf_cache q) \<le> pf_cache_size q
      \<and> (\<forall>(_, v) \<in> set (pf_cache q). entry_ok sha256 v)" for url data
    using pf_store_ok [of p sha256 cfg inst url data] reach_step.IH by (auto simp: pf_inv_def)
  have "keys_ok (pf_cache p') \<and> held (pf_cache p') \<le> pf_cache_size p' \<and> (\<forall>(_, v) \<in> set (pf_cache p'). entry_ok sha256 v) \<and> (\<forall>e. ph \<noteq> Crashed e)"
  proof (cases "task_phase (ts ! i)")
    case (Storing data)
    then show ?thesis using store [of "task_url (ts ! i)" data] reach_step.hyps(3) by (auto simp: task_step_def)
  qed (use reach_step in \<open>auto simp: pf_inv_def task_step_def split: if_splits sum.splits dest: nth_mem\<close>)
  then show ?case using reach_step.IH by (auto simp: pf_inv_def dest!: set_update_subset_insert [THEN subsetD])
qed

text \<open>What \<open>get_cached\<close> returns has the digest that was asked for.\<close>

theorem get_cached_verified:
  assumes "pf_reach cfg sha256 ts p" "get_cached cfg now url h p = Some data"
  shows "sha256 data = h"
proof -
  from assms(2) obtain v where v: "map_of (pf_cache p) url = Some v" "ci_hash v = h" "ci_data v = data"
    by (auto simp: get_cached_def split: option.splits if_splits)
  then have "entry_ok sha256 v" using pf_reach_inv [OF assms(1)] map_of_SomeD [OF v(1)] by (auto simp: pf_inv_def)
  then show ?thesis using v by (simp add: entry_ok_def)
qed

text \<open>An entry that is too old is not returned, and it keeps later prefetches of its URL from fetching.\<close>

theorem expired_blocks_prefetch:
  assumes "map_of (pf_cache p) (task_url t) = Some v" "pf_cache_ttl cfg < now - ci_fetched_at v" "task_phase t = Check_Cache"
  shows "get_cached cfg now (task_url t) h p = None" "task_step cfg sha256 fetched inst t p = (Finished, p)"
  using assms by (simp_all add: get_cached_def task_step_def)

text \<open>Two tasks for one URL: the second looks at the cache and at the URLs in progress after the first has left the set and before
  it stores. Both store, and the size of the input is counted twice.\<close>

theorem counter_drifts:
  fixes job :: QueuedJob
  assumes "input_type job \<noteq> 1" "sha256 data = input_hash job" "2 * length data \<le> pf_max_cache_bytes cfg"
  shows "\<exists>ts p. pf_reach cfg sha256 ts p \<and> pf_cache_size p = 2 * length data \<and> held (pf_cache p) = length data"
proof -
  let ?t = "\<lambda>ph. \<lparr>task_url = input_url job, task_hash = input_hash job, task_phase = ph\<rparr>"
  let ?u = "input_url job"
  have step: "pf_reach cfg sha256 (ts[i := ?t ph']) p'"
    if "pf_reach cfg sha256 ts p" "i < length ts" "ts ! i = ?t ph" "task_step cfg sha256 (Inr data) inst (?t ph) p = (ph', p')" for ts p i ph ph' p' inst
    using reach_step [OF that(1,2), of "Inr data" inst ph' p'] that(3,4) by simp
  let ?p1 = "\<lparr>pf_cache = [], pf_cache_size = 0, pf_in_progress = {?u}\<rparr>"
  let ?v = "\<lambda>i. \<lparr>ci_data = data, ci_hash = input_hash job, ci_fetched_at = i, ci_size = length data\<rparr>"
  let ?p2 = "\<lparr>pf_cache = [(?u, ?v 1)], pf_cache_size = length data, pf_in_progress = {}\<rparr>"
  let ?p3 = "\<lparr>pf_cache = [(?u, ?v 2)], pf_cache_size = 2 * length data, pf_in_progress = {}\<rparr>"
  have room: "pf_evict (pf_max_cache_bytes cfg) (length data) m n = Inr (m, n)" if "n \<le> length data" for m n
    using that assms(3) by (subst pf_evict.simps) simp
  have "pf_reach cfg sha256 [?t Check_Cache, ?t Check_Cache] prefetcher_new"
    using reach_spawn [OF reach_spawn [OF reach_new], of cfg sha256 job job] assms(1) by (simp add: spawn_prefetch_def)
  from step [OF this, of 0 Check_Cache 0 Check_Progress prefetcher_new]
  have "pf_reach cfg sha256 [?t Check_Progress, ?t Check_Cache] prefetcher_new" by (simp add: task_step_def prefetcher_new_def)
  from step [OF this, of 0 Check_Progress 0 Fetching ?p1]
  have "pf_reach cfg sha256 [?t Fetching, ?t Check_Cache] ?p1" by (simp add: task_step_def prefetcher_new_def)
  from step [OF this, of 0 Fetching 0 "Fetched (Inr data)" ?p1]
  have "pf_reach cfg sha256 [?t (Fetched (Inr data)), ?t Check_Cache] ?p1" by (simp add: task_step_def)
  from step [OF this, of 0 "Fetched (Inr data)" 0 "Storing data" prefetcher_new]
  have "pf_reach cfg sha256 [?t (Storing data), ?t Check_Cache] prefetcher_new" by (simp add: task_step_def assms(2) prefetcher_new_def)
  from step [OF this, of 1 Check_Cache 0 Check_Progress prefetcher_new]
  have "pf_reach cfg sha256 [?t (Storing data), ?t Check_Progress] prefetcher_new" by (simp add: task_step_def prefetcher_new_def)
  from step [OF this, of 1 Check_Progress 0 Fetching ?p1]
  have "pf_reach cfg sha256 [?t (Storing data), ?t Fetching] ?p1" by (simp add: task_step_def prefetcher_new_def)
  from step [OF this, of 1 Fetching 0 "Fetched (Inr data)" ?p1]
  have "pf_reach cfg sha256 [?t (Storing data), ?t (Fetched (Inr data))] ?p1" by (simp add: task_step_def)
  from step [OF this, of 1 "Fetched (Inr data)" 0 "Storing data" prefetcher_new]
  have "pf_reach cfg sha256 [?t (Storing data), ?t (Storing data)] prefetcher_new" by (simp add: task_step_def assms(2) prefetcher_new_def)
  from step [OF this, of 0 "Storing data" 1 Finished ?p2]
  have "pf_reach cfg sha256 [?t Finished, ?t (Storing data)] ?p2" by (simp add: task_step_def pf_store_def room assms(2) prefetcher_new_def)
  from step [OF this, of 1 "Storing data" 2 Finished ?p3]
  have "pf_reach cfg sha256 [?t Finished, ?t Finished] ?p3" by (simp add: task_step_def pf_store_def room assms(2))
  then show ?thesis by (intro exI [of _ "[?t Finished, ?t Finished]"] exI [of _ ?p3]) (simp add: held_def)
qed

section \<open>Requests of the IPFS client\<close>

text \<open>A fetch asks the gateways in order, each at most \<open>max_retries\<close> times, for the normalized identifier.\<close>

lemma gateway_loop_log:
  "\<exists>k \<le> n. snd (gateway_loop nt cfg url n lst log) = log @ replicate k url
    \<and> (\<forall>data. fst (gateway_loop nt cfg url n lst log) = Inr data \<longrightarrow> length data \<le> ipfs_max_size cfg)"
proof (induction n arbitrary: lst log)
  case (Suc n)
  obtain r log1 where d: "do_fetch nt cfg url log = (r, log1)" by fastforce
  have log1: "log1 = log @ [url]" using d by (auto simp: do_fetch_def split: sum.splits)
  have size: "r = Inr data \<Longrightarrow> length data \<le> ipfs_max_size cfg" for data
    using d by (auto simp: do_fetch_def split: sum.splits if_splits)
  show ?case
  proof (cases r)
    case (Inr data)
    then show ?thesis using size by (intro exI [of _ 1]) (simp add: d log1)
  next
    case (Inl e)
    obtain k where k: "k \<le> n" "snd (gateway_loop nt cfg url n (Some e) log1) = log1 @ replicate k url"
      "\<forall>data. fst (gateway_loop nt cfg url n (Some e) log1) = Inr data \<longrightarrow> length data \<le> ipfs_max_size cfg"
      using Suc.IH by blast
    then show ?thesis using Inl by (intro exI [of _ "Suc k"]) (simp add: d log1)
  qed
qed simp

theorem ipfs_fetch_requests:
  "\<exists>us. snd (ipfs_fetch nt cfg cid log) = log @ us \<and> length us \<le> length (gateways cfg) * ipfs_max_retries cfg
    \<and> (\<forall>u \<in> set us. \<exists>g \<in> set (gateways cfg). u = g @ normalize_cid cid)
    \<and> (\<forall>data. fst (ipfs_fetch nt cfg cid log) = Inr data \<longrightarrow> length data \<le> ipfs_max_size cfg)"
proof -
  have "\<exists>us. snd (gateways_loop nt cfg c gs lst log) = log @ us \<and> length us \<le> length gs * ipfs_max_retries cfg
    \<and> (\<forall>u \<in> set us. \<exists>g \<in> set gs. u = g @ c)
    \<and> (\<forall>data. fst (gateways_loop nt cfg c gs lst log) = Inr data \<longrightarrow> length data \<le> ipfs_max_size cfg)" for c gs lst
  proof (induction gs arbitrary: lst log)
    case (Cons g gs)
    obtain r log1 where f: "fetch_from_gateway nt cfg g c log = (r, log1)" by fastforce
    obtain k where k: "k \<le> ipfs_max_retries cfg" "log1 = log @ replicate k (g @ c)" "\<And>data. r = Inr data \<Longrightarrow> length data \<le> ipfs_max_size cfg"
      using gateway_loop_log [of "ipfs_max_retries cfg" nt cfg "g @ c" None log] f by (auto simp: fetch_from_gateway_def)
    show ?case
    proof (cases r)
      case (Inr data)
      then show ?thesis using k by (intro exI [of _ "replicate k (g @ c)"]) (simp add: f)
    next
      case (Inl e)
      obtain us where us: "snd (gateways_loop nt cfg c gs (Some e) log1) = log1 @ us" "length us \<le> length gs * ipfs_max_retries cfg"
        "\<forall>u \<in> set us. \<exists>g \<in> set gs. u = g @ c"
        "\<forall>data. fst (gateways_loop nt cfg c gs (Some e) log1) = Inr data \<longrightarrow> length data \<le> ipfs_max_size cfg"
        using Cons.IH by blast
      then show ?thesis using Inl k by (intro exI [of _ "replicate k (g @ c) @ us"]) (auto simp: f)
    qed
  qed simp
  then show ?thesis by (simp add: ipfs_fetch_def)
qed

text \<open>The prefetcher hands the URL of an HTTP gateway to the IPFS client, which asks its gateways for the whole URL; the fetch
  of the job asks for the URL itself. A bare identifier goes the other way: it is fetched for the job and not prefetched.\<close>

theorem prefetch_fetch_disagree:
  "\<exists>us. snd (fetch_input_for_prefetch nt ipfs_default cfg ''https://ipfs.io/ipfs/QmX'' []) = us
     \<and> (\<forall>u \<in> set us. \<exists>g \<in> set DEFAULT_GATEWAYS. u = g @ ''https://ipfs.io/ipfs/QmX'')"
  "snd (fetch_input_smart nt ipfs_default ''https://ipfs.io/ipfs/QmX'' []) = [''https://ipfs.io/ipfs/QmX'']"
  "fetch_input_for_prefetch nt ipfs_default cfg ''QmX'' [] = (Inl (Unsupported_Scheme ''QmX''), [])"
  "fetch_input_smart nt ipfs_default ''QmX'' [] = ipfs_fetch nt ipfs_default ''QmX'' []"
proof -
  let ?u = "''https://ipfs.io/ipfs/QmX''"
  have n: "normalize_cid ?u = ?u" by code_simp
  have c: "str_contains ?u ''/ipfs/''" "\<not> is_ipfs_url ?u" "starts_with ?u ''https://''" by code_simp+
  have q: "\<not> str_contains ''QmX'' ''/ipfs/''" "is_ipfs_url ''QmX''" "\<not> starts_with ''QmX'' ''ipfs://''" "\<not> starts_with ''QmX'' ''http://''"
    "\<not> starts_with ''QmX'' ''https://''" "\<not> starts_with ''QmX'' ''data:''" by code_simp+
  show "\<exists>us. snd (fetch_input_for_prefetch nt ipfs_default cfg ?u []) = us \<and> (\<forall>u \<in> set us. \<exists>g \<in> set DEFAULT_GATEWAYS. u = g @ ?u)"
    using ipfs_fetch_requests [of nt ipfs_default ?u "[]"] unfolding n
    by (auto simp: fetch_input_for_prefetch_def c case_prod_unfold Let_def ipfs_default_def)
  show "snd (fetch_input_smart nt ipfs_default ?u []) = [?u]"
    by (simp add: fetch_input_smart_def c http_ok_def split: sum.split)
  show "fetch_input_for_prefetch nt ipfs_default cfg ''QmX'' [] = (Inl (Unsupported_Scheme ''QmX''), [])"
    by (simp add: fetch_input_for_prefetch_def q)
  show "fetch_input_smart nt ipfs_default ''QmX'' [] = ipfs_fetch nt ipfs_default ''QmX'' []"
    by (simp add: fetch_input_smart_def q)
qed

end
