(* ===== verification/Prover_Pipeline.thy ===== *)
theory Prover_Pipeline
  imports Input_Fetch Proof_Cache Sample_Split
begin

text \<open>
  The job pipeline of the prover (\<open>prover/src/monitor.rs\<close>, \<open>process_single_job\<close>), over the program cache (\<open>prover/src/cache.rs\<close>), the
  proof cache, the prefetcher, the decomposer, and the transaction senders.

  \<^item> The state \<open>world\<close> holds what a job changes: the transactions sent and the nonce manager, the two caches, the requests
    made. The record \<open>job_env\<close> holds what it reads: the node, the network, the prefetcher, the clocks, and the provers
    as functions. Each step of the function is a definition, in the order of its comments (Step 1 to Step 9).
  \<^item> \<open>submitted_proof\<close>: what a job job_sends are claims of its request and then, after a claim with a receipt, submissions of one
    proof for that request, which comes from the cache under the job's key, or was made from an input with the job's digest.
  \<^item> A private input is claimed before it is fetched; the paths of a cached proof and of a decomposed one claim again
    (\<open>private_cached_claims_twice\<close>).
\<close>

section \<open>The program cache\<close>

record program_cache =
  pg_memory :: "(u8 list \<times> u8 list) list"
  pg_disk :: "(u8 list \<times> u8 list) list"
  pg_bytes :: nat

definition try_add_to_memory :: "nat \<Rightarrow> u8 list \<Rightarrow> u8 list \<Rightarrow> program_cache \<Rightarrow> program_cache" where
  "try_add_to_memory max_bytes img elf c =
     (if pg_bytes c + length elf \<le> max_bytes then
        if map_of (pg_memory c) img = None then c\<lparr>pg_memory := AList.update img elf (pg_memory c), pg_bytes := pg_bytes c + length elf\<rparr>
        else c
      else c)"

text \<open>Files are named by the image id; \<open>readable\<close> says whether \<open>std::fs::read\<close> succeeds.\<close>

definition program_get :: "nat \<Rightarrow> bool \<Rightarrow> u8 list \<Rightarrow> program_cache \<Rightarrow> u8 list option \<times> program_cache" where
  "program_get max_bytes readable img c =
     (case map_of (pg_memory c) img of
        Some elf \<Rightarrow> (Some elf, c)
      | None \<Rightarrow>
          (case map_of (pg_disk c) img of
             Some elf \<Rightarrow> if readable then (Some elf, try_add_to_memory max_bytes img elf c) else (None, c)
           | None \<Rightarrow> (None, c)))"

definition program_put :: "nat \<Rightarrow> disk_write \<Rightarrow> u8 list \<Rightarrow> u8 list \<Rightarrow> program_cache \<Rightarrow> program_cache" where
  "program_put max_bytes w img elf c =
     try_add_to_memory max_bytes img elf
       (case w of
          Disk_Written \<Rightarrow> c\<lparr>pg_disk := AList.update img elf (pg_disk c)\<rparr>
        | Disk_Unopened \<Rightarrow> c
        | Disk_Partial n \<Rightarrow> c\<lparr>pg_disk := AList.update img (take n elf) (pg_disk c)\<rparr>)"

section \<open>Jobs\<close>

datatype job_error =
    Tx_Error tx_error
  | Fetch_Error fetch_error
  | Program_Io string
  | Program_Not_Found
  | Program_Deactivated
  | Program_No_Url
  | Image_Id_Mismatch
  | No_Signer
  | Private_Fetch string
  | Preflight_Error string
  | Too_Complex u64
  | Profit_Error string
  | Not_Profitable
  | Prove_Error string
  | Job_Panic panic

record world =
  wd_sender :: sender
  wd_proofs :: proof_cache
  wd_programs :: program_cache
  wd_local :: "(u8 list \<times> u8 list) list"
  wd_requests :: "string list"

record 'r job_env =
  je_node :: chain_node
  je_net :: net
  je_ipfs :: ipfs_config
  je_sha256 :: "u8 list \<Rightarrow> u8 list"
  je_prefetch_cfg :: prefetch_config
  je_prefetcher :: prefetcher
  je_instant :: nat
  je_unix :: u64
  je_cache_cfg :: cache_config
  je_bincode :: bincode
  je_write :: disk_write
  je_program_bytes :: nat
  je_program_readable :: bool
  je_program_write :: disk_write
  je_local_error :: "string option"
  je_local_write :: disk_write
  je_registry :: "(u8 list \<Rightarrow> string + bool \<times> string) option"
  je_image_id :: "u8 list \<Rightarrow> string + u8 list"
  je_private :: "(string \<Rightarrow> u64 \<Rightarrow> string + u8 list) option"
  je_preflight :: "u8 list \<Rightarrow> u8 list \<Rightarrow> string + u64 \<times> bool"
  je_strategy :: "u8 list \<Rightarrow> strategy option"
  je_sqrt_ceil :: "nat \<Rightarrow> nat"
  je_prove_sub :: "u8 list \<Rightarrow> u8 list \<Rightarrow> string + 'r sub_proof"
  je_receipts :: "'r receipt_ops"
  je_wrapper :: "(nat \<times> (u8 list list \<Rightarrow> u8 list \<Rightarrow> 'r list \<Rightarrow> string + 'r)) option"
  je_decomp_cycles :: "u8 list \<Rightarrow> u8 list \<Rightarrow> u64"
  je_skip_profitability :: bool
  je_gas_price :: "string + u128"
  je_claim_gas :: "string + u64"
  je_submit_gas :: "string + u64"
  je_margin_ok :: "u128 \<Rightarrow> u128 \<Rightarrow> bool"
  je_config_snark :: bool
  je_prove :: "u8 list \<Rightarrow> u8 list \<Rightarrow> string + u8 list \<times> u8 list \<times> u64"
  je_prove_time :: nat

text \<open>Steps of a job: an error ends the function, the state is kept.\<close>

type_synonym 'a job_m = "world \<Rightarrow> (job_error + 'a) \<times> world"

definition jret :: "'a \<Rightarrow> 'a job_m" where
  "jret x w = (Inr x, w)"

definition jfail :: "job_error \<Rightarrow> 'a job_m" where
  "jfail e w = (Inl e, w)"

definition jbind :: "'a job_m \<Rightarrow> ('a \<Rightarrow> 'b job_m) \<Rightarrow> 'b job_m" where
  "jbind m f w = (case m w of (Inl e, w) \<Rightarrow> (Inl e, w) | (Inr x, w) \<Rightarrow> f x w)"

definition jlift :: "(string \<Rightarrow> job_error) \<Rightarrow> string + 'a \<Rightarrow> 'a job_m" where
  "jlift err r = (case r of Inl e \<Rightarrow> jfail (err e) | Inr x \<Rightarrow> jret x)"

definition job_rid :: "QueuedJob \<Rightarrow> 256 word" where
  "job_rid job = ucast (request_id job)"

definition job_claim :: "'r job_env \<Rightarrow> QueuedJob \<Rightarrow> unit job_m" where
  "job_claim env job w =
     (case send_claim_with_retry (je_node env) (job_rid job) retry_default (wd_sender w) of
        (Inl e, s) \<Rightarrow> (Inl (Tx_Error e), w\<lparr>wd_sender := s\<rparr>)
      | (Inr _, s) \<Rightarrow> (Inr (), w\<lparr>wd_sender := s\<rparr>))"

definition job_submit :: "'r job_env \<Rightarrow> QueuedJob \<Rightarrow> u8 list \<Rightarrow> u8 list \<Rightarrow> unit job_m" where
  "job_submit env job proof journal w =
     (case send_submit_with_retry (je_node env) (job_rid job) proof journal retry_default (wd_sender w) of
        (Inl e, s) \<Rightarrow> (Inl (Tx_Error e), w\<lparr>wd_sender := s\<rparr>)
      | (Inr _, s) \<Rightarrow> (Inr (), w\<lparr>wd_sender := s\<rparr>))"

text \<open>A fetcher that records its requests.\<close>

definition job_fetch :: "(string list \<Rightarrow> (fetch_error + u8 list) \<times> string list) \<Rightarrow> u8 list job_m" where
  "job_fetch fetch w =
     (case fetch (wd_requests w) of
        (Inl e, log) \<Rightarrow> (Inl (Fetch_Error e), w\<lparr>wd_requests := log\<rparr>)
      | (Inr data, log) \<Rightarrow> (Inr data, w\<lparr>wd_requests := log\<rparr>))"

text \<open>\<open>save_elf_to_cache\<close>: an error is logged only.\<close>

definition save_elf_to_cache :: "disk_write \<Rightarrow> u8 list \<Rightarrow> u8 list \<Rightarrow> unit job_m" where
  "save_elf_to_cache wr img elf w =
     (Inr (), case wr of
        Disk_Written \<Rightarrow> w\<lparr>wd_local := AList.update img elf (wd_local w)\<rparr>
      | Disk_Unopened \<Rightarrow> w
      | Disk_Partial n \<Rightarrow> w\<lparr>wd_local := AList.update img (take n elf) (wd_local w)\<rparr>)"

text \<open>\<open>fetch_program_from_registry\<close>: a file under \<open>./programs\<close> is taken as it is, a download must have the image id.\<close>

definition fetch_program_from_registry :: "'r job_env \<Rightarrow> u8 list \<Rightarrow> u8 list job_m" where
  "fetch_program_from_registry env img w =
     (case map_of (wd_local w) img of
        Some elf \<Rightarrow> (case je_local_error env of Some e \<Rightarrow> jfail (Program_Io e) w | None \<Rightarrow> jret elf w)
      | None \<Rightarrow>
          (case je_registry env of
             None \<Rightarrow> jfail Program_Not_Found w
           | Some get_program \<Rightarrow>
               (case get_program img of
                  Inl e \<Rightarrow> jfail Program_Not_Found w
                | Inr (active, url) \<Rightarrow>
                    if \<not> active then jfail Program_Deactivated w
                    else if url = [] then jfail Program_No_Url w
                    else jbind (job_fetch (download_program_elf (je_net env) url)) (\<lambda>elf.
                         jbind (jlift Program_Io (je_image_id env elf)) (\<lambda>computed.
                         if computed \<noteq> img then jfail Image_Id_Mismatch
                         else jbind (save_elf_to_cache (je_local_write env) img elf) (\<lambda>_. jret elf))) w)))"

text \<open>Step 1.\<close>

definition job_program :: "'r job_env \<Rightarrow> QueuedJob \<Rightarrow> u8 list job_m" where
  "job_program env job w =
     (case program_get (je_program_bytes env) (je_program_readable env) (image_id job) (wd_programs w) of
        (Some elf, pc) \<Rightarrow> (Inr elf, w\<lparr>wd_programs := pc\<rparr>)
      | (None, pc) \<Rightarrow>
          jbind (fetch_program_from_registry env (image_id job)) (\<lambda>elf w.
            (Inr elf, w\<lparr>wd_programs := program_put (je_program_bytes env) (je_program_write env) (image_id job) elf (wd_programs w)\<rparr>))
            (w\<lparr>wd_programs := pc\<rparr>))"

text \<open>Step 2: a private input is claimed first; every input has the digest of the job.\<close>

definition job_early_claim :: "'r job_env \<Rightarrow> QueuedJob \<Rightarrow> bool job_m" where
  "job_early_claim env job =
     (if input_type job = 1 then jbind (job_claim env job) (\<lambda>_. jret True) else jret False)"

definition check_digest :: "'r job_env \<Rightarrow> QueuedJob \<Rightarrow> u8 list \<Rightarrow> u8 list job_m" where
  "check_digest env job input = (if je_sha256 env input \<noteq> input_hash job then jfail (Fetch_Error Digest_Mismatch) else jret input)"

definition job_input :: "'r job_env \<Rightarrow> QueuedJob \<Rightarrow> u8 list job_m" where
  "job_input env job =
     (if input_type job = 1 then
        (case je_private env of
           None \<Rightarrow> jfail No_Signer
         | Some fetch_private \<Rightarrow>
             jbind (jlift Private_Fetch (fetch_private (input_url job) (request_id job))) (check_digest env job))
      else case get_cached (je_prefetch_cfg env) (je_instant env) (input_url job) (input_hash job) (je_prefetcher env) of
             Some prefetched \<Rightarrow> jret prefetched
           | None \<Rightarrow>
               jbind (job_fetch (fetch_input_smart (je_net env) (je_ipfs env) (input_url job))) (check_digest env job))"

text \<open>Step 3: the proof cache.\<close>

definition cache_key :: "'r job_env \<Rightarrow> QueuedJob \<Rightarrow> proof_key" where
  "cache_key env job = \<lparr>pk_image_id = image_id job, pk_input_hash = input_hash job, pk_use_snark = je_config_snark env\<rparr>"

definition job_cached :: "'r job_env \<Rightarrow> QueuedJob \<Rightarrow> cached_proof option job_m" where
  "job_cached env job w =
     (let (r, pc) = cache_get (je_cache_cfg env) (je_bincode env) (je_unix env) (je_instant env) (cache_key env job) (wd_proofs w)
      in (Inr r, w\<lparr>wd_proofs := pc\<rparr>))"

text \<open>Step 4b: \<open>None\<close> falls through to standard proving. The cycles of the preflight must exceed 20 million.\<close>

definition try_recursive_wrap :: "'r job_env \<Rightarrow> strategy \<Rightarrow> 'r decomp_result \<Rightarrow> decomp_error + wrap_result" where
  "try_recursive_wrap env strat res =
     (case je_wrapper env of
        None \<Rightarrow> Inl (Wrapper_Failed ''Recursive wrapper ELF not available'')
      | Some (max_sub_proofs, prove_wrapper) \<Rightarrow> recursive_wrap (je_receipts env) max_sub_proofs prove_wrapper strat (receipts res))"

definition job_decomposed :: "'r job_env \<Rightarrow> QueuedJob \<Rightarrow> u8 list \<Rightarrow> u8 list \<Rightarrow> u64 \<Rightarrow> (u8 list \<times> u8 list) option" where
  "job_decomposed env job elf input cycles =
     (case je_strategy env (image_id job) of
        None \<Rightarrow> None
      | Some strat \<Rightarrow>
          if 20000000 < cycles \<and> can_decompose strat input then
            case prove_decomposed_with_receipts decomposer_default (je_sqrt_ceil env) (je_prove_sub env elf) strat input of
              Inl e \<Rightarrow> None
            | Inr res \<Rightarrow> decomp_proof (try_recursive_wrap env strat res) res
          else None)"

text \<open>Step 5. \<open>to::<u128>()\<close> panics on larger numbers; sums of gas wrap.\<close>

definition check_profitability :: "'r job_env \<Rightarrow> 256 word \<Rightarrow> bool job_m" where
  "check_profitability env t =
     (case je_gas_price env of
        Inl e \<Rightarrow> jfail (Profit_Error e)
      | Inr gas_price \<Rightarrow>
          let claim_gas = (case je_claim_gas env of Inr gas \<Rightarrow> gas | Inl e \<Rightarrow> 100000);
              submit_gas = (case je_submit_gas env of Inr gas \<Rightarrow> gas | Inl e \<Rightarrow> 300000);
              estimated_cost = ucast gas_price * ucast (claim_gas + submit_gas) :: 256 word
          in if t = 0 then jret False
             else if 2 ^ 128 \<le> t \<or> 2 ^ 128 \<le> estimated_cost then jfail (Job_Panic (Explicit_Panic ''Uint conversion error''))
             else jret (je_margin_ok env (ucast t) (ucast estimated_cost)))"

definition job_profitable :: "'r job_env \<Rightarrow> QueuedJob \<Rightarrow> unit job_m" where
  "job_profitable env job =
     (if je_skip_profitability env then jret ()
      else jbind (check_profitability env (tip job)) (\<lambda>ok. if ok then jret () else jfail Not_Profitable))"

text \<open>Steps 7 and 8: the proof, and its copy in the cache.\<close>

definition job_prove :: "'r job_env \<Rightarrow> QueuedJob \<Rightarrow> u8 list \<Rightarrow> u8 list \<Rightarrow> (u8 list \<times> u8 list \<times> u64) job_m" where
  "job_prove env job elf input =
     jbind (jlift Prove_Error (je_prove env elf input)) (\<lambda>(proof, journal, cycles) w.
       (Inr (proof, journal, cycles),
        w\<lparr>wd_proofs := cache_put (je_cache_cfg env) (je_bincode env) (je_write env) (je_instant env) (cache_key env job)
            (cached_proof_new proof journal cycles (je_prove_time env) (je_unix env)) (wd_proofs w)\<rparr>))"

definition standard_path :: "'r job_env \<Rightarrow> QueuedJob \<Rightarrow> bool \<Rightarrow> u8 list \<Rightarrow> u8 list \<Rightarrow> (u64 \<times> nat) job_m" where
  "standard_path env job early_claim elf input =
     jbind (job_profitable env job) (\<lambda>_.
     jbind (if early_claim then jret () else job_claim env job) (\<lambda>_.
     jbind (job_prove env job elf input) (\<lambda>(proof, journal, cycles).
     jbind (job_submit env job proof journal) (\<lambda>_. jret (cycles, length input)))))"

text \<open>The paths of Step 3 and Step 4b: a claim, whether or not the job was claimed before, and the submission.\<close>

definition claim_and_submit :: "'r job_env \<Rightarrow> QueuedJob \<Rightarrow> u8 list \<Rightarrow> u8 list \<Rightarrow> u64 \<Rightarrow> nat \<Rightarrow> (u64 \<times> nat) job_m" where
  "claim_and_submit env job proof journal cycles n =
     jbind (job_claim env job) (\<lambda>_. jbind (job_submit env job proof journal) (\<lambda>_. jret (cycles, n)))"

definition uncached_path :: "'r job_env \<Rightarrow> QueuedJob \<Rightarrow> bool \<Rightarrow> u8 list \<Rightarrow> u8 list \<Rightarrow> (u64 \<times> nat) job_m" where
  "uncached_path env job early_claim elf input =
     jbind (jlift Preflight_Error (je_preflight env elf input)) (\<lambda>(cycles, too_complex).
       if too_complex then jfail (Too_Complex cycles)
       else case job_decomposed env job elf input cycles of
              Some (seal, journal) \<Rightarrow> claim_and_submit env job seal journal (je_decomp_cycles env elf input) (length input)
            | None \<Rightarrow> standard_path env job early_claim elf input)"

definition process_single_job :: "'r job_env \<Rightarrow> QueuedJob \<Rightarrow> (u64 \<times> nat) job_m" where
  "process_single_job env job =
     jbind (job_program env job) (\<lambda>elf.
     jbind (job_early_claim env job) (\<lambda>early_claim.
     jbind (job_input env job) (\<lambda>input.
     jbind (job_cached env job) (\<lambda>cached.
       case cached of
         Some p \<Rightarrow> claim_and_submit env job (cp_proof p) (cp_journal p) (cp_cycles p) (length input)
       | None \<Rightarrow> uncached_path env job early_claim elf input))))"

section \<open>Taking jobs from the queue\<close>

definition is_image_allowed :: "u8 list list \<Rightarrow> u8 list \<Rightarrow> bool" where
  "is_image_allowed allowed img \<longleftrightarrow> (if allowed = [] then True else img \<in> set allowed)"

definition is_tip_acceptable :: "256 word \<Rightarrow> 256 word \<Rightarrow> bool" where
  "is_tip_acceptable min_tip_wei t \<longleftrightarrow> min_tip_wei \<le> t"

record chain_request =
  rq_image_id :: "u8 list"
  rq_input_digest :: "u8 list"
  rq_requester :: "u8 list"
  rq_expires_at :: u64

text \<open>\<open>fetch_request_details\<close> with the answers of \<open>getRequest\<close> and \<open>getCurrentTip\<close>, and the three clock readings of \<open>push\<close>.\<close>

definition fetch_request_details ::
  "u8 list list \<Rightarrow> 256 word \<Rightarrow> string + chain_request \<Rightarrow> string + 256 word \<Rightarrow> 256 word \<Rightarrow> string \<Rightarrow> u8 \<Rightarrow> bool
     \<Rightarrow> nat \<Rightarrow> u64 \<times> u64 \<times> u64 \<Rightarrow> JobQueue \<Rightarrow> (string + bool) \<times> JobQueue" where
  "fetch_request_details allowed min_tip_wei request_result tip_result req_id url ty cached inst clock q =
     (case request_result of
        Inl e \<Rightarrow> (Inl e, q)
      | Inr request \<Rightarrow>
          (case tip_result of
             Inl e \<Rightarrow> (Inl e, q)
           | Inr current_tip \<Rightarrow>
               if \<not> is_image_allowed allowed (rq_image_id request) then (Inr False, q)
               else if \<not> is_tip_acceptable min_tip_wei current_tip then (Inr False, q)
               else if 2 ^ 64 \<le> req_id then (Inl ''overflows u64'', q)
               else let job = \<lparr>request_id = ucast req_id, image_id = rq_image_id request, input_hash = rq_input_digest request,
                               input_url = url, input_type = ty, tip = current_tip, requester = rq_requester request,
                               expires_at = rq_expires_at request, queued_at = inst, estimated_cycles = None, program_cached = cached,
                               prefetched_input = None\<rparr>;
                        (now, now1, now2) = clock;
                        (added, q) = queue_push now now1 now2 job q
                    in (Inr added, q)))"

text \<open>The loop of \<open>process_queue_parallel\<close> that takes up to \<open>max_concurrent\<close> jobs; \<open>n\<close> is what is left of it.\<close>

fun drain_jobs :: "(nat \<Rightarrow> u64) \<Rightarrow> nat \<Rightarrow> QueuedJob list \<Rightarrow> JobQueue \<Rightarrow> QueuedJob list \<times> JobQueue" where
  "drain_jobs clock 0 jobs q = (jobs, q)"
| "drain_jobs clock (Suc n) jobs q =
     (case queue_pop clock q of
        (Some job, q) \<Rightarrow> drain_jobs clock n (jobs @ [job]) q
      | (None, q) \<Rightarrow> (jobs, q))"

section \<open>Steps that send nothing\<close>

lemma jbind_eq: "jbind m f w = (r, w') \<longleftrightarrow> (\<exists>e. m w = (Inl e, w') \<and> r = Inl e) \<or> (\<exists>x w1. m w = (Inr x, w1) \<and> f x w1 = (r, w'))"
  by (auto simp: jbind_def split: prod.splits sum.splits)

abbreviation txs :: "world \<Rightarrow> (tx \<times> u64) list" where
  "txs w \<equiv> sent_txs (wd_sender w)"

definition quiet :: "'a job_m \<Rightarrow> bool" where
  "quiet m \<longleftrightarrow> (\<forall>w r w'. m w = (r, w') \<longrightarrow> wd_sender w' = wd_sender w \<and> wd_proofs w' = wd_proofs w)"

lemma quietD: "quiet m \<Longrightarrow> m w = (r, w') \<Longrightarrow> wd_sender w' = wd_sender w \<and> wd_proofs w' = wd_proofs w"
  by (simp add: quiet_def)

lemma quiet_basic [simp]: "quiet (jret x)" "quiet (jfail e)" "quiet (jlift f r)"
  by (auto simp: quiet_def jret_def jfail_def jlift_def split: sum.splits)

lemma quiet_bind: "quiet m \<Longrightarrow> (\<And>x. quiet (f x)) \<Longrightarrow> quiet (jbind m f)"
  unfolding quiet_def jbind_eq by metis

lemma quiet_fetch [simp]: "quiet (job_fetch fetch)"
  by (auto simp: quiet_def job_fetch_def split: prod.splits sum.splits)

lemma quiet_save [simp]: "quiet (save_elf_to_cache wr img elf)"
  by (auto simp: quiet_def save_elf_to_cache_def split: disk_write.splits)

lemma quiet_registry: "quiet (fetch_program_from_registry env img)"
proof -
  let ?dl = "\<lambda>url. jbind (job_fetch (download_program_elf (je_net env) url)) (\<lambda>elf.
    jbind (jlift Program_Io (je_image_id env elf)) (\<lambda>computed.
    if computed \<noteq> img then jfail Image_Id_Mismatch else jbind (save_elf_to_cache (je_local_write env) img elf) (\<lambda>_. jret elf)))"
  have dl: "quiet (?dl url)" for url by (auto intro!: quiet_bind)
  show ?thesis unfolding quiet_def
  proof (intro allI impI)
    fix w r w' assume "fetch_program_from_registry env img w = (r, w')"
    then show "wd_sender w' = wd_sender w \<and> wd_proofs w' = wd_proofs w"
      using quietD [OF dl] unfolding fetch_program_from_registry_def
      by (auto simp: jfail_def jret_def split: option.splits sum.splits if_splits)
  qed
qed

lemma quiet_program: "quiet (job_program env job)"
  unfolding quiet_def job_program_def jbind_eq
  by (auto simp: jbind_eq split: prod.splits option.splits dest!: quietD [OF quiet_registry])

lemma quiet_input: "quiet (job_input env job)"
  unfolding job_input_def check_digest_def by (auto intro!: quiet_bind split: option.split)

lemma quiet_profitable: "quiet (job_profitable env job)"
proof -
  have "quiet (check_profitability env t)" for t by (simp add: check_profitability_def Let_def split: sum.split)
  then show ?thesis by (auto simp: job_profitable_def intro!: quiet_bind)
qed

text \<open>The input of a job has the digest of the job.\<close>

lemma job_input_digest:
  assumes "job_input env job w = (Inr input, w')" "pf_reach (je_prefetch_cfg env) (je_sha256 env) ts (je_prefetcher env)"
  shows "je_sha256 env input = input_hash job"
  using assms get_cached_verified [OF assms(2)]
  by (auto simp: job_input_def check_digest_def jbind_eq jret_def jfail_def split: if_splits option.splits)

section \<open>What a job sends\<close>

abbreviation claim_txs :: "QueuedJob \<Rightarrow> u64 list \<Rightarrow> (tx \<times> u64) list" where
  "claim_txs job ns \<equiv> map (Pair (Claim (job_rid job))) ns"

abbreviation submit_txs :: "QueuedJob \<Rightarrow> u8 list \<Rightarrow> u8 list \<Rightarrow> u64 list \<Rightarrow> (tx \<times> u64) list" where
  "submit_txs job proof journal ms \<equiv> map (Pair (Submit (job_rid job) proof journal)) ms"

text \<open>The last transaction has a receipt.\<close>

definition mined :: "'r job_env \<Rightarrow> (tx \<times> u64) list \<Rightarrow> bool" where
  "mined env log \<longleftrightarrow> (\<exists>h st. answer (je_node env) log = Receipt h st)"

lemma job_claim_sends:
  assumes "job_claim env job w = (r, w')"
  shows "\<exists>ns. txs w' = txs w @ claim_txs job ns \<and> ns \<noteq> [] \<and> wd_proofs w' = wd_proofs w \<and> (\<forall>x. r = Inr x \<longrightarrow> mined env (txs w'))"
proof -
  obtain q s where q: "send_claim_with_retry (je_node env) (job_rid job) retry_default (wd_sender w) = (q, s)" by fastforce
  then have "tx_done (je_node env) retry_default (Claim (job_rid job)) 0 (txs w) q (sent_txs s)"
    unfolding send_claim_with_retry_def by (rule send_loop_done)
  then show ?thesis using assms q
    by (cases q) (auto simp: job_claim_def tx_done_def explained_def mined_def)
qed

lemma job_submit_sends:
  assumes "job_submit env job proof journal w = (r, w')"
  shows "\<exists>ms. txs w' = txs w @ submit_txs job proof journal ms \<and> ms \<noteq> [] \<and> (\<forall>x. r = Inr x \<longrightarrow> mined env (txs w'))"
proof -
  obtain q s where q: "send_submit_with_retry (je_node env) (job_rid job) proof journal retry_default (wd_sender w) = (q, s)" by fastforce
  then have "tx_done (je_node env) retry_default (Submit (job_rid job) proof journal) 0 (txs w) q (sent_txs s)"
    unfolding send_submit_with_retry_def by (rule send_loop_done)
  then show ?thesis using assms q
    by (cases q) (auto simp: job_submit_def tx_done_def explained_def mined_def)
qed

text \<open>\<open>job_sends\<close>: claims, and, once the last of them has a receipt, submissions of one proof that satisfies \<open>good\<close>.\<close>

definition job_sends :: "'r job_env \<Rightarrow> QueuedJob \<Rightarrow> (u8 list \<Rightarrow> u8 list \<Rightarrow> bool) \<Rightarrow> (tx \<times> u64) list \<Rightarrow> job_error + 'a \<Rightarrow> (tx \<times> u64) list \<Rightarrow> bool" where
  "job_sends env job good log r log' \<longleftrightarrow>
     (\<exists>ns ms seal journal. log' = log @ claim_txs job ns @ submit_txs job seal journal ms
      \<and> (ms \<noteq> [] \<longrightarrow> ns \<noteq> [] \<and> mined env (log @ claim_txs job ns) \<and> good seal journal)
      \<and> (\<forall>x. r = Inr x \<longrightarrow> ms \<noteq> [] \<and> mined env log'))"

lemma sends_claims: "log' = log @ claim_txs job ns \<Longrightarrow> job_sends env job good log (Inl e) log'"
  unfolding job_sends_def by (intro exI [of _ ns] exI [of _ "[]"]) simp

lemma sends_after_claims:
  assumes "job_sends env job good (log @ claim_txs job ns) r log'"
  shows "job_sends env job good log r log'"
proof -
  from assms obtain ks ms seal journal where "log' = log @ claim_txs job (ns @ ks) @ submit_txs job seal journal ms"
    "ms \<noteq> [] \<longrightarrow> ks \<noteq> [] \<and> mined env (log @ claim_txs job (ns @ ks)) \<and> good seal journal" "\<forall>x. r = Inr x \<longrightarrow> ms \<noteq> [] \<and> mined env log'"
    unfolding job_sends_def by auto
  then show ?thesis unfolding job_sends_def
    by (intro exI [of _ "ns @ ks"] exI [of _ ms] exI [of _ seal] exI [of _ journal]) auto
qed

lemma submit_sends:
  assumes "jbind (job_submit env job seal journal) (\<lambda>_. jret y) w = (r, w')"
    "txs w = log @ claim_txs job ns" "ns \<noteq> []" "mined env (txs w)" "good seal journal"
  shows "job_sends env job good log r (txs w')"
proof -
  obtain q w1 where q: "job_submit env job seal journal w = (q, w1)" by (cases "job_submit env job seal journal w")
  from job_submit_sends [OF q]
  obtain ms where ms: "txs w1 = txs w @ submit_txs job seal journal ms" "ms \<noteq> []" "\<forall>x. q = Inr x \<longrightarrow> mined env (txs w1)" by blast
  have "w' = w1 \<and> ((\<exists>x. r = Inr x) \<longrightarrow> (\<exists>x. q = Inr x))"
    using assms(1) q by (cases q) (auto simp: jbind_def jret_def)
  then show ?thesis unfolding job_sends_def
    by (intro exI [of _ ns] exI [of _ ms] exI [of _ seal] exI [of _ journal]) (use assms(2-5) ms in auto)
qed

lemma claim_and_submit_sends:
  assumes "claim_and_submit env job seal journal cycles n w = (r, w')" "good seal journal"
  shows "job_sends env job good (txs w) r (txs w')"
proof -
  obtain q w1 where q: "job_claim env job w = (q, w1)" by fastforce
  from job_claim_sends [OF q] obtain ns where ns: "txs w1 = txs w @ claim_txs job ns" "ns \<noteq> []" "\<forall>x. q = Inr x \<longrightarrow> mined env (txs w1)" by blast
  show ?thesis
  proof (cases q)
    case (Inl e)
    then show ?thesis using assms(1) q ns(1) by (auto simp: claim_and_submit_def jbind_def intro: sends_claims)
  next
    case (Inr u)
    then show ?thesis using assms q ns by (auto simp: claim_and_submit_def jbind_def [of "job_claim env job"] intro!: submit_sends)
  qed
qed

lemma job_prove_eq:
  "job_prove env job elf input w =
     (case je_prove env elf input of
        Inl e \<Rightarrow> (Inl (Prove_Error e), w)
      | Inr (seal, journal, cycles) \<Rightarrow>
          (Inr (seal, journal, cycles),
           w\<lparr>wd_proofs := cache_put (je_cache_cfg env) (je_bincode env) (je_write env) (je_instant env) (cache_key env job)
               (cached_proof_new seal journal cycles (je_prove_time env) (je_unix env)) (wd_proofs w)\<rparr>))"
  by (auto simp: job_prove_def jbind_def jlift_def jret_def jfail_def split: sum.split)

lemma standard_path_sends:
  assumes "standard_path env job early elf input w = (r, w')" "\<And>seal journal cycles. je_prove env elf input = Inr (seal, journal, cycles) \<Longrightarrow> good seal journal"
    "txs w = log @ claim_txs job ns" "early \<longrightarrow> ns \<noteq> [] \<and> mined env (txs w)"
  shows "job_sends env job good log r (txs w')"
proof -
  from assms(1) obtain q w1 where q: "job_profitable env job w = (q, w1)" "case q of Inl e \<Rightarrow> r = Inl e \<and> w' = w1
    | Inr _ \<Rightarrow> jbind (if early then jret () else job_claim env job) (\<lambda>_. jbind (job_prove env job elf input) (\<lambda>(seal, journal, cycles).
        jbind (job_submit env job seal journal) (\<lambda>_. jret (cycles, length input)))) w1 = (r, w')"
    by (auto simp: standard_path_def jbind_def [of "job_profitable env job"] split: prod.splits sum.splits)
  have w1: "txs w1 = txs w" using quietD [OF quiet_profitable q(1)] by simp
  show ?thesis
  proof (cases q)
    case (Inl e)
    then show ?thesis using q w1 assms(3) by (auto intro: sends_claims)
  next
    case (Inr u)
    obtain c w2 where c: "(if early then jret () else job_claim env job) w1 = (c, w2)" by fastforce
    have "\<exists>ks. txs w2 = log @ claim_txs job ks \<and> (\<forall>x. c = Inr x \<longrightarrow> ks \<noteq> [] \<and> mined env (txs w2))"
    proof (cases early)
      case True
      then show ?thesis using c w1 assms(3,4) by (auto simp: jret_def)
    next
      case False
      then have "job_claim env job w1 = (c, w2)" using c by simp
      from job_claim_sends [OF this] obtain ks where "txs w2 = log @ claim_txs job (ns @ ks)" "ks \<noteq> []" "\<forall>x. c = Inr x \<longrightarrow> mined env (txs w2)"
        using w1 assms(3) by auto
      then show ?thesis by blast
    qed
    then obtain ks where ks: "txs w2 = log @ claim_txs job ks" "\<forall>x. c = Inr x \<longrightarrow> ks \<noteq> [] \<and> mined env (txs w2)" by blast
    show ?thesis
    proof (cases c)
      case (Inl e)
      then show ?thesis using q(2) Inr c ks by (auto simp: jbind_def intro: sends_claims)
    next
      case (Inr u')
      then have run: "jbind (job_prove env job elf input) (\<lambda>(seal, journal, cycles).
        jbind (job_submit env job seal journal) (\<lambda>_. jret (cycles, length input))) w2 = (r, w')"
        using q(2) \<open>q = Inr u\<close> c by (simp add: jbind_def [of "if early then jret () else job_claim env job"])
      show ?thesis
      proof (cases "je_prove env elf input")
        case (Inl e)
        then show ?thesis using run ks by (auto simp: job_prove_eq jbind_def intro: sends_claims)
      next
        case (Inr pf)
        obtain seal journal cycles where pf: "pf = (seal, journal, cycles)" by (cases pf)
        have "\<exists>w3. wd_sender w3 = wd_sender w2 \<and> jbind (job_submit env job seal journal) (\<lambda>_. jret (cycles, length input)) w3 = (r, w')"
          using run Inr pf
          by (intro exI [of _ "snd (job_prove env job elf input w2)"]) (simp add: job_prove_eq jbind_def [of "job_prove env job elf input"])
        then obtain w3 where w3: "wd_sender w3 = wd_sender w2" "jbind (job_submit env job seal journal) (\<lambda>_. jret (cycles, length input)) w3 = (r, w')" by blast
        then show ?thesis using submit_sends [OF w3(2), of log ks good] ks \<open>c = Inr u'\<close> assms(2) Inr pf by simp
      qed
    qed
  qed
qed


text \<open>What may be submitted for a job: a cached proof under its key, or a proof, whole or decomposed, of an input with its digest.\<close>

definition justified :: "'r job_env \<Rightarrow> QueuedJob \<Rightarrow> proof_cache \<Rightarrow> u8 list \<Rightarrow> u8 list \<Rightarrow> bool" where
  "justified env job pc seal journal \<longleftrightarrow>
     (\<exists>p. fst (cache_get (je_cache_cfg env) (je_bincode env) (je_unix env) (je_instant env) (cache_key env job) pc) = Some p
        \<and> seal = cp_proof p \<and> journal = cp_journal p)
     \<or> (\<exists>elf input cycles. je_sha256 env input = input_hash job
        \<and> (job_decomposed env job elf input cycles = Some (seal, journal) \<or> je_prove env elf input = Inr (seal, journal, cycles)))"

lemma jbind_ret: "jbind (jret x) f = f x"
  by (simp add: fun_eq_iff jbind_def jret_def)

lemma uncached_path_sends:
  assumes "uncached_path env job early elf input w = (r, w')" "je_sha256 env input = input_hash job"
    "txs w = log @ claim_txs job ns" "early \<longrightarrow> ns \<noteq> [] \<and> mined env (txs w)"
  shows "job_sends env job (justified env job pc) log r (txs w')"
proof (cases "je_preflight env elf input")
  case (Inl e)
  then show ?thesis using assms(1,3) by (auto simp: uncached_path_def jbind_def jlift_def jfail_def intro: sends_claims)
next
  case (Inr pre)
  obtain cycles too_complex where pre: "pre = (cycles, too_complex)" by (cases pre)
  consider "too_complex" "r = Inl (Too_Complex cycles)" "w' = w"
    | seal journal where "job_decomposed env job elf input cycles = Some (seal, journal)"
        "claim_and_submit env job seal journal (je_decomp_cycles env elf input) (length input) w = (r, w')"
    | "standard_path env job early elf input w = (r, w')"
    using assms(1) Inr pre
    by (auto simp: uncached_path_def jlift_def jbind_ret jfail_def split: if_splits option.splits)
  then show ?thesis
  proof cases
    case 1
    then show ?thesis using assms(3) by (auto intro: sends_claims)
  next
    case (2 seal journal)
    have "job_sends env job (justified env job pc) (txs w) r (txs w')"
      by (rule claim_and_submit_sends [OF 2(2)]) (use 2(1) assms(2) in \<open>auto simp: justified_def\<close>)
    then show ?thesis using assms(3) by (auto intro: sends_after_claims)
  next
    case 3
    show ?thesis
      by (rule standard_path_sends [OF 3 _ assms(3,4)]) (use assms(2) in \<open>auto simp: justified_def\<close>)
  qed
qed

theorem submitted_proof:
  assumes run: "process_single_job env job w = (r, w')"
    and pf: "pf_reach (je_prefetch_cfg env) (je_sha256 env) ts (je_prefetcher env)"
  shows "job_sends env job (justified env job (wd_proofs w)) (txs w) r (txs w')"
proof -
  from run consider e where "job_program env job w = (Inl e, w')" "r = Inl e"
    | elf w1 where "job_program env job w = (Inr elf, w1)"
      "jbind (job_early_claim env job) (\<lambda>early_claim. jbind (job_input env job) (\<lambda>input. jbind (job_cached env job) (\<lambda>cached.
         case cached of Some p \<Rightarrow> claim_and_submit env job (cp_proof p) (cp_journal p) (cp_cycles p) (length input)
         | None \<Rightarrow> uncached_path env job early_claim elf input))) w1 = (r, w')"
    unfolding process_single_job_def jbind_eq [of "job_program env job"] by blast
  then show ?thesis
  proof cases
    case 1
    then show ?thesis using quietD [OF quiet_program 1(1)] by (auto intro!: sends_claims [where ns = "[]"])
  next
    case (2 elf w1)
    have w1: "wd_sender w1 = wd_sender w" "wd_proofs w1 = wd_proofs w" using quietD [OF quiet_program 2(1)] by simp_all
    obtain q w2 where q: "job_early_claim env job w1 = (q, w2)" by (cases "job_early_claim env job w1")
    have early: "\<exists>ns. txs w2 = txs w @ claim_txs job ns \<and> wd_proofs w2 = wd_proofs w \<and> (\<forall>b. q = Inr b \<longrightarrow> b \<longrightarrow> ns \<noteq> [] \<and> mined env (txs w2))"
    proof (cases "input_type job = 1")
      case True
      then obtain c where c: "job_claim env job w1 = (c, w2)" "\<forall>b. q = Inr b \<longrightarrow> (\<exists>u. c = Inr u)"
        using q by (auto simp: job_early_claim_def jbind_eq jret_def)
      then show ?thesis using job_claim_sends [OF c(1)] w1 by fastforce
    next
      case False
      then show ?thesis using q w1 by (auto simp: job_early_claim_def jret_def)
    qed
    then obtain ns where ns: "txs w2 = txs w @ claim_txs job ns" "wd_proofs w2 = wd_proofs w"
      "\<And>b. q = Inr b \<Longrightarrow> b \<Longrightarrow> ns \<noteq> [] \<and> mined env (txs w2)" by blast
    from 2(2) q consider e where "q = Inl e" "w' = w2" "r = Inl e"
      | b e where "q = Inr b" "job_input env job w2 = (Inl e, w')" "r = Inl e"
      | b input w3 where "q = Inr b" "job_input env job w2 = (Inr input, w3)"
        "jbind (job_cached env job) (\<lambda>cached.
           case cached of Some p \<Rightarrow> claim_and_submit env job (cp_proof p) (cp_journal p) (cp_cycles p) (length input)
           | None \<Rightarrow> uncached_path env job b elf input) w3 = (r, w')"
      unfolding jbind_eq [of "job_early_claim env job"] jbind_eq [of "job_input env job"] by auto
    then show ?thesis
    proof cases
      case 1
      then show ?thesis using ns(1) by (auto intro: sends_claims)
    next
      case (2 b e)
      then show ?thesis using quietD [OF quiet_input 2(2)] ns(1) by (auto intro: sends_claims)
    next
      case (3 b input w3)
      have w3: "wd_sender w3 = wd_sender w2" "wd_proofs w3 = wd_proofs w" using quietD [OF quiet_input 3(2)] ns(2) by simp_all
      have digest: "je_sha256 env input = input_hash job" by (rule job_input_digest [OF 3(2) pf])
      let ?get = "cache_get (je_cache_cfg env) (je_bincode env) (je_unix env) (je_instant env) (cache_key env job) (wd_proofs w)"
      let ?w4 = "w3\<lparr>wd_proofs := snd ?get\<rparr>"
      have run: "(case fst ?get of Some p \<Rightarrow> claim_and_submit env job (cp_proof p) (cp_journal p) (cp_cycles p) (length input)
          | None \<Rightarrow> uncached_path env job b elf input) ?w4 = (r, w')"
        using 3(3) by (simp add: jbind_def job_cached_def w3 case_prod_unfold Let_def)
      show ?thesis
      proof (cases "fst ?get")
        case (Some p)
        then have "job_sends env job (justified env job (wd_proofs w)) (txs ?w4) r (txs w')"
          using run by (intro claim_and_submit_sends) (auto simp: justified_def)
        then show ?thesis using ns(1) w3(1) by (auto intro: sends_after_claims)
      next
        case None
        show ?thesis
          by (rule uncached_path_sends [where w = ?w4 and ns = ns]) (use None run digest ns w3(1) 3(1) in auto)
      qed
    qed
  qed
qed

section \<open>Claims of private inputs\<close>

lemma send_loop_receipt:
  assumes "answer nd (sent_txs s @ [(t, current_nonce (sender_nonces s))]) = Receipt h st"
  shows "send_loop nd cfg t n d s = (Inr \<lparr>result_hash = h, attempts_made = n + 1\<rparr>,
    s\<lparr>sent_txs := sent_txs s @ [(t, current_nonce (sender_nonces s))], sender_nonces := (sender_nonces s)\<lparr>current_nonce := current_nonce (sender_nonces s) + 1\<rparr>\<rparr>)"
  by (subst send_loop.simps) (simp add: next_nonce_def transaction_completed_def assms)

lemma send_loop_permanent:
  assumes "answer nd (sent_txs s @ [(t, current_nonce (sender_nonces s))]) = Send_Error err" "\<not> is_retryable_error err" "\<not> is_nonce_error err"
  shows "send_loop nd cfg t n d s = (Inl (Send_Failed (n + 1) err),
    s\<lparr>sent_txs := sent_txs s @ [(t, current_nonce (sender_nonces s))], sender_nonces := (sender_nonces s)\<lparr>current_nonce := current_nonce (sender_nonces s) + 1\<rparr>\<rparr>)"
  by (subst send_loop.simps) (simp add: next_nonce_def transaction_completed_def assms handle_nonce_error_def give_up_def)

text \<open>A job with a private input whose proof is cached: the input is claimed before it is fetched, and the path of the cached
  proof claims again. A node that refuses the second claim ends the job with the request claimed and nothing submitted.\<close>

theorem private_cached_claims_twice:
  fixes w :: world and job :: QueuedJob
  defines "n \<equiv> current_nonce (sender_nonces (wd_sender w))"
  assumes "input_type job = 1" "je_private env = Some fetch" "fetch (input_url job) (request_id job) = Inr input"
    and "je_sha256 env input = input_hash job" "map_of (pg_memory (wd_programs w)) (image_id job) = Some elf"
    and "fst (cache_get (je_cache_cfg env) (je_bincode env) (je_unix env) (je_instant env) (cache_key env job) (wd_proofs w)) = Some p"
    and "answer (je_node env) (txs w @ claim_txs job [n]) = Receipt h st"
    and "answer (je_node env) (txs w @ claim_txs job [n, n + 1]) = Send_Error err"
    and "\<not> is_retryable_error err" "\<not> is_nonce_error err"
  shows "\<exists>w'. process_single_job env job w = (Inl (Tx_Error (Send_Failed 1 err)), w') \<and> txs w' = txs w @ claim_txs job [n, n + 1]"
proof -
  let ?s = "wd_sender w"
  let ?s1 = "?s\<lparr>sent_txs := sent_txs ?s @ [(Claim (job_rid job), n)], sender_nonces := (sender_nonces ?s)\<lparr>current_nonce := n + 1\<rparr>\<rparr>"
  have prog: "job_program env job w = (Inr elf, w)" using assms(6) by (simp add: job_program_def program_get_def)
  have claim1: "job_claim env job w = (Inr (), w\<lparr>wd_sender := ?s1\<rparr>)"
    using send_loop_receipt [where s = ?s and t = "Claim (job_rid job)" and nd = "je_node env"] assms(8)
    by (simp add: job_claim_def send_claim_with_retry_def n_def)
  have input: "job_input env job w' = (Inr input, w')" for w'
    using assms(2-5) by (simp add: job_input_def check_digest_def jbind_def jlift_def jret_def)
  have claim2: "job_claim env job w1 = (Inl (Tx_Error (Send_Failed 1 err)),
      w1\<lparr>wd_sender := ?s1\<lparr>sent_txs := sent_txs ?s1 @ [(Claim (job_rid job), n + 1)], sender_nonces := (sender_nonces ?s1)\<lparr>current_nonce := n + 1 + 1\<rparr>\<rparr>\<rparr>)"
    if "wd_sender w1 = ?s1" for w1
    using send_loop_permanent [where s = ?s1 and t = "Claim (job_rid job)" and nd = "je_node env" and err = err] assms(9-11) that
    by (simp add: job_claim_def send_claim_with_retry_def)
  show ?thesis using assms(2,7)
    by (simp add: process_single_job_def jbind_def prog job_early_claim_def claim1 jret_def input job_cached_def case_prod_unfold Let_def
        claim_and_submit_def claim2)
qed

section \<open>The queue\<close>

lemma drain_jobs_bound: "length (fst (drain_jobs clock n jobs q)) \<le> length jobs + n"
proof (induction n arbitrary: jobs q)
  case (Suc n)
  obtain r q' where p: "queue_pop clock q = (r, q')" by (cases "queue_pop clock q")
  then show ?case using Suc [of "jobs @ [the r]" q'] by (cases r) simp_all
qed simp

text \<open>A request is queued only when its image is allowed and its tip reaches both limits.\<close>

lemma fetch_request_details_added:
  assumes "fetch_request_details allowed min_tip_wei (Inr rq) (Inr t) req_id url ty cached inst clock q = (Inr True, q')"
  shows "is_image_allowed allowed (rq_image_id rq) \<and> min_tip_wei \<le> t \<and> req_id < 2 ^ 64 \<and> \<not> t < min_tip q"
proof -
  obtain a b c where clock: "clock = (a, b, c)" by (cases clock)
  have "\<not> tip job < min_tip q" if "fst (queue_push a b c job q)" for job
    using that by (auto simp: queue_push_def split: if_splits)
  then have low: "\<not> fst (queue_push a b c job q)" if "tip job < min_tip q" for job using that by blast
  show ?thesis using assms low
    by (auto simp: fetch_request_details_def is_tip_acceptable_def clock Let_def case_prod_unfold split: if_splits)
qed

end
