(* ===== verification/Example_Prover.thy ===== *)
theory Example_Prover
  imports Example_Proofs Proof_Encoder Rule_Engine Prover_Pipeline Sha256
begin

text \<open>
  Concrete inputs for the properties of the prover: a word format for the serialiser of RISC Zero, on the readers of the guest; an
  XGBoost input of two samples; a JSON proof; the environment of a job with a private input. The hash function is \<open>sha256_native\<close>.
\<close>

section \<open>A serialiser\<close>

fun bytes_words :: "u8 list \<Rightarrow> u32 list" where
  "bytes_words (a # b # c # d # bs) =
     (ucast a OR push_bit 8 (ucast b) OR push_bit 16 (ucast c) OR push_bit 24 (ucast d)) # bytes_words bs"
| "bytes_words _ = []"

lemma join_bytes:
  "ucast (ucast w :: u8) OR push_bit 8 (ucast (ucast (drop_bit 8 w) :: u8)) OR push_bit 16 (ucast (ucast (drop_bit 16 w) :: u8))
     OR push_bit 24 (ucast (ucast (drop_bit 24 w) :: u8)) = (w :: u32)" (is "?l = w")
proof (rule bit_word_eqI)
  fix n assume "n < LENGTH(32)"
  then consider "n < 8" | "8 \<le> n" "n < 16" | "16 \<le> n" "n < 24" | "24 \<le> n" "n < 32" by fastforce
  then show "bit ?l n = bit w n" by cases (auto simp: bit_simps)
qed

lemma bytes_words_inverse: "bytes_words (words_bytes ws) = ws"
proof (induction ws)
  case (Cons w ws)
  have "u32_le w = [ucast w, ucast (drop_bit 8 w), ucast (drop_bit 16 w), ucast (drop_bit 24 w)]"
    by (simp add: u32_le_def upt_rec)
  then show ?case using Cons by (simp add: words_bytes_def join_bytes)
qed (simp add: words_bytes_def)

text \<open>A reader for the journal on the host, which has no bound on allocations.\<close>

definition host_vec :: "'a wreader \<Rightarrow> 'a list wreader" where
  "host_vec rd = wr_bind read_word (\<lambda>len. rtimes (unat len) rd)"

definition read_prediction :: "xg_prediction wreader" where
  "read_prediction =
     wr_bind read_byte_array_32 (\<lambda>i. wr_bind read_u64_val (\<lambda>s. wr_bind read_word (\<lambda>f.
     wr_ret \<lparr>pred_id = i, pred_score = s, pred_flagged = f\<rparr>)))"

definition read_xg_output :: "xg_output wreader" where
  "read_xg_output =
     wr_bind read_word (\<lambda>n. wr_bind (host_vec read_prediction) (\<lambda>ps. wr_bind read_word (\<lambda>k.
     wr_bind (host_vec read_byte_array_32) (\<lambda>ids. wr_bind read_byte_array_32 (\<lambda>h.
     wr_ret \<lparr>total_samples = n, predictions = ps, flagged_count = k, flagged_samples = ids, xg_input_hash = h\<rparr>)))))"

interpretation prediction_codec: word_codec "\<lambda>p. length (pred_id p) = 32" prediction_words read_prediction
proof
  fix p :: xg_prediction assume "length (pred_id p) = 32"
  moreover have "push_f64 v = u64_words v" for v by (simp add: push_f64_def u64_words_def)
  ultimately show "wreads read_prediction (prediction_words p) p"
    unfolding read_prediction_def prediction_words_def
    by (simp only:) (intro wreads_bind [OF wreads_byte_array] wreads_bind [OF wreads_u64] wreads_last [OF wreads_word]; simp)
qed

lemma wreads_host_vec:
  assumes "wreads (rtimes (length xs) dec) (concat (map enc xs)) xs" "length xs < 2 ^ 32"
  shows "wreads (host_vec dec) (vec_words enc xs) xs"
proof -
  have "unat (of_nat (length xs) :: u32) = length xs" using assms(2) by (simp add: unat_of_nat)
  then show ?thesis using assms(1) by (simp add: wreads_def host_vec_def vec_words_def wr_bind_def read_word_def)
qed

lemma wreads_xg_output: "xg_output_fits out \<Longrightarrow> wreads read_xg_output (xg_output_words out) out"
  unfolding read_xg_output_def xg_output_words_def
  by (intro wreads_bind_Cons [OF wreads_word] wreads_bind [OF wreads_host_vec] prediction_codec.reads_times id_codec.reads_times
      wreads_last [OF wreads_byte_array]) (simp_all add: xg_output_fits_def)

definition of_reader :: "'a wreader \<Rightarrow> u8 list \<Rightarrow> string + 'a" where
  "of_reader rd bytes = (case rd (bytes_words bytes) of Inl _ \<Rightarrow> Inl ''deserialize'' | Inr (x, _) \<Rightarrow> Inr x)"

definition ex_serde :: serde_ops where
  "ex_serde = \<lparr>in_to_vec = (\<lambda>inp. Inr (xg_input_words inp)), in_from_slice = of_reader read_xg_input,
     out_to_vec = (\<lambda>out. Inr (xg_output_words out)), out_from_slice = of_reader read_xg_output\<rparr>"

lemma of_reader_reads: "wreads rd ws x \<Longrightarrow> of_reader rd (words_bytes ws) = Inr x"
  unfolding wreads_def of_reader_def bytes_words_inverse by (drule spec [of _ "[]"]) simp

lemma ex_serde_ok: "serde_ok ex_serde"
  by (simp add: serde_ok_def ex_serde_def of_reader_reads [OF wreads_xg_input] of_reader_reads [OF wreads_xg_output] del: split_paired_All)

section \<open>An XGBoost input\<close>

definition ex_f64_ops :: guest_f64 where
  "ex_f64_ops = \<lparr>g_add = (+), g_lt = (<), g_ge = (\<ge>)\<rparr>"

definition ex_model :: xg_model where
  "ex_model = \<lparr>xg_num_features = 1, xg_num_classes = 1, xg_base_score = 5, xg_trees = []\<rparr>"

definition ex_sample :: "u64 \<Rightarrow> xg_sample" where
  "ex_sample v = \<lparr>sample_id = replicate 32 0, sample_features = [v]\<rparr>"

definition ex_xg_bytes :: "u8 list" where
  "ex_xg_bytes = words_bytes (xg_input_words (ex_model, [ex_sample 1, ex_sample 2], 3))"

definition ex_decomposer :: decomposer_config where
  "ex_decomposer = \<lparr>min_input_size = 0, max_sub_jobs = 16, target_cycles_per_job = 1000000\<rparr>"

text \<open>A proof is the journal of the guest.\<close>

definition ex_prove :: "u8 list \<Rightarrow> string + u8 list sub_proof" where
  "ex_prove s =
     (case xg_guest ex_serde sha256_native ex_f64_ops s of
        None \<Rightarrow> Inl ''guest'' | Some j \<Rightarrow> Inr \<lparr>sub_receipt = j, sub_seal = [1], sub_journal = j\<rparr>)"

definition ex_receipts :: "u8 list receipt_ops" where
  "ex_receipts = \<lparr>extract_seal = (\<lambda>r. Inr [1]), journal_bytes = (\<lambda>r. r)\<rparr>"

lemma ex_xg_fits: "xg_input_fits (ex_model, [ex_sample 1, ex_sample 2], 3)"
  by (simp add: xg_input_fits_def model_fits_def sample_fits_def ex_model_def ex_sample_def)

lemma ex_xg_valid: "xg_valid ex_serde sha256_native ex_xg_bytes"
  unfolding xg_valid_def using ex_serde_ok ex_xg_fits
  by (auto simp: ex_xg_bytes_def intro!: exI [of _ ex_model] exI [of _ "[ex_sample 1, ex_sample 2]"] exI [of _ 3])

lemma ex_xg_parse: "try_parse ex_serde ex_xg_bytes = Inr (ex_model, [ex_sample 1, ex_sample 2], 3)"
  unfolding ex_xg_bytes_def by (rule serde_laws(2) [OF ex_serde_ok ex_xg_fits])

lemma ex_xg_plan: "plan_split ex_decomposer sqrt_ceil (xg_strategy ex_serde) ex_xg_bytes = Inr 2"
  by (simp add: plan_split_def xg_strategy_def xg_item_count_def xg_estimate_cycles_def ex_xg_parse ex_decomposer_def ex_model_def)

lemma ex_xg_decomposable: "xg_can_decompose ex_serde ex_xg_bytes"
  by (simp add: xg_can_decompose_def ex_xg_parse)

lemma ex_prove_guest:
  "\<forall>s j. xg_guest ex_serde sha256_native ex_f64_ops s = Some j \<longrightarrow> (\<exists>r. ex_prove s = Inr r \<and> sub_journal r = j)"
  "\<forall>s p. ex_prove s = Inr p \<longrightarrow> journal_bytes ex_receipts (sub_receipt p) = sub_journal p"
  by (auto simp: ex_prove_def ex_receipts_def split: option.splits)

section \<open>A JSON proof\<close>

definition ex_pjson :: "json proof_json" where
  "ex_pjson = json_ops.extend ex_ops
     \<lparr>js_at = (\<lambda>j i. case j of JArr xs \<Rightarrow> (if i < length xs then xs ! i else JNull) | _ \<Rightarrow> JNull), js_null = (\<lambda>j. j = JNull)\<rparr>"

text \<open>One public layer with the values 7 and 0, one public layer without values, an output at the point (1, 5), and a claim at infinity (the empty
  string). The curve is \<open>y\<^sup>2 = x\<^sup>3 + 3\<close> modulo 7.\<close>

definition ex_fr :: "u8 \<Rightarrow> json" where
  "ex_fr b = JStr (''0x'' @ Example_Proofs.hex_encode (b # replicate 31 0))"

definition ex_jpoint :: json where
  "ex_jpoint = JStr (''0x'' @ Example_Proofs.hex_encode (1 # replicate 30 0 @ [64]))"

definition ex_jclaim :: json where
  "ex_jclaim = JObj [(''evaluation'', JObj [(''value'', ex_fr 7), (''blinding'', ex_fr 0), (''commitment'', JStr [])]),
     (''point'', JArr [ex_fr 1])]"

definition ex_jproof :: json where
  "ex_jproof = JObj [
     (''public_inputs'', JArr [JArr [JNum 0, JObj [(''f'', JObj [(''evals'', JObj [
        (''naive_buf'', JArr [ex_fr 7, ex_fr 0, ex_fr 9]), (''num_elements'', JNum 2)])])]], JArr [JNum 1, JNull]]),
     (''circuit_proof'', JObj [
        (''output_layer_proofs'', JArr [JArr [JNull, JNull, JObj [(''claim_commitment'', ex_jpoint)]]]),
        (''layer_proofs'', JArr []), (''fiat_shamir_claims'', JArr [])]),
     (''claims_on_public_values'', JArr [ex_jclaim]), (''hyrax_input_proofs'', JArr [])]"

definition ex_claim :: hyrax_claim where
  "ex_claim = \<lparr>pvc_value = from_u64 7, pvc_blinding = from_u64 0, pvc_commitment = INFINITY, claim_point = [from_u64 1]\<rparr>"

definition ex_output :: G1Point where
  "ex_output = \<lparr>pt_x = from_u64 1, pt_y = from_u64 5\<rparr>"

definition ex_hproof :: hyrax_proof where
  "ex_hproof = \<lparr>hx_public = [Some [from_u64 7, from_u64 0], None], hx_outputs = [ex_output], hx_layers = [], hx_fs_claims = [],
     hx_public_claims = [ex_claim], hx_inputs = []\<rparr>"

text \<open>The field of seven elements, a number standing for its remainder.\<close>

definition ex_fq :: "nat fq_ops" where
  "ex_fq = \<lparr>fq_from_repr = (\<lambda>bs. find (\<lambda>n. le32 n = bs) [0..<7]), fq_to_repr = (\<lambda>a. le32 (a mod 7)), fq_sq = (\<lambda>a. a * a mod 7),
     fq_times = (\<lambda>a b. a * b mod 7), fq_plus = (\<lambda>a b. (a + b) mod 7), fq_of_u64 = (\<lambda>n. unat n mod 7),
     fq_sqrt = (\<lambda>a. find (\<lambda>r. r * r mod 7 = a mod 7) [0..<7]), fq_negate = (\<lambda>a. (7 - a mod 7) mod 7)\<rparr>"

lemma ex_base_field: "base_field 7"
proof -
  have "\<forall>y < 7. \<forall>r < 7. r * r mod 7 = y * y mod 7 \<longrightarrow> r = y \<or> r = (7 - y) mod (7 :: nat)" by code_simp
  then show ?thesis by (simp add: base_field_def)
qed

lemma ex_fq_laws: "fq_laws ex_fq (\<lambda>a. a mod 7) 7"
proof -
  have inj: "m = n" if "le32 m = le32 n" "m < 7" "n < 7" for m n
  proof -
    have "(of_nat m :: u8) = of_nat n" using that(1) le32_nth(1) [of 0 m] le32_nth(1) [of 0 n] by simp
    then have "unat (of_nat m :: u8) = unat (of_nat n :: u8)" by simp
    then show ?thesis using that(2,3) by (simp add: unat_of_nat)
  qed
  have repr: "fq_from_repr ex_fq (le32 n) = Some n" if "n < 7" for n
  proof -
    have "n \<in> set [0..<7] \<and> le32 n = le32 n" using that by simp
    then obtain m where m: "find (\<lambda>k. le32 k = le32 n) [0..<7] = Some m" by (cases "find (\<lambda>k. le32 k = le32 n) [0..<7]") (auto simp: find_None_iff)
    then have "le32 m = le32 n" "m < 7" by (auto simp: find_Some_iff)
    then show ?thesis using m inj [of m n] that by (simp add: ex_fq_def)
  qed
  have root: "r * r mod 7 = a mod 7" "r < 7" if "fq_sqrt ex_fq a = Some r" for a r using that by (auto simp: ex_fq_def find_Some_iff)
  have ex: "fq_sqrt ex_fq a \<noteq> None" if "y < 7" "y * y mod 7 = a mod 7" for a y
  proof
    assume "fq_sqrt ex_fq a = None"
    then have "\<not> (\<exists>r. r \<in> set [0..<7] \<and> r * r mod 7 = a mod 7)" by (simp add: ex_fq_def find_None_iff)
    then show False using that by auto
  qed
  show ?thesis unfolding fq_laws_def
  proof (intro conjI allI impI)
    fix n :: nat assume "n < 7"
    then show "\<exists>a. fq_from_repr ex_fq (le32 n) = Some a \<and> a mod 7 = n" using repr [of n] by simp
  next
    fix a r assume "fq_sqrt ex_fq a = Some r"
    then show "(r mod 7) * (r mod 7) mod 7 = a mod 7" using root [of a r] by simp
  next
    fix a y :: nat assume "y < 7" "y * y mod 7 = a mod 7"
    then show "fq_sqrt ex_fq a \<noteq> None" by (rule ex)
  qed (simp_all add: ex_fq_def mod_simps)
qed

lemma ex_fq_ok: "fq_ok ex_fq 7"
  using ex_base_field ex_fq_laws by (auto simp: fq_ok_def)

lemma ex_json_bytes:
  assumes "bytes = b # bs" "b \<in> {0, 1, 7}"
  shows "json_bytes ex_pjson ex_hex_decode (JStr (''0x'' @ Example_Proofs.hex_encode bytes)) bytes"
proof -
  have "take 2 (Example_Proofs.hex_encode bytes) \<noteq> ''0x''"
    using assms by (auto simp: Example_Proofs.hex_encode_def Example_Proofs.hex_digit_def char_of_def)
  moreover have "js_str ex_pjson (JStr s) = Some s" for s by (simp add: ex_pjson_def ex_ops_def json_ops.defs)
  ultimately show ?thesis
    by (auto simp: json_bytes_def ex_hex_roundtrip intro!: exI [of _ 1] exI [of _ "Example_Proofs.hex_encode bytes"])
qed

lemma le32_byte: "n < 256 \<Longrightarrow> le32 n = of_nat n # replicate 31 0"
proof (rule nth_equalityI)
  assume n: "n < 256"
  fix i assume "i < length (le32 n)"
  then have i: "i < 32" by (simp add: le32_nth)
  have "n div 256 ^ Suc j = 0" for j using n by (simp add: div_mult2_eq)
  then show "le32 n ! i = (of_nat n # replicate 31 0) ! i" using i by (cases i) (simp_all add: le32_nth)
qed (simp add: le32_nth)

lemma ex_json_fr: "b \<in> {0, 1, 7} \<Longrightarrow> json_fr ex_pjson ex_hex_decode (ex_fr b) (from_u64 (ucast b))"
proof -
  assume b: "b \<in> {0, 1, 7}"
  have "le32 (unat b) = b # replicate 31 0" using b le32_byte [of "unat b"] by auto
  moreover have "uval (from_u64 (ucast b)) = unat b" using b by (auto simp: uval_from_u64)
  ultimately show ?thesis using ex_json_bytes [of "b # replicate 31 0" b "replicate 31 0"] b by (simp add: json_fr_def ex_fr_def)
qed

lemma ex_json_infinity: "json_point ex_pjson ex_hex_decode P (JStr []) INFINITY"
proof -
  have "json_bytes ex_pjson ex_hex_decode (JStr []) []"
    using ex_hex_roundtrip [of "[]"]
    by (auto simp: json_bytes_def ex_pjson_def ex_ops_def json_ops.defs Example_Proofs.hex_encode_def intro!: exI [of _ 0])
  then show ?thesis by (auto simp: json_point_def)
qed

lemma ex_json_point: "json_point ex_pjson ex_hex_decode 7 ex_jpoint ex_output"
proof -
  have "replicate 31 (0 :: u8) = replicate 30 0 @ [0]" by (simp add: replicate_append_same flip: replicate_Suc)
  then have "le32 1 = 1 # replicate 30 0 @ [0]" using le32_byte [of 1] by simp
  then have "compress_xy 1 5 = 1 # replicate 30 0 @ [64]" by (simp add: compress_xy_def list_update_append nth_append)
  moreover have "curve_point 7 ex_output" "uval (pt_x ex_output) = 1" "uval (pt_y ex_output) = 5"
    by (simp_all add: curve_point_def ex_output_def uval_from_u64)
  moreover have "ex_output \<noteq> INFINITY"
  proof
    assume "ex_output = INFINITY"
    then have "pt_x ex_output = pt_x INFINITY" by (rule arg_cong)
    then have "pt_x ex_output = u256_ZERO" unfolding INFINITY_def by simp
    then have "uval (from_u64 1) = uval u256_ZERO" by (simp add: ex_output_def)
    then show False by (simp add: uval_from_u64)
  qed
  ultimately show ?thesis
    using ex_json_bytes [of "1 # replicate 30 0 @ [64]" 1 "replicate 30 0 @ [64]"] by (auto simp: json_point_def ex_jpoint_def)
qed

lemma ex_json_proof: "json_proof ex_pjson ex_hex_decode 7 ex_jproof ex_hproof"
proof -
  note fr = ex_json_fr [of 7, simplified] ex_json_fr [of 0, simplified] ex_json_fr [of 1, simplified]
  have ops: "js_get ex_pjson (JObj kvs) k = (case map_of kvs k of Some v \<Rightarrow> v | None \<Rightarrow> JNull)" "js_array ex_pjson (JArr xs) = Some xs"
    "js_u64 ex_pjson (JNum n) = Some n" "js_null ex_pjson j \<longleftrightarrow> j = JNull"
    "js_at ex_pjson (JArr xs) i = (if i < length xs then xs ! i else JNull)" for kvs k xs n j i
    by (simp_all add: ex_pjson_def ex_ops_def json_ops.defs)
  have "json_claim ex_pjson ex_hex_decode 7 ex_jclaim ex_claim"
    by (simp add: json_claim_def ex_jclaim_def ex_claim_def ops json_list_def fr ex_json_infinity)
  then show ?thesis
    by (simp add: json_proof_def ex_jproof_def ex_hproof_def ops json_list_def json_public_def fr ex_json_point Let_def)
qed

lemma ex_hproof_ok: "counts_ok ex_hproof" "length (proof_body (replicate 32 0) ex_hproof) < 2 ^ 63"
proof -
  show "counts_ok ex_hproof"
    by (simp add: counts_ok_def ex_hproof_def public_short_def section_of_def claim_short_def ex_claim_def)
  have "length (proof_body (replicate 32 0) ex_hproof) = 608"
    by (simp add: proof_body_def ex_hproof_def array_bytes_def public_bytes_def section_of_def claim_bytes_def ex_claim_def length_point)
  then show "length (proof_body (replicate 32 0) ex_hproof) < 2 ^ 63" by simp
qed

section \<open>A format for cached proofs\<close>

text \<open>Readers that read a value from exactly its bytes, and nothing from less.\<close>

definition exact :: "(u8 list \<Rightarrow> ('a \<times> u8 list) option) \<Rightarrow> 'a \<Rightarrow> u8 list \<Rightarrow> bool" where
  "exact rd x bs \<longleftrightarrow> (\<forall>rest. rd (bs @ rest) = Some (x, rest)) \<and> (\<forall>n < length bs. rd (take n bs) = None)"

definition rd_then ::
  "(u8 list \<Rightarrow> ('a \<times> u8 list) option) \<Rightarrow> ('a \<Rightarrow> u8 list \<Rightarrow> ('b \<times> u8 list) option) \<Rightarrow> u8 list \<Rightarrow> ('b \<times> u8 list) option" where
  "rd_then rd f bs = (case rd bs of None \<Rightarrow> None | Some (x, rest) \<Rightarrow> f x rest)"

definition rd_bytes :: "nat \<Rightarrow> u8 list \<Rightarrow> (u8 list \<times> u8 list) option" where
  "rd_bytes n bs = (if length bs < n then None else Some (take n bs, drop n bs))"

definition rd_u64 :: "u8 list \<Rightarrow> (u64 \<times> u8 list) option" where
  "rd_u64 = rd_then (rd_bytes 8) (\<lambda>bs rest. Some (u64_from_be_bytes (rev bs), rest))"

definition rd_vec :: "u8 list \<Rightarrow> (u8 list \<times> u8 list) option" where
  "rd_vec = rd_then rd_u64 (\<lambda>n. rd_bytes (unat n))"

definition bc_u64 :: "u64 \<Rightarrow> u8 list" where
  "bc_u64 n = rev (u64_to_be_bytes n)"

definition bc_vec :: "u8 list \<Rightarrow> u8 list" where
  "bc_vec bs = bc_u64 (of_nat (length bs)) @ bs"

lemma exact_ret: "exact (\<lambda>bs. Some (x, bs)) x []"
  by (simp add: exact_def)

lemma exact_then:
  assumes "exact rd x a" "exact (f x) y b"
  shows "exact (rd_then rd f) y (a @ b)"
proof -
  have "rd_then rd f (take n (a @ b)) = None" if n: "n < length (a @ b)" for n
  proof (cases "n < length a")
    case True
    then show ?thesis using assms(1) by (simp add: exact_def rd_then_def)
  next
    case False
    then have "take n (a @ b) = a @ take (n - length a) b" "n - length a < length b" using n by auto
    then show ?thesis using assms by (simp add: exact_def rd_then_def)
  qed
  then show ?thesis using assms by (simp add: exact_def rd_then_def)
qed

lemma exact_bytes: "exact (rd_bytes (length bs)) bs bs"
  by (auto simp: exact_def rd_bytes_def)

lemma exact_u64: "exact rd_u64 n (bc_u64 n)"
proof -
  have "exact (rd_bytes 8) (bc_u64 n) (bc_u64 n)" using exact_bytes [of "bc_u64 n"] by (simp add: bc_u64_def)
  moreover have "u64_from_be_bytes (rev (bc_u64 n)) = n" by (simp add: bc_u64_def u64_from_be_bytes_def)
  ultimately show ?thesis unfolding rd_u64_def
    using exact_then [of "rd_bytes 8" "bc_u64 n" "bc_u64 n" "\<lambda>bs rest. Some (u64_from_be_bytes (rev bs), rest)" n "[]"] exact_ret [of n] by simp
qed

lemma exact_vec: "length bs < 2 ^ 64 \<Longrightarrow> exact rd_vec bs (bc_vec bs)"
  unfolding rd_vec_def bc_vec_def by (rule exact_then [OF exact_u64]) (simp add: unat_of_nat exact_bytes)

definition rd_proof :: "u8 list \<Rightarrow> (cached_proof \<times> u8 list) option" where
  "rd_proof = rd_then rd_vec (\<lambda>p. rd_then rd_vec (\<lambda>j. rd_then rd_u64 (\<lambda>c. rd_then rd_u64 (\<lambda>g. rd_then rd_u64 (\<lambda>t.
     \<lambda>bs. Some (\<lparr>cp_proof = p, cp_journal = j, cp_cycles = c, cp_generated_at = g, cp_proof_time_ms = t\<rparr>, bs))))))"

definition ex_bincode :: bincode where
  "ex_bincode = \<lparr>bc_serialize = (\<lambda>p. if length (cp_proof p) < 2 ^ 64 \<and> length (cp_journal p) < 2 ^ 64
       then Some (bc_vec (cp_proof p) @ bc_vec (cp_journal p) @ bc_u64 (cp_cycles p) @ bc_u64 (cp_generated_at p) @ bc_u64 (cp_proof_time_ms p) @ [])
       else None),
     bc_deserialize = (\<lambda>bs. map_option fst (rd_proof bs))\<rparr>"

lemma exact_proof:
  assumes "length p < 2 ^ 64" "length j < 2 ^ 64"
  shows "exact rd_proof \<lparr>cp_proof = p, cp_journal = j, cp_cycles = c, cp_generated_at = g, cp_proof_time_ms = t\<rparr>
    (bc_vec p @ bc_vec j @ bc_u64 c @ bc_u64 g @ bc_u64 t @ [])"
  unfolding rd_proof_def
  by (rule exact_then [OF exact_vec [OF assms(1)]], rule exact_then [OF exact_vec [OF assms(2)]],
      rule exact_then [OF exact_u64], rule exact_then [OF exact_u64], rule exact_then [OF exact_u64], rule exact_ret)

lemma ex_bincode_ok: "bincode_ok ex_bincode"
  unfolding bincode_ok_def
proof (intro allI impI)
  fix p data assume a: "bc_serialize ex_bincode p = Some data"
  then have "exact rd_proof p data"
    using exact_proof [of "cp_proof p" "cp_journal p" "cp_cycles p" "cp_generated_at p" "cp_proof_time_ms p"]
    by (cases p) (auto simp: ex_bincode_def split: if_splits)
  then have "rd_proof (data @ []) = Some (p, [])" "\<forall>n < length data. rd_proof (take n data) = None" unfolding exact_def by blast+
  then show "bc_deserialize ex_bincode data = Some p \<and> (\<forall>n < length data. bc_deserialize ex_bincode (take n data) = None)"
    by (simp add: ex_bincode_def)
qed

section \<open>A job with a private input\<close>

definition ex_input :: "u8 list" where
  "ex_input = [1, 2, 3]"

definition ex_private_job :: QueuedJob where
  "ex_private_job = \<lparr>request_id = 9, image_id = replicate 32 1, input_hash = sha256_native ex_input, input_url = ''https://host/'',
     input_type = 1, tip = 1000, requester = replicate 20 0, expires_at = 1000, queued_at = 0, estimated_cycles = None,
     program_cached = True, prefetched_input = None\<rparr>"

text \<open>A node that takes the first claim and rejects the next.\<close>

definition ex_chain_node :: chain_node where
  "ex_chain_node = \<lparr>answer = (\<lambda>log. if length log = 1 then Receipt [1] True else Send_Error ''execution reverted: NotPending''),
     tx_count = (\<lambda>log. Inr (of_nat (length log)))\<rparr>"

definition ex_job_env :: "u8 list job_env" where
  "ex_job_env = \<lparr>je_node = ex_chain_node,
     je_net = \<lparr>http_get = (\<lambda>_ _. Inl ''down''), base64_decode = (\<lambda>_. None)\<rparr>,
     je_ipfs = ipfs_default, je_sha256 = sha256_native, je_prefetch_cfg = prefetch_default, je_prefetcher = prefetcher_new,
     je_instant = 5, je_unix = 100, je_cache_cfg = with_defaults, je_bincode = ex_bincode, je_write = Disk_Written,
     je_program_bytes = 1000, je_program_readable = True, je_program_write = Disk_Unopened, je_local_error = None,
     je_local_write = Disk_Unopened, je_registry = None, je_image_id = (\<lambda>_. Inl ''none''),
     je_private = Some (\<lambda>_ _. Inr ex_input), je_preflight = (\<lambda>_ _. Inr (1000, False)), je_strategy = (\<lambda>_. None),
     je_sqrt_ceil = (\<lambda>n. n), je_prove_sub = (\<lambda>_. ex_prove), je_receipts = ex_receipts, je_wrapper = None,
     je_decomp_cycles = (\<lambda>_ _. 0), je_skip_profitability = True, je_gas_price = Inr 1, je_claim_gas = Inr 1, je_submit_gas = Inr 1,
     je_margin_ok = (\<lambda>_ _. True), je_config_snark = False, je_prove = (\<lambda>_ _. Inr ([1], [2], 1000)), je_prove_time = 0\<rparr>"

definition ex_cached :: cached_proof where
  "ex_cached = cached_proof_new [1] [2] 1000 0 90"

definition ex_key :: proof_key where
  "ex_key = \<lparr>pk_image_id = replicate 32 1, pk_input_hash = sha256_native ex_input, pk_use_snark = False\<rparr>"

definition ex_proof_cache :: proof_cache where
  "ex_proof_cache = cache_put with_defaults ex_bincode Disk_Written 1 ex_key ex_cached (cache_new [])"

definition ex_world :: world where
  "ex_world = \<lparr>wd_sender = \<lparr>sent_txs = [], sender_nonces = nonce_new 4, slept = []\<rparr>, wd_proofs = ex_proof_cache,
     wd_programs = \<lparr>pg_memory = [(replicate 32 1, [7])], pg_disk = [], pg_bytes = 1\<rparr>, wd_local = [], wd_requests = []\<rparr>"

lemma ex_job_env_simps:
  "je_node ex_job_env = ex_chain_node" "je_private ex_job_env = Some (\<lambda>_ _. Inr ex_input)" "je_sha256 ex_job_env = sha256_native"
  "je_cache_cfg ex_job_env = with_defaults" "je_bincode ex_job_env = ex_bincode" "je_unix ex_job_env = 100" "je_instant ex_job_env = 5"
  "cache_key ex_job_env ex_private_job = ex_key" "je_prefetch_cfg ex_job_env = prefetch_default" "je_prefetcher ex_job_env = prefetcher_new"
  by (simp_all add: ex_job_env_def cache_key_def ex_private_job_def ex_key_def)

lemma ex_key_wf: "key_wf ex_key"
  by (simp add: key_wf_def ex_key_def)

lemma ex_cache_run: "cache_run with_defaults ex_bincode {(ex_key, ex_cached)} ex_proof_cache"
  unfolding ex_proof_cache_def by (intro run_put run_new ex_key_wf)

lemma ex_cache_hit: "fst (cache_get with_defaults ex_bincode 100 5 ex_key ex_proof_cache) = Some ex_cached"
  unfolding ex_proof_cache_def
  by (rule get_after_put) (simp add: proof_fresh_def proof_age_def ex_cached_def cached_proof_new_def with_defaults_def)

lemma ex_reverted: "\<not> is_retryable_error ''execution reverted: NotPending''" "\<not> is_nonce_error ''execution reverted: NotPending''"
  by code_simp+

end
