(* ===== verification/Spec2Isabelle.thy ===== *)
theory Spec2Isabelle
  imports Prelude_ZK Field_Ops Poseidon Transcript Curve_Law Sumcheck GKR Hyrax_Laws Decode_Laws Circuit_Desc
    Verifier_Api Example_Proofs Circuit_Breaker Job_Queue Rate_Limit Ssrf Replay_Guard
    Tree_Model Keccak Tee_Events Operator_Store Alerting Deadline_Monitor Watch_Loop Challenge_Task
    Tenant_Auth Example_Services Transparency_Log
    Guest_Wire Glob_Match Rule_Engine Xgb_Guest Sample_Split Proof_Encoder Sha256 Proof_Cache Tx_Sender Input_Fetch
    Prover_Pipeline Example_Prover
begin

text \<open>
  World ZK Compute: the GKR/Hyrax verifier of machine-learning proofs (\<open>src/crates/zkml-verifier\<close>), and the parts
  with logic of their own in the services around it: the operator (watch loop, challenge tasks, state file, alerts,
  deadlines, circuit breaker, URL filter) with the event decoder and the watcher it uses, inference and replay
  protection in the enclave, the tenants of the verification service, the transparency log of proofs, the rate limiter of
  the indexer, and the prover: two guest programs, the encoder of proofs, decomposed proving, the caches, the nonces and
  transactions, the fetching of inputs, the job queue and the pipeline of a job.

  \<^bold>\<open>The program.\<close> A proof bundle holds the bytes of a proof, of the Pedersen generators and a JSON description of
  a layered circuit. The verifier decodes all three, rebuilds the Fiat-Shamir transcript with a Poseidon
  sponge over the base field of BN254, and checks layer by layer: each compute layer by a committed
  sumcheck with proofs of products, each input layer by openings of Hyrax commitments or by the
  multilinear extension of public data. The hybrid mode replays the transcript and returns scalars for an
  outside check of the group equations. The enclave evaluates a model and its result is submitted to a contract; when a
  result is challenged, the operator sees the event, starts one task, checks the stored proof with the verifier and
  submits it. The prover takes requests from the chain: it fetches program and input, proves the run of a guest program,
  whole or in chunks, or finds the proof in its cache, and sends a claim and the proof.

  \<^bold>\<open>Theories, in the order of the calls.\<close>
  \<^item> \<open>Prelude_ZK\<close>: failure as a value (\<open>Err\<close> and panics apart), loops of fallible code, limb lists.
  \<^item> \<open>Field_Limbs\<close>, \<open>Field_Reduce\<close>, \<open>Field_Ops\<close> (\<open>field.rs\<close>): 256-bit integers on four 64-bit limbs, Knuth division
    with its correction loop, the two prime fields. The locale \<open>residue_ring\<close> is what every later theory
    uses of a field; it is interpreted on both.
  \<^item> \<open>Poseidon\<close> (\<open>poseidon.rs\<close>): constants, permutation, sponge; a reference hash on natural numbers.
  \<^item> \<open>Transcript\<close> (\<open>transcript.rs\<close>): the setup. The locale \<open>sponge_interface\<close> is the contract of the sponge.
  \<^item> \<open>Curve\<close>, \<open>Curve_Law\<close> (\<open>ec.rs\<close>): byte-level and Jacobian arithmetic; its meaning over the ring of integers
    modulo \<open>q\<close> (curve membership, chord and tangent rules, scalar multiplication).
  \<^item> \<open>Sumcheck\<close> (\<open>sumcheck.rs\<close>), \<open>GKR\<close> (\<open>gkr.rs\<close>), \<open>Hyrax\<close> and \<open>Hyrax_Laws\<close> (\<open>hyrax.rs\<close>): the checks, full and hybrid.
  \<^item> \<open>Decode\<close>, \<open>Decode_Laws\<close> (\<open>decode.rs\<close>): the two families of readers, related by the locale \<open>reader_pair\<close>.
  \<^item> \<open>Circuit_Desc\<close> (\<open>lib.rs\<close>, \<open>test_utils.rs\<close>): circuit description readers and the JSON encoder; the locale
    \<open>codec\<close> gives the round trip.
  \<^item> \<open>Verifier_Api\<close> (\<open>lib.rs\<close>, \<open>bundle.rs\<close>, \<open>types.rs\<close>): bundles and entry points.
  \<^item> \<open>Example_Proofs\<close>: concrete inputs for the witnesses.
  \<^item> \<open>Transparency_Log\<close> (\<open>services/proof-registry\<close>: \<open>transparency.rs\<close>, the verify handler of \<open>routes.rs\<close>): Merkle root,
    inclusion proofs and their verification.
  \<^item> \<open>Circuit_Breaker\<close> (\<open>services/operator/src/circuit_breaker.rs\<close>): the state machine that guards RPC calls, its
    operations as steps, runs of concurrent callers as an inductive relation.
  \<^item> \<open>Binary_Heap\<close>, \<open>Job_Queue\<close> (\<open>prover/src/queue.rs\<close>): the standard library's heap behind the interface of the
    locale \<open>max_queue\<close>, and the bounded job queue on it.
  \<^item> \<open>Net_Addr\<close>: ASCII text and the standard library's parser of IP addresses.
  \<^item> \<open>Ssrf\<close> (\<open>services/operator/src/ssrf.rs\<close>): the URL filter against private networks.
  \<^item> \<open>Replay_Guard\<close> (\<open>tee/enclave/src/watchdog.rs\<close>, the handler of \<open>main.rs\<close>): nonces, freshness, chain id.
  \<^item> \<open>Rate_Limit\<close> (\<open>services/indexer/src/rate_limit.rs\<close>): the sliding-window limiter, the client address and the
    middleware call.
  \<^item> \<open>Bounded_Window\<close>: the interface of a duplicate filter with bounded memory, the locale \<open>bounded_window\<close>; the nonce
    registry (\<open>Replay_Guard\<close>) and the event tracker (\<open>Operator_Store\<close>) both provide it.
  \<^item> \<open>Hash_Maps\<close>, \<open>Hex_Format\<close>: hash maps as association lists, formatting of numbers.
  \<^item> \<open>Tree_Model\<close> (\<open>tee/enclave/src/model.rs\<close>): the two model formats, flattening of LightGBM trees, traversal, prediction;
    decision trees as their meaning.
  \<^item> \<open>Keccak\<close>, \<open>Tee_Events\<close> (\<open>crates/events\<close>, \<open>crates/watcher\<close>): the compile-time hash, the two decoders, polling.
  \<^item> \<open>Operator_Store\<close> (\<open>services/operator/src/store.rs\<close>): the tracker, the state file and the file systems that an
    interrupted save leaves (\<open>save_trace\<close>).
  \<^item> \<open>Alerting\<close>, \<open>Deadline_Monitor\<close> (\<open>alerting.rs\<close>, \<open>deadline_monitor.rs\<close> of the operator).
  \<^item> \<open>Watch_Loop\<close> (\<open>services/operator/src/main.rs\<close>): the cycle of \<open>cmd_watch\<close> over all of these, and \<open>auto_finalize\<close>.
  \<^item> \<open>Challenge_Task\<close> (\<open>main.rs\<close>, \<open>verify.rs\<close>, \<open>prover.rs\<close> of the operator): the task of a challenge, with the local check
    by the model of the verifier.
  \<^item> \<open>Tenant_Auth\<close> (\<open>services/verifier/src/tenant.rs\<close>, \<open>auth.rs\<close>): tenants, keys, authentication.
  \<^item> \<open>Example_Services\<close>: concrete inputs for the witnesses of the services.
  \<^item> \<open>Guest_Wire\<close>, \<open>Rule_Engine\<close>, \<open>Glob_Match\<close> (\<open>examples/rule-engine\<close>, \<open>examples/rule-engine-sp1\<close>): the wire format of guests (locale \<open>word_codec\<close>), the rule
    engine guest and its matchers; \<open>Xgb_Guest\<close> (\<open>examples/xgboost-inference\<close>): the inference guest.
  \<^item> \<open>Proof_Encoder\<close> (\<open>examples/xgboost-remainder/src/abi_encode.rs\<close>): proofs from JSON to the bytes that \<open>Decode\<close> reads.
  \<^item> \<open>Sha256\<close> (\<open>contracts/stylus/gkr-verifier/src/ec.rs\<close>): the hash function, and FIPS 180-4 as its specification.
  \<^item> \<open>Sample_Split\<close> (\<open>xgboost_decomp.rs\<close>, \<open>input_decomposer.rs\<close>, \<open>recursive_wrapper.rs\<close> of \<open>prover/src\<close>): splitting, merging,
    wrapping; the locale \<open>lossless_strategy\<close> is what the decomposer relies on.
  \<^item> \<open>Proof_Cache\<close> (\<open>proof_cache.rs\<close>), \<open>Tx_Sender\<close> (\<open>nonce.rs\<close> and the retries of \<open>monitor.rs\<close>), \<open>Input_Fetch\<close> (\<open>ipfs.rs\<close>,
    \<open>prefetch.rs\<close>): caches, nonces and transactions, inputs.
  \<^item> \<open>Prover_Pipeline\<close> (\<open>monitor.rs\<close>, \<open>cache.rs\<close>): a job from its request to the submission, over all of these.
  \<^item> \<open>Example_Prover\<close>: concrete inputs for the witnesses of the prover, among them codecs.

  \<^bold>\<open>State and effects.\<close> A Rust struct is a record, \<open>&mut\<close> state is passed and returned. \<open>usize\<close> is \<open>nat\<close>, with
  wrap-around modulo \<open>2 ^ 64\<close> written out where the release build wraps (\<open>wadd\<close>, \<open>wmul\<close>, \<open>shl1\<close>); limbs are
  \<open>64 word\<close>, intermediate products \<open>128 word\<close>. A panic and a returned error are the two kinds of \<open>failure\<close>;
  \<open>catch_unwind\<close> turns the first into the second. Allocation fails above \<open>isize::MAX\<close> bytes only.

  \<^bold>\<open>Parameters.\<close> SHA-256, hexadecimal decoding, \<open>serde_json\<close> values and the JSON and gzip codecs are third-party
  crates: arguments of the definitions that use them. Hypotheses on them are the digest length of SHA-256
  and that a JSON value reads as the fields of a description. The clock readings of the services are
  arguments, and so is the containment test of the \<open>ipnet\<close> crate. Further parameters: the floating-point operations and
  the deserialised models of the enclave, the answers of the chain node (\<open>provider\<close>) with the hypothesis that a node
  reports the logs of the queried blocks of one history, the chain client of the challenge task, the JSON printer and
  parser of the state file with their round trip on the state at hand, and the outcome of every file operation. On the
  side of the prover: the zkVM provers, \<open>risc0\<close> serde and bincode with their round trips, the base field of halo2curves,
  HTTP answers, base64, the answers of the contracts and the gas prices.

  \<^bold>\<open>Bounds.\<close> Slices are shorter than \<open>2 ^ 63\<close> bytes, as in Rust; points of tensors and multilinear extensions
  have fewer than 64 coordinates, since \<open>1 << n\<close> wraps above; a tensor of 58 or more coordinates is not allocated, which is a panic. No fuel is used: every loop of the crate is
  structural or has a measure (\<open>qhat_loop\<close>, \<open>log2_loop\<close>). The depth loop of the log may not end; it is a
  partial function with \<open>None\<close> for a call that does not return. A log has at most \<open>2 ^ 57\<close> leaves, above which the
  allocation of a level fails. The traversal of a tree (\<open>traverse_loop\<close>) and the wait for a proof file (\<open>wait_loop\<close>) are
  partial functions as well: the first returns on well-formed trees, the second because every second iteration takes a
  second of the clock. Trees have at most \<open>2 ^ 31\<close> nodes, the range of the \<open>i32\<close> child indices, and models fewer than
  \<open>2 ^ 60\<close> classes; alert ids repeat only after \<open>2 ^ 64\<close> alerts. Vectors of the guests have less than \<open>2 ^ 31\<close> bytes
  (\<open>guest_alloc\<close>; inputs that fit are \<open>rule_input_ok\<close>, \<open>xg_input_fits\<close>); the loops of the prover (\<open>glob_loop\<close>, \<open>lru_evict\<close>, \<open>pf_evict\<close>, \<open>send_loop\<close>,
  \<open>sha_pad_loop\<close>) have measures.

  \<^bold>\<open>The properties\<close> below: the entry points (safety of acceptance, the cause of the one possible panic,
  agreement of bundle, raw and hybrid modes), codecs, field arithmetic, sponge and transcript, curve,
  sumcheck, compute layers, input layers, and the services (completeness, termination
  and soundness of the log, invariant and recovery of the breaker, invariant and order of the job queue, the window
  bound of the limiter, the URLs that pass the filter, replay protection; inference as the evaluation of decision
  trees and its termination; crash safety of the state file, one task per challenge across restarts, what is polled
  and what is lost, what a task submits; agreement of the decoders, the hash as a sponge; alerts and deadlines;
  tenants and revoked keys), and the prover (what is
  encoded is decoded, the hash function as its standard, the journals of the guests and what their hash does not bind,
  decomposed proofs, soundness of the proof cache and of the prefetcher in any interleaving, nonces and retries, what a job
  submits and when it claims twice).

  \<^bold>\<open>Not modelled.\<close> That \<open>q\<close> and \<open>r\<close> are prime, and the cryptographic assumptions (binding of Pedersen
  commitments, random oracle): statements on inverses carry \<open>z * inv z = 1\<close> as a hypothesis instead, and those on square roots that they are unique
  up to their sign (\<open>base_field\<close>). File
  access outside the state and tenant files, the FFI and WASM bindings, the Solidity contracts, the other commands of the
  operator and its configuration, the zkVM back ends of the prover, its event scanning and metrics, and the parts of the repository that PROJECT.json lists as not modelled (services over
  HTTP, SQL and chain clients, provers over third-party libraries). Log and audit messages are left out, and so are
  poisoned locks.
\<close>

section \<open>The entry points\<close>

text \<open>
  C1. A raw verification that returns a result reports success, carries the 32 bytes after the
  selector as the circuit hash, and the panicking reference path \<open>verify_dag_proof_inner\<close> accepts the
  same bytes, for every value of its unused public inputs. (A Rust slice is shorter than \<open>2 ^ 63\<close> bytes.)
\<close>

theorem verify_raw_accepts:
  assumes "length pd < 2 ^ 63" "length gd < 2 ^ 63" "length cd < 2 ^ 63"
    and "verify_raw sha256 pd gd cd = Inr r"
  shows "r = \<lparr>circuit_hash = take 32 (drop 4 pd), verified = True\<rparr>
    \<and> verify_dag_proof_inner sha256 pd pub gd cd = Inr True"
  using assms by (rule verify_raw_sound)

theorem verify_raw_accepts_witness:
  "verify_dag_proof_inner ex_sha256 ex_proof [1, 2] [] (desc_bytes ex_desc) = Inr True"
  using verify_raw_accepts [of ex_proof "[]" "desc_bytes ex_desc" ex_sha256 _ "[1, 2]", OF _ _ _ ex_verify_raw]
  by (simp add: ex_desc_ok)

text \<open>
  C2. The one way for \<open>verify_raw\<close> to panic: the circuit description declares an array whose
  allocation overflows the capacity. Every other failure comes back as an error value.
\<close>

theorem verify_raw_panic_cause:
  assumes "length pd < 2 ^ 63" "length gd < 2 ^ 63" "length cd < 2 ^ 63"
    and "verify_raw sha256 pd gd cd = rpanic p"
  shows "p = Capacity_Overflow \<and> try_decode_circuit_description cd = rpanic Capacity_Overflow"
proof -
  have "try_verify_dag_proof_inner sha256 pd [] gd cd = rpanic p"
    using assms(4) by (auto simp: verify_raw_def rbind_eq_rpanic slice_def split: if_splits)
  from try_verify_panics [OF assms(1-3) this] show ?thesis by blast
qed

theorem verify_raw_panic_cause_witness:
  "verify_raw ex_sha256 ex_proof [] (word_list_bytes ex_bad_words) = rpanic Capacity_Overflow
    \<and> try_decode_circuit_description (word_list_bytes ex_bad_words) = rpanic Capacity_Overflow"
  using verify_raw_panic_cause [of ex_proof "[]" "word_list_bytes ex_bad_words" ex_sha256, OF _ _ _ ex_bad_verify_raw]
    ex_bad_verify_raw by (simp add: ex_bad_words_def)

text \<open>
  C3. Verifying a bundle is verifying its parts: when the hexadecimal fields decode and the JSON
  description stands for \<open>d\<close>, \<open>verify\<close> returns a result exactly when \<open>verify_raw\<close> does on the decoded
  bytes and the bytes of \<open>d\<close>, from which the verifier reads \<open>d\<close> back.
\<close>

theorem verify_bundle_is_raw:
  assumes "json_represents ops hex_decode (dag_circuit_description b) d" "desc_ok d" "length (desc_bytes d) < 2 ^ 63"
    and "proof_data hex_decode b = Inr pd" "gens_data hex_decode b = Inr gd" "public_inputs_data hex_decode b = Inr pub"
  shows "(verify sha256 hex_decode ops b = Inr r \<longleftrightarrow> verify_raw sha256 pd gd (desc_bytes d) = Inr r)
    \<and> try_decode_circuit_description (desc_bytes d) = Inr d"
proof -
  have "bundle_parts hex_decode ops b pd gd (desc_bytes d)"
    using assms(4-6) encode_json_desc [OF assms(1)] by (simp add: bundle_parts_def)
  then show ?thesis using verify_parts decode_desc_bytes [OF assms(2,3)] by blast
qed

theorem verify_bundle_is_raw_witness:
  "verify ex_sha256 ex_hex_decode ex_ops ex_bundle = Inr \<lparr>circuit_hash = take 32 (drop 4 ex_proof), verified = True\<rparr>"
  using verify_bundle_is_raw [of ex_ops ex_hex_decode ex_bundle ex_desc ex_proof "[]" "[]" ex_sha256
      "\<lparr>circuit_hash = take 32 (drop 4 ex_proof), verified = True\<rparr>"]
    ex_bundle_parts ex_verify_raw json_of_desc_represents [of ex_desc] ex_desc_ok
  by (simp add: bundle_parts_def ex_bundle_def public_inputs_data_def)

text \<open>
  C4. The hybrid mode follows the full mode: a bundle that \<open>verify\<close> accepts is one on which
  \<open>verify_hybrid\<close> returns, with the same circuit hash.
\<close>

theorem verify_hybrid_follows_verify:
  assumes "bundle_parts hex_decode ops b pd gd cd" "length pd < 2 ^ 63" "length gd < 2 ^ 63" "length cd < 2 ^ 63"
    and "verify sha256 hex_decode ops b = Inr r"
  shows "\<exists>h. verify_hybrid sha256 hex_decode ops b = Inr h \<and> hybrid_circuit_hash h = circuit_hash r"
  using assms by (rule verify_hybrid_follows)

theorem verify_hybrid_follows_verify_witness:
  "\<exists>h. verify_hybrid ex_sha256 ex_hex_decode ex_ops ex_bundle = Inr h
    \<and> hybrid_circuit_hash h = take 32 (drop 4 ex_proof)"
  using verify_hybrid_follows_verify [OF ex_bundle_parts, of ex_sha256 "\<lparr>circuit_hash = take 32 (drop 4 ex_proof), verified = True\<rparr>"]
    verify_parts [OF ex_bundle_parts] ex_verify_raw by (simp add: ex_desc_ok)

section \<open>Decoding and encoding\<close>

text \<open>
  C5. The error-returning proof decoder never panics, on any bytes, and what it returns the
  legacy decoder returns as well.
\<close>

theorem proof_decoder_safe:
  assumes "length data < 2 ^ 63"
  shows "\<not> panics (try_decode_proof_for_dag data 0)
    \<and> (\<forall>r. try_decode_proof_for_dag data 0 = Inr r \<longrightarrow> decode_proof_for_dag data 0 = Inr r)"
  using try_decode_proof_no_panic [OF assms] try_decode_proof_agree [OF assms] by blast

theorem proof_decoder_safe_witness:
  "\<not> panics (try_decode_proof_for_dag [] 0)
    \<and> decode_proof_for_dag (word_list_bytes ex_words) 0 = Inr (ex_gkr, [], [], [])"
  using proof_decoder_safe [of "[]"] proof_decoder_safe [of "word_list_bytes ex_words"] ex_decode by simp

text \<open>
  C6. The circuit description survives its way through the JSON encoder and the decoder.
\<close>

theorem circuit_description_roundtrip:
  assumes "json_represents ops hex_decode j d" "desc_ok d" "length (desc_bytes d) < 2 ^ 63"
  shows "\<exists>bytes. encode_circuit_desc_from_json ops hex_decode j = Inr bytes
    \<and> try_decode_circuit_description bytes = Inr d \<and> decode_circuit_description bytes = Inr d"
  using encode_json_desc [OF assms(1)] decode_desc_bytes [OF assms(2,3)]
    try_decode_circuit_description_agree [OF assms(3)] by blast

theorem circuit_description_roundtrip_witness:
  "\<exists>bytes. encode_circuit_desc_from_json ex_ops ex_hex_decode (json_of_desc ex_desc2) = Inr bytes
    \<and> try_decode_circuit_description bytes = Inr ex_desc2 \<and> decode_circuit_description bytes = Inr ex_desc2"
  by (rule circuit_description_roundtrip [OF json_of_desc_represents]) (simp_all add: ex_desc2_ok)

text \<open>
  The byte encoding of hybrid outputs can be read back: the counts in it determine every part.
\<close>

theorem hybrid_outputs_decodable:
  assumes "length (z_dot_j_stars (compute_fr h)) = length (rlc_betas (compute_fr h))"
    and "length (encode_hybrid_fr_outputs h) < 2 ^ 63"
  shows "read_hybrid_outputs (encode_hybrid_fr_outputs h) 0
    = Inr ((compute_fr h, input_fr h), length (encode_hybrid_fr_outputs h))"
  using assms by (rule hybrid_outputs_roundtrip)

theorem hybrid_outputs_decodable_witness:
  "read_hybrid_outputs (encode_hybrid_fr_outputs ex_hybrid) 0 = Inr ((compute_fr ex_hybrid, input_fr ex_hybrid), 320)"
  using hybrid_outputs_decodable [of ex_hybrid] by (simp add: ex_hybrid_ok)

section \<open>Field arithmetic\<close>

text \<open>
  The 512-bit reduction (Knuth's division on 64-bit limbs) computes the remainder, for every
  modulus with a non-zero top limb, and the 256-bit product that feeds it is exact.
\<close>

theorem reduction_is_mod:
  assumes "length v = 8" "limb m 3 \<noteq> 0"
  shows "uval (reduce_512 v m) = lval v mod uval m \<and> lval (mul_wide a b) = uval a * uval b"
  using reduce_512_correct [OF assms] lval_mul_wide [of a b] by blast

theorem reduction_is_mod_witness:
  "uval (reduce_512 (5 # replicate 7 0) FQ_MOD) = 5"
  using reduction_is_mod [of "5 # replicate 7 0" FQ_MOD] by (simp add: FQ_MOD_def limb_def uval_U256)

text \<open>
  C7. On canonical operands the operations of both fields are arithmetic modulo their primes, and
  their results are canonical; exponentiation by squaring over all 256 bits is the power, and the inverse is
  Fermat's power \<open>p - 2\<close>.
\<close>

theorem field_operations:
  assumes "uval a < uval FQ_MOD" "uval b < uval FQ_MOD" "uval c < uval FR_MOD" "uval d < uval FR_MOD"
  shows "uval (fq_add a b) = (uval a + uval b) mod uval FQ_MOD
    \<and> int (uval (fq_sub a b)) = (int (uval a) - int (uval b)) mod int (uval FQ_MOD)
    \<and> uval (fq_mul a b) = uval a * uval b mod uval FQ_MOD
    \<and> uval (fr_add c d) = (uval c + uval d) mod uval FR_MOD
    \<and> int (uval (fr_sub c d)) = (int (uval c) - int (uval d)) mod int (uval FR_MOD)
    \<and> uval (fr_mul c d) = uval c * uval d mod uval FR_MOD
    \<and> uval (from_fq a) = uval a mod uval FR_MOD
    \<and> uval (fq_pow a e) = uval a ^ uval e mod uval FQ_MOD \<and> uval (fr_pow c e) = uval c ^ uval e mod uval FR_MOD
    \<and> uval (fq_inv a) = uval a ^ (uval FQ_MOD - 2) mod uval FQ_MOD \<and> uval (fr_inv c) = uval c ^ (uval FR_MOD - 2) mod uval FR_MOD
    \<and> uval (fq_pow5 a) = uval a ^ 5 mod uval FQ_MOD"
  using Fq.add_reduced [OF assms(1,2)] Fq.sub_reduced [OF assms(1,2)] Fq.mul_mod [of a b]
    Fr.add_reduced [OF assms(3,4)] Fr.sub_reduced [OF assms(3,4)] Fr.mul_mod [of c d] uval_from_fq [OF assms(1)]
  by (simp_all add: fq_pow_def fr_pow_def fq_inv_def fr_inv_def fq.uval_field_pow fr.uval_field_pow fq.uval_field_inv
      fr.uval_field_inv uval_fq_pow5)

theorem field_operations_witness:
  "uval (fq_add u256_ONE u256_ONE) = 2 \<and> uval (fr_mul u256_ONE u256_ZERO) = 0 \<and> uval (fr_sub u256_ONE u256_ONE) = 0
   \<and> uval (fq_pow5 u256_ONE) = 1"
  using field_operations [of u256_ONE u256_ONE u256_ONE u256_ZERO] field_operations [of u256_ONE u256_ONE u256_ONE u256_ONE]
  by (simp add: uval_FQ_MOD uval_FR_MOD)

section \<open>The sponge and the transcript\<close>

text \<open>
  C8. Every operation of the Poseidon sponge keeps its invariant (three state words of which the
  first is canonical, a write position below the rate), what it squeezes is canonical, and absorbing a list of
  field elements and squeezing refines the reference hash on natural numbers, which pads with 1, adds blocks of
  two to the state and applies 65 rounds modulo \<open>q\<close>.
\<close>

theorem sponge_refines_hash:
  assumes "sponge_inv sp"
  shows "sponge_inv init \<and> sponge_inv (absorb v sp) \<and> sponge_inv (snd (squeeze sp)) \<and> uval (fst (squeeze sp)) < uval FQ_MOD
    \<and> uval (fst (challenge sp)) < uval FR_MOD
    \<and> uval (fst (squeeze (fold absorb us init))) = poseidon_hash (map uval us)"
  using assms sponge_inv_challenge [OF assms, of "fst (challenge sp)" "snd (challenge sp)"] sponge_is_poseidon_hash [of us]
  by (simp add: sponge_inv_init sponge_inv_absorb sponge_inv_squeeze squeeze_canonical)

theorem sponge_refines_hash_witness:
  "uval (fst (squeeze (absorb u256_ONE init))) < uval FQ_MOD \<and> uval (fst (squeeze (absorb u256_ONE init))) = poseidon_hash [1]"
  using sponge_refines_hash [of "absorb u256_ONE init" u256_ZERO "[u256_ONE]"] sponge_refines_hash [of init u256_ONE]
    sponge_inv_init by simp

text \<open>
  C9. Two lists of values that agree modulo \<open>q\<close> give the same challenge: the sponge does not
  distinguish a canonical value from its non-canonical representatives, which the decoder lets
  through.
\<close>

theorem transcript_identifies_residues:
  assumes "map (\<lambda>u. uval u mod uval FQ_MOD) us = map (\<lambda>u. uval u mod uval FQ_MOD) vs"
  shows "fst (squeeze (absorb_all us init)) = fst (squeeze (absorb_all vs init))"
  using squeeze_cong [OF assms] by (simp add: absorb_all_def absorb_u256_def [abs_def])

theorem transcript_identifies_residues_witness:
  "fst (squeeze (absorb_all [u256_ZERO] init)) = fst (squeeze (absorb_all [FQ_MOD] init)) \<and> u256_ZERO \<noteq> FQ_MOD"
  using transcript_identifies_residues [of "[u256_ZERO]" "[FQ_MOD]"]
  by (simp add: FQ_MOD_neq_zero)

section \<open>Curve operations\<close>

text \<open>
  The curve operations, which pass points through byte buffers, are total and equal to their
  formulas on points; a multi-scalar multiplication panics exactly when its operands differ in
  length, and an inner product of vectors of equal length is the sum of products modulo \<open>r\<close>. Point addition is
  commutative on canonical points and keeps them canonical, and a finite point with a non-zero \<open>y\<close> plus its
  negation is the point at infinity.
\<close>

theorem curve_operations_total:
  "ec_add p1 p2 = Inr (pt_add p1 p2) \<and> ec_mul p s = Inr (pt_mul p s)
    \<and> multi_scalar_mul ps ss = (if length ps = length ss then Inr (pt_msm ps ss) else rpanic (Assert_Failed ''assertion failed: points.len() == scalars.len()''))
    \<and> uval (dot (map fst vs) (map snd vs)) = (\<Sum>(a, b) \<leftarrow> vs. uval a * uval b) mod uval FR_MOD
    \<and> inner_product (map fst vs) (map snd vs) = Inr (dot (map fst vs) (map snd vs))
    \<and> (pt_canonical p1 \<and> pt_canonical p2 \<longrightarrow> pt_add p1 p2 = pt_add p2 p1 \<and> pt_canonical (pt_add p1 p2))
    \<and> (pt_canonical p1 \<and> \<not> is_infinity p1 \<and> \<not> is_zero (pt_y p1) \<longrightarrow> pt_add p1 (negate p1) = INFINITY)"
  by (auto simp: ec_add_total ec_mul_total multi_scalar_mul_cases inner_product_total uval_dot_pairs pt_canonical_add pt_add_negate
      intro: pt_add_commute)

theorem curve_operations_total_witness:
  "pt_add \<lparr>pt_x = u256_ONE, pt_y = from_u64 2\<rparr> (negate \<lparr>pt_x = u256_ONE, pt_y = from_u64 2\<rparr>) = INFINITY"
  using curve_operations_total [of "\<lparr>pt_x = u256_ONE, pt_y = from_u64 2\<rparr>" INFINITY]
  by (simp add: pt_canonical_def is_infinity_def INFINITY_def is_zero_iff uval_FQ_MOD)

text \<open>
  C10. The Jacobian formulas are the group law of the curve: adding an affine point with another \<open>x\<close> follows the
  chord rule with the slope \<open>l * (x2 - x1) = y2 - y1\<close>, doubling a point with a non-zero \<open>y\<close> the tangent rule with
  the slope \<open>l * 2 y = 3 x ^ 2\<close>. The bit-by-bit scalar multiplication of \<open>ec_mul_native\<close> is double-and-add on the
  integer value of the scalar, and it stays on the curve \<open>y ^ 2 = x ^ 3 + 3\<close> (in Jacobian form).
\<close>

theorem curve_group_law:
  assumes "jac_canonical p" "\<not> jac_is_infinity p" "represents p x y" "canonical px" "canonical py"
  shows "(\<not> (is_zero px \<and> is_zero py) \<and> emb px * emb (jz p) ^ 2 - emb (jx p) \<noteq> 0 \<and> l * (emb px - x) = emb py - y \<longrightarrow>
        represents (add_affine p px py) (l ^ 2 - x - emb px) (l * (x - (l ^ 2 - x - emb px)) - y))
    \<and> (\<not> is_zero (jy p) \<and> l * (2 * y) = 3 * x ^ 2 \<longrightarrow>
        represents (jac_double p) (l ^ 2 - 2 * x) (l * (x - (l ^ 2 - 2 * x)) - y))
    \<and> (on_curve px py \<longrightarrow>
        jac_mul px py s = smul px py (uval s) \<and> jac_canonical (jac_mul px py s) \<and> jac_on_curve (jac_mul px py s))"
  using add_affine_chord [OF assms(1-3), of px py l] jac_double_tangent [OF assms(1,2) _ assms(3), of l]
    smul_on_curve [OF assms(4,5), of "uval s"] assms(4,5) jac_mul_smul [of px py s] by auto

theorem curve_group_law_witness:
  "represents (add_affine (from_affine u256_ONE (from_u64 2)) (from_u64 2) (from_u64 3)) (- 2) 1
   \<and> represents (jac_double (from_affine (from_u64 2) (from_u64 3))) 0 1
   \<and> jac_on_curve (jac_mul u256_ONE (from_u64 2) (from_u64 5))"
proof -
  have "jac_on_curve (jac_mul u256_ONE (from_u64 2) (from_u64 5))"
    by (rule curve_group_law [of "from_affine (from_u64 2) (from_u64 3)" 2 3 u256_ONE "from_u64 2",
          THEN conjunct2, THEN conjunct2, THEN mp, THEN conjunct2, THEN conjunct2]) (simp_all add: ex_jac_point ex_point uval_FQ_MOD)
  then show ?thesis
    using curve_group_law [of "from_affine u256_ONE (from_u64 2)" 1 2 "from_u64 2" "from_u64 3" 1]
      curve_group_law [of "from_affine (from_u64 2) (from_u64 3)" 2 3 "from_u64 2" "from_u64 3" 2]
    by (simp add: ex_jac_point uval_FQ_MOD)
qed

section \<open>Sumcheck and proofs of products\<close>


section \<open>Compute layers\<close>

text \<open>
  C12. The check of a layer does not depend on the claims made about it: for two proofs that have the same proof of layer \<open>i\<close>, with
  the bindings so far and the output challenges the same, but any points as the output claim and as the commitments of the earlier
  layers (as many in both), the outcome of the check is the same. The random linear combination of the claimed evaluations is
  computed and dropped, so no claim is compared with the sum that the sumcheck of the layer starts from.
\<close>

theorem layer_check_ignores_claims:
  assumes "length (layer_proofs proof') = length (layer_proofs proof)"
    and "i < length (layer_proofs proof) \<longrightarrow> layer_proofs proof' ! i = layer_proofs proof ! i"
    and "\<forall>j < min i (length (layer_proofs proof)).
      length (commitments (layer_proofs proof' ! j)) = length (commitments (layer_proofs proof ! j))"
    and "all_bindings ctx' = all_bindings ctx" "output_challenges ctx' = output_challenges ctx"
  shows "process_one_layer i proof' desc gens ctx' sp = process_one_layer i proof desc gens ctx sp"
  using assms by (intro process_one_layer_ignores_claims) (simp add: same_but_claims_def)

text \<open>Layer 1 of a proof of two layers passes, whatever layer 0 claims about it.\<close>

theorem layer_check_ignores_claims_witness:
  "\<exists>sp'. process_one_layer 1 (ex_two_layers INFINITY) ex_desc_two no_gens \<lparr>all_bindings = [[]], output_challenges = [], output_eval = INFINITY\<rparr> init
      = Inr ([], sp')
    \<and> process_one_layer 1 (ex_two_layers \<lparr>pt_x = u256_ONE, pt_y = from_u64 2\<rparr>) ex_desc_two no_gens
        \<lparr>all_bindings = [[]], output_challenges = [], output_eval = \<lparr>pt_x = u256_ONE, pt_y = from_u64 2\<rparr>\<rparr> init = Inr ([], sp')"
proof -
  let ?P = "\<lparr>pt_x = u256_ONE, pt_y = from_u64 2\<rparr>" and ?ctx = "\<lambda>P. \<lparr>all_bindings = [[]], output_challenges = [], output_eval = P\<rparr>"
  have "process_one_layer 1 (ex_two_layers ?P) ex_desc_two no_gens (?ctx ?P) init
      = process_one_layer 1 (ex_two_layers INFINITY) ex_desc_two no_gens (?ctx INFINITY) init"
    by (rule layer_check_ignores_claims) (simp_all add: ex_two_layers_def)
  then show ?thesis using ex_two_layers_process [of 1 "?ctx INFINITY" INFINITY init] by auto
qed

text \<open>
  C13. A successful check of the compute layers has processed every layer of the description against
  its own layer proof, yields for each one canonical challenge per sumcheck message, keeps the
  sponge invariant, and the hybrid replay reaches the same context and the same sponge.
\<close>

theorem compute_layers_checked:
  assumes "verify_compute_layers proof desc gens sp = Inr (ctx, sp')" "sponge_inv sp"
    and "32 * length (layer_proofs proof) < 2 ^ 63"
  shows "sponge_inv sp' \<and> length (all_bindings ctx) = num_compute_layers desc
    \<and> num_compute_layers desc \<le> length (layer_proofs proof)
    \<and> (\<forall>i < num_compute_layers desc. layer_bindings_ok proof i (all_bindings ctx ! i))
    \<and> (\<exists>collector. verify_compute_layers_hybrid proof desc sp = Inr ((ctx, collector), sp'))"
proof -
  note b = compute_layers_bound [OF assms(1,2)]
  have "32 * num_compute_layers desc < 2 ^ 63" using b assms(3) by linarith
  with b verify_compute_layers_ok [OF assms(1,2)] verify_compute_layers_agree [OF assms(1)] show ?thesis
    by (auto simp: ctx_ok_def)
qed

theorem compute_layers_checked_witness:
  "\<exists>ctx sp. verify_compute_layers (ex_two_layers INFINITY) ex_desc_two no_gens init = Inr (ctx, sp) \<and> sponge_inv sp
    \<and> length (all_bindings ctx) = 2 \<and> layer_bindings_ok (ex_two_layers INFINITY) 1 (all_bindings ctx ! 1)"
proof -
  obtain ctx sp where v: "verify_compute_layers (ex_two_layers INFINITY) ex_desc_two no_gens init = Inr (ctx, sp)"
    using ex_two_layers_verify by blast
  from compute_layers_checked [OF v sponge_inv_init] v show ?thesis by (auto simp: ex_two_layers_def ex_desc_two_def)
qed

section \<open>Input layers\<close>

text \<open>
  C14. The tensor of a point with fewer than 58 coordinates has one entry per vertex of the cube, the product of the factors \<open>x_i\<close>
  or \<open>1 - x_i\<close> that its bits select; from 58 coordinates on its allocation panics. Evaluating the multilinear extension of public
  data gives the sum over the data of value times weight modulo \<open>r\<close>, which equals the inner product with the tensor of the point
  when there is one and the data fill the cube, and at a Boolean point is the entry with that index.
\<close>

theorem mle_evaluation:
  assumes "length point < 64" "\<forall>c \<in> set point. fr_canonical c" "length values \<le> 2 ^ length point"
  shows "\<exists>v. evaluate_mle_from_data values point = Inr v \<and> int (uval v) = mle_value values point mod int (uval FR_MOD)
    \<and> (length point < 58 \<longrightarrow> (\<exists>t. initialize_tensor point = Inr t \<and> length t = 2 ^ length point
        \<and> (\<forall>w < 2 ^ length point. int (uval (t ! w)) = weight (ints point) w mod int (uval FR_MOD))
        \<and> (length values = 2 ^ length point \<longrightarrow> inner_product values t = Inr v)))
    \<and> (58 \<le> length point \<longrightarrow> panics (initialize_tensor point))
    \<and> (\<forall>u < length values. ints point = bits_msb (length point) u \<and> (\<forall>d \<in> set values. fr_canonical d) \<longrightarrow> v = values ! u)"
proof -
  from evaluate_mle_value [OF assms] obtain v where v: "evaluate_mle_from_data values point = Inr v"
    "int (uval v) = mle_value values point mod int (uval FR_MOD)" by blast
  have "v = values ! u" if "u < length values" "ints point = bits_msb (length point) u" "\<forall>d \<in> set values. fr_canonical d" for u
    using evaluate_mle_boolean [OF assms(1) that(2,1) assms(3) that(3)] v(1) by simp
  moreover have "\<exists>t. initialize_tensor point = Inr t \<and> length t = 2 ^ length point
      \<and> (\<forall>w < 2 ^ length point. int (uval (t ! w)) = weight (ints point) w mod int (uval FR_MOD))
      \<and> (length values = 2 ^ length point \<longrightarrow> inner_product values t = Inr v)" if "length point < 58"
    using initialize_tensor_ok [OF that assms(2)] mle_value_tensor [OF that assms(2) _ _ v(1)] by blast
  ultimately show ?thesis using v initialize_tensor_panics assms(1) by blast
qed

theorem mle_evaluation_witness:
  "evaluate_mle_from_data [from_u64 5, from_u64 7] [u256_ONE] = Inr (from_u64 7)
    \<and> (\<exists>t. initialize_tensor [u256_ONE] = Inr t \<and> length t = 2) \<and> panics (initialize_tensor (replicate 58 u256_ONE))"
  using mle_evaluation [of "[u256_ONE]" "[from_u64 5, from_u64 7]"] mle_evaluation [of "replicate 58 u256_ONE" "[]"]
  by (auto simp: uval_FR_MOD All_less_Suc2)
section \<open>Transparency log\<close>

text \<open>
  C15. Completeness of the log: for every leaf index the log computes a root and an inclusion proof, without
  a panic, and the proof is accepted for the leaf, the index and the size of the log. Verification of any claim
  returns exactly when the claimed tree size is at most \<open>2 ^ 63\<close> or the index is out of its range: above \<open>2 ^ 63\<close> the
  size of the depth loop wraps to 0 and the loop does not end.
\<close>

theorem log_inclusion_complete:
  assumes "i < length leaves" "length leaves \<le> 2 ^ 57"
  shows "(\<exists>root ps. compute_root sha256 leaves = Some (Inr root) \<and> inclusion_proof sha256 leaves i = Some (Inr (Inr ps))
      \<and> verify_inclusion sha256 root (leaves ! i) i ps (length leaves) = Some True)
    \<and> (verify_inclusion sha256 claimed_root leaf j path n = None \<longleftrightarrow> 2 ^ 63 < n \<and> j < n)"
proof -
  have "verify_inclusion sha256 claimed_root leaf j path n = None \<longleftrightarrow> 2 ^ 63 < n \<and> j < n"
  proof (cases "2 ^ 63 < n")
    case True
    then show ?thesis
      using verify_inclusion_diverges [OF True, of j sha256 claimed_root leaf path] by (cases "j < n") (auto simp: verify_inclusion_def)
  next
    case False
    then show ?thesis using verify_inclusion_total [of n sha256 claimed_root leaf j path] by auto
  qed
  then show ?thesis using inclusion_complete [OF assms] by blast
qed

theorem log_inclusion_complete_witness:
  "(\<exists>root ps. compute_root rev [[1], [2], [3]] = Some (Inr root) \<and> inclusion_proof rev [[1], [2], [3]] 2 = Some (Inr (Inr ps))
    \<and> verify_inclusion rev root [3] 2 ps 3 = Some True) \<and> verify_inclusion rev [0] [3] 2 [] (2 ^ 63 + 1) = None"
  using log_inclusion_complete [of 2 "[[1], [2], [3]]" rev "[0]" "[3]" 2 "[]" "2 ^ 63 + 1"] by (simp add: numeral_3_eq_3)

text \<open>
  Soundness of the endpoint: when it answers that a request is valid for the root and the size of the log,
  the leaf of the request is the leaf at that index, or the request exhibits a collision: verifying its path and
  building the tree hash two different inputs to the same node.
\<close>

theorem log_endpoint_sound:
  assumes "\<And>bs. length (sha256 bs) = 32" "\<forall>x \<in> set leaves. length x = 32" "length leaves \<le> 2 ^ 57"
    and "compute_root sha256 leaves = Some (Inr root)" "tree_size req = length leaves"
    and "decode_node hex ''root'' ''root'' (root_hex req) = Inr root"
    and "decode_node hex ''leaf_hash'' ''leaf_hash'' (leaf_hash req) = Inr leaf" "decode_path hex (proof_hex req) = Inr path"
    and "transparency_verify hex sha256 req = Some (Inr True)"
  shows "(index req < length leaves \<and> leaf = leaves ! index req)
    \<or> collision sha256 (path_inputs sha256 path leaf (index req)) (log_inputs sha256 leaves)"
proof -
  have "verify_inclusion sha256 root leaf (index req) path (length leaves) = Some True"
    using assms(5-9) by (simp add: transparency_verify_True)
  then show ?thesis
    using inclusion_sound [of sha256 leaves leaf path root "index req"] assms(1-4)
      decode_node_length [OF assms(7)] decode_path_length [OF assms(8)] by blast
qed

theorem log_endpoint_sound_witness:
  "transparency_verify (\<lambda>_. Inr zero_node) (\<lambda>_. zero_node)
     \<lparr> index = 1, leaf_hash = ''00'', proof_hex = [''00''], root_hex = ''00'', tree_size = 2 \<rparr> = Some (Inr True)
   \<and> (zero_node = [zero_node, zero_node] ! 1
      \<or> collision (\<lambda>_. zero_node) (path_inputs (\<lambda>_. zero_node) [zero_node] zero_node 1) (log_inputs (\<lambda>_. zero_node) [zero_node, zero_node]))"
proof -
  let ?req = "\<lparr> index = 1, leaf_hash = ''00'', proof_hex = [''00''], root_hex = ''00'', tree_size = 2 \<rparr>"
  have d: "tree_depth 2 = Some 1" "tree_depth (Suc (Suc 0)) = Some 1" by (simp_all add: tree_depth_def depth_loop.simps)
  have v: "transparency_verify (\<lambda>_. Inr zero_node) (\<lambda>_. zero_node) ?req = Some (Inr True)"
    by (simp add: transparency_verify_def decode_node_def zero_node_def verify_inclusion_def d hash_pair_log_def)
  have r: "compute_root (\<lambda>_. zero_node) [zero_node, zero_node] = Some (Inr zero_node)"
    by (simp add: compute_root_def d with_capacity_def shl1_def padded_def root_loop.simps hash_pair_log_def idx_def)
  show ?thesis
    using log_endpoint_sound [of "\<lambda>_. zero_node" "[zero_node, zero_node]" zero_node ?req "\<lambda>_. Inr zero_node" zero_node "[zero_node]"]
      v r by (simp add: decode_node_def zero_node_def)
qed

section \<open>Circuit breaker\<close>

text \<open>
  C16. Invariant of the breaker under every sequence of operations of concurrent callers: in each state the
  opening time and the counters are those of the state (closed below the failure threshold, half-open below the
  success threshold), and the metrics count the entries into the open state and the changes of state.
\<close>

theorem breaker_invariant:
  assumes "breaker_run cfg trace (t, cb)"
  shows "breaker_inv cfg t cb \<and> cb_state cb = hd trace
    \<and> trip_count cb = of_nat (Circuit_Breaker.entries Open trace) \<and> state_changes_total cb = of_nat (changes trace)"
  using run_invariant [OF assms] by (simp add: trip_count_def)

theorem breaker_invariant_witness:
  "breaker_inv \<lparr> failure_threshold = 1, recovery_timeout = 5, success_threshold_for_close = 1 \<rparr> 7
     (record_failure \<lparr> failure_threshold = 1, recovery_timeout = 5, success_threshold_for_close = 1 \<rparr> 7 breaker_new)"
proof -
  let ?cfg = "\<lparr> failure_threshold = 1, recovery_timeout = 5, success_threshold_for_close = 1 \<rparr>"
  have "breaker_step ?cfg (0, breaker_new) (7, record_failure ?cfg 7 breaker_new)"
    using breaker_step.operation [of 0 7 ?cfg breaker_new Ev_Failure] by simp
  from breaker_invariant [OF breaker_run.step [OF breaker_run.start this]] show ?thesis by blast
qed

text \<open>
  An open breaker rejects a call before the recovery timeout without running it and without a change, and
  recovers after it: the first successful calls are run, leave it half-open below the success threshold, and
  close it at the threshold, while a failure re-opens it with the time of the failure.
\<close>

theorem breaker_rejects_and_recovers:
  assumes "cb_state cb = Open" "opened_at cb = Some t0" "now - t0 < recovery_timeout cfg" "recovery_timeout cfg \<le> later - t0"
    and "\<And>w. \<exists>v w'. f w = (Inr v, w')" "\<And>w. \<exists>e w'. g w = (Inl e, w')"
  shows "call_sync cfg now now' end_time f (cb, w) = (Inl (Err_Open (recovery_timeout cfg - (now' - t0))), cb, w)
    \<and> recovered cfg (Suc (length ts)) (fst (calls cfg f ((later, later', end_time) # ts) (cb, w)))
    \<and> cb_state (fst (snd (call_sync cfg later later' end_time g (cb, w)))) = Open
    \<and> opened_at (fst (snd (call_sync cfg later later' end_time g (cb, w)))) = Some end_time"
proof -
  note tr = transition_recovered [OF assms(1,2,4)]
  have "recovered cfg 0 (maybe_transition_to_half_open cfg later cb)" using tr by (simp add: recovered_def)
  note rec = calls_recover [OF this assms(5)]
  obtain e w' where "g w = (Inl e, w')" using assms(6) by blast
  then have "call_sync cfg later later' end_time g (cb, w) =
      (Inl (Err_Inner e), record_failure cfg end_time (maybe_transition_to_half_open cfg later cb), w')"
    using tr(1) by (simp add: call_failure)
  then show ?thesis
    using rec call_rejected [OF assms(1-3)] tr(1) by (simp add: record_failure_def Let_def)
qed

theorem breaker_rejects_and_recovers_witness:
  "cb_state (fst (calls \<lparr> failure_threshold = 1, recovery_timeout = 5, success_threshold_for_close = 2 \<rparr>
     (\<lambda>n :: nat. (Inr n :: unit + nat, Suc n)) [(9, 9, 9), (10, 10, 10)]
     (breaker_new\<lparr> cb_state := Open, opened_at := Some 3 \<rparr>, 0))) = Closed"
proof -
  let ?cfg = "\<lparr> failure_threshold = 1, recovery_timeout = 5, success_threshold_for_close = 2 \<rparr>"
    and ?cb = "breaker_new\<lparr> cb_state := Open, opened_at := Some 3 \<rparr>" and ?f = "\<lambda>n :: nat. (Inr n :: unit + nat, Suc n)"
  have "recovered ?cfg (Suc (length [(10 :: nat, 10 :: nat, 10 :: nat)])) (fst (calls ?cfg ?f ((9, 9, 9) # [(10, 10, 10)]) (?cb, 0)))"
    by (rule breaker_rejects_and_recovers [of ?cb 3 4 ?cfg 9 ?f "\<lambda>n :: nat. (Inl () :: unit + nat, n)", THEN conjunct2, THEN conjunct1]) simp_all
  then show ?thesis by (simp add: recovered_def del: calls.simps)
qed

section \<open>Job queue\<close>

text \<open>
  C17. The queue keeps its invariant: the array is in heap order, the ids of the queued jobs are distinct and are the ids marked as
  seen, every job offers the minimal tip, and the length is within the limit, where a limit of 0 counts as 1 (an empty queue takes
  a job whatever the limit is). A job that \<open>push\<close> accepts is queued with its score, and a refused one leaves the queue as it
  is. \<open>pop\<close> drops jobs that have expired when it looks at them and returns a job that has not, which no job left in the queue
  outranks; it returns nothing only when every job has expired, and loses no other job.
\<close>

theorem queue_invariant:
  "queue_inv (queue_new size_limit tip_limit)
   \<and> (queue_inv jq \<longrightarrow> queue_inv (snd (queue_push now now1 now2 job jq)) \<and> queue_inv (snd (queue_pop clock jq))
      \<and> length (heap (snd (queue_push now now1 now2 job jq))) \<le> max 1 (max_size jq)
      \<and> (if fst (queue_push now now1 now2 job jq) then scored now2 job \<in> set (heap (snd (queue_push now now1 now2 job jq)))
         else snd (queue_push now now1 now2 job jq) = jq)
      \<and> pop_effect clock 0 (mset (heap jq)) (fst (queue_pop clock jq)) (mset (heap (snd (queue_pop clock jq)))))"
proof -
  have "queue_inv (snd (queue_pop clock jq)) \<and> pop_effect clock 0 (mset (heap jq)) (fst (queue_pop clock jq)) (mset (heap (snd (queue_pop clock jq))))"
    if "queue_inv jq" using that pop_from_effect [of jq clock 0] by (metis queue_pop_def prod.collapse)
  then show ?thesis using queue_inv_new queue_inv_push queue_push_bounded queue_push_effect by blast
qed

text \<open>Two jobs are pushed, and the one with the greater tip is popped.\<close>

theorem queue_invariant_witness:
  "queue_inv ex_queue \<and> fst (queue_pop (\<lambda>_. 0) ex_queue) = Some (ex_job 2 3000000000000000)
   \<and> queue_inv (snd (queue_pop (\<lambda>_. 0) ex_queue)) \<and> map request_id (iter_jobs (snd (queue_pop (\<lambda>_. 0) ex_queue))) = [1]
   \<and> scored 0 (ex_job 1 1000000000000000) \<in> set (heap (snd (queue_push 0 0 0 (ex_job 1 1000000000000000) (queue_new 2 0))))"
proof -
  note inv = queue_invariant [of 2 0 "queue_new 2 0" 0 0 0 "ex_job 1 1000000000000000" "\<lambda>_. 0"]
  have q: "queue_inv ex_queue"
    using inv queue_invariant [of 2 0 "snd (queue_push 0 0 0 (ex_job 1 1000000000000000) (queue_new 2 0))" 0 0 0 "ex_job 2 3000000000000000" "\<lambda>_. 0"]
    by (simp add: ex_queue_def)
  have "fst (queue_push 0 0 0 (ex_job 1 1000000000000000) (queue_new 2 0))"
    by (simp add: queue_push_def queue_new_def push_insert_def ex_job_def)
  then show ?thesis
    using q inv queue_invariant [of 2 0 ex_queue 0 0 0 "ex_job 3 2000000000000000" "\<lambda>_. 0"] ex_queue_pop by simp
qed

text \<open>
  A full queue compares a new job with its best job and drops that one: the job that makes room has the
  greatest score in the queue, and a job that does not beat the best one is turned away whatever the worst score
  in the queue is.
\<close>

theorem full_queue_drops_best:
  assumes "queue_inv jq" "heap jq \<noteq> []" "max_size jq \<le> length (heap jq)"
    and "request_id job \<notin> seen jq" "min_tip jq \<le> tip job" "now < expires_at job"
  shows "\<exists>best \<in> set (heap jq). (\<forall>s \<in> set (heap jq). rank s \<le> rank best)
    \<and> (if total (job_score now1 job) \<le> rank best then queue_push now now1 now2 job jq = (False, jq)
       else fst (queue_push now now1 now2 job jq)
         \<and> mset (heap (snd (queue_push now now1 now2 job jq))) = add_mset (scored now2 job) (mset (heap jq) - {#best#}))"
proof -
  have inv: "heap_inv rank (heap jq)" using assms(1) by (simp add: queue_inv_def)
  obtain best h where b: "heap_pop rank (heap jq) = Some (best, h)" "best \<in> set (heap jq)" "\<forall>s \<in> set (heap jq). rank s \<le> rank best"
    "queue_push now now1 now2 job jq = (if total (job_score now1 job) \<le> rank best then (False, jq)
         else push_insert now2 job (jq\<lparr> heap := h, seen := seen jq - {request_id (sj_job best)} \<rparr>))"
    using push_full [OF assms, of now1 now2] by blast
  show ?thesis
    using b bh.replace_top [OF inv b(1), of "scored now2 job"] by (intro bexI [of _ best]) (auto simp: push_insert_def)
qed

theorem full_queue_drops_best_witness:
  "fst (queue_push 0 0 0 (ex_job 3 2000000000000000) ex_queue) = False
   \<and> map request_id (iter_jobs ex_queue) = [2, 1] \<and> map tip (iter_jobs ex_queue) = [3000000000000000, 1000000000000000]"
proof -
  have jq: "queue_inv ex_queue" by (simp add: ex_queue_def queue_inv_push queue_inv_new)
  have h: "heap ex_queue = [scored 0 (ex_job 2 3000000000000000), scored 0 (ex_job 1 1000000000000000)]" "seen ex_queue = {1, 2}"
    "max_size ex_queue = 2" "min_tip ex_queue = 0"
    by (rule ex_queue_heap)+
  have r: "total (job_score 0 (ex_job 3 2000000000000000)) = 2" "rank (scored 0 (ex_job 2 3000000000000000)) = 3"
    "rank (scored 0 (ex_job 1 1000000000000000)) = 1" by (simp_all add: ex_rank)
  obtain best where "best \<in> set (heap ex_queue)" "\<forall>s \<in> set (heap ex_queue). rank s \<le> rank best"
    "total (job_score 0 (ex_job 3 2000000000000000)) \<le> rank best \<Longrightarrow>
       queue_push 0 0 0 (ex_job 3 2000000000000000) ex_queue = (False, ex_queue)"
    using full_queue_drops_best [OF jq, of "ex_job 3 2000000000000000" 0 0 0] h
    by (fastforce simp: ex_job_def)
  then have "queue_push 0 0 0 (ex_job 3 2000000000000000) ex_queue = (False, ex_queue)" using h(1) r by auto
  then show ?thesis using h by (simp add: iter_jobs_def scored_def ex_job_def)
qed

section \<open>Rate limiter\<close>

text \<open>
  C18. Over a run of checks and cleanups in the order of the clock, no window of the configured length, wherever it
  ends, holds more admitted requests of an address than the limit; and the next request of an address is admitted
  exactly when the window that ends with it has room, so that the cleanups forget nothing that counts.
\<close>

theorem limiter_window:
  assumes "sorted (map event_time evs)"
  shows "in_window cfg t (admissions ip (snd (limiter_run cfg evs))) \<le> unat (max_requests cfg)
    \<and> ((\<forall>e \<in> set evs. event_time e \<le> now) \<longrightarrow>
        (\<exists>info. fst (check_ip cfg now ip (fst (limiter_run cfg evs))) = Inr (Inr info)) =
          (in_window cfg now (admissions ip (snd (limiter_run cfg evs))) < unat (max_requests cfg)))"
  using window_bound [OF assms] check_exact [OF assms, of now cfg "fst (limiter_run cfg evs)" "snd (limiter_run cfg evs)" ip] by simp

theorem limiter_window_witness:
  "\<not> (\<exists>info. fst (check_ip \<lparr> max_requests = 1, window = 10 \<rparr> 8 LOCALHOST
       (fst (limiter_run \<lparr> max_requests = 1, window = 10 \<rparr> [Rate_Limit.Check LOCALHOST 1, Cleanup 5]))) = Inr (Inr info))"
  using limiter_window [of "[Rate_Limit.Check LOCALHOST 1, Cleanup 5]" "\<lparr> max_requests = 1, window = 10 \<rparr>" 8 LOCALHOST 8]
  by (simp add: limiter_run_def check_ip_def retain_def in_window_def admissions_def)

section \<open>URL filter\<close>

text \<open>
  C19. A URL passes the filter exactly when, trimmed, it is not empty, not too long and free of control
  characters, its scheme is one of the two allowed ones, and the host that the filter reads from it is not empty
  and is either an address outside the documented private and reserved networks (IPv4, IPv6 and mapped IPv4) or
  a name outside the lists of private names and suffixes.
\<close>

theorem url_filter:
  "validate_url_ssrf url = Inr () \<longleftrightarrow>
     trim url \<noteq> [] \<and> length (trim url) \<le> MAX_URL_LENGTH \<and> \<not> list_ex is_control (trim url)
     \<and> (\<exists>scheme rest. split_once ''://'' (trim url) = Some (scheme, rest) \<and> to_lowercase scheme \<in> set ALLOWED_SCHEMES)
     \<and> (\<exists>host. url_host url = Some host \<and> host \<noteq> []
          \<and> (case parse_ip host of
               Some ip \<Rightarrow> \<not> blocked_address ip
             | None \<Rightarrow> to_lowercase host \<notin> set BLOCKED_HOSTNAMES \<and> \<not> list_ex (ends_with (to_lowercase host)) BLOCKED_HOSTNAME_SUFFIXES))"
  by (rule url_accepted)

section \<open>Replay protection\<close>

text \<open>
  C20. After any sequence of requests, a request is accepted exactly when its chain id is the expected one, its
  timestamp is within the maximal age of the clock, and its nonce is not among those of the last 100000 accepted
  requests. Two accepted requests with the same nonce are at least that many acceptances apart, and a request
  that is accepted again with its timestamp is accepted within twice the maximal age.
\<close>

theorem replay_protection:
  assumes "guard_run (replay_new age chain) reqs = (rp, accepted)"
  shows "(fst (validate_request now nonce ts chain_id rp) = Inr () \<longleftrightarrow>
      chain_id = chain \<and> now \<le> ts + age \<and> ts \<le> now + age \<and> nonce \<notin> set (take MAX_NONCE_ENTRIES (map nonce_of accepted)))
    \<and> (\<forall>i j. i < j \<and> j < length accepted \<and> nonce_of (accepted ! i) = nonce_of (accepted ! j) \<longrightarrow> MAX_NONCE_ENTRIES \<le> j - i)
    \<and> (\<forall>t0 t1 n m t c d. (t0, n, t, c) \<in> set accepted \<and> (t1, m, t, d) \<in> set accepted \<longrightarrow> t1 \<le> t0 + 2 * age)"
proof -
  let ?rp = "replay_new age chain"
  have inv: "guard_inv ?rp (rp, accepted)" using guard_run_inv [of ?rp MAX_NONCE_ENTRIES reqs] assms by (simp add: replay_new_def)
  have rp: "max_request_age_secs ?rp = age" "expected_chain_id ?rp = chain" "max 1 (max_entries (nonces ?rp)) = MAX_NONCE_ENTRIES"
    by (simp_all add: replay_new_def registry_new_def MAX_NONCE_ENTRIES_def)
  have "\<forall>i j. i < j \<and> j < length accepted \<and> nonce_of (accepted ! i) = nonce_of (accepted ! j) \<longrightarrow> MAX_NONCE_ENTRIES \<le> j - i"
    using guard_inv_registry(3) [OF inv] unfolding rp snd_conv spaced_def by simp
  moreover have "t1 \<le> t0 + 2 * age" if "(t0, n, t, c) \<in> set accepted" "(t1, m, t, d) \<in> set accepted" for t0 t1 n m t c d
    using accepted_close [OF inv that] unfolding rp .
  ultimately show ?thesis using validate_request_iff [OF inv, unfolded rp] by (intro conjI allI impI) auto
qed

theorem replay_protection_witness:
  "fst (validate_request 110 ''a'' 100 1 (fst (guard_run (replay_new 60 1) [(100, ''a'', 100, 1)]))) \<noteq> Inr ()"
proof -
  obtain rp accepted where r: "guard_run (replay_new 60 1) [(100, ''a'', 100, 1)] = (rp, accepted)" by fastforce
  then have "accepted = [(100, ''a'', 100, 1)]"
    by (simp add: guard_run_def validate_request_def check_chain_id_def check_timestamp_def check_nonce_def replay_new_def registry_new_def MAX_NONCE_ENTRIES_def)
  then show ?thesis using replay_protection [OF r, of 110 "''a''" 100 1] r by (simp add: nonce_of_def MAX_NONCE_ENTRIES_def)
qed

section \<open>Inference in the enclave\<close>

text \<open>
  C21. The loader turns a LightGBM tree into five arrays of the same length, with one node for each node of the
  tree, in which node 0 is a copy of it. Below \<open>2 ^ 31\<close> nodes the arrays are well-formed: the children of a node are
  nodes behind it, and its feature is one of the tree. The loader refuses exactly the JSON objects that are not
  decision trees, and never panics.
\<close>

theorem lightgbm_flattening:
  "case flatten_lgb_tree fo no root of
     Inr t \<Rightarrow> \<exists>d. lgb_dtree no root = Some d \<and> same_lengths t \<and> tree_len t = dnodes d \<and> stands_for t 0 d
       \<and> (dnodes d \<le> 2 ^ 31 \<and> (\<forall>f \<in> dfeatures d. f < nf) \<longrightarrow> tree_ok nf t)
   | Inl e \<Rightarrow> lgb_dtree no root = None \<and> (\<forall>p. e \<noteq> Model_panic p)"
  using flatten_lgb_tree_result [where fo = fo and no = no and root = root]
    flatten_lgb_tree_ok [where fo = fo and no = no and root = root and nf = nf]
  by (auto split: sum.splits)

theorem lightgbm_flattening_witness:
  "tree_ok 2 \<lparr> left_children = [1, - 1, - 1], right_children = [2, - 1, - 1], split_indices = [1, 0, 0],
      split_conditions = [10, 0, 0], base_weights = [0, 5, 7 :: int] \<rparr>"
  using lightgbm_flattening [where fo = ex_f64 and no = ex_num and root = ex_lgb_tree and nf = 2]
  by (simp add: ex_lgb_flat ex_lgb_dtree)

text \<open>
  C22. Inference on a parsed LightGBM model refines the evaluation of its decision trees: the walk over the arrays
  gives for each tree the leaf that the tree gives, and the prediction adds them up, into one score, or by class. This is for
  fewer than \<open>2 ^ 60\<close> classes, trees of at most \<open>2 ^ 31\<close> nodes (the indices are 32-bit integers), and as many features as the trees ask for.
\<close>

theorem lightgbm_inference:
  assumes "parse_lightgbm fo no lgb_json s = Inr model" "lgb_json s = Inr raw" "lgb_num_classes raw < 2 ^ 60"
    and "\<forall>d. Some d \<in> set (lgb_dtrees no raw) \<longrightarrow> dnodes d \<le> 2 ^ 31 \<and> (\<forall>f \<in> dfeatures d. f < length features)"
  shows "\<exists>ds ys. lgb_dtrees no raw = map Some ds \<and> map (dtree_eval fo features) ds = map (\<lambda>y. Some (Inr y)) ys
    \<and> predict fo model features = Some (Inr (prediction fo (lgb_num_classes raw) (f_zero fo) ys))"
proof -
  obtain ds where ds: "lgb_dtrees no raw = map Some ds" "num_classes model = lgb_num_classes raw" "base_score model = f_zero fo"
    "list_all2 (\<lambda>d t. \<exists>j. lgb_dtree no j = Some d \<and> flatten_lgb_tree fo no j = Inr t) ds (trees model)"
    by (rule parse_lightgbm_Inr [OF assms(1,2)])
  define ev where "ev d = (case dtree_eval fo features d of Some (Inr y) \<Rightarrow> y | _ \<Rightarrow> f_zero fo)" for d
  have "dnodes d \<le> 2 ^ 31 \<and> dtree_eval fo features d = Some (Inr (ev d))" if "d \<in> set ds" for d
  proof -
    have d: "dnodes d \<le> 2 ^ 31" "\<forall>f \<in> dfeatures d. f < length features" using assms(4) ds(1) that by auto
    then show ?thesis using dtree_eval_total [OF d(2), of fo] by (auto simp: ev_def)
  qed
  then show ?thesis using predict_lightgbm [OF ds(4), of features ev] assms(3) ds
    by (intro exI [of _ ds] exI [of _ "map ev ds"]) simp
qed

theorem lightgbm_inference_witness:
  "\<exists>model. parse_lightgbm ex_f64 ex_num (\<lambda>_. Inr ex_lgb_model) [] = Inr model
     \<and> predict ex_f64 model [3, 12] = Some (Inr [7]) \<and> predict ex_f64 model [3, 9] = Some (Inr [5])"
proof -
  have m: "lgb_num_classes ex_lgb_model = 2" "lgb_dtrees ex_num ex_lgb_model = [Some (Split 1 10 (Leaf 5) (Leaf 7))]"
    by (simp_all add: lgb_num_classes_def ex_lgb_model_def as_usize_def lgb_dtrees_def ex_lgb_dtree)
  have fo: "f_zero ex_f64 = 0" "f_sum_start ex_f64 = 0" "f_add ex_f64 = (+)" "f_lt ex_f64 = (<)" by (simp_all add: ex_f64_def)
  have "\<exists>ds ys. [Some (Split 1 10 (Leaf 5) (Leaf 7))] = map Some ds \<and> map (dtree_eval ex_f64 [3, x]) ds = map (\<lambda>y. Some (Inr y)) ys
      \<and> predict ex_f64 (projr (parse_lightgbm ex_f64 ex_num (\<lambda>_. Inr ex_lgb_model) [])) [3, x] = Some (Inr (prediction ex_f64 2 0 ys))" for x
    using lightgbm_inference [where fo = ex_f64 and no = ex_num and lgb_json = "\<lambda>_. Inr ex_lgb_model" and s = "[]" and features = "[3, x]"]
    by (simp add: m ex_lgb_parse fo)
  from this [of 12] this [of 9] show ?thesis
    by (auto simp: Cons_eq_map_conv ex_lgb_parse prediction_def fo)
qed

text \<open>
  C23. Inference returns, without a panic, one score or one per class, on every model of trees that are well-formed for \<open>nf\<close> features,
  when it is given at least \<open>nf\<close> features (the walk indexes them) and the model has fewer than \<open>2 ^ 60\<close> classes (the scores are
  allocated). Nothing in the XGBoost loader makes trees well-formed: it accepts a node that is its own child, and inference on
  that model does not return.
\<close>

theorem inference_returns:
  assumes "xgb_json s = Inr \<lparr> learner_model_param = \<lparr> num_feature = ''1'', num_class = [], base_score_str = b \<rparr>, xgb_trees = [self_loop c] \<rparr>"
    and "parse_f64 b = Some v" "features \<noteq> []"
  shows "((\<forall>t \<in> set (trees model). tree_ok nf t) \<and> nf \<le> length features \<and> num_classes model < 2 ^ 60 \<longrightarrow>
      (\<exists>ys. predict fo model features = Some (Inr ys) \<and> length ys = (if num_classes model \<le> 2 then 1 else num_classes model)))
    \<and> (\<exists>cyclic. parse_xgboost parse_f64 xgb_json s = Inr cyclic \<and> predict fo cyclic features = None)"
proof -
  have "\<exists>ys. predict fo model features = Some (Inr ys) \<and> length ys = (if num_classes model \<le> 2 then 1 else num_classes model)"
    if "\<forall>t \<in> set (trees model). tree_ok nf t" "nf \<le> length features" "num_classes model < 2 ^ 60"
    using predict_total [OF that, of fo] by blast
  moreover have "predict fo \<lparr> num_features = 1, num_classes = 2, base_score = v, trees = [self_loop_tree c] \<rparr> features = None"
    using traverse_self_loop [OF assms(3), of fo c] by (simp add: predict_def)
  ultimately show ?thesis using parse_xgboost_self_loop [of xgb_json s b c parse_f64 v, OF assms(1,2)] by blast
qed

text \<open>The well-formed model is the one that the loader makes of a LightGBM tree with one split.\<close>

theorem inference_returns_witness:
  "(\<exists>model ys. parse_lightgbm ex_f64 ex_num (\<lambda>_. Inr ex_lgb_model) [] = Inr model \<and> length (trees model) = 1
      \<and> predict ex_f64 model [3, 12] = Some (Inr ys) \<and> length ys = 1)
   \<and> (\<exists>cyclic. parse_xgboost (\<lambda>_. Some (0 :: int))
       (\<lambda>_. Inr \<lparr> learner_model_param = \<lparr> num_feature = ''1'', num_class = [], base_score_str = ''0.5'' \<rparr>, xgb_trees = [self_loop 0] \<rparr>) ''{}''
     = Inr cyclic \<and> predict ex_f64 cyclic [3, 12] = None)"
proof -
  have "tree_ok 2 \<lparr> left_children = [1, - 1, - 1], right_children = [2, - 1, - 1], split_indices = [1, 0, 0],
      split_conditions = [10, 0, 0], base_weights = [0, 5, 7 :: int] \<rparr>"
    by (rule flatten_lgb_tree_ok [OF ex_lgb_flat ex_lgb_dtree]) simp_all
  then show ?thesis
    using inference_returns [of _ "''{}''" "''0.5''" "0 :: int" "\<lambda>_. Some 0" 0 "[3, 12]"
        "projr (parse_lightgbm ex_f64 ex_num (\<lambda>_. Inr ex_lgb_model) [])" 2 ex_f64]
    by (auto simp: ex_lgb_parse)
qed

section \<open>The operator\<close>

text \<open>
  C24. The state file survives a crash: whatever a save that fails or is killed leaves behind, the next load
  returns what it would have returned before the save, or the state that was being saved; no other file than the
  temporary one changes, and a save that reports success has replaced the state.
\<close>

theorem state_file_crash_safe:
  assumes "save_trace print path st fs fs'" "parse (print (to_wire st)) = Some (to_wire st)"
    and "tracker_ok (processed_event_ids st)" "read_ok oc"
  shows "store_load parse oc path fs' \<in> {store_load parse oc path fs, Inr (Some st)}
    \<and> (\<forall>p. p \<noteq> path \<and> p \<noteq> tmp_path path \<longrightarrow> fs' p = fs p)
    \<and> (fst (store_save print oc' path st fs) = Inr () \<longrightarrow> store_load parse oc path (snd (store_save print oc' path st fs)) = Inr (Some st))"
proof -
  have "fs' p = fs p" if "p \<noteq> path" "p \<noteq> tmp_path path" for p
    using assms(1) that by cases (simp_all add: store_save_others)
  moreover have "store_load parse oc path (snd (store_save print oc' path st fs)) = Inr (Some st)"
    if "fst (store_save print oc' path st fs) = Inr ()"
    using store_save_target [of print oc' path st fs] that store_load_saved [where parse = parse and print = print, OF _ assms(2-4)]
    by (metis prod.collapse)
  ultimately show ?thesis
    using save_trace_target [OF assms(1)] store_load_saved [where parse = parse and print = print, OF _ assms(2-4)]
      store_load_cong [where fs = fs and fs' = fs' and path = path and parse = parse and oc = oc] by auto
qed

theorem state_file_crash_safe_witness:
  "store_load (\<lambda>_. Some (to_wire OperatorState_default)) ex_outcome ''s'' (Map.empty(tmp_path ''s'' := Some ''{''))
     \<in> {Inr None, Inr (Some OperatorState_default)}"
proof -
  have "tracker_ok (processed_event_ids OperatorState_default)"
    by (simp add: OperatorState_default_def tracker_inv_ok [OF tracker_inv_new])
  with state_file_crash_safe [OF save_trace.writing, of "\<lambda>_. Some (to_wire OperatorState_default)" "\<lambda>_. ''{}''" OperatorState_default
      ex_outcome "''s''" Map.empty "Some ''{''"]
  show ?thesis by (simp add: ex_outcome_def store_load_def)
qed

text \<open>
  C25. One task for a challenge, also across a restart: over a run of the watch loop, a last cycle whose state file
  was written, a restart from that file and a second run, the ids of the results for which a task was started,
  together with those that the first run loaded, repeat only at a distance of at least 10000 other ids.
\<close>

theorem challenge_tasks_once:
  assumes start: "start = watch_start env parse oc fs" and stopped: "stopped = watch_run env (inps @ [inp]) start"
    and "\<not> dry_run env" "tracker_ok (processed_event_ids (op_state start))" "read_ok oc'"
    and "mkdir_ok (file_outcome inp)" "write_res (file_outcome inp) = Write_Ok" "rename_ok (file_outcome inp)"
    and "parse (state_json env (to_wire (op_state stopped))) = Some (to_wire (op_state stopped))"
  shows "spaced MAX_PROCESSED_IDS
    (rev (ids_order (processed_event_ids (op_state start)) @ map (rid_hex env) (spawned (effects stopped))
          @ map (rid_hex env) (spawned (effects (watch_run env inps' (watch_start env parse oc' (disk stopped)))))))"
proof -
  let ?old = "rev (ids_order (processed_event_ids (op_state start)))" and ?again = "watch_start env parse oc' (disk stopped)"
  have "spaced MAX_PROCESSED_IDS ?old"
    using assms(4) by (fastforce simp: spaced_def tracker_ok_def nth_eq_iff_index_eq)
  then have "tasks_inv env ?old start"
    using tracker_inv_exists [OF assms(4)] by (simp add: tasks_inv_def tracker.feed_inv_def task_ids_def start watch_start_def Let_def)
  then have inv: "tasks_inv env ?old stopped" unfolding stopped by (rule tasks_inv_run [OF _ assms(3)])
  then have ok: "tracker_ok (processed_event_ids (op_state stopped))"
    by (auto simp: tasks_inv_def tracker.feed_inv_def intro: tracker_inv_ok)
  have "disk stopped (state_path env) = Some (state_json env (to_wire (op_state stopped)))"
    unfolding stopped using watch_cycle_saved [OF assms(6-8)] by (simp add: watch_run_def)
  then have "op_state ?again = op_state stopped"
    using store_load_saved [where print = "state_json env" and parse = parse, OF _ assms(9) ok assms(5)] by (simp add: watch_start_def load_or_default_def Let_def)
  then have "tasks_inv env (task_ids env ?old stopped) ?again"
    using inv by (simp add: tasks_inv_def task_ids_def watch_start_def Let_def)
  from tasks_inv_run [OF this assms(3), of inps'] show ?thesis
    by (simp add: tasks_inv_def tracker.feed_inv_def task_ids_def)
qed

theorem challenge_tasks_once_witness:
  "spaced MAX_PROCESSED_IDS (rev (map (rid_hex ex_env)
     (spawned (effects (watch_run ex_env [ex_cycle [ex_log] True, ex_cycle [ex_log] True] (watch_start ex_env (\<lambda>_. None) ex_outcome Map.empty))))))"
proof -
  let ?inps = "[ex_cycle [ex_log] True, ex_cycle [ex_log] True]"
  define parse where "parse = (\<lambda>_ :: string. Some (to_wire (op_state (watch_run ex_env ?inps (watch_start ex_env (\<lambda>_. None) ex_outcome Map.empty)))))"
  have same: "watch_start ex_env parse ex_outcome Map.empty = watch_start ex_env (\<lambda>_. None) ex_outcome Map.empty"
    by (simp add: watch_start_def load_or_default_def store_load_def)
  have new: "processed_event_ids (op_state (watch_start ex_env (\<lambda>_. None) ex_outcome Map.empty)) = tracker_new"
    by (simp add: watch_start_def load_or_default_def store_load_def OperatorState_default_def Let_def)
  from challenge_tasks_once [OF refl refl, of ex_env parse ex_outcome Map.empty ex_outcome "ex_cycle [ex_log] True" "[ex_cycle [ex_log] True]" "[]"]
  show ?thesis unfolding same new
    by (simp add: parse_def tracker_ok_def ex_env_def [THEN arg_cong, of dry_run] ex_cycle_def ex_outcome_def
        tracker_new_def watch_run_def [of _ "[]"] watch_start_def [of _ _ _ "disk _"] Let_def)
qed
text \<open>
  C26. Events are handled once. Over cycles of the watch loop in which no stop is requested, the submissions, finalizations,
  expirations and resolutions of the contracts between the first and the last block take effect (on the recorded model hashes and
  on the counters) exactly once each, in the order of the chain, whatever polls fail. Once only: a challenge that finds no permit for a
  task is not looked at again, so that without a new challenge of the same result no task is ever started for it. And a cycle
  that is asked to stop before its first event handles none of its events, although the block that it persists is past them.
\<close>

theorem denied_challenge_lost:
  assumes "\<not> dry_run env" "r \<notin> set (spawned (effects st))"
    and "history_ok chain" "\<forall>c \<in> set (inp # inps). node_ok chain (node c)"
    and "\<forall>j < length (fst (cycle_poll env inp st)). \<forall>ch. fst (cycle_poll env inp st) ! j = WResultChallenged r ch \<longrightarrow> \<not> permit_free inp j"
    and "\<forall>l \<in> set chain. \<forall>ch. watcher_parse_log l = Some (WResultChallenged r ch) \<longrightarrow> block_of l < from_block (watch_cycle env inp st)"
  shows "((\<forall>c \<in> set (inp # inps). \<forall>i. \<not> stopping c i) \<longrightarrow>
      event_trace (watch_run env (inp # inps) st) =
        fold (apply_event env) (events_between (contracts env) chain (from_block st) (from_block (watch_run env (inp # inps) st))) (event_trace st))
    \<and> r \<notin> set (spawned (effects (watch_run env (inp # inps) st)))
    \<and> (stopping inp 0 \<longrightarrow> event_trace (watch_cycle env inp st) = event_trace st
        \<and> spawned (effects (watch_cycle env inp st)) = spawned (effects st)
        \<and> last_polled_block (op_state (watch_cycle env inp st)) = snd (cycle_poll env inp st))"
  using run_polled_between [OF assms(3,4), of env st] watch_run_trace [of "inp # inps" env st] watch_cycle_stopped [of inp env st]
    challenge_not_retried [OF assms(1,2,5,3) _ assms(6) [unfolded watch_cycle_result(1)]] assms(4) by simp

text \<open>A challenge that finds no permit, a submission, and the same submission in a cycle that is asked to stop.\<close>

theorem denied_challenge_lost_witness:
  "[7] \<notin> set (spawned (effects (watch_run ex_env [ex_cycle [ex_log] False, ex_cycle [ex_log] True] ex_start)))
   \<and> total_submissions (watch_run ex_env [ex_cycle [ex_submission 1] False, ex_cycle [ex_submission 1] True] ex_start) = 1
   \<and> total_submissions (watch_cycle ex_env ((ex_cycle [ex_submission 1] False)\<lparr> stopping := (\<lambda>_. True) \<rparr>) ex_start) = 0"
proof -
  let ?inp = "ex_cycle [ex_submission 1] False" and ?inp' = "ex_cycle [ex_submission 1] True"
  let ?stop = "?inp\<lparr> stopping := (\<lambda>_. True) \<rparr>"
  note start = ex_start_simps ex_env_def [THEN arg_cong, of dry_run] history_ok_def ex_cycle_def ex_node_ok ex_log_def block_of_def
  have t: "event_trace ex_start = (Map.empty, 0, 0)" by (simp add: ex_start_simps event_trace_def)
  have "from_block (watch_run ex_env [?inp, ?inp'] ex_start) \<ge> 6"
    using run_polled_between [of "[ex_submission 1]" "[?inp']" ex_env "watch_cycle ex_env ?inp ex_start"] ex_first_cycle(1)
    by (simp add: watch_run_def start)
  then have "fold (apply_event ex_env) (events_between (contracts ex_env) [ex_submission 1] 0 (from_block (watch_run ex_env [?inp, ?inp'] ex_start)))
      (Map.empty, 0, 0) = ([rid_hex ex_env [1] \<mapsto> ''0x''], 1, 0)"
    by (simp add: ex_events_between ex_env_def [THEN arg_cong, of encode_hex])
  then have "event_trace (watch_run ex_env [?inp, ?inp'] ex_start) = ([rid_hex ex_env [1] \<mapsto> ''0x''], 1, 0)"
    using denied_challenge_lost [of ex_env "[7]" ex_start "[ex_submission 1]" ?inp "[?inp']"] ex_first_cycle(1) [of "[ex_submission 1]" False] t
    by (simp add: start ex_submission_event)
  moreover have "event_trace (watch_cycle ex_env ?stop ex_start) = (Map.empty, 0, 0)"
    using denied_challenge_lost [of ex_env "[7]" ex_start "[ex_submission 1]" ?stop "[]"] t by (simp add: start ex_submission_event)
  moreover have "[7] \<notin> set (spawned (effects (watch_run ex_env [ex_cycle [ex_log] False, ex_cycle [ex_log] True] ex_start)))"
    using denied_challenge_lost [of ex_env "[7]" ex_start "[ex_log]" "ex_cycle [ex_log] False" "[ex_cycle [ex_log] True]"]
      ex_first_cycle(1) [of "[ex_log]" False] by (simp add: start)
  ultimately show ?thesis by (simp add: event_trace_def)
qed

text \<open>
  Three submissions that cannot be finalized (the chain answers with an error) block the others: the attempts
  count as failures of the chain, the third one opens its circuit breaker, and until the recovery timeout no later
  submission of the poll is tried, whether it could be finalized or not.
\<close>

theorem failed_finalizations_block:
  assumes "failure_threshold (chain_cfg env) = 3"
    and "\<forall>j. fst (finalize_clock inp j) - snd (snd (finalize_clock inp 2)) < recovery_timeout (chain_cfg env)"
    and "cb_state (chain_cb st) = Closed" "cb_failures (chain_cb st) = 0"
    and "\<not> finalize_ok inp r1" "\<not> finalize_ok inp r2" "\<not> finalize_ok inp r3"
    and "fst (guarded_poll (rpc_cfg env) (finalize_poll_times inp) (finalize_node inp) (contracts env) start (rpc_cb st)) =
         Some (WResultSubmitted r1 a1 b1 c1 d1 # WResultSubmitted r2 a2 b2 c2 d2 # WResultSubmitted r3 a3 b3 c3 d3 # evs, next_block)"
  shows "effects (auto_finalize env inp start st) = effects st @ [Finalize r1 False, Finalize r2 False, Finalize r3 False]"
  unfolding auto_finalize_effects [OF assms(8)] using finalize_blocked [OF assms(3,4,1,2,5-7)] by blast

theorem failed_finalizations_block_witness:
  "effects (auto_finalize ex_env ((ex_cycle [] True)\<lparr> finalize_node := ex_node (map ex_submission [1, 2, 3, 4]), finalize_ok := (\<lambda>r. r = [4]) \<rparr>) 0
      (watch_start ex_env (\<lambda>_. None) ex_outcome Map.empty))
   = [Finalize [1] False, Finalize [2] False, Finalize [3] False]"
proof -
  let ?st = "watch_start ex_env (\<lambda>_. None) ex_outcome Map.empty"
    and ?inp = "(ex_cycle [] True)\<lparr> finalize_node := ex_node (map ex_submission [1, 2, 3, 4]), finalize_ok := (\<lambda>r. r = [4]) \<rparr>"
  have start: "effects ?st = []" "rpc_cb ?st = breaker_new" "chain_cb ?st = breaker_new" by (simp_all add: watch_start_def Let_def)
  have "fst (guarded_poll (rpc_cfg ex_env) (0, 0, 0) (finalize_node ?inp) (contracts ex_env) 0 breaker_new) =
      Some (map (\<lambda>i. WResultSubmitted [i] [] (replicate 32 0) [] 5) [1, 2, 3, 4], 6)"
    by (simp add: guarded_poll_def allow_request_def maybe_transition_to_half_open_def breaker_new_def poll_events_def poll_with_def
        ex_node_def ex_env_def [THEN arg_cong, of contracts] ex_submission_event List.map_filter_def)
       (simp add: ex_submission_def block_of_def)
  then show ?thesis
    using failed_finalizations_block [of ex_env ?inp ?st "[1]" "[2]" "[3]" 0] start
    by (simp add: ex_env_def [THEN arg_cong, of chain_cfg] ex_cycle_def breaker_new_def)
qed

text \<open>
  C27. The task of a challenge returns, since the wait for a proof file ends, and counts its dispute once, as resolved
  or as failed, unless it dies of a panic. It submits at most one proof, for the challenged result: the decoded fields of the stored proof that it
  read; and when the local check knows the circuit description of that proof, the raw verifier has accepted exactly
  the proof bytes and generators that are submitted, with that description.
\<close>

theorem challenge_task_submits_verified:
  assumes "\<And>i. i div 2 \<le> fst (waiting env) i"
  shows "\<exists>out sent st'. handle_challenge env rid st = Some (out, sent, st') \<and> counted_once out st st'
    \<and> (submissions st' = submissions st
       \<or> (\<exists>p sub. stored_proof env p \<and> submissions st' = submissions st @ [sub] \<and> fst sub = rid \<and> decodes_stored (verifier env) p sub
            \<and> out = Answered (map_sum id fst (chain_client env sub))
            \<and> (\<forall>desc. known_desc env st p = Some desc \<longrightarrow> accepted_locally (verifier env) desc sub)))"
  using handle_challenge_ends [OF assms, of rid st] handle_challenge_counts [of env rid st] handle_challenge_submits [of env rid st]
  by blast

theorem challenge_task_submits_verified_witness:
  "accepted_locally ex_verifier (json_of_desc ex_desc) ([7], ex_proof, replicate 32 0, [], [])"
proof -
  have "i div 2 \<le> fst (waiting ex_task) i" for i by (simp add: ex_task_def)
  from challenge_task_submits_verified [OF this, of "[7]" ex_task_state] obtain out sent st'
    where r: "handle_challenge ex_task [7] ex_task_state = Some (out, sent, st')"
      "submissions st' = submissions ex_task_state
       \<or> (\<exists>p sub. stored_proof ex_task p \<and> submissions st' = submissions ex_task_state @ [sub]
            \<and> (\<forall>desc. known_desc ex_task ex_task_state p = Some desc \<longrightarrow> accepted_locally (verifier ex_task) desc sub))" by blast
  have "submissions ex_task_state = []" "verifier ex_task = ex_verifier" "stored_proof ex_task p \<Longrightarrow> p = ex_stored" for p
    by (simp_all add: ex_task_state_def ex_task_def stored_proof_def read_proof_def)
  then show ?thesis using r(2) ex_task_submits [OF r(1)] ex_known_desc by auto
qed

section \<open>Contract events\<close>

text \<open>
  The watcher's own decoder and the decoder of the event crate agree on every log: the watcher decodes a log
  exactly when the crate does and the event is one that it watches, with the same fields as far as it keeps them.
\<close>

theorem event_decoders_agree:
  "map_option to_tee_event (watcher_parse_log log) = Option.bind (parse_log (log_topics log) (log_data log)) watched"
  by (rule decoders_agree)

text \<open>
  The compile-time hash of the event signatures, which fills a buffer byte by byte and pads it in place, is the
  Keccak sponge: absorb the blocks of the padded input, squeeze 32 bytes.
\<close>

theorem keccak_is_sponge:
  "const_keccak input = squeeze32 (absorb_blocks (replicate 25 0) (input @ keccak_pad (length input)))
   \<and> (length input + length (keccak_pad (length input))) mod RATE = 0 \<and> length (const_keccak input) = 32"
  using const_keccak_spec [of input] padded_blocks [of "length input"] by (simp add: keccak256_spec_def)

section \<open>Alerts and deadlines\<close>

text \<open>
  After any sequence of sends, acknowledgements and escalation checks: the ids of the alerts that were sent are
  numbered without repetition and are the tracked ones, two alerts of the same type and source are at least the
  deduplication window apart, and the statistics count what was sent and acknowledged. A check escalates the
  critical alerts that are due to all channels, and leaves none due.
\<close>

theorem alert_accounting:
  assumes "alert_run cfg ops = (st, sent)" "length ops < 2 ^ 64"
  shows "distinct (map al_id sent) \<and> fst ` set (Alerting.alerts st) = al_id ` set sent
    \<and> dedup_spaced (dedup_window_secs cfg) sent
    \<and> total_sent (alert_stats st) = of_nat (length sent) \<and> total_acknowledged (alert_stats st) = of_nat (count_acked st)
    \<and> fst (check_escalations cfg now st) = pending_escalations cfg now st
    \<and> length (fst (snd (check_escalations cfg now st))) = pending_escalations cfg now st * length (channels cfg)
    \<and> (0 < escalation_timeout_secs cfg \<longrightarrow> pending_escalations cfg now (snd (snd (check_escalations cfg now st))) = 0)"
proof -
  have inv: "alert_inv cfg (st, sent)" using alert_run_inv [OF assms(2), of cfg] assms(1) by simp
  then have "tracked_ok st sent" "dedup_spaced (dedup_window_secs cfg) sent" "total_sent (alert_stats st) = of_nat (length sent)"
    "total_acknowledged (alert_stats st) = of_nat (count_acked st)" by (simp_all add: alert_inv_def)
  then show ?thesis using alert_inv_distinct [OF inv] check_escalations_counts [of cfg now st] pending_after_check [of st cfg now]
    by (simp add: tracked_ok_def)
qed

theorem alert_accounting_witness:
  "\<exists>st a. alert_run AlertConfig_default [(1000, Alerting.Send Alerting.Critical ''t'' ''s'' ''m'' []), (1100, Alerting.Send Alerting.Critical ''t'' ''s'' ''m'' [])]
       = (st, [a]) \<and> total_sent (alert_stats st) = 1 \<and> pending_escalations AlertConfig_default 2000 (snd (snd (check_escalations AlertConfig_default 2000 st))) = 0"
proof -
  let ?ops = "[(1000, Alerting.Send Alerting.Critical ''t'' ''s'' ''m'' []), (1100, Alerting.Send Alerting.Critical ''t'' ''s'' ''m'' [])]"
  obtain st sent where r: "alert_run AlertConfig_default ?ops = (st, sent)" by fastforce
  then have "length sent = 1"
    by (auto simp: alert_run_def send_alert_def suppressed_def AlertState_default_def AlertConfig_default_def Let_def)
  then obtain a where "sent = [a]" by (cases sent) auto
  with alert_accounting [OF r, of 2000] r show ?thesis by (simp add: AlertConfig_default_def)
qed

text \<open>
  The alerts of a dispute rise: as long as it is not removed, over any sequence of operations the levels that
  were raised for it (warning, critical, expired) increase strictly, so that none is raised twice; and after a check
  an alert has been raised at least at the level that the time left until its deadline calls for.
\<close>

theorem deadline_alerts:
  assumes "monitor_run ops (monitor_with_thresholds w c) = (m, log)" "Remove k \<notin> set ops"
    and "map_of (Deadline_Monitor.disputes m) k = Some info" "level_at m now info = Some l"
    and "monitor_run (ops @ [Deadline_Monitor.Check now]) (monitor_with_thresholds w c) = (m', log')"
  shows "sorted_wrt (<) (map (\<lambda>l. level_rank (Some l)) (levels_of k log'))
    \<and> (\<exists>l' \<in> set (levels_of k log'). level_rank (Some l) \<le> level_rank (Some l'))"
proof -
  have inv: "alerts_inv k (m, log)" using alerts_inv_run [OF alerts_inv_new assms(2), of w c] assms(1) by simp
  have step: "monitor_step (Deadline_Monitor.Check now) (m, log) = (m', log')" using assms(1,5) by (simp add: monitor_run_def)
  show ?thesis using check_covers [OF inv assms(3) step assms(4)] alerts_inv_check [OF inv, of now] step by (simp add: alerts_inv_def)
qed

theorem deadline_alerts_witness:
  "\<exists>l' \<in> set (levels_of (1 :: nat) (snd (monitor_run ([Track 0 1 () 1000] @ [Deadline_Monitor.Check 950]) (monitor_with_thresholds 300 60)))).
     2 \<le> level_rank (Some l')"
proof -
  let ?m = "monitor_with_thresholds 300 60 :: (nat, unit) DeadlineMonitor"
  obtain m log where r: "monitor_run [Track 0 1 () 1000] ?m = (m, log)" by fastforce
  then have m: "m = track_dispute 0 1 () 1000 ?m" by (simp add: monitor_run_def)
  obtain m' log' where r': "monitor_run ([Track 0 1 () 1000] @ [Deadline_Monitor.Check 950]) ?m = (m', log')" by fastforce
  have "\<exists>info. map_of (Deadline_Monitor.disputes m) 1 = Some info \<and> level_at m 950 info = Some CriticalLevel"
    by (simp add: m track_dispute_def monitor_with_thresholds_def level_at_def)
  then show ?thesis using deadline_alerts [OF r _ _ _ r'] r' by fastforce
qed

section \<open>Tenants\<close>

text \<open>
  C28. Over any sequence of operations (with generated keys that are not in use), the two indexes of the tenant store
  stay inverse to each other, from an empty store or from a file without repeated ids and keys: the tenant of a key has
  that key and is found by its id. A store that was written to its file is restored from it.
\<close>

theorem tenant_store_consistent:
  assumes "s0 = store_new \<or> s0 = tenants_load tf" "\<forall>ts. tf = Holds ts \<longrightarrow> distinct (map t_id ts) \<and> distinct (map t_api_key ts)"
    and "tenant_step\<^sup>*\<^sup>* s0 s"
  shows "store_ok s \<and> (get_by_key k s = Some t \<longrightarrow> get_by_id (t_id t) s = Some t \<and> t_api_key t = k)
    \<and> (has_file s \<longrightarrow> tenants_by_key (tenants_load (tfile (save_to_file Written s))) = tenants_by_key s
        \<and> map_of (id_to_key (tenants_load (tfile (save_to_file Written s)))) = map_of (id_to_key s))"
proof -
  have "store_ok (tenants_load tf)"
    using assms(2) store_ok_load_file by (cases tf) (auto simp: tenants_load_def store_ok_def)
  then have "store_ok s0" using assms(1) store_ok_new by blast
  with assms(3) have ok: "store_ok s" by (rule store_ok_steps)
  then show ?thesis using get_by_key_id [OF ok, of k t] tenant_file_restores [OF ok] by blast
qed

theorem tenant_store_consistent_witness:
  "store_ok (snd (revoke Written ''acme'' ex_store)) \<and> get_by_id ''acme'' ex_store \<noteq> None"
proof -
  have c: "tenant_step store_new ex_store" unfolding ex_store_def by (rule tenant_step.created) (simp add: store_new_def)
  have "tenant_step\<^sup>*\<^sup>* store_new (snd (revoke Written ''acme'' ex_store))"
    using c tenant_step.revoked [of ex_store Written "''acme''"] by (meson converse_rtranclp_into_rtranclp r_into_rtranclp)
  then show ?thesis
    using tenant_store_consistent [of store_new tenant_file.Missing "snd (revoke Written ''acme'' ex_store)"]
      tenant_store_consistent [of store_new tenant_file.Missing ex_store "generate_api_key 2 3" "new_tenant ex_entropy ''acme'' ''Acme'' 60"] c
    by (simp add: r_into_rtranclp get_by_key_def ex_store_maps new_tenant_def)
qed

text \<open>
  After a tenant is revoked, and whatever follows, a request with its key passes the middleware exactly when it
  asks for the health check, when the key is one of the configured keys as well, or when authentication is open: no
  key is configured and no tenant is active. So revoking the last active tenant admits every request.
\<close>

theorem revoked_key_rejected:
  assumes "store_ok s" "map_of (id_to_key s) i = Some k" "tenant_step\<^sup>*\<^sup>* (snd (revoke w i s)) s'"
    and "tenant_store a = Some s'"
  shows "fst (auth_middleware secs path (Some k) a) = Pass \<longleftrightarrow>
    path = ''/health'' \<or> k \<in> set (legacy_keys a) \<or> legacy_keys a = [] \<and> (\<forall>k'. get_by_key k' s' = None)"
proof -
  have ok: "store_ok s'" using store_ok_steps [OF assms(3)] store_ok_revoke(1) [OF assms(1)] by blast
  have "get_by_key k s' = None"
    using key_revoked_get key_revoked_steps [OF assms(3)] store_ok_revoke(1) [OF assms(1)] revoke_revokes(2) [OF assms(1,2)] by blast
  then show ?thesis unfolding auth_decision
    using assms(4) active_count_zero [OF store_okD(1) [OF ok]] by (auto simp: validate_key_def is_open_def)
qed

theorem revoked_key_rejected_witness:
  "fst (auth_middleware 0 ''/verify'' (Some (generate_api_key 2 3)) \<lparr> legacy_keys = [''k''], tenant_store = Some (snd (revoke Written ''acme'' ex_store)) \<rparr>) = Pass
     \<longleftrightarrow> generate_api_key 2 3 = ''k''"
  using revoked_key_rejected [OF ex_store_ok, of "''acme''" "generate_api_key 2 3" Written "snd (revoke Written ''acme'' ex_store)"
      "\<lparr> legacy_keys = [''k''], tenant_store = Some (snd (revoke Written ''acme'' ex_store)) \<rparr>" 0 "''/verify''"]
  by (simp add: ex_store_maps)
section \<open>Proofs on the prover side\<close>

text \<open>
  C29. What the prover encodes the verifier decodes. For a JSON proof with the contents \<open>p\<close> (its scalars given by their bytes, least
  significant first, its points of \<open>y\<^sup>2 = x\<^sup>3 + 3\<close> compressed to \<open>x\<close> and the parity of \<open>y\<close>), the encoder writes the selector, the
  hash of the circuit and a body, and the decoder of the verifier, started behind the selector, reads from it the layer proofs,
  the embedded public inputs, the proofs of the input layers and the claims on public values of \<open>p\<close>. The field of the curve computes modulo \<open>P\<close>, where square
  roots are unique up to their sign. The arrays of the proof have at most \<open>MAX_ARRAY_LEN\<close> entries, which the decoder demands and the encoder does not check.
\<close>

theorem proof_encoding_roundtrip:
  assumes "base_field P" "fq_laws fq val P" "json_proof ops hx P v p" "counts_ok p" "length chash = 32" "length (proof_body chash p) < 2 ^ 63"
  shows "\<exists>bytes. encode_hyrax_proof ops hx fq v chash = Inr bytes
    \<and> take 4 bytes = PROOF_SELECTOR \<and> take 32 (drop 4 bytes) = chash
    \<and> try_decode_proof_for_dag (drop 4 bytes) 0 =
      Inr (gkr_of p, embedded_of p, map input_of (hx_inputs p), map PublicValueClaim.truncate (hx_public_claims p))"
proof -
  have "fq_ok fq P" using assms(1,2) by (auto simp: fq_ok_def)
  then show ?thesis using assms(3-6) by (rule encode_decode_proof)
qed

theorem proof_encoding_roundtrip_witness:
  "\<exists>bytes. encode_hyrax_proof ex_pjson ex_hex_decode ex_fq ex_jproof (replicate 32 0) = Inr bytes
    \<and> map_sum id (\<lambda>(gkr, embedded, _). (output_claim_commitments gkr, embedded)) (try_decode_proof_for_dag (drop 4 bytes) 0)
      = Inr ([\<lparr>pt_x = from_u64 1, pt_y = from_u64 5\<rparr>], [from_u64 7, from_u64 0])"
  using proof_encoding_roundtrip [OF ex_base_field ex_fq_laws ex_json_proof ex_hproof_ok(1) length_replicate ex_hproof_ok(2)]
  by (auto simp: embedded_of_def gkr_of_def ex_hproof_def section_of_def ex_output_def)

text \<open>
  C30. The hash function that the verifier contract runs outside the chain is SHA-256: the tables of constants, the padding loop, the
  schedule filled in place and the rounds compute the function of FIPS 180-4, in which the constants are bits of roots of primes. The digest has 32 bytes, and the buffer that is reserved for the padded
  message is large enough.
\<close>

theorem sha256_is_fips:
  "sha256_native m = fips_sha256 m \<and> length (sha256_native m) = 32 \<and> length (sha_pad m) \<le> length m + 72 \<and> length (sha_pad m) mod 64 = 0"
  using length_sha_pad [of m] by (simp add: sha256_native_fips) (simp add: sha256_native_fips [symmetric])

text \<open>
  C31. The rule engine guest. On the words of an input whose vectors fit into its memory (and, if a rule has a pattern, whose texts have no
  \<open>*\<close>), the journal read back is the specified result: the records that each rule selects, where a condition is one of six
  relations on integers or of five on strings and a rule is the conjunction or the disjunction of its conditions; the aggregates
  over the selected records; the hash of the records, rules and aggregations in bytes. The one panic left is the allocation of a journal
  of \<open>2 ^ 31\<close> bytes or more.
\<close>

theorem rule_engine_journal:
  assumes "rule_input_ok (records, rules, aggs)" "\<And>m. length (sha256 m) = 32"
    and "(\<forall>rule \<in> set rules. \<forall>c \<in> set (conditions rule). cond_type c \<noteq> 5) \<or> (\<forall>r \<in> set records. \<forall>s \<in> set (str_fields r). 42 \<notin> set s)"
  shows "if 4 * (35 + (\<Sum>rule \<leftarrow> rules. 2 + 32 * length (filter (rule_holds rule) records)) + 3 * length aggs) < 2 ^ 31
    then \<exists>journal. rule_engine_main sha256 (rule_input_words (records, rules, aggs) @ rest) = Inr journal
      \<and> read_rule_output journal = Inr (rule_spec sha256 (records, rules, aggs), [])
    else rule_engine_main sha256 (rule_input_words (records, rules, aggs) @ rest) = rpanic Capacity_Overflow"
proof -
  have "word_count (rule_spec sha256 (records, rules, aggs)) =
      35 + (\<Sum>rule \<leftarrow> rules. 2 + 32 * length (filter (rule_holds rule) records)) + 3 * length aggs"
    by (simp add: word_count_def rule_spec_def Let_def comp_def mult.commute)
  then show ?thesis
    using rule_engine_main_eq [OF assms(1), of sha256 rest] rule_journal_reads [OF assms(1), of sha256] assms(2,3)
    by (simp add: no_stars_def)
qed

theorem rule_engine_journal_witness:
  "\<exists>journal out. rule_engine_main sha256_native (rule_input_words (amb_int (replicate 32 5))) = Inr journal
    \<and> read_rule_output journal = Inr (out, []) \<and> map flagged_ids (rule_results out) = [[replicate 32 5]]"
proof -
  let ?recs = "[\<lparr>rec_id = replicate 32 5, int_fields = [4], str_fields = []\<rparr>]"
  have "(\<Sum>rule \<leftarrow> [amb_rule]. 2 + 32 * length (filter (rule_holds rule) ?recs)) \<le> 34" by simp
  then show ?thesis
    using rule_engine_journal [of ?recs "[amb_rule]" "[]" sha256_native "[]", OF _ length_sha256_native] amb_ok [of "replicate 32 5"]
      amb_results(1) [of sha256_native "replicate 32 5"] by (auto simp: amb_int_def)
qed

text \<open>
  C32. The input hash in the journal does not bind the input: there are two inputs, both accepted, with different flagged records and the
  same hash, whatever the hash function is. The fields of a record are hashed without their number.
\<close>

theorem rule_hash_not_binding:
  assumes "\<And>m. length (sha256 m) = 32"
  shows "\<exists>a b ja jb x y. rule_input_ok a \<and> rule_input_ok b
    \<and> rule_engine_main sha256 (rule_input_words a) = Inr ja \<and> read_rule_output ja = Inr (x, [])
    \<and> rule_engine_main sha256 (rule_input_words b) = Inr jb \<and> read_rule_output jb = Inr (y, [])
    \<and> ro_input_hash x = ro_input_hash y \<and> map flagged_ids (rule_results x) \<noteq> map flagged_ids (rule_results y)"
proof -
  let ?i = "replicate 32 (0 :: u8)"
  have ok: "rule_input_ok (amb_int ?i)" "rule_input_ok (amb_str ?i)" using amb_ok [of ?i] by simp_all
  have hash: "ro_input_hash (rule_spec sha256 inp) = sha256 (rule_input_bytes inp)" for inp by (cases inp) (simp add: rule_spec_def)
  have "\<exists>j. rule_engine_main sha256 (rule_input_words inp) = Inr j \<and> read_rule_output j = Inr (rule_spec sha256 inp, [])"
    if "inp \<in> {amb_int ?i, amb_str ?i}" for inp
    using amb_journal [OF _ _ that, of sha256] assms by simp
  from this [of "amb_int ?i"] this [of "amb_str ?i"] show ?thesis
    using ok amb_hash [of ?i] amb_results [of sha256 ?i] hash by (metis insertCI list.inject not_Cons_self2)
qed

theorem rule_hash_not_binding_witness:
  "\<exists>a b x y. a \<noteq> b \<and> rmap (\<lambda>j. read_rule_output j) (rule_engine_main sha256_native (rule_input_words a)) = Inr (Inr (x, []))
    \<and> rmap (\<lambda>j. read_rule_output j) (rule_engine_main sha256_native (rule_input_words b)) = Inr (Inr (y, [])) \<and> ro_input_hash x = ro_input_hash y"
proof -
  obtain a b ja jb x y where r: "rule_engine_main sha256_native (rule_input_words a) = Inr ja" "read_rule_output ja = Inr (x, [])"
    "rule_engine_main sha256_native (rule_input_words b) = Inr jb" "read_rule_output jb = Inr (y, [])"
    "ro_input_hash x = ro_input_hash y" "map flagged_ids (rule_results x) \<noteq> map flagged_ids (rule_results y)"
    using rule_hash_not_binding [of sha256_native, OF length_sha256_native] by blast
  then have "a \<noteq> b" by force
  then show ?thesis using r by (intro exI [of _ a] exI [of _ b] exI [of _ x] exI [of _ y]) (simp add: rmap_def)
qed

text \<open>
  C33. The matchers of the rule engine. Substring search finds substrings. A pattern with \<open>*\<close> and \<open>?\<close> matches only what it means,
  and all that it means on texts without a \<open>*\<close>; one star to go back to is enough for that. A text that contains a \<open>*\<close> may be
  missed: the loop takes the star of the pattern for that byte.
\<close>

theorem glob_matcher:
  "(bytes_contains t p \<longleftrightarrow> sublist p t) \<and> (glob_match p t \<longrightarrow> glob p t) \<and> (42 \<notin> set t \<longrightarrow> (glob_match p t \<longleftrightarrow> glob p t))
    \<and> (\<exists>q u. glob q u \<and> \<not> glob_match q u)"
  using bytes_contains_iff glob_match_sound glob_match_complete glob_star_literal by blast

theorem glob_matcher_witness: "glob_match [97, 42, 99] [97, 98, 99] \<and> glob [97, 42, 99] [97, 98, 99] \<and> 42 \<notin> set [97, 98, 99 :: u8]"
proof -
  have "glob_match [97, 42, 99] [97, 98, 99]" by code_simp
  then show ?thesis using glob_matcher [of "[97, 98, 99]" "[97, 42, 99]"] by simp
qed

section \<open>The prover\<close>

text \<open>
  C34. Decomposed proving of an XGBoost input. The merged journal has the predictions and the flagged samples of the whole input, in
  order, and the hash of the first chunk. When the recursive wrapper succeeds, the job submits the seal of the first
  sub-proof together with the merged journal, which is not the journal of that proof.
\<close>

theorem decomposed_proof:
  assumes "xg_valid sd sha256 input" "min_input_size cfg \<le> length input" "xg_can_decompose sd input"
    and "plan_split cfg sqrt_ceil (xg_strategy sd) input = Inr n" "1 < n"
    and "\<forall>s j. xg_guest sd sha256 ops s = Some j \<longrightarrow> (\<exists>r. prove s = Inr r \<and> sub_journal r = j)"
    and "\<forall>s p. prove s = Inr p \<longrightarrow> journal_bytes ro (sub_receipt p) = sub_journal p"
  shows "\<exists>res. prove_decomposed_with_receipts cfg sqrt_ceil prove (xg_strategy sd) input = Inr res
    \<and> xg_combined sd sha256 ops input n (merged_journal res)
    \<and> (\<forall>mx prove_wrapper w. recursive_wrap ro mx prove_wrapper (xg_strategy sd) (receipts res) = Inr w \<longrightarrow>
         (\<exists>seal journal. decomp_proof (Inr w) res = Some (seal, journal)
            \<and> extract_seal ro (hd (receipts res)) = Inr seal \<and> journal \<noteq> journal_bytes ro (hd (receipts res))))"
  by (rule decomposed_submission [OF assms])

theorem decomposed_proof_witness:
  "\<exists>res. prove_decomposed_with_receipts ex_decomposer (\<lambda>n. n) ex_prove (xg_strategy ex_serde) ex_xg_bytes = Inr res
    \<and> xg_combined ex_serde sha256_native ex_f64_ops ex_xg_bytes 2 (merged_journal res)"
  using decomposed_proof [where sqrt_ceil = "\<lambda>n. n", OF ex_xg_valid _ ex_xg_decomposable ex_xg_plan _ ex_prove_guest]
  by (auto simp: ex_decomposer_def)

text \<open>
  C35. The proof cache. After any sequence of stores, lookups, cleanups and restarts, with writes to files that may fail half-way, a
  lookup returns only a proof that was stored under exactly that image, input and kind of proof, and that is not older than
  the time to live. The memory holds at most \<open>max_memory_entries\<close> proofs, or one if that is 0. A proof that was just stored is found.
\<close>

theorem proof_cache_sound:
  assumes "cache_run cfg bc P c" "bincode_ok bc" "key_wf k"
  shows "length (pc_memory c) \<le> max 1 (max_memory_entries cfg)
    \<and> (\<forall>p. fst (cache_get cfg bc now inst k c) = Some p \<longrightarrow> (k, p) \<in> P \<and> proof_fresh cfg now p)
    \<and> (\<forall>p w i. proof_fresh cfg now p \<longrightarrow> fst (cache_get cfg bc now inst k (cache_put cfg bc w i k p c)) = Some p)"
proof -
  have inv: "cache_inv cfg bc P c" by (rule cache_run_inv [OF assms(1,2)])
  obtain r c' where g: "cache_get cfg bc now inst k c = (r, c')" by (cases "cache_get cfg bc now inst k c")
  show ?thesis using cache_get_inv [OF inv assms(3) g] inv get_after_put [of cfg now] by (auto simp: g cache_inv_def memory_inv_def)
qed

theorem proof_cache_sound_witness:
  "fst (cache_get with_defaults ex_bincode 100 5 ex_key ex_proof_cache) = Some ex_cached
    \<and> proof_fresh with_defaults 100 ex_cached \<and> length (pc_memory ex_proof_cache) \<le> 1000"
  using proof_cache_sound [OF ex_cache_run ex_bincode_ok ex_key_wf, of 100 5] ex_cache_hit by (simp add: with_defaults_def)



text \<open>
  C37. Transactions are retried. A claim is sent between one and \<open>max_retries\<close> times (once when that is 0), and the loop ends: with the receipt of the last
  one, with its error, which is permanent (not one that \<open>is_retryable_error\<close> takes for transient) or came with the last attempt, or with an error of the node while the nonce is
  synchronized. A receipt is taken as success also when the transaction was reverted.
\<close>

theorem claims_retried:
  "(\<exists>r s'. send_claim_with_retry nd request cfg s = (r, s') \<and> tx_done nd cfg (Claim request) 0 (sent_txs s) r (sent_txs s'))
    \<and> (\<forall>h. answer nd (sent_txs s @ [(Claim request, current_nonce (sender_nonces s))]) = Receipt h False
        \<longrightarrow> fst (send_claim_with_retry nd request cfg s) = Inr \<lparr>result_hash = h, attempts_made = 1\<rparr>)"
proof (intro conjI allI impI)
  obtain r s' where "send_claim_with_retry nd request cfg s = (r, s')" by (cases "send_claim_with_retry nd request cfg s")
  then show "\<exists>r s'. send_claim_with_retry nd request cfg s = (r, s') \<and> tx_done nd cfg (Claim request) 0 (sent_txs s) r (sent_txs s')"
    using send_loop_done unfolding send_claim_with_retry_def by blast
next
  fix h assume "answer nd (sent_txs s @ [(Claim request, current_nonce (sender_nonces s))]) = Receipt h False"
  then show "fst (send_claim_with_retry nd request cfg s) = Inr \<lparr>result_hash = h, attempts_made = 1\<rparr>"
    using send_loop_receipt [of nd s "Claim request" h False cfg 0] by (simp add: send_claim_with_retry_def)
qed

theorem claims_retried_witness:
  "fst (send_claim_with_retry \<lparr>answer = (\<lambda>_. Receipt [3] False), tx_count = (\<lambda>_. Inr 0)\<rparr> 9 retry_default
     \<lparr>sent_txs = [], sender_nonces = nonce_new 4, slept = []\<rparr>) = Inr \<lparr>result_hash = [3], attempts_made = 1\<rparr>"
  by (rule claims_retried [THEN conjunct2, rule_format]) simp



text \<open>
  C39. What a job of the prover sends. It sends claims of its request, and, once the last of them has a receipt, submissions of one proof
  for that request. The proof was stored in the cache under the image, the input digest and the kind of the job, or it was
  made, whole or decomposed, from an input with the digest of the job, wherever the input came from. A job that succeeds has
  a receipt for its submission.
\<close>

theorem job_submissions:
  assumes "process_single_job env job w = (r, w')" "pf_reach (je_prefetch_cfg env) (je_sha256 env) ts (je_prefetcher env)"
    and "cache_run (je_cache_cfg env) (je_bincode env) P (wd_proofs w)" "bincode_ok (je_bincode env)" "key_wf (cache_key env job)"
  shows "\<exists>ns ms seal journal. txs w' = txs w @ claim_txs job ns @ submit_txs job seal journal ms
    \<and> (ms \<noteq> [] \<longrightarrow> ns \<noteq> [] \<and> mined env (txs w @ claim_txs job ns)
        \<and> ((\<exists>p. (cache_key env job, p) \<in> P \<and> proof_fresh (je_cache_cfg env) (je_unix env) p \<and> seal = cp_proof p \<and> journal = cp_journal p)
           \<or> (\<exists>elf input cycles. je_sha256 env input = input_hash job
               \<and> (job_decomposed env job elf input cycles = Some (seal, journal) \<or> je_prove env elf input = Inr (seal, journal, cycles)))))
    \<and> (\<forall>x. r = Inr x \<longrightarrow> ms \<noteq> [] \<and> mined env (txs w'))"
proof -
  let ?get = "cache_get (je_cache_cfg env) (je_bincode env) (je_unix env) (je_instant env) (cache_key env job) (wd_proofs w)"
  have "(cache_key env job, p) \<in> P \<and> proof_fresh (je_cache_cfg env) (je_unix env) p" if "fst ?get = Some p" for p
    using cache_get_inv [OF cache_run_inv [OF assms(3,4)] assms(5) prod.collapse [symmetric]] that by blast
  then show ?thesis using submitted_proof [OF assms(1,2)] unfolding job_sends_def justified_def by metis
qed

theorem job_submissions_witness:
  "\<exists>ns ms seal journal. txs (snd (process_single_job ex_job_env ex_private_job ex_world)) =
     claim_txs ex_private_job ns @ submit_txs ex_private_job seal journal ms"
  using job_submissions [where env = ex_job_env and job = ex_private_job and w = ex_world and ts = "[]" and P = "{(ex_key, ex_cached)}",
      OF prod.collapse [symmetric]] reach_new
    ex_cache_run ex_bincode_ok ex_key_wf by (fastforce simp: ex_job_env_simps ex_world_def)

text \<open>
  C40. A job with a private input whose program is in memory and whose proof is cached claims its request twice, when the first claim gets a receipt at once: before the input is fetched, and again on the path of the
  cached proof. On a chain that refuses the second claim, the job fails with the request claimed and no proof submitted.
\<close>

theorem private_claim_repeated:
  fixes w :: world and job :: QueuedJob
  defines "n \<equiv> current_nonce (sender_nonces (wd_sender w))"
  assumes "input_type job = 1" "je_private env = Some fetch" "fetch (input_url job) (request_id job) = Inr input"
    and "je_sha256 env input = input_hash job" "map_of (pg_memory (wd_programs w)) (image_id job) = Some elf"
    and "fst (cache_get (je_cache_cfg env) (je_bincode env) (je_unix env) (je_instant env) (cache_key env job) (wd_proofs w)) = Some p"
    and "answer (je_node env) (txs w @ claim_txs job [n]) = Receipt h st"
    and "answer (je_node env) (txs w @ claim_txs job [n, n + 1]) = Send_Error err"
    and "\<not> is_retryable_error err" "\<not> is_nonce_error err"
  shows "\<exists>w'. process_single_job env job w = (Inl (Tx_Error (Send_Failed 1 err)), w') \<and> txs w' = txs w @ claim_txs job [n, n + 1]"
  unfolding n_def by (rule private_cached_claims_twice [OF assms(2-11) [unfolded n_def]])

theorem private_claim_repeated_witness:
  "\<exists>w'. process_single_job ex_job_env ex_private_job ex_world = (Inl (Tx_Error (Send_Failed 1 ''execution reverted: NotPending'')), w')
    \<and> txs w' = claim_txs ex_private_job [4, 5]"
proof -
  have w: "wd_proofs ex_world = ex_proof_cache" "map_of (pg_memory (wd_programs ex_world)) (image_id ex_private_job) = Some [7]"
    "txs ex_world = []" "current_nonce (sender_nonces (wd_sender ex_world)) = 4"
    by (simp_all add: ex_world_def ex_private_job_def nonce_new_def)
  have j: "input_type ex_private_job = 1" "input_hash ex_private_job = sha256_native ex_input" by (simp_all add: ex_private_job_def)
  show ?thesis
    using private_claim_repeated [of ex_private_job ex_job_env "\<lambda>_ _. Inr ex_input" ex_input ex_world "[7]" ex_cached "[1]" True
        "''execution reverted: NotPending''", unfolded ex_job_env_simps w j, OF refl refl refl refl refl ex_cache_hit _ _ ex_reverted]
    by (simp add: ex_chain_node_def)
qed

end
